(* ===== verification/Ascs_Prelude.thy ===== *)
theory Ascs_Prelude
  imports Main "HOL-Library.Word"
begin

text \<open>
  What every component shares: bytes and byte strings, the arithmetic of \<open>size_t\<close> on the
  64-bit target (values are \<open>nat\<close> and the wrap-around is written out), the big-endian
  codec behind \<open>htons\<close>/\<open>htonl\<close>/\<open>ntohs\<close>/\<open>ntohl\<close>, in-place writes into a fixed
  array, and a locale for invariants of step relations.
\<close>

named_theorems size_t_simps "arithmetic of size_t"
named_theorems buf_simps "in-place array writes and slices"

section \<open>Bytes and machine sizes\<close>

type_synonym u8 = "8 word"
type_synonym bytes = "u8 list"

definition SIZE_MOD :: nat where
  "SIZE_MOD = 18446744073709551616"

definition SIZE_MAX :: nat where
  "SIZE_MAX = 18446744073709551615"

text \<open>\<open>(size_t) -1\<close>, the value the code uses for "not available".\<close>

abbreviation npos :: nat where
  "npos \<equiv> SIZE_MAX"

definition size_add :: "nat \<Rightarrow> nat \<Rightarrow> nat" where
  "size_add a b = (a + b) mod SIZE_MOD"

definition size_sub :: "nat \<Rightarrow> nat \<Rightarrow> nat" where
  "size_sub a b = (a + SIZE_MOD - b) mod SIZE_MOD"

lemma SIZE_MAX_eq: "SIZE_MAX = 2 ^ 64 - 1" and SIZE_MOD_eq: "SIZE_MOD = 2 ^ 64"
  by (simp_all add: SIZE_MAX_def SIZE_MOD_def)

lemma le_SIZE_MAX_iff: "n \<le> SIZE_MAX \<longleftrightarrow> n < SIZE_MOD"
  unfolding SIZE_MAX_def SIZE_MOD_def by linarith

lemma SIZE_MOD_pos [simp]: "0 < SIZE_MOD"
  by (simp add: SIZE_MOD_def)

lemma mod_SIZE_MOD_id [simp]: "n \<le> SIZE_MAX \<Longrightarrow> n mod SIZE_MOD = n"
  by (simp add: le_SIZE_MAX_iff)

lemma mod_SIZE_MOD_le [simp]: "n mod SIZE_MOD \<le> SIZE_MAX"
  by (simp add: le_SIZE_MAX_iff)

lemma size_add_le [simp]: "size_add a b \<le> SIZE_MAX"
  by (simp add: size_add_def)

lemma size_add_exact [size_t_simps]: "a + b \<le> SIZE_MAX \<Longrightarrow> size_add a b = a + b"
  by (simp add: size_add_def)

lemma size_sub_exact [size_t_simps]: "b \<le> a \<Longrightarrow> a \<le> SIZE_MAX \<Longrightarrow> size_sub a b = a - b"
proof -
  assume h: "b \<le> a" "a \<le> SIZE_MAX"
  then have "a + SIZE_MOD - b = (a - b) + SIZE_MOD" and "a - b \<le> SIZE_MAX" by simp_all
  then show ?thesis by (simp add: size_sub_def)
qed

lemma size_sub_wraps: "a < b \<Longrightarrow> b \<le> SIZE_MAX \<Longrightarrow> size_sub a b = a + SIZE_MOD - b"
  by (simp add: size_sub_def le_SIZE_MAX_iff)

lemma size_add_wraps:
  assumes "a \<le> SIZE_MAX" "b \<le> SIZE_MAX" "a + b > SIZE_MAX"
  shows "size_add a b = a + b - SIZE_MOD \<and> size_add a b < a \<and> size_add a b < b"
proof -
  have "a + b = (a + b - SIZE_MOD) + SIZE_MOD" "a + b - SIZE_MOD < SIZE_MOD"
    "a + b - SIZE_MOD < a" "a + b - SIZE_MOD < b"
    using assms by (simp_all add: SIZE_MAX_def SIZE_MOD_def)
  then show ?thesis unfolding size_add_def by (metis mod_add_self2 mod_less)
qed

lemma size_add_mod_left: "size_add (a mod SIZE_MOD) b = size_add a b"
  by (simp add: size_add_def mod_add_left_eq)

lemma size_sub_add_cancel:
  assumes "b \<le> SIZE_MAX"
  shows "size_sub ((b + s) mod SIZE_MOD) b = s mod SIZE_MOD"
proof -
  have "(b + s) mod SIZE_MOD + SIZE_MOD - b = (b + s) mod SIZE_MOD + (SIZE_MOD - b)"
    using assms by (simp add: le_SIZE_MAX_iff)
  then have "size_sub ((b + s) mod SIZE_MOD) b = (b + s + (SIZE_MOD - b)) mod SIZE_MOD"
    by (simp add: size_sub_def mod_add_left_eq)
  also have "b + s + (SIZE_MOD - b) = s + SIZE_MOD" using assms by (simp add: le_SIZE_MAX_iff)
  finally show ?thesis by simp
qed

section \<open>Big-endian numbers\<close>

text \<open>
  \<open>memcpy\<close> of a header field followed by \<open>ntohs\<close>/\<open>ntohl\<close> reads the bytes most
  significant first on every host; \<open>be_bytes\<close> is the way back.
\<close>

definition be_value :: "bytes \<Rightarrow> nat" where
  "be_value bs = foldl (\<lambda>acc b. 256 * acc + unat b) 0 bs"

fun be_bytes :: "nat \<Rightarrow> nat \<Rightarrow> bytes" where
  "be_bytes 0 v = []"
| "be_bytes (Suc n) v = be_bytes n (v div 256) @ [of_nat v]"

lemma be_value_Nil [simp]: "be_value [] = 0"
  by (simp add: be_value_def)

lemma be_value_snoc [simp]: "be_value (bs @ [b]) = 256 * be_value bs + unat b"
  by (simp add: be_value_def)

lemma length_be_bytes [simp]: "length (be_bytes n v) = n"
  by (induction n arbitrary: v) auto

lemma be_bytes_2: "be_bytes 2 v = [of_nat (v div 256), of_nat v]"
  by (simp add: numeral_2_eq_2)

lemma unat_u8_of_nat: "unat (of_nat v :: u8) = v mod 256"
  by (simp add: unat_of_nat)

lemma unat_u8_less: "unat (b :: u8) < 256"
  using unsigned_less [of b] by simp

lemma be_value_less: "be_value bs < 256 ^ length bs"
proof (induction bs rule: rev_induct)
  case Nil
  then show ?case by simp
next
  case (snoc b bs)
  have "256 * be_value bs + unat b < 256 * Suc (be_value bs)"
    using unat_u8_less [of b] by simp
  also have "\<dots> \<le> 256 * 256 ^ length bs"
    using snoc by (intro mult_le_mono2) simp
  finally show ?case by simp
qed

lemma be_value_be_bytes [simp]: "be_value (be_bytes n v) = v mod 256 ^ n"
proof (induction n arbitrary: v)
  case 0
  then show ?case by simp
next
  case (Suc n)
  have "be_value (be_bytes (Suc n) v) = 256 * ((v div 256) mod 256 ^ n) + v mod 256"
    using Suc by (simp add: unat_u8_of_nat)
  also have "\<dots> = v mod (256 * 256 ^ n)"
    by (metis mod_mult2_eq)
  finally show ?case by simp
qed

lemma be_bytes_be_value: "length bs = n \<Longrightarrow> be_bytes n (be_value bs) = bs"
proof (induction n arbitrary: bs)
  case 0
  then show ?case by simp
next
  case (Suc n)
  then obtain ys b where bs: "bs = ys @ [b]" "length ys = n"
    by (metis length_Suc_conv_rev)
  have "(256 * be_value ys + unat b) div 256 = be_value ys"
    using unat_u8_less [of b] by simp
  moreover have "(of_nat (256 * be_value ys + unat b) :: u8) = b"
  proof -
    have "unat (of_nat (256 * be_value ys + unat b) :: u8) = unat b"
      using unat_u8_less [of b] by (simp only: unat_u8_of_nat mod_mult_self4 mod_less)
    then show ?thesis by (rule word_unat_eq_iff [THEN iffD2])
  qed
  ultimately show ?case using Suc.IH [OF bs(2)] bs by simp
qed

section \<open>Slices and writes into a fixed array\<close>

definition chunk :: "nat \<Rightarrow> nat \<Rightarrow> 'a list \<Rightarrow> 'a list" where
  "chunk off n xs = take n (drop off xs)"

text \<open>
  \<open>memcpy\<close>/\<open>memmove\<close> of \<open>ys\<close> to offset \<open>off\<close> of an array, and a completed read of
  \<open>ys\<close> into it. The callers keep \<open>off + length ys\<close> inside the array.
\<close>

definition write_at :: "nat \<Rightarrow> 'a list \<Rightarrow> 'a list \<Rightarrow> 'a list" where
  "write_at off ys xs = take off xs @ ys @ drop (off + length ys) xs"

lemma length_chunk [buf_simps]: "off + n \<le> length xs \<Longrightarrow> length (chunk off n xs) = n"
  by (simp add: chunk_def)

lemma length_write_at [buf_simps]:
  "off + length ys \<le> length xs \<Longrightarrow> length (write_at off ys xs) = length xs"
  by (simp add: write_at_def)

lemma write_at_Nil [buf_simps]: "off + length ys \<le> length xs \<Longrightarrow> write_at off ys xs = [] \<longleftrightarrow> xs = []"
  by (metis length_0_conv length_write_at)

lemma take_write_at [buf_simps]:
  "off + length ys \<le> length xs \<Longrightarrow> take (off + length ys) (write_at off ys xs) = take off xs @ ys"
  by (simp add: write_at_def)

lemma take_write_at_0 [buf_simps]: "take (length ys) (write_at 0 ys xs) = ys"
  by (simp add: write_at_def)

lemma take_write_at_len [buf_simps]:
  "k = length ys \<Longrightarrow> off + k \<le> length xs \<Longrightarrow> take (off + k) (write_at off ys xs) = take off xs @ ys"
  "k = length ys \<Longrightarrow> take k (write_at 0 ys xs) = ys"
  by (simp_all add: write_at_def)

lemma take_le_write_at [buf_simps]:
  "k \<le> off \<Longrightarrow> off \<le> length xs \<Longrightarrow> take k (write_at off ys xs) = take k xs"
  by (simp add: write_at_def min_def)

lemma chunk_take: "off + n \<le> k \<Longrightarrow> chunk off n (take k xs) = chunk off n xs"
  by (simp add: chunk_def take_drop min_def)

lemma chunk_0 [simp]: "chunk 0 n xs = take n xs"
  by (simp add: chunk_def)

section \<open>Invariants of step relations\<close>

text \<open>
  Several components are step relations. A property that holds at the start and that every
  step keeps holds in every reachable state; each component interprets this locale with its
  own relation and invariant.
\<close>

inductive reach :: "('s \<Rightarrow> bool) \<Rightarrow> ('s \<Rightarrow> 's \<Rightarrow> bool) \<Rightarrow> 's \<Rightarrow> bool" for start step where
  reach_init: "start s \<Longrightarrow> reach start step s"
| reach_step: "reach start step s \<Longrightarrow> step s t \<Longrightarrow> reach start step t"

locale step_invariant =
  fixes start :: "'s \<Rightarrow> bool"
    and step :: "'s \<Rightarrow> 's \<Rightarrow> bool"
    and inv :: "'s \<Rightarrow> bool"
  assumes start_inv: "start s \<Longrightarrow> inv s"
    and step_inv: "step s t \<Longrightarrow> inv s \<Longrightarrow> inv t"
begin

lemma reachable_inv: "reach start step s \<Longrightarrow> inv s"
  by (induction rule: reach.induct) (auto intro: start_inv step_inv)

lemma steps_inv: "step\<^sup>*\<^sup>* s t \<Longrightarrow> inv s \<Longrightarrow> inv t"
  by (induction rule: rtranclp_induct) (auto intro: step_inv)

end

section \<open>Runs that come to rest\<close>

text \<open>
  \<open>measured w s\<close>: the state is one of those considered, and at most \<open>w\<close> steps are left. If every step lowers the number, runs are
  bounded by it, and a state in which nothing is left to do can be reached.
\<close>

locale step_measure =
  fixes step :: "'s \<Rightarrow> 's \<Rightarrow> bool"
    and measured :: "nat \<Rightarrow> 's \<Rightarrow> bool"
  assumes measure_step: "step s t \<Longrightarrow> measured w s \<Longrightarrow> \<exists>w1<w. measured w1 t"
begin

lemma bounded_steps: "(step ^^ k) s t \<Longrightarrow> measured w s \<Longrightarrow> \<exists>w1. measured w1 t \<and> k + w1 \<le> w"
proof (induction k arbitrary: t)
  case (Suc k)
  then obtain u where u: "(step ^^ k) s u" "step u t" by auto
  from Suc.IH [OF u(1) Suc.prems(2)] obtain w1 where "measured w1 u" "k + w1 \<le> w" by blast
  with measure_step [OF u(2)] show ?case by fastforce
qed auto

lemma comes_to_rest: "measured w s \<Longrightarrow> \<exists>k t w1. (step ^^ k) s t \<and> measured w1 t \<and> (\<nexists>u. step t u)"
proof (induction w arbitrary: s rule: less_induct)
  case (less w)
  show ?case
  proof (cases "\<exists>u. step s u")
    case True
    then obtain u where u: "step s u" by blast
    from measure_step [OF u less.prems] less.IH obtain k t w1 where "(step ^^ k) u t" "measured w1 t" "\<nexists>v. step t v" by blast
    with u show ?thesis by (meson relpowp_Suc_I2)
  next
    case False
    then show ?thesis using less.prems by (intro exI [of _ 0]) auto
  qed
qed

end

end
