(* ===== verification/Ascs_Config.thy ===== *)
theory Ascs_Config
  imports Ascs_Prelude
begin

text \<open>
  The build the models describe. \<open>config.h\<close> fixes every macro to a default that an
  application may override; the models take the defaults as constants, except the size of the
  message buffer and the width of the length header of \<open>ext/ext.h\<close>, which are a parameter
  (\<open>ext_cfg\<close>) because the correctness of the framing must not depend on them.
  The target is a 64-bit little-endian host with gcc or clang, a release build (asserts are
  no-ops) and a Boost.Asio of at least 1.13.
\<close>

definition ASCS_MAX_SEND_BUF :: nat where
  "ASCS_MAX_SEND_BUF = 1024 * 1024"

definition ASCS_MAX_RECV_BUF :: nat where
  "ASCS_MAX_RECV_BUF = 1024 * 1024"

definition ASCS_MAX_OBJECT_NUM :: nat where
  "ASCS_MAX_OBJECT_NUM = 4096"

definition ASCS_START_OBJECT_ID :: nat where
  "ASCS_START_OBJECT_ID = 0"

definition ASCS_GRACEFUL_SHUTDOWN_MAX_DURATION :: nat where
  "ASCS_GRACEFUL_SHUTDOWN_MAX_DURATION = 5"

definition ASCS_RECONNECT_INTERVAL :: int where
  "ASCS_RECONNECT_INTERVAL = 500"

definition ASCS_RECONNECT :: bool where
  "ASCS_RECONNECT = True"

definition ASCS_ASYNC_ACCEPT_NUM :: int where
  "ASCS_ASYNC_ACCEPT_NUM = 16"

definition ASCS_DELAY_CLOSE :: nat where
  "ASCS_DELAY_CLOSE = 0"

definition ASCS_MSG_RESUMING_INTERVAL :: nat where
  "ASCS_MSG_RESUMING_INTERVAL = 50"

definition ASCS_MSG_HANDLING_INTERVAL :: nat where
  "ASCS_MSG_HANDLING_INTERVAL = 50"

definition ASCS_UNPACKER_STRIPPED :: bool where
  "ASCS_UNPACKER_STRIPPED = True"

section \<open>The message buffer and the length header\<close>

record ext_cfg =
  msg_buffer_size :: nat
  huge_msg :: bool

definition default_ext_cfg :: ext_cfg where
  "default_ext_cfg = \<lparr>msg_buffer_size = 4000, huge_msg = False\<rparr>"

text \<open>A small buffer, for evaluating examples.\<close>

definition tiny_cfg :: ext_cfg where
  "tiny_cfg = \<lparr>msg_buffer_size = 8, huge_msg = False\<rparr>"

text \<open>\<open>ASCS_HEAD_LEN\<close>: \<open>sizeof(uint32_t)\<close> with \<open>ASCS_HUGE_MSG\<close>, else \<open>sizeof(uint16_t)\<close>.\<close>

definition head_len :: "ext_cfg \<Rightarrow> nat" where
  "head_len c = (if huge_msg c then 4 else 2)"

text \<open>The \<open>static_assert\<close> on the message buffer size.\<close>

definition valid_cfg :: "ext_cfg \<Rightarrow> bool" where
  "valid_cfg c \<longleftrightarrow> msg_buffer_size c \<le> 100 * 1024 * 1024 \<and> head_len c \<le> msg_buffer_size c"

definition head_H2N :: "ext_cfg \<Rightarrow> nat \<Rightarrow> bytes" where
  "head_H2N c v = be_bytes (head_len c) v"

definition head_N2H :: "ext_cfg \<Rightarrow> bytes \<Rightarrow> nat" where
  "head_N2H c bs = be_value (take (head_len c) bs)"

lemma head_len_pos [simp]: "0 < head_len c" and head_len_neq_0 [simp]: "head_len c \<noteq> 0"
  by (simp_all add: head_len_def)

lemma head_len_le: "head_len c \<le> 4"
  by (simp add: head_len_def)

lemma head_len_cases: "head_len c = 2 \<or> head_len c = 4"
  by (simp add: head_len_def)

lemma valid_cfg_default [simp]: "valid_cfg default_ext_cfg"
  by (simp add: valid_cfg_def default_ext_cfg_def head_len_def)

lemma valid_cfg_tiny [simp]: "valid_cfg tiny_cfg"
  by (simp add: valid_cfg_def tiny_cfg_def head_len_def)

lemma tiny_cfg_simps [simp]: "head_len tiny_cfg = 2" "msg_buffer_size tiny_cfg = 8" "\<not> huge_msg tiny_cfg"
  by (simp_all add: tiny_cfg_def head_len_def)

lemma length_head_H2N [simp]: "length (head_H2N c v) = head_len c"
  by (simp add: head_H2N_def)

lemma head_N2H_less: "head_N2H c bs < 2 ^ 32"
proof -
  have "head_N2H c bs < 256 ^ length (take (head_len c) bs)"
    unfolding head_N2H_def by (rule be_value_less)
  also have "\<dots> \<le> 256 ^ 4"
    using head_len_le [of c] by (intro power_increasing) auto
  finally show ?thesis by simp
qed

lemma head_N2H_not_npos [simp]: "head_N2H c bs \<noteq> npos"
  using head_N2H_less [of c bs] by (simp add: SIZE_MAX_def)

lemma valid_cfg_less_npos: "valid_cfg c \<Longrightarrow> n \<le> msg_buffer_size c \<Longrightarrow> n < npos"
  by (simp add: valid_cfg_def SIZE_MAX_def)

lemma valid_cfg_neq_npos: "valid_cfg c \<Longrightarrow> n \<le> msg_buffer_size c \<Longrightarrow> n \<noteq> npos"
  using valid_cfg_less_npos [of c n] by auto

lemma valid_cfg_head: "valid_cfg c \<Longrightarrow> head_len c \<le> msg_buffer_size c"
  by (simp add: valid_cfg_def)

lemma head_N2H_H2N:
  "v < 256 ^ head_len c \<Longrightarrow> head_N2H c (head_H2N c v @ bs) = v"
  by (simp add: head_N2H_def head_H2N_def)

lemma head_N2H_take:
  "head_len c \<le> n \<Longrightarrow> head_N2H c (take n bs) = head_N2H c bs"
  by (simp add: head_N2H_def min_def)

end
