(* ===== verification/Basic_Buffer.thy ===== *)
theory Basic_Buffer
  imports Ascs_Config
begin

text \<open>
  \<open>basic_buffer\<close> of \<open>ext/ext.h\<close>, the growable byte string the unpackers fill without
  initialising it, and \<open>split_string\<close>. The heap block is a list of \<open>cap\<close> bytes;
  \<open>unsigned\<close> is 32 bits wide and the products and shifts of \<open>reserve\<close> wrap.
  What \<open>realloc\<close> leaves in the new part of a block and whether it succeeds are parameters.
\<close>

unbundle bit_operations_syntax

record alloc_env =
  garbage :: "nat \<Rightarrow> u8"
  alloc_ok :: "nat \<Rightarrow> bool"

datatype bb_error = Length_error | Out_of_range | Bad_alloc

record basic_buffer =
  bb_buff :: "bytes option"
  bb_len :: nat
  bb_cap :: nat

definition UINT_MAX :: nat where
  "UINT_MAX = 4294967295"

definition uint32_of :: "nat \<Rightarrow> nat" where
  "uint32_of n = n mod 4294967296"

definition bb_new :: basic_buffer where
  "bb_new = \<lparr>bb_buff = None, bb_len = 0, bb_cap = 0\<rparr>"

definition bb_size :: "basic_buffer \<Rightarrow> nat" where
  "bb_size b = (if bb_buff b = None then 0 else bb_len b)"

definition bb_empty :: "basic_buffer \<Rightarrow> bool" where
  "bb_empty b \<longleftrightarrow> bb_len b = 0 \<or> bb_buff b = None"

definition bb_block :: "basic_buffer \<Rightarrow> bytes" where
  "bb_block b = (case bb_buff b of None \<Rightarrow> [] | Some m \<Rightarrow> m)"

text \<open>The bytes the buffer holds: what \<open>data()\<close> points to, \<open>size()\<close> bytes long.\<close>

definition bb_contents :: "basic_buffer \<Rightarrow> bytes" where
  "bb_contents b = take (bb_len b) (bb_block b)"

definition bb_realloc :: "alloc_env \<Rightarrow> bytes \<Rightarrow> nat \<Rightarrow> bytes" where
  "bb_realloc e m n = take n m @ map (garbage e) [length m..<n]"

text \<open>
  \<open>reserve\<close>: clamp to the current length, grow by doubling, round up to a multiple of 16,
  reallocate when the capacity changes.
\<close>

definition bb_grown :: "nat \<Rightarrow> nat \<Rightarrow> nat" where
  "bb_grown old capacity =
     (if old < capacity \<and> capacity < uint32_of (2 * old)
      then (if uint32_of (2 * old) > UINT_MAX then UINT_MAX else uint32_of (2 * old))
      else capacity)"

definition bb_rounded :: "nat \<Rightarrow> nat" where
  "bb_rounded capacity =
     (let new_cap = capacity AND uint32_of (push_bit 4 UINT_MAX)
      in if capacity > new_cap
         then (if capacity > new_cap + 16 \<or> new_cap + 16 > UINT_MAX then UINT_MAX else new_cap + 16)
         else new_cap)"

definition bb_reserve :: "alloc_env \<Rightarrow> nat \<Rightarrow> basic_buffer \<Rightarrow> bb_error + basic_buffer" where
  "bb_reserve e capacity b =
     (if capacity > UINT_MAX then Inl Length_error
      else
        let capacity = (if capacity < bb_len b then bb_len b else if capacity = 0 then 16 else capacity)
        in if capacity = bb_cap b then Inr b
           else
             let new_cap = bb_rounded (bb_grown (bb_cap b) capacity)
             in if new_cap = bb_cap b then Inr b
                else if \<not> alloc_ok e new_cap then Inl Bad_alloc
                else Inr (b\<lparr>bb_buff := Some (bb_realloc e (bb_block b) new_cap), bb_cap := uint32_of new_cap\<rparr>))"

definition bb_shrink_to_fit :: "alloc_env \<Rightarrow> basic_buffer \<Rightarrow> bb_error + basic_buffer" where
  "bb_shrink_to_fit e b = bb_reserve e 0 b"

definition bb_resize :: "alloc_env \<Rightarrow> nat \<Rightarrow> basic_buffer \<Rightarrow> bb_error + basic_buffer" where
  "bb_resize e n b =
     (case (if n > bb_cap b then bb_reserve e n b else Inr b) of
        Inl x \<Rightarrow> Inl x
      | Inr b' \<Rightarrow> Inr (b'\<lparr>bb_len := uint32_of n\<rparr>))"

definition bb_check_length :: "nat \<Rightarrow> basic_buffer \<Rightarrow> bool" where
  "bb_check_length add_len b \<longleftrightarrow> \<not> (add_len > UINT_MAX \<or> UINT_MAX - add_len < bb_len b)"

text \<open>\<open>append(const char*, size_t)\<close>; a null source is \<open>None\<close>.\<close>

definition bb_append :: "alloc_env \<Rightarrow> bytes option \<Rightarrow> basic_buffer \<Rightarrow> bb_error + basic_buffer" where
  "bb_append e src b =
     (case src of
        None \<Rightarrow> Inr b
      | Some bs \<Rightarrow>
          if length bs = 0 then Inr b
          else if \<not> bb_check_length (length bs) b then Inl Length_error
          else
            let capacity = bb_len b + length bs
            in case (if capacity > bb_cap b then bb_reserve e capacity b else Inr b) of
                 Inl x \<Rightarrow> Inl x
               | Inr b' \<Rightarrow> Inr (b'\<lparr>bb_buff := Some (write_at (bb_len b') bs (bb_block b')),
                                  bb_len := uint32_of (bb_len b' + uint32_of (length bs))\<rparr>))"

text \<open>\<open>append(size_t, char)\<close> fills with \<open>memset\<close>.\<close>

definition bb_append_fill :: "alloc_env \<Rightarrow> nat \<Rightarrow> u8 \<Rightarrow> basic_buffer \<Rightarrow> bb_error + basic_buffer" where
  "bb_append_fill e count ch b =
     (if count > 0
      then
        if \<not> bb_check_length count b then Inl Length_error
        else
          let capacity = bb_len b + count
          in case (if capacity > bb_cap b then bb_reserve e capacity b else Inr b) of
               Inl x \<Rightarrow> Inl x
             | Inr b' \<Rightarrow> Inr (b'\<lparr>bb_buff := Some (write_at (bb_len b') (replicate count ch) (bb_block b')),
                                bb_len := uint32_of (bb_len b' + uint32_of count)\<rparr>)
      else Inr b)"

text \<open>
  A C string is the bytes in front of its terminator; \<open>append(const char*)\<close> copies them,
  \<open>append2(const char*)\<close> copies the terminator too, and \<open>append2(const char*, size_t)\<close>
  first deletes a terminator at the end of the buffer.
\<close>

definition bb_append_cstr :: "alloc_env \<Rightarrow> bytes \<Rightarrow> basic_buffer \<Rightarrow> bb_error + basic_buffer" where
  "bb_append_cstr e s b = bb_append e (Some (takeWhile (\<lambda>x. x \<noteq> 0) s)) b"

definition bb_append2_cstr :: "alloc_env \<Rightarrow> bytes \<Rightarrow> basic_buffer \<Rightarrow> bb_error + basic_buffer" where
  "bb_append2_cstr e s b = bb_append e (Some (takeWhile (\<lambda>x. x \<noteq> 0) s @ [0])) b"

definition bb_append2 :: "alloc_env \<Rightarrow> bytes option \<Rightarrow> basic_buffer \<Rightarrow> bb_error + basic_buffer" where
  "bb_append2 e src b =
     (case (if bb_len b > 0 \<and> bb_block b ! (bb_len b - 1) = 0 then bb_resize e (bb_len b - 1) b else Inr b) of
        Inl x \<Rightarrow> Inl x
      | Inr b' \<Rightarrow> bb_append e src b')"

definition bb_assign_size :: "alloc_env \<Rightarrow> nat \<Rightarrow> basic_buffer \<Rightarrow> bb_error + basic_buffer" where
  "bb_assign_size e n b = bb_resize e n b"

definition bb_assign :: "alloc_env \<Rightarrow> bytes option \<Rightarrow> basic_buffer \<Rightarrow> bb_error + basic_buffer" where
  "bb_assign e src b = (case bb_resize e 0 b of Inl x \<Rightarrow> Inl x | Inr b' \<Rightarrow> bb_append e src b')"

definition bb_erase :: "alloc_env \<Rightarrow> nat \<Rightarrow> nat \<Rightarrow> basic_buffer \<Rightarrow> bb_error + basic_buffer" where
  "bb_erase e pos n b =
     (if pos > bb_size b then Inl Out_of_range
      else if n \<ge> bb_size b then bb_resize e pos b
      else
        let start = bb_size b - n
        in if pos \<ge> start then bb_resize e pos b
           else
             let b' = b\<lparr>bb_buff := Some (write_at pos (chunk (pos + n) (bb_size b - pos - n) (bb_block b)) (bb_block b))\<rparr>
             in bb_resize e (bb_size b' - n) b')"

definition bb_clear :: "alloc_env \<Rightarrow> basic_buffer \<Rightarrow> bb_error + basic_buffer" where
  "bb_clear e b = bb_resize e 0 b"

definition bb_do_attach :: "bytes option \<Rightarrow> nat \<Rightarrow> nat \<Rightarrow> basic_buffer \<Rightarrow> basic_buffer" where
  "bb_do_attach m n c b = b\<lparr>bb_buff := m, bb_len := uint32_of n, bb_cap := uint32_of c\<rparr>"

definition bb_do_detach :: "basic_buffer \<Rightarrow> basic_buffer" where
  "bb_do_detach b = b\<lparr>bb_buff := None, bb_len := 0, bb_cap := 0\<rparr>"

definition bb_clean :: "basic_buffer \<Rightarrow> basic_buffer" where
  "bb_clean b = bb_do_detach b"

definition bb_swap :: "basic_buffer \<Rightarrow> basic_buffer \<Rightarrow> basic_buffer \<times> basic_buffer" where
  "bb_swap a b = (b, a)"

text \<open>The move constructor (the new object and what is left of the old one) and move assignment.\<close>

definition bb_move_construct :: "basic_buffer \<Rightarrow> basic_buffer \<times> basic_buffer" where
  "bb_move_construct other = (bb_do_attach (bb_buff other) (bb_len other) (bb_cap other) bb_new, bb_do_detach other)"

definition bb_move_assign :: "basic_buffer \<Rightarrow> basic_buffer \<Rightarrow> basic_buffer \<times> basic_buffer" where
  "bb_move_assign b other = bb_swap (bb_clean b) other"

text \<open>\<open>basic_buffer(other, pos, len)\<close>: the sum \<open>pos + len\<close> is taken in \<open>size_t\<close>.\<close>

definition bb_substr_construct ::
  "alloc_env \<Rightarrow> bytes \<Rightarrow> nat \<Rightarrow> nat \<Rightarrow> bb_error + basic_buffer" where
  "bb_substr_construct e other pos n =
     (if pos < length other
      then
        let n' = (if size_add pos n > length other then length other - pos else n)
        in if n' > UINT_MAX then Inl Length_error
           else bb_append e (Some (chunk pos n' other)) bb_new
      else Inr bb_new)"

section \<open>Invariant\<close>

definition bb_inv :: "basic_buffer \<Rightarrow> bool" where
  "bb_inv b \<longleftrightarrow> bb_len b \<le> bb_cap b \<and> bb_cap b \<le> UINT_MAX \<and>
     (case bb_buff b of None \<Rightarrow> bb_cap b = 0 | Some m \<Rightarrow> length m = bb_cap b)"

section \<open>Arithmetic of the capacity\<close>

lemma uint32_of_le [simp]: "n \<le> UINT_MAX \<Longrightarrow> uint32_of n = n"
  by (simp add: uint32_of_def UINT_MAX_def)

lemma nat_and_not_mask4:
  assumes "c \<le> UINT_MAX"
  shows "c AND uint32_of (push_bit 4 UINT_MAX) = c - c mod 16"
proof -
  have m: "uint32_of (push_bit 4 UINT_MAX) = push_bit 4 (mask 28)"
    by (simp add: uint32_of_def UINT_MAX_def push_bit_eq_mult mask_eq_exp_minus_1)
  have "c AND push_bit 4 (mask 28) = push_bit 4 (drop_bit 4 c AND mask 28)"
    by (rule bit_eqI) (auto simp: bit_simps)
  also have "drop_bit 4 c AND mask 28 = drop_bit 4 c"
  proof -
    have "drop_bit 4 c < 2 ^ 28"
      using assms by (simp add: drop_bit_eq_div UINT_MAX_def)
    then show ?thesis by (simp only: take_bit_eq_mask [symmetric] take_bit_nat_eq_self)
  qed
  also have "push_bit 4 (drop_bit 4 c) = c - c mod 16"
    by (simp add: push_bit_eq_mult drop_bit_eq_div minus_mod_eq_div_mult)
  finally show ?thesis using m by simp
qed

lemma bb_rounded_bounds:
  assumes "c \<le> UINT_MAX"
  shows "c \<le> bb_rounded c \<and> bb_rounded c \<le> UINT_MAX \<and> (16 dvd bb_rounded c \<or> bb_rounded c = UINT_MAX)"
proof -
  have d: "16 dvd c - c mod 16" by (rule dvd_minus_mod)
  have r: "c mod 16 < 16" by simp
  show ?thesis
  proof (cases "c mod 16 = 0")
    case True
    then show ?thesis using assms d by (simp add: bb_rounded_def nat_and_not_mask4)
  next
    case False
    have "c - c mod 16 < c" using False by (metis bot_nat_0.not_eq_extremum diff_less mod_0)
    moreover have "\<not> c > c - c mod 16 + 16" using r by linarith
    moreover have "c \<le> c - c mod 16 + 16" using r by linarith
    moreover have "16 dvd c - c mod 16 + 16" using d by (rule dvd_add) simp
    ultimately show ?thesis using assms by (auto simp: bb_rounded_def nat_and_not_mask4 Let_def)
  qed
qed

lemma bb_grown_bounds: "c \<le> UINT_MAX \<Longrightarrow> c \<le> bb_grown old c \<and> bb_grown old c \<le> UINT_MAX"
  by (auto simp: bb_grown_def)

lemma bb_capacity_bounds:
  "c \<le> UINT_MAX \<Longrightarrow> c \<le> bb_rounded (bb_grown old c) \<and> bb_rounded (bb_grown old c) \<le> UINT_MAX"
  using bb_grown_bounds [of c old] bb_rounded_bounds [of "bb_grown old c"] by linarith

section \<open>Correctness of the operations\<close>

lemma bb_realloc_length [simp]: "length (bb_realloc e m n) = n"
  by (simp add: bb_realloc_def)

lemma bb_realloc_take: "k \<le> n \<Longrightarrow> k \<le> length m \<Longrightarrow> take k (bb_realloc e m n) = take k m"
  by (simp add: bb_realloc_def min_def)

lemma bb_inv_new [simp]: "bb_inv bb_new"
  by (simp add: bb_inv_def bb_new_def)

lemma bb_new_fields [simp]: "bb_len bb_new = 0" "bb_cap bb_new = 0" "bb_buff bb_new = None"
  by (simp_all add: bb_new_def)

lemma bb_contents_new [simp]: "bb_contents bb_new = []"
  by (simp add: bb_contents_def bb_new_def)

lemma bb_inv_block: "bb_inv b \<Longrightarrow> length (bb_block b) = bb_cap b"
  by (auto simp: bb_inv_def bb_block_def split: option.splits)

lemma bb_inv_len: "bb_inv b \<Longrightarrow> bb_len b \<le> bb_cap b \<and> bb_cap b \<le> UINT_MAX"
  by (simp add: bb_inv_def)

lemma bb_size_len: "bb_inv b \<Longrightarrow> bb_size b = bb_len b"
  by (auto simp: bb_inv_def bb_size_def split: option.splits)

lemma bb_length_contents: "bb_inv b \<Longrightarrow> length (bb_contents b) = bb_len b"
  by (simp add: bb_contents_def bb_inv_block bb_inv_len)

lemma bb_reserve_Inr:
  assumes inv: "bb_inv b" and r: "bb_reserve e n b = Inr b'"
  shows "bb_inv b' \<and> bb_contents b' = bb_contents b \<and> bb_len b' = bb_len b \<and> n \<le> bb_cap b'"
proof -
  define c where "c = (if n < bb_len b then bb_len b else if n = 0 then 16 else n)"
  from r have n: "n \<le> UINT_MAX" by (simp add: bb_reserve_def split: if_splits)
  have c: "c \<le> UINT_MAX" "n \<le> c" "bb_len b \<le> c"
    using n bb_inv_len [OF inv] by (auto simp: c_def UINT_MAX_def)
  let ?k = "bb_rounded (bb_grown (bb_cap b) c)"
  have k: "c \<le> ?k" "?k \<le> UINT_MAX" using bb_capacity_bounds [OF c(1)] by auto
  have "b' = b \<and> (c = bb_cap b \<or> ?k = bb_cap b) \<or>
        b' = b\<lparr>bb_buff := Some (bb_realloc e (bb_block b) ?k), bb_cap := uint32_of ?k\<rparr>"
    using r n by (auto simp: bb_reserve_def c_def [symmetric] Let_def split: if_splits)
  then show ?thesis
  proof
    assume "b' = b \<and> (c = bb_cap b \<or> ?k = bb_cap b)"
    then show ?thesis using inv c k by auto
  next
    assume b': "b' = b\<lparr>bb_buff := Some (bb_realloc e (bb_block b) ?k), bb_cap := uint32_of ?k\<rparr>"
    have "take (bb_len b) (bb_realloc e (bb_block b) ?k) = take (bb_len b) (bb_block b)"
      using c k bb_inv_block [OF inv] bb_inv_len [OF inv] by (intro bb_realloc_take) auto
    then show ?thesis using b' c k by (auto simp: bb_inv_def bb_contents_def bb_block_def)
  qed
qed

text \<open>Apart from a failing \<open>realloc\<close>, \<open>reserve\<close> fails exactly above \<open>max_size()\<close>.\<close>

lemma bb_reserve_fails:
  "bb_reserve e n b = Inl x \<Longrightarrow> (x = Length_error \<and> n > UINT_MAX) \<or> (x = Bad_alloc \<and> (\<exists>k. \<not> alloc_ok e k))"
  by (auto simp: bb_reserve_def Let_def split: if_splits)

lemma bb_make_room:
  assumes "bb_inv b" and "(if n > bb_cap b then bb_reserve e n b else Inr b) = Inr b'"
  shows "bb_inv b' \<and> bb_contents b' = bb_contents b \<and> bb_len b' = bb_len b \<and> n \<le> bb_cap b'"
  using assms bb_reserve_Inr [of b e n b'] by (auto split: if_splits)

lemma bb_resize_Inr:
  assumes inv: "bb_inv b" and r: "bb_resize e n b = Inr b'"
  shows "bb_inv b' \<and> bb_len b' = n \<and> take (min n (bb_len b)) (bb_contents b') = take n (bb_contents b)"
proof -
  obtain b1 where b1: "(if n > bb_cap b then bb_reserve e n b else Inr b) = Inr b1"
    and b': "b' = b1\<lparr>bb_len := uint32_of n\<rparr>"
    using r by (auto simp: bb_resize_def split: sum.splits)
  have R: "bb_inv b1" "bb_contents b1 = bb_contents b" "bb_len b1 = bb_len b" "n \<le> bb_cap b1"
    using bb_make_room [OF inv b1] by auto
  then have n: "n \<le> UINT_MAX" using bb_inv_len by (metis le_trans)
  have "take (min n (bb_len b)) (take n (bb_block b1)) = take n (take (bb_len b1) (bb_block b1))"
    using R by (simp add: min_def)
  also have "take (bb_len b1) (bb_block b1) = bb_contents b"
    using R by (simp add: bb_contents_def)
  finally show ?thesis
    using R n b' by (auto simp: bb_inv_def bb_contents_def bb_block_def split: option.splits)
qed

lemma bb_resize_shrink:
  assumes "bb_inv b" "n \<le> bb_len b"
  shows "bb_resize e n b = Inr (b\<lparr>bb_len := n\<rparr>) \<and> bb_inv (b\<lparr>bb_len := n\<rparr>) \<and>
         bb_contents (b\<lparr>bb_len := n\<rparr>) = take n (bb_contents b)"
proof -
  have "n \<le> bb_cap b" "n \<le> UINT_MAX" using assms bb_inv_len [OF assms(1)] by auto
  then show ?thesis
    using assms
    by (auto simp: bb_resize_def bb_inv_def bb_contents_def bb_block_def min_def split: option.splits)
qed

lemma bb_append_Inr:
  assumes inv: "bb_inv b" and r: "bb_append e src b = Inr b'"
  shows "bb_inv b' \<and> bb_contents b' = bb_contents b @ (case src of None \<Rightarrow> [] | Some bs \<Rightarrow> bs)"
proof (cases "\<exists>bs. src = Some bs \<and> bs \<noteq> []")
  case False
  then have "b' = b \<and> (src = None \<or> src = Some [])"
    using r by (cases src) (auto simp: bb_append_def)
  then show ?thesis using inv by auto
next
  case True
  then obtain bs where src: "src = Some bs" "bs \<noteq> []" by blast
  from r src have ck: "bb_check_length (length bs) b" by (auto simp: bb_append_def split: if_splits)
  then have small: "bb_len b + length bs \<le> UINT_MAX"
    using bb_inv_len [OF inv] by (auto simp: bb_check_length_def)
  from r src ck obtain b1
    where b1: "(if bb_len b + length bs > bb_cap b then bb_reserve e (bb_len b + length bs) b else Inr b) = Inr b1"
      and b': "b' = b1\<lparr>bb_buff := Some (write_at (bb_len b1) bs (bb_block b1)),
                       bb_len := uint32_of (bb_len b1 + uint32_of (length bs))\<rparr>"
    unfolding bb_append_def Let_def by (auto split: sum.splits simp del: not_less)
  have R: "bb_inv b1" "bb_contents b1 = bb_contents b" "bb_len b1 = bb_len b" "bb_len b + length bs \<le> bb_cap b1"
    using bb_make_room [OF inv b1] by auto
  have L: "length (bb_block b1) = bb_cap b1" using R(1) by (rule bb_inv_block)
  have len': "bb_len b' = bb_len b + length bs" using b' R small by simp
  have fit: "bb_len b1 + length bs \<le> length (bb_block b1)" using R L by simp
  have "bb_contents b' = take (bb_len b1 + length bs) (write_at (bb_len b1) bs (bb_block b1))"
    using b' R small by (simp add: bb_contents_def bb_block_def)
  also have "\<dots> = bb_contents b1 @ bs" using take_write_at [OF fit] by (simp add: bb_contents_def)
  finally have "bb_contents b' = bb_contents b @ bs" using R by simp
  moreover have "bb_inv b'"
    using b' R small L length_write_at [OF fit] by (auto simp: bb_inv_def split: option.splits)
  ultimately show ?thesis using src by simp
qed

lemma bb_append_Inl:
  "bb_inv b \<Longrightarrow> bb_append e (Some bs) b = Inl x \<Longrightarrow>
   (x = Length_error \<and> bb_len b + length bs > UINT_MAX) \<or> (x = Bad_alloc \<and> (\<exists>k. \<not> alloc_ok e k))"
  using bb_inv_len [of b] bb_reserve_fails [of e "bb_len b + length bs" b x]
  by (auto simp: bb_append_def bb_check_length_def Let_def split: if_splits sum.splits)

lemma bb_append_fill_eq:
  "bb_inv b \<Longrightarrow> bb_append_fill e n ch b = bb_append e (Some (replicate n ch)) b"
  by (auto simp: bb_append_fill_def bb_append_def Let_def split: sum.splits)

text \<open>\<open>erase\<close> removes \<open>n\<close> bytes at \<open>pos\<close>, fewer when the string ends first.\<close>

lemma bb_erase_Inr:
  assumes inv: "bb_inv b" and pos: "pos \<le> bb_len b"
  shows "\<exists>b'. bb_erase e pos n b = Inr b' \<and> bb_inv b' \<and>
              bb_contents b' = take pos (bb_contents b) @ drop (pos + n) (bb_contents b)"
proof (cases "n \<ge> bb_size b \<or> pos \<ge> bb_size b - n")
  case True
  then have "drop (pos + n) (bb_contents b) = []"
    using inv by (simp add: bb_size_len bb_length_contents) linarith
  moreover have "bb_erase e pos n b = bb_resize e pos b"
    using True pos inv by (auto simp: bb_erase_def bb_size_len)
  ultimately show ?thesis using bb_resize_shrink [OF inv pos, of e] by auto
next
  case False
  then have "bb_size b > n" "pos < bb_size b - n" by simp_all
  then have pn: "pos + n < bb_len b" unfolding bb_size_len [OF inv] by simp
  let ?tail = "chunk (pos + n) (bb_size b - pos - n) (bb_block b)"
  define b1 where "b1 = b\<lparr>bb_buff := Some (write_at pos ?tail (bb_block b))\<rparr>"
  have bl: "length (bb_block b) = bb_cap b" and le: "bb_len b \<le> bb_cap b"
    using bb_inv_block [OF inv] bb_inv_len [OF inv] by auto
  have tl: "length ?tail = bb_len b - pos - n"
    using pn bl le inv by (simp add: bb_size_len length_chunk)
  have inv1: "bb_inv b1"
    using inv bl pn le tl by (auto simp: b1_def bb_inv_def length_write_at split: option.splits)
  have tail: "?tail = drop (pos + n) (bb_contents b)"
    using pn inv by (simp add: bb_size_len chunk_def bb_contents_def drop_take)
  have "take (bb_len b - n) (bb_contents b1) = take (pos + length ?tail) (write_at pos ?tail (bb_block b))"
    using pn tl by (simp add: b1_def bb_contents_def bb_block_def min_def)
  also have "\<dots> = take pos (bb_block b) @ ?tail"
    using pn tl bl le by (intro take_write_at) simp
  also have "take pos (bb_block b) = take pos (bb_contents b)"
    using pn by (simp add: bb_contents_def min_def)
  finally have C: "take (bb_len b - n) (bb_contents b1) = take pos (bb_contents b) @ drop (pos + n) (bb_contents b)"
    using tail by simp
  have len1: "bb_len b1 = bb_len b" by (simp add: b1_def)
  have "bb_erase e pos n b = bb_resize e (bb_size b1 - n) b1"
    using False pn inv by (auto simp: bb_erase_def b1_def bb_size_len Let_def)
  then show ?thesis
    using bb_resize_shrink [OF inv1, of "bb_len b - n" e] inv1 len1 C by (auto simp: bb_size_len)
qed

section \<open>Refinement of byte strings\<close>

text \<open>
  The operations as one step function, and what each may do to the byte string the buffer
  stands for. Growing by \<open>resize\<close> leaves the new bytes open: the code does not fill them.
\<close>

datatype bb_op =
    Op_append "bytes option"
  | Op_append_fill nat u8
  | Op_append_cstr bytes
  | Op_append2 "bytes option"
  | Op_append2_cstr bytes
  | Op_assign "bytes option"
  | Op_assign_size nat
  | Op_erase nat nat
  | Op_resize nat
  | Op_reserve nat
  | Op_shrink_to_fit
  | Op_clear
  | Op_clean

fun bb_exec :: "alloc_env \<Rightarrow> bb_op \<Rightarrow> basic_buffer \<Rightarrow> bb_error + basic_buffer" where
  "bb_exec e (Op_append src) b = bb_append e src b"
| "bb_exec e (Op_append_fill n ch) b = bb_append_fill e n ch b"
| "bb_exec e (Op_append_cstr s) b = bb_append_cstr e s b"
| "bb_exec e (Op_append2 src) b = bb_append2 e src b"
| "bb_exec e (Op_append2_cstr s) b = bb_append2_cstr e s b"
| "bb_exec e (Op_assign src) b = bb_assign e src b"
| "bb_exec e (Op_assign_size n) b = bb_assign_size e n b"
| "bb_exec e (Op_erase pos n) b = bb_erase e pos n b"
| "bb_exec e (Op_resize n) b = bb_resize e n b"
| "bb_exec e (Op_reserve n) b = bb_reserve e n b"
| "bb_exec e Op_shrink_to_fit b = bb_shrink_to_fit e b"
| "bb_exec e Op_clear b = bb_clear e b"
| "bb_exec e Op_clean b = Inr (bb_clean b)"

fun bb_run :: "alloc_env \<Rightarrow> bb_op list \<Rightarrow> basic_buffer \<Rightarrow> bb_error + basic_buffer" where
  "bb_run e [] b = Inr b"
| "bb_run e (x # xs) b = (case bb_exec e x b of Inl err \<Rightarrow> Inl err | Inr b' \<Rightarrow> bb_run e xs b')"

definition opt_bytes :: "bytes option \<Rightarrow> bytes" where
  "opt_bytes src = (case src of None \<Rightarrow> [] | Some bs \<Rightarrow> bs)"

definition c_str :: "bytes \<Rightarrow> bytes" where
  "c_str s = takeWhile (\<lambda>x. x \<noteq> 0) s"

fun bb_spec :: "bb_op \<Rightarrow> bytes \<Rightarrow> bytes \<Rightarrow> bool" where
  "bb_spec (Op_append src) xs ys \<longleftrightarrow> ys = xs @ opt_bytes src"
| "bb_spec (Op_append_fill n ch) xs ys \<longleftrightarrow> ys = xs @ replicate n ch"
| "bb_spec (Op_append_cstr s) xs ys \<longleftrightarrow> ys = xs @ c_str s"
| "bb_spec (Op_append2 src) xs ys \<longleftrightarrow>
     ys = (if xs \<noteq> [] \<and> last xs = 0 then butlast xs else xs) @ opt_bytes src"
| "bb_spec (Op_append2_cstr s) xs ys \<longleftrightarrow> ys = xs @ c_str s @ [0]"
| "bb_spec (Op_assign src) xs ys \<longleftrightarrow> ys = opt_bytes src"
| "bb_spec (Op_assign_size n) xs ys \<longleftrightarrow>
     length ys = n \<and> take (min n (length xs)) ys = take n xs"
| "bb_spec (Op_erase pos n) xs ys \<longleftrightarrow> pos \<le> length xs \<and> ys = take pos xs @ drop (pos + n) xs"
| "bb_spec (Op_resize n) xs ys \<longleftrightarrow> length ys = n \<and> take (min n (length xs)) ys = take n xs"
| "bb_spec (Op_reserve n) xs ys \<longleftrightarrow> ys = xs"
| "bb_spec Op_shrink_to_fit xs ys \<longleftrightarrow> ys = xs"
| "bb_spec Op_clear xs ys \<longleftrightarrow> ys = []"
| "bb_spec Op_clean xs ys \<longleftrightarrow> ys = []"

fun bb_spec_run :: "bb_op list \<Rightarrow> bytes \<Rightarrow> bytes \<Rightarrow> bool" where
  "bb_spec_run [] xs ys \<longleftrightarrow> ys = xs"
| "bb_spec_run (x # ops) xs ys \<longleftrightarrow> (\<exists>zs. bb_spec x xs zs \<and> bb_spec_run ops zs ys)"

lemma bb_resize_spec:
  assumes inv: "bb_inv b" and r: "bb_resize e n b = Inr b'"
  shows "bb_inv b' \<and> length (bb_contents b') = n \<and>
         take (min n (length (bb_contents b))) (bb_contents b') = take n (bb_contents b)"
  using bb_resize_Inr [OF inv r] inv by (simp add: bb_length_contents)

lemma bb_resize_0:
  assumes inv: "bb_inv b" and r: "bb_resize e 0 b = Inr b'"
  shows "bb_inv b' \<and> bb_contents b' = []"
  using bb_resize_spec [OF inv r] by simp

lemma last_take_nth: "0 < n \<Longrightarrow> n \<le> length xs \<Longrightarrow> last (take n xs) = xs ! (n - 1)"
  by (subst last_conv_nth) (auto simp: min_def)

lemma bb_append2_Inr:
  assumes inv: "bb_inv b" and r: "bb_append2 e src b = Inr b'"
  shows "bb_inv b' \<and> bb_spec (Op_append2 src) (bb_contents b) (bb_contents b')"
proof (cases "bb_len b > 0 \<and> bb_block b ! (bb_len b - 1) = 0")
  case True
  let ?b1 = "b\<lparr>bb_len := bb_len b - 1\<rparr>"
  have R: "bb_resize e (bb_len b - 1) b = Inr ?b1" "bb_inv ?b1"
    "bb_contents ?b1 = take (bb_len b - 1) (bb_contents b)"
    using bb_resize_shrink [OF inv, of "bb_len b - 1" e] by auto
  have "bb_append e src ?b1 = Inr b'" using r True R by (simp add: bb_append2_def)
  from bb_append_Inr [OF R(2) this] show ?thesis
    using True R inv bb_length_contents [OF inv] bb_inv_block [OF inv] bb_inv_len [OF inv]
    by (auto simp: opt_bytes_def butlast_conv_take last_take_nth min_def bb_contents_def)
next
  case False
  then have "bb_append e src b = Inr b'" using r by (auto simp: bb_append2_def)
  from bb_append_Inr [OF inv this] show ?thesis
    using False inv bb_length_contents [OF inv] bb_inv_block [OF inv] bb_inv_len [OF inv]
    by (auto simp: opt_bytes_def last_take_nth bb_contents_def)
qed

lemma bb_exec_refines:
  assumes inv: "bb_inv b" and r: "bb_exec e x b = Inr b'"
  shows "bb_inv b' \<and> bb_spec x (bb_contents b) (bb_contents b')"
proof (cases x)
  case (Op_append src)
  then show ?thesis using bb_append_Inr [OF inv] r by (simp add: opt_bytes_def)
next
  case (Op_append_fill n ch)
  then show ?thesis using bb_append_Inr [OF inv] r by (fastforce simp: bb_append_fill_eq [OF inv])
next
  case (Op_append_cstr s)
  then show ?thesis using bb_append_Inr [OF inv] r by (fastforce simp: bb_append_cstr_def c_str_def)
next
  case (Op_append2 src)
  then show ?thesis using bb_append2_Inr [OF inv] r by simp
next
  case (Op_append2_cstr s)
  then show ?thesis using bb_append_Inr [OF inv] r by (fastforce simp: bb_append2_cstr_def c_str_def)
next
  case (Op_assign src)
  with r obtain b1 where b1: "bb_resize e 0 b = Inr b1" "bb_append e src b1 = Inr b'"
    by (auto simp: bb_assign_def split: sum.splits)
  then show ?thesis
    using bb_append_Inr [of b1 e src b'] bb_resize_0 [OF inv b1(1)] Op_assign by (simp add: opt_bytes_def)
next
  case (Op_assign_size n)
  then show ?thesis using bb_resize_spec [OF inv] r by (simp add: bb_assign_size_def)
next
  case (Op_erase pos n)
  have pos: "pos \<le> bb_len b"
    using r Op_erase inv by (auto simp: bb_erase_def bb_size_len split: if_splits)
  from bb_erase_Inr [OF inv pos, of e n] show ?thesis
    using r Op_erase pos inv by (auto simp: bb_length_contents)
next
  case (Op_resize n)
  then show ?thesis using bb_resize_spec [OF inv] r by simp
next
  case (Op_reserve n)
  then show ?thesis using bb_reserve_Inr [OF inv] r by fastforce
next
  case Op_shrink_to_fit
  then show ?thesis using bb_reserve_Inr [OF inv] r by (fastforce simp: bb_shrink_to_fit_def)
next
  case Op_clear
  then show ?thesis using bb_resize_0 [OF inv] r by (simp add: bb_clear_def)
next
  case Op_clean
  then show ?thesis
    using r by (auto simp: bb_clean_def bb_do_detach_def bb_inv_def bb_contents_def bb_block_def)
qed

text \<open>
  C26. Every sequence of \<open>basic_buffer\<close> operations that raises no exception keeps the
  representation invariant (the length fits the capacity, the capacity is the size of the heap
  block and fits \<open>unsigned\<close>) and does to the stored byte string what each operation promises.
\<close>
theorem bb_run_refines:
  assumes "bb_inv b" and "bb_run e ops b = Inr b'"
  shows "bb_inv b' \<and> bb_spec_run ops (bb_contents b) (bb_contents b')"
  using assms
proof (induction ops arbitrary: b)
  case Nil
  then show ?case by simp
next
  case (Cons x ops)
  from Cons.prems(2) obtain b1 where b1: "bb_exec e x b = Inr b1" "bb_run e ops b1 = Inr b'"
    by (auto split: sum.splits)
  from bb_exec_refines [OF Cons.prems(1) b1(1)] Cons.IH [OF _ b1(2)] show ?case by auto
qed

definition demo_env :: alloc_env where
  "demo_env = \<lparr>garbage = (\<lambda>_. 0), alloc_ok = (\<lambda>_. True)\<rparr>"

lemma bb_first_append:
  assumes "bs \<noteq> []" "length bs \<le> 16"
  shows "bb_append demo_env (Some bs) bb_new =
         Inr \<lparr>bb_buff = Some (bs @ replicate (16 - length bs) 0), bb_len = length bs, bb_cap = 16\<rparr>"
proof -
  have u: "length bs \<le> UINT_MAX" "(16::nat) \<le> UINT_MAX" using assms by (simp_all add: UINT_MAX_def)
  have len: "length bs - length bs mod 16 + (if length bs mod 16 = 0 then 0 else 16) = 16"
    using assms by (cases "length bs = 16") (auto simp: Suc_le_eq)
  have g: "bb_grown 0 (length bs) = length bs" by (simp add: bb_grown_def uint32_of_def)
  have m: "length bs - length bs mod 16 \<le> length bs" by simp
  have "bb_rounded (length bs) = 16"
    using len u m assms unfolding bb_rounded_def nat_and_not_mask4 [OF u(1)] Let_def
    by (cases "length bs = 16") auto
  then show ?thesis
    using assms u g by (simp add: bb_append_def bb_check_length_def bb_reserve_def bb_new_def demo_env_def
        bb_realloc_def bb_block_def write_at_def map_replicate_const Let_def)
qed

lemma bb_append_fits:
  assumes "bb_buff b = Some m" "bs \<noteq> []" "bb_len b + length bs \<le> bb_cap b" "bb_cap b \<le> UINT_MAX"
  shows "bb_append e (Some bs) b =
         Inr (b\<lparr>bb_buff := Some (write_at (bb_len b) bs m), bb_len := bb_len b + length bs\<rparr>)"
  using assms by (auto simp: bb_append_def bb_check_length_def bb_block_def)

lemma bb_run_demo:
  "bb_run demo_env [Op_append (Some [1, 2, 3]), Op_erase 1 1] bb_new =
   Inr \<lparr>bb_buff = Some ([1, 3, 3] @ replicate 13 0), bb_len = 2, bb_cap = 16\<rparr>"
  by (simp add: bb_first_append bb_erase_def bb_size_def bb_block_def write_at_def chunk_def
      bb_resize_def Let_def uint32_of_def)

theorem bb_run_refines_witness:
  "bb_inv \<lparr>bb_buff = Some ([1, 3, 3] @ replicate 13 0), bb_len = 2, bb_cap = 16\<rparr>"
  using bb_run_refines [OF bb_inv_new bb_run_demo] by simp

text \<open>
  \<open>append\<close> is total where memory is available: it appends exactly the given bytes
  unless the length would exceed \<open>UINT_MAX\<close>, and then it raises \<open>length_error\<close>.
\<close>
theorem bb_append_total:
  assumes inv: "bb_inv b" and mem: "\<And>k. alloc_ok e k"
  shows "if bb_len b + length bs \<le> UINT_MAX
         then \<exists>b'. bb_append e (Some bs) b = Inr b' \<and> bb_inv b' \<and> bb_contents b' = bb_contents b @ bs
         else bb_append e (Some bs) b = Inl Length_error"
proof (cases "bb_len b + length bs \<le> UINT_MAX")
  case True
  with bb_append_Inl [OF inv] mem obtain b' where b': "bb_append e (Some bs) b = Inr b'"
    by (cases "bb_append e (Some bs) b") fastforce+
  from bb_append_Inr [OF inv b'] b' True show ?thesis by auto
next
  case False
  then have "bs \<noteq> []" using bb_inv_len [OF inv] by auto
  with False show ?thesis by (auto simp: bb_append_def bb_check_length_def)
qed

theorem bb_append_total_witness:
  "\<exists>b'. bb_append demo_env (Some [7]) bb_new = Inr b' \<and> bb_inv b' \<and> bb_contents b' = [7]"
  using bb_append_total [OF bb_inv_new, of demo_env "[7]"]
  by (simp add: demo_env_def bb_new_def UINT_MAX_def bb_contents_def bb_block_def)

text \<open>
  \<open>reserve\<close> bounds: it keeps the bytes, gives at least the capacity asked for, never more
  than \<open>UINT_MAX\<close>, and a changed capacity is a multiple of 16 or \<open>UINT_MAX\<close> itself.
\<close>
theorem bb_reserve_bounds:
  assumes inv: "bb_inv b" and r: "bb_reserve e n b = Inr b'"
  shows "bb_contents b' = bb_contents b \<and> n \<le> bb_cap b' \<and> bb_cap b' \<le> UINT_MAX \<and>
         (bb_cap b' = bb_cap b \<or> 16 dvd bb_cap b' \<or> bb_cap b' = UINT_MAX)"
proof -
  let ?c = "if n < bb_len b then bb_len b else if n = 0 then 16 else n"
  have R: "bb_inv b'" "bb_contents b' = bb_contents b" "n \<le> bb_cap b'"
    using bb_reserve_Inr [OF inv r] by auto
  have n: "n \<le> UINT_MAX" using r by (simp add: bb_reserve_def split: if_splits)
  then have c: "?c \<le> UINT_MAX" using bb_inv_len [OF inv] by (auto simp: UINT_MAX_def)
  have "bb_cap b' = bb_cap b \<or> bb_cap b' = bb_rounded (bb_grown (bb_cap b) ?c)"
    using r n bb_capacity_bounds [OF c, of "bb_cap b"]
    by (auto simp: bb_reserve_def Let_def split: if_splits)
  then show ?thesis
    using R bb_inv_len [OF R(1)] bb_rounded_bounds bb_grown_bounds [OF c, of "bb_cap b"] by metis
qed

theorem bb_reserve_bounds_witness:
  "bb_reserve demo_env 20 bb_new = Inr \<lparr>bb_buff = Some (replicate 32 0), bb_len = 0, bb_cap = 32\<rparr> \<and>
   20 \<le> bb_cap \<lparr>bb_buff = Some (replicate 32 (0::u8)), bb_len = 0, bb_cap = 32\<rparr>"
proof -
  have r: "bb_reserve demo_env 20 bb_new = Inr \<lparr>bb_buff = Some (replicate 32 0), bb_len = 0, bb_cap = 32\<rparr>"
    by (simp add: bb_reserve_def bb_rounded_def bb_grown_def bb_new_def bb_realloc_def bb_block_def
        demo_env_def nat_and_not_mask4 uint32_of_def UINT_MAX_def map_replicate_const)
  then show ?thesis using bb_reserve_bounds [OF bb_inv_new r] by simp
qed

text \<open>
  \<open>append2(const char*)\<close> does not delete a terminator that ends the buffer, although the
  comment above the \<open>append2\<close> family says so: two calls leave a NUL between the two strings,
  where \<open>append2(const char*, size_t)\<close> given the same bytes leaves none.
\<close>
theorem bb_append2_cstr_keeps_terminator:
  "map_sum id bb_contents (bb_run demo_env [Op_append2_cstr [65, 0], Op_append2_cstr [66, 0]] bb_new)
     = Inr [65, 0, 66, 0] \<and>
   map_sum id bb_contents (bb_run demo_env [Op_append2 (Some [65, 0]), Op_append2 (Some [66, 0])] bb_new)
     = Inr [65, 66, 0]"
  by (simp add: bb_append2_cstr_def bb_append2_def bb_first_append bb_append_fits bb_resize_def
      bb_block_def bb_contents_def write_at_def uint32_of_def UINT_MAX_def)

text \<open>
  The substring constructor takes the sum \<open>pos + len\<close> in \<open>size_t\<close>: with \<open>npos\<close> as
  the length, position 0 copies the whole string and every later position is refused.
\<close>

lemma bb_substr_npos:
  assumes "0 < pos" "pos < length other" "length other \<le> SIZE_MAX"
  shows "bb_substr_construct e other pos npos = Inl Length_error"
proof -
  have "size_add pos npos < pos"
    using size_add_wraps [of pos npos] assms by simp
  then have "\<not> size_add pos npos > length other" using assms by simp
  with assms show ?thesis
    unfolding bb_substr_construct_def Let_def by (simp add: SIZE_MAX_def UINT_MAX_def)
qed

end
