(* ===== verification/Packer.thy ===== *)
theory Packer
  imports Ascs_Config
begin

text \<open>
  The packers of \<open>ext/packer.h\<close>: the length-prefixed \<open>packer\<close>, the wrapper \<open>packer2\<close> over
  reference-counted buffers, \<open>fixed_length_packer\<close> and \<open>prefix_suffix_packer\<close>. A message is a
  byte string. The arrays \<open>pstr\<close>/\<open>len\<close> are a list of pieces, \<open>None\<close> for a null pointer, and
  \<open>None\<close> for the whole argument when one of the two arrays is null; the container overloads
  return \<open>None\<close> for \<open>false\<close> and else the container after the call.
\<close>

section \<open>packer_helper\<close>

type_synonym pieces = "bytes option list option"

fun size_check_loop :: "ext_cfg \<Rightarrow> nat \<Rightarrow> nat \<Rightarrow> bytes option list \<Rightarrow> nat" where
  "size_check_loop c total_len last_total_len [] = total_len"
| "size_check_loop c total_len last_total_len (None # ps) =
     size_check_loop c total_len last_total_len ps"
| "size_check_loop c total_len last_total_len (Some bs # ps) =
     (let total = size_add total_len (length bs)
      in if last_total_len > total \<or> total > msg_buffer_size c then npos
         else size_check_loop c total total ps)"

definition msg_size_check :: "ext_cfg \<Rightarrow> nat \<Rightarrow> pieces \<Rightarrow> nat" where
  "msg_size_check c pre_len pstr =
     (case pstr of None \<Rightarrow> npos | Some ps \<Rightarrow> size_check_loop c pre_len pre_len ps)"

text \<open>\<open>(ASCS_HEAD_TYPE) total_len\<close> keeps the low 16 or 32 bits.\<close>

definition head_cast :: "ext_cfg \<Rightarrow> nat \<Rightarrow> nat" where
  "head_cast c n = n mod 256 ^ head_len c"

definition pack_header :: "ext_cfg \<Rightarrow> nat \<Rightarrow> bytes" where
  "pack_header c len = (let total_len = size_add (head_len c) len in head_H2N c (head_cast c total_len))"

text \<open>The bytes of the non-null pieces, in order.\<close>

fun gather :: "bytes option list \<Rightarrow> bytes" where
  "gather [] = []"
| "gather (None # ps) = gather ps"
| "gather (Some bs # ps) = bs @ gather ps"

definition get_size_in_byte :: "('a \<Rightarrow> nat) \<Rightarrow> 'a list \<Rightarrow> nat" where
  "get_size_in_byte sz xs = foldl (\<lambda>acc x. size_add acc (sz x)) 0 xs"

section \<open>packer\<close>

definition get_max_msg_size :: "ext_cfg \<Rightarrow> nat" where
  "get_max_msg_size c = size_sub (msg_buffer_size c) (head_len c)"

definition packer_pack :: "ext_cfg \<Rightarrow> bool \<Rightarrow> pieces \<Rightarrow> bytes" where
  "packer_pack c native pstr =
     (let pre_len = (if native then 0 else head_len c);
          total_len = msg_size_check c pre_len pstr
      in if total_len \<noteq> npos \<and> total_len > pre_len
         then
           (if \<not> native
            then
              let head_len = head_cast c total_len
              in if total_len \<noteq> head_len then [] else head_H2N c head_len @ gather (the pstr)
            else gather (the pstr))
         else [])"

definition packer_pack1 :: "ext_cfg \<Rightarrow> bytes \<Rightarrow> bytes list \<Rightarrow> bytes list option" where
  "packer_pack1 c msg msg_can =
     (let len = length msg
      in if len > get_max_msg_size c then None else Some (msg_can @ [pack_header c len, msg]))"

definition packer_pack2 :: "ext_cfg \<Rightarrow> bytes \<Rightarrow> bytes \<Rightarrow> bytes list \<Rightarrow> bytes list option" where
  "packer_pack2 c msg1 msg2 msg_can =
     (let len = size_add (length msg1) (length msg2)
      in if len > get_max_msg_size c then None else Some (msg_can @ [pack_header c len, msg1, msg2]))"

definition packer_pack_all :: "ext_cfg \<Rightarrow> bytes list \<Rightarrow> bytes list \<Rightarrow> bytes list option" where
  "packer_pack_all c in_can out =
     (let len = get_size_in_byte length in_can
      in if len > get_max_msg_size c then None else Some (out @ [pack_header c len] @ in_can))"

definition packer_heartbeat :: "ext_cfg \<Rightarrow> bytes" where
  "packer_heartbeat c = pack_header c 0"

definition packer_raw_data :: "ext_cfg \<Rightarrow> bytes \<Rightarrow> bytes" where
  "packer_raw_data c msg = drop (head_len c) msg"

definition packer_raw_data_len :: "ext_cfg \<Rightarrow> bytes \<Rightarrow> nat" where
  "packer_raw_data_len c msg = size_sub (length msg) (head_len c)"

section \<open>object_buffer and packer2\<close>

text \<open>\<open>object_buffer\<close> of \<open>base.h\<close>: a smart pointer to a buffer, possibly null.\<close>

type_synonym object_buffer = "bytes option"

definition ob_empty :: "object_buffer \<Rightarrow> bool" where
  "ob_empty b \<longleftrightarrow> (case b of None \<Rightarrow> True | Some bs \<Rightarrow> bs = [])"

definition ob_size :: "object_buffer \<Rightarrow> nat" where
  "ob_size b = (case b of None \<Rightarrow> 0 | Some bs \<Rightarrow> length bs)"

definition ob_data :: "object_buffer \<Rightarrow> bytes" where
  "ob_data b = (case b of None \<Rightarrow> [] | Some bs \<Rightarrow> bs)"

definition packer2_pack :: "ext_cfg \<Rightarrow> bool \<Rightarrow> pieces \<Rightarrow> object_buffer" where
  "packer2_pack c native pstr = Some (packer_pack c native pstr)"

definition packer2_pack1 :: "ext_cfg \<Rightarrow> object_buffer \<Rightarrow> object_buffer list \<Rightarrow> object_buffer list option" where
  "packer2_pack1 c msg msg_can =
     (let len = ob_size msg
      in if len > get_max_msg_size c then None else Some (msg_can @ [Some (pack_header c len), msg]))"

definition packer2_pack2 ::
  "ext_cfg \<Rightarrow> object_buffer \<Rightarrow> object_buffer \<Rightarrow> object_buffer list \<Rightarrow> object_buffer list option" where
  "packer2_pack2 c msg1 msg2 msg_can =
     (let len = size_add (ob_size msg1) (ob_size msg2)
      in if len > get_max_msg_size c then None
         else Some (msg_can @ [Some (pack_header c len), msg1, msg2]))"

definition packer2_pack_all ::
  "ext_cfg \<Rightarrow> object_buffer list \<Rightarrow> object_buffer list \<Rightarrow> object_buffer list option" where
  "packer2_pack_all c in_can out =
     (let len = get_size_in_byte ob_size in_can
      in if len > get_max_msg_size c then None else Some (out @ [Some (pack_header c len)] @ in_can))"

definition packer2_heartbeat :: "ext_cfg \<Rightarrow> object_buffer" where
  "packer2_heartbeat c = Some (packer_heartbeat c)"

section \<open>fixed_length_packer\<close>

definition fixed_pack :: "ext_cfg \<Rightarrow> pieces \<Rightarrow> bytes" where
  "fixed_pack c pstr = packer_pack c True pstr"

definition fixed_pack1 :: "bytes \<Rightarrow> bytes list \<Rightarrow> bytes list option" where
  "fixed_pack1 msg msg_can = Some (msg_can @ [msg])"

definition fixed_pack2 :: "bytes \<Rightarrow> bytes \<Rightarrow> bytes list \<Rightarrow> bytes list option" where
  "fixed_pack2 msg1 msg2 msg_can = Some (msg_can @ [msg1, msg2])"

text \<open>\<open>in.swap(out)\<close> replaces the output container.\<close>

definition fixed_pack_all :: "bytes list \<Rightarrow> bytes list \<Rightarrow> bytes list option" where
  "fixed_pack_all in_can out = Some in_can"

section \<open>prefix_suffix_packer\<close>

record ps_packer =
  psp_prefix :: bytes
  psp_suffix :: bytes
  psp_heartbeat :: bytes

definition psp_set :: "bytes \<Rightarrow> bytes \<Rightarrow> ps_packer \<Rightarrow> ps_packer" where
  "psp_set prefix suffix p =
     p\<lparr>psp_prefix := prefix, psp_suffix := suffix, psp_heartbeat := prefix @ suffix\<rparr>"

definition psp_pack :: "ext_cfg \<Rightarrow> ps_packer \<Rightarrow> bool \<Rightarrow> pieces \<Rightarrow> bytes" where
  "psp_pack c p native pstr =
     (let pre_len = (if native then 0 else size_add (length (psp_prefix p)) (length (psp_suffix p)));
          total_len = msg_size_check c pre_len pstr
      in if total_len \<noteq> npos \<and> total_len > pre_len
         then (if native then [] else psp_prefix p) @ gather (the pstr) @ (if native then [] else psp_suffix p)
         else [])"

definition some_unless_empty :: "bytes \<Rightarrow> bytes list" where
  "some_unless_empty bs = (if bs \<noteq> [] then [bs] else [])"

definition psp_pack1 :: "ext_cfg \<Rightarrow> ps_packer \<Rightarrow> bytes \<Rightarrow> bytes list \<Rightarrow> bytes list option" where
  "psp_pack1 c p msg msg_can =
     (let len = size_add (size_add (length (psp_prefix p)) (length msg)) (length (psp_suffix p))
      in if len > msg_buffer_size c then None
         else Some (msg_can @ some_unless_empty (psp_prefix p) @ [msg] @ some_unless_empty (psp_suffix p)))"

definition psp_pack2 :: "ext_cfg \<Rightarrow> ps_packer \<Rightarrow> bytes \<Rightarrow> bytes \<Rightarrow> bytes list \<Rightarrow> bytes list option" where
  "psp_pack2 c p msg1 msg2 msg_can =
     (let len = size_add (size_add (size_add (length (psp_prefix p)) (length msg1)) (length msg2))
                  (length (psp_suffix p))
      in if len > msg_buffer_size c then None
         else Some (msg_can @ some_unless_empty (psp_prefix p) @ [msg1, msg2] @ some_unless_empty (psp_suffix p)))"

definition psp_pack_all :: "ext_cfg \<Rightarrow> ps_packer \<Rightarrow> bytes list \<Rightarrow> bytes list \<Rightarrow> bytes list option" where
  "psp_pack_all c p in_can out =
     (let len = size_add (size_add (length (psp_prefix p)) (length (psp_suffix p))) (get_size_in_byte length in_can)
      in if len > msg_buffer_size c then None
         else Some (out @ some_unless_empty (psp_prefix p) @ in_can @ some_unless_empty (psp_suffix p)))"

definition psp_pack_heartbeat :: "ps_packer \<Rightarrow> bytes" where
  "psp_pack_heartbeat p = psp_heartbeat p"

section \<open>What the packers promise\<close>

text \<open>The frame of a body: its header, which counts itself, and the body.\<close>

definition frame :: "ext_cfg \<Rightarrow> bytes \<Rightarrow> bytes" where
  "frame c body = head_H2N c (head_len c + length body) @ body"

text \<open>A body the header can describe and the receive buffer can hold.\<close>

definition fits :: "ext_cfg \<Rightarrow> bytes \<Rightarrow> bool" where
  "fits c body \<longleftrightarrow>
     head_len c + length body \<le> msg_buffer_size c \<and> head_len c + length body < 256 ^ head_len c"

text \<open>The whole configuration is sound when the header can count every message the buffer holds.\<close>

definition header_covers_buffer :: "ext_cfg \<Rightarrow> bool" where
  "header_covers_buffer c \<longleftrightarrow> msg_buffer_size c < 256 ^ head_len c"

lemma header_covers_default [simp]: "header_covers_buffer default_ext_cfg"
  by (simp add: header_covers_buffer_def default_ext_cfg_def head_len_def)

lemma length_frame [simp]: "length (frame c body) = head_len c + length body"
  by (simp add: frame_def)

lemma fits_covered:
  "header_covers_buffer c \<Longrightarrow> head_len c + length body \<le> msg_buffer_size c \<Longrightarrow> fits c body"
  by (simp add: fits_def header_covers_buffer_def)

lemma get_size_in_byte_mod:
  "foldl (\<lambda>acc x. size_add acc (sz x)) (a mod SIZE_MOD) xs = (a + sum_list (map sz xs)) mod SIZE_MOD"
proof (induction xs arbitrary: a)
  case Nil
  then show ?case by simp
next
  case (Cons x xs)
  have "size_add (a mod SIZE_MOD) (sz x) = (a + sz x) mod SIZE_MOD"
    by (simp add: size_add_def mod_add_left_eq)
  then show ?case using Cons [of "a + sz x"] by (simp add: add.assoc)
qed

lemma get_size_in_byte_sum: "get_size_in_byte sz xs = sum_list (map sz xs) mod SIZE_MOD"
  using get_size_in_byte_mod [of sz 0 xs] by (simp add: get_size_in_byte_def)

lemma get_size_in_byte_exact:
  "sum_list (map sz xs) \<le> SIZE_MAX \<Longrightarrow> get_size_in_byte sz xs = sum_list (map sz xs)"
  by (simp add: get_size_in_byte_sum)

lemma get_size_concat:
  "length (concat xs) \<le> SIZE_MAX \<Longrightarrow> get_size_in_byte length xs = length (concat xs)"
  by (simp add: get_size_in_byte_exact length_concat)

text \<open>
  The size check: with every piece a real object (at most \<open>SIZE_MAX\<close> bytes) the comparison
  with the last total detects each wrap-around, so the result is the exact total or \<open>npos\<close>.
\<close>

lemma size_check_loop_exact:
  assumes "tot \<le> msg_buffer_size c" "msg_buffer_size c < npos"
    and "\<And>bs. Some bs \<in> set ps \<Longrightarrow> length bs \<le> SIZE_MAX"
  shows "size_check_loop c tot tot ps =
         (if tot + length (gather ps) \<le> msg_buffer_size c then tot + length (gather ps) else npos)"
  using assms(1,3)
proof (induction ps arbitrary: tot rule: gather.induct)
  case 1
  then show ?case by simp
next
  case (2 ps)
  then show ?case by simp
next
  case (3 bs ps)
  have bs: "length bs \<le> SIZE_MAX" using "3.prems" by simp
  show ?case
  proof (cases "tot + length bs \<le> SIZE_MAX")
    case True
    then have e: "size_add tot (length bs) = tot + length bs" by (simp add: size_add_exact)
    show ?thesis
    proof (cases "tot + length bs \<le> msg_buffer_size c")
      case True
      then show ?thesis using "3.IH" [OF True] "3.prems" e by (simp add: Let_def add.assoc)
    next
      case False
      then show ?thesis using e by (simp add: Let_def)
    qed
  next
    case False
    have "size_add tot (length bs) < tot"
      using size_add_wraps [of tot "length bs"] False bs "3.prems"(1) assms(2) by simp
    moreover have "\<not> tot + length (bs @ gather ps) \<le> msg_buffer_size c"
      using False assms(2) by simp
    ultimately show ?thesis by (simp add: Let_def)
  qed
qed

lemma head_cast_id: "n < 256 ^ head_len c \<Longrightarrow> head_cast c n = n"
  by (simp add: head_cast_def)

lemma head_H2N_cast [simp]: "head_H2N c (head_cast c n) = head_H2N c n"
proof -
  have "be_value (be_bytes (head_len c) (n mod 256 ^ head_len c)) = be_value (be_bytes (head_len c) n)"
    by simp
  then show ?thesis
    unfolding head_H2N_def head_cast_def by (metis be_bytes_be_value length_be_bytes)
qed

lemma get_max_msg_size_eq:
  "valid_cfg c \<Longrightarrow> get_max_msg_size c = msg_buffer_size c - head_len c"
  using valid_cfg_less_npos [of c "msg_buffer_size c"]
  by (simp add: get_max_msg_size_def valid_cfg_def size_sub_exact)

lemma pack_header_eq:
  assumes "valid_cfg c" "n \<le> msg_buffer_size c - head_len c"
  shows "pack_header c n = head_H2N c (head_len c + n)"
proof -
  have "head_len c + n \<le> msg_buffer_size c" using assms by (auto simp: valid_cfg_def)
  then have "head_len c + n \<le> SIZE_MAX" using valid_cfg_less_npos [OF assms(1)] by (meson less_imp_le)
  then show ?thesis by (simp add: pack_header_def size_add_exact Let_def)
qed

lemma msg_size_check_exact:
  assumes "valid_cfg c" "pre \<le> msg_buffer_size c" "\<And>bs. Some bs \<in> set ps \<Longrightarrow> length bs \<le> SIZE_MAX"
  shows "msg_size_check c pre (Some ps) =
         (if pre + length (gather ps) \<le> msg_buffer_size c then pre + length (gather ps) else npos)"
  using size_check_loop_exact [OF assms(2) valid_cfg_less_npos [OF assms(1) order_refl] assms(3)]
  by (simp add: msg_size_check_def)

lemma packer_pack_eq:
  assumes "valid_cfg c" "\<And>ps bs. pstr = Some ps \<Longrightarrow> Some bs \<in> set ps \<Longrightarrow> length bs \<le> SIZE_MAX"
  shows "packer_pack c native pstr =
         (case pstr of None \<Rightarrow> []
          | Some ps \<Rightarrow>
              (let body = gather ps
               in if body = [] then []
                  else if native then (if length body \<le> msg_buffer_size c then body else [])
                  else if fits c body then frame c body else []))"
proof (cases pstr)
  case None
  then show ?thesis by (simp add: packer_pack_def msg_size_check_def)
next
  case (Some ps)
  define pre where "pre = (if native then 0 else head_len c)"
  have pre: "pre \<le> msg_buffer_size c" using assms(1) by (simp add: pre_def valid_cfg_def)
  have chk: "msg_size_check c pre pstr =
      (if pre + length (gather ps) \<le> msg_buffer_size c then pre + length (gather ps) else npos)"
    using msg_size_check_exact [OF assms(1) pre, of ps] assms(2) Some by auto
  have small: "pre + length (gather ps) \<le> msg_buffer_size c \<Longrightarrow> pre + length (gather ps) \<noteq> npos"
    by (rule valid_cfg_neq_npos [OF assms(1)])
  have "head_cast c (head_len c + n) = head_len c + n \<longleftrightarrow> head_len c + n < 256 ^ head_len c" for n
    by (metis head_cast_def head_cast_id mod_less_divisor zero_less_numeral zero_less_power)
  note cast = this
  let ?t = "pre + length (gather ps)"
  have A: "packer_pack c native pstr =
      (let t = msg_size_check c pre pstr
       in if t \<noteq> npos \<and> pre < t
          then if native then gather ps
               else if t \<noteq> head_cast c t then [] else head_H2N c (head_cast c t) @ gather ps
          else [])"
    by (simp add: packer_pack_def pre_def Some Let_def)
  show ?thesis
  proof (cases "?t \<le> msg_buffer_size c")
    case True
    then show ?thesis
      using A chk small [OF True] cast [of "length (gather ps)"] Some
      by (cases native) (auto simp: pre_def fits_def frame_def Let_def)
  next
    case False
    then have "packer_pack c native pstr = []" using A chk by simp
    then show ?thesis using False Some by (cases native) (auto simp: pre_def fits_def Let_def)
  qed
qed

text \<open>
  \<open>packer::pack_msg\<close> on arrays, on every branch: null arrays and empty bodies give an empty
  message, a native body is copied when the buffer holds it, any other body gets the header that
  counts header and body; a total above the buffer or above the header's range gives an empty
  message. Wrapping sums of the piece lengths never pass the size check.
\<close>
theorem packer_pack_spec:
  assumes "valid_cfg c" "\<And>ps bs. pstr = Some ps \<Longrightarrow> Some bs \<in> set ps \<Longrightarrow> length bs \<le> SIZE_MAX"
  shows "packer_pack c native pstr =
         (case pstr of None \<Rightarrow> []
          | Some ps \<Rightarrow>
              (let body = gather ps
               in if body = [] then []
                  else if native then (if length body \<le> msg_buffer_size c then body else [])
                  else if fits c body then frame c body else []))"
  using assms by (rule packer_pack_eq)

lemma packer_pack_spec_demo:
  "packer_pack default_ext_cfg False (Some [Some [104], None, Some [105]]) = [0, 4, 104, 105]"
  by (simp add: packer_pack_def msg_size_check_def head_cast_def head_H2N_def default_ext_cfg_def
      head_len_def size_add_exact SIZE_MAX_def numeral_2_eq_2)

theorem packer_pack_spec_witness:
  "packer_pack default_ext_cfg False (Some [Some [104], None, Some [105]]) = frame default_ext_cfg [104, 105]"
proof -
  have "fits default_ext_cfg [104, 105]"
    by (simp add: fits_def default_ext_cfg_def head_len_def)
  moreover have "\<And>ps bs. Some [Some [104], None, Some [105 :: u8]] = Some ps \<Longrightarrow> Some bs \<in> set ps \<Longrightarrow>
      length bs \<le> SIZE_MAX"
    by (auto simp: SIZE_MAX_def)
  ultimately show ?thesis
    using packer_pack_spec [OF valid_cfg_default, of "Some [Some [104], None, Some [105]]" False] by simp
qed

lemma packer_pack_frame: "valid_cfg c \<Longrightarrow> fits c b \<Longrightarrow> b \<noteq> [] \<Longrightarrow> packer_pack c False (Some [Some b]) = frame c b"
proof -
  assume h: "valid_cfg c" "fits c b" "b \<noteq> []"
  have "length b \<le> SIZE_MAX" using h(1,2) by (simp add: fits_def valid_cfg_def SIZE_MAX_def)
  then show ?thesis using h(2,3) by (subst packer_pack_eq [OF h(1)]) auto
qed

lemma packer_heartbeat_frame: "valid_cfg c \<Longrightarrow> packer_heartbeat c = frame c []"
  by (simp add: packer_heartbeat_def pack_header_eq frame_def)

text \<open>The container overloads append pieces whose concatenation is one frame, or fail.\<close>

lemma packer_pack1_eq:
  "valid_cfg c \<Longrightarrow> packer_pack1 c msg can =
   (if head_len c + length msg \<le> msg_buffer_size c
    then Some (can @ [head_H2N c (head_len c + length msg), msg]) else None)"
  using valid_cfg_head [of c] by (auto simp: packer_pack1_def get_max_msg_size_eq pack_header_eq Let_def)

lemma packer_pack2_eq:
  "valid_cfg c \<Longrightarrow> length msg1 + length msg2 \<le> SIZE_MAX \<Longrightarrow> packer_pack2 c msg1 msg2 can =
   (if head_len c + length (msg1 @ msg2) \<le> msg_buffer_size c
    then Some (can @ [head_H2N c (head_len c + length (msg1 @ msg2)), msg1, msg2]) else None)"
  using valid_cfg_head [of c] by (auto simp: packer_pack2_def get_max_msg_size_eq pack_header_eq size_add_exact Let_def)

lemma packer_pack_all_eq:
  "valid_cfg c \<Longrightarrow> length (concat msgs) \<le> SIZE_MAX \<Longrightarrow> packer_pack_all c msgs out =
   (if head_len c + length (concat msgs) \<le> msg_buffer_size c
    then Some (out @ [head_H2N c (head_len c + length (concat msgs))] @ msgs) else None)"
  using valid_cfg_head [of c] by (auto simp: packer_pack_all_def get_max_msg_size_eq pack_header_eq get_size_concat Let_def)

text \<open>
  The zero-copy overloads of \<open>pack_msg\<close> (one message, two messages, a whole container)
  agree: each succeeds exactly when header and body fit the buffer, and then appends pieces whose
  concatenation is the frame of the concatenated bodies.
\<close>
theorem packer_overloads_agree:
  assumes "valid_cfg c" "length (concat msgs) \<le> SIZE_MAX"
    and "op = (case msgs of [m] \<Rightarrow> packer_pack1 c m out
                | [m1, m2] \<Rightarrow> packer_pack2 c m1 m2 out
                | _ \<Rightarrow> packer_pack_all c msgs out)"
  shows "map_option concat op =
         (if head_len c + length (concat msgs) \<le> msg_buffer_size c
          then Some (concat out @ frame c (concat msgs)) else None)"
  using assms by (auto simp: packer_pack1_eq packer_pack2_eq packer_pack_all_eq frame_def split: list.split)

theorem packer_overloads_agree_witness:
  "map_option concat (packer_pack2 default_ext_cfg [1] [2, 3] []) = Some (frame default_ext_cfg [1, 2, 3])"
  using packer_overloads_agree [OF valid_cfg_default, of "[[1], [2, 3]]" _ "[]"]
  by (simp add: SIZE_MAX_def default_ext_cfg_def head_len_def)

text \<open>
  The zero-copy overloads do not check the header's range, which the array overload does: with
  16-bit headers and a buffer the static assertion accepts, a body of 65534 bytes is packed behind a
  header that says 0, while the array overload refuses the same body.
\<close>
theorem packer_pack1_truncates_header:
  assumes "c = \<lparr>msg_buffer_size = 100000, huge_msg = False\<rparr>" "length body = 65534"
  shows "valid_cfg c \<and> packer_pack1 c body [] = Some [[0, 0], body] \<and>
         packer_pack c False (Some [Some body]) = []"
proof -
  have v: "valid_cfg c" using assms(1) by (simp add: valid_cfg_def head_len_def)
  have "head_H2N c 65536 = [0, 0]"
    using assms(1) by (simp add: head_H2N_def head_len_def be_bytes_2)
  then have 1: "packer_pack1 c body [] = Some [[0, 0], body]"
    using assms v by (simp add: packer_pack1_eq head_len_def)
  have "\<not> fits c body" using assms by (simp add: fits_def head_len_def)
  then have "packer_pack c False (Some [Some body]) = []"
  proof (subst packer_pack_spec [OF v])
    show "length bs \<le> SIZE_MAX" if "Some [Some body] = Some ps" "Some bs \<in> set ps" for ps bs
      using that assms(2) by (auto simp: SIZE_MAX_def)
  qed auto
  then show ?thesis using v 1 by simp
qed

theorem packer_pack1_truncates_header_witness:
  "packer_pack1 \<lparr>msg_buffer_size = 100000, huge_msg = False\<rparr> (replicate 65534 1) [] =
   Some [[0, 0], replicate 65534 1]"
  using packer_pack1_truncates_header [OF refl, of "replicate 65534 1"] by simp

text \<open>\<open>packer2\<close> packs what its \<open>Packer\<close> packs, behind pointers.\<close>

lemma packer2_pack_data: "ob_data (packer2_pack c native pstr) = packer_pack c native pstr"
  by (simp add: packer2_pack_def ob_data_def)

lemma ob_size_data: "ob_size b = length (ob_data b)"
  by (simp add: ob_size_def ob_data_def split: option.split)

lemma ob_size_abs: "ob_size = (\<lambda>b. length (ob_data b))"
  by (rule ext) (rule ob_size_data)

lemma packer2_pack1_data:
  "map_option (map ob_data) (packer2_pack1 c msg can) = packer_pack1 c (ob_data msg) (map ob_data can)"
  by (simp add: packer2_pack1_def packer_pack1_def ob_size_data Let_def) (simp add: ob_data_def)

lemma packer2_pack2_data:
  "map_option (map ob_data) (packer2_pack2 c m1 m2 can) =
   packer_pack2 c (ob_data m1) (ob_data m2) (map ob_data can)"
  by (simp add: packer2_pack2_def packer_pack2_def ob_size_data Let_def) (simp add: ob_data_def)

lemma packer2_pack_all_data:
  "map_option (map ob_data) (packer2_pack_all c msgs out) =
   packer_pack_all c (map ob_data msgs) (map ob_data out)"
proof -
  have "get_size_in_byte ob_size msgs = get_size_in_byte length (map ob_data msgs)"
    by (simp add: get_size_in_byte_sum ob_size_abs comp_def)
  then show ?thesis
    by (simp add: packer2_pack_all_def packer_pack_all_def Let_def) (simp add: ob_data_def)
qed

section \<open>The prefix/suffix framing\<close>

definition ps_frame :: "bytes \<Rightarrow> bytes \<Rightarrow> bytes \<Rightarrow> bytes" where
  "ps_frame prefix suffix body = prefix @ body @ suffix"

text \<open>What the assertion of \<open>prefix_suffix\<close> demands of its arguments.\<close>

definition ps_valid :: "ext_cfg \<Rightarrow> bytes \<Rightarrow> bytes \<Rightarrow> bool" where
  "ps_valid c prefix suffix \<longleftrightarrow> suffix \<noteq> [] \<and> length prefix + length suffix < msg_buffer_size c"

lemma concat_some_unless_empty [simp]: "concat (some_unless_empty bs) = bs"
  by (simp add: some_unless_empty_def)

lemma psp_pack_spec:
  assumes v: "valid_cfg c" and p: "ps_valid c (psp_prefix p) (psp_suffix p)"
    and lens: "\<And>bs. Some bs \<in> set ps \<Longrightarrow> length bs \<le> SIZE_MAX"
  shows "psp_pack c p native (Some ps) =
         (let body = gather ps; msg = (if native then body else ps_frame (psp_prefix p) (psp_suffix p) body)
          in if body \<noteq> [] \<and> length msg \<le> msg_buffer_size c then msg else [])"
proof -
  define pre where "pre = (if native then 0 else length (psp_prefix p) + length (psp_suffix p))"
  have "pre \<le> msg_buffer_size c" using p by (auto simp: pre_def ps_valid_def)
  then have pre: "pre \<le> msg_buffer_size c" "pre \<le> SIZE_MAX"
    using valid_cfg_less_npos [OF v, of pre] by auto
  have small: "pre + length (gather ps) \<le> msg_buffer_size c \<Longrightarrow> pre + length (gather ps) \<noteq> npos"
    by (rule valid_cfg_neq_npos [OF v])
  have A: "psp_pack c p native (Some ps) =
      (let t = msg_size_check c pre (Some ps)
       in if t \<noteq> npos \<and> pre < t
          then (if native then [] else psp_prefix p) @ gather ps @ (if native then [] else psp_suffix p)
          else [])"
    using pre by (cases native) (simp_all add: psp_pack_def pre_def size_add_exact Let_def)
  show ?thesis
  proof (cases "pre + length (gather ps) \<le> msg_buffer_size c")
    case True
    then show ?thesis
      using A msg_size_check_exact [OF v pre(1) lens] small [OF True]
      by (cases native) (auto simp: pre_def ps_frame_def Let_def)
  next
    case False
    then have "psp_pack c p native (Some ps) = []"
      using A msg_size_check_exact [OF v pre(1) lens] by simp
    then show ?thesis using False by (cases native) (auto simp: pre_def ps_frame_def Let_def)
  qed
qed

text \<open>
  The zero-copy overloads of \<open>prefix_suffix_packer\<close> append pieces whose concatenation is
  prefix, bodies and suffix, exactly when their sizes add up to at most the message buffer.
\<close>
theorem psp_overloads_agree:
  assumes "length (psp_prefix p) + length (concat msgs) + length (psp_suffix p) \<le> SIZE_MAX"
    and "op = (case msgs of [m] \<Rightarrow> psp_pack1 c p m out
                | [m1, m2] \<Rightarrow> psp_pack2 c p m1 m2 out
                | _ \<Rightarrow> psp_pack_all c p msgs out)"
  shows "map_option concat op =
         (if length (ps_frame (psp_prefix p) (psp_suffix p) (concat msgs)) \<le> msg_buffer_size c
          then Some (concat out @ ps_frame (psp_prefix p) (psp_suffix p) (concat msgs)) else None)"
  using assms
  by (auto simp: psp_pack1_def psp_pack2_def psp_pack_all_def get_size_concat size_add_exact ps_frame_def
      Let_def ac_simps split: list.split)

theorem psp_overloads_agree_witness:
  "map_option concat (psp_pack1 default_ext_cfg \<lparr>psp_prefix = [1], psp_suffix = [2], psp_heartbeat = [1, 2]\<rparr> [9] [])
   = Some [1, 9, 2]"
  using psp_overloads_agree
    [of "\<lparr>psp_prefix = [1], psp_suffix = [2], psp_heartbeat = [1, 2]\<rparr>" "[[9]]" _ default_ext_cfg "[]"]
  by (simp add: SIZE_MAX_def default_ext_cfg_def ps_frame_def)

end
