(* ===== verification/Stream_Reader.thy ===== *)
theory Stream_Reader
  imports Ascs_Prelude
begin

text \<open>
  How \<open>reader_writer\<close> of \<open>tcp/socket.h\<close> drives an unpacker: \<open>async_read\<close> takes the buffer of
  \<open>prepare_next_recv\<close>, Asio's composed read asks \<open>completion_condition\<close> before the first and
  after every partial read and stops when it answers 0 or the buffer is full, and \<open>recv_handler\<close>
  then calls \<open>parse_msg\<close>. When that fails it calls \<open>on_unpack_error\<close>, resets the unpacker, hands over
  the messages in front of the bad one and reads on, as the comment at \<open>on_unpack_error\<close> promises. How
  many bytes a partial read delivers is the network's choice, so the session is a step relation. A
  read that ends with an error still parses what had arrived, and ends the session; that is also how a
  socket that shuts down in its \<open>on_unpack_error\<close> ends it, then or some reads later. \<open>rd_bad\<close> counts the calls
  of \<open>on_unpack_error\<close>. The operations of the unpacker are parameters; the locale states what the reader relies on.
\<close>

datatype reader_end = Reading | Read_error

record 'u reader =
  rd_unp :: 'u
  rd_tr :: nat
  rd_stream :: bytes
  rd_out :: "bytes list"
  rd_bad :: nat
  rd_end :: reader_end

definition reader_init :: "'u \<Rightarrow> bytes \<Rightarrow> 'u reader" where
  "reader_init u s = \<lparr>rd_unp = u, rd_tr = 0, rd_stream = s, rd_out = [], rd_bad = 0, rd_end = Reading\<rparr>"

inductive reader_step ::
  "(nat \<Rightarrow> 'u \<Rightarrow> nat \<times> 'u) \<Rightarrow> (nat \<Rightarrow> 'u \<Rightarrow> bool \<times> 'u \<times> bytes list) \<Rightarrow> ('u \<Rightarrow> nat) \<Rightarrow>
   (nat \<Rightarrow> bytes \<Rightarrow> 'u \<Rightarrow> 'u) \<Rightarrow> ('u \<Rightarrow> 'u) \<Rightarrow> 'u reader \<Rightarrow> 'u reader \<Rightarrow> bool"
  for complete parse room recv rst where
  receive: "rd_end r = Reading \<Longrightarrow> complete (rd_tr r) (rd_unp r) = (n, u) \<Longrightarrow> 0 < n \<Longrightarrow> rd_tr r < room (rd_unp r) \<Longrightarrow>
     0 < k \<Longrightarrow> k \<le> n \<Longrightarrow> k \<le> room (rd_unp r) - rd_tr r \<Longrightarrow> k \<le> length (rd_stream r) \<Longrightarrow>
     reader_step complete parse room recv rst r
       (r\<lparr>rd_unp := recv (rd_tr r) (take k (rd_stream r)) u, rd_tr := rd_tr r + k,
          rd_stream := drop k (rd_stream r)\<rparr>)"
| handle: "rd_end r = Reading \<Longrightarrow> complete (rd_tr r) (rd_unp r) = (n, u) \<Longrightarrow>
     n = 0 \<or> rd_tr r = room (rd_unp r) \<Longrightarrow> 0 < rd_tr r \<Longrightarrow> parse (rd_tr r) u = (ok, u', ms) \<Longrightarrow>
     reader_step complete parse room recv rst r
       (r\<lparr>rd_unp := (if ok then u' else rst u'), rd_tr := 0, rd_out := rd_out r @ ms, rd_bad := (if ok then rd_bad r else rd_bad r + 1)\<rparr>)"
| lost: "rd_end r = Reading \<Longrightarrow> 0 < rd_tr r \<Longrightarrow> parse (rd_tr r) (rd_unp r) = (ok, u', ms) \<Longrightarrow>
     reader_step complete parse room recv rst r
       (r\<lparr>rd_unp := (if ok then u' else rst u'), rd_tr := 0, rd_out := rd_out r @ ms, rd_end := Read_error\<rparr>)"
| lost_idle: "rd_end r = Reading \<Longrightarrow> rd_tr r = 0 \<Longrightarrow>
     reader_step complete parse room recv rst r (r\<lparr>rd_end := Read_error\<rparr>)"

text \<open>
  As long as no read fails, the session goes on until it is quiet: nothing but a read error can
  happen to it any more.
\<close>

definition reader_quiet :: "('u reader \<Rightarrow> 'u reader \<Rightarrow> bool) \<Rightarrow> 'u reader \<Rightarrow> bool" where
  "reader_quiet step r \<longleftrightarrow> rd_end r \<noteq> Read_error \<and> (\<forall>r'. step r r' \<longrightarrow> rd_end r' = Read_error)"

text \<open>
  What a reader that goes on after a bad message makes of a stream: it is cut into pieces, each of which
  but the last ends somewhere behind a bad message, and each is decoded by itself.
\<close>

definition cut_at_errors :: "(bytes \<Rightarrow> bytes list \<times> bytes \<times> bool) \<Rightarrow> bytes \<Rightarrow> bytes list \<Rightarrow> bytes \<Rightarrow> bool" where
  "cut_at_errors decode s gs z \<longleftrightarrow> s = concat gs @ z \<and> (\<forall>g\<in>set gs. \<not> snd (snd (decode g)))"

definition messages_in :: "(bytes \<Rightarrow> bytes list \<times> bytes \<times> bool) \<Rightarrow> bytes list \<Rightarrow> bytes list" where
  "messages_in decode gs = concat (map (\<lambda>g. fst (decode g)) gs)"

lemma messages_in_simps [simp]:
  "messages_in decode [] = []" "messages_in decode (gs @ [g]) = messages_in decode gs @ fst (decode g)"
  "messages_in decode (g # gs) = fst (decode g) @ messages_in decode gs"
  by (simp_all add: messages_in_def)

text \<open>
  \<open>decode\<close> is the protocol: the messages at the front of a byte string, what is left, and whether
  the left part can still be the beginning of a message. \<open>wf\<close> is the unpacker's state between two
  calls while \<open>tr\<close> bytes of the current read have arrived, \<open>ready\<close> the one \<open>parse_msg\<close> needs, and
  \<open>live\<close> the bytes not parsed yet.
\<close>

locale unpacker_core =
  fixes complete :: "nat \<Rightarrow> 'u \<Rightarrow> nat \<times> 'u"
    and parse :: "nat \<Rightarrow> 'u \<Rightarrow> bool \<times> 'u \<times> bytes list"
    and room :: "'u \<Rightarrow> nat"
    and recv :: "nat \<Rightarrow> bytes \<Rightarrow> 'u \<Rightarrow> 'u"
    and rst :: "'u \<Rightarrow> 'u"
    and wf :: "'u \<Rightarrow> nat \<Rightarrow> bool"
    and ready :: "'u \<Rightarrow> nat \<Rightarrow> bool"
    and live :: "'u \<Rightarrow> nat \<Rightarrow> bytes"
    and decode :: "bytes \<Rightarrow> bytes list \<times> bytes \<times> bool"
  assumes decode_Nil: "decode [] = ([], [], True)"
    and decode_append: "decode xs = (ms, r, True) \<Longrightarrow> decode (r @ ys) = (ms', r', ok) \<Longrightarrow>
          decode (xs @ ys) = (ms @ ms', r', ok)"
    and decode_bad: "decode xs = (ms, r, False) \<Longrightarrow> \<exists>r'. decode (xs @ ys) = (ms, r', False)"
    and wf_ready: "wf u tr \<Longrightarrow> ready u tr"
    and complete_ready: "wf u tr \<Longrightarrow> tr \<le> room u \<Longrightarrow> complete tr u = (n, u') \<Longrightarrow>
          ready u' tr \<and> live u' tr = live u tr \<and> room u' = room u"
    and complete_more: "wf u tr \<Longrightarrow> tr \<le> room u \<Longrightarrow> complete tr u = (n, u') \<Longrightarrow> 0 < n \<Longrightarrow>
          tr < room u \<Longrightarrow> wf u' tr \<and> decode (live u tr) = ([], live u tr, True)"
    and complete_start: "wf u 0 \<Longrightarrow> complete 0 u = (n, u') \<Longrightarrow> 0 < n \<and> 0 < room u"
    and recv_wf: "wf u tr \<Longrightarrow> tr + length bs \<le> room u \<Longrightarrow>
          wf (recv tr bs u) (tr + length bs) \<and> live (recv tr bs u) (tr + length bs) = live u tr @ bs \<and>
          room (recv tr bs u) = room u"
    and parse_sound: "ready u tr \<Longrightarrow> tr \<le> room u \<Longrightarrow> parse tr u = (True, u', ms) \<Longrightarrow>
          snd (snd (decode (live u tr))) \<Longrightarrow> decode (live u tr) = (ms, live u' 0, True) \<and> wf u' 0"
    and parse_prefix: "ready u tr \<Longrightarrow> tr \<le> room u \<Longrightarrow> parse tr u = (ok, u', ms) \<Longrightarrow>
          \<exists>more. fst (decode (live u tr)) = ms @ more"
    and parse_complete: "wf u tr \<Longrightarrow> tr \<le> room u \<Longrightarrow> complete tr u = (n, u') \<Longrightarrow>
          n = 0 \<or> tr = room u \<Longrightarrow> snd (snd (decode (live u tr))) \<Longrightarrow> fst (parse tr u')"
    and parse_fails: "ready u tr \<Longrightarrow> tr \<le> room u \<Longrightarrow> parse tr u = (False, u', ms) \<Longrightarrow> \<not> snd (snd (decode (live u tr))) \<Longrightarrow>
          fst (decode (live u tr)) = ms \<and> wf (rst u') 0 \<and> live (rst u') 0 = []"
begin

abbreviation step :: "'u reader \<Rightarrow> 'u reader \<Rightarrow> bool" where
  "step \<equiv> reader_step complete parse room recv rst"

text \<open>
  Whether \<open>parse_msg\<close> reports every bad message it meets. Without that the lemmas below still hold for
  the streams that have none.
\<close>

definition rejects :: bool where
  "rejects \<longleftrightarrow> (\<forall>u tr u' ms. ready u tr \<longrightarrow> tr \<le> room u \<longrightarrow> parse tr u = (True, u', ms) \<longrightarrow>
     snd (snd (decode (live u tr))))"

text \<open>
  The reassembly invariant: the stream is cut behind bad messages, \<open>con\<close> is what was read since the last cut and \<open>z\<close>
  what was not; what was delivered and what the unparsed bytes decode to is the decoded stream. The bytes thrown away
  at a cut were in the unpacker's buffer.
\<close>

definition thrown :: "bytes \<Rightarrow> bool" where
  "thrown g \<longleftrightarrow> (\<exists>u tr. ready u tr \<and> tr \<le> room u \<and> fst (snd (decode g)) = fst (snd (decode (live u tr))))"

definition good :: "bytes \<Rightarrow> 'u reader \<Rightarrow> bool" where
  "good s r \<longleftrightarrow> (\<exists>gs con z out.
     cut_at_errors decode s gs (con @ z) \<and> length gs = rd_bad r \<and> (\<forall>g\<in>set gs. thrown g) \<and>
     rd_out r = messages_in decode gs @ out \<and> (\<exists>more. fst (decode (con @ z)) = out @ more) \<and>
     (rd_end r = Reading \<longrightarrow> z = rd_stream r \<and> wf (rd_unp r) (rd_tr r) \<and> rd_tr r \<le> room (rd_unp r) \<and>
        (\<exists>ms rest ok. decode (live (rd_unp r) (rd_tr r)) = (ms, rest, ok) \<and> decode con = (out @ ms, rest, ok))))"

text \<open>More bytes never take back what a prefix of them decodes to.\<close>

lemma decode_prefix: "\<exists>more. fst (decode (xs @ ys)) = fst (decode xs) @ more"
proof -
  obtain ms r ok where d: "decode xs = (ms, r, ok)" by (cases "decode xs")
  show ?thesis
  proof (cases ok)
    case True
    obtain ms' r' ok' where "decode (r @ ys) = (ms', r', ok')" by (cases "decode (r @ ys)")
    from decode_append [OF _ this, of xs ms] d True show ?thesis by simp
  next
    case False
    then have "decode xs = (ms, r, False)" using d by simp
    from decode_bad [OF this, of ys] d show ?thesis by auto
  qed
qed

text \<open>A stream without a bad message is never cut, and a cut has delivered what is in front of the first one.\<close>

lemma decode_ok_prefix: "snd (snd (decode (xs @ ys))) \<Longrightarrow> snd (snd (decode xs))"
  using decode_bad [of xs _ _ ys] by (cases "decode xs") fastforce

lemma cut_first:
  assumes "cut_at_errors decode s gs z" "gs \<noteq> []"
  shows "\<not> snd (snd (decode s)) \<and> (\<exists>more. messages_in decode gs = fst (decode s) @ more)"
proof -
  obtain g hs where g: "gs = g # hs" using assms(2) by (cases gs) auto
  then have b: "\<not> snd (snd (decode g))" "s = g @ (concat hs @ z)" using assms(1) by (auto simp: cut_at_errors_def)
  obtain ms q where "decode g = (ms, q, False)" using b(1) by (cases "decode g") auto
  then show ?thesis using decode_bad [of g ms q "concat hs @ z"] b(2) g by auto
qed

lemma goodI:
  assumes "cut_at_errors decode s gs (con @ z)" "length gs = rd_bad r" "\<forall>g\<in>set gs. thrown g"
    and "rd_out r = messages_in decode gs @ out" "\<exists>more. fst (decode (con @ z)) = out @ more"
    and "rd_end r = Reading \<Longrightarrow> z = rd_stream r \<and> wf (rd_unp r) (rd_tr r) \<and> rd_tr r \<le> room (rd_unp r)"
    and "rd_end r = Reading \<Longrightarrow> decode (live (rd_unp r) (rd_tr r)) = (ms, rest, ok) \<and> decode con = (out @ ms, rest, ok)"
  shows "good s r"
  unfolding good_def using assms by blast

lemma good_receive:
  assumes g: "good s r" and nf: "rd_end r = Reading"
    and c: "complete (rd_tr r) (rd_unp r) = (n, u)" "0 < n"
    and k: "k \<le> room (rd_unp r) - rd_tr r" "rd_tr r < room (rd_unp r)" "k \<le> length (rd_stream r)"
  shows "good s (r\<lparr>rd_unp := recv (rd_tr r) (take k (rd_stream r)) u, rd_tr := rd_tr r + k,
                   rd_stream := drop k (rd_stream r)\<rparr>)"
proof -
  let ?tr = "rd_tr r" and ?bs = "take k (rd_stream r)"
  obtain gs con out ms rest ok where
    inv: "cut_at_errors decode s gs (con @ rd_stream r)" "length gs = rd_bad r" "\<forall>g\<in>set gs. thrown g"
      "rd_out r = messages_in decode gs @ out" "\<exists>more. fst (decode (con @ rd_stream r)) = out @ more"
    and w: "wf (rd_unp r) ?tr" "?tr \<le> room (rd_unp r)"
    and d: "decode (live (rd_unp r) ?tr) = (ms, rest, ok)" "decode con = (out @ ms, rest, ok)"
    using g nf unfolding good_def by blast
  have u: "wf u ?tr" "live u ?tr = live (rd_unp r) ?tr" "room u = room (rd_unp r)"
    using complete_more [OF w c k(2)] complete_ready [OF w c(1)] by auto
  have len: "length ?bs = k" "?tr + length ?bs \<le> room u" using k u(3) by auto
  have v: "wf (recv ?tr ?bs u) (?tr + k)" "live (recv ?tr ?bs u) (?tr + k) = live (rd_unp r) ?tr @ ?bs"
    "room (recv ?tr ?bs u) = room u"
    using recv_wf [OF u(1) len(2)] len(1) u(2) by auto
  have "decode con = (out, live (rd_unp r) ?tr, True)" using complete_more [OF w c k(2)] d by simp
  moreover obtain ms' r' ok' where e: "decode (live (rd_unp r) ?tr @ ?bs) = (ms', r', ok')" by (cases "decode (live (rd_unp r) ?tr @ ?bs)")
  ultimately have "decode (con @ ?bs) = (out @ ms', r', ok')" by (intro decode_append)
  moreover have "con @ rd_stream r = (con @ ?bs) @ drop k (rd_stream r)" by simp
  ultimately show ?thesis
    by (intro goodI [of s gs "con @ ?bs" "drop k (rd_stream r)" _ out ms' r' ok']) (use inv v e k u(3) in auto)
qed

lemma good_handle:
  assumes g: "good s r" and rj: "rejects \<or> snd (snd (decode s))" and nf: "rd_end r = Reading"
    and c: "complete (rd_tr r) (rd_unp r) = (n, u)" "n = 0 \<or> rd_tr r = room (rd_unp r)"
    and p: "parse (rd_tr r) u = (ok, u', ms)"
  shows "good s (r\<lparr>rd_unp := (if ok then u' else rst u'), rd_tr := 0, rd_out := rd_out r @ ms, rd_bad := (if ok then rd_bad r else rd_bad r + 1)\<rparr>)"
proof -
  let ?l = "live (rd_unp r) (rd_tr r)"
  obtain gs con out ms1 rest1 ok1 where
    inv: "cut_at_errors decode s gs (con @ rd_stream r)" "length gs = rd_bad r" "\<forall>g\<in>set gs. thrown g"
      "rd_out r = messages_in decode gs @ out"
    and w: "wf (rd_unp r) (rd_tr r)" "rd_tr r \<le> room (rd_unp r)"
    and d: "decode ?l = (ms1, rest1, ok1)" "decode con = (out @ ms1, rest1, ok1)"
    using g nf unfolding good_def by blast
  have rdy: "ready u (rd_tr r)" "live u (rd_tr r) = ?l" "rd_tr r \<le> room u"
    using complete_ready [OF w c(1)] w(2) by auto
  show ?thesis
  proof (cases ok)
    case True
    have "ok1"
    proof (cases rejects)
      case True
      have "parse (rd_tr r) u = (True, u', ms)" using p \<open>ok\<close> by simp
      then have "snd (snd (decode (live u (rd_tr r))))" using True rdy(1,3) unfolding rejects_def by blast
      then show ?thesis using rdy(2) d by simp
    next
      case False
      then have "snd (snd (decode s))" using rj by simp
      moreover from this have "gs = []" using cut_first [OF inv(1)] by auto
      ultimately show ?thesis using inv(1) decode_ok_prefix [of con "rd_stream r"] d by (simp add: cut_at_errors_def)
    qed
    then have s: "decode ?l = (ms, live u' 0, True)" "wf u' 0"
      using parse_sound [OF rdy(1,3)] p True d rdy(2) by auto
    then have con: "decode con = (out @ ms, live u' 0, True)" using d by simp
    obtain ms2 r2 ok2 where e: "decode (live u' 0) = (ms2, r2, ok2)" by (cases "decode (live u' 0)")
    then have "decode con = ((out @ ms) @ ms2, r2, ok2)" using decode_append [OF con, of "[]"] by simp
    then have "rd_end r = Reading \<Longrightarrow> decode (live u' 0) = (ms2, r2, ok2) \<and> decode con = ((out @ ms) @ ms2, r2, ok2)" using e by simp
    moreover have "\<exists>more. fst (decode (con @ rd_stream r)) = (out @ ms) @ more" using decode_prefix [of con "rd_stream r"] con by simp
    ultimately show ?thesis using True inv s(2)
      by (intro goodI [where gs = gs and con = con and z = "rd_stream r" and out = "out @ ms" and ms = ms2 and rest = r2 and ok = ok2]; simp)
  next
    case False
    have b: "\<not> ok1" using parse_complete [OF w c] p False d by auto
    then have f: "ms1 = ms" "wf (rst u') 0" "live (rst u') 0 = []"
      using parse_fails [OF rdy(1,3)] p False d rdy(2) by auto
    have "thrown con" unfolding thrown_def using rdy d by (metis fst_conv snd_conv)
    moreover have "cut_at_errors decode s (gs @ [con]) ([] @ rd_stream r)" using inv(1) d b by (auto simp: cut_at_errors_def)
    ultimately show ?thesis
      by (intro goodI [of s "gs @ [con]" "[]" "rd_stream r" _ "[]" "[]" "[]" True]) (use inv(2-4) d f False in \<open>auto simp: decode_Nil\<close>)
  qed
qed

lemma good_lost:
  assumes g: "good s r" and nf: "rd_end r = Reading"
    and p: "parse (rd_tr r) (rd_unp r) = (ok, u', ms)"
  shows "good s (r\<lparr>rd_unp := x, rd_tr := 0, rd_out := rd_out r @ ms, rd_end := Read_error\<rparr>)"
proof -
  obtain gs con out ms1 rest1 ok1 where
    inv: "cut_at_errors decode s gs (con @ rd_stream r)" "length gs = rd_bad r" "\<forall>g\<in>set gs. thrown g"
      "rd_out r = messages_in decode gs @ out"
    and w: "wf (rd_unp r) (rd_tr r)" "rd_tr r \<le> room (rd_unp r)"
    and d: "decode (live (rd_unp r) (rd_tr r)) = (ms1, rest1, ok1)" "decode con = (out @ ms1, rest1, ok1)"
    using g nf unfolding good_def by blast
  obtain more where "ms1 = ms @ more" using parse_prefix [OF wf_ready [OF w(1)] w(2) p] d by auto
  then have "\<exists>more. fst (decode (con @ rd_stream r)) = (out @ ms) @ more" using decode_prefix [of con "rd_stream r"] d by auto
  then show ?thesis by (intro goodI [of s gs con "rd_stream r" _ "out @ ms"]) (use inv in auto)
qed

lemma good_step: "step r r' \<Longrightarrow> good s r \<Longrightarrow> rejects \<or> snd (snd (decode s)) \<Longrightarrow> good s r'"
proof (induction rule: reader_step.induct)
  case (receive r n u k)
  show ?case
    by (rule good_receive [OF receive.prems(1) receive.hyps(1,2,3,7,4,8)])
next
  case (handle r n u ok u' ms)
  show ?case
    by (rule good_handle [OF handle.prems handle.hyps(1,2,3,5)])
next
  case (lost r ok u' ms)
  show ?case
    by (rule good_lost [OF lost.prems(1) lost.hyps(1,3)])
next
  case (lost_idle r)
  then obtain gs con out where "cut_at_errors decode s gs (con @ rd_stream r)" "length gs = rd_bad r" "\<forall>g\<in>set gs. thrown g"
    "rd_out r = messages_in decode gs @ out" "\<exists>more. fst (decode (con @ rd_stream r)) = out @ more"
    unfolding good_def by blast
  then show ?case by (intro goodI) simp_all
qed

lemma good_init: "wf u 0 \<Longrightarrow> live u 0 = [] \<Longrightarrow> good s (reader_init u s)"
  unfolding good_def by (rule exI [of _ "[]"], rule exI [of _ "[]"]) (auto simp: reader_init_def cut_at_errors_def decode_Nil)

lemma core_run:
  "step\<^sup>*\<^sup>* (reader_init u s) r \<Longrightarrow> wf u 0 \<Longrightarrow> live u 0 = [] \<Longrightarrow> rejects \<or> snd (snd (decode s)) \<Longrightarrow> good s r"
  by (induction rule: rtranclp_induct) (auto intro: good_init good_step)

text \<open>What was delivered, piece by piece.\<close>

lemma core_pieces:
  assumes "step\<^sup>*\<^sup>* (reader_init u s) r" "wf u 0" "live u 0 = []" "rejects \<or> snd (snd (decode s))"
  shows "\<exists>gs z out more. cut_at_errors decode s gs z \<and> length gs = rd_bad r \<and> (\<forall>g\<in>set gs. thrown g) \<and>
    rd_out r = messages_in decode gs @ out \<and> fst (decode z) = out @ more"
  using core_run [OF assms] unfolding good_def by blast

text \<open>Before the first failed parse only messages of the stream are delivered, and it comes when they all were.\<close>

lemma core_prefix:
  assumes "step\<^sup>*\<^sup>* (reader_init u s) r" "wf u 0" "live u 0 = []" "rejects \<or> snd (snd (decode s))"
  shows "if rd_bad r = 0 then \<exists>more. fst (decode s) = rd_out r @ more
    else \<not> snd (snd (decode s)) \<and> (\<exists>more. rd_out r = fst (decode s) @ more)"
proof -
  obtain gs z out more where p: "cut_at_errors decode s gs z" "length gs = rd_bad r" "rd_out r = messages_in decode gs @ out"
    "fst (decode z) = out @ more"
    using core_pieces [OF assms] by blast
  then show ?thesis using cut_first [OF p(1)] by (cases "gs = []") (auto simp: cut_at_errors_def)
qed

lemma never_fails:
  assumes "step\<^sup>*\<^sup>* (reader_init u s) r" "wf u 0" "live u 0 = []" "snd (snd (decode s))"
  shows "rd_bad r = 0 \<and> (\<exists>more. fst (decode s) = rd_out r @ more)"
  using core_prefix [OF assms(1-3)] assms(4) by (auto split: if_splits)

text \<open>
  A session that is still open and has nothing left to read or to handle delivered everything.
\<close>

lemma stuck_done:
  assumes run: "step\<^sup>*\<^sup>* (reader_init u s) r" "wf u 0" "live u 0 = []" "rejects \<or> snd (snd (decode s))"
    and nf: "rd_end r = Reading" and stuck: "\<And>r'. step r r' \<Longrightarrow> rd_end r' = Read_error"
  shows "rd_stream r = [] \<and> (\<exists>gs z out. cut_at_errors decode s gs z \<and> length gs = rd_bad r \<and> (\<forall>g\<in>set gs. thrown g) \<and>
    rd_out r = messages_in decode gs @ out \<and> decode z = (out, live (rd_unp r) (rd_tr r), True))"
proof -
  obtain n u' where c: "complete (rd_tr r) (rd_unp r) = (n, u')" by (cases "complete (rd_tr r) (rd_unp r)")
  obtain gs con out ms1 rest1 ok1 where
    inv: "cut_at_errors decode s gs (con @ rd_stream r)" "length gs = rd_bad r" "\<forall>g\<in>set gs. thrown g"
      "rd_out r = messages_in decode gs @ out"
    and w: "wf (rd_unp r) (rd_tr r)" "rd_tr r \<le> room (rd_unp r)"
    and d: "decode (live (rd_unp r) (rd_tr r)) = (ms1, rest1, ok1)" "decode con = (out @ ms1, rest1, ok1)"
    using core_run [OF run] nf unfolding good_def by blast
  have go: "0 < n \<and> rd_tr r < room (rd_unp r)"
  proof (rule ccontr)
    assume "\<not> ?thesis"
    then have n0: "n = 0 \<or> rd_tr r = room (rd_unp r)" using w(2) by auto
    have "0 < rd_tr r" using complete_start [of "rd_unp r" n u'] w c n0 by (cases "rd_tr r") auto
    moreover obtain b v out where "parse (rd_tr r) u' = (b, v, out)" by (cases "parse (rd_tr r) u'")
    ultimately show False
      using stuck [OF reader_step.handle [of r complete n u' room parse b v out recv rst, OF nf c n0]] nf by simp
  qed
  then have more: "decode (live (rd_unp r) (rd_tr r)) = ([], live (rd_unp r) (rd_tr r), True)"
    using complete_more [OF w c] by auto
  have "rd_stream r = []"
  proof (rule ccontr)
    assume "rd_stream r \<noteq> []"
    then have "1 \<le> length (rd_stream r)" by (simp add: Suc_le_eq)
    then show False
      using stuck [OF reader_step.receive [of r complete n u' room 1 parse recv rst, OF nf c]] go nf
      by (simp add: Suc_le_eq)
  qed
  then show ?thesis using inv d more by auto
qed

text \<open>Every run is finite: a step either takes bytes off the stream or ends a read.\<close>

definition work :: "'u reader \<Rightarrow> nat" where
  "work r = 2 * length (rd_stream r) + (if rd_tr r = 0 then 0 else 1) + (if rd_end r = Reading then 1 else 0)"

lemma step_work: "step r r' \<Longrightarrow> work r' < work r"
  by (induction rule: reader_step.induct) (auto simp: work_def)

end

sublocale unpacker_core \<subseteq> runs: step_measure step "\<lambda>w r. work r = w"
  by unfold_locales (use step_work in blast)

context unpacker_core begin

lemma run_length: "(step ^^ k) (reader_init u s) r \<Longrightarrow> k \<le> 2 * length s + 1"
  using runs.bounded_steps [of k "reader_init u s" r] by (simp add: work_def reader_init_def)

lemma reaches_quiet: "rd_end r \<noteq> Read_error \<Longrightarrow> \<exists>r'. step\<^sup>*\<^sup>* r r' \<and> reader_quiet step r'"
proof (induction "work r" arbitrary: r rule: less_induct)
  case less
  show ?case
  proof (cases "\<exists>r1. step r r1 \<and> rd_end r1 \<noteq> Read_error")
    case True
    then obtain r1 where "step r r1" "rd_end r1 \<noteq> Read_error" by blast
    with less.hyps [OF step_work [OF this(1)]] show ?thesis by (meson converse_rtranclp_into_rtranclp)
  next
    case False
    then show ?thesis using less.prems by (auto simp: reader_quiet_def)
  qed
qed

lemma core_verdict:
  assumes "step\<^sup>*\<^sup>* (reader_init u s) r" "wf u 0" "live u 0 = []" "rejects \<or> snd (snd (decode s))"
    and "reader_quiet step r"
  shows "rd_end r = Reading \<and> rd_stream r = [] \<and> (\<exists>gs z out. cut_at_errors decode s gs z \<and> length gs = rd_bad r \<and>
    (\<forall>g\<in>set gs. thrown g) \<and> rd_out r = messages_in decode gs @ out \<and> decode z = (out, live (rd_unp r) (rd_tr r), True))"
proof -
  have "rd_end r = Reading" using assms(5) by (cases "rd_end r") (auto simp: reader_quiet_def)
  then show ?thesis using stuck_done [OF assms(1-4)] assms(5) by (simp add: reader_quiet_def)
qed

lemma core_verdict_ok:
  assumes "step\<^sup>*\<^sup>* (reader_init u s) r" "wf u 0" "live u 0 = []" "snd (snd (decode s))" "reader_quiet step r"
  shows "rd_end r = Reading \<and> rd_stream r = [] \<and> rd_bad r = 0 \<and> decode s = (rd_out r, live (rd_unp r) (rd_tr r), True)"
proof -
  have "rd_bad r = 0" using never_fails [OF assms(1-4)] by simp
  then show ?thesis using core_verdict [OF assms(1-3) _ assms(5)] assms(4) by (auto simp: cut_at_errors_def)
qed

end

text \<open>
  The full contract: a parser that never reports success when a bad message follows. Then the
  session's end tells good streams from bad ones, and nothing wrong is ever delivered.
\<close>

locale unpacker_contract = unpacker_core +
  assumes parse_rejects: "ready u tr \<Longrightarrow> tr \<le> room u \<Longrightarrow> parse tr u = (True, u', ms) \<Longrightarrow>
            snd (snd (decode (live u tr)))"
begin

lemma rejecting: rejects
  using parse_rejects by (auto simp: rejects_def)

lemma good_run: "step\<^sup>*\<^sup>* (reader_init u s) r \<Longrightarrow> wf u 0 \<Longrightarrow> live u 0 = [] \<Longrightarrow> good s r"
  by (rule core_run) (simp_all add: rejecting)

lemma reading_wf: "good s r \<Longrightarrow> rd_end r = Reading \<Longrightarrow> wf (rd_unp r) (rd_tr r) \<and> rd_tr r \<le> room (rd_unp r)"
  by (auto simp: good_def)

text \<open>Whatever the peer sends, only messages of the pieces of the stream are delivered, in order.\<close>

lemmas delivered_pieces = core_pieces [OF _ _ _ disjI1 [OF rejecting]]

lemmas delivered_prefix = core_prefix [OF _ _ _ disjI1 [OF rejecting]]

text \<open>A quiet session has reported an error exactly when the stream has a bad message.\<close>

lemma quiet_verdict:
  assumes "step\<^sup>*\<^sup>* (reader_init u s) r" "wf u 0" "live u 0 = []" "reader_quiet step r"
  shows "rd_end r = Reading \<and> rd_stream r = [] \<and> (rd_bad r = 0 \<longleftrightarrow> snd (snd (decode s))) \<and>
    (\<exists>gs z out. cut_at_errors decode s gs z \<and> length gs = rd_bad r \<and> (\<forall>g\<in>set gs. thrown g) \<and>
      rd_out r = messages_in decode gs @ out \<and> decode z = (out, live (rd_unp r) (rd_tr r), True))"
proof -
  have v: "rd_end r = Reading" "rd_stream r = []" "\<exists>gs z out. cut_at_errors decode s gs z \<and> length gs = rd_bad r \<and>
      (\<forall>g\<in>set gs. thrown g) \<and> rd_out r = messages_in decode gs @ out \<and> decode z = (out, live (rd_unp r) (rd_tr r), True)"
    using core_verdict [OF assms(1-3) disjI1 [OF rejecting] assms(4)] by blast+
  then have "rd_bad r = 0 \<longleftrightarrow> snd (snd (decode s))"
    using never_fails [OF assms(1-3)] by (auto simp: cut_at_errors_def)
  then show ?thesis using v by blast
qed

lemma quiet_verdict_ok:
  assumes "step\<^sup>*\<^sup>* (reader_init u s) r" "wf u 0" "live u 0 = []" "snd (snd (decode s))" "reader_quiet step r"
  shows "rd_end r = Reading \<and> rd_stream r = [] \<and> rd_bad r = 0 \<and> decode s = (rd_out r, live (rd_unp r) (rd_tr r), True)"
  by (rule core_verdict_ok [OF assms])

end

end
