(* ===== verification/Unpacker.thy ===== *)
theory Unpacker
  imports Packer Stream_Reader
begin

text \<open>
  The default \<open>unpacker\<close> of \<open>ext/unpacker.h\<close>, which cuts a TCP stream into length-prefixed
  messages inside one fixed buffer of \<open>ASCS_MSG_BUFFER_SIZE\<close> bytes. The specification is
  \<open>split_frames\<close>, which cuts a byte string with no buffer and no state; the theory ends with the
  interpretation of the reader's contract, from which reassembly follows for every way the network
  can segment the stream.
\<close>

section \<open>The model\<close>

record unpacker =
  up_raw :: bytes
  up_cur :: nat
  up_remain :: nat
  up_stripped :: bool

definition up_init :: "bytes \<Rightarrow> bool \<Rightarrow> unpacker" where
  "up_init raw st = \<lparr>up_raw = raw, up_cur = npos, up_remain = 0, up_stripped = st\<rparr>"

definition up_reset :: "unpacker \<Rightarrow> unpacker" where
  "up_reset u = u\<lparr>up_cur := npos, up_remain := 0\<rparr>"

definition current_msg_length :: "unpacker \<Rightarrow> nat" where
  "current_msg_length u = up_cur u"

text \<open>
  \<open>parse_msg\<close> over the positions of the messages: \<open>pnext\<close> is an offset into the buffer, the
  result is \<open>unpack_ok\<close> when the loop ends, then \<open>pnext\<close>, \<open>cur_msg_len\<close>, \<open>remain_len\<close> and the
  positions.
\<close>

function up_parse_loop ::
  "ext_cfg \<Rightarrow> bytes \<Rightarrow> nat \<Rightarrow> nat \<Rightarrow> nat \<Rightarrow> (nat \<times> nat) list \<Rightarrow> bool \<times> nat \<times> nat \<times> nat \<times> (nat \<times> nat) list" where
  "up_parse_loop c raw pnext cur remain can =
     (if cur \<noteq> npos
      then
        (if cur > msg_buffer_size c \<or> cur < head_len c then (False, pnext, cur, remain, can)
         else if remain \<ge> cur
         then up_parse_loop c raw (pnext + cur) npos (remain - cur) (can @ [(pnext, cur)])
         else (True, pnext, cur, remain, can))
      else if remain \<ge> head_len c
      then
        let cur' = head_N2H c (drop pnext raw)
        in if huge_msg c \<and> cur' = npos then (False, pnext, cur', remain, can)
           else up_parse_loop c raw pnext cur' remain can
      else (True, pnext, cur, remain, can))"
  by pat_completeness auto

termination
proof (relation "measure (\<lambda>(c, raw, pnext, cur, remain, can). 2 * remain + (if cur = npos then 1 else 0))", goal_cases)
  case 1
  then show ?case by simp
next
  case (2 c raw pnext cur remain can)
  then have "0 < cur" using head_len_pos [of c] by linarith
  then show ?case using 2 by auto
next
  case (3 c raw pnext cur remain can x)
  then show ?case by simp
qed

declare up_parse_loop.simps [simp del]

definition up_parse_pos ::
  "ext_cfg \<Rightarrow> bytes \<Rightarrow> nat \<Rightarrow> nat \<Rightarrow> bool \<times> nat \<times> nat \<times> (nat \<times> nat) list" where
  "up_parse_pos c raw cur remain =
     (let (unpack_ok, pnext, cur', remain', can) = up_parse_loop c raw 0 cur remain []
      in (if pnext = 0 then False else unpack_ok, cur', remain', can))"

definition up_emit :: "ext_cfg \<Rightarrow> bool \<Rightarrow> bytes \<Rightarrow> (nat \<times> nat) list \<Rightarrow> bytes list" where
  "up_emit c st raw can =
     concat (map (\<lambda>(first, second).
       if second > head_len c
       then if st then [chunk (first + head_len c) (second - head_len c) raw] else [chunk first second raw]
       else []) can)"

definition up_shift :: "bytes \<Rightarrow> nat \<Rightarrow> (nat \<times> nat) list \<Rightarrow> bytes" where
  "up_shift raw remain can =
     (if remain > 0 \<and> can \<noteq> []
      then let pnext = fst (last can) + snd (last can) in write_at 0 (chunk pnext remain raw) raw
      else raw)"

definition up_parse_msg :: "ext_cfg \<Rightarrow> nat \<Rightarrow> unpacker \<Rightarrow> bool \<times> unpacker \<times> bytes list" where
  "up_parse_msg c bytes_transferred u =
     (let (unpack_ok, cur, remain, can) =
            up_parse_pos c (up_raw u) (up_cur u) (up_remain u + bytes_transferred);
          msg_can = up_emit c (up_stripped u) (up_raw u) can
      in (unpack_ok,
          u\<lparr>up_raw := up_shift (up_raw u) remain can, up_cur := cur, up_remain := remain\<rparr>, msg_can))"

definition up_completion_condition :: "ext_cfg \<Rightarrow> bool \<Rightarrow> nat \<Rightarrow> unpacker \<Rightarrow> nat \<times> unpacker" where
  "up_completion_condition c ec bytes_transferred u =
     (if ec then (0, u)
      else
        let data_len = up_remain u + bytes_transferred
        in if up_cur u = npos \<and> data_len \<ge> head_len c
           then
             let cur = head_N2H c (up_raw u); u' = u\<lparr>up_cur := cur\<rparr>
             in if cur > msg_buffer_size c \<or> cur < head_len c then (0, u')
                else (if data_len \<ge> cur then 0 else msg_buffer_size c, u')
           else (if data_len \<ge> up_cur u then 0 else msg_buffer_size c, u))"

text \<open>\<open>prepare_next_recv\<close>: the buffer behind the half-baked message, and a read into it.\<close>

definition up_room :: "ext_cfg \<Rightarrow> unpacker \<Rightarrow> nat" where
  "up_room c u = msg_buffer_size c - up_remain u"

definition up_recv :: "nat \<Rightarrow> bytes \<Rightarrow> unpacker \<Rightarrow> unpacker" where
  "up_recv tr bs u = u\<lparr>up_raw := write_at (up_remain u + tr) bs (up_raw u)\<rparr>"

definition up_raw_data :: "ext_cfg \<Rightarrow> unpacker \<Rightarrow> bytes \<Rightarrow> bytes" where
  "up_raw_data c u msg = (if up_stripped u then msg else drop (head_len c) msg)"

definition up_raw_data_len :: "ext_cfg \<Rightarrow> unpacker \<Rightarrow> bytes \<Rightarrow> nat" where
  "up_raw_data_len c u msg = (if up_stripped u then length msg else size_sub (length msg) (head_len c))"

section \<open>The specification\<close>

text \<open>
  The frames at the front of a byte string, the bytes left, and whether these can still become a
  frame (they cannot when they begin with a header out of range).
\<close>

function split_frames :: "ext_cfg \<Rightarrow> bytes \<Rightarrow> bytes list \<times> bytes \<times> bool" where
  "split_frames c bs =
     (if length bs < head_len c then ([], bs, True)
      else
        let l = head_N2H c bs
        in if l > msg_buffer_size c \<or> l < head_len c then ([], bs, False)
           else if length bs < l then ([], bs, True)
           else let (fs, r, ok) = split_frames c (drop l bs) in (take l bs # fs, r, ok))"
  by pat_completeness auto

termination
proof (relation "measure (\<lambda>(c, bs). length bs)", goal_cases)
  case 1
  then show ?case by simp
next
  case (2 c bs x)
  then have "0 < x" using head_len_pos [of c] by linarith
  then show ?case using 2 head_len_pos [of c] by auto
qed

declare split_frames.simps [simp del]

text \<open>Heartbeats are the frames with no body; they are dropped.\<close>

definition bodies :: "ext_cfg \<Rightarrow> bool \<Rightarrow> bytes list \<Rightarrow> bytes list" where
  "bodies c st fs = map (if st then drop (head_len c) else id) (filter (\<lambda>f. length f > head_len c) fs)"

definition decode :: "ext_cfg \<Rightarrow> bool \<Rightarrow> bytes \<Rightarrow> bytes list \<times> bytes \<times> bool" where
  "decode c st bs = (let (fs, r, ok) = split_frames c bs in (bodies c st fs, r, ok))"

section \<open>Cutting frames\<close>

lemma split_frames_short: "length bs < head_len c \<Longrightarrow> split_frames c bs = ([], bs, True)"
  by (simp add: split_frames.simps)

lemma split_frames_bad:
  "head_len c \<le> length bs \<Longrightarrow> head_N2H c bs > msg_buffer_size c \<or> head_N2H c bs < head_len c \<Longrightarrow>
   split_frames c bs = ([], bs, False)"
  by (subst split_frames.simps) (auto simp: Let_def)

lemma split_frames_more:
  "head_len c \<le> head_N2H c bs \<Longrightarrow> head_N2H c bs \<le> msg_buffer_size c \<Longrightarrow> length bs < head_N2H c bs \<Longrightarrow>
   split_frames c bs = ([], bs, True)"
  by (subst split_frames.simps) (auto simp: Let_def)

lemma split_frames_frame:
  "head_len c \<le> l \<Longrightarrow> l \<le> msg_buffer_size c \<Longrightarrow> l \<le> length bs \<Longrightarrow> head_N2H c bs = l \<Longrightarrow>
   split_frames c bs = (let (fs, r, ok) = split_frames c (drop l bs) in (take l bs # fs, r, ok))"
  by (subst split_frames.simps) (auto simp: Let_def)

lemmas split_frames_cases = split_frames_short split_frames_bad split_frames_more split_frames_frame

lemma head_N2H_append: "head_len c \<le> length xs \<Longrightarrow> head_N2H c (xs @ ys) = head_N2H c xs"
  by (simp add: head_N2H_def)

lemma split_frames_concat: "split_frames c bs = (fs, r, ok) \<Longrightarrow> concat fs @ r = bs"
proof (induction c bs arbitrary: fs r ok rule: split_frames.induct)
  case (1 c bs)
  show ?case
  proof (cases "head_len c \<le> length bs \<and> head_len c \<le> head_N2H c bs \<and> head_N2H c bs \<le> msg_buffer_size c \<and>
                head_N2H c bs \<le> length bs")
    case True
    obtain fs' r' ok' where e: "split_frames c (drop (head_N2H c bs) bs) = (fs', r', ok')"
      by (cases "split_frames c (drop (head_N2H c bs) bs)")
    have "concat fs' @ r' = drop (head_N2H c bs) bs" using "1.IH" [OF _ refl _ _ e] True by auto
    then show ?thesis using "1.prems" True e by (auto simp: split_frames_frame)
  next
    case False
    then show ?thesis using "1.prems" by (subst (asm) split_frames.simps) (auto simp: Let_def split: if_splits)
  qed
qed

lemma split_frames_append:
  assumes "split_frames c xs = (fs, r, True)" "split_frames c (r @ ys) = (fs', r', ok)"
  shows "split_frames c (xs @ ys) = (fs @ fs', r', ok)"
  using assms
proof (induction c xs arbitrary: fs r rule: split_frames.induct)
  case (1 c xs)
  let ?l = "head_N2H c xs"
  show ?case
  proof (cases "head_len c \<le> length xs \<and> head_len c \<le> ?l \<and> ?l \<le> msg_buffer_size c \<and> ?l \<le> length xs")
    case True
    obtain gs q ok' where e: "split_frames c (drop ?l xs) = (gs, q, ok')"
      by (cases "split_frames c (drop ?l xs)")
    then have p: "fs = take ?l xs # gs" "q = r" "ok'" using "1.prems"(1) True by (auto simp: split_frames_frame)
    have "split_frames c (drop ?l xs @ ys) = (gs @ fs', r', ok)"
      using "1.IH" [OF _ refl _ _, of gs r] True e p "1.prems"(2) by auto
    then show ?thesis
      using True p by (simp add: split_frames_frame [of c ?l "xs @ ys"] head_N2H_append)
  next
    case False
    then have "fs = []" "r = xs"
      using "1.prems"(1) by (subst (asm) split_frames.simps, auto simp: Let_def split: if_splits)+
    then show ?thesis using "1.prems"(2) by simp
  qed
qed

lemma split_frames_append_bad:
  assumes "split_frames c xs = (fs, r, False)"
  shows "split_frames c (xs @ ys) = (fs, r @ ys, False)"
  using assms
proof (induction c xs arbitrary: fs r rule: split_frames.induct)
  case (1 c xs)
  let ?l = "head_N2H c xs"
  show ?case
  proof (cases "head_len c \<le> length xs \<and> head_len c \<le> ?l \<and> ?l \<le> msg_buffer_size c \<and> ?l \<le> length xs")
    case True
    obtain gs q ok' where e: "split_frames c (drop ?l xs) = (gs, q, ok')"
      by (cases "split_frames c (drop ?l xs)")
    then have p: "fs = take ?l xs # gs" "q = r" "\<not> ok'" using "1.prems"(1) True by (auto simp: split_frames_frame)
    have "split_frames c (drop ?l xs @ ys) = (gs, r @ ys, False)"
      using "1.IH" [OF _ refl _ _, of gs r] True e p by auto
    then show ?thesis
      using True p by (simp add: split_frames_frame [of c ?l "xs @ ys"] head_N2H_append)
  next
    case False
    then have "head_len c \<le> length xs \<and> (?l > msg_buffer_size c \<or> ?l < head_len c) \<and> fs = [] \<and> r = xs"
      using "1.prems"(1) by (subst (asm) split_frames.simps) (auto simp: Let_def split: if_splits)
    then show ?thesis by (auto simp: head_N2H_append intro!: split_frames_bad)
  qed
qed

text \<open>What is left is always the beginning of one frame, or begins with a bad header.\<close>

lemma split_frames_rest:
  "split_frames c bs = (fs, r, ok) \<Longrightarrow> split_frames c r = ([], r, ok)"
proof (induction c bs arbitrary: fs r ok rule: split_frames.induct)
  case (1 c xs)
  let ?l = "head_N2H c xs"
  show ?case
  proof (cases "head_len c \<le> length xs \<and> head_len c \<le> ?l \<and> ?l \<le> msg_buffer_size c \<and> ?l \<le> length xs")
    case True
    obtain gs q ok' where e: "split_frames c (drop ?l xs) = (gs, q, ok')"
      by (cases "split_frames c (drop ?l xs)")
    have "split_frames c q = ([], q, ok')" using "1.IH" [OF _ refl _ _ e] True by auto
    moreover have "q = r" "ok' = ok" using "1.prems"(1) True e by (auto simp: split_frames_frame)
    ultimately show ?thesis by simp
  next
    case False
    then have "fs = []" "r = xs"
      using "1.prems"(1) by (subst (asm) split_frames.simps, auto simp: Let_def split: if_splits)+
    then show ?thesis using "1.prems"(1) by simp
  qed
qed

text \<open>An incomplete frame never fills the buffer.\<close>

lemma split_frames_incomplete:
  assumes "valid_cfg c" "split_frames c bs = ([], bs, True)" "length bs \<le> msg_buffer_size c"
  shows "length bs < msg_buffer_size c"
proof (rule ccontr)
  assume "\<not> length bs < msg_buffer_size c"
  then have full: "length bs = msg_buffer_size c" using assms(3) by simp
  then have hl: "head_len c \<le> length bs" using valid_cfg_head [OF assms(1)] by simp
  have ok: "head_len c \<le> head_N2H c bs" "head_N2H c bs \<le> length bs"
    using split_frames_bad [OF hl] assms(2) full by (auto simp: not_le [symmetric])
  then have "fst (split_frames c bs) \<noteq> []"
    using split_frames_frame [OF _ _ _ refl, of c bs] full by (simp split: prod.splits)
  then show False using assms(2) by simp
qed

text \<open>A packed message is one frame.\<close>

lemma head_N2H_frame: "fits c body \<Longrightarrow> head_N2H c (frame c body @ bs) = head_len c + length body"
  by (simp add: frame_def fits_def head_N2H_H2N)

lemma split_frames_frames:
  "\<forall>b\<in>set bs. fits c b \<Longrightarrow> split_frames c (concat (map (frame c) bs)) = (map (frame c) bs, [], True)"
proof (induction bs)
  case Nil
  then show ?case by (simp add: split_frames_short)
next
  case (Cons b bs)
  then have f: "fits c b" "split_frames c (concat (map (frame c) bs)) = (map (frame c) bs, [], True)" by auto
  have "split_frames c (frame c b @ concat (map (frame c) bs)) =
        (let (fs, r, ok) = split_frames c (drop (length (frame c b)) (frame c b @ concat (map (frame c) bs)))
         in (take (length (frame c b)) (frame c b @ concat (map (frame c) bs)) # fs, r, ok))"
    using f(1) by (intro split_frames_frame) (auto simp: head_N2H_frame fits_def)
  then show ?case using f(2) by simp
qed

section \<open>The parse loop cuts the received bytes as specified\<close>

fun positions :: "nat \<Rightarrow> bytes list \<Rightarrow> (nat \<times> nat) list" where
  "positions off [] = []"
| "positions off (f # fs) = (off, length f) # positions (off + length f) fs"

lemma chunk_drop: "a \<le> n \<Longrightarrow> drop a (chunk off n raw) = chunk (off + a) (n - a) raw"
  by (simp add: chunk_def drop_take add.commute)

lemma head_N2H_chunk: "head_len c \<le> n \<Longrightarrow> head_N2H c (chunk off n raw) = head_N2H c (drop off raw)"
  by (simp add: chunk_def head_N2H_take)

text \<open>\<open>cur_msg_len\<close> is either unknown or the header at the front of the unparsed bytes.\<close>

definition cur_ok :: "ext_cfg \<Rightarrow> nat \<Rightarrow> bytes \<Rightarrow> bool" where
  "cur_ok c cur bs \<longleftrightarrow> cur = npos \<or> (head_len c \<le> length bs \<and> cur = head_N2H c bs)"

lemma cur_ok_npos [simp]: "cur_ok c npos bs"
  by (simp add: cur_ok_def)

lemma cur_ok_append: "cur_ok c cur bs \<Longrightarrow> cur_ok c cur (bs @ ys)"
  by (auto simp: cur_ok_def head_N2H_append)

lemma up_parse_loop_split:
  assumes "off + remain \<le> length raw" "cur_ok c cur (chunk off remain raw)" "valid_cfg c"
    and "split_frames c (chunk off remain raw) = (fs, r, ok)"
  shows "\<exists>cur'. up_parse_loop c raw off cur remain can =
                  (ok, off + length (concat fs), cur', length r, can @ positions off fs) \<and>
                cur_ok c cur' r \<and> (cur' = npos \<longrightarrow> length r < head_len c)"
  using assms
proof (induction c raw off cur remain can arbitrary: fs r ok rule: up_parse_loop.induct)
  case (1 c raw off cur remain can)
  let ?d = "chunk off remain raw"
  have len: "length ?d = remain" using "1.prems"(1) by (simp add: length_chunk)
  show ?case
  proof (cases "cur = npos")
    case npos: False
    then have cur: "head_len c \<le> remain" "cur = head_N2H c ?d"
      using "1.prems"(2) len by (auto simp: cur_ok_def)
    show ?thesis
    proof (cases "cur > msg_buffer_size c \<or> cur < head_len c")
      case True
      then have "split_frames c ?d = ([], ?d, False)" using cur len by (auto intro: split_frames_bad)
      then have "fs = []" "r = ?d" "\<not> ok" using "1.prems"(4) by auto
      then show ?thesis
        using npos True "1.prems"(2) len by (subst up_parse_loop.simps) auto
    next
      case bad: False
      show ?thesis
      proof (cases "cur \<le> remain")
        case True
        obtain gs q b where e: "split_frames c (drop cur ?d) = (gs, q, b)" by (cases "split_frames c (drop cur ?d)")
        have "split_frames c ?d = (take cur ?d # gs, q, b)"
          using split_frames_frame [OF _ _ _ cur(2) [symmetric]] bad True len e by simp
        then have p: "fs = take cur ?d # gs" "q = r" "b = ok" using "1.prems"(4) by auto
        have "drop cur ?d = chunk (off + cur) (remain - cur) raw" using True by (simp add: chunk_drop)
        then obtain cur' where ih: "up_parse_loop c raw (off + cur) npos (remain - cur) (can @ [(off, cur)]) =
            (ok, off + cur + length (concat gs), cur', length r, (can @ [(off, cur)]) @ positions (off + cur) gs)"
          "cur_ok c cur' r" "cur' = npos \<longrightarrow> length r < head_len c"
          using "1.IH"(1) [OF npos bad True, of gs r ok] "1.prems"(1,3) True e p by auto
        have "up_parse_loop c raw off cur remain can =
              up_parse_loop c raw (off + cur) npos (remain - cur) (can @ [(off, cur)])"
          using npos bad True by (subst up_parse_loop.simps) auto
        then show ?thesis using ih p True len by auto
      next
        case False
        have "split_frames c ?d = ([], ?d, True)"
          using bad False cur len by (intro split_frames_more) auto
        then have "fs = []" "r = ?d" "ok" using "1.prems"(4) by auto
        then show ?thesis
          using npos bad False "1.prems"(2) len by (subst up_parse_loop.simps) auto
      qed
    qed
  next
    case npos: True
    show ?thesis
    proof (cases "head_len c \<le> remain")
      case True
      let ?x = "head_N2H c (drop off raw)"
      have x: "?x = head_N2H c ?d" using True by (simp add: head_N2H_chunk)
      have ih: "\<exists>cur'. up_parse_loop c raw off ?x remain can =
                  (ok, off + length (concat fs), cur', length r, can @ positions off fs) \<and>
                cur_ok c cur' r \<and> (cur' = npos \<longrightarrow> length r < head_len c)"
        using "1.IH"(2) [OF _ True refl] npos "1.prems" x len True by (auto simp: cur_ok_def)
      have "up_parse_loop c raw off cur remain can = up_parse_loop c raw off ?x remain can"
        using npos True by (subst up_parse_loop.simps) (simp add: Let_def)
      then show ?thesis using ih by simp
    next
      case False
      then have "split_frames c ?d = ([], ?d, True)" using len by (simp add: split_frames_short)
      then have "fs = []" "r = ?d" "ok" using "1.prems"(4) by auto
      then show ?thesis
        using npos False len by (subst up_parse_loop.simps) auto
    qed
  qed
qed

lemma split_frames_lengths:
  "split_frames c bs = (fs, r, ok) \<Longrightarrow> f \<in> set fs \<Longrightarrow> head_len c \<le> length f \<and> length f \<le> msg_buffer_size c"
proof (induction c bs arbitrary: fs r ok rule: split_frames.induct)
  case (1 c xs)
  let ?l = "head_N2H c xs"
  show ?case
  proof (cases "head_len c \<le> length xs \<and> head_len c \<le> ?l \<and> ?l \<le> msg_buffer_size c \<and> ?l \<le> length xs")
    case True
    obtain gs q ok' where e: "split_frames c (drop ?l xs) = (gs, q, ok')"
      by (cases "split_frames c (drop ?l xs)")
    then have "fs = take ?l xs # gs" using "1.prems"(1) True by (auto simp: split_frames_frame)
    then show ?thesis using "1.IH" [OF _ refl _ _ e] True "1.prems"(2) by auto
  next
    case False
    then have "fs = []"
      using "1.prems"(1) by (subst (asm) split_frames.simps) (auto simp: Let_def split: if_splits)
    then show ?thesis using "1.prems"(2) by simp
  qed
qed

lemma last_positions:
  "fs \<noteq> [] \<Longrightarrow> positions off fs \<noteq> [] \<and>
   fst (last (positions off fs)) + snd (last (positions off fs)) = off + length (concat fs)"
proof (induction fs arbitrary: off)
  case Nil
  then show ?case by simp
next
  case (Cons f fs)
  then show ?case by (cases fs) auto
qed

lemma chunk_prefix: "drop off raw = f @ rest \<Longrightarrow> n = length f \<Longrightarrow> chunk off n raw = f"
  by (simp add: chunk_def)

lemma up_emit_positions:
  assumes "drop off raw = concat fs @ rest"
  shows "up_emit c st raw (positions off fs) = bodies c st fs"
  using assms
proof (induction fs arbitrary: off)
  case Nil
  then show ?case by (simp add: up_emit_def bodies_def)
next
  case (Cons f fs)
  have f: "chunk off (length f) raw = f"
    using Cons.prems by (intro chunk_prefix [of off raw f "concat fs @ rest"]) simp_all
  have "drop (off + length f) raw = drop (length f) (drop off raw)" by (simp add: add.commute)
  also have "\<dots> = concat fs @ rest" using Cons.prems by simp
  finally have ih: "up_emit c st raw (positions (off + length f) fs) = bodies c st fs" by (rule Cons.IH)
  have "chunk (off + head_len c) (length f - head_len c) raw = drop (head_len c) (chunk off (length f) raw)"
    if "head_len c < length f"
    using that by (simp add: chunk_drop)
  then show ?case using ih f by (auto simp: up_emit_def bodies_def)
qed

section \<open>parse_msg and the state between two reads\<close>

definition up_live :: "unpacker \<Rightarrow> nat \<Rightarrow> bytes" where
  "up_live u tr = take (up_remain u + tr) (up_raw u)"

definition up_ready :: "ext_cfg \<Rightarrow> unpacker \<Rightarrow> nat \<Rightarrow> bool" where
  "up_ready c u tr \<longleftrightarrow> length (up_raw u) = msg_buffer_size c \<and> up_remain u + tr \<le> msg_buffer_size c \<and>
     cur_ok c (up_cur u) (up_live u tr)"

definition up_wf :: "ext_cfg \<Rightarrow> unpacker \<Rightarrow> nat \<Rightarrow> bool" where
  "up_wf c u tr \<longleftrightarrow> up_ready c u tr \<and>
     (up_cur u \<noteq> npos \<longrightarrow> head_len c \<le> up_cur u \<and> up_cur u \<le> msg_buffer_size c) \<and>
     split_frames c (take (up_remain u) (up_raw u)) = ([], take (up_remain u) (up_raw u), True)"

lemma length_up_live: "up_ready c u tr \<Longrightarrow> length (up_live u tr) = up_remain u + tr"
  by (simp add: up_ready_def up_live_def)

lemma up_wf_init: "length raw = msg_buffer_size c \<Longrightarrow> up_wf c (up_init raw st) 0"
  by (simp add: up_wf_def up_ready_def up_init_def split_frames_short)

lemma up_wf_reset: "length (up_raw u) = msg_buffer_size c \<Longrightarrow> up_wf c (up_reset u) 0"
  by (simp add: up_wf_def up_ready_def up_reset_def split_frames_short)

lemma positions_Nil [simp]: "positions off fs = [] \<longleftrightarrow> fs = []"
  by (cases fs) auto

lemma split_frames_concat_pos: "split_frames c bs = (fs, r, ok) \<Longrightarrow> length (concat fs) = 0 \<longleftrightarrow> fs = []"
proof (cases fs)
  case (Cons f gs)
  assume "split_frames c bs = (fs, r, ok)"
  then have "head_len c \<le> length f" using split_frames_lengths [of c bs fs r ok f] Cons by simp
  then have "0 < length f" using head_len_pos [of c] by linarith
  then show ?thesis using Cons by simp
qed simp

lemma up_shift_rest:
  assumes "take n raw = concat fs @ r" "n \<le> length raw"
  shows "length (up_shift raw (length r) (positions 0 fs)) = length raw \<and>
         take (length r) (up_shift raw (length r) (positions 0 fs)) = r"
proof -
  have len: "length (concat fs) + length r = n" using assms by (metis length_append length_take min.absorb2)
  have "chunk (length (concat fs)) (length r) raw = chunk (length (concat fs)) (length r) (take n raw)"
    using len by (simp add: chunk_take)
  also have "\<dots> = r" using assms(1) by (simp add: chunk_def)
  finally have c: "chunk (length (concat fs)) (length r) raw = r" .
  show ?thesis
  proof (cases "length r > 0 \<and> fs \<noteq> []")
    case True
    then have "up_shift raw (length r) (positions 0 fs) = write_at 0 r raw"
      using last_positions [of fs 0] c by (simp add: up_shift_def)
    then show ?thesis using len assms(2) by (simp add: length_write_at take_write_at_0)
  next
    case False
    then show ?thesis using assms by (auto simp: up_shift_def)
  qed
qed

lemma up_parse_pos_split:
  assumes "valid_cfg c" "n \<le> length raw" "cur_ok c cur (take n raw)" "split_frames c (take n raw) = (fs, r, ok)"
  obtains cur' where "up_parse_pos c raw cur n = (ok \<and> fs \<noteq> [], cur', length r, positions 0 fs)"
    "cur_ok c cur' r" "cur' = npos \<Longrightarrow> length r < head_len c"
    "ok \<Longrightarrow> cur' \<noteq> npos \<Longrightarrow> head_len c \<le> cur' \<and> cur' \<le> msg_buffer_size c \<and> length r < cur'"
    "up_emit c st raw (positions 0 fs) = bodies c st fs"
    "length (up_shift raw (length r) (positions 0 fs)) = length raw"
    "take (length r) (up_shift raw (length r) (positions 0 fs)) = r" "length r \<le> n"
proof -
  obtain cur' where l: "up_parse_loop c raw 0 cur n [] = (ok, length (concat fs), cur', length r, positions 0 fs)"
    "cur_ok c cur' r" "cur' = npos \<longrightarrow> length r < head_len c"
    using up_parse_loop_split [of 0 n raw c cur fs r ok "[]"] assms by auto
  have cat: "take n raw = concat fs @ r" using split_frames_concat [OF assms(4)] by simp
  then have em: "up_emit c st raw (positions 0 fs) = bodies c st fs"
    by (metis append.assoc append_take_drop_id drop0 up_emit_positions)
  have pos: "up_parse_pos c raw cur n = (ok \<and> fs \<noteq> [], cur', length r, positions 0 fs)"
    using l(1) split_frames_concat_pos [OF assms(4)] by (auto simp: up_parse_pos_def)
  have rest: "head_len c \<le> cur' \<and> cur' \<le> msg_buffer_size c \<and> length r < cur'" if "ok" "cur' \<noteq> npos"
  proof -
    have h: "head_len c \<le> length r" "cur' = head_N2H c r" using l(2) that by (auto simp: cur_ok_def)
    have sp: "split_frames c r = ([], r, True)" using split_frames_rest [OF assms(4)] that by simp
    have "head_len c \<le> cur' \<and> cur' \<le> msg_buffer_size c"
      using sp h split_frames_bad [of c r] by (metis linorder_not_le prod.inject)
    moreover have "length r < cur'"
    proof (rule ccontr)
      assume "\<not> length r < cur'"
      with calculation have "fst (split_frames c r) \<noteq> []"
        using split_frames_frame [OF _ _ _ h(2) [symmetric]] by (simp split: prod.splits)
      then show False using sp by simp
    qed
    ultimately show ?thesis by simp
  qed
  have "length r \<le> n" using cat assms(2) by (metis length_append length_take le_add2 min.absorb2)
  then show thesis using that pos l(2,3) rest em up_shift_rest [OF cat assms(2)] by auto
qed

lemma up_parse_msg_split:
  assumes "valid_cfg c" "up_ready c u tr" "split_frames c (up_live u tr) = (fs, r, ok)"
  shows "\<exists>u'. up_parse_msg c tr u = (ok \<and> fs \<noteq> [], u', bodies c (up_stripped u) fs) \<and>
              up_live u' 0 = r \<and> up_remain u' = length r \<and> up_stripped u' = up_stripped u \<and>
              up_ready c u' 0 \<and> (ok \<longrightarrow> up_wf c u' 0)"
proof -
  let ?n = "up_remain u + tr" and ?raw = "up_raw u"
  have u: "length ?raw = msg_buffer_size c" "?n \<le> msg_buffer_size c" "cur_ok c (up_cur u) (take ?n ?raw)"
    using assms(2) by (auto simp: up_ready_def up_live_def)
  have sp: "split_frames c (take ?n ?raw) = (fs, r, ok)" using assms(3) by (simp add: up_live_def)
  obtain cur' where p: "up_parse_pos c ?raw (up_cur u) ?n = (ok \<and> fs \<noteq> [], cur', length r, positions 0 fs)"
    "cur_ok c cur' r"
    "ok \<Longrightarrow> cur' \<noteq> npos \<Longrightarrow> head_len c \<le> cur' \<and> cur' \<le> msg_buffer_size c \<and> length r < cur'"
    "up_emit c (up_stripped u) ?raw (positions 0 fs) = bodies c (up_stripped u) fs"
    "length (up_shift ?raw (length r) (positions 0 fs)) = length ?raw"
    "take (length r) (up_shift ?raw (length r) (positions 0 fs)) = r" "length r \<le> ?n"
  proof (rule up_parse_pos_split [OF assms(1) _ u(3) sp, of "up_stripped u"], goal_cases)
    case 1
    then show ?case using u(1,2) by simp
  next
    case (2 cur')
    show thesis by (rule 2(1)) (use 2 in \<open>simp_all (no_asm_use)\<close>)
  qed
  let ?u' = "u\<lparr>up_raw := up_shift ?raw (length r) (positions 0 fs), up_cur := cur', up_remain := length r\<rparr>"
  have "up_parse_msg c tr u = (ok \<and> fs \<noteq> [], ?u', bodies c (up_stripped u) fs)"
    using p(1,4) by (simp add: up_parse_msg_def)
  moreover have "up_live ?u' 0 = r" "up_ready c ?u' 0" using p u by (simp_all add: up_live_def up_ready_def)
  moreover have "up_wf c ?u' 0" if ok
    using \<open>up_ready c ?u' 0\<close> split_frames_rest [OF sp] that p(3,6) by (simp add: up_wf_def)
  ultimately show ?thesis by auto
qed

text \<open>
  \<open>parse_msg\<close> implements the specification: for an unpacker that holds any bytes, with
  \<open>cur_msg_len\<close> unknown or read from the front of them, the messages appended to the container are
  the bodies of exactly the frames at the front (heartbeats dropped, header stripped on demand), the
  bytes left are moved to the front of the buffer, and the call succeeds iff no bad header follows
  and at least one frame was there.
\<close>

theorem up_parse_msg_refines:
  assumes "valid_cfg c" "up_ready c u tr" "split_frames c (up_live u tr) = (fs, r, ok)"
  shows "\<exists>u'. up_parse_msg c tr u = (ok \<and> fs \<noteq> [], u', bodies c (up_stripped u) fs) \<and>
              up_live u' 0 = r \<and> up_remain u' = length r \<and> up_stripped u' = up_stripped u \<and>
              up_ready c u' 0 \<and> (ok \<longrightarrow> up_wf c u' 0)"
  using assms by (rule up_parse_msg_split)

lemma up_demo_live:
  "split_frames tiny_cfg [0, 3, 7, 0, 2, 0] = ([[0, 3, 7], [0, 2]], [0], True)"
  by (simp add: split_frames.simps head_N2H_def be_value_def)

theorem up_parse_msg_refines_witness:
  "\<exists>u'. up_parse_msg tiny_cfg 6 (up_init [0, 3, 7, 0, 2, 0, 9, 9] True) = (True, u', [[7]]) \<and> up_live u' 0 = [0]"
proof -
  let ?u = "up_init [0, 3, 7, 0, 2, 0, 9, 9] True"
  have "up_ready tiny_cfg ?u 6" by (simp add: up_ready_def up_init_def)
  moreover have "split_frames tiny_cfg (up_live ?u 6) = ([[0, 3, 7], [0, 2]], [0], True)"
    using up_demo_live by (simp add: up_live_def up_init_def)
  ultimately show ?thesis
    using up_parse_msg_refines [of tiny_cfg ?u 6] by (auto simp: bodies_def up_init_def)
qed

section \<open>Reading from the network\<close>

lemma up_completion_ready:
  assumes "up_wf c u tr" "up_completion_condition c False tr u = (n, u')"
  shows "up_ready c u' tr \<and> up_live u' tr = up_live u tr \<and> up_remain u' = up_remain u"
proof -
  have "head_N2H c (up_raw u) = head_N2H c (up_live u tr)" if "head_len c \<le> up_remain u + tr"
    using that by (simp add: up_live_def head_N2H_take)
  then show ?thesis
    using assms by (auto simp: up_completion_condition_def up_wf_def up_ready_def up_live_def cur_ok_def Let_def
                         split: if_splits)
qed

lemma up_completion_more:
  assumes "valid_cfg c" "up_wf c u tr" "up_completion_condition c False tr u = (n, u')" "0 < n"
  shows "up_wf c u' tr \<and> split_frames c (up_live u tr) = ([], up_live u tr, True) \<and> tr < up_room c u"
proof -
  have len: "length (up_live u tr) = up_remain u + tr" using assms(2) length_up_live by (auto simp: up_wf_def)
  have hd: "head_N2H c (up_raw u) = head_N2H c (up_live u tr)" if "head_len c \<le> up_remain u + tr"
    using that by (simp add: up_live_def head_N2H_take)
  have rdy: "up_ready c u tr" using assms(2) by (simp add: up_wf_def)
  have rdy': "up_ready c u' tr \<and> up_live u' tr = up_live u tr" using up_completion_ready [OF assms(2,3)] by simp
  have raw: "up_raw u' = up_raw u" "up_remain u' = up_remain u"
    using assms(3) by (auto simp: up_completion_condition_def Let_def split: if_splits)
  show ?thesis
  proof (cases "head_len c \<le> up_remain u + tr")
    case True
    then have c': "up_cur u' = head_N2H c (up_live u tr)" "head_len c \<le> up_cur u'" "up_cur u' \<le> msg_buffer_size c"
      "up_remain u + tr < up_cur u'"
      using assms(2-4) hd by (auto simp: up_completion_condition_def up_wf_def up_ready_def cur_ok_def Let_def
                                split: if_splits)
    then have "split_frames c (up_live u tr) = ([], up_live u tr, True)"
      using len by (intro split_frames_more) auto
    then show ?thesis using c' rdy' raw assms(2) by (auto simp: up_wf_def up_room_def)
  next
    case False
    then have "u' = u" using assms(3) by (auto simp: up_completion_condition_def Let_def split: if_splits)
    moreover have "tr < up_room c u" using False valid_cfg_head [OF assms(1)] by (simp add: up_room_def)
    ultimately show ?thesis using False assms(2) len by (simp add: split_frames_short)
  qed
qed

lemma up_completion_zero:
  assumes "valid_cfg c" "up_wf c u tr" "up_completion_condition c False tr u = (0, u')"
    and "split_frames c (up_live u tr) = (fs, r, True)"
  shows "fs \<noteq> []"
proof -
  let ?d = "up_live u tr"
  have len: "length ?d = up_remain u + tr" using assms(2) length_up_live by (auto simp: up_wf_def)
  have hd: "head_N2H c (up_raw u) = head_N2H c ?d" if "head_len c \<le> up_remain u + tr"
    using that by (simp add: up_live_def head_N2H_take)
  have N: "0 < msg_buffer_size c" using valid_cfg_head [OF assms(1)] head_len_pos [of c] by linarith
  have hl: "head_len c \<le> length ?d"
  proof (rule ccontr)
    assume short: "\<not> head_len c \<le> length ?d"
    then have "up_cur u = npos" using assms(2) by (auto simp: up_wf_def up_ready_def cur_ok_def)
    moreover have "length ?d < npos"
      using short valid_cfg_less_npos [OF assms(1) valid_cfg_head [OF assms(1)]] by simp
    ultimately show False
      using assms(3) N short len by (simp add: up_completion_condition_def Let_def)
  qed
  have ok: "head_len c \<le> head_N2H c ?d \<and> head_N2H c ?d \<le> msg_buffer_size c"
    using split_frames_bad [OF hl] assms(4) by (metis linorder_not_le prod.inject)
  have cur: "up_cur u = npos \<or> up_cur u = head_N2H c ?d"
    using assms(2) by (auto simp: up_wf_def up_ready_def cur_ok_def)
  have "head_N2H c ?d \<le> length ?d"
  proof (rule ccontr)
    assume short: "\<not> head_N2H c ?d \<le> length ?d"
    have h: "head_N2H c (up_raw u) = head_N2H c ?d" using hd hl len by simp
    have "fst (up_completion_condition c False tr u) = msg_buffer_size c"
    proof (cases "up_cur u = npos")
      case True
      then show ?thesis using h short ok hl len by (simp add: up_completion_condition_def Let_def)
    next
      case False
      then show ?thesis using cur short len by (simp add: up_completion_condition_def Let_def)
    qed
    then show False using assms(3) N by simp
  qed
  then show ?thesis
    using split_frames_frame [of c "head_N2H c ?d" ?d] ok assms(4)
    by (auto split: prod.splits)
qed

lemma up_recv_wf:
  assumes "valid_cfg c" "up_wf c u tr" "tr + length bs \<le> up_room c u"
  shows "up_wf c (up_recv tr bs u) (tr + length bs) \<and>
         up_live (up_recv tr bs u) (tr + length bs) = up_live u tr @ bs \<and> up_room c (up_recv tr bs u) = up_room c u"
proof -
  have u: "length (up_raw u) = msg_buffer_size c" "up_remain u + tr \<le> msg_buffer_size c"
    using assms(2) by (auto simp: up_wf_def up_ready_def)
  have fit: "up_remain u + tr + length bs \<le> length (up_raw u)"
    using assms(3) u by (auto simp: up_room_def)
  then have "up_live (up_recv tr bs u) (tr + length bs) = up_live u tr @ bs"
    by (simp add: up_live_def up_recv_def take_write_at add.assoc [symmetric])
  moreover from this have "up_ready c (up_recv tr bs u) (tr + length bs)"
    using assms(2) fit u by (auto simp: up_wf_def up_ready_def up_recv_def length_write_at intro!: cur_ok_append)
  moreover have "take (up_remain u) (write_at (up_remain u + tr) bs (up_raw u)) = take (up_remain u) (up_raw u)"
    using u by (intro take_le_write_at) auto
  ultimately show ?thesis using assms(2) by (simp add: up_wf_def up_recv_def up_room_def)
qed

section \<open>Reassembly\<close>

abbreviation up_session :: "ext_cfg \<Rightarrow> unpacker reader \<Rightarrow> unpacker reader \<Rightarrow> bool" where
  "up_session c \<equiv> reader_step (up_completion_condition c False) (up_parse_msg c) (up_room c) up_recv up_reset"

lemma up_raw_ops [simp]:
  "up_stripped (up_recv tr bs u) = up_stripped u"
  by (simp add: up_recv_def)

lemma up_completion_stripped: "up_completion_condition c e tr u = (n, u') \<Longrightarrow> up_stripped u' = up_stripped u"
  by (auto simp: up_completion_condition_def Let_def split: if_splits)

lemma decode_append:
  "decode c st xs = (ms, r, True) \<Longrightarrow> decode c st (r @ ys) = (ms', r', ok) \<Longrightarrow>
   decode c st (xs @ ys) = (ms @ ms', r', ok)"
  by (auto simp: decode_def bodies_def split_frames_append split: prod.splits)

lemma decode_bad: "decode c st xs = (ms, r, False) \<Longrightarrow> \<exists>r'. decode c st (xs @ ys) = (ms, r', False)"
  by (auto simp: decode_def split_frames_append_bad split: prod.splits)

lemma up_parse_msg_decode:
  assumes "valid_cfg c" "up_ready c u tr" "up_parse_msg c tr u = (b, u', ms)"
  obtains fs where "split_frames c (up_live u tr) = (fs, up_live u' 0, b \<or> fs = [] \<and> snd (snd (split_frames c (up_live u tr))))"
    "ms = bodies c (up_stripped u) fs" "up_stripped u' = up_stripped u" "up_ready c u' 0" "b \<longrightarrow> up_wf c u' 0"
    "b \<longrightarrow> fs \<noteq> []"
proof -
  obtain fs r ok where s: "split_frames c (up_live u tr) = (fs, r, ok)"
    by (cases "split_frames c (up_live u tr)")
  from up_parse_msg_split [OF assms(1,2) s] s assms(3) that [of fs] show ?thesis by auto
qed

interpretation up: unpacker_contract
  "up_completion_condition c False" "up_parse_msg c" "up_room c" up_recv up_reset
  "\<lambda>u tr. valid_cfg c \<and> up_stripped u = st \<and> up_wf c u tr"
  "\<lambda>u tr. valid_cfg c \<and> up_stripped u = st \<and> up_ready c u tr"
  up_live "decode c st"
  for c st
proof (unfold_locales, goal_cases)
  case 1
  then show ?case by (simp add: decode_def split_frames_short bodies_def)
next
  case (2 xs ms r ys ms' r' ok)
  then show ?case by (rule decode_append)
next
  case (3 xs ms r ys)
  then show ?case by (rule decode_bad)
next
  case (4 u tr)
  then show ?case by (simp add: up_wf_def)
next
  case (5 u tr n u')
  then show ?case using up_completion_ready [of c u tr n u'] up_completion_stripped [of c False tr u n u']
    by (simp add: up_room_def)
next
  case (6 u tr n u')
  then show ?case using up_completion_more [of c u tr n u'] up_completion_stripped [of c False tr u n u']
    by (simp add: decode_def bodies_def)
next
  case (7 u n u')
  have "0 < n"
  proof (rule ccontr)
    assume "\<not> 0 < n"
    then have "split_frames c (up_live u 0) = ([], up_live u 0, True)" "n = 0"
      using 7 by (auto simp: up_wf_def up_live_def)
    then show False using up_completion_zero [of c u 0 u' "[]" "up_live u 0"] 7 by simp
  qed
  then show ?case using up_completion_more [of c u 0 n u'] 7 by simp
next
  case (8 u tr bs)
  then show ?case using up_recv_wf [of c u tr bs] by simp
next
  case (9 u tr u' ms)
  then have v: "valid_cfg c" "up_ready c u tr" "up_stripped u = st" by auto
  show ?case
    by (rule up_parse_msg_decode [OF v(1,2) 9(3)]) (use v in \<open>auto simp: decode_def\<close>)
next
  case (10 u tr ok u' ms)
  then have v: "valid_cfg c" "up_ready c u tr" "up_stripped u = st" by auto
  show ?case
  proof (cases "split_frames c (up_live u tr)")
    case (fields fs r ok')
    from up_parse_msg_split [OF v(1,2) fields] fields v(3) 10(3) show ?thesis
      by (auto simp: decode_def)
  qed
next
  case (11 u tr n u')
  then have "n = 0" using up_completion_more [of c u tr n u'] by (cases "n = 0") auto
  then have v: "valid_cfg c" "up_wf c u tr" "up_completion_condition c False tr u = (0, u')" using 11 by auto
  obtain fs r where s: "split_frames c (up_live u tr) = (fs, r, True)"
    using 11(5) by (cases "split_frames c (up_live u tr)") (auto simp: decode_def)
  have "up_ready c u' tr" "up_live u' tr = up_live u tr" using up_completion_ready [OF v(2,3)] by auto
  with up_parse_msg_split [OF v(1), of u' tr fs r True] s up_completion_zero [OF v s]
  show ?case by auto
next
  case (12 u tr u' ms)
  then have v: "valid_cfg c" "up_ready c u tr" "up_stripped u = st" by auto
  obtain fs r where s: "split_frames c (up_live u tr) = (fs, r, False)"
    using 12(4) by (cases "split_frames c (up_live u tr)") (auto simp: decode_def)
  from up_parse_msg_split [OF v(1,2) s] 12(3) have "ms = bodies c st fs" "up_ready c u' 0" "up_stripped u' = st" using v(3) by auto
  moreover from this have "up_wf c (up_reset u') 0" by (intro up_wf_reset) (simp add: up_ready_def)
  ultimately show ?case using s v(1) by (simp add: decode_def up_reset_def up_live_def)
next
  case (13 u tr u' ms)
  then have v: "valid_cfg c" "up_ready c u tr" by auto
  show ?case
    by (rule up_parse_msg_decode [OF v 13(3)]) (simp add: decode_def)
qed

lemma up_start:
  assumes "valid_cfg c" "length raw = msg_buffer_size c"
  shows "valid_cfg c \<and> up_stripped (up_init raw st) = st \<and> up_wf c (up_init raw st) 0"
    and "up_live (up_init raw st) 0 = []"
  using assms(1) up_wf_init [OF assms(2)] by (simp_all add: up_init_def up_live_def)

text \<open>A session of the default unpacker on a stream.\<close>

definition up_run :: "ext_cfg \<Rightarrow> bool \<Rightarrow> bytes \<Rightarrow> bytes \<Rightarrow> unpacker reader \<Rightarrow> bool" where
  "up_run c st raw s r \<longleftrightarrow> length raw = msg_buffer_size c \<and> (up_session c)\<^sup>*\<^sup>* (reader_init (up_init raw st) s) r"

lemma up_run_quiet_ex:
  assumes "length raw = msg_buffer_size c"
  shows "\<exists>r. up_run c st raw s r \<and> reader_quiet (up_session c) r"
  using up.reaches_quiet [of "reader_init (up_init raw st) s" c] assms by (auto simp: up_run_def reader_init_def)

lemma up_run_verdict:
  assumes "valid_cfg c" "up_run c st raw s r" "reader_quiet (up_session c) r" "snd (snd (decode c st s))"
  shows "rd_end r = Reading \<and> rd_stream r = [] \<and> rd_bad r = 0 \<and> decode c st s = (rd_out r, up_live (rd_unp r) (rd_tr r), True)"
proof -
  have r: "(up_session c)\<^sup>*\<^sup>* (reader_init (up_init raw st) s) r" "length raw = msg_buffer_size c"
    using assms(2) by (auto simp: up_run_def)
  show ?thesis by (rule up.quiet_verdict_ok [OF r(1) up_start [OF assms(1) r(2)] assms(4,3)])
qed

lemma up_run_errors:
  assumes "valid_cfg c" "up_run c st raw s r" "reader_quiet (up_session c) r"
  shows "rd_end r = Reading \<and> rd_stream r = [] \<and> (rd_bad r = 0 \<longleftrightarrow> snd (snd (decode c st s)))"
  using up.quiet_verdict [of c "up_init raw st" s r st] assms up_start [OF assms(1), of raw st] by (simp add: up_run_def)

lemma split_frames_rest_le: "split_frames c bs = (fs, r, ok) \<Longrightarrow> length r \<le> length bs"
  by (drule split_frames_concat) (metis length_append le_add2)

text \<open>What a reset throws away was in the buffer.\<close>

lemma up_thrown:
  assumes "up.thrown c st g"
  shows "length (fst (snd (decode c st g))) \<le> msg_buffer_size c"
proof -
  from assms obtain u tr where u: "up_ready c u tr" "fst (snd (decode c st g)) = fst (snd (decode c st (up_live u tr)))"
    unfolding up.thrown_def by blast
  obtain fs r ok where s: "split_frames c (up_live u tr) = (fs, r, ok)" by (cases "split_frames c (up_live u tr)")
  have "length r \<le> up_remain u + tr" using split_frames_rest_le [OF s] length_up_live [OF u(1)] by simp
  then show ?thesis using u s by (simp add: decode_def up_ready_def)
qed

text \<open>
  C1. Reassembly, safety: however the network cuts the stream into partial reads and whenever it
  fails, the messages a session delivered before its first unpacking error are, in order, a prefix of the messages
  the stream encodes; an error is reported only when the stream has a header out of range, and not before
  all messages in front of that were delivered. The reader goes on after an error: it has cut the stream once for each
  error it reported, always behind a header out of range and with at most a buffer of bytes thrown away, and
  what it delivered are the messages of the pieces, in order, of the last one a prefix.
\<close>

theorem up_reassembly_safe:
  assumes "valid_cfg c" "up_run c st raw s r"
  shows "(if rd_bad r = 0 then \<exists>more. fst (decode c st s) = rd_out r @ more
          else \<not> snd (snd (decode c st s)) \<and> (\<exists>more. rd_out r = fst (decode c st s) @ more)) \<and>
         (\<exists>gs z out more. cut_at_errors (decode c st) s gs z \<and> length gs = rd_bad r \<and>
            (\<forall>g\<in>set gs. length (fst (snd (decode c st g))) \<le> msg_buffer_size c) \<and>
            rd_out r = messages_in (decode c st) gs @ out \<and> fst (decode c st z) = out @ more)"
proof -
  have r: "(up_session c)\<^sup>*\<^sup>* (reader_init (up_init raw st) s) r" "length raw = msg_buffer_size c"
    using assms(2) by (auto simp: up_run_def)
  note w = up_start [OF assms(1) r(2)]
  show ?thesis using up.delivered_prefix [OF r(1) w] up.delivered_pieces [OF r(1) w] up_thrown by blast
qed

lemma decode_demo: "decode tiny_cfg True [0, 3, 7, 0, 2, 0] = ([[7]], [0], True)"
  using up_demo_live by (simp add: decode_def bodies_def)

lemma up_run_demo: "\<exists>r. up_run tiny_cfg True (replicate 8 0) [0, 3, 7, 0, 2, 0] r \<and> rd_out r = [[7]]"
proof -
  obtain r where r: "up_run tiny_cfg True (replicate 8 0) [0, 3, 7, 0, 2, 0] r" "reader_quiet (up_session tiny_cfg) r"
    using up_run_quiet_ex [of "replicate 8 0" tiny_cfg] by auto
  with up_run_verdict [OF valid_cfg_tiny r] decode_demo show ?thesis by auto
qed

theorem up_reassembly_safe_witness:
  "\<exists>r. up_run tiny_cfg True (replicate 8 0) [0, 3, 7, 0, 2, 0] r \<and> rd_out r = [[7]] \<and> rd_bad r = 0"
proof -
  obtain r where r: "up_run tiny_cfg True (replicate 8 0) [0, 3, 7, 0, 2, 0] r" "rd_out r = [[7]]" using up_run_demo by blast
  from up_reassembly_safe [OF valid_cfg_tiny r(1)] have "rd_bad r = 0" using decode_demo by (auto split: if_splits)
  then show ?thesis using r by blast
qed

text \<open>
  C2. Reassembly, liveness: every session takes a bounded number of steps; as long as no read
  fails it goes on until the peer's bytes are used up, also behind bad headers; and then it delivered
  exactly the messages of the stream, without an error, if no header is out of range; and otherwise it reported an error
  and delivered exactly the messages of the pieces into which the errors cut the stream.
\<close>

theorem up_reassembly_complete:
  assumes "valid_cfg c" "length raw = msg_buffer_size c"
  shows "(\<forall>k r. (up_session c ^^ k) (reader_init (up_init raw st) s) r \<longrightarrow> k \<le> 2 * length s + 1) \<and>
         (\<exists>r. up_run c st raw s r \<and> reader_quiet (up_session c) r) \<and>
         (\<forall>r. up_run c st raw s r \<and> reader_quiet (up_session c) r \<longrightarrow>
            rd_end r = Reading \<and> rd_stream r = [] \<and>
            (if snd (snd (decode c st s)) then rd_bad r = 0 \<and> rd_out r = fst (decode c st s)
             else 0 < rd_bad r \<and>
               (\<exists>gs z. cut_at_errors (decode c st) s gs z \<and> length gs = rd_bad r \<and> snd (snd (decode c st z)) \<and>
                  (\<forall>g\<in>set gs. length (fst (snd (decode c st g))) \<le> msg_buffer_size c) \<and>
                  rd_out r = messages_in (decode c st) (gs @ [z]))))"
proof (intro conjI allI impI)
  fix k r assume "(up_session c ^^ k) (reader_init (up_init raw st) s) r"
  then show "k \<le> 2 * length s + 1" by (rule up.run_length)
next
  show "\<exists>r. up_run c st raw s r \<and> reader_quiet (up_session c) r" by (rule up_run_quiet_ex [OF assms(2)])
next
  fix r assume a: "up_run c st raw s r \<and> reader_quiet (up_session c) r"
  then have r: "(up_session c)\<^sup>*\<^sup>* (reader_init (up_init raw st) s) r" "reader_quiet (up_session c) r" by (auto simp: up_run_def)
  note q = up.quiet_verdict [OF r(1) up_start [OF assms] r(2)]
  show "rd_end r = Reading" "rd_stream r = []" using q by blast+
  show "if snd (snd (decode c st s)) then rd_bad r = 0 \<and> rd_out r = fst (decode c st s)
    else 0 < rd_bad r \<and>
      (\<exists>gs z. cut_at_errors (decode c st) s gs z \<and> length gs = rd_bad r \<and> snd (snd (decode c st z)) \<and>
         (\<forall>g\<in>set gs. length (fst (snd (decode c st g))) \<le> msg_buffer_size c) \<and>
         rd_out r = messages_in (decode c st) (gs @ [z]))"
  proof (cases "snd (snd (decode c st s))")
    case True
    then show ?thesis using up_run_verdict [OF assms(1), of st raw s r] a by simp
  next
    case False
    obtain gs z out where g: "cut_at_errors (decode c st) s gs z" "length gs = rd_bad r" "\<forall>g\<in>set gs. up.thrown c st g"
      "rd_out r = messages_in (decode c st) gs @ out" "decode c st z = (out, up_live (rd_unp r) (rd_tr r), True)"
      using q by blast
    then have "snd (snd (decode c st z))" "rd_out r = messages_in (decode c st) (gs @ [z])"
      "\<forall>g\<in>set gs. length (fst (snd (decode c st g))) \<le> msg_buffer_size c" using up_thrown by simp_all
    then show ?thesis using g(1,2) q False by auto
  qed
qed

lemma decode_bad_demo: "decode tiny_cfg True [0, 3, 7, 0, 1] = ([[7]], [0, 1], False)"
  by (simp add: decode_def bodies_def split_frames.simps head_N2H_def be_value_def)

theorem up_reassembly_complete_witness:
  "\<exists>r q. up_run tiny_cfg True (replicate 8 0) [0, 3, 7, 0, 2, 0] r \<and> rd_out r = [[7]] \<and> rd_stream r = [] \<and>
     up_run tiny_cfg True (replicate 8 0) [0, 3, 7, 0, 1] q \<and> 0 < rd_bad q \<and> rd_end q = Reading"
proof -
  have n: "length (replicate 8 (0 :: u8)) = msg_buffer_size tiny_cfg" by simp
  note c = up_reassembly_complete [OF valid_cfg_tiny n, of True]
  show ?thesis using c [of "[0, 3, 7, 0, 2, 0]"] c [of "[0, 3, 7, 0, 1]"] decode_demo decode_bad_demo by fastforce
qed

text \<open>
  Going on after an error: a header out of range arrives in a read of its own, and the message that comes behind it is
  delivered.
\<close>

lemma up_goes_on:
  "\<exists>r. up_run tiny_cfg True [0, 0, 0, 0, 0, 0, 0, 0] [0, 1, 0, 3, 7] r \<and> rd_bad r = 1 \<and> rd_out r = [[7]]"
proof -
  let ?u = "\<lambda>raw cur remain. \<lparr>up_raw = raw, up_cur = cur, up_remain = remain, up_stripped = True\<rparr>"
  let ?r = "\<lambda>u tr stream out bad. \<lparr>rd_unp = u, rd_tr = tr, rd_stream = stream, rd_out = out, rd_bad = bad, rd_end = Reading\<rparr>"
  let ?a = "[0, 0, 0, 0, 0, 0, 0, 0] :: bytes" and ?b = "[0, 1, 0, 0, 0, 0, 0, 0] :: bytes" and ?c = "[0, 3, 7, 0, 0, 0, 0, 0] :: bytes"
  note comp = up_completion_condition_def head_N2H_def be_value_def SIZE_MAX_def
  note pars = up_parse_msg_def up_parse_pos_def up_parse_loop.simps up_emit_def up_shift_def chunk_def SIZE_MAX_def head_N2H_def be_value_def
  note recv = up_recv_def write_at_def
  have "up_session tiny_cfg (?r (?u ?a npos 0) 0 [0, 1, 0, 3, 7] [] 0) (?r (?u ?b npos 0) 2 [0, 3, 7] [] 0)"
    using reader_step.receive [of "?r (?u ?a npos 0) 0 [0, 1, 0, 3, 7] [] 0" "up_completion_condition tiny_cfg False" 8 "?u ?a npos 0"
      "up_room tiny_cfg" 2 "up_parse_msg tiny_cfg" up_recv up_reset]
    by (simp add: comp recv up_room_def numeral_2_eq_2 numeral_3_eq_3)
  moreover have "up_completion_condition tiny_cfg False 2 (?u ?b npos 0) = (0, ?u ?b 1 0)" by (simp add: comp)
  moreover have "up_parse_msg tiny_cfg 2 (?u ?b 1 0) = (False, ?u ?b 1 2, [])" by (simp add: pars)
  ultimately have "(up_session tiny_cfg)\<^sup>*\<^sup>* (?r (?u ?a npos 0) 0 [0, 1, 0, 3, 7] [] 0) (?r (?u ?b npos 0) 0 [0, 3, 7] [] 1)"
    using reader_step.handle [of "?r (?u ?b npos 0) 2 [0, 3, 7] [] 0" "up_completion_condition tiny_cfg False" 0 "?u ?b 1 0"
      "up_room tiny_cfg" "up_parse_msg tiny_cfg" False "?u ?b 1 2" "[]" up_recv up_reset]
    by (simp add: up_reset_def)
  also have "up_session tiny_cfg (?r (?u ?b npos 0) 0 [0, 3, 7] [] 1) (?r (?u ?c npos 0) 3 [] [] 1)"
    using reader_step.receive [of "?r (?u ?b npos 0) 0 [0, 3, 7] [] 1" "up_completion_condition tiny_cfg False" 8 "?u ?b npos 0"
      "up_room tiny_cfg" 3 "up_parse_msg tiny_cfg" up_recv up_reset]
    by (simp add: comp recv up_room_def numeral_2_eq_2 numeral_3_eq_3)
  also have "up_session tiny_cfg (?r (?u ?c npos 0) 3 [] [] 1) (?r (?u ?c npos 0) 0 [] [[7]] 1)"
  proof -
    have "up_completion_condition tiny_cfg False 3 (?u ?c npos 0) = (0, ?u ?c 3 0)" by (simp add: comp)
    moreover have "up_parse_msg tiny_cfg 3 (?u ?c 3 0) = (True, ?u ?c npos 0, [[7]])" by (simp add: pars)
    ultimately show ?thesis
      using reader_step.handle [of "?r (?u ?c npos 0) 3 [] [] 1" "up_completion_condition tiny_cfg False" 0 "?u ?c 3 0"
        "up_room tiny_cfg" "up_parse_msg tiny_cfg" True "?u ?c npos 0" "[[7]]" up_recv up_reset]
      by simp
  qed
  finally show ?thesis
    by (intro exI [of _ "?r (?u ?c npos 0) 0 [] [[7]] 1"]) (simp add: up_run_def up_init_def reader_init_def)
qed

text \<open>
  C25. Memory safety of the receive buffer: in every reachable state of a session that is still open
  the unparsed bytes and the bytes of the current read lie inside the buffer, whose size never
  changes, and \<open>prepare_next_recv\<close> never returns an empty buffer.
\<close>

theorem up_buffer_safe:
  assumes "valid_cfg c" "up_run c st raw s r" "rd_end r = Reading"
  shows "length (up_raw (rd_unp r)) = msg_buffer_size c \<and>
         up_remain (rd_unp r) + rd_tr r \<le> msg_buffer_size c \<and> 0 < up_room c (rd_unp r)"
proof -
  have r: "(up_session c)\<^sup>*\<^sup>* (reader_init (up_init raw st) s) r" "length raw = msg_buffer_size c"
    using assms(2) by (auto simp: up_run_def)
  have w: "up_wf c (rd_unp r) (rd_tr r)"
    using up.reading_wf [OF up.good_run [OF r(1) up_start [OF assms(1) r(2)]] assms(3)] by simp
  let ?l = "take (up_remain (rd_unp r)) (up_raw (rd_unp r))"
  have n: "length (up_raw (rd_unp r)) = msg_buffer_size c" "up_remain (rd_unp r) + rd_tr r \<le> msg_buffer_size c"
    "split_frames c ?l = ([], ?l, True)"
    using w by (auto simp: up_wf_def up_ready_def)
  have len: "length ?l = up_remain (rd_unp r)" using n by simp
  have "up_remain (rd_unp r) < msg_buffer_size c"
    using split_frames_incomplete [OF assms(1) n(3)] len n(1,2) by simp
  then show ?thesis using n by (simp add: up_room_def)
qed

theorem up_buffer_safe_witness:
  "0 < up_room tiny_cfg (rd_unp (reader_init (up_init (replicate 8 0) True) [0, 3, 7]))"
proof -
  have "up_run tiny_cfg True (replicate 8 0) [0, 3, 7] (reader_init (up_init (replicate 8 0) True) [0, 3, 7])"
    by (simp add: up_run_def)
  from up_buffer_safe [OF valid_cfg_tiny this] show ?thesis by (simp add: reader_init_def)
qed

section \<open>Packer and unpacker together\<close>

text \<open>What \<open>send_msg\<close> and the heartbeat put on the wire for a message.\<close>

definition wire :: "ext_cfg \<Rightarrow> bytes \<Rightarrow> bytes" where
  "wire c b = (if b = [] then packer_heartbeat c else packer_pack c False (Some [Some b]))"

lemma wire_frame: "valid_cfg c \<Longrightarrow> fits c b \<Longrightarrow> wire c b = frame c b"
  by (simp add: wire_def packer_pack_frame packer_heartbeat_frame)

lemma bodies_frames:
  "bodies c st (map (frame c) bs) = map (\<lambda>b. if st then b else frame c b) (filter (\<lambda>b. b \<noteq> []) bs)"
  by (induction bs) (auto simp: bodies_def frame_def)

lemma up_raw_data_of_frame:
  "up_raw_data c u (if up_stripped u then b else frame c b) = b"
  by (simp add: up_raw_data_def frame_def)

text \<open>
  C3. Round trip: when the peer sends the packed form of messages that fit, with heartbeats in
  between, then a session that read it all hands \<open>raw_data\<close> of exactly these messages to the
  application, in order and without the heartbeats, whether headers are stripped or not.
\<close>

theorem pack_unpack_roundtrip:
  assumes "valid_cfg c" "\<forall>b\<in>set bs. fits c b"
    and "up_run c st raw (concat (map (wire c) bs)) r" "reader_quiet (up_session c) r"
  shows "rd_end r = Reading \<and> rd_bad r = 0 \<and> map (up_raw_data c (rd_unp r)) (rd_out r) = filter (\<lambda>b. b \<noteq> []) bs"
proof -
  have "map (wire c) bs = map (frame c) bs" using assms(1,2) by (simp add: wire_frame)
  then have "concat (map (wire c) bs) = concat (map (frame c) bs)" by (rule arg_cong)
  then have d: "decode c st (concat (map (wire c) bs)) =
      (map (\<lambda>b. if st then b else frame c b) (filter (\<lambda>b. b \<noteq> []) bs), [], True)"
    using split_frames_frames [OF assms(2)] by (simp add: decode_def bodies_frames)
  have v: "rd_end r = Reading" "rd_bad r = 0" "rd_out r = map (\<lambda>b. if st then b else frame c b) (filter (\<lambda>b. b \<noteq> []) bs)"
    using up_run_verdict [OF assms(1,3,4)] d by auto
  have "(up_session c)\<^sup>*\<^sup>* (reader_init (up_init raw st) (concat (map (wire c) bs))) r" "length raw = msg_buffer_size c"
    using assms(3) by (auto simp: up_run_def)
  then have "up_stripped (rd_unp r) = st"
    using up.reading_wf [OF up.good_run [OF _ up_start [OF assms(1)]] v(1)] by simp
  moreover have "up_raw_data c (rd_unp r) \<circ> (\<lambda>b. if up_stripped (rd_unp r) then b else frame c b) = id"
    by (rule ext) (simp add: up_raw_data_def frame_def)
  ultimately show ?thesis using v by simp
qed

theorem pack_unpack_roundtrip_witness:
  "\<exists>r. up_run tiny_cfg False (replicate 8 0) (concat (map (wire tiny_cfg) [[7, 8], [], [9]])) r \<and>
       map (up_raw_data tiny_cfg (rd_unp r)) (rd_out r) = [[7, 8], [9]]"
proof -
  let ?bs = "[[7, 8], [], [9]] :: bytes list"
  obtain r where r: "up_run tiny_cfg False (replicate 8 0) (concat (map (wire tiny_cfg) ?bs)) r"
    "reader_quiet (up_session tiny_cfg) r"
    using up_run_quiet_ex [of "replicate 8 0" tiny_cfg] by (metis length_replicate tiny_cfg_simps(2))
  have "\<forall>b\<in>set ?bs. fits tiny_cfg b" by (simp add: fits_def)
  from pack_unpack_roundtrip [OF valid_cfg_tiny this r] r show ?thesis by auto
qed

end
