(* ===== verification/Simple_Unpackers.thy ===== *)
theory Simple_Unpackers
  imports Unpacker
begin

text \<open>
  The other unpackers of \<open>ext/unpacker.h\<close> that need no parsing loop: \<open>non_copy_unpacker\<close>, which
  reads header and body separately into place, \<open>fixed_length_unpacker\<close>, \<open>stream_unpacker\<close>,
  \<open>udp_unpacker\<close> and the wrappers \<open>unpacker2\<close> and \<open>udp_unpacker2\<close>. Memory that
  \<open>basic_buffer::assign\<close> leaves uninitialised holds the bytes of a parameter \<open>g\<close>.
\<close>

section \<open>non_copy_unpacker\<close>

record nc_unpacker =
  nc_head :: bytes
  nc_raw :: bytes
  nc_state :: int

definition nc_init :: "bytes \<Rightarrow> nc_unpacker" where
  "nc_init h = \<lparr>nc_head = h, nc_raw = [], nc_state = 0\<rparr>"

definition nc_stripped :: "bool \<Rightarrow> bool \<Rightarrow> bool" where
  "nc_stripped st old = (if \<not> st then old else st)"

definition nc_reset :: "nc_unpacker \<Rightarrow> nc_unpacker" where
  "nc_reset u = u\<lparr>nc_raw := [], nc_state := 0\<rparr>"

definition fresh :: "(nat \<Rightarrow> u8) \<Rightarrow> nat \<Rightarrow> bytes" where
  "fresh g n = map g [0..<n]"

definition nc_parse_msg :: "ext_cfg \<Rightarrow> (nat \<Rightarrow> u8) \<Rightarrow> nat \<Rightarrow> nc_unpacker \<Rightarrow> bool \<times> nc_unpacker \<times> bytes list" where
  "nc_parse_msg c g bytes_transferred u =
     (if nc_state u = 0
      then
        if head_len c \<noteq> bytes_transferred then (False, u, [])
        else
          let cur_msg_len = size_sub (head_N2H c (nc_head u)) (head_len c)
          in if cur_msg_len > size_sub (msg_buffer_size c) (head_len c) then (False, u, [])
             else if cur_msg_len > 0 then (True, u\<lparr>nc_raw := fresh g cur_msg_len, nc_state := 1\<rparr>, [])
             else (True, u, [])
      else if nc_state u = 1
      then
        if bytes_transferred \<noteq> length (nc_raw u) then (False, u, [])
        else (True, u\<lparr>nc_raw := [], nc_state := 0\<rparr>, [nc_raw u])
      else (True, u, []))"

definition nc_completion_condition :: "ext_cfg \<Rightarrow> bool \<Rightarrow> nat \<Rightarrow> nc_unpacker \<Rightarrow> nat \<times> nc_unpacker" where
  "nc_completion_condition c ec bytes_transferred u =
     (if ec then 0
      else if nc_state u = 0 then head_len c
      else if nc_state u = 1 then length (nc_raw u)
      else 0, u)"

definition nc_room :: "ext_cfg \<Rightarrow> nc_unpacker \<Rightarrow> nat" where
  "nc_room c u = (if nc_raw u = [] then head_len c else length (nc_raw u))"

definition nc_recv :: "nat \<Rightarrow> bytes \<Rightarrow> nc_unpacker \<Rightarrow> nc_unpacker" where
  "nc_recv tr bs u =
     (if nc_raw u = [] then u\<lparr>nc_head := write_at tr bs (nc_head u)\<rparr>
      else u\<lparr>nc_raw := write_at tr bs (nc_raw u)\<rparr>)"

definition nc_live :: "nc_unpacker \<Rightarrow> nat \<Rightarrow> bytes" where
  "nc_live u tr = (if nc_raw u = [] then take tr (nc_head u) else nc_head u @ take tr (nc_raw u))"

definition nc_wf :: "ext_cfg \<Rightarrow> nc_unpacker \<Rightarrow> nat \<Rightarrow> bool" where
  "nc_wf c u tr \<longleftrightarrow> valid_cfg c \<and> length (nc_head u) = head_len c \<and> tr \<le> nc_room c u \<and>
     (if nc_raw u = [] then nc_state u = 0
      else nc_state u = 1 \<and> head_N2H c (nc_head u) = head_len c + length (nc_raw u) \<and>
           head_len c + length (nc_raw u) \<le> msg_buffer_size c)"

lemma nc_wf_init: "valid_cfg c \<Longrightarrow> length h = head_len c \<Longrightarrow> nc_wf c (nc_init h) 0"
  by (simp add: nc_wf_def nc_init_def)

text \<open>The subtraction wraps for a header below its own size, and the comparison still refuses it.\<close>

lemma nc_length_check:
  assumes "valid_cfg c"
  shows "size_sub (head_N2H c h) (head_len c) > size_sub (msg_buffer_size c) (head_len c) \<longleftrightarrow>
         head_N2H c h > msg_buffer_size c \<or> head_N2H c h < head_len c"
    and "head_len c \<le> head_N2H c h \<Longrightarrow> size_sub (head_N2H c h) (head_len c) = head_N2H c h - head_len c"
proof -
  have h: "head_N2H c h \<le> SIZE_MAX" "head_len c \<le> SIZE_MAX" "msg_buffer_size c \<le> SIZE_MAX" "head_len c \<le> 4"
    using head_N2H_less [of c h] head_len_le [of c] valid_cfg_less_npos [OF assms order_refl]
    by (simp_all add: SIZE_MAX_def)
  have N: "size_sub (msg_buffer_size c) (head_len c) = msg_buffer_size c - head_len c"
    using valid_cfg_head [OF assms] h by (intro size_sub_exact)
  show e: "head_len c \<le> head_N2H c h \<Longrightarrow> size_sub (head_N2H c h) (head_len c) = head_N2H c h - head_len c"
    using h by (intro size_sub_exact)
  show "size_sub (head_N2H c h) (head_len c) > size_sub (msg_buffer_size c) (head_len c) \<longleftrightarrow>
         head_N2H c h > msg_buffer_size c \<or> head_N2H c h < head_len c"
  proof (cases "head_len c \<le> head_N2H c h")
    case True
    then show ?thesis using N e valid_cfg_head [OF assms] by auto
  next
    case False
    have "msg_buffer_size c \<le> 100 * 1024 * 1024" using assms by (simp add: valid_cfg_def)
    then have "msg_buffer_size c - head_len c < SIZE_MOD - head_len c" using h(4) by (simp add: SIZE_MOD_def)
    then show ?thesis using N False h size_sub_wraps [of "head_N2H c h" "head_len c"] by (simp add: not_le)
  qed
qed

lemma nc_parse_cases:
  assumes "nc_wf c u tr" "nc_parse_msg c g tr u = (True, u', ms)"
  shows "decode c True (nc_live u tr) = (ms, nc_live u' 0, True) \<and> nc_wf c u' 0"
proof (cases "nc_raw u = []")
  case True
  then have u: "valid_cfg c" "nc_state u = 0" "tr = head_len c" "length (nc_head u) = head_len c"
    using assms by (auto simp: nc_wf_def nc_parse_msg_def split: if_splits)
  let ?h = "head_N2H c (nc_head u)"
  have ok: "head_len c \<le> ?h" "?h \<le> msg_buffer_size c"
    using assms(2) u nc_length_check [OF u(1), of "nc_head u"] by (auto simp: nc_parse_msg_def Let_def split: if_splits)
  have sub: "size_sub ?h (head_len c) = ?h - head_len c" by (rule nc_length_check(2) [OF u(1) ok(1)])
  have nb: "\<not> size_sub ?h (head_len c) > size_sub (msg_buffer_size c) (head_len c)"
    using ok nc_length_check(1) [OF u(1), of "nc_head u"] by simp
  show ?thesis
  proof (cases "?h = head_len c")
    case hb: True
    then have "u' = u" "ms = []" using assms(2) u sub nb by (auto simp: nc_parse_msg_def)
    moreover have "split_frames c (nc_head u) = ([nc_head u], [], True)"
      using split_frames_frame [OF _ _ _ hb] ok u hb by (simp add: split_frames_short)
    ultimately show ?thesis using assms(1) u True by (simp add: decode_def bodies_def nc_live_def nc_wf_def)
  next
    case False
    then have u': "u' = u\<lparr>nc_raw := fresh g (?h - head_len c), nc_state := 1\<rparr>" "ms = []"
      using assms(2) u sub nb ok by (auto simp: nc_parse_msg_def)
    have ne: "fresh g (?h - head_len c) \<noteq> []" using False ok by (simp add: fresh_def)
    have "split_frames c (nc_head u) = ([], nc_head u, True)"
      using ok u False by (intro split_frames_more) auto
    then show ?thesis using u u' ne True ok by (simp add: decode_def bodies_def nc_live_def nc_wf_def fresh_def)
  qed
next
  case False
  then have u: "valid_cfg c" "nc_state u = 1" "length (nc_head u) = head_len c"
    "head_N2H c (nc_head u) = head_len c + length (nc_raw u)" "head_len c + length (nc_raw u) \<le> msg_buffer_size c"
    using assms(1) by (auto simp: nc_wf_def)
  then have r: "tr = length (nc_raw u)" "u' = u\<lparr>nc_raw := [], nc_state := 0\<rparr>" "ms = [nc_raw u]"
    using assms(2) by (auto simp: nc_parse_msg_def split: if_splits)
  let ?m = "nc_head u @ nc_raw u"
  have "split_frames c ?m = ([?m], [], True)"
    using split_frames_frame [of c "head_len c + length (nc_raw u)" ?m] u
    by (simp add: head_N2H_append split_frames_short)
  then show ?thesis using u r False by (simp add: decode_def bodies_def nc_live_def nc_wf_def)
qed

interpretation nc: unpacker_contract
  "nc_completion_condition c False" "nc_parse_msg c g" "nc_room c" nc_recv nc_reset
  "nc_wf c" "nc_wf c" nc_live "decode c True"
  for c g
proof (unfold_locales, goal_cases)
  case 1
  then show ?case by (simp add: decode_def split_frames_short bodies_def)
next
  case (2 xs ms r ys ms' r' ok)
  then show ?case by (rule decode_append)
next
  case (3 xs ms r ys)
  then show ?case by (rule decode_bad)
next
  case (4 u tr)
  then show ?case .
next
  case (5 u tr n u')
  then show ?case by (simp add: nc_completion_condition_def)
next
  case (6 u tr n u')
  then have u: "u' = u" "tr < nc_room c u" by (auto simp: nc_completion_condition_def)
  have "split_frames c (nc_live u tr) = ([], nc_live u tr, True)"
  proof (cases "nc_raw u = []")
    case True
    then show ?thesis using 6(1) u(2) by (intro split_frames_short) (simp add: nc_live_def nc_wf_def nc_room_def)
  next
    case False
    then show ?thesis using 6(1) u(2)
      by (intro split_frames_more) (auto simp: nc_live_def nc_wf_def nc_room_def head_N2H_append)
  qed
  then show ?case using 6(1) u(1) by (simp add: decode_def bodies_def)
next
  case (7 u n u')
  then show ?case by (auto simp: nc_completion_condition_def nc_wf_def nc_room_def split: if_splits)
next
  case (8 u tr bs)
  then show ?case
    by (auto simp: nc_wf_def nc_recv_def nc_live_def nc_room_def buf_simps)
next
  case (9 u tr u' ms)
  from nc_parse_cases [OF 9(1,3)] show ?case .
next
  case (10 u tr ok u' ms)
  show ?case
  proof (cases ok)
    case True
    then show ?thesis using nc_parse_cases [OF 10(1)] 10(3) by simp
  next
    case False
    then have "ms = []" using 10(3) by (auto simp: nc_parse_msg_def Let_def split: if_splits)
    then show ?thesis by simp
  qed
next
  case (11 u tr n u')
  then have u: "valid_cfg c" "u' = u" "tr = nc_room c u" "length (nc_head u) = head_len c"
    by (auto simp: nc_completion_condition_def nc_wf_def split: if_splits)
  show ?case
  proof (cases "nc_raw u = []")
    case True
    then have "nc_live u tr = nc_head u" using u by (simp add: nc_live_def nc_room_def)
    then have "snd (snd (split_frames c (nc_head u)))" using 11(5) by (simp add: decode_def split: prod.splits)
    then have "\<not> (head_N2H c (nc_head u) > msg_buffer_size c \<or> head_N2H c (nc_head u) < head_len c)"
      using split_frames_bad [of c "nc_head u"] u(4) by auto
    then show ?thesis
      using u 11(1) True nc_length_check [OF u(1), of "nc_head u"]
      by (simp add: nc_parse_msg_def nc_wf_def nc_room_def Let_def)
  next
    case False
    then show ?thesis using u 11(1) by (simp add: nc_parse_msg_def nc_wf_def nc_room_def)
  qed
next
  case (12 u tr u' ms)
  then have w: "nc_wf c u tr" by simp
  have f: "ms = []" "u' = u" using 12(3) by (auto simp: nc_parse_msg_def Let_def split: if_splits)
  have bad: "\<not> snd (snd (split_frames c (nc_live u tr)))" using 12(4) by (simp add: decode_def split: prod.splits)
  let ?l = "nc_live u tr"
  have "fst (split_frames c ?l) = []"
  proof (rule ccontr)
    assume "fst (split_frames c ?l) \<noteq> []"
    then have n: "\<not> length ?l < head_len c" using split_frames_short [of ?l c] by auto
    then have "\<not> (head_N2H c ?l > msg_buffer_size c \<or> head_N2H c ?l < head_len c)"
      using split_frames_bad [of c ?l] \<open>fst (split_frames c ?l) \<noteq> []\<close> by (metis fst_conv not_le)
    with n have h: "head_len c \<le> length ?l" "head_len c \<le> head_N2H c ?l" "head_N2H c ?l \<le> msg_buffer_size c" by auto
    have "length ?l \<le> head_N2H c ?l"
      using w h by (cases "nc_raw u = []") (auto simp: nc_wf_def nc_live_def nc_room_def head_N2H_append split: if_splits)
    then have "snd (snd (split_frames c ?l))"
      using split_frames_more [OF h(2,3)] split_frames_frame [OF h(2,3) _ refl] by (cases "length ?l < head_N2H c ?l") (auto simp: split_frames_short)
    then show False using bad by simp
  qed
  then show ?case using f w by (auto simp: decode_def bodies_def nc_wf_def nc_reset_def nc_live_def nc_room_def split: prod.splits)
next
  case (13 u tr u' ms)
  then show ?case using nc_parse_cases by simp
qed

abbreviation nc_session :: "ext_cfg \<Rightarrow> (nat \<Rightarrow> u8) \<Rightarrow> nc_unpacker reader \<Rightarrow> nc_unpacker reader \<Rightarrow> bool" where
  "nc_session c g \<equiv> reader_step (nc_completion_condition c False) (nc_parse_msg c g) (nc_room c) nc_recv nc_reset"

definition nc_run :: "ext_cfg \<Rightarrow> (nat \<Rightarrow> u8) \<Rightarrow> bytes \<Rightarrow> bytes \<Rightarrow> nc_unpacker reader \<Rightarrow> bool" where
  "nc_run c g h s r \<longleftrightarrow> length h = head_len c \<and> (nc_session c g)\<^sup>*\<^sup>* (reader_init (nc_init h) s) r"

lemma nc_run_quiet_ex: "length h = head_len c \<Longrightarrow> \<exists>r. nc_run c g h s r \<and> reader_quiet (nc_session c g) r"
  using nc.reaches_quiet [of "reader_init (nc_init h) s" c g] by (auto simp: nc_run_def reader_init_def)

lemma nc_run_verdict:
  assumes "valid_cfg c" "nc_run c g h s r" "reader_quiet (nc_session c g) r"
  shows "rd_end r = Reading \<and> rd_stream r = [] \<and> (rd_bad r = 0 \<longleftrightarrow> snd (snd (decode c True s))) \<and>
         (snd (snd (decode c True s)) \<longrightarrow> decode c True s = (rd_out r, nc_live (rd_unp r) (rd_tr r), True))"
  using nc.quiet_verdict [of c g "nc_init h" s r] nc.quiet_verdict_ok [of c g "nc_init h" s r] assms nc_wf_init [OF assms(1), of h]
  by (simp add: nc_run_def nc_live_def nc_init_def)

text \<open>
  The non-copy unpacker, which reads each header and each body separately, and the default
  unpacker are interchangeable: on every stream without a bad header sessions of both deliver the
  same messages, and on every other stream both report an unpacking error.
\<close>

theorem non_copy_equals_default:
  assumes "valid_cfg c" "up_run c True raw s r" "reader_quiet (up_session c) r"
    and "nc_run c g h s q" "reader_quiet (nc_session c g) q"
  shows "rd_end q = rd_end r \<and> (rd_bad q = 0 \<longleftrightarrow> rd_bad r = 0) \<and> (rd_bad r = 0 \<longrightarrow> rd_out q = rd_out r)"
  using up_run_verdict [OF assms(1-3)] up_run_errors [OF assms(1-3)] nc_run_verdict [OF assms(1,4,5)] by auto

theorem non_copy_equals_default_witness:
  "\<exists>r q. up_run tiny_cfg True (replicate 8 0) [0, 3, 7, 0, 2, 0] r \<and>
         nc_run tiny_cfg (\<lambda>_. 0) [0, 0] [0, 3, 7, 0, 2, 0] q \<and> rd_end q = rd_end r \<and> rd_out r = [[7]] \<and> rd_out q = [[7]]"
proof -
  obtain r where r: "up_run tiny_cfg True (replicate 8 0) [0, 3, 7, 0, 2, 0] r" "reader_quiet (up_session tiny_cfg) r"
    using up_run_quiet_ex [of "replicate 8 0" tiny_cfg] by auto
  have "length [0, 0 :: u8] = head_len tiny_cfg" by simp
  then obtain q where q: "nc_run tiny_cfg (\<lambda>_. 0) [0, 0] [0, 3, 7, 0, 2, 0] q" "reader_quiet (nc_session tiny_cfg (\<lambda>_. 0)) q"
    using nc_run_quiet_ex by blast
  have "rd_bad r = 0 \<and> rd_out r = [[7]]"
    using up_run_verdict [OF valid_cfg_tiny r] decode_demo by auto
  moreover from this have "rd_end q = rd_end r" "rd_out q = [[7]]"
    using non_copy_equals_default [OF valid_cfg_tiny r q] by auto
  ultimately show ?thesis using r(1) q(1) by blast
qed

section \<open>fixed_length_unpacker\<close>

record fl_unpacker =
  fl_raw :: bytes
  fl_len :: nat

definition fl_fixed_length :: "nat \<Rightarrow> fl_unpacker \<Rightarrow> fl_unpacker" where
  "fl_fixed_length n u = u\<lparr>fl_len := n\<rparr>"

definition fl_reset :: "fl_unpacker \<Rightarrow> fl_unpacker" where
  "fl_reset u = u"

definition fl_parse_msg :: "nat \<Rightarrow> fl_unpacker \<Rightarrow> bool \<times> fl_unpacker \<times> bytes list" where
  "fl_parse_msg bytes_transferred u =
     (if bytes_transferred \<noteq> length (fl_raw u) then (False, u, [])
      else (True, u\<lparr>fl_raw := []\<rparr>, [fl_raw u]))"

definition fl_completion_condition :: "bool \<Rightarrow> nat \<Rightarrow> fl_unpacker \<Rightarrow> nat \<times> fl_unpacker" where
  "fl_completion_condition ec bytes_transferred u =
     (if ec \<or> bytes_transferred = length (fl_raw u) then 0 else fl_len u, u)"

definition fl_prepare_next_recv :: "(nat \<Rightarrow> u8) \<Rightarrow> fl_unpacker \<Rightarrow> fl_unpacker" where
  "fl_prepare_next_recv g u = u\<lparr>fl_raw := fresh g (fl_len u)\<rparr>"

definition fl_room :: "fl_unpacker \<Rightarrow> nat" where
  "fl_room u = length (fl_raw u)"

definition fl_recv :: "nat \<Rightarrow> bytes \<Rightarrow> fl_unpacker \<Rightarrow> fl_unpacker" where
  "fl_recv tr bs u = u\<lparr>fl_raw := write_at tr bs (fl_raw u)\<rparr>"

text \<open>\<open>parse_msg\<close> and then the \<open>prepare_next_recv\<close> of the next read, as \<open>do_recv_msg\<close> calls it.\<close>

definition fl_parse_prepare :: "(nat \<Rightarrow> u8) \<Rightarrow> nat \<Rightarrow> fl_unpacker \<Rightarrow> bool \<times> fl_unpacker \<times> bytes list" where
  "fl_parse_prepare g tr u = (let (ok, u', ms) = fl_parse_msg tr u in (ok, fl_prepare_next_recv g u', ms))"

function fl_decode :: "nat \<Rightarrow> bytes \<Rightarrow> bytes list \<times> bytes \<times> bool" where
  "fl_decode n bs =
     (if n = 0 \<or> length bs < n then ([], bs, True)
      else let (ms, r, ok) = fl_decode n (drop n bs) in (take n bs # ms, r, ok))"
  by pat_completeness auto

termination
  by (relation "measure (\<lambda>(n, bs). length bs)") auto

declare fl_decode.simps [simp del]

lemma fl_decode_ok: "snd (snd (fl_decode n bs))"
  by (induction n bs rule: fl_decode.induct) (subst fl_decode.simps, auto split: prod.splits)

lemma fl_decode_append:
  "fl_decode n xs = (ms, r, True) \<Longrightarrow> fl_decode n (r @ ys) = (ms', r', ok) \<Longrightarrow>
   fl_decode n (xs @ ys) = (ms @ ms', r', ok)"
proof (induction n xs arbitrary: ms r rule: fl_decode.induct)
  case (1 n xs)
  show ?case
  proof (cases "n = 0 \<or> length xs < n")
    case True
    then show ?thesis using 1 by (simp add: fl_decode.simps [of n xs])
  next
    case False
    obtain ms0 r0 b where e: "fl_decode n (drop n xs) = (ms0, r0, b)" by (cases "fl_decode n (drop n xs)")
    then have p: "ms = take n xs # ms0" "r = r0" "b" using "1.prems"(1) False by (auto simp: fl_decode.simps [of n xs])
    have "fl_decode n (drop n xs @ ys) = (ms0 @ ms', r', ok)" using "1.IH" [OF False] e p "1.prems"(2) by simp
    then show ?thesis using False p by (subst fl_decode.simps) simp
  qed
qed

definition fl_wf :: "nat \<Rightarrow> fl_unpacker \<Rightarrow> nat \<Rightarrow> bool" where
  "fl_wf n u tr \<longleftrightarrow> 0 < n \<and> fl_len u = n \<and> length (fl_raw u) = n \<and> tr \<le> n"

definition fl_live :: "fl_unpacker \<Rightarrow> nat \<Rightarrow> bytes" where
  "fl_live u tr = take tr (fl_raw u)"

interpretation fl: unpacker_contract
  "fl_completion_condition False" "fl_parse_prepare g" fl_room fl_recv fl_reset
  "fl_wf n" "fl_wf n" fl_live "fl_decode n"
  for g n
proof (unfold_locales, goal_cases)
  case 1
  then show ?case by (cases n) (auto simp: fl_decode.simps)
next
  case (2 xs ms r ys ms' r' ok)
  then show ?case by (rule fl_decode_append)
next
  case (3 xs ms r ys)
  then show ?case using fl_decode_ok [of n xs] by simp
next
  case (4 u tr)
  then show ?case .
next
  case (5 u tr n' u')
  then show ?case by (auto simp: fl_completion_condition_def)
next
  case (6 u tr n' u')
  then show ?case by (auto simp: fl_completion_condition_def fl_room_def fl_wf_def fl_live_def fl_decode.simps)
next
  case (7 u n' u')
  then show ?case by (auto simp: fl_completion_condition_def fl_wf_def fl_room_def split: if_splits)
next
  case (8 u tr bs)
  then show ?case by (auto simp: fl_wf_def fl_recv_def fl_live_def fl_room_def buf_simps)
next
  case (9 u tr u' ms)
  then have "0 < n" "length (fl_raw u) = n" by (auto simp: fl_wf_def)
  then have "fl_decode n (fl_raw u) = ([fl_raw u], [], True)"
    by (subst fl_decode.simps) (simp add: fl_decode.simps)
  then show ?case using 9
    by (auto simp: fl_parse_prepare_def fl_parse_msg_def fl_prepare_next_recv_def fl_wf_def fl_live_def fresh_def
             split: if_splits)
next
  case (10 u tr ok u' ms)
  then have "0 < n" "length (fl_raw u) = n" by (auto simp: fl_wf_def)
  then have "fl_decode n (fl_raw u) = ([fl_raw u], [], True)"
    by (subst fl_decode.simps) (simp add: fl_decode.simps)
  then show ?case using 10
    by (auto simp: fl_parse_prepare_def fl_parse_msg_def fl_live_def split: if_splits)
next
  case (11 u tr n' u')
  then show ?case
    by (auto simp: fl_completion_condition_def fl_wf_def fl_room_def fl_parse_prepare_def fl_parse_msg_def
             split: if_splits prod.splits)
qed (simp_all add: fl_decode_ok)

section \<open>stream_unpacker, udp_unpacker and the wrappers\<close>

definition st_parse_msg :: "nat \<Rightarrow> bytes \<Rightarrow> bool \<times> bytes \<times> bytes list" where
  "st_parse_msg bytes_transferred raw =
     (if bytes_transferred = 0 then (False, raw, []) else (True, raw, [take bytes_transferred raw]))"

definition st_completion_condition :: "ext_cfg \<Rightarrow> bool \<Rightarrow> nat \<Rightarrow> bytes \<Rightarrow> nat \<times> bytes" where
  "st_completion_condition c ec bytes_transferred raw =
     (if ec \<or> bytes_transferred > 0 then 0 else msg_buffer_size c, raw)"

definition st_recv :: "nat \<Rightarrow> bytes \<Rightarrow> bytes \<Rightarrow> bytes" where
  "st_recv tr bs raw = write_at tr bs raw"

abbreviation st_session :: "ext_cfg \<Rightarrow> bytes reader \<Rightarrow> bytes reader \<Rightarrow> bool" where
  "st_session c \<equiv> reader_step (st_completion_condition c False) st_parse_msg length st_recv (\<lambda>raw. raw)"

definition udp_parse_msg :: "nat \<Rightarrow> bytes \<Rightarrow> bool \<times> bytes list" where
  "udp_parse_msg bytes_transferred raw = (True, [take bytes_transferred raw])"

definition udp_compose_msg :: "bytes \<Rightarrow> bytes list \<Rightarrow> bytes list" where
  "udp_compose_msg bs msg_can = msg_can @ [bs]"

definition udp2_parse_msg :: "nat \<Rightarrow> bytes \<Rightarrow> bool \<times> object_buffer list" where
  "udp2_parse_msg bytes_transferred raw = (True, [Some (take bytes_transferred raw)])"

definition udp2_compose_msg :: "bytes \<Rightarrow> object_buffer list \<Rightarrow> object_buffer list" where
  "udp2_compose_msg bs msg_can = msg_can @ [Some bs]"

definition unpacker2_parse_msg :: "ext_cfg \<Rightarrow> nat \<Rightarrow> unpacker \<Rightarrow> bool \<times> unpacker \<times> object_buffer list" where
  "unpacker2_parse_msg c bytes_transferred u =
     (let (unpack_ok, u', tmp_can) = up_parse_msg c bytes_transferred u
      in (unpack_ok, u', map (\<lambda>item. Some item) tmp_can))"

definition unpacker2_stripped :: "bool \<Rightarrow> unpacker \<Rightarrow> unpacker" where
  "unpacker2_stripped st u = u\<lparr>up_stripped := st\<rparr>"

text \<open>The stream unpacker loses and invents nothing: what was delivered and what is pending is the stream.\<close>

definition st_good :: "ext_cfg \<Rightarrow> bytes \<Rightarrow> bytes reader \<Rightarrow> bool" where
  "st_good c s r \<longleftrightarrow> length (rd_unp r) = msg_buffer_size c \<and> rd_tr r \<le> msg_buffer_size c \<and>
     concat (rd_out r) @ take (rd_tr r) (rd_unp r) @ rd_stream r = s"

interpretation st: step_invariant
  "\<lambda>r. length (rd_unp r) = msg_buffer_size c \<and> r = reader_init (rd_unp r) s" "st_session c" "st_good c s"
  for c s
proof (unfold_locales, goal_cases)
  case (1 r)
  then obtain raw where r: "r = reader_init raw s" "length raw = msg_buffer_size c" by auto
  then show ?case by (simp add: st_good_def reader_init_def)
next
  case (2 r t)
  then show ?case
  proof (induction rule: reader_step.induct)
    case (receive r n u k)
    then show ?case
      by (auto simp: st_good_def st_completion_condition_def st_recv_def buf_simps split: if_splits)
  next
    case (handle r n u ok u' ms)
    then show ?case
      by (auto simp: st_good_def st_completion_condition_def st_parse_msg_def split: if_splits)
  next
    case (lost r ok u' ms)
    then show ?case by (auto simp: st_good_def st_parse_msg_def split: if_splits)
  next
    case (lost_idle r)
    then show ?case by (simp add: st_good_def)
  qed
qed

text \<open>
  The stream unpacker is transparent: in every reachable state of a session the delivered
  chunks, the bytes of the current read and the bytes still on the way are, concatenated, the
  stream; it adds no boundaries beyond the reads and never loses a byte.
\<close>

theorem stream_unpacker_transparent:
  assumes "length raw = msg_buffer_size c" "(st_session c)\<^sup>*\<^sup>* (reader_init raw s) r"
  shows "concat (rd_out r) @ take (rd_tr r) (rd_unp r) @ rd_stream r = s"
proof -
  have "st_good c s (reader_init raw s)"
    using assms(1) by (intro st.start_inv) (simp add: reader_init_def)
  then show ?thesis using st.steps_inv [OF assms(2)] by (simp add: st_good_def)
qed

theorem stream_unpacker_transparent_witness:
  "let r = reader_init [0, 0, 0, 0, 0, 0, 0, 0] [1, 2]
   in concat (rd_out r) @ take (rd_tr r) (rd_unp r) @ rd_stream r = [1, 2]"
  using stream_unpacker_transparent [of "[0, 0, 0, 0, 0, 0, 0, 0]" tiny_cfg "[1, 2]"] by (simp add: Let_def)

end
