(* ===== verification/Flexible_Unpacker.thy ===== *)
theory Flexible_Unpacker
  imports Unpacker
begin

text \<open>
  \<open>flexible_unpacker\<close> of \<open>ext/unpacker.h\<close>: small messages are cut inside a fixed buffer of 4000
  bytes by the loop of the default unpacker, a message that does not fit there is read into a
  buffer of its own. Bytes \<open>resize\<close> leaves uninitialised come from a parameter \<open>g\<close>.
\<close>

definition fx_raw_size :: nat where
  "fx_raw_size = 4000"

record fx_unpacker =
  fx_raw :: bytes
  fx_big :: bytes
  fx_cur :: nat
  fx_remain :: nat
  fx_stripped :: bool

definition fx_init :: "bytes \<Rightarrow> bool \<Rightarrow> fx_unpacker" where
  "fx_init raw st = \<lparr>fx_raw = raw, fx_big = [], fx_cur = npos, fx_remain = 0, fx_stripped = st\<rparr>"

definition fx_reset :: "fx_unpacker \<Rightarrow> fx_unpacker" where
  "fx_reset u = u\<lparr>fx_big := [], fx_cur := npos, fx_remain := 0\<rparr>"

text \<open>The same loop as the default unpacker's, over the 4000 bytes.\<close>

definition fx_parse_pos :: "ext_cfg \<Rightarrow> bytes \<Rightarrow> nat \<Rightarrow> nat \<Rightarrow> bool \<times> nat \<times> nat \<times> (nat \<times> nat) list" where
  "fx_parse_pos c raw cur remain =
     (let (unpack_ok, pnext, cur', remain', can) = up_parse_loop c raw 0 cur remain []
      in (if pnext = 0 then False else unpack_ok, cur', remain', can))"

definition fx_extend_buffer :: "ext_cfg \<Rightarrow> (nat \<Rightarrow> u8) \<Rightarrow> fx_unpacker \<Rightarrow> fx_unpacker" where
  "fx_extend_buffer c g u =
     (let cur = (if fx_stripped u then size_sub (fx_cur u) (head_len c) else fx_cur u);
          remain = (if fx_stripped u then size_sub (fx_remain u) (head_len c) else fx_remain u);
          step = (if fx_stripped u then head_len c else 0)
      in u\<lparr>fx_cur := cur, fx_remain := remain,
           fx_big := write_at 0 (chunk step remain (fx_raw u)) (map g [0..<cur])\<rparr>)"

definition fx_parse_msg ::
  "ext_cfg \<Rightarrow> (nat \<Rightarrow> u8) \<Rightarrow> nat \<Rightarrow> fx_unpacker \<Rightarrow> bool \<times> fx_unpacker \<times> bytes list" where
  "fx_parse_msg c g bytes_transferred u0 =
     (let u = u0\<lparr>fx_remain := fx_remain u0 + bytes_transferred\<rparr>
      in if fx_big u \<noteq> []
         then (if fx_remain u \<noteq> length (fx_big u) then (False, u, []) else (True, fx_reset u, [fx_big u]))
         else
           let u1 = (if fx_cur u = npos \<and> fx_remain u \<ge> head_len c then u\<lparr>fx_cur := head_N2H c (fx_raw u)\<rparr> else u)
           in if fx_cur u1 \<le> msg_buffer_size c \<and> fx_cur u1 > fx_raw_size then (True, fx_extend_buffer c g u1, [])
              else
                let (unpack_ok, cur, remain, can) = fx_parse_pos c (fx_raw u1) (fx_cur u1) (fx_remain u1);
                    msg_can = up_emit c (fx_stripped u1) (fx_raw u1) can;
                    u2 = u1\<lparr>fx_raw := up_shift (fx_raw u1) remain can, fx_cur := cur, fx_remain := remain\<rparr>
                in (unpack_ok,
                    (if unpack_ok \<and> cur \<noteq> npos \<and> cur > fx_raw_size then fx_extend_buffer c g u2 else u2),
                    msg_can))"

definition fx_completion_condition :: "ext_cfg \<Rightarrow> bool \<Rightarrow> nat \<Rightarrow> fx_unpacker \<Rightarrow> nat \<times> fx_unpacker" where
  "fx_completion_condition c ec bytes_transferred u =
     (if ec then (0, u)
      else
        let data_len = fx_remain u + bytes_transferred;
            room = (if fx_big u = [] then fx_raw_size else length (fx_big u))
        in if fx_cur u = npos \<and> data_len \<ge> head_len c
           then
             let cur = head_N2H c (fx_raw u); u' = u\<lparr>fx_cur := cur\<rparr>
             in if cur > msg_buffer_size c \<or> cur < head_len c \<or> cur > fx_raw_size then (0, u')
                else (if data_len \<ge> cur then 0 else room, u')
           else (if data_len \<ge> fx_cur u then 0 else room, u))"

definition fx_room :: "fx_unpacker \<Rightarrow> nat" where
  "fx_room u = (if fx_big u = [] then fx_raw_size else length (fx_big u)) - fx_remain u"

definition fx_recv :: "nat \<Rightarrow> bytes \<Rightarrow> fx_unpacker \<Rightarrow> fx_unpacker" where
  "fx_recv tr bs u =
     (if fx_big u = [] then u\<lparr>fx_raw := write_at (fx_remain u + tr) bs (fx_raw u)\<rparr>
      else u\<lparr>fx_big := write_at (fx_remain u + tr) bs (fx_big u)\<rparr>)"

definition fx_raw_data :: "ext_cfg \<Rightarrow> fx_unpacker \<Rightarrow> bytes \<Rightarrow> bytes" where
  "fx_raw_data c u msg = (if fx_stripped u then msg else drop (head_len c) msg)"

definition fx_raw_data_len :: "ext_cfg \<Rightarrow> fx_unpacker \<Rightarrow> bytes \<Rightarrow> nat" where
  "fx_raw_data_len c u msg = (if fx_stripped u then length msg else size_sub (length msg) (head_len c))"

section \<open>The state between two calls\<close>

text \<open>
  With a big message under way the header of a stripped one is no longer stored; the bytes not
  parsed yet are its header, which the length determines, and what has arrived of the body.
\<close>

definition fx_live :: "ext_cfg \<Rightarrow> fx_unpacker \<Rightarrow> nat \<Rightarrow> bytes" where
  "fx_live c u tr =
     (if fx_big u = [] then take (fx_remain u + tr) (fx_raw u)
      else (if fx_stripped u then head_H2N c (head_len c + length (fx_big u)) else []) @
           take (fx_remain u + tr) (fx_big u))"

definition fx_ready :: "ext_cfg \<Rightarrow> fx_unpacker \<Rightarrow> nat \<Rightarrow> bool" where
  "fx_ready c u tr \<longleftrightarrow> valid_cfg c \<and> length (fx_raw u) = fx_raw_size \<and>
     (if fx_big u = [] then fx_remain u + tr \<le> fx_raw_size \<and> cur_ok c (fx_cur u) (fx_live c u tr)
      else fx_cur u = length (fx_big u) \<and> fx_remain u + tr \<le> length (fx_big u) \<and>
           head_len c \<le> length (fx_live c u tr) \<and>
           head_N2H c (fx_live c u tr) = (if fx_stripped u then head_len c else 0) + length (fx_big u) \<and>
           (if fx_stripped u then head_len c else 0) + length (fx_big u) \<le> msg_buffer_size c \<and>
           head_len c < (if fx_stripped u then head_len c else 0) + length (fx_big u))"

definition fx_wf :: "ext_cfg \<Rightarrow> fx_unpacker \<Rightarrow> nat \<Rightarrow> bool" where
  "fx_wf c u tr \<longleftrightarrow> fx_ready c u tr \<and>
     (if fx_big u = []
      then (if fx_cur u = npos then fx_remain u < head_len c
            else head_len c \<le> fx_cur u \<and> fx_cur u \<le> msg_buffer_size c \<and> fx_cur u \<le> fx_raw_size \<and> fx_remain u < fx_cur u)
      else fx_remain u < length (fx_big u))"

lemma fx_wf_init: "valid_cfg c \<Longrightarrow> length raw = fx_raw_size \<Longrightarrow> fx_wf c (fx_init raw st) 0"
  by (simp add: fx_wf_def fx_ready_def fx_init_def)

lemma length_fx_live_small:
  "fx_ready c u tr \<Longrightarrow> fx_big u = [] \<Longrightarrow> length (fx_live c u tr) = fx_remain u + tr"
  by (simp add: fx_ready_def fx_live_def)

lemma fx_head: "head_len c \<le> fx_remain u + tr \<Longrightarrow> fx_big u = [] \<Longrightarrow> head_N2H c (fx_raw u) = head_N2H c (fx_live c u tr)"
  by (simp add: fx_live_def head_N2H_take)

text \<open>The header read from the wire is the one the length determines.\<close>

lemma head_H2N_N2H: "head_len c \<le> length bs \<Longrightarrow> head_H2N c (head_N2H c bs) = take (head_len c) bs"
  by (simp add: head_H2N_def head_N2H_def be_bytes_be_value)

lemma fx_extend:
  assumes "valid_cfg c" "length (fx_raw u) = fx_raw_size" "fx_remain u \<le> fx_raw_size" "fx_big u = []"
    and "head_len c \<le> fx_remain u" "fx_cur u = head_N2H c (fx_raw u)"
    and "fx_cur u \<le> msg_buffer_size c" "fx_cur u > fx_raw_size"
  shows "fx_wf c (fx_extend_buffer c g u) 0 \<and> fx_live c (fx_extend_buffer c g u) 0 = take (fx_remain u) (fx_raw u) \<and>
         fx_stripped (fx_extend_buffer c g u) = fx_stripped u"
proof -
  let ?R = "fx_raw_size" and ?v = "fx_extend_buffer c g u" and ?H = "head_len c"
  have sz: "fx_cur u \<le> SIZE_MAX" "fx_remain u \<le> SIZE_MAX" "?H \<le> 4" "?H < ?R"
    using valid_cfg_less_npos [OF assms(1,7)] assms(3) head_len_le [of c]
    by (auto simp: fx_raw_size_def SIZE_MAX_def)
  have hd: "head_H2N c (fx_cur u) = take ?H (fx_raw u)"
    using assms(2,6) sz by (simp add: head_H2N_N2H)
  show ?thesis
  proof (cases "fx_stripped u")
    case True
    have s: "size_sub (fx_cur u) ?H = fx_cur u - ?H" "size_sub (fx_remain u) ?H = fx_remain u - ?H"
      using sz assms(5,8) by (auto intro!: size_sub_exact)
    define b where "b = write_at 0 (chunk ?H (fx_remain u - ?H) (fx_raw u)) (map g [0..<fx_cur u - ?H])"
    have lc: "length (chunk ?H (fx_remain u - ?H) (fx_raw u)) = fx_remain u - ?H"
      using assms(2,3,5) by (simp add: length_chunk)
    have b: "length b = fx_cur u - ?H" "take (fx_remain u - ?H) b = chunk ?H (fx_remain u - ?H) (fx_raw u)"
      unfolding b_def using lc assms(3,8) by (simp_all add: length_write_at take_write_at_len)
    have v: "?v = u\<lparr>fx_cur := fx_cur u - ?H, fx_remain := fx_remain u - ?H, fx_big := b\<rparr>"
      using True s by (simp add: fx_extend_buffer_def Let_def b_def)
    have ne: "b \<noteq> []" using b(1) assms(8) sz by auto
    have lt: "fx_remain u - ?H < fx_cur u - ?H" using assms(3,5,8) by linarith
    have eq: "?H + (fx_cur u - ?H) = fx_cur u" using assms(8) sz by simp
    have "chunk ?H (fx_remain u - ?H) (fx_raw u) = drop ?H (take (fx_remain u) (fx_raw u))"
      by (simp add: chunk_def take_drop assms(5))
    then have "take ?H (fx_raw u) @ chunk ?H (fx_remain u - ?H) (fx_raw u) = take (fx_remain u) (fx_raw u)"
      by (metis append_take_drop_id assms(5) min.absorb1 take_take)
    then have live: "fx_live c ?v 0 = take (fx_remain u) (fx_raw u)"
      using ne b eq hd True by (simp add: v fx_live_def)
    show ?thesis
      using live v ne b eq lt assms True sz by (simp add: fx_wf_def fx_ready_def head_N2H_take)
  next
    case False
    define b where "b = write_at 0 (chunk 0 (fx_remain u) (fx_raw u)) (map g [0..<fx_cur u])"
    have lc: "length (chunk 0 (fx_remain u) (fx_raw u)) = fx_remain u" using assms(2,3) by simp
    have b: "length b = fx_cur u" "take (fx_remain u) b = take (fx_remain u) (fx_raw u)"
      unfolding b_def using lc assms(2,3,8) by (simp_all add: length_write_at take_write_at_len)
    have v: "?v = u\<lparr>fx_cur := fx_cur u, fx_remain := fx_remain u, fx_big := b\<rparr>"
      using False by (simp add: fx_extend_buffer_def Let_def b_def)
    have ne: "b \<noteq> []" using b(1) assms(8) by auto
    have live: "fx_live c ?v 0 = take (fx_remain u) (fx_raw u)"
      using ne b False by (simp add: v fx_live_def)
    show ?thesis
      using live v ne b assms False sz by (simp add: fx_wf_def fx_ready_def head_N2H_take)
  qed
qed

section \<open>parse_msg cuts frames, however big\<close>

lemma fx_parse_big:
  assumes "fx_ready c u tr" "fx_big u \<noteq> []"
  shows "fx_parse_msg c g tr u =
         (if fx_remain u + tr = length (fx_big u)
          then (True, fx_reset (u\<lparr>fx_remain := fx_remain u + tr\<rparr>), [fx_big u])
          else (False, u\<lparr>fx_remain := fx_remain u + tr\<rparr>, []))"
  using assms(2) by (simp add: fx_parse_msg_def)

lemma split_frames_single:
  "head_len c \<le> length bs \<Longrightarrow> head_N2H c bs = length bs \<Longrightarrow> length bs \<le> msg_buffer_size c \<Longrightarrow>
   split_frames c bs = ([bs], [], True)"
  by (subst split_frames_frame [of c "length bs"]) (auto simp: split_frames_short)

lemma fx_big_decode:
  assumes "fx_ready c u tr" "fx_big u \<noteq> []"
  shows "decode c (fx_stripped u) (fx_live c u tr) =
         (if fx_remain u + tr = length (fx_big u) then ([fx_big u], [], True) else ([], fx_live c u tr, True))"
proof -
  let ?l = "fx_live c u tr" and ?H = "head_len c"
  have h: "?H \<le> length ?l" "head_N2H c ?l = (if fx_stripped u then ?H else 0) + length (fx_big u)"
    "(if fx_stripped u then ?H else 0) + length (fx_big u) \<le> msg_buffer_size c"
    "?H < (if fx_stripped u then ?H else 0) + length (fx_big u)" "fx_remain u + tr \<le> length (fx_big u)"
    using assms by (simp_all add: fx_ready_def)
  have len: "length ?l = (if fx_stripped u then ?H else 0) + (fx_remain u + tr)"
    using h(5) assms(2) by (simp add: fx_live_def)
  show ?thesis
  proof (cases "fx_remain u + tr = length (fx_big u)")
    case True
    then have "split_frames c ?l = ([?l], [], True)" using h len by (intro split_frames_single) auto
    moreover have "?l = (if fx_stripped u then head_H2N c (?H + length (fx_big u)) else []) @ fx_big u"
      using True assms(2) by (simp add: fx_live_def)
    ultimately show ?thesis using True h len by (auto simp: decode_def bodies_def)
  next
    case False
    then have "split_frames c ?l = ([], ?l, True)" using h len by (intro split_frames_more) auto
    then show ?thesis using False by (simp add: decode_def bodies_def)
  qed
qed

lemma fx_reset_wf: "fx_ready c u tr \<Longrightarrow> fx_wf c (fx_reset (u\<lparr>fx_remain := n\<rparr>)) 0 \<and>
    fx_live c (fx_reset (u\<lparr>fx_remain := n\<rparr>)) 0 = [] \<and> fx_stripped (fx_reset (u\<lparr>fx_remain := n\<rparr>)) = fx_stripped u"
  by (simp add: fx_wf_def fx_ready_def fx_reset_def fx_live_def)

lemma fx_parse_small:
  assumes "fx_ready c u tr" "fx_big u = []" "split_frames c (fx_live c u tr) = (fs, r, ok)"
  shows "\<exists>u' big. fx_parse_msg c g tr u = (big \<and> fs = [] \<or> ok \<and> fs \<noteq> [], u', bodies c (fx_stripped u) fs) \<and>
           big = (fs = [] \<and> ok \<and> head_len c \<le> fx_remain u + tr \<and> head_N2H c (fx_raw u) > fx_raw_size) \<and>
           (big \<or> ok \<and> fs \<noteq> [] \<longrightarrow> fx_wf c u' 0 \<and> fx_live c u' 0 = r \<and> fx_stripped u' = fx_stripped u) \<and>
           (\<not> ok \<longrightarrow> length (fx_raw u') = fx_raw_size \<and> fx_stripped u' = fx_stripped u)"
proof -
  let ?n = "fx_remain u + tr" and ?raw = "fx_raw u" and ?H = "head_len c"
  have v: "valid_cfg c" "length ?raw = fx_raw_size" "?n \<le> fx_raw_size" "cur_ok c (fx_cur u) (take ?n ?raw)"
    and live: "fx_live c u tr = take ?n ?raw"
    using assms(1,2) by (auto simp: fx_ready_def fx_live_def)
  have len: "length (take ?n ?raw) = ?n" using v by simp
  define u1 where "u1 = (let w = u\<lparr>fx_remain := ?n\<rparr> in
      if fx_cur w = npos \<and> fx_remain w \<ge> ?H then w\<lparr>fx_cur := head_N2H c (fx_raw w)\<rparr> else w)"
  have u1: "fx_raw u1 = ?raw" "fx_remain u1 = ?n" "fx_big u1 = []" "fx_stripped u1 = fx_stripped u"
    "fx_cur u1 = (if ?H \<le> ?n then head_N2H c ?raw else npos)"
    using assms(2) v(4) len by (auto simp: u1_def Let_def cur_ok_def head_N2H_take)
  have P: "fx_parse_msg c g tr u =
      (if fx_cur u1 \<le> msg_buffer_size c \<and> fx_cur u1 > fx_raw_size then (True, fx_extend_buffer c g u1, [])
       else
         let (unpack_ok, cur, remain, can) = up_parse_pos c ?raw (fx_cur u1) ?n;
             u2 = u1\<lparr>fx_raw := up_shift ?raw remain can, fx_cur := cur, fx_remain := remain\<rparr>
         in (unpack_ok,
             (if unpack_ok \<and> cur \<noteq> npos \<and> cur > fx_raw_size then fx_extend_buffer c g u2 else u2),
             up_emit c (fx_stripped u) ?raw can))"
    using assms(2) u1 by (simp add: fx_parse_msg_def u1_def fx_parse_pos_def up_parse_pos_def Let_def split: prod.splits)
  have npos: "\<not> npos \<le> msg_buffer_size c" using valid_cfg_less_npos [OF v(1) order_refl] by simp
  show ?thesis
  proof (cases "fx_cur u1 \<le> msg_buffer_size c \<and> fx_cur u1 > fx_raw_size")
    case True
    then have big: "?H \<le> ?n" "fx_cur u1 = head_N2H c ?raw" using u1(5) npos by (auto split: if_splits)
    then have "split_frames c (take ?n ?raw) = ([], take ?n ?raw, True)"
      using True v len head_len_le [of c]
      by (intro split_frames_more) (auto simp: head_N2H_take fx_raw_size_def)
    then have e: "fs = []" "r = take ?n ?raw" "ok" using assms(3) live by auto
    have w: "fx_wf c (fx_extend_buffer c g u1) 0 \<and> fx_live c (fx_extend_buffer c g u1) 0 = take ?n ?raw \<and>
        fx_stripped (fx_extend_buffer c g u1) = fx_stripped u"
      using fx_extend [of c u1 g] v u1 big True by simp
    show ?thesis using P True e w big by (auto simp: bodies_def)
  next
    case False
    have cok: "cur_ok c (fx_cur u1) (take ?n ?raw)" using u1(5) len by (simp add: cur_ok_def head_N2H_take)
    have nb: "\<not> (fs = [] \<and> ok \<and> ?H \<le> ?n \<and> head_N2H c ?raw > fx_raw_size)"
    proof
      assume a: "fs = [] \<and> ok \<and> ?H \<le> ?n \<and> head_N2H c ?raw > fx_raw_size"
      then have "\<not> head_N2H c (take ?n ?raw) > msg_buffer_size c"
        using split_frames_bad [of c "take ?n ?raw"] assms(3) live len a by fastforce
      then show False using a False u1(5) by (simp add: head_N2H_take)
    qed
    show ?thesis
    proof (rule up_parse_pos_split [OF v(1) _ cok, of fs r ok "fx_stripped u"], goal_cases)
      case 1
      then show ?case using v by simp
    next
      case 2
      then show ?case using assms(3) live by simp
    next
      case (3 cur')
      let ?raw' = "up_shift ?raw (length r) (positions 0 fs)"
      let ?u2 = "u1\<lparr>fx_raw := ?raw', fx_cur := cur', fx_remain := length r\<rparr>"
      let ?u' = "if (ok \<and> fs \<noteq> []) \<and> cur' \<noteq> npos \<and> cur' > fx_raw_size then fx_extend_buffer c g ?u2 else ?u2"
      have p: "fx_parse_msg c g tr u = (ok \<and> fs \<noteq> [], ?u', bodies c (fx_stripped u) fs)"
        unfolding P if_not_P [OF False] by (simp add: 3(1,5) Let_def)
      have "fx_wf c ?u' 0 \<and> fx_live c ?u' 0 = r \<and> fx_stripped ?u' = fx_stripped u" if o: "ok \<and> fs \<noteq> []"
      proof (cases "cur' \<noteq> npos \<and> cur' > fx_raw_size")
        case True
        then have c': "?H \<le> cur' \<and> cur' \<le> msg_buffer_size c \<and> length r < cur'" using 3(4) o by simp
        have "?H \<le> length r" "cur' = head_N2H c r" using 3(2) True by (auto simp: cur_ok_def)
        then have "?H \<le> length r" "cur' = head_N2H c ?raw'"
          using 3(7) by (auto simp: head_N2H_take [of c "length r" ?raw', symmetric])
        then show ?thesis
          using fx_extend [of c ?u2 g] v u1 3(6,7,8) True c' o by simp
      next
        case False
        have "fx_live c ?u2 0 = r" using u1 3(7) by (simp add: fx_live_def)
        then show ?thesis
          using False o v u1 3(2,3,4,6,8) by (auto simp: fx_wf_def fx_ready_def)
      qed
      moreover have "length (fx_raw ?u2) = fx_raw_size \<and> fx_stripped ?u2 = fx_stripped u" using 3(6) v(2) u1(4) by simp
      ultimately show ?thesis using p nb by auto
    qed
  qed
qed

section \<open>Reading\<close>

lemma fx_completion_fields:
  "fx_completion_condition c e tr u = (n, u') \<Longrightarrow>
   fx_raw u' = fx_raw u \<and> fx_big u' = fx_big u \<and> fx_remain u' = fx_remain u \<and> fx_stripped u' = fx_stripped u \<and>
   (fx_cur u' = fx_cur u \<or> fx_cur u = npos \<and> head_len c \<le> fx_remain u + tr \<and> fx_cur u' = head_N2H c (fx_raw u))"
  by (auto simp: fx_completion_condition_def Let_def split: if_splits)

lemma fx_not_npos: "fx_ready c u tr \<Longrightarrow> fx_big u \<noteq> [] \<Longrightarrow> fx_cur u \<noteq> npos"
  using valid_cfg_less_npos [of c "length (fx_big u)"] by (auto simp: fx_ready_def split: if_splits)

lemma fx_completion_ready:
  assumes "fx_wf c u tr" "fx_completion_condition c False tr u = (n, u')"
  shows "fx_ready c u' tr \<and> fx_live c u' tr = fx_live c u tr \<and> fx_room u' = fx_room u \<and> fx_stripped u' = fx_stripped u"
proof -
  note f = fx_completion_fields [OF assms(2)]
  have r: "fx_ready c u tr" using assms(1) by (simp add: fx_wf_def)
  have live: "fx_live c u' tr = fx_live c u tr" using f by (simp add: fx_live_def)
  have "fx_ready c u' tr"
  proof (cases "fx_big u = []")
    case True
    then show ?thesis using f live r fx_head [of c u tr] length_fx_live_small [OF r True]
      by (auto simp: fx_ready_def cur_ok_def)
  next
    case False
    then show ?thesis using f live r fx_not_npos [OF r False] by (simp add: fx_ready_def)
  qed
  then show ?thesis using f live by (simp add: fx_room_def)
qed

lemma fx_completion_more:
  assumes "fx_wf c u tr" "fx_completion_condition c False tr u = (n, u')" "0 < n"
  shows "fx_wf c u' tr \<and> decode c (fx_stripped u) (fx_live c u tr) = ([], fx_live c u tr, True) \<and> tr < fx_room u"
proof -
  note f = fx_completion_fields [OF assms(2)]
  have r: "fx_ready c u tr" using assms(1) by (simp add: fx_wf_def)
  have r': "fx_ready c u' tr" "fx_live c u' tr = fx_live c u tr" using fx_completion_ready [OF assms(1,2)] by auto
  show ?thesis
  proof (cases "fx_big u = []")
    case True
    let ?l = "fx_live c u tr"
    have len: "length ?l = fx_remain u + tr" by (rule length_fx_live_small [OF r True])
    have v: "valid_cfg c" "fx_remain u + tr \<le> fx_raw_size" "cur_ok c (fx_cur u) ?l"
      using r True by (auto simp: fx_ready_def)
    show ?thesis
    proof (cases "head_len c \<le> fx_remain u + tr")
      case hd: True
      have h: "head_N2H c (fx_raw u) = head_N2H c ?l" using fx_head [OF hd True] .
      have "fx_cur u' = head_N2H c ?l \<and> head_len c \<le> fx_cur u' \<and> fx_cur u' \<le> msg_buffer_size c \<and>
          fx_cur u' \<le> fx_raw_size \<and> fx_remain u + tr < fx_cur u'"
      proof (cases "fx_cur u = npos")
        case npos: True
        then show ?thesis using assms(2,3) h hd
          by (auto simp: fx_completion_condition_def Let_def split: if_splits)
      next
        case False
        then have "u' = u" "fx_remain u + tr < fx_cur u"
          using assms(2,3) by (auto simp: fx_completion_condition_def Let_def split: if_splits)
        moreover have "fx_cur u = head_N2H c ?l" using v(3) False by (simp add: cur_ok_def)
        ultimately show ?thesis using assms(1) False True by (simp add: fx_wf_def)
      qed
      note c' = this
      then have "split_frames c ?l = ([], ?l, True)" using len by (intro split_frames_more) auto
      then show ?thesis using c' r' f True v(2) by (auto simp: fx_wf_def decode_def bodies_def fx_room_def)
    next
      case False
      then have "fx_cur u = npos" "fx_cur u' = npos" using v(3) len f by (auto simp: cur_ok_def)
      moreover have "head_len c < fx_raw_size" using head_len_le [of c] by (simp add: fx_raw_size_def)
      ultimately show ?thesis using False r' f True v(2) len
        by (auto simp: fx_wf_def decode_def bodies_def fx_room_def split_frames_short)
    qed
  next
    case False
    have ne: "fx_cur u \<noteq> npos" using fx_not_npos [OF r False] .
    then have u: "u' = u" "fx_remain u + tr < fx_cur u"
      using assms(2,3) by (auto simp: fx_completion_condition_def Let_def split: if_splits)
    then show ?thesis using assms(1) r False fx_big_decode [OF r False]
      by (auto simp: fx_ready_def fx_room_def)
  qed
qed

lemma fx_recv_wf:
  assumes "fx_wf c u tr" "tr + length bs \<le> fx_room u"
  shows "fx_wf c (fx_recv tr bs u) (tr + length bs) \<and>
         fx_live c (fx_recv tr bs u) (tr + length bs) = fx_live c u tr @ bs \<and> fx_room (fx_recv tr bs u) = fx_room u \<and>
         fx_stripped (fx_recv tr bs u) = fx_stripped u"
proof -
  have r: "fx_ready c u tr" using assms(1) by (simp add: fx_wf_def)
  show ?thesis
  proof (cases "fx_big u = []")
    case True
    then have u: "length (fx_raw u) = fx_raw_size" "fx_remain u + tr + length bs \<le> length (fx_raw u)"
      using r assms(2) by (auto simp: fx_ready_def fx_room_def)
    then have live: "fx_live c (fx_recv tr bs u) (tr + length bs) = fx_live c u tr @ bs"
      using True by (simp add: fx_live_def fx_recv_def take_write_at add.assoc [symmetric])
    then have "fx_ready c (fx_recv tr bs u) (tr + length bs)"
      using r True u by (auto simp: fx_ready_def fx_recv_def length_write_at intro!: cur_ok_append)
    then show ?thesis using live assms(1) True by (simp add: fx_wf_def fx_recv_def fx_room_def)
  next
    case False
    then have u: "fx_remain u + tr + length bs \<le> length (fx_big u)" using r assms(2) by (auto simp: fx_ready_def fx_room_def)
    then have nb: "fx_big (fx_recv tr bs u) \<noteq> []" "length (fx_big (fx_recv tr bs u)) = length (fx_big u)"
      using False by (simp_all add: fx_recv_def buf_simps)
    have live: "fx_live c (fx_recv tr bs u) (tr + length bs) = fx_live c u tr @ bs"
      using False u nb by (simp add: fx_live_def fx_recv_def take_write_at add.assoc [symmetric])
    have "head_N2H c (fx_live c u tr @ bs) = head_N2H c (fx_live c u tr)"
      using r False by (intro head_N2H_append) (simp add: fx_ready_def)
    then have "fx_ready c (fx_recv tr bs u) (tr + length bs)"
      using r False u nb live by (auto simp: fx_ready_def fx_recv_def)
    then show ?thesis using live assms(1) False nb by (auto simp: fx_wf_def fx_recv_def fx_room_def)
  qed
qed

lemma fx_parse_true:
  assumes "fx_ready c u tr" "fx_stripped u = st" "fx_parse_msg c g tr u = (True, u', ms)"
  shows "decode c st (fx_live c u tr) = (ms, fx_live c u' 0, True) \<and> fx_wf c u' 0 \<and> fx_stripped u' = st"
proof (cases "fx_big u = []")
  case True
  obtain fs r1 ok where s: "split_frames c (fx_live c u tr) = (fs, r1, ok)" by (cases "split_frames c (fx_live c u tr)")
  from fx_parse_small [OF assms(1) True s, of g] assms(2,3) s show ?thesis by (auto simp: decode_def)
next
  case False
  then show ?thesis
    using fx_parse_big [OF assms(1) False, of g] fx_big_decode [OF assms(1) False] fx_reset_wf [OF assms(1)] assms(2,3)
    by (auto split: if_splits)
qed

interpretation fx: unpacker_contract
  "fx_completion_condition c False" "fx_parse_msg c g" fx_room fx_recv fx_reset
  "\<lambda>u tr. fx_wf c u tr \<and> fx_stripped u = st" "\<lambda>u tr. fx_ready c u tr \<and> fx_stripped u = st" "fx_live c" "decode c st"
  for c g st
proof (unfold_locales, goal_cases)
  case 1
  then show ?case by (simp add: decode_def split_frames_short bodies_def)
next
  case (2 xs ms r ys ms' r' ok)
  then show ?case by (rule decode_append)
next
  case (3 xs ms r ys)
  then show ?case by (rule decode_bad)
next
  case (4 u tr)
  then show ?case by (simp add: fx_wf_def)
next
  case (5 u tr n u')
  then show ?case using fx_completion_ready [of c u tr n u'] by simp
next
  case (6 u tr n u')
  then show ?case using fx_completion_more [of c u tr n u'] fx_completion_fields [of c False tr u n u'] by simp
next
  case (7 u n u')
  have r: "fx_ready c u 0" using 7(1) by (simp add: fx_wf_def)
  have "0 < n"
  proof (cases "fx_big u = []")
    case True
    then show ?thesis using 7 valid_cfg_less_npos [of c "head_len c"] valid_cfg_head [of c] r
      by (auto simp: fx_completion_condition_def fx_wf_def fx_ready_def fx_raw_size_def split: if_splits)
  next
    case False
    then show ?thesis using 7 r fx_not_npos [OF r False]
      by (auto simp: fx_completion_condition_def fx_wf_def fx_ready_def split: if_splits)
  qed
  then show ?case using fx_completion_more [of c u 0 n u'] 7 by simp
next
  case (8 u tr bs)
  then show ?case using fx_recv_wf [of c u tr bs] by simp
next
  case (9 u tr u' ms)
  then show ?case using fx_parse_true [of c u tr st g u' ms] by simp
next
  case (10 u tr ok u' ms)
  then have r: "fx_ready c u tr" "fx_stripped u = st" by auto
  show ?case
  proof (cases "fx_big u = []")
    case True
    obtain fs r1 b where s: "split_frames c (fx_live c u tr) = (fs, r1, b)" by (cases "split_frames c (fx_live c u tr)")
    from fx_parse_small [OF r(1) True s, of g] 10(3) s r(2) show ?thesis by (auto simp: decode_def)
  next
    case False
    then show ?thesis
      using fx_parse_big [OF r(1) False, of g] fx_big_decode [OF r(1) False] 10(3) r(2) by (auto split: if_splits)
  qed
next
  case (11 u tr n u')
  have r: "fx_ready c u tr" "fx_stripped u = st" using 11(1) by (auto simp: fx_wf_def)
  have "n = 0" using fx_completion_more [of c u tr n u'] 11 by (cases "n = 0") auto
  note f = fx_completion_fields [OF 11(3)]
  have r': "fx_ready c u' tr" "fx_live c u' tr = fx_live c u tr" using fx_completion_ready [of c u tr n u'] 11 by auto
  show ?case
  proof (cases "fx_big u = []")
    case True
    let ?l = "fx_live c u tr"
    have len: "length ?l = fx_remain u + tr" by (rule length_fx_live_small [OF r(1) True])
    obtain fs r1 where s: "split_frames c ?l = (fs, r1, True)" using 11(5) by (cases "split_frames c ?l") (auto simp: decode_def)
    have v: "valid_cfg c" "cur_ok c (fx_cur u) ?l" "fx_remain u + tr \<le> fx_raw_size"
      using r True by (auto simp: fx_ready_def)
    have hl: "head_len c \<le> fx_remain u + tr"
    proof (rule ccontr)
      assume short: "\<not> ?thesis"
      then have "fx_cur u = npos" using v(2) len by (auto simp: cur_ok_def)
      moreover have "fx_remain u + tr < npos" using short valid_cfg_less_npos [OF v(1) valid_cfg_head [OF v(1)]] by simp
      ultimately show False
        using 11(3) \<open>n = 0\<close> short True by (auto simp: fx_completion_condition_def fx_raw_size_def split: if_splits)
    qed
    have h: "head_N2H c (fx_raw u) = head_N2H c ?l" using fx_head [OF hl True] .
    have "fs \<noteq> [] \<or> head_N2H c (fx_raw u') > fx_raw_size"
    proof (rule ccontr)
      assume a: "\<not> ?thesis"
      then have sl: "split_frames c ?l = ([], r1, True)" "\<not> head_N2H c ?l > fx_raw_size" using s h f by auto
      have hd: "head_len c \<le> head_N2H c ?l" "head_N2H c ?l \<le> msg_buffer_size c"
        using split_frames_bad [of c ?l] hl len sl by (metis linorder_not_le prod.inject)+
      have "fst (split_frames c ?l) = []" using sl by simp
      then have "length ?l < head_N2H c ?l"
        using split_frames_frame [OF hd(1,2) _ refl] by (auto split: prod.splits simp: not_le [symmetric])
      then show False
        using 11(3) \<open>n = 0\<close> hl h len True hd sl(2) v(2)
        by (auto simp: fx_completion_condition_def Let_def cur_ok_def fx_raw_size_def split: if_splits)
    qed
    then show ?thesis
      using fx_parse_small [of c u' tr fs r1 True g] r' s True f hl by auto
  next
    case False
    then have "fx_remain u + tr \<ge> fx_cur u"
      using 11(3) \<open>n = 0\<close> fx_not_npos [OF r(1) False] by (auto simp: fx_completion_condition_def Let_def split: if_splits)
    then show ?thesis using fx_parse_big [OF r'(1), of g] f r(1) False by (auto simp: fx_ready_def)
  qed
next
  case (12 u tr u' ms)
  then have r: "fx_ready c u tr" "fx_stripped u = st" by auto
  obtain fs q where s: "split_frames c (fx_live c u tr) = (fs, q, False)"
    using 12(4) by (cases "split_frames c (fx_live c u tr)") (auto simp: decode_def)
  have b: "fx_big u = []"
  proof (rule ccontr)
    assume "fx_big u \<noteq> []"
    then have "snd (snd (decode c st (fx_live c u tr)))" using fx_big_decode [OF r(1)] r(2) by simp
    then show False using 12(4) by simp
  qed
  have "ms = bodies c st fs" "length (fx_raw u') = fx_raw_size" "fx_stripped u' = st"
    using fx_parse_small [OF r(1) b s, of g] 12(3) r(2) by auto
  then show ?case using s r(1) by (simp add: decode_def fx_wf_def fx_ready_def fx_reset_def fx_live_def)
next
  case (13 u tr u' ms)
  then show ?case using fx_parse_true [of c u tr st g u' ms] by simp
qed

abbreviation fx_session :: "ext_cfg \<Rightarrow> (nat \<Rightarrow> u8) \<Rightarrow> fx_unpacker reader \<Rightarrow> fx_unpacker reader \<Rightarrow> bool" where
  "fx_session c g \<equiv> reader_step (fx_completion_condition c False) (fx_parse_msg c g) fx_room fx_recv fx_reset"

definition fx_run :: "ext_cfg \<Rightarrow> (nat \<Rightarrow> u8) \<Rightarrow> bool \<Rightarrow> bytes \<Rightarrow> bytes \<Rightarrow> fx_unpacker reader \<Rightarrow> bool" where
  "fx_run c g st raw s r \<longleftrightarrow> length raw = fx_raw_size \<and> (fx_session c g)\<^sup>*\<^sup>* (reader_init (fx_init raw st) s) r"

lemma fx_run_quiet_ex: "length raw = fx_raw_size \<Longrightarrow> \<exists>r. fx_run c g st raw s r \<and> reader_quiet (fx_session c g) r"
  using fx.reaches_quiet [of "reader_init (fx_init raw st) s" c g] by (auto simp: fx_run_def reader_init_def)

text \<open>
  C31. The flexible unpacker is the default unpacker for messages of any size the configuration
  allows: whether a message fits the 4000 bytes or is moved to a buffer of its own, with headers
  stripped or kept, a session that read a stream without bad headers delivered exactly the messages
  the stream encodes, without an unpacking error, and any other session that got everything reported an unpacking
  error, not before the messages in front of the bad header were delivered.
\<close>

theorem flexible_reassembly:
  assumes "valid_cfg c" "fx_run c g st raw s r" "reader_quiet (fx_session c g) r"
  shows "rd_end r = Reading \<and> rd_stream r = [] \<and>
         (if snd (snd (decode c st s)) then rd_bad r = 0 \<and> rd_out r = fst (decode c st s)
          else 0 < rd_bad r \<and> (\<exists>more. rd_out r = fst (decode c st s) @ more))"
proof -
  have "fx_wf c (fx_init raw st) 0 \<and> fx_stripped (fx_init raw st) = st" "fx_live c (fx_init raw st) 0 = []"
    using fx_wf_init [OF assms(1)] assms(2) by (simp_all add: fx_run_def fx_live_def fx_init_def)
  note w = this
  have run: "(fx_session c g)\<^sup>*\<^sup>* (reader_init (fx_init raw st) s) r" using assms(2) by (simp add: fx_run_def)
  note v = fx.quiet_verdict [OF run w assms(3)] and p = fx.delivered_prefix [OF run w]
  show ?thesis
  proof (cases "snd (snd (decode c st s))")
    case True
    then show ?thesis using fx.quiet_verdict_ok [OF run w True assms(3)] by simp
  next
    case False
    then have "rd_bad r \<noteq> 0" using v by blast
    then show ?thesis using v p False by simp
  qed
qed

theorem flexible_reassembly_witness:
  "\<exists>r. fx_run tiny_cfg (\<lambda>_. 0) True (replicate fx_raw_size 0) [0, 3, 7, 0, 2, 0] r \<and> rd_out r = [[7]]"
proof -
  obtain r where r: "fx_run tiny_cfg (\<lambda>_. 0) True (replicate fx_raw_size 0) [0, 3, 7, 0, 2, 0] r"
    "reader_quiet (fx_session tiny_cfg (\<lambda>_. 0)) r"
    using fx_run_quiet_ex [of "replicate fx_raw_size 0" tiny_cfg "\<lambda>_. 0" True "[0, 3, 7, 0, 2, 0]"] by auto
  show ?thesis using flexible_reassembly [OF valid_cfg_tiny r] r decode_demo by auto
qed

end
