(* ===== verification/Prefix_Suffix.thy ===== *)
theory Prefix_Suffix
  imports Unpacker
begin

text \<open>
  \<open>prefix_suffix_unpacker\<close> of \<open>ext/unpacker.h\<close>, which cuts a stream at a prefix and a suffix.
  The specification is \<open>ps_split\<close>. Unlike the other unpackers this one does not report a bad
  message that follows a good one in the same read, so it satisfies the reader's core contract only,
  and a theorem shows what happens in that case.
\<close>

section \<open>The model\<close>

record ps_unpacker =
  pu_raw :: bytes
  pu_prefix :: bytes
  pu_suffix :: bytes
  pu_cur :: nat
  pu_remain :: nat
  pu_stripped :: bool

definition pu_init :: "bytes \<Rightarrow> bool \<Rightarrow> ps_unpacker" where
  "pu_init raw st = \<lparr>pu_raw = raw, pu_prefix = [], pu_suffix = [], pu_cur = npos, pu_remain = 0, pu_stripped = st\<rparr>"

definition pu_prefix_suffix :: "bytes \<Rightarrow> bytes \<Rightarrow> ps_unpacker \<Rightarrow> ps_unpacker" where
  "pu_prefix_suffix prefix suffix u = u\<lparr>pu_prefix := prefix, pu_suffix := suffix\<rparr>"

definition pu_reset :: "ps_unpacker \<Rightarrow> ps_unpacker" where
  "pu_reset u = u\<lparr>pu_cur := npos, pu_remain := 0\<rparr>"

fun memmem_loop :: "bytes \<Rightarrow> bytes \<Rightarrow> nat \<Rightarrow> nat \<Rightarrow> nat option" where
  "memmem_loop mem sub_mem i 0 = None"
| "memmem_loop mem sub_mem i (Suc n) =
     (if take (length sub_mem) mem = sub_mem then Some i else memmem_loop (drop 1 mem) sub_mem (Suc i) n)"

definition memmem :: "bytes \<Rightarrow> bytes \<Rightarrow> nat option" where
  "memmem mem sub_mem =
     (if length sub_mem \<le> length mem
      then let valid_len = length mem - length sub_mem in memmem_loop mem sub_mem 0 (Suc valid_len)
      else None)"

text \<open>It returns the first position where the searched bytes stand.\<close>

definition occurs :: "bytes \<Rightarrow> bytes \<Rightarrow> nat \<Rightarrow> bool" where
  "occurs sub mem i \<longleftrightarrow> i + length sub \<le> length mem \<and> take (length sub) (drop i mem) = sub"

lemma memmem_loop_char:
  "case memmem_loop mem sub i n of
     None \<Rightarrow> \<forall>d<n. take (length sub) (drop d mem) \<noteq> sub
   | Some j \<Rightarrow> \<exists>d<n. j = i + d \<and> take (length sub) (drop d mem) = sub \<and> (\<forall>e<d. take (length sub) (drop e mem) \<noteq> sub)"
proof (induction mem sub i n rule: memmem_loop.induct)
  case (1 mem sub i)
  then show ?case by simp
next
  case (2 mem sub i n)
  show ?case
  proof (cases "take (length sub) mem = sub")
    case True
    then show ?thesis by (auto intro!: exI [of _ 0])
  next
    case False
    have all: "(\<forall>d<Suc m. P d) \<longleftrightarrow> P 0 \<and> (\<forall>d<m. P (Suc d))" for P :: "nat \<Rightarrow> bool" and m
      by (metis less_Suc_eq_0_disj not_less_zero zero_less_Suc Suc_less_eq)
    show ?thesis
    proof (cases "memmem_loop (drop 1 mem) sub (Suc i) n")
      case None
      then show ?thesis using 2 [OF False] False by (simp add: all)
    next
      case (Some j)
      then obtain d where d: "d < n" "j = Suc i + d" "take (length sub) (drop d (drop 1 mem)) = sub"
        "\<forall>e<d. take (length sub) (drop e (drop 1 mem)) \<noteq> sub"
        using 2 [OF False] by auto
      have "\<forall>e<Suc d. take (length sub) (drop e mem) \<noteq> sub" using d(4) False by (simp add: all)
      then show ?thesis using d False Some by (auto intro!: exI [of _ "Suc d"])
    qed
  qed
qed

lemma memmem_Some: "memmem mem sub = Some i \<Longrightarrow> occurs sub mem i \<and> (\<forall>j<i. \<not> occurs sub mem j)"
  using memmem_loop_char [where mem = mem and sub = sub and i = 0 and n = "Suc (length mem - length sub)"]
  by (auto simp: memmem_def occurs_def Let_def split: if_splits)

lemma memmem_None: "memmem mem sub = None \<Longrightarrow> \<not> occurs sub mem i"
  using memmem_loop_char [where mem = mem and sub = sub and i = 0 and n = "Suc (length mem - length sub)"]
  by (auto simp: memmem_def occurs_def Let_def split: if_splits)

lemma memmem_intro: "occurs sub mem i \<Longrightarrow> (\<And>j. j < i \<Longrightarrow> \<not> occurs sub mem j) \<Longrightarrow> memmem mem sub = Some i"
  by (cases "memmem mem sub") (use memmem_None memmem_Some nat_neq_iff in blast)+

lemma occurs_append: "i + length sub \<le> length mem \<Longrightarrow> occurs sub (mem @ b) i \<longleftrightarrow> occurs sub mem i"
  by (auto simp: occurs_def)

lemma occurs_bound: "occurs sub mem i \<Longrightarrow> i + length sub \<le> length mem"
  by (simp add: occurs_def)

lemma memmem_append: "memmem mem sub = Some i \<Longrightarrow> memmem (mem @ b) sub = Some i"
proof (rule memmem_intro)
  assume m: "memmem mem sub = Some i"
  then have o: "occurs sub mem i" "\<And>j. j < i \<Longrightarrow> \<not> occurs sub mem j" using memmem_Some by auto
  have len: "i + length sub \<le> length mem" using occurs_bound [OF o(1)] .
  then show "occurs sub (mem @ b) i" using o(1) by (simp add: occurs_append)
  fix j assume "j < i"
  then show "\<not> occurs sub (mem @ b) j" using o(2) len by (simp add: occurs_append)
qed

text \<open>\<open>peek_msg\<close> returns its value and \<open>cur_msg_len\<close>.\<close>

definition peek_msg :: "ext_cfg \<Rightarrow> bytes \<Rightarrow> bytes \<Rightarrow> nat \<Rightarrow> nat \<Rightarrow> bytes \<Rightarrow> nat \<times> nat" where
  "peek_msg c prefix suffix cur data_len buff =
     (if cur = npos \<and> data_len \<ge> length prefix \<and> take (length prefix) buff \<noteq> prefix then (0, cur)
      else if cur \<noteq> npos \<and> cur \<noteq> 0 then (0, cur)
      else
        let cur1 = (if cur = npos \<and> data_len \<ge> length prefix then 0 else cur);
            min_len = length prefix + length suffix
        in if data_len > min_len
           then
             (case memmem (chunk (length prefix) (data_len - length prefix) buff) suffix of
                Some i \<Rightarrow> (0, length prefix + i + length suffix)
              | None \<Rightarrow> if data_len \<ge> msg_buffer_size c then (0, cur1) else (msg_buffer_size c, cur1))
           else (msg_buffer_size c, cur1))"

lemma peek_msg_found:
  "peek_msg c prefix suffix cur n buff = (0, cur') \<Longrightarrow> cur' \<noteq> npos \<Longrightarrow> cur' \<noteq> 0 \<Longrightarrow> cur = npos \<or> cur = 0 \<Longrightarrow> 0 < n"
  by (auto simp: peek_msg_def Let_def split: if_splits option.splits)

lemma peek_msg_known: "cur \<noteq> npos \<Longrightarrow> cur \<noteq> 0 \<Longrightarrow> peek_msg c prefix suffix cur n buff = (0, cur)"
  by (simp add: peek_msg_def)

function pu_parse_loop ::
  "ext_cfg \<Rightarrow> bytes \<Rightarrow> bytes \<Rightarrow> bool \<Rightarrow> bytes \<Rightarrow> nat \<Rightarrow> nat \<Rightarrow> nat \<Rightarrow> bytes list \<Rightarrow>
   nat \<times> nat \<times> nat \<times> bytes list" where
  "pu_parse_loop c prefix suffix st raw pnext cur remain msg_can =
     (let (n, cur') = peek_msg c prefix suffix cur remain (drop pnext raw);
          min_len = length prefix + length suffix
      in if n = 0 \<and> cur' \<noteq> npos \<and> cur' \<noteq> 0
         then pu_parse_loop c prefix suffix st raw (pnext + cur') npos (remain - cur')
                (if cur' > min_len
                 then msg_can @ [if st then chunk (pnext + length prefix) (cur' - min_len) raw else chunk pnext cur' raw]
                 else msg_can)
         else (pnext, cur', remain, msg_can))"
  by pat_completeness auto

termination
proof (relation "measure (\<lambda>(c, prefix, suffix, st, raw, pnext, cur, remain, can).
         2 * remain + (if cur = npos \<or> cur = 0 then 0 else 1))", goal_cases)
  case 1
  then show ?case by simp
next
  case (2 c prefix suffix st raw pnext cur remain can x n cur' y)
  then have c': "cur' \<noteq> npos" "cur' \<noteq> 0" "peek_msg c prefix suffix cur remain (drop pnext raw) = (0, cur')" by auto
  show ?case
  proof (cases "cur = npos \<or> cur = 0")
    case True
    then have "0 < remain" using peek_msg_found [OF c'(3,1,2)] by simp
    then show ?thesis using True c' by auto
  next
    case False
    then show ?thesis using c' by auto
  qed
qed

declare pu_parse_loop.simps [simp del]

definition pu_parse_msg :: "ext_cfg \<Rightarrow> nat \<Rightarrow> ps_unpacker \<Rightarrow> bool \<times> ps_unpacker \<times> bytes list" where
  "pu_parse_msg c bytes_transferred u =
     (let (pnext, cur, remain, msg_can) =
            pu_parse_loop c (pu_prefix u) (pu_suffix u) (pu_stripped u) (pu_raw u) 0 (pu_cur u)
              (pu_remain u + bytes_transferred) [];
          u' = u\<lparr>pu_cur := cur, pu_remain := remain\<rparr>
      in if pnext = 0 then (False, u', msg_can)
         else if remain > 0 then (True, u'\<lparr>pu_raw := write_at 0 (chunk pnext remain (pu_raw u)) (pu_raw u)\<rparr>, msg_can)
         else (True, u', msg_can))"

definition pu_completion_condition :: "ext_cfg \<Rightarrow> bool \<Rightarrow> nat \<Rightarrow> ps_unpacker \<Rightarrow> nat \<times> ps_unpacker" where
  "pu_completion_condition c ec bytes_transferred u =
     (if ec then (0, u)
      else let (n, cur) = peek_msg c (pu_prefix u) (pu_suffix u) (pu_cur u) (pu_remain u + bytes_transferred) (pu_raw u)
           in (n, u\<lparr>pu_cur := cur\<rparr>))"

definition pu_room :: "ext_cfg \<Rightarrow> ps_unpacker \<Rightarrow> nat" where
  "pu_room c u = msg_buffer_size c - pu_remain u"

definition pu_recv :: "nat \<Rightarrow> bytes \<Rightarrow> ps_unpacker \<Rightarrow> ps_unpacker" where
  "pu_recv tr bs u = u\<lparr>pu_raw := write_at (pu_remain u + tr) bs (pu_raw u)\<rparr>"

definition pu_raw_data :: "ps_unpacker \<Rightarrow> bytes \<Rightarrow> bytes" where
  "pu_raw_data u msg = (if pu_stripped u then msg else drop (length (pu_prefix u)) msg)"

definition pu_raw_data_len :: "ps_unpacker \<Rightarrow> bytes \<Rightarrow> nat" where
  "pu_raw_data_len u msg =
     (if pu_stripped u then length msg
      else size_sub (size_sub (length msg) (length (pu_prefix u))) (length (pu_suffix u)))"

section \<open>The specification\<close>

text \<open>
  A message ends with the first suffix behind its prefix, inside the first
  \<open>ASCS_MSG_BUFFER_SIZE\<close> bytes; a wrong prefix or that many bytes without a suffix is an error. A
  message is looked for only when there are more bytes than the prefix and the suffix have.
\<close>

definition ps_first :: "ext_cfg \<Rightarrow> bytes \<Rightarrow> bytes \<Rightarrow> bytes \<Rightarrow> nat option" where
  "ps_first c prefix suffix bs =
     (if length prefix + length suffix < length bs
      then map_option (\<lambda>i. length prefix + i + length suffix)
             (memmem (drop (length prefix) (take (msg_buffer_size c) bs)) suffix)
      else None)"

definition ps_bad :: "ext_cfg \<Rightarrow> bytes \<Rightarrow> bytes \<Rightarrow> bytes \<Rightarrow> bool" where
  "ps_bad c prefix suffix bs \<longleftrightarrow>
     length prefix \<le> length bs \<and> take (length prefix) bs \<noteq> prefix \<or>
     ps_first c prefix suffix bs = None \<and> msg_buffer_size c \<le> length bs"

lemma ps_first_bounds:
  assumes "ps_valid c prefix suffix" "ps_first c prefix suffix bs = Some l"
  shows "length prefix + length suffix \<le> l \<and> l \<le> length bs \<and> l \<le> msg_buffer_size c"
proof -
  let ?d = "drop (length prefix) (take (msg_buffer_size c) bs)"
  obtain i where i: "length prefix + length suffix < length bs" "memmem ?d suffix = Some i"
    "l = length prefix + i + length suffix"
    using assms(2) by (auto simp: ps_first_def split: if_splits)
  then have "i + length suffix \<le> length ?d" using memmem_Some occurs_bound by blast
  then have "i + length suffix \<le> length bs - length prefix" "i + length suffix \<le> msg_buffer_size c - length prefix"
    by auto
  then show ?thesis using i(1,3) assms(1) by (auto simp: ps_valid_def)
qed

lemma ps_first_pos: "ps_valid c prefix suffix \<Longrightarrow> ps_first c prefix suffix bs = Some l \<Longrightarrow> 0 < l \<and> l \<le> length bs"
  using ps_first_bounds [of c prefix suffix bs l] by (cases suffix) (auto simp: ps_valid_def)


lemma ps_first_append: "ps_first c prefix suffix bs = Some l \<Longrightarrow> ps_first c prefix suffix (bs @ ys) = Some l"
  using memmem_append [of "drop (length prefix) (take (msg_buffer_size c) bs)" suffix _
      "take (msg_buffer_size c - length bs) ys"]
  by (cases "length prefix \<le> min (length bs) (msg_buffer_size c)")
     (auto simp: ps_first_def split: if_splits)

lemma ps_first_full:
  "msg_buffer_size c \<le> length bs \<Longrightarrow> ps_valid c prefix suffix \<Longrightarrow>
   ps_first c prefix suffix (bs @ ys) = ps_first c prefix suffix bs"
  by (simp add: ps_first_def ps_valid_def)

lemma ps_bad_append: "ps_valid c prefix suffix \<Longrightarrow> ps_bad c prefix suffix bs \<Longrightarrow> ps_bad c prefix suffix (bs @ ys)"
  by (auto simp: ps_bad_def ps_first_full)

function ps_split :: "ext_cfg \<Rightarrow> bytes \<Rightarrow> bytes \<Rightarrow> bytes \<Rightarrow> bytes list \<times> bytes \<times> bool" where
  "ps_split c prefix suffix bs =
     (if \<not> ps_valid c prefix suffix \<or> ps_bad c prefix suffix bs then ([], bs, bs = [])
      else
        (case ps_first c prefix suffix bs of
           None \<Rightarrow> ([], bs, True)
         | Some l \<Rightarrow> let (fs, r, ok) = ps_split c prefix suffix (drop l bs) in (take l bs # fs, r, ok)))"
  by pat_completeness auto

termination
proof (relation "measure (\<lambda>(c, prefix, suffix, bs). length bs)", goal_cases)
  case 1
  then show ?case by simp
next
  case (2 c prefix suffix bs l)
  then have "0 < l \<and> l \<le> length bs" using ps_first_pos by blast
  then show ?case by auto
qed

declare ps_split.simps [simp del]

lemma ps_split_bad: "ps_valid c prefix suffix \<Longrightarrow> ps_bad c prefix suffix bs \<Longrightarrow> ps_split c prefix suffix bs = ([], bs, bs = [])"
  by (subst ps_split.simps) simp

lemma ps_split_none:
  "ps_valid c prefix suffix \<Longrightarrow> \<not> ps_bad c prefix suffix bs \<Longrightarrow> ps_first c prefix suffix bs = None \<Longrightarrow>
   ps_split c prefix suffix bs = ([], bs, True)"
  by (subst ps_split.simps) simp

lemma ps_split_some:
  "ps_valid c prefix suffix \<Longrightarrow> \<not> ps_bad c prefix suffix bs \<Longrightarrow> ps_first c prefix suffix bs = Some l \<Longrightarrow>
   ps_split c prefix suffix bs =
     (let (fs, r, ok) = ps_split c prefix suffix (drop l bs) in (take l bs # fs, r, ok))"
  by (subst ps_split.simps) simp


lemma ps_bad_not_Nil: "ps_valid c prefix suffix \<Longrightarrow> \<not> ps_bad c prefix suffix []"
  by (auto simp: ps_bad_def ps_valid_def)

lemma ps_split_append:
  "ps_split c prefix suffix xs = (fs, r, True) \<Longrightarrow> ps_split c prefix suffix (r @ ys) = (fs', r', ok) \<Longrightarrow>
   ps_split c prefix suffix (xs @ ys) = (fs @ fs', r', ok)"
proof (induction c prefix suffix xs arbitrary: fs r rule: ps_split.induct)
  case (1 c prefix suffix xs)
  show ?case
  proof (cases "\<not> ps_valid c prefix suffix \<or> ps_bad c prefix suffix xs")
    case True
    then have "ps_split c prefix suffix xs = ([], xs, xs = [])" by (subst ps_split.simps) simp
    then show ?thesis using "1.prems" by simp
  next
    case False
    show ?thesis
    proof (cases "ps_first c prefix suffix xs")
      case None
      then show ?thesis using "1.prems" False by (simp add: ps_split_none)
    next
      case (Some l)
      obtain gs q b where e: "ps_split c prefix suffix (drop l xs) = (gs, q, b)"
        by (cases "ps_split c prefix suffix (drop l xs)")
      then have p: "fs = take l xs # gs" "q = r" "b" using "1.prems"(1) False Some by (simp_all add: ps_split_some)
      have "ps_split c prefix suffix (drop l xs @ ys) = (gs @ fs', r', ok)"
        using "1.IH" [OF False Some, of gs r] e p "1.prems"(2) by simp
      moreover have "\<not> ps_bad c prefix suffix (xs @ ys)"
      proof -
        have "length prefix \<le> length xs" "\<not> take (length prefix) xs \<noteq> prefix"
          using False Some ps_first_bounds [of c prefix suffix xs l] by (auto simp: ps_bad_def)
        then show ?thesis using ps_first_append [OF Some, of ys] by (simp add: ps_bad_def)
      qed
      ultimately show ?thesis
        using False Some ps_first_append [OF Some, of ys] ps_first_pos [of c prefix suffix xs l] p
        by (simp add: ps_split_some)
    qed
  qed
qed

lemma ps_split_append_bad:
  "ps_valid c prefix suffix \<Longrightarrow> ps_split c prefix suffix xs = (fs, r, False) \<Longrightarrow>
   ps_split c prefix suffix (xs @ ys) = (fs, r @ ys, False)"
proof (induction c prefix suffix xs arbitrary: fs r rule: ps_split.induct)
  case (1 c prefix suffix xs)
  show ?case
  proof (cases "ps_bad c prefix suffix xs")
    case True
    then have "ps_bad c prefix suffix (xs @ ys)" "xs \<noteq> []"
      using "1.prems"(1) ps_bad_append ps_bad_not_Nil by blast+
    then show ?thesis using "1.prems" True by (simp add: ps_split_bad)
  next
    case False
    then obtain l where l: "ps_first c prefix suffix xs = Some l"
      using "1.prems" by (cases "ps_first c prefix suffix xs") (auto simp: ps_split_none)
    obtain gs q b where e: "ps_split c prefix suffix (drop l xs) = (gs, q, b)"
      by (cases "ps_split c prefix suffix (drop l xs)")
    then have p: "fs = take l xs # gs" "q = r" "\<not> b" using "1.prems" False l by (simp_all add: ps_split_some)
    have "ps_split c prefix suffix (drop l xs @ ys) = (gs, r @ ys, False)"
      using "1.IH" [OF _ l, of gs r] e p "1.prems"(1) False by simp
    moreover have "\<not> ps_bad c prefix suffix (xs @ ys)"
    proof -
      have "length prefix \<le> length xs" "\<not> take (length prefix) xs \<noteq> prefix"
        using False l ps_first_bounds [OF "1.prems"(1) l] by (auto simp: ps_bad_def)
      then show ?thesis using ps_first_append [OF l, of ys] by (simp add: ps_bad_def)
    qed
    ultimately show ?thesis
      using "1.prems"(1) ps_first_append [OF l, of ys] ps_first_pos [OF "1.prems"(1) l] p
      by (simp add: ps_split_some)
  qed
qed

lemma ps_split_rest: "ps_split c prefix suffix bs = (fs, r, ok) \<Longrightarrow> ps_split c prefix suffix r = ([], r, ok)"
proof (induction c prefix suffix bs arbitrary: fs r ok rule: ps_split.induct)
  case (1 c prefix suffix bs)
  show ?case
  proof (cases "\<not> ps_valid c prefix suffix \<or> ps_bad c prefix suffix bs \<or> ps_first c prefix suffix bs = None")
    case True
    then have "\<exists>b. ps_split c prefix suffix bs = ([], bs, b)" by (subst ps_split.simps) auto
    then show ?thesis using "1.prems" by auto
  next
    case False
    then obtain l where l: "ps_first c prefix suffix bs = Some l" by auto
    obtain gs q b where e: "ps_split c prefix suffix (drop l bs) = (gs, q, b)"
      by (cases "ps_split c prefix suffix (drop l bs)")
    have "q = r \<and> b = ok" using "1.prems" False l e by (simp add: ps_split_some)
    then show ?thesis using "1.IH" [OF _ l e] False by simp
  qed
qed

lemma ps_split_concat: "ps_split c prefix suffix bs = (fs, r, ok) \<Longrightarrow> concat fs @ r = bs"
proof (induction c prefix suffix bs arbitrary: fs r ok rule: ps_split.induct)
  case (1 c prefix suffix bs)
  show ?case
  proof (cases "\<not> ps_valid c prefix suffix \<or> ps_bad c prefix suffix bs \<or> ps_first c prefix suffix bs = None")
    case True
    then have "\<exists>b. ps_split c prefix suffix bs = ([], bs, b)" by (subst ps_split.simps) auto
    then show ?thesis using "1.prems" by auto
  next
    case False
    then obtain l where l: "ps_first c prefix suffix bs = Some l" by auto
    obtain gs q b where e: "ps_split c prefix suffix (drop l bs) = (gs, q, b)"
      by (cases "ps_split c prefix suffix (drop l bs)")
    have "concat gs @ q = drop l bs" using "1.IH" [OF _ l e] False by simp
    moreover have "fs = take l bs # gs" "r = q" using "1.prems" False l e by (simp_all add: ps_split_some)
    ultimately show ?thesis by simp
  qed
qed

section \<open>peek_msg and the parse loop\<close>

text \<open>What \<open>cur_msg_len\<close> knows about the bytes received: nothing, the prefix, or the message's length.\<close>

definition pu_known :: "bytes \<Rightarrow> nat \<Rightarrow> bytes \<Rightarrow> bool" where
  "pu_known prefix cur bs \<longleftrightarrow> cur = npos \<or> (cur = 0 \<and> length prefix \<le> length bs \<and> take (length prefix) bs = prefix)"

lemma peek_msg_char:
  assumes "ps_valid c prefix suffix" "pu_known prefix cur bs" "length bs \<le> msg_buffer_size c" "length bs \<le> length buff"
    and "bs = take (length bs) buff"
  shows "ps_bad c prefix suffix bs \<Longrightarrow> \<exists>cur'. peek_msg c prefix suffix cur (length bs) buff = (0, cur') \<and> pu_known prefix cur' bs"
    and "\<not> ps_bad c prefix suffix bs \<Longrightarrow> ps_first c prefix suffix bs = Some l \<Longrightarrow>
         peek_msg c prefix suffix cur (length bs) buff = (0, l)"
    and "\<not> ps_bad c prefix suffix bs \<Longrightarrow> ps_first c prefix suffix bs = None \<Longrightarrow>
         \<exists>cur'. peek_msg c prefix suffix cur (length bs) buff = (msg_buffer_size c, cur') \<and> pu_known prefix cur' bs"
proof -
  have tk: "take (length prefix) bs = take (length prefix) buff" if "length prefix \<le> length bs"
    using that assms(5) by (metis min.absorb1 take_take)
  have ck: "chunk (length prefix) (length bs - length prefix) buff = drop (length prefix) (take (msg_buffer_size c) bs)"
    using assms(3,5) by (metis (no_types) chunk_def drop_take take_all)
  have N: "msg_buffer_size c \<noteq> 0" using assms(1) by (auto simp: ps_valid_def)
  note defs = peek_msg_def ps_bad_def ps_first_def ck Let_def
  show "\<exists>cur'. peek_msg c prefix suffix cur (length bs) buff = (0, cur') \<and> pu_known prefix cur' bs"
    if b: "ps_bad c prefix suffix bs"
  proof (cases "length prefix \<le> length bs \<and> take (length prefix) bs \<noteq> prefix")
    case True
    then show ?thesis using assms(2) tk by (auto simp: peek_msg_def pu_known_def)
  next
    case False
    then have full: "ps_first c prefix suffix bs = None" "msg_buffer_size c \<le> length bs" using b by (auto simp: ps_bad_def)
    then have "length prefix + length suffix < length bs" using assms(1) by (simp add: ps_valid_def)
    then show ?thesis using full False assms(2) tk ck by (auto simp: peek_msg_def ps_first_def pu_known_def Let_def)
  qed
  show "peek_msg c prefix suffix cur (length bs) buff = (0, l)"
    if "\<not> ps_bad c prefix suffix bs" "ps_first c prefix suffix bs = Some l"
    using that assms(2) tk ck by (auto simp: peek_msg_def ps_bad_def ps_first_def pu_known_def Let_def split: if_splits)
  show "\<exists>cur'. peek_msg c prefix suffix cur (length bs) buff = (msg_buffer_size c, cur') \<and> pu_known prefix cur' bs"
    if "\<not> ps_bad c prefix suffix bs" "ps_first c prefix suffix bs = None"
    using that assms(2) tk ck
    by (auto simp: peek_msg_def ps_bad_def ps_first_def pu_known_def Let_def split: if_splits)
qed

definition pu_cur_ok :: "ext_cfg \<Rightarrow> bytes \<Rightarrow> bytes \<Rightarrow> nat \<Rightarrow> bytes \<Rightarrow> bool" where
  "pu_cur_ok c prefix suffix cur bs \<longleftrightarrow>
     pu_known prefix cur bs \<or> (\<not> ps_bad c prefix suffix bs \<and> ps_first c prefix suffix bs = Some cur)"

definition ps_bodies :: "bytes \<Rightarrow> bytes \<Rightarrow> bool \<Rightarrow> bytes list \<Rightarrow> bytes list" where
  "ps_bodies prefix suffix st fs =
     map (if st then (\<lambda>f. chunk (length prefix) (length f - (length prefix + length suffix)) f) else id)
       (filter (\<lambda>f. length prefix + length suffix < length f) fs)"

lemma pu_known_npos [simp]: "pu_known prefix npos bs"
  by (simp add: pu_known_def)

lemma pu_known_append: "pu_known prefix cur bs \<Longrightarrow> pu_known prefix cur (bs @ ys)"
  by (auto simp: pu_known_def)

lemma ps_split_Cons:
  assumes "ps_valid c prefix suffix" "ps_split c prefix suffix bs = (f # fs, r, ok)"
  shows "\<not> ps_bad c prefix suffix bs \<and> ps_first c prefix suffix bs = Some (length f) \<and> f = take (length f) bs \<and>
         length f \<le> length bs \<and> ps_split c prefix suffix (drop (length f) bs) = (fs, r, ok)"
proof -
  have nb: "\<not> ps_bad c prefix suffix bs" using assms ps_split_bad by fastforce
  then obtain l where l: "ps_first c prefix suffix bs = Some l"
    using assms ps_split_none by (cases "ps_first c prefix suffix bs") fastforce+
  have "f = take l bs" "ps_split c prefix suffix (drop l bs) = (fs, r, ok)"
    using assms(2) ps_split_some [OF assms(1) nb l] by (auto split: prod.splits)
  then show ?thesis using nb l ps_first_pos [OF assms(1) l] by simp
qed

lemma ps_split_Nil:
  assumes "ps_valid c prefix suffix" "ps_split c prefix suffix bs = ([], r, ok)"
  shows "r = bs \<and> (if ok then \<not> ps_bad c prefix suffix bs \<and> ps_first c prefix suffix bs = None else ps_bad c prefix suffix bs)"
proof (cases "ps_bad c prefix suffix bs")
  case True
  then show ?thesis using assms ps_split_bad ps_bad_not_Nil [OF assms(1)] by auto
next
  case False
  then have "ps_first c prefix suffix bs = None"
    using assms ps_split_some [OF assms(1) False] by (cases "ps_first c prefix suffix bs") (auto split: prod.splits)
  then show ?thesis using False assms ps_split_none by auto
qed

lemma pu_parse_loop_split:
  assumes "valid_cfg c" "ps_valid c prefix suffix"
  shows "off + remain \<le> length raw \<Longrightarrow> remain \<le> msg_buffer_size c \<Longrightarrow>
     pu_cur_ok c prefix suffix cur (chunk off remain raw) \<Longrightarrow>
     ps_split c prefix suffix (chunk off remain raw) = (fs, r, ok) \<Longrightarrow>
     \<exists>cur'. pu_parse_loop c prefix suffix st raw off cur remain can =
              (off + length (concat fs), cur', length r, can @ ps_bodies prefix suffix st fs) \<and>
            pu_known prefix cur' r"
proof (induction fs arbitrary: off cur remain can)
  case Nil
  let ?d = "chunk off remain raw"
  have len: "length ?d = remain" using Nil(1) by (simp add: length_chunk)
  note sn = ps_split_Nil [OF assms(2) Nil(4)]
  have kn: "pu_known prefix cur ?d" using Nil(3) sn by (auto simp: pu_cur_ok_def split: if_splits)
  have N: "msg_buffer_size c \<noteq> 0" using assms(2) by (auto simp: ps_valid_def)
  have lb: "remain \<le> length (drop off raw)" "?d = take remain (drop off raw)" using Nil(1) by (simp_all add: chunk_def)
  have pk: "\<exists>n cur'. peek_msg c prefix suffix cur remain (drop off raw) = (n, cur') \<and> pu_known prefix cur' ?d"
  proof (cases ok)
    case True
    then show ?thesis
      using peek_msg_char(3) [OF assms(2) kn, of "drop off raw"] sn Nil(2) len lb N by auto
  next
    case False
    then show ?thesis
      using peek_msg_char(1) [OF assms(2) kn, of "drop off raw"] sn Nil(2) len lb by auto
  qed
  then obtain n cur' where q: "peek_msg c prefix suffix cur remain (drop off raw) = (n, cur')" "pu_known prefix cur' ?d"
    by blast
  then have "pu_parse_loop c prefix suffix st raw off cur remain can = (off, cur', remain, can)"
    by (subst pu_parse_loop.simps) (auto simp: Let_def pu_known_def)
  then show ?case using q sn len by (simp add: ps_bodies_def)
next
  case (Cons f fs)
  let ?d = "chunk off remain raw"
  have len: "length ?d = remain" using Cons.prems(1) by (simp add: length_chunk)
  note sc = ps_split_Cons [OF assms(2) Cons.prems(4)]
  have b: "length prefix + length suffix \<le> length f" "length f \<le> remain" "length f \<le> msg_buffer_size c" "0 < length f"
    using ps_first_bounds [OF assms(2), of ?d] ps_first_pos [OF assms(2), of ?d] sc len by auto
  have ne: "length f \<noteq> npos" "length f \<noteq> 0" using valid_cfg_neq_npos [OF assms(1) b(3)] b(4) by auto
  have pk: "peek_msg c prefix suffix cur remain (drop off raw) = (0, length f)"
  proof (cases "pu_known prefix cur ?d")
    case True
    then show ?thesis
      using peek_msg_char(2) [OF assms(2) True, of "drop off raw" "length f"] sc Cons.prems(1,2) len by (simp add: chunk_def)
  next
    case False
    then have "cur = length f" using Cons.prems(3) sc by (simp add: pu_cur_ok_def)
    then show ?thesis using ne by (simp add: peek_msg_known)
  qed
  have dr: "drop (length f) ?d = chunk (off + length f) (remain - length f) raw" using b(2) by (simp add: chunk_drop)
  have ck: "chunk off (length f) raw = f" using sc b(2) by (metis chunk_def min.absorb1 take_take)
  let ?m = "if length prefix + length suffix < length f
    then can @ [if st then chunk (off + length prefix) (length f - (length prefix + length suffix)) raw else chunk off (length f) raw]
    else can"
  have m: "?m = can @ ps_bodies prefix suffix st [f]"
  proof -
    have "chunk (off + length prefix) (length f - (length prefix + length suffix)) raw =
          chunk (length prefix) (length f - (length prefix + length suffix)) (chunk off (length f) raw)"
      using b(1) by (simp add: chunk_def take_drop add.commute)
    then show ?thesis using ck by (simp add: ps_bodies_def)
  qed
  have h: "off + length f + (remain - length f) \<le> length raw" "remain - length f \<le> msg_buffer_size c"
    "pu_cur_ok c prefix suffix npos (chunk (off + length f) (remain - length f) raw)"
    "ps_split c prefix suffix (chunk (off + length f) (remain - length f) raw) = (fs, r, ok)"
    using Cons.prems(1,2) b(2) sc dr by (auto simp: pu_cur_ok_def)
  obtain cur' where ih: "pu_parse_loop c prefix suffix st raw (off + length f) npos (remain - length f) ?m =
      (off + length f + length (concat fs), cur', length r, ?m @ ps_bodies prefix suffix st fs)"
    "pu_known prefix cur' r"
    using Cons.IH [OF h, of ?m] by blast
  have "pu_parse_loop c prefix suffix st raw off cur remain can =
        pu_parse_loop c prefix suffix st raw (off + length f) npos (remain - length f) ?m"
    using pk ne by (subst pu_parse_loop.simps) (simp add: Let_def)
  moreover have "ps_bodies prefix suffix st (f # fs) = ps_bodies prefix suffix st [f] @ ps_bodies prefix suffix st fs"
    by (simp add: ps_bodies_def)
  ultimately show ?case using ih m by auto
qed

section \<open>parse_msg and the reader's core contract\<close>

definition pu_live :: "ps_unpacker \<Rightarrow> nat \<Rightarrow> bytes" where
  "pu_live u tr = take (pu_remain u + tr) (pu_raw u)"

definition pu_ready :: "ext_cfg \<Rightarrow> ps_unpacker \<Rightarrow> nat \<Rightarrow> bool" where
  "pu_ready c u tr \<longleftrightarrow> valid_cfg c \<and> ps_valid c (pu_prefix u) (pu_suffix u) \<and>
     length (pu_raw u) = msg_buffer_size c \<and> pu_remain u + tr \<le> msg_buffer_size c \<and>
     pu_cur_ok c (pu_prefix u) (pu_suffix u) (pu_cur u) (pu_live u tr)"

definition pu_wf :: "ext_cfg \<Rightarrow> ps_unpacker \<Rightarrow> nat \<Rightarrow> bool" where
  "pu_wf c u tr \<longleftrightarrow> pu_ready c u tr \<and> pu_known (pu_prefix u) (pu_cur u) (pu_live u tr) \<and>
     ps_split c (pu_prefix u) (pu_suffix u) (pu_live u 0) = ([], pu_live u 0, True)"

definition ps_decode :: "ext_cfg \<Rightarrow> bytes \<Rightarrow> bytes \<Rightarrow> bool \<Rightarrow> bytes \<Rightarrow> bytes list \<times> bytes \<times> bool" where
  "ps_decode c prefix suffix st bs =
     (let (fs, r, ok) = ps_split c prefix suffix bs in (ps_bodies prefix suffix st fs, r, ok))"

lemma ps_split_concat_pos:
  assumes "ps_valid c prefix suffix" "ps_split c prefix suffix bs = (fs, r, ok)"
  shows "length (concat fs) = 0 \<longleftrightarrow> fs = []"
proof (cases fs)
  case (Cons f gs)
  then show ?thesis using ps_split_Cons [OF assms(1)] assms(2) ps_first_pos [OF assms(1), of bs "length f"] by auto
qed simp

lemma pu_parse_msg_split:
  assumes "pu_ready c u tr" "ps_split c (pu_prefix u) (pu_suffix u) (pu_live u tr) = (fs, r, ok)"
  shows "\<exists>u'. pu_parse_msg c tr u = (fs \<noteq> [], u', ps_bodies (pu_prefix u) (pu_suffix u) (pu_stripped u) fs) \<and>
           pu_live u' 0 = r \<and> pu_remain u' = length r \<and> pu_prefix u' = pu_prefix u \<and> pu_suffix u' = pu_suffix u \<and>
           pu_stripped u' = pu_stripped u \<and> length (pu_raw u') = msg_buffer_size c \<and>
           pu_known (pu_prefix u) (pu_cur u') r \<and> (ok \<longrightarrow> pu_wf c u' 0)"
proof -
  let ?n = "pu_remain u + tr" and ?raw = "pu_raw u" and ?p = "pu_prefix u" and ?s = "pu_suffix u"
  have v: "valid_cfg c" "ps_valid c ?p ?s" "length ?raw = msg_buffer_size c" "?n \<le> msg_buffer_size c"
    "pu_cur_ok c ?p ?s (pu_cur u) (take ?n ?raw)"
    using assms(1) by (auto simp: pu_ready_def pu_live_def)
  have sp: "ps_split c ?p ?s (take ?n ?raw) = (fs, r, ok)" using assms(2) by (simp add: pu_live_def)
  obtain cur' where l: "pu_parse_loop c ?p ?s (pu_stripped u) ?raw 0 (pu_cur u) ?n [] =
      (length (concat fs), cur', length r, ps_bodies ?p ?s (pu_stripped u) fs)" "pu_known ?p cur' r"
    using pu_parse_loop_split [OF v(1,2), of 0 ?n ?raw "pu_cur u" fs r ok "pu_stripped u" "[]"] v(3-5) sp by auto
  have cat: "take ?n ?raw = concat fs @ r" using ps_split_concat [OF sp] by simp
  have len: "length (concat fs) + length r = ?n" using cat v(3,4) by (metis length_append length_take min.absorb2)
  have ck: "chunk (length (concat fs)) (length r) ?raw = r"
  proof -
    have "chunk (length (concat fs)) (length r) ?raw = chunk (length (concat fs)) (length r) (take ?n ?raw)"
      using len by (simp add: chunk_take)
    then show ?thesis using cat by (simp add: chunk_def)
  qed
  have pos: "length (concat fs) = 0 \<longleftrightarrow> fs = []" by (rule ps_split_concat_pos [OF v(2) sp])
  define raw' where "raw' = (if fs \<noteq> [] \<and> 0 < length r then write_at 0 r ?raw else ?raw)"
  have raw': "length raw' = msg_buffer_size c" "take (length r) raw' = r"
    using len v(3,4) cat by (auto simp: raw'_def length_write_at take_write_at_len)
  let ?u' = "u\<lparr>pu_raw := raw', pu_cur := cur', pu_remain := length r\<rparr>"
  have P: "pu_parse_msg c tr u = (fs \<noteq> [], ?u', ps_bodies ?p ?s (pu_stripped u) fs)"
    using l(1) pos ck by (auto simp: pu_parse_msg_def raw'_def)
  have "pu_wf c ?u' 0" if ok
    using v raw' l(2) len ps_split_rest [OF sp] that by (simp add: pu_wf_def pu_ready_def pu_live_def pu_cur_ok_def)
  then show ?thesis using P raw' l(2) by (intro exI [of _ ?u']) (simp add: pu_live_def)
qed

lemma pu_completion_char:
  assumes "pu_wf c u tr" "pu_completion_condition c False tr u = (n, u')"
  shows "pu_ready c u' tr \<and> u' = u\<lparr>pu_cur := pu_cur u'\<rparr> \<and>
    (n = 0 \<or> n = msg_buffer_size c) \<and>
    (0 < n \<longleftrightarrow> ps_split c (pu_prefix u) (pu_suffix u) (pu_live u tr) = ([], pu_live u tr, True)) \<and>
    (0 < n \<longrightarrow> pu_wf c u' tr \<and> pu_remain u + tr < msg_buffer_size c)"
proof -
  let ?d = "pu_live u tr" and ?p = "pu_prefix u" and ?s = "pu_suffix u"
  have v: "valid_cfg c" "ps_valid c ?p ?s" "length (pu_raw u) = msg_buffer_size c" "pu_remain u + tr \<le> msg_buffer_size c"
    "pu_known ?p (pu_cur u) ?d"
    using assms(1) by (auto simp: pu_wf_def pu_ready_def)
  have len: "length ?d = pu_remain u + tr" using v(3,4) by (simp add: pu_live_def)
  have d: "length ?d \<le> msg_buffer_size c" "length ?d \<le> length (pu_raw u)" "?d = take (length ?d) (pu_raw u)"
    using len v(3,4) by (simp_all add: pu_live_def)
  have N: "0 < msg_buffer_size c" using v(2) by (auto simp: ps_valid_def)
  obtain cur' where pk: "peek_msg c ?p ?s (pu_cur u) (length ?d) (pu_raw u) = (n, cur')" "u' = u\<lparr>pu_cur := cur'\<rparr>"
    using assms(2) len by (auto simp: pu_completion_condition_def split: prod.splits)
  note ch = peek_msg_char [OF v(2,5) d]
  have base: "pu_ready c u' tr \<longleftrightarrow> pu_cur_ok c ?p ?s cur' ?d" "pu_live u' tr = ?d" "pu_live u' 0 = pu_live u 0"
    using pk(2) v by (simp_all add: pu_ready_def pu_live_def)
  show ?thesis
  proof (cases "ps_bad c ?p ?s ?d")
    case True
    then have "n = 0" "pu_known ?p cur' ?d" using ch(1) pk(1) by auto
    then show ?thesis using base pk(2) True ps_split_bad [OF v(2) True] ps_bad_not_Nil [OF v(2)]
      by (auto simp: pu_cur_ok_def)
  next
    case False
    show ?thesis
    proof (cases "ps_first c ?p ?s ?d")
      case (Some l)
      then have "n = 0" "cur' = l" using ch(2) [OF False Some] pk(1) by auto
      then show ?thesis using base pk(2) False Some ps_split_some [OF v(2) False Some]
        by (auto simp: pu_cur_ok_def split: prod.splits)
    next
      case None
      then have n: "n = msg_buffer_size c" "pu_known ?p cur' ?d" using ch(3) [OF False None] pk(1) by auto
      have "pu_remain u + tr < msg_buffer_size c" using False None len by (auto simp: ps_bad_def)
      then show ?thesis using base n N pk(2) assms(1) ps_split_none [OF v(2) False None]
        by (auto simp: pu_cur_ok_def pu_wf_def)
    qed
  qed
qed

lemma pu_wf_reset:
  assumes "valid_cfg c" "ps_valid c (pu_prefix u) (pu_suffix u)" "length (pu_raw u) = msg_buffer_size c"
  shows "pu_wf c (pu_reset u) 0"
  using assms ps_bad_not_Nil [OF assms(2)]
  by (simp add: pu_wf_def pu_ready_def pu_reset_def pu_cur_ok_def pu_known_def pu_live_def ps_split_none ps_first_def)

interpretation pu: unpacker_core
  "pu_completion_condition c False" "pu_parse_msg c" "pu_room c" pu_recv pu_reset
  "\<lambda>u tr. pu_wf c u tr \<and> pu_prefix u = prefix \<and> pu_suffix u = suffix \<and> pu_stripped u = st"
  "\<lambda>u tr. pu_ready c u tr \<and> pu_prefix u = prefix \<and> pu_suffix u = suffix \<and> pu_stripped u = st"
  pu_live "ps_decode c prefix suffix st"
  for c prefix suffix st
proof (unfold_locales, goal_cases)
  case 1
  then show ?case
    by (simp add: ps_decode_def ps_bodies_def ps_split.simps [of c prefix suffix "[]"] ps_first_def)
next
  case (2 xs ms r ys ms' r' ok)
  then show ?case
    by (auto simp: ps_decode_def ps_bodies_def ps_split_append split: prod.splits)
next
  case (3 xs ms r ys)
  show ?case
  proof (cases "ps_valid c prefix suffix")
    case True
    then show ?thesis using 3 by (auto simp: ps_decode_def ps_split_append_bad split: prod.splits)
  next
    case False
    then show ?thesis using 3 by (auto simp: ps_decode_def ps_split.simps ps_bodies_def split: if_splits)
  qed
next
  case (4 u tr)
  then show ?case by (simp add: pu_wf_def)
next
  case (5 u tr n u')
  then have "pu_wf c u tr" by simp
  from pu_completion_char [OF this 5(3)] 5 show ?case
    by (cases u, cases u') (auto simp: pu_live_def pu_room_def)
next
  case (6 u tr n u')
  then have "pu_wf c u tr" by simp
  from pu_completion_char [OF this 6(3)] 6 show ?case
    by (cases u, cases u') (auto simp: ps_decode_def ps_bodies_def)
next
  case (7 u n u')
  then have w: "pu_wf c u 0" by simp
  from pu_completion_char [OF this 7(2)] w show ?case by (auto simp: pu_wf_def pu_room_def)
next
  case (8 u tr bs)
  then have u: "length (pu_raw u) = msg_buffer_size c" "pu_remain u + tr + length bs \<le> length (pu_raw u)"
    by (auto simp: pu_wf_def pu_ready_def pu_room_def)
  then have live: "pu_live (pu_recv tr bs u) (tr + length bs) = pu_live u tr @ bs"
    by (simp add: pu_live_def pu_recv_def take_write_at add.assoc [symmetric])
  have kn: "pu_known prefix (pu_cur u) (pu_live u tr)" using 8 by (auto simp: pu_wf_def)
  have "take (pu_remain u) (write_at (pu_remain u + tr) bs (pu_raw u)) = take (pu_remain u) (pu_raw u)"
    using u by (intro take_le_write_at) auto
  then have "pu_live (pu_recv tr bs u) 0 = pu_live u 0" by (simp add: pu_live_def pu_recv_def)
  then show ?case using 8 u live pu_known_append [OF kn, of bs]
    by (auto simp: pu_wf_def pu_ready_def pu_cur_ok_def pu_room_def pu_recv_def length_write_at)
next
  case (9 u tr u' ms)
  then have r: "pu_ready c u tr" by simp
  obtain fs q where s: "ps_split c (pu_prefix u) (pu_suffix u) (pu_live u tr) = (fs, q, True)"
    using 9 by (cases "ps_split c (pu_prefix u) (pu_suffix u) (pu_live u tr)") (auto simp: ps_decode_def)
  from pu_parse_msg_split [OF r s] 9 s show ?case by (auto simp: ps_decode_def)
next
  case (10 u tr ok u' ms)
  then have r: "pu_ready c u tr" by simp
  obtain fs q b where s: "ps_split c (pu_prefix u) (pu_suffix u) (pu_live u tr) = (fs, q, b)"
    by (cases "ps_split c (pu_prefix u) (pu_suffix u) (pu_live u tr)")
  from pu_parse_msg_split [OF r s] 10 s show ?case by (auto simp: ps_decode_def)
next
  case (11 u tr n u')
  then have w: "pu_wf c u tr" by simp
  note ch = pu_completion_char [OF w 11(3)]
  obtain fs q where s: "ps_split c (pu_prefix u) (pu_suffix u) (pu_live u tr) = (fs, q, True)"
    using 11 by (cases "ps_split c (pu_prefix u) (pu_suffix u) (pu_live u tr)") (auto simp: ps_decode_def)
  have "\<not> 0 < n" using ch 11(4) w by (auto simp: pu_room_def)
  then have "fs \<noteq> []" using ch s ps_split_rest [OF s] ps_split_concat [OF s] by auto
  moreover have "pu_prefix u' = pu_prefix u" "pu_suffix u' = pu_suffix u" "pu_live u' tr = pu_live u tr"
    using ch by (cases u, cases u', auto simp: pu_live_def)+
  ultimately show ?case using pu_parse_msg_split [of c u' tr fs q True] ch s by auto
next
  case (12 u tr u' ms)
  then have r: "pu_ready c u tr" by simp
  obtain fs q b where s: "ps_split c (pu_prefix u) (pu_suffix u) (pu_live u tr) = (fs, q, b)"
    by (cases "ps_split c (pu_prefix u) (pu_suffix u) (pu_live u tr)")
  note p = pu_parse_msg_split [OF r s]
  have "fs = []" "ms = []" using p 12(3) by (auto simp: ps_bodies_def)
  moreover have "pu_wf c (pu_reset u') 0" by (rule pu_wf_reset) (use r p 12(3) in \<open>auto simp: pu_ready_def\<close>)
  ultimately show ?case using p 12 s by (auto simp: ps_decode_def ps_bodies_def pu_reset_def pu_live_def)
qed

section \<open>Reassembly, and where it stops\<close>

abbreviation pu_session :: "ext_cfg \<Rightarrow> ps_unpacker reader \<Rightarrow> ps_unpacker reader \<Rightarrow> bool" where
  "pu_session c \<equiv> reader_step (pu_completion_condition c False) (pu_parse_msg c) (pu_room c) pu_recv pu_reset"

definition pu_run :: "ext_cfg \<Rightarrow> bytes \<Rightarrow> bytes \<Rightarrow> bool \<Rightarrow> bytes \<Rightarrow> bytes \<Rightarrow> ps_unpacker reader \<Rightarrow> bool" where
  "pu_run c prefix suffix st raw s r \<longleftrightarrow> length raw = msg_buffer_size c \<and>
     (pu_session c)\<^sup>*\<^sup>* (reader_init (pu_prefix_suffix prefix suffix (pu_init raw st)) s) r"

lemma pu_wf_init:
  assumes "valid_cfg c" "ps_valid c prefix suffix" "length raw = msg_buffer_size c"
  shows "pu_wf c (pu_prefix_suffix prefix suffix (pu_init raw st)) 0"
  using assms ps_bad_not_Nil [OF assms(2)]
  by (simp add: pu_wf_def pu_ready_def pu_prefix_suffix_def pu_init_def pu_cur_ok_def pu_live_def ps_split_none ps_first_def)

lemma pu_run_quiet_ex:
  "length raw = msg_buffer_size c \<Longrightarrow> \<exists>r. pu_run c prefix suffix st raw s r \<and> reader_quiet (pu_session c) r"
  using pu.reaches_quiet [of "reader_init (pu_prefix_suffix prefix suffix (pu_init raw st)) s" c]
  by (auto simp: pu_run_def reader_init_def)

text \<open>
  C30. Prefix/suffix reassembly: on every stream that is a sequence of well-formed messages a session
  reports no unpacking error, whatever it delivered is a prefix of the messages in order, and once it
  is quiet it delivered all of them.
\<close>

theorem prefix_suffix_reassembly:
  assumes "valid_cfg c" "ps_valid c prefix suffix" "pu_run c prefix suffix st raw s r"
    and "ps_decode c prefix suffix st s = (ms, rest, True)"
  shows "rd_bad r = 0 \<and> (\<exists>more. ms = rd_out r @ more) \<and>
         (reader_quiet (pu_session c) r \<longrightarrow> rd_out r = ms \<and> rd_stream r = [])"
proof -
  let ?u = "pu_prefix_suffix prefix suffix (pu_init raw st)"
  have run: "(pu_session c)\<^sup>*\<^sup>* (reader_init ?u s) r" "length raw = msg_buffer_size c"
    using assms(3) by (auto simp: pu_run_def)
  have w: "pu_wf c ?u 0 \<and> pu_prefix ?u = prefix \<and> pu_suffix ?u = suffix \<and> pu_stripped ?u = st"
    "pu_live ?u 0 = []"
    using pu_wf_init [OF assms(1,2) run(2)]
    by (simp_all add: pu_prefix_suffix_def pu_init_def pu_live_def)
  have ok: "snd (snd (ps_decode c prefix suffix st s))" using assms(4) by simp
  show ?thesis
    using pu.never_fails [OF run(1) w ok] pu.core_verdict_ok [OF run(1) w ok] assms(4) by auto
qed

lemma ps_demo: "ps_decode tiny_cfg [1] [2] True [1, 7, 2, 1, 2, 1, 9, 2] = ([[7], [9]], [], True)"
  by code_simp

theorem prefix_suffix_reassembly_witness:
  "\<exists>r. pu_run tiny_cfg [1] [2] True (replicate 8 0) [1, 7, 2, 1, 2, 1, 9, 2] r \<and> rd_out r = [[7], [9]]"
proof -
  obtain r where r: "pu_run tiny_cfg [1] [2] True (replicate 8 0) [1, 7, 2, 1, 2, 1, 9, 2] r"
    "reader_quiet (pu_session tiny_cfg) r"
    using pu_run_quiet_ex [of "replicate 8 0" tiny_cfg "[1]" "[2]" True "[1, 7, 2, 1, 2, 1, 9, 2]"] by auto
  have "ps_valid tiny_cfg [1] [2]" by (simp add: ps_valid_def)
  from prefix_suffix_reassembly [OF valid_cfg_tiny this r(1) ps_demo] r show ?thesis by auto
qed

text \<open>
  A bad message behind a good one in the same read stops the link silently: \<open>parse_msg\<close> reports
  success, so \<open>on_unpack_error\<close> is not called, and the next read is complete with 0 bytes, after
  which \<open>recv_handler\<close> issues no further read: the session is stuck, still open, whatever the peer
  sends.
\<close>

theorem prefix_suffix_stalls:
  assumes "pu_ready c u tr" "ps_split c (pu_prefix u) (pu_suffix u) (pu_live u tr) = (f # fs, rest, False)"
  shows "\<exists>u' ms. pu_parse_msg c tr u = (True, u', ms) \<and> fst (pu_completion_condition c False 0 u') = 0 \<and>
           reader_quiet (pu_session c) \<lparr>rd_unp = u', rd_tr = 0, rd_stream = s, rd_out = out, rd_bad = n, rd_end = Reading\<rparr>"
proof -
  let ?p = "pu_prefix u" and ?s = "pu_suffix u"
  obtain u' ms where p: "pu_parse_msg c tr u = (True, u', ms)" "pu_live u' 0 = rest" "pu_remain u' = length rest"
    "pu_prefix u' = ?p" "pu_suffix u' = ?s" "length (pu_raw u') = msg_buffer_size c" "pu_known ?p (pu_cur u') rest"
    using pu_parse_msg_split [OF assms] by auto
  have v: "ps_valid c ?p ?s" "length (pu_live u tr) \<le> msg_buffer_size c" using assms(1) by (auto simp: pu_ready_def pu_live_def)
  have bad: "ps_bad c ?p ?s rest" using ps_split_Nil [OF v(1) ps_split_rest [OF assms(2)]] by simp
  have "length rest \<le> length (pu_live u tr)" using ps_split_concat [OF assms(2)] by (metis length_append le_add2)
  then have len: "length rest \<le> msg_buffer_size c" using v(2) by simp
  have "rest = take (length rest) (pu_raw u')" using p(2,3) by (simp add: pu_live_def)
  then obtain cur' where "peek_msg c ?p ?s (pu_cur u') (length rest) (pu_raw u') = (0, cur')"
    using peek_msg_char(1) [OF v(1) p(7) len _ _ bad, of "pu_raw u'"] len p(6) by auto
  then have z: "fst (pu_completion_condition c False 0 u') = 0"
    using p(3-5) by (simp add: pu_completion_condition_def split: prod.splits)
  have "rd_end t = Read_error"
    if "pu_session c \<lparr>rd_unp = u', rd_tr = 0, rd_stream = s, rd_out = out, rd_bad = n, rd_end = Reading\<rparr> t" for t
    using that z by (cases rule: reader_step.cases) auto
  then show ?thesis using p(1) z by (auto simp: reader_quiet_def)
qed

theorem prefix_suffix_stalls_witness:
  "\<exists>u' ms. pu_parse_msg tiny_cfg 5
      \<lparr>pu_raw = [1, 7, 2, 9, 9, 0, 0, 0], pu_prefix = [1], pu_suffix = [2], pu_cur = npos, pu_remain = 0, pu_stripped = True\<rparr>
      = (True, u', ms) \<and> fst (pu_completion_condition tiny_cfg False 0 u') = 0"
proof -
  let ?u = "\<lparr>pu_raw = [1, 7, 2, 9, 9, 0, 0, 0], pu_prefix = [1], pu_suffix = [2], pu_cur = npos, pu_remain = 0, pu_stripped = True\<rparr>"
  have "pu_ready tiny_cfg ?u 5" by (simp add: pu_ready_def ps_valid_def pu_cur_ok_def)
  moreover have "ps_split tiny_cfg [1] [2] [1, 7, 2, 9, 9] = ([1, 7, 2] # [], [9, 9], False)"
    by code_simp
  then have "ps_split tiny_cfg (pu_prefix ?u) (pu_suffix ?u) (pu_live ?u 5) = ([1, 7, 2] # [], [9, 9], False)"
    by (simp add: pu_live_def)
  ultimately show ?thesis using prefix_suffix_stalls [of tiny_cfg ?u 5 "[1, 7, 2]" "[]" "[9, 9]" "[]" "[]"] by blast
qed

end
