(* ===== verification/Msg_Queue.thy ===== *)
theory Msg_Queue
  imports Packer
begin

text \<open>
  The message queue of \<open>container.h\<close>, which every socket uses for sending and receiving: a list
  with a running total of its size in bytes, kept in a wrapping \<open>size_t\<close>. Each public operation
  holds the mutex for its whole body, so operations are atomic. The size of an item is a parameter
  \<open>sz\<close> (\<open>item.size()\<close>), and whether the allocation of a list node succeeds is an argument.
\<close>

record 'a msg_queue =
  q_items :: "'a list"
  q_total :: nat

definition q_new :: "'a msg_queue" where
  "q_new = \<lparr>q_items = [], q_total = 0\<rparr>"

definition q_size_in_byte :: "'a msg_queue \<Rightarrow> nat" where
  "q_size_in_byte q = q_total q"

definition q_empty :: "'a msg_queue \<Rightarrow> bool" where
  "q_empty q \<longleftrightarrow> q_items q = []"

definition q_clear :: "'a msg_queue \<Rightarrow> 'a msg_queue" where
  "q_clear q = q\<lparr>q_items := [], q_total := 0\<rparr>"

definition q_swap :: "('a \<Rightarrow> nat) \<Rightarrow> 'a list \<Rightarrow> 'a msg_queue \<Rightarrow> 'a list \<times> 'a msg_queue" where
  "q_swap sz can q =
     (let size_in_byte = get_size_in_byte sz can
      in (q_items q, q\<lparr>q_items := can, q_total := size_in_byte\<rparr>))"

definition enqueue :: "('a \<Rightarrow> nat) \<Rightarrow> bool \<Rightarrow> 'a \<Rightarrow> 'a msg_queue \<Rightarrow> bool \<times> 'a msg_queue" where
  "enqueue sz alloc item q =
     (if alloc then (True, q\<lparr>q_items := q_items q @ [item], q_total := size_add (q_total q) (sz item)\<rparr>)
      else (False, q))"

definition enqueue_front :: "('a \<Rightarrow> nat) \<Rightarrow> bool \<Rightarrow> 'a \<Rightarrow> 'a msg_queue \<Rightarrow> bool \<times> 'a msg_queue" where
  "enqueue_front sz alloc item q =
     (if alloc then (True, q\<lparr>q_items := item # q_items q, q_total := size_add (q_total q) (sz item)\<rparr>)
      else (False, q))"

definition move_items_in :: "('a \<Rightarrow> nat) \<Rightarrow> 'a list \<Rightarrow> nat \<Rightarrow> 'a msg_queue \<Rightarrow> 'a msg_queue" where
  "move_items_in sz src size_in_byte q =
     (let len = (if size_in_byte = 0 then get_size_in_byte sz src else size_in_byte)
      in q\<lparr>q_items := q_items q @ src, q_total := size_add (q_total q) len\<rparr>)"

definition move_items_in_front :: "('a \<Rightarrow> nat) \<Rightarrow> 'a list \<Rightarrow> nat \<Rightarrow> 'a msg_queue \<Rightarrow> 'a msg_queue" where
  "move_items_in_front sz src size_in_byte q =
     (let len = (if size_in_byte = 0 then get_size_in_byte sz src else size_in_byte)
      in q\<lparr>q_items := src @ q_items q, q_total := size_add (q_total q) len\<rparr>)"

definition try_dequeue :: "('a \<Rightarrow> nat) \<Rightarrow> 'a msg_queue \<Rightarrow> 'a option \<times> 'a msg_queue" where
  "try_dequeue sz q =
     (case q_items q of [] \<Rightarrow> (None, q)
      | item # rest \<Rightarrow> (Some item, q\<lparr>q_items := rest, q_total := size_sub (q_total q) (sz item)\<rparr>))"

text \<open>The protected \<open>move_items_out(dest, end_iter, size)\<close>: \<open>n\<close> is the position of \<open>end_iter\<close>.\<close>

definition move_items_out_iter :: "nat \<Rightarrow> nat \<Rightarrow> 'a msg_queue \<Rightarrow> 'a list \<times> 'a msg_queue" where
  "move_items_out_iter n len q =
     (take n (q_items q), q\<lparr>q_items := drop n (q_items q), q_total := size_sub (q_total q) len\<rparr>)"

text \<open>The loops that look for \<open>end_iter\<close> and add up the sizes up to it.\<close>

fun scan_num :: "('a \<Rightarrow> nat) \<Rightarrow> nat \<Rightarrow> nat \<Rightarrow> nat \<Rightarrow> nat \<Rightarrow> 'a list \<Rightarrow> nat \<times> nat" where
  "scan_num sz max_item_num index n len [] = (n, len)"
| "scan_num sz max_item_num index n len (item # rest) =
     (if index + 1 > max_item_num then (n, len)
      else scan_num sz max_item_num (index + 1) (n + 1) (size_add len (sz item)) rest)"

fun scan_bytes :: "('a \<Rightarrow> nat) \<Rightarrow> nat \<Rightarrow> nat \<Rightarrow> nat \<Rightarrow> 'a list \<Rightarrow> nat \<times> nat" where
  "scan_bytes sz max_size_in_byte n len [] = (n, len)"
| "scan_bytes sz max_size_in_byte n len (item # rest) =
     (let len' = size_add len (sz item)
      in if len' \<ge> max_size_in_byte then (n + 1, len')
         else scan_bytes sz max_size_in_byte (n + 1) len' rest)"

definition move_items_out_num :: "('a \<Rightarrow> nat) \<Rightarrow> nat \<Rightarrow> 'a msg_queue \<Rightarrow> 'a list \<times> 'a msg_queue" where
  "move_items_out_num sz max_item_num q =
     (if max_item_num = npos then (q_items q, q\<lparr>q_items := [], q_total := 0\<rparr>)
      else if max_item_num > 0
      then let (n, len) = scan_num sz max_item_num 0 0 0 (q_items q) in move_items_out_iter n len q
      else ([], q))"

definition move_items_out_bytes :: "('a \<Rightarrow> nat) \<Rightarrow> nat \<Rightarrow> 'a msg_queue \<Rightarrow> 'a list \<times> 'a msg_queue" where
  "move_items_out_bytes sz max_size_in_byte q =
     (if max_size_in_byte = npos then move_items_out_num sz npos q
      else let (n, len) = scan_bytes sz max_size_in_byte 0 0 (q_items q) in move_items_out_iter n len q)"

section \<open>The total is the size of the items\<close>

definition bytes_of :: "('a \<Rightarrow> nat) \<Rightarrow> 'a list \<Rightarrow> nat" where
  "bytes_of sz xs = sum_list (map sz xs)"

lemma bytes_of_simps [simp]:
  "bytes_of sz [] = 0" "bytes_of sz (x # xs) = sz x + bytes_of sz xs"
  "bytes_of sz (xs @ ys) = bytes_of sz xs + bytes_of sz ys"
  by (simp_all add: bytes_of_def)

definition q_inv :: "('a \<Rightarrow> nat) \<Rightarrow> 'a msg_queue \<Rightarrow> bool" where
  "q_inv sz q \<longleftrightarrow> q_total q = bytes_of sz (q_items q) mod SIZE_MOD"

lemma q_inv_exact: "q_inv sz q \<Longrightarrow> bytes_of sz (q_items q) \<le> SIZE_MAX \<Longrightarrow> q_size_in_byte q = bytes_of sz (q_items q)"
  by (simp add: q_inv_def q_size_in_byte_def)

lemma get_size_bytes_of: "get_size_in_byte sz xs = bytes_of sz xs mod SIZE_MOD"
  by (simp add: get_size_in_byte_sum bytes_of_def)

lemma size_add_mods: "size_add (a mod SIZE_MOD) (b mod SIZE_MOD) = (a + b) mod SIZE_MOD"
  by (simp add: size_add_def mod_add_eq)

lemma size_sub_mods: "size_sub ((b + s) mod SIZE_MOD) (b mod SIZE_MOD) = s mod SIZE_MOD"
proof -
  have "size_sub ((b mod SIZE_MOD + s) mod SIZE_MOD) (b mod SIZE_MOD) = s mod SIZE_MOD"
    by (rule size_sub_add_cancel) simp
  then show ?thesis by (simp add: mod_add_left_eq)
qed

lemma scan_num_char:
  "scan_num sz m index n (a mod SIZE_MOD) xs =
   (n + min (m - index) (length xs), (a + bytes_of sz (take (m - index) xs)) mod SIZE_MOD)"
proof (induction sz m index n "a mod SIZE_MOD" xs arbitrary: a rule: scan_num.induct)
  case (1 sz m index n)
  then show ?case by simp
next
  case (2 sz m index n item rest)
  show ?case
  proof (cases "index + 1 > m")
    case True
    then show ?thesis by simp
  next
    case False
    have "size_add (a mod SIZE_MOD) (sz item) = (a + sz item) mod SIZE_MOD"
      by (simp add: size_add_def mod_add_left_eq)
    then have "scan_num sz m (index + 1) (n + 1) (size_add (a mod SIZE_MOD) (sz item)) rest =
        (n + 1 + min (m - (index + 1)) (length rest), (a + sz item + bytes_of sz (take (m - (index + 1)) rest)) mod SIZE_MOD)"
      using "2.hyps" [OF False, of "a + sz item"] by simp
    moreover have "m - index = Suc (m - (index + 1))" using False by simp
    ultimately show ?thesis using False by (simp add: add.assoc)
  qed
qed

lemma scan_bytes_char:
  "scan_bytes sz m n (a mod SIZE_MOD) xs = (n + k, s) \<Longrightarrow>
   k \<le> length xs \<and> s = (a + bytes_of sz (take k xs)) mod SIZE_MOD \<and> (xs \<noteq> [] \<longrightarrow> 0 < k)"
proof (induction sz m n "a mod SIZE_MOD" xs arbitrary: a k rule: scan_bytes.induct)
  case (1 sz m n)
  then show ?case by simp
next
  case (2 sz m n item rest)
  have e: "size_add (a mod SIZE_MOD) (sz item) = (a + sz item) mod SIZE_MOD"
    by (simp add: size_add_def mod_add_left_eq)
  show ?case
  proof (cases "size_add (a mod SIZE_MOD) (sz item) \<ge> m")
    case True
    then show ?thesis using "2.prems" e by (auto simp: Let_def)
  next
    case False
    have sb: "scan_bytes sz m (n + 1) ((a + sz item) mod SIZE_MOD) rest = (n + k, s)"
      using "2.prems" False e by (simp add: Let_def)
    have ge: "n' \<le> fst (scan_bytes sz m n' b ys)" for n' b ys
      by (induction sz m n' b ys rule: scan_bytes.induct) (auto simp: Let_def intro: Suc_leD)
    have "n + 1 \<le> n + k" using ge [of "n + 1" "(a + sz item) mod SIZE_MOD" rest] sb by simp
    then obtain k' where k': "k = Suc k'" by (cases k) auto
    then show ?thesis using "2.hyps" [OF e [symmetric], of k'] False e sb by (simp add: add.assoc)
  qed
qed

lemma q_inv_drop:
  assumes "q_inv sz q"
  shows "size_sub (q_total q) (bytes_of sz (take k (q_items q)) mod SIZE_MOD) = bytes_of sz (drop k (q_items q)) mod SIZE_MOD"
proof -
  have "bytes_of sz (q_items q) = bytes_of sz (take k (q_items q)) + bytes_of sz (drop k (q_items q))"
    by (metis append_take_drop_id bytes_of_simps(3))
  then show ?thesis using assms by (simp add: q_inv_def size_sub_mods)
qed

section \<open>The operations as a specification on lists\<close>

text \<open>Whether an allocation succeeds and what size a caller announces are part of the operation.\<close>

datatype 'a q_op =
    Op_enqueue bool 'a
  | Op_enqueue_front bool 'a
  | Op_move_in "'a list" nat
  | Op_move_in_front "'a list" nat
  | Op_try_dequeue
  | Op_move_out_num nat
  | Op_move_out_bytes nat
  | Op_swap "'a list"
  | Op_clear

fun q_exec :: "('a \<Rightarrow> nat) \<Rightarrow> 'a q_op \<Rightarrow> 'a msg_queue \<Rightarrow> 'a list \<times> 'a msg_queue" where
  "q_exec sz (Op_enqueue alloc x) q = ([], snd (enqueue sz alloc x q))"
| "q_exec sz (Op_enqueue_front alloc x) q = ([], snd (enqueue_front sz alloc x q))"
| "q_exec sz (Op_move_in xs n) q = ([], move_items_in sz xs n q)"
| "q_exec sz (Op_move_in_front xs n) q = ([], move_items_in_front sz xs n q)"
| "q_exec sz Op_try_dequeue q = (case try_dequeue sz q of (None, q') \<Rightarrow> ([], q') | (Some x, q') \<Rightarrow> ([x], q'))"
| "q_exec sz (Op_move_out_num n) q = move_items_out_num sz n q"
| "q_exec sz (Op_move_out_bytes n) q = move_items_out_bytes sz n q"
| "q_exec sz (Op_swap can) q = q_swap sz can q"
| "q_exec sz Op_clear q = ([], q_clear q)"

text \<open>The caller's duty: an announced size is 0 (please count) or right.\<close>

fun q_op_ok :: "('a \<Rightarrow> nat) \<Rightarrow> 'a q_op \<Rightarrow> bool" where
  "q_op_ok sz (Op_move_in xs n) = (n = 0 \<or> n = bytes_of sz xs)"
| "q_op_ok sz (Op_move_in_front xs n) = (n = 0 \<or> n = bytes_of sz xs)"
| "q_op_ok sz _ = True"

text \<open>The shortest non-empty prefix of at least \<open>m\<close> bytes, or everything.\<close>

fun bytes_prefix :: "('a \<Rightarrow> nat) \<Rightarrow> nat \<Rightarrow> 'a list \<Rightarrow> nat" where
  "bytes_prefix sz m [] = 0"
| "bytes_prefix sz m (x # xs) = (if m \<le> sz x then 1 else Suc (bytes_prefix sz (m - sz x) xs))"

fun q_spec :: "('a \<Rightarrow> nat) \<Rightarrow> 'a q_op \<Rightarrow> 'a list \<Rightarrow> 'a list \<times> 'a list" where
  "q_spec sz (Op_enqueue alloc x) xs = ([], if alloc then xs @ [x] else xs)"
| "q_spec sz (Op_enqueue_front alloc x) xs = ([], if alloc then x # xs else xs)"
| "q_spec sz (Op_move_in ys n) xs = ([], xs @ ys)"
| "q_spec sz (Op_move_in_front ys n) xs = ([], ys @ xs)"
| "q_spec sz Op_try_dequeue xs = (take 1 xs, drop 1 xs)"
| "q_spec sz (Op_move_out_num n) xs = (if n = npos then (xs, []) else (take n xs, drop n xs))"
| "q_spec sz (Op_move_out_bytes n) xs =
     (if n = npos then (xs, []) else (take (bytes_prefix sz n xs) xs, drop (bytes_prefix sz n xs) xs))"
| "q_spec sz (Op_swap can) xs = (xs, can)"
| "q_spec sz Op_clear xs = ([], [])"

lemma scan_bytes_prefix:
  "a + bytes_of sz xs \<le> SIZE_MAX \<Longrightarrow> a < m \<or> a = 0 \<Longrightarrow>
   scan_bytes sz m n a xs = (n + bytes_prefix sz (m - a) xs, a + bytes_of sz (take (bytes_prefix sz (m - a) xs) xs))"
proof (induction xs arbitrary: a n)
  case Nil
  then show ?case by simp
next
  case (Cons x xs)
  have e: "size_add a (sz x) = a + sz x" using Cons.prems(1) by (intro size_add_exact) simp
  show ?case
  proof (cases "m \<le> a + sz x")
    case True
    then show ?thesis using e Cons.prems(2) by (auto simp: Let_def)
  next
    case False
    have "scan_bytes sz m (n + 1) (a + sz x) xs =
        (n + 1 + bytes_prefix sz (m - (a + sz x)) xs,
         a + sz x + bytes_of sz (take (bytes_prefix sz (m - (a + sz x)) xs) xs))"
      using Cons.IH [of "a + sz x" "n + 1"] Cons.prems(1) False by simp
    moreover have "\<not> m - a \<le> sz x" using False by linarith
    ultimately show ?thesis using e False by (simp add: Let_def)
  qed
qed

lemma q_exec_spec:
  assumes "q_inv sz q" "q_op_ok sz op" "bytes_of sz (q_items q) \<le> SIZE_MAX" "q_exec sz op q = (out, q')"
  shows "q_inv sz q' \<and> q_spec sz op (q_items q) = (out, q_items q')"
proof (cases op)
  case (Op_move_out_num n)
  show ?thesis
  proof (cases "n = npos \<or> n = 0")
    case True
    then show ?thesis using assms Op_move_out_num by (auto simp: move_items_out_num_def q_inv_def)
  next
    case False
    have sc: "scan_num sz n 0 0 0 (q_items q) = (min n (length (q_items q)), bytes_of sz (take n (q_items q)) mod SIZE_MOD)"
      using scan_num_char [of sz n 0 0 0 "q_items q"] by simp
    have mn: "take (min n (length (q_items q))) (q_items q) = take n (q_items q)"
      "drop (min n (length (q_items q))) (q_items q) = drop n (q_items q)"
      by (simp_all add: min_def)
    show ?thesis
      using False assms sc mn Op_move_out_num q_inv_drop [OF assms(1), of n]
      by (auto simp: move_items_out_num_def move_items_out_iter_def q_inv_def)
  qed
next
  case (Op_move_out_bytes n)
  show ?thesis
  proof (cases "n = npos")
    case True
    then show ?thesis using assms Op_move_out_bytes
      by (auto simp: move_items_out_bytes_def move_items_out_num_def q_inv_def)
  next
    case False
    let ?k = "bytes_prefix sz n (q_items q)"
    have sc: "scan_bytes sz n 0 0 (q_items q) = (?k, bytes_of sz (take ?k (q_items q)))"
      using scan_bytes_prefix [of 0 sz "q_items q" n 0] assms(3) by simp
    have "bytes_of sz (take ?k (q_items q)) \<le> bytes_of sz (q_items q)"
      by (metis append_take_drop_id bytes_of_simps(3) le_add1)
    then have "bytes_of sz (take ?k (q_items q)) mod SIZE_MOD = bytes_of sz (take ?k (q_items q))"
      using assms(3) by simp
    then show ?thesis
      using False assms sc Op_move_out_bytes q_inv_drop [OF assms(1), of ?k]
      by (auto simp: move_items_out_bytes_def move_items_out_iter_def q_inv_def)
  qed
next
  case Op_try_dequeue
  show ?thesis
    using assms Op_try_dequeue q_inv_drop [OF assms(1), of 1]
    by (cases "q_items q") (auto simp: try_dequeue_def q_inv_def size_sub_def size_add_def)
qed (use assms in \<open>auto simp: enqueue_def enqueue_front_def move_items_in_def move_items_in_front_def q_swap_def
       q_clear_def q_inv_def get_size_bytes_of size_add_mods size_add_mod_left Let_def size_add_def mod_simps
       add.commute split: if_splits\<close>)

fun q_run :: "('a \<Rightarrow> nat) \<Rightarrow> 'a q_op list \<Rightarrow> 'a msg_queue \<Rightarrow> 'a list list \<times> 'a msg_queue" where
  "q_run sz [] q = ([], q)"
| "q_run sz (op # ops) q =
     (let (out, q1) = q_exec sz op q; (outs, q2) = q_run sz ops q1 in (out # outs, q2))"

fun q_spec_run :: "('a \<Rightarrow> nat) \<Rightarrow> 'a q_op list \<Rightarrow> 'a list \<Rightarrow> 'a list list \<times> 'a list" where
  "q_spec_run sz [] xs = ([], xs)"
| "q_spec_run sz (op # ops) xs =
     (let (out, ys) = q_spec sz op xs; (outs, zs) = q_spec_run sz ops ys in (out # outs, zs))"

text \<open>No intermediate content is larger than \<open>size_t\<close> can count.\<close>

fun q_fits :: "('a \<Rightarrow> nat) \<Rightarrow> 'a q_op list \<Rightarrow> 'a list \<Rightarrow> bool" where
  "q_fits sz [] xs = (bytes_of sz xs \<le> SIZE_MAX)"
| "q_fits sz (op # ops) xs = (bytes_of sz xs \<le> SIZE_MAX \<and> q_op_ok sz op \<and> q_fits sz ops (snd (q_spec sz op xs)))"

text \<open>
  The queue implements its specification on lists: for every sequence of operations, failed
  allocations included, what comes out and what stays inside is what the list operations give, and
  \<open>size_in_byte\<close> is always the exact size of the content.
\<close>

theorem queue_run_refines:
  assumes "q_inv sz q" "q_fits sz ops (q_items q)" "q_run sz ops q = (outs, q')"
  shows "q_spec_run sz ops (q_items q) = (outs, q_items q') \<and> q_inv sz q' \<and>
         q_size_in_byte q' = bytes_of sz (q_items q')"
  using assms
proof (induction ops arbitrary: q outs)
  case Nil
  then show ?case by (simp add: q_inv_exact)
next
  case (Cons op ops)
  obtain out q1 where e: "q_exec sz op q = (out, q1)" by (cases "q_exec sz op q")
  obtain outs2 q2 where r: "q_run sz ops q1 = (outs2, q2)" by (cases "q_run sz ops q1")
  have s: "q_inv sz q1" "q_spec sz op (q_items q) = (out, q_items q1)"
    using q_exec_spec [OF Cons.prems(1) _ _ e] Cons.prems(2) by auto
  have o: "outs = out # outs2" "q2 = q'" using Cons.prems(3) e r by auto
  have "q_fits sz ops (q_items q1)" using s(2) Cons.prems(2) by simp
  from Cons.IH [OF s(1) this] r o s(2) show ?case by simp
qed

theorem queue_run_refines_witness:
  "q_spec_run length [Op_enqueue True ''ab'', Op_enqueue_front True ''c'', Op_move_out_bytes 1] [] =
     ([[], [], [''c'']], [''ab'']) \<and>
   q_size_in_byte (snd (q_run length [Op_enqueue True ''ab'', Op_enqueue_front True ''c'', Op_move_out_bytes 1] q_new)) = 2"
proof -
  have f: "q_fits length [Op_enqueue True ''ab'', Op_enqueue_front True ''c'', Op_move_out_bytes 1] (q_items q_new)"
    by (simp add: q_new_def SIZE_MAX_def)
  have i: "q_inv length (q_new :: string msg_queue)" by (simp add: q_inv_def q_new_def)
  have s: "q_spec_run length [Op_enqueue True ''ab'', Op_enqueue_front True ''c'', Op_move_out_bytes 1] [] =
     ([[], [], [''c'']], [''ab''])"
    by (simp add: SIZE_MAX_def)
  from queue_run_refines [OF i f prod.collapse [symmetric]] s show ?thesis by (auto simp: q_new_def)
qed

section \<open>The queue as its clients see it\<close>

text \<open>What the sockets rely on: items leave in the order they were put in.\<close>

datatype 'a q_event = Enq 'a | Deq

fun enqueued :: "'a q_event list \<Rightarrow> 'a list" where
  "enqueued [] = []"
| "enqueued (Enq x # es) = x # enqueued es"
| "enqueued (Deq # es) = enqueued es"

locale fifo_queue =
  fixes items :: "'q \<Rightarrow> 'a list"
    and enq :: "'a \<Rightarrow> 'q \<Rightarrow> 'q"
    and deq :: "'q \<Rightarrow> 'a option \<times> 'q"
  assumes items_enq: "items (enq x q) = items q @ [x]"
    and deq_None: "deq q = (None, q') \<Longrightarrow> items q = [] \<and> items q' = []"
    and deq_Some: "deq q = (Some x, q') \<Longrightarrow> items q = x # items q'"
begin

fun events :: "'a q_event list \<Rightarrow> 'q \<Rightarrow> 'a list \<times> 'q" where
  "events [] q = ([], q)"
| "events (Enq x # es) q = events es (enq x q)"
| "events (Deq # es) q =
     (case deq q of (None, q') \<Rightarrow> events es q'
      | (Some x, q') \<Rightarrow> let (outs, q'') = events es q' in (x # outs, q''))"

lemma events_fifo: "events es q = (outs, q') \<Longrightarrow> outs @ items q' = items q @ enqueued es"
proof (induction es q arbitrary: outs rule: events.induct)
  case (1 q)
  then show ?case by simp
next
  case (2 x es q)
  then show ?case by (simp add: items_enq)
next
  case (3 es q)
  obtain o1 q1 where d: "deq q = (o1, q1)" by (cases "deq q")
  show ?case
  proof (cases o1)
    case None
    then show ?thesis using 3 d deq_None [of q q1] by auto
  next
    case (Some x)
    obtain outs1 q2 where e: "events es q1 = (outs1, q2)" by (cases "events es q1")
    have o: "outs = x # outs1" "q2 = q'" using "3.prems" d e Some by auto
    have "outs1 @ items q' = items q1 @ enqueued es"
      using "3.IH"(2) [OF d [symmetric] Some] e o by simp
    then show ?thesis using d Some o deq_Some [of q x q1] by auto
  qed
qed

end

interpretation lq: fifo_queue q_items "\<lambda>x q. snd (enqueue sz True x q)" "try_dequeue sz"
  for sz
  by unfold_locales (auto simp: enqueue_def try_dequeue_def split: list.splits)

text \<open>A producer and a consumer on one queue.\<close>

fun q_events :: "('a \<Rightarrow> nat) \<Rightarrow> 'a q_event list \<Rightarrow> 'a msg_queue \<Rightarrow> 'a list \<times> 'a msg_queue" where
  "q_events sz [] q = ([], q)"
| "q_events sz (Enq x # es) q = q_events sz es (snd (enqueue sz True x q))"
| "q_events sz (Deq # es) q =
     (case try_dequeue sz q of (None, q') \<Rightarrow> q_events sz es q'
      | (Some x, q') \<Rightarrow> let (outs, q'') = q_events sz es q' in (x # outs, q''))"

lemma q_events_eq: "q_events sz es q = lq.events sz es q"
  by (induction sz es q rule: q_events.induct) (auto split: prod.splits option.splits)

text \<open>
  First in, first out, nothing lost or doubled: for every interleaving of producers and
  consumers on one queue, what the consumers got, followed by what is still queued, is what was
  queued before followed by what the producers put in, in that order.
\<close>

theorem msg_queue_fifo:
  "q_events sz es q = (outs, q') \<longrightarrow> outs @ q_items q' = q_items q @ enqueued es"
  using lq.events_fifo [of sz es q outs q'] by (simp add: q_events_eq)

theorem msg_queue_fifo_witness:
  "fst (q_events length [Enq ''a'', Enq ''bc'', Deq] q_new) = [''a'']"
proof -
  have "q_events length [Enq ''a'', Enq ''bc'', Deq] q_new = ([''a''], \<lparr>q_items = [''bc''], q_total = 2\<rparr>)"
    by (simp add: enqueue_def try_dequeue_def q_new_def size_add_def size_sub_def SIZE_MOD_def)
  moreover from this have "[''a''] @ [''bc''] = q_items q_new @ enqueued [Enq ''a'', Enq ''bc'', Deq]"
    using msg_queue_fifo [of length "[Enq ''a'', Enq ''bc'', Deq]" q_new "[''a'']"] by fastforce
  ultimately show ?thesis by simp
qed

end
