(* ===== verification/Ext_Util.thy ===== *)
theory Ext_Util
  imports Ascs_Prelude
begin

text \<open>
  Helpers: \<open>split_string\<close> and \<open>cpu_timer\<close> of \<open>ext/ext.h\<close>, and from \<open>base.h\<close> the
  \<open>statistic\<close> of a socket and the \<open>duration\<close> of \<open>ASCS_FULL_STATISTIC\<close>. Points in time and
  durations are clock ticks (\<open>int\<close>); the conversion of the timer to \<open>float\<close> is not modelled.
\<close>

section \<open>split_string\<close>

definition is_delim :: "char \<Rightarrow> bool" where
  "is_delim ch \<longleftrightarrow> ch = CHR '' '' \<or> ch = CHR 0x09"

text \<open>The loop: \<open>start\<close> is \<open>start_pos\<close>, \<open>None\<close> for \<open>npos\<close>; \<open>fuel\<close> counts the characters left.\<close>

fun split_loop :: "string \<Rightarrow> nat \<Rightarrow> nat option \<Rightarrow> string list \<Rightarrow> nat \<Rightarrow> string list" where
  "split_loop str pos start re 0 =
     (case start of Some p \<Rightarrow> re @ [chunk p (length str - p) str] | None \<Rightarrow> re)"
| "split_loop str pos start re (Suc fuel) =
     (if is_delim (str ! pos)
      then (case start of
              Some p \<Rightarrow> split_loop str (pos + 1) None (re @ [chunk p (pos - p) str]) fuel
            | None \<Rightarrow> split_loop str (pos + 1) None re fuel)
      else (case start of
              None \<Rightarrow> split_loop str (pos + 1) (Some pos) re fuel
            | Some p \<Rightarrow> split_loop str (pos + 1) (Some p) re fuel))"

definition split_string :: "string \<Rightarrow> string list" where
  "split_string str = split_loop str 0 None [] (length str)"

text \<open>The specification: the maximal runs of other characters.\<close>

function tokens :: "string \<Rightarrow> string list" where
  "tokens s =
     (let t = dropWhile is_delim s
      in if t = [] then [] else takeWhile (\<lambda>ch. \<not> is_delim ch) t # tokens (dropWhile (\<lambda>ch. \<not> is_delim ch) t))"
  by pat_completeness auto

termination
proof (relation "measure length", goal_cases)
  case 1
  then show ?case by simp
next
  case (2 s t)
  then have d: "t = dropWhile is_delim s" "t \<noteq> []" by simp_all
  then have "\<not> is_delim (hd t)" using hd_dropWhile [of is_delim s] by simp
  then obtain a l where t: "t = a # l" "\<not> is_delim a" using d(2) by (cases t) simp_all
  then have "length (dropWhile (\<lambda>ch. \<not> is_delim ch) t) < length t"
    by (simp add: le_imp_less_Suc length_dropWhile_le)
  moreover have "length t \<le> length s" using 2 by (simp add: length_dropWhile_le)
  ultimately show ?case by simp
qed

declare tokens.simps [simp del]

lemma tokens_delim: "is_delim ch \<Longrightarrow> tokens (ch # s) = tokens s"
  by (subst (1 2) tokens.simps) simp

lemma tokens_Nil [simp]: "tokens [] = []"
  by (simp add: tokens.simps)

lemma tokens_token:
  assumes "w \<noteq> []" "\<forall>ch\<in>set w. \<not> is_delim ch" "s = [] \<or> is_delim (hd s)"
  shows "tokens (w @ s) = w # tokens s"
proof -
  have d: "dropWhile is_delim (w @ s) = w @ s" using assms(1,2) by (cases w) auto
  have t: "takeWhile (\<lambda>ch. \<not> is_delim ch) (w @ s) = w" "dropWhile (\<lambda>ch. \<not> is_delim ch) (w @ s) = s"
    using assms(2,3) by (cases s; simp add: takeWhile_append2 dropWhile_append2)+
  show ?thesis using assms(1) d t by (subst tokens.simps) (simp add: Let_def)
qed

lemma split_loop_tokens:
  assumes "pos + fuel = length str"
    and "case start of None \<Rightarrow> True | Some p \<Rightarrow> p < pos \<and> (\<forall>ch\<in>set (chunk p (pos - p) str). \<not> is_delim ch)"
  shows "split_loop str pos start re fuel =
         re @ tokens (drop (case start of None \<Rightarrow> pos | Some p \<Rightarrow> p) str)"
  using assms
proof (induction str pos start re fuel rule: split_loop.induct)
  case (1 str pos start re)
  show ?case
  proof (cases start)
    case None
    then show ?thesis using 1 by simp
  next
    case (Some p)
    have "chunk p (length str - p) str = drop p str" by (simp add: chunk_def)
    then show ?thesis using 1 Some tokens_token [of "drop p str" "[]"] by simp
  qed
next
  case (2 str pos start re fuel)
  have lt: "pos < length str" using 2(5) by simp
  then have dp: "drop pos str = str ! pos # drop (pos + 1) str" by (simp add: Cons_nth_drop_Suc)
  have chunk_Suc: "chunk p (pos + 1 - p) str = chunk p (pos - p) str @ [str ! pos]" if "p \<le> pos" for p
    using that lt by (simp add: chunk_def Suc_diff_le take_Suc_conv_app_nth)
  show ?case
  proof (cases "is_delim (str ! pos)")
    case True
    show ?thesis
    proof (cases start)
      case None
      then show ?thesis using 2(1) [OF True None] 2(5) True dp by (simp add: tokens_delim)
    next
      case (Some p)
      have p: "p < pos" "\<forall>ch\<in>set (chunk p (pos - p) str). \<not> is_delim ch" using 2(6) Some by auto
      have "drop p str = chunk p (pos - p) str @ drop pos str"
        using p(1) by (simp add: chunk_def) (metis append_take_drop_id drop_drop le_add_diff_inverse2 less_imp_le)
      moreover have "chunk p (pos - p) str \<noteq> []" using p(1) lt by (simp add: chunk_def)
      ultimately have "tokens (drop p str) = chunk p (pos - p) str # tokens (drop pos str)"
        using tokens_token [of "chunk p (pos - p) str" "drop pos str"] p(2) True dp by simp
      then show ?thesis using 2(2) [OF True Some] 2(5) True Some dp by (simp add: tokens_delim)
    qed
  next
    case False
    show ?thesis
    proof (cases start)
      case None
      then show ?thesis using 2(3) [OF False None] 2(5) False lt by (simp add: chunk_def take_Suc_conv_app_nth hd_drop_conv_nth take_Suc)
    next
      case (Some p)
      then show ?thesis using 2(4) [OF False Some] 2(5,6) False chunk_Suc [of p] by auto
    qed
  qed
qed

lemma filter_split: "filter P t = takeWhile P t @ filter P (dropWhile P t)"
  by (induction t) auto

lemma tokens_props:
  "(\<forall>t\<in>set (tokens s). t \<noteq> [] \<and> (\<forall>ch\<in>set t. \<not> is_delim ch)) \<and> concat (tokens s) = filter (\<lambda>ch. \<not> is_delim ch) s"
proof (induction s rule: tokens.induct)
  case (1 s)
  let ?t = "dropWhile is_delim s"
  have f: "filter (\<lambda>ch. \<not> is_delim ch) s = filter (\<lambda>ch. \<not> is_delim ch) ?t" by (induction s) auto
  show ?case
  proof (cases "?t = []")
    case True
    then show ?thesis using f by (simp add: tokens.simps [of s])
  next
    case False
    let ?w = "takeWhile (\<lambda>ch. \<not> is_delim ch) ?t" and ?r = "dropWhile (\<lambda>ch. \<not> is_delim ch) ?t"
    have e: "tokens s = ?w # tokens ?r" using False by (simp add: tokens.simps [of s] Let_def)
    have "\<not> is_delim (hd ?t)" using hd_dropWhile [of is_delim s] False by simp
    then have "?w \<noteq> []" using False by (cases ?t) simp_all
    have w: "\<forall>ch\<in>set ?w. \<not> is_delim ch"
      by (intro ballI) (drule set_takeWhileD, simp)
    have ih: "(\<forall>t\<in>set (tokens ?r). t \<noteq> [] \<and> (\<forall>ch\<in>set t. \<not> is_delim ch))"
      "concat (tokens ?r) = filter (\<lambda>ch. \<not> is_delim ch) ?r"
      using 1 [OF refl False] by blast+
    have "concat (tokens s) = ?w @ filter (\<lambda>ch. \<not> is_delim ch) ?r" by (simp only: e concat.simps ih(2))
    also have "\<dots> = filter (\<lambda>ch. \<not> is_delim ch) s" unfolding f by (rule filter_split [symmetric])
    finally have "concat (tokens s) = filter (\<lambda>ch. \<not> is_delim ch) s" .
    moreover have "\<forall>t\<in>set (tokens s). t \<noteq> [] \<and> (\<forall>ch\<in>set t. \<not> is_delim ch)"
    proof
      fix t assume "t \<in> set (tokens s)"
      then consider "t = ?w" | "t \<in> set (tokens ?r)" unfolding e list.set insert_iff by (elim disjE)
      then show "t \<noteq> [] \<and> (\<forall>ch\<in>set t. \<not> is_delim ch)"
      proof cases
        case 1
        show ?thesis unfolding 1 by (rule conjI [OF \<open>?w \<noteq> []\<close> w])
      next
        case 2
        show ?thesis by (rule bspec [OF ih(1) 2])
      qed
    qed
    ultimately show ?thesis by blast
  qed
qed

text \<open>
  \<open>split_string\<close> returns the maximal runs of characters that are neither blank nor tab, in
  order: each token is non-empty and free of delimiters, and the tokens together are the string
  without its delimiters.
\<close>

theorem split_string_tokens:
  "split_string s = tokens s \<and> (\<forall>t\<in>set (split_string s). t \<noteq> [] \<and> (\<forall>ch\<in>set t. \<not> is_delim ch)) \<and>
   concat (split_string s) = filter (\<lambda>ch. \<not> is_delim ch) s"
proof -
  have "split_string s = tokens s" using split_loop_tokens [of 0 "length s" s None "[]"] by (simp add: split_string_def)
  then show ?thesis using tokens_props [of s] by simp
qed

theorem split_string_tokens_witness: "concat (split_string ''a bc '') = ''abc''"
  by (rule trans [OF conjunct2 [OF conjunct2 [OF split_string_tokens]]]) (simp add: is_delim_def)

section \<open>cpu_timer\<close>

record cpu_timer =
  ct_started :: bool
  ct_elapsed :: int
  ct_start_time :: int

definition ct_start :: "int \<Rightarrow> cpu_timer \<Rightarrow> cpu_timer" where
  "ct_start now t = (if ct_started t then t else t\<lparr>ct_started := True, ct_start_time := now\<rparr>)"

definition ct_new :: "int \<Rightarrow> cpu_timer" where
  "ct_new now = ct_start now \<lparr>ct_started = False, ct_elapsed = 0, ct_start_time = 0\<rparr>"

definition ct_restart :: "int \<Rightarrow> cpu_timer \<Rightarrow> cpu_timer" where
  "ct_restart now t = ct_start now (t\<lparr>ct_started := False, ct_elapsed := 0\<rparr>)"

definition ct_resume :: "int \<Rightarrow> cpu_timer \<Rightarrow> cpu_timer" where
  "ct_resume now t = ct_start now t"

definition ct_stop :: "int \<Rightarrow> cpu_timer \<Rightarrow> cpu_timer" where
  "ct_stop now t =
     (if \<not> ct_started t then t
      else t\<lparr>ct_started := False, ct_elapsed := ct_elapsed t + (now - ct_start_time t)\<rparr>)"

definition ct_stopped :: "cpu_timer \<Rightarrow> bool" where
  "ct_stopped t \<longleftrightarrow> \<not> ct_started t"

definition ct_read :: "int \<Rightarrow> cpu_timer \<Rightarrow> int" where
  "ct_read now t = (if \<not> ct_started t then ct_elapsed t else now - ct_start_time t)"

text \<open>A timer that is stopped and resumed in turn, at the given points in time.\<close>

fun ct_intervals :: "(int \<times> int) list \<Rightarrow> cpu_timer \<Rightarrow> cpu_timer" where
  "ct_intervals [] t = t"
| "ct_intervals ((b, e) # is) t = ct_intervals is (ct_stop e (ct_resume b t))"

lemma ct_intervals_sum:
  "ct_stopped t \<Longrightarrow> ct_stopped (ct_intervals is t) \<and>
   ct_elapsed (ct_intervals is t) = ct_elapsed t + (\<Sum>(b, e)\<leftarrow>is. e - b)"
  by (induction "is" t rule: ct_intervals.induct) (auto simp: ct_stop_def ct_resume_def ct_start_def ct_stopped_def)

text \<open>
  A stopped timer shows the time it has run altogether, over all the intervals since it was
  restarted; while it runs again after \<open>resume\<close> it shows the current interval only and leaves out
  what it had accumulated.
\<close>

theorem cpu_timer_reading:
  assumes "ct_stopped t"
  shows "ct_read now (ct_intervals is t) = ct_elapsed t + (\<Sum>(b, e)\<leftarrow>is. e - b) \<and>
         ct_read now (ct_resume b (ct_intervals is t)) = now - b"
  using ct_intervals_sum [OF assms, of "is"]
  by (auto simp: ct_read_def ct_resume_def ct_start_def ct_stopped_def)

theorem cpu_timer_reading_witness:
  "ct_read 99 (ct_intervals [(10, 15), (20, 22)] (ct_stop 5 (ct_new 0))) = 12 \<and>
   ct_read 31 (ct_resume 30 (ct_intervals [(10, 15), (20, 22)] (ct_stop 5 (ct_new 0)))) = 1"
proof -
  have t: "ct_stopped (ct_stop 5 (ct_new 0))" "ct_elapsed (ct_stop 5 (ct_new 0)) = 5"
    by (simp_all add: ct_stopped_def ct_stop_def ct_new_def ct_start_def)
  show ?thesis
    using cpu_timer_reading [OF t(1), of 99 "[(10, 15), (20, 22)]" 30]
      cpu_timer_reading [OF t(1), of 31 "[(10, 15), (20, 22)]" 30] t(2) by simp
qed

section \<open>statistic\<close>

text \<open>The counters are 64 bits wide and wrap. The durations of \<open>ASCS_FULL_STATISTIC\<close> follow below.\<close>

record statistic =
  st_send_msg_sum :: "64 word"
  st_send_byte_sum :: "64 word"
  st_recv_msg_sum :: "64 word"
  st_recv_byte_sum :: "64 word"
  st_establish_time :: int
  st_break_time :: int
  st_last_send_time :: int
  st_last_recv_time :: int

definition st_reset_number :: "statistic \<Rightarrow> statistic" where
  "st_reset_number s =
     s\<lparr>st_send_msg_sum := 0, st_send_byte_sum := 0, st_recv_msg_sum := 0, st_recv_byte_sum := 0,
       st_establish_time := 0, st_break_time := 0, st_last_send_time := 0, st_last_recv_time := 0\<rparr>"

definition st_add :: "statistic \<Rightarrow> statistic \<Rightarrow> statistic" where
  "st_add s other =
     s\<lparr>st_send_msg_sum := st_send_msg_sum s + st_send_msg_sum other,
       st_send_byte_sum := st_send_byte_sum s + st_send_byte_sum other,
       st_recv_msg_sum := st_recv_msg_sum s + st_recv_msg_sum other,
       st_recv_byte_sum := st_recv_byte_sum s + st_recv_byte_sum other\<rparr>"

definition st_sub :: "statistic \<Rightarrow> statistic \<Rightarrow> statistic" where
  "st_sub s other =
     s\<lparr>st_send_msg_sum := st_send_msg_sum s - st_send_msg_sum other,
       st_send_byte_sum := st_send_byte_sum s - st_send_byte_sum other,
       st_recv_msg_sum := st_recv_msg_sum s - st_recv_msg_sum other,
       st_recv_byte_sum := st_recv_byte_sum s - st_recv_byte_sum other\<rparr>"

lemma st_add_sub: "st_sub (st_add s other) other = s"
  by (simp add: st_sub_def st_add_def)

record duration =
  du_total :: int
  du_min :: int
  du_max :: int
  du_num :: int

definition du_reset :: "duration \<Rightarrow> duration" where
  "du_reset d = d\<lparr>du_total := 0, du_min := 0, du_max := 0, du_num := 0\<rparr>"

definition du_zero :: duration where
  "du_zero = \<lparr>du_total = 0, du_min = 0, du_max = 0, du_num = 0\<rparr>"

definition du_get_avg :: "duration \<Rightarrow> int" where
  "du_get_avg d = (if du_num d = 0 then du_total d else sgn (du_total d) * (\<bar>du_total d\<bar> div du_num d))"

definition du_add_sample :: "duration \<Rightarrow> int \<Rightarrow> duration" where
  "du_add_sample d other =
     d\<lparr>du_total := du_total d + other, du_num := du_num d + 1,
       du_max := (if du_max d < other then other else du_max d),
       du_min := (if du_min d = 0 \<or> du_min d > other then other else du_min d)\<rparr>"

definition du_add :: "duration \<Rightarrow> duration \<Rightarrow> duration" where
  "du_add d other =
     d\<lparr>du_total := du_total d + du_total other, du_num := du_num d + du_num other,
       du_max := (if du_max d < du_max other then du_max other else du_max d),
       du_min := (if du_min d = 0 \<or> du_min d > du_min other then du_min other else du_min d)\<rparr>"

definition du_sub :: "duration \<Rightarrow> duration \<Rightarrow> duration" where
  "du_sub d other = d\<lparr>du_total := du_total d - du_total other, du_num := du_num d - du_num other\<rparr>"

definition du_of :: "int list \<Rightarrow> duration" where
  "du_of xs = foldl du_add_sample du_zero xs"

lemma du_of_snoc: "du_of (xs @ [x]) = du_add_sample (du_of xs) x"
  by (simp add: du_of_def)

lemma du_add_sample_pos:
  "0 < du_min d \<Longrightarrow> du_add_sample d x =
   d\<lparr>du_total := du_total d + x, du_min := min x (du_min d), du_max := max x (du_max d), du_num := du_num d + 1\<rparr>"
  by (simp add: du_add_sample_def min_def max_def)

lemma du_add_pos:
  "0 < du_min d \<Longrightarrow> du_add d e =
   d\<lparr>du_total := du_total d + du_total e, du_min := min (du_min d) (du_min e), du_max := max (du_max d) (du_max e),
     du_num := du_num d + du_num e\<rparr>"
  by (simp add: du_add_def min_def max_def)

lemma du_of_char:
  "xs \<noteq> [] \<Longrightarrow> \<forall>x\<in>set xs. 0 < x \<Longrightarrow> 0 < Min (set xs) \<and>
   du_of xs = \<lparr>du_total = sum_list xs, du_min = Min (set xs), du_max = Max (set xs), du_num = int (length xs)\<rparr>"
proof (induction xs rule: rev_induct)
  case Nil
  then show ?case by simp
next
  case (snoc x xs)
  show ?case
  proof (cases "xs = []")
    case True
    then show ?thesis using snoc.prems by (simp add: du_of_def du_zero_def du_add_sample_def)
  next
    case False
    define lo hi where "lo = Min (set xs)" and "hi = Max (set xs)"
    have ih: "0 < lo" "du_of xs = \<lparr>du_total = sum_list xs, du_min = lo, du_max = hi, du_num = int (length xs)\<rparr>"
      using snoc False by (simp_all add: lo_def hi_def)
    have ins: "Min (set (xs @ [x])) = min x lo" "Max (set (xs @ [x])) = max x hi"
      using False by (simp_all add: lo_def hi_def)
    have "0 < x" using snoc.prems by simp
    then show ?thesis unfolding ins using ih by (simp add: du_of_snoc du_add_sample_pos)
  qed
qed

text \<open>
  A duration statistic that collected only positive samples shows their sum, number, minimum
  and maximum, and merging two that both have samples shows those of all samples together; merging
  one that has no samples yet sets the minimum to zero.
\<close>

theorem duration_statistics:
  assumes "xs \<noteq> []" "ys \<noteq> []" "\<forall>x\<in>set (xs @ ys). 0 < x"
  shows "du_of xs = \<lparr>du_total = sum_list xs, du_min = Min (set xs), du_max = Max (set xs), du_num = int (length xs)\<rparr> \<and>
         du_add (du_of xs) (du_of ys) = du_of (xs @ ys) \<and>
         du_min (du_add (du_of xs) du_zero) = 0"
proof -
  have p: "\<forall>x\<in>set xs. 0 < x" "\<forall>x\<in>set ys. 0 < x" using assms(3) by auto
  note c = du_of_char [OF assms(1) p(1)] du_of_char [OF assms(2) p(2)] du_of_char [OF _ assms(3)]
  have u: "Min (set (xs @ ys)) = min (Min (set xs)) (Min (set ys))" "Max (set (xs @ ys)) = max (Max (set xs)) (Max (set ys))"
    unfolding set_append using Min_Un [of "set xs" "set ys"] Max_Un [of "set xs" "set ys"] assms(1,2) by simp_all
  have "0 < du_min (du_of xs)" using c(1) by simp
  then have "du_add (du_of xs) (du_of ys) = du_of (xs @ ys)"
    using c(3) assms(1) unfolding u by (simp only: du_add_pos conjunct2 [OF c(1)] conjunct2 [OF c(2)]) simp
  moreover have "du_min (du_add (du_of xs) du_zero) = 0"
    using c(1) unfolding du_add_pos [OF \<open>0 < du_min (du_of xs)\<close>] by (simp add: du_zero_def min_def)
  ultimately show ?thesis using c(1) by blast
qed

theorem duration_statistics_witness: "du_min (du_of [3, 2]) = 2 \<and> du_min (du_add (du_of [3, 2]) du_zero) = 0"
  by (rule conjI [OF _ conjunct2 [OF conjunct2 [OF duration_statistics [of "[3, 2]" "[5]"]]]])
    (simp_all add: du_of_def du_zero_def du_add_sample_def)

end
