(* ===== verification/Timer.thy ===== *)
theory Timer
  imports Ascs_Prelude
begin

text \<open>
  The timers of \<open>timer.h\<close>. A timer object holds a list of timers found by id. Asio's timer is
  modelled by its outstanding waits: \<open>expires_after\<close> and \<open>cancel\<close> turn the waits that have not
  expired into handlers queued with \<open>operation_aborted\<close>; a wait that has expired is a queued handler
  they cannot reach any more. The sequence number that a handler captures is 8 bits wide. What a call
  back does to the timers while it runs, and its result, are the environment's choice.
\<close>

section \<open>The model\<close>

datatype timer_status = TIMER_CREATED | TIMER_STARTED | TIMER_CANCELED

record 'cb timer_info =
  ti_id :: nat
  ti_seq :: u8
  ti_status :: timer_status
  ti_interval :: "32 word"
  ti_call_back :: "'cb option"

text \<open>An outstanding wait: not expired, or a handler queued with or without an error.\<close>

datatype wait_state = Waiting | Queued bool

record wait =
  wt_id :: nat
  wt_prev_seq :: u8
  wt_state :: wait_state

record 'cb timer_obj =
  tm_can :: "'cb timer_info list"
  tm_waits :: "wait list"
  tm_refs :: "32 word"

definition tm_new :: "'cb timer_obj" where
  "tm_new = \<lparr>tm_can = [], tm_waits = [], tm_refs = 1\<rparr>"

definition ti_new :: "nat \<Rightarrow> 'cb timer_info" where
  "ti_new tid = \<lparr>ti_id = tid, ti_seq = - 1, ti_status = TIMER_CREATED, ti_interval = 0, ti_call_back = None\<rparr>"

definition find_timer :: "nat \<Rightarrow> 'cb timer_obj \<Rightarrow> 'cb timer_info option" where
  "find_timer tid t = find (\<lambda>ti. ti_id ti = tid) (tm_can t)"

fun upd_first :: "nat \<Rightarrow> ('cb timer_info \<Rightarrow> 'cb timer_info) \<Rightarrow> 'cb timer_info list \<Rightarrow> 'cb timer_info list" where
  "upd_first tid f [] = []"
| "upd_first tid f (ti # tis) = (if ti_id ti = tid then f ti # tis else ti # upd_first tid f tis)"

definition upd_timer :: "nat \<Rightarrow> ('cb timer_info \<Rightarrow> 'cb timer_info) \<Rightarrow> 'cb timer_obj \<Rightarrow> 'cb timer_obj" where
  "upd_timer tid f t = t\<lparr>tm_can := upd_first tid f (tm_can t)\<rparr>"

text \<open>\<open>ti.timer.cancel()\<close>, which \<open>expires_after\<close> does as well.\<close>

definition cancel_waits :: "nat \<Rightarrow> wait list \<Rightarrow> wait list" where
  "cancel_waits tid ws =
     map (\<lambda>w. if wt_id w = tid \<and> wt_state w = Waiting then w\<lparr>wt_state := Queued True\<rparr> else w) ws"

definition start_timer :: "nat \<Rightarrow> 'cb timer_obj \<Rightarrow> bool \<times> 'cb timer_obj" where
  "start_timer tid t =
     (case find_timer tid t of None \<Rightarrow> (False, t)
      | Some ti \<Rightarrow>
          if ti_call_back ti = None then (False, t)
          else
            let seq = ti_seq ti + 1;
                t1 = upd_timer tid (\<lambda>ti. ti\<lparr>ti_status := TIMER_STARTED, ti_seq := seq\<rparr>) t
            in (True, t1\<lparr>tm_waits := cancel_waits tid (tm_waits t1) @
                          [\<lparr>wt_id = tid, wt_prev_seq = seq, wt_state = Waiting\<rparr>]\<rparr>))"

definition stop_timer :: "nat \<Rightarrow> 'cb timer_obj \<Rightarrow> 'cb timer_obj" where
  "stop_timer tid t =
     (case find_timer tid t of None \<Rightarrow> t
      | Some ti \<Rightarrow>
          if ti_status ti = TIMER_STARTED
          then let t1 = upd_timer tid (\<lambda>ti. ti\<lparr>ti_status := TIMER_CANCELED\<rparr>) t
               in t1\<lparr>tm_waits := cancel_waits tid (tm_waits t1)\<rparr>
          else t)"

definition create_or_update_timer ::
  "bool \<Rightarrow> nat \<Rightarrow> 32 word \<Rightarrow> 'cb option \<Rightarrow> bool \<Rightarrow> 'cb timer_obj \<Rightarrow> bool \<times> 'cb timer_obj" where
  "create_or_update_timer alloc tid interval cb start t =
     (if find_timer tid t = None \<and> \<not> alloc then (False, t)
      else
        let t1 = (if find_timer tid t = None then t\<lparr>tm_can := tm_can t @ [ti_new tid]\<rparr> else t);
            t2 = upd_timer tid (\<lambda>ti. ti\<lparr>ti_interval := interval, ti_call_back := cb\<rparr>) t1
        in (True, if start then snd (start_timer tid t2) else t2))"

definition set_timer :: "bool \<Rightarrow> nat \<Rightarrow> 32 word \<Rightarrow> 'cb option \<Rightarrow> 'cb timer_obj \<Rightarrow> bool \<times> 'cb timer_obj" where
  "set_timer alloc tid interval cb t = create_or_update_timer alloc tid interval cb True t"

definition change_timer_status :: "nat \<Rightarrow> timer_status \<Rightarrow> 'cb timer_obj \<Rightarrow> bool \<times> 'cb timer_obj" where
  "change_timer_status tid status t =
     (if find_timer tid t = None then (False, t) else (True, upd_timer tid (\<lambda>ti. ti\<lparr>ti_status := status\<rparr>) t))"

definition change_timer_interval :: "nat \<Rightarrow> 32 word \<Rightarrow> 'cb timer_obj \<Rightarrow> bool \<times> 'cb timer_obj" where
  "change_timer_interval tid interval t =
     (if find_timer tid t = None then (False, t) else (True, upd_timer tid (\<lambda>ti. ti\<lparr>ti_interval := interval\<rparr>) t))"

definition change_timer_call_back :: "nat \<Rightarrow> 'cb option \<Rightarrow> 'cb timer_obj \<Rightarrow> bool \<times> 'cb timer_obj" where
  "change_timer_call_back tid cb t =
     (if find_timer tid t = None then (False, t) else (True, upd_timer tid (\<lambda>ti. ti\<lparr>ti_call_back := cb\<rparr>) t))"

definition is_timer :: "nat \<Rightarrow> 'cb timer_obj \<Rightarrow> bool" where
  "is_timer tid t = (case find_timer tid t of None \<Rightarrow> False | Some ti \<Rightarrow> ti_status ti = TIMER_STARTED)"

definition stop_all_timer :: "'cb timer_obj \<Rightarrow> 'cb timer_obj" where
  "stop_all_timer t = fold stop_timer (map ti_id (tm_can t)) t"

definition stop_all_timer_except :: "nat \<Rightarrow> 'cb timer_obj \<Rightarrow> 'cb timer_obj" where
  "stop_all_timer_except excepted t = fold stop_timer (filter (\<lambda>tid. excepted \<noteq> tid) (map ti_id (tm_can t))) t"

definition add_io_context_refs :: "32 word \<Rightarrow> 'cb timer_obj \<Rightarrow> 'cb timer_obj" where
  "add_io_context_refs count t = (if count > 0 then t\<lparr>tm_refs := tm_refs t + count\<rparr> else t)"

definition sub_io_context_refs :: "32 word \<Rightarrow> 'cb timer_obj \<Rightarrow> 'cb timer_obj" where
  "sub_io_context_refs count t =
     (if count > 0 \<and> tm_refs t \<ge> count then t\<lparr>tm_refs := tm_refs t - count\<rparr> else t)"

definition clear_io_context_refs :: "'cb timer_obj \<Rightarrow> 'cb timer_obj" where
  "clear_io_context_refs t = sub_io_context_refs (tm_refs t) t"

definition reset_io_context_refs :: "'cb timer_obj \<Rightarrow> 'cb timer_obj" where
  "reset_io_context_refs t = (if tm_refs t = 0 then add_io_context_refs 1 t else t)"

text \<open>What users and call backs do to the timers of the object; the call backs they set are not empty.\<close>

datatype 'cb timer_op =
    Start nat
  | Stop nat
  | Set_timer nat "32 word" 'cb
  | Stop_all
  | Stop_all_except nat
  | Cancel nat
  | Change_call_back nat 'cb
  | Clear_refs
  | Reset_refs

fun timer_do :: "'cb timer_op \<Rightarrow> 'cb timer_obj \<Rightarrow> 'cb timer_obj" where
  "timer_do (Start tid) t = snd (start_timer tid t)"
| "timer_do (Stop tid) t = stop_timer tid t"
| "timer_do (Set_timer tid i cb) t = snd (set_timer True tid i (Some cb) t)"
| "timer_do Stop_all t = stop_all_timer t"
| "timer_do (Stop_all_except tid) t = stop_all_timer_except tid t"
| "timer_do (Cancel tid) t = snd (change_timer_status tid TIMER_CANCELED t)"
| "timer_do (Change_call_back tid cb) t = snd (change_timer_call_back tid (Some cb) t)"
| "timer_do Clear_refs t = clear_io_context_refs t"
| "timer_do Reset_refs t = reset_io_context_refs t"

text \<open>
  The completion handler of a wait: \<open>ops\<close> and \<open>ret\<close> are what the call back does and returns when
  it is invoked; the first result is the call back that was invoked.
\<close>

definition wait_handler ::
  "'cb timer_op list \<Rightarrow> bool \<Rightarrow> bool \<Rightarrow> nat \<Rightarrow> u8 \<Rightarrow> 'cb timer_obj \<Rightarrow> 'cb option option \<times> 'cb timer_obj" where
  "wait_handler ops ret ec tid prev_seq t =
     (case find_timer tid t of None \<Rightarrow> (None, t)
      | Some ti \<Rightarrow>
          let invoked = (ti_status ti = TIMER_STARTED \<and> \<not> ec);
              t1 = (if invoked then fold timer_do ops t else t)
          in (if invoked then Some (ti_call_back ti) else None,
              if invoked \<and> ret \<and> is_timer tid t1 then snd (start_timer tid t1)
              else if map_option ti_seq (find_timer tid t1) = Some prev_seq
              then upd_timer tid (\<lambda>ti. ti\<lparr>ti_status := TIMER_CANCELED\<rparr>) t1
              else t1))"

text \<open>What the event loop and the users of the object can do, with the call backs invoked.\<close>

inductive timer_step :: "'cb timer_obj \<Rightarrow> (nat \<times> 'cb option) option \<Rightarrow> 'cb timer_obj \<Rightarrow> bool" where
  user: "timer_step t None (timer_do op t)"
| expire: "tm_waits t = ws1 @ w # ws2 \<Longrightarrow> wt_state w = Waiting \<Longrightarrow>
     timer_step t None (t\<lparr>tm_waits := ws1 @ w\<lparr>wt_state := Queued False\<rparr> # ws2\<rparr>)"
| complete: "tm_waits t = ws1 @ w # ws2 \<Longrightarrow> wt_state w = Queued ec \<Longrightarrow>
     wait_handler ops ret ec (wt_id w) (wt_prev_seq w) (t\<lparr>tm_waits := ws1 @ ws2\<rparr>) = (cb, t') \<Longrightarrow>
     timer_step t (map_option (Pair (wt_id w)) cb) t'"

section \<open>Facts about lookups\<close>

named_theorems timer_simps "lookups and updates of timers"

lemma find_upd_first:
  "(\<And>ti. ti_id (f ti) = ti_id ti) \<Longrightarrow>
   find (\<lambda>ti. ti_id ti = i) (upd_first tid f tis) =
   (if i = tid then map_option f (find (\<lambda>ti. ti_id ti = i) tis) else find (\<lambda>ti. ti_id ti = i) tis)"
  by (induction tis) auto

lemma find_timer_upd [timer_simps]:
  "(\<And>ti. ti_id (f ti) = ti_id ti) \<Longrightarrow>
   find_timer i (upd_timer tid f t) = (if i = tid then map_option f (find_timer i t) else find_timer i t)"
  by (simp add: find_timer_def upd_timer_def find_upd_first)

lemma find_timer_waits [timer_simps]: "find_timer i (t\<lparr>tm_waits := ws\<rparr>) = find_timer i t"
  by (simp add: find_timer_def)

lemma waits_upd [timer_simps]: "tm_waits (upd_timer tid f t) = tm_waits t"
  by (simp add: upd_timer_def)

lemma find_timer_start:
  "find_timer i (snd (start_timer tid t)) =
   (case find_timer tid t of
      None \<Rightarrow> find_timer i t
    | Some ti \<Rightarrow> if i = tid \<and> ti_call_back ti \<noteq> None then Some (ti\<lparr>ti_status := TIMER_STARTED, ti_seq := ti_seq ti + 1\<rparr>)
               else find_timer i t)"
  by (auto simp: start_timer_def timer_simps Let_def split: option.splits)

lemma find_timer_stop:
  "find_timer i (stop_timer tid t) =
   (if i = tid then map_option (\<lambda>ti. if ti_status ti = TIMER_STARTED then ti\<lparr>ti_status := TIMER_CANCELED\<rparr> else ti) (find_timer i t)
    else find_timer i t)"
  by (auto simp: stop_timer_def timer_simps Let_def split: option.splits)

section \<open>Stopping works\<close>

lemma is_timer_stop [simp]: "\<not> is_timer tid (stop_timer tid t)"
  by (auto simp: is_timer_def find_timer_stop split: option.splits)

text \<open>
  A stopped timer stays silent: after \<open>stop_timer\<close> the timer is not started, and from any state
  where it is not started no step invokes its call back, queued expirations included, nor starts it,
  unless some user or call back does.
\<close>

theorem stopped_timer_silent:
  "\<not> is_timer tid (stop_timer tid t0) \<and>
   (\<not> is_timer tid t \<and> timer_step t cb t' \<longrightarrow>
      (\<forall>f. cb \<noteq> Some (tid, f)) \<and> (cb = None \<and> (\<forall>op. t' \<noteq> timer_do op t) \<longrightarrow> \<not> is_timer tid t'))"
proof (intro conjI impI; (elim conjE)?)
  show "\<not> is_timer tid (stop_timer tid t0)" by simp
next
  assume n: "\<not> is_timer tid t" and st: "timer_step t cb t'"
  from st show "\<forall>f. cb \<noteq> Some (tid, f)"
  proof (cases rule: timer_step.cases)
    case (complete ws1 w ws2 ec ops ret cb0)
    then show ?thesis using n
      by (auto simp: wait_handler_def is_timer_def timer_simps Let_def split: option.splits if_splits)
  qed auto
next
  assume n: "\<not> is_timer tid t" and st: "timer_step t cb t'" and h: "cb = None" "\<forall>op. t' \<noteq> timer_do op t"
  from st show "\<not> is_timer tid t'"
  proof (cases rule: timer_step.cases)
    case (complete ws1 w ws2 ec ops ret cb0)
    then show ?thesis using n h
      by (auto simp: wait_handler_def is_timer_def timer_simps Let_def start_timer_def split: option.splits if_splits)
  qed (use n h in \<open>auto simp: is_timer_def timer_simps\<close>)
qed

theorem stopped_timer_silent_witness:
  "\<exists>(t :: string timer_obj) cb t'. tm_waits t = [\<lparr>wt_id = 3, wt_prev_seq = 0, wt_state = Queued False\<rparr>] \<and> timer_step t cb t' \<and>
     (\<forall>f. cb \<noteq> Some (3, f)) \<and> \<not> is_timer 3 (stop_timer 3 (snd (set_timer True 3 500 (Some ''cb'') tm_new)))"
proof -
  let ?w = "\<lparr>wt_id = 3, wt_prev_seq = 0, wt_state = Queued False\<rparr>"
  let ?ti = "\<lparr>ti_id = 3, ti_seq = 0, ti_status = TIMER_CANCELED, ti_interval = 500, ti_call_back = Some ''cb''\<rparr>"
  let ?t = "\<lparr>tm_can = [?ti], tm_waits = [?w], tm_refs = 1\<rparr>"
  have st: "timer_step ?t (map_option (Pair (wt_id ?w)) (fst (wait_handler [] False False 3 0 (?t\<lparr>tm_waits := [] @ []\<rparr>))))
      (snd (wait_handler [] False False 3 0 (?t\<lparr>tm_waits := [] @ []\<rparr>)))"
    by (rule complete [of _ "[]" ?w "[]" False "[]" False]) simp_all
  have n: "\<not> is_timer 3 ?t" by (simp add: is_timer_def find_timer_def)
  obtain cb t' where c: "timer_step ?t cb t'" using st by blast
  have w: "tm_waits ?t = [?w]" by simp
  have a: "\<not> is_timer 3 (stop_timer 3 (snd (set_timer True 3 500 (Some ''cb'') tm_new)))" "\<forall>f. cb \<noteq> Some (3, f)"
    using stopped_timer_silent [of 3 "snd (set_timer True 3 500 (Some ''cb'') tm_new)" ?t cb t'] n c by simp_all
  show ?thesis using w c a by blast
qed

section \<open>A started timer is never forgotten\<close>

definition waits_of :: "nat \<Rightarrow> 'cb timer_obj \<Rightarrow> wait list" where
  "waits_of tid t = filter (\<lambda>w. wt_id w = tid) (tm_waits t)"

text \<open>
  A started timer has an outstanding wait that carries its current sequence number, so that its
  handler will run; at most one wait of a timer is unexpired, and it is the current one.
\<close>

definition timer_inv :: "'cb timer_obj \<Rightarrow> bool" where
  "timer_inv t \<longleftrightarrow>
     (\<forall>tid ti. find_timer tid t = Some ti \<and> ti_status ti = TIMER_STARTED \<longrightarrow>
        ti_call_back ti \<noteq> None \<and> (\<exists>w\<in>set (waits_of tid t). wt_prev_seq w = ti_seq ti)) \<and>
     (\<forall>tid. length (filter (\<lambda>w. wt_state w = Waiting) (waits_of tid t)) \<le> 1) \<and>
     (\<forall>w\<in>set (tm_waits t). wt_state w = Waiting \<longrightarrow>
        map_option ti_seq (find_timer (wt_id w) t) = Some (wt_prev_seq w))"

lemma timer_inv_new: "timer_inv tm_new"
  by (simp add: timer_inv_def tm_new_def find_timer_def waits_of_def)

lemma waits_of_cancel:
  "filter (\<lambda>w. wt_id w = i) (cancel_waits tid ws) =
   (if i = tid then cancel_waits tid (filter (\<lambda>w. wt_id w = i) ws) else filter (\<lambda>w. wt_id w = i) ws)"
  by (induction ws) (auto simp: cancel_waits_def)

lemma cancel_waiting: "filter (\<lambda>w. wt_state w = Waiting) (cancel_waits tid (filter (\<lambda>w. wt_id w = tid) ws)) = []"
  by (induction ws) (auto simp: cancel_waits_def)

lemma set_cancel: "w \<in> set (cancel_waits tid ws) \<Longrightarrow>
   \<exists>v\<in>set ws. wt_id v = wt_id w \<and> wt_prev_seq v = wt_prev_seq w \<and> (wt_state w = Waiting \<longrightarrow> v = w \<and> wt_id w \<noteq> tid)"
  by (auto simp: cancel_waits_def split: if_splits)

lemma cancel_keeps:
  assumes "v \<in> set ws"
  shows "\<exists>w\<in>set (cancel_waits tid ws). wt_id w = wt_id v \<and> wt_prev_seq w = wt_prev_seq v"
proof -
  let ?f = "\<lambda>w. if wt_id w = tid \<and> wt_state w = Waiting then w\<lparr>wt_state := Queued True\<rparr> else w"
  have "?f v \<in> set (cancel_waits tid ws)" using assms unfolding cancel_waits_def set_map by (rule imageI)
  moreover have "wt_id (?f v) = wt_id v \<and> wt_prev_seq (?f v) = wt_prev_seq v" by simp
  ultimately show ?thesis by blast
qed

lemma timer_inv_start: "timer_inv t \<Longrightarrow> timer_inv (snd (start_timer tid t))"
proof (cases "find_timer tid t")
  case None
  assume "timer_inv t"
  then show ?thesis using None by (simp add: start_timer_def)
next
  case (Some ti)
  assume inv: "timer_inv t"
  show ?thesis
  proof (cases "ti_call_back ti")
    case None
    then show ?thesis using inv Some by (simp add: start_timer_def)
  next
    case cb: (Some f)
    let ?t = "snd (start_timer tid t)" and ?n = "\<lparr>wt_id = tid, wt_prev_seq = ti_seq ti + 1, wt_state = Waiting\<rparr>"
    have ws: "tm_waits ?t = cancel_waits tid (tm_waits t) @ [?n]"
      using Some cb by (simp add: start_timer_def Let_def timer_simps)
    have fd: "find_timer i ?t = (if i = tid then Some (ti\<lparr>ti_status := TIMER_STARTED, ti_seq := ti_seq ti + 1\<rparr>) else find_timer i t)" for i
      using Some cb by (simp add: find_timer_start)
    have wo: "waits_of i ?t = (if i = tid then cancel_waits tid (waits_of i t) @ [?n] else waits_of i t)" for i
      unfolding waits_of_def ws by (simp add: waits_of_cancel)
    have "ti_call_back tj \<noteq> None \<and> (\<exists>w\<in>set (waits_of i ?t). wt_prev_seq w = ti_seq tj)"
      if "find_timer i ?t = Some tj" "ti_status tj = TIMER_STARTED" for i tj
      using that inv wo [of i] fd [of i] cb by (auto simp: timer_inv_def split: if_splits)
    moreover have "length (filter (\<lambda>w. wt_state w = Waiting) (waits_of i ?t)) \<le> 1" for i
      using inv wo [of i] cancel_waiting [of tid "tm_waits t"] by (auto simp: timer_inv_def waits_of_def)
    moreover have "map_option ti_seq (find_timer (wt_id w) ?t) = Some (wt_prev_seq w)"
      if "w \<in> set (tm_waits ?t)" "wt_state w = Waiting" for w
    proof (cases "w = ?n")
      case True
      then show ?thesis using fd by simp
    next
      case False
      then have "w \<in> set (cancel_waits tid (tm_waits t))" using that ws by simp
      then have "w \<in> set (tm_waits t)" "wt_id w \<noteq> tid" using set_cancel [of w tid "tm_waits t"] that(2) by auto
      then show ?thesis using inv that(2) fd by (simp add: timer_inv_def)
    qed
    ultimately show ?thesis unfolding timer_inv_def by blast
  qed
qed

text \<open>An update that neither starts a timer nor touches its number keeps the invariant.\<close>

lemma timer_inv_upd:
  assumes "timer_inv t" "\<And>ti. ti_id (f ti) = ti_id ti \<and> ti_seq (f ti) = ti_seq ti"
    and "\<And>ti. ti_status (f ti) = TIMER_STARTED \<Longrightarrow> ti_status ti = TIMER_STARTED \<and> (ti_call_back ti \<noteq> None \<longrightarrow> ti_call_back (f ti) \<noteq> None)"
  shows "timer_inv (upd_timer tid f t)"
proof -
  have fd: "find_timer i (upd_timer tid f t) = (if i = tid then map_option f (find_timer i t) else find_timer i t)" for i
    using assms(2) by (simp add: find_timer_upd)
  have wo: "waits_of i (upd_timer tid f t) = waits_of i t" for i by (simp add: waits_of_def timer_simps)
  show ?thesis
    unfolding timer_inv_def wo fd waits_upd
    using assms by (fastforce simp: timer_inv_def option.map_comp comp_def split: if_splits)
qed

lemma timer_inv_cancel: "timer_inv t \<Longrightarrow> timer_inv (t\<lparr>tm_waits := cancel_waits tid (tm_waits t)\<rparr>)"
proof -
  assume inv: "timer_inv t"
  let ?t = "t\<lparr>tm_waits := cancel_waits tid (tm_waits t)\<rparr>"
  have fd: "find_timer i ?t = find_timer i t" for i by (simp add: timer_simps)
  have wo: "waits_of i ?t = (if i = tid then cancel_waits tid (waits_of i t) else waits_of i t)" for i
    by (simp add: waits_of_def waits_of_cancel)
  have "ti_call_back tj \<noteq> None \<and> (\<exists>w\<in>set (waits_of i ?t). wt_prev_seq w = ti_seq tj)"
    if h: "find_timer i ?t = Some tj" "ti_status tj = TIMER_STARTED" for i tj
  proof -
    have "find_timer i t = Some tj" using h(1) by (simp add: timer_simps)
    then obtain v where v: "v \<in> set (waits_of i t)" "wt_prev_seq v = ti_seq tj" "ti_call_back tj \<noteq> None"
      using inv h(2) unfolding timer_inv_def by blast
    then show ?thesis using wo [of i] cancel_keeps [of v "waits_of i t" tid] by auto
  qed
  moreover have "length (filter (\<lambda>w. wt_state w = Waiting) (waits_of i ?t)) \<le> 1" for i
    using inv wo [of i] cancel_waiting [of tid "tm_waits t"] by (auto simp: timer_inv_def waits_of_def)
  moreover have "map_option ti_seq (find_timer (wt_id w) ?t) = Some (wt_prev_seq w)"
    if "w \<in> set (tm_waits ?t)" "wt_state w = Waiting" for w
    using inv that set_cancel [of w tid "tm_waits t"] fd by (auto simp: timer_inv_def)
  ultimately show ?thesis unfolding timer_inv_def by blast
qed

lemma timer_inv_stop: "timer_inv t \<Longrightarrow> timer_inv (stop_timer tid t)"
  by (auto simp: stop_timer_def Let_def intro!: timer_inv_cancel timer_inv_upd split: option.split)

lemma timer_inv_stop_fold: "timer_inv t \<Longrightarrow> timer_inv (fold stop_timer tids t)"
  by (induction tids arbitrary: t) (auto intro: timer_inv_stop)

lemma find_snoc: "find P (xs @ [x]) = (case find P xs of Some y \<Rightarrow> Some y | None \<Rightarrow> if P x then Some x else None)"
  by (induction xs) auto

lemma find_new_timer:
  "find_timer tid t = None \<Longrightarrow>
   find_timer i (t\<lparr>tm_can := tm_can t @ [ti_new tid]\<rparr>) = (if i = tid then Some (ti_new tid) else find_timer i t)"
  by (auto simp: find_timer_def ti_new_def find_snoc split: option.split)

lemma timer_inv_create: "timer_inv t \<Longrightarrow> find_timer tid t = None \<Longrightarrow> timer_inv (t\<lparr>tm_can := tm_can t @ [ti_new tid]\<rparr>)"
proof -
  assume inv: "timer_inv t" and n: "find_timer tid t = None"
  have wo: "waits_of i (t\<lparr>tm_can := tm_can t @ [ti_new tid]\<rparr>) = waits_of i t" for i by (simp add: waits_of_def)
  have "wt_id w \<noteq> tid" if "w \<in> set (tm_waits t)" "wt_state w = Waiting" for w
    using inv that n unfolding timer_inv_def by force
  then show ?thesis
    using inv unfolding timer_inv_def wo find_new_timer [OF n]
    by (auto simp: ti_new_def split: if_splits)
qed

lemma timer_inv_set: "timer_inv t \<Longrightarrow> timer_inv (snd (set_timer alloc tid i (Some cb) t))"
  by (auto simp: set_timer_def create_or_update_timer_def Let_def
      intro!: timer_inv_start timer_inv_upd timer_inv_create)

lemma timer_inv_change:
  "timer_inv t \<Longrightarrow> timer_inv (snd (change_timer_status tid TIMER_CANCELED t))"
  "timer_inv t \<Longrightarrow> timer_inv (snd (change_timer_call_back tid (Some cb) t))"
  by (auto simp: change_timer_status_def change_timer_call_back_def intro!: timer_inv_upd)

lemma refs_only:
  "\<exists>r. clear_io_context_refs t = t\<lparr>tm_refs := r\<rparr>" "\<exists>r. reset_io_context_refs t = t\<lparr>tm_refs := r\<rparr>"
proof -
  have r: "t = t\<lparr>tm_refs := tm_refs t\<rparr>" by simp
  show "\<exists>r. clear_io_context_refs t = t\<lparr>tm_refs := r\<rparr>"
    unfolding clear_io_context_refs_def sub_io_context_refs_def using r by metis
  show "\<exists>r. reset_io_context_refs t = t\<lparr>tm_refs := r\<rparr>"
    unfolding reset_io_context_refs_def add_io_context_refs_def using r by metis
qed

lemma timer_inv_refs: "timer_inv (t\<lparr>tm_refs := r\<rparr>) = timer_inv t"
  by (simp add: timer_inv_def find_timer_def waits_of_def)

lemma timer_inv_do: "timer_inv t \<Longrightarrow> timer_inv (timer_do op t)"
  using refs_only [of t]
  by (cases op) (auto simp: stop_all_timer_def stop_all_timer_except_def timer_inv_refs
      intro: timer_inv_start timer_inv_stop timer_inv_set timer_inv_stop_fold timer_inv_change)

lemma timer_inv_ops: "timer_inv t \<Longrightarrow> timer_inv (fold timer_do ops t)"
  by (induction ops arbitrary: t) (auto intro: timer_inv_do)

lemma timer_inv_expire:
  assumes "timer_inv t" "tm_waits t = ws1 @ w # ws2" "wt_state w = Waiting"
  shows "timer_inv (t\<lparr>tm_waits := ws1 @ w\<lparr>wt_state := Queued False\<rparr> # ws2\<rparr>)"
proof -
  let ?w = "w\<lparr>wt_state := Queued False\<rparr>"
  let ?t = "t\<lparr>tm_waits := ws1 @ ?w # ws2\<rparr>"
  have fd: "find_timer i ?t = find_timer i t" for i by (simp add: timer_simps)
  have "ti_call_back tj \<noteq> None \<and> (\<exists>v\<in>set (waits_of i ?t). wt_prev_seq v = ti_seq tj)"
    if h: "find_timer i ?t = Some tj" "ti_status tj = TIMER_STARTED" for i tj
  proof -
    have "find_timer i t = Some tj" using h(1) by (simp add: timer_simps)
    then obtain v where v: "v \<in> set (waits_of i t)" "wt_prev_seq v = ti_seq tj" "ti_call_back tj \<noteq> None"
      using assms(1) h(2) unfolding timer_inv_def by blast
    show ?thesis
    proof (cases "v = w")
      case True
      then have "?w \<in> set (waits_of i ?t)" "wt_prev_seq ?w = ti_seq tj" using v by (simp_all add: waits_of_def)
      then show ?thesis using v(3) by blast
    next
      case False
      then show ?thesis using v assms(2) by (auto simp: waits_of_def)
    qed
  qed
  moreover have "length (filter (\<lambda>w. wt_state w = Waiting) (waits_of i ?t)) \<le> 1" for i
  proof -
    have "length (filter (\<lambda>w. wt_state w = Waiting) (waits_of i ?t)) \<le> length (filter (\<lambda>w. wt_state w = Waiting) (waits_of i t))"
      using assms(2,3) by (simp add: waits_of_def)
    moreover have "length (filter (\<lambda>w. wt_state w = Waiting) (waits_of i t)) \<le> 1"
      using assms(1) unfolding timer_inv_def by blast
    ultimately show ?thesis by linarith
  qed
  moreover have "map_option ti_seq (find_timer (wt_id v) ?t) = Some (wt_prev_seq v)"
    if "v \<in> set (tm_waits ?t)" "wt_state v = Waiting" for v
  proof -
    have "v \<in> set (tm_waits t)" using that assms(2) by auto
    then show ?thesis using assms(1) that(2) unfolding timer_inv_def by (simp add: timer_simps)
  qed
  ultimately show ?thesis unfolding timer_inv_def by blast
qed

text \<open>
  A handler that completes leaves the invariant of the others; its own timer is started again,
  marked as cancelled when the handler is the current one, or has a newer wait.
\<close>

definition lacking :: "nat \<Rightarrow> u8 \<Rightarrow> 'cb timer_obj \<Rightarrow> bool" where
  "lacking tid sq t \<longleftrightarrow> timer_inv (t\<lparr>tm_waits := \<lparr>wt_id = tid, wt_prev_seq = sq, wt_state = Queued True\<rparr> # tm_waits t\<rparr>)"

lemma waits_of_Cons:
  "waits_of i (t\<lparr>tm_waits := w # tm_waits t\<rparr>) = (if wt_id w = i then w # waits_of i t else waits_of i t)"
  by (simp add: waits_of_def)

lemma waits_upd_comm:
  "upd_timer tid f (t\<lparr>tm_waits := ws\<rparr>) = (upd_timer tid f t)\<lparr>tm_waits := ws\<rparr>"
  by (simp add: upd_timer_def)

lemma lacking_canceled:
  assumes "lacking tid sq t" "map_option ti_seq (find_timer tid t) = Some sq"
  shows "timer_inv (upd_timer tid (\<lambda>ti. ti\<lparr>ti_status := TIMER_CANCELED\<rparr>) t)"
proof -
  let ?t = "upd_timer tid (\<lambda>ti. ti\<lparr>ti_status := TIMER_CANCELED\<rparr>) t"
  have fd: "find_timer i ?t = (if i = tid then map_option (\<lambda>ti. ti\<lparr>ti_status := TIMER_CANCELED\<rparr>) (find_timer i t) else find_timer i t)" for i
    by (simp add: timer_simps)
  have wo: "waits_of i ?t = waits_of i t" for i by (simp add: waits_of_def timer_simps)
  note lk = assms(1) [unfolded lacking_def timer_inv_def waits_of_Cons find_timer_waits]
  have "ti_call_back tj \<noteq> None \<and> (\<exists>v\<in>set (waits_of i ?t). wt_prev_seq v = ti_seq tj)"
    if h: "find_timer i ?t = Some tj" "ti_status tj = TIMER_STARTED" for i tj
  proof -
    have "i \<noteq> tid" using h fd by (auto split: if_splits)
    then show ?thesis using h fd [of i] wo [of i] lk by (simp split: if_splits) metis
  qed
  moreover have "length (filter (\<lambda>w. wt_state w = Waiting) (waits_of i ?t)) \<le> 1" for i
  proof -
    have "length (filter (\<lambda>w. wt_state w = Waiting)
       (if wt_id \<lparr>wt_id = tid, wt_prev_seq = sq, wt_state = Queued True\<rparr> = i
        then \<lparr>wt_id = tid, wt_prev_seq = sq, wt_state = Queued True\<rparr> # waits_of i t else waits_of i t)) \<le> 1"
      using lk by blast
    then show ?thesis by (simp add: wo split: if_splits)
  qed
  moreover have "map_option ti_seq (find_timer (wt_id v) ?t) = Some (wt_prev_seq v)"
    if "v \<in> set (tm_waits ?t)" "wt_state v = Waiting" for v
    using that lk fd [of "wt_id v"] by (auto simp: timer_simps option.map_comp comp_def)
  ultimately show ?thesis unfolding timer_inv_def by blast
qed

lemma lacking_served:
  assumes "lacking tid sq t"
    and "\<And>ti. find_timer tid t = Some ti \<Longrightarrow> ti_seq ti = sq \<Longrightarrow> \<exists>v\<in>set (waits_of tid t). wt_prev_seq v = sq"
  shows "timer_inv t"
proof -
  note lk = assms(1) [unfolded lacking_def timer_inv_def waits_of_Cons find_timer_waits]
  let ?w = "\<lparr>wt_id = tid, wt_prev_seq = sq, wt_state = Queued True\<rparr>"
  have "ti_call_back tj \<noteq> None \<and> (\<exists>v\<in>set (waits_of i t). wt_prev_seq v = ti_seq tj)"
    if h: "find_timer i t = Some tj" "ti_status tj = TIMER_STARTED" for i tj
  proof -
    have l: "ti_call_back tj \<noteq> None \<and>
        (\<exists>v\<in>set (if wt_id ?w = i then ?w # waits_of i t else waits_of i t). wt_prev_seq v = ti_seq tj)"
      using lk h by blast
    show ?thesis
    proof (cases "i = tid \<and> ti_seq tj = sq")
      case True
      then show ?thesis using l assms(2) h by auto
    next
      case False
      then show ?thesis using l by (auto split: if_splits)
    qed
  qed
  moreover have "length (filter (\<lambda>w. wt_state w = Waiting) (waits_of i t)) \<le> 1" for i
  proof -
    have "length (filter (\<lambda>w. wt_state w = Waiting) (if wt_id ?w = i then ?w # waits_of i t else waits_of i t)) \<le> 1"
      using lk by blast
    then show ?thesis by (simp split: if_splits)
  qed
  moreover have "map_option ti_seq (find_timer (wt_id v) t) = Some (wt_prev_seq v)"
    if "v \<in> set (tm_waits t)" "wt_state v = Waiting" for v
    using that lk by auto
  ultimately show ?thesis unfolding timer_inv_def by blast
qed

lemma lacking_intro:
  assumes "timer_inv t" "tm_waits t = ws1 @ w # ws2" "wt_state w = Queued ec"
  shows "lacking (wt_id w) (wt_prev_seq w) (t\<lparr>tm_waits := ws1 @ ws2\<rparr>)"
proof -
  let ?w = "\<lparr>wt_id = wt_id w, wt_prev_seq = wt_prev_seq w, wt_state = Queued True\<rparr>"
  let ?t = "t\<lparr>tm_waits := ?w # ws1 @ ws2\<rparr>"
  have "ti_call_back tj \<noteq> None \<and> (\<exists>v\<in>set (waits_of i ?t). wt_prev_seq v = ti_seq tj)"
    if h: "find_timer i ?t = Some tj" "ti_status tj = TIMER_STARTED" for i tj
  proof -
    have "find_timer i t = Some tj" using h(1) by (simp add: timer_simps)
    then obtain v where v: "v \<in> set (waits_of i t)" "wt_prev_seq v = ti_seq tj" "ti_call_back tj \<noteq> None"
      using assms(1) h(2) unfolding timer_inv_def by blast
    show ?thesis
    proof (cases "v = w")
      case True
      then have "?w \<in> set (waits_of i ?t)" "wt_prev_seq ?w = ti_seq tj" using v by (simp_all add: waits_of_def)
      then show ?thesis using v(3) by blast
    next
      case False
      then show ?thesis using v assms(2) by (auto simp: waits_of_def)
    qed
  qed
  moreover have "length (filter (\<lambda>w. wt_state w = Waiting) (waits_of i ?t)) \<le> 1" for i
  proof -
    have "length (filter (\<lambda>w. wt_state w = Waiting) (waits_of i ?t)) = length (filter (\<lambda>w. wt_state w = Waiting) (waits_of i t))"
      using assms(2,3) by (simp add: waits_of_def)
    then show ?thesis using assms(1) unfolding timer_inv_def by (metis (no_types))
  qed
  moreover have "map_option ti_seq (find_timer (wt_id v) ?t) = Some (wt_prev_seq v)"
    if "v \<in> set (tm_waits ?t)" "wt_state v = Waiting" for v
  proof -
    have "v \<in> set (tm_waits t)" using that assms(2) by auto
    then show ?thesis using assms(1) that(2) unfolding timer_inv_def by (simp add: timer_simps)
  qed
  ultimately have "timer_inv ?t" unfolding timer_inv_def by blast
  then show ?thesis by (simp add: lacking_def)
qed

text \<open>A queued handler is out of reach of every operation.\<close>

definition with_wait :: "wait \<Rightarrow> 'cb timer_obj \<Rightarrow> 'cb timer_obj" where
  "with_wait w t = t\<lparr>tm_waits := w # tm_waits t\<rparr>"

lemma lacking_with: "lacking tid sq t \<longleftrightarrow> timer_inv (with_wait \<lparr>wt_id = tid, wt_prev_seq = sq, wt_state = Queued True\<rparr> t)"
  by (simp add: lacking_def with_wait_def)

lemma find_with [simp]: "find_timer i (with_wait w t) = find_timer i t"
  by (simp add: with_wait_def timer_simps)

lemma with_upd: "upd_timer tid f (with_wait w t) = with_wait w (upd_timer tid f t)"
  by (simp add: with_wait_def upd_timer_def)

lemma with_cancel:
  "wt_state w = Queued e \<Longrightarrow> (with_wait w t)\<lparr>tm_waits := cancel_waits tid (tm_waits (with_wait w t))\<rparr> =
   with_wait w (t\<lparr>tm_waits := cancel_waits tid (tm_waits t)\<rparr>)"
  by (simp add: with_wait_def cancel_waits_def)

lemma with_start: "wt_state w = Queued e \<Longrightarrow> snd (start_timer tid (with_wait w t)) = with_wait w (snd (start_timer tid t))"
  by (auto simp: start_timer_def Let_def with_upd with_wait_def cancel_waits_def upd_timer_def timer_simps split: option.splits)

lemma with_stop: "wt_state w = Queued e \<Longrightarrow> stop_timer tid (with_wait w t) = with_wait w (stop_timer tid t)"
  by (auto simp: stop_timer_def Let_def with_upd with_cancel split: option.splits)

lemma with_create:
  "wt_state w = Queued e \<Longrightarrow> snd (set_timer True tid i cb (with_wait w t)) = with_wait w (snd (set_timer True tid i cb t))"
proof -
  assume q: "wt_state w = Queued e"
  have c: "(with_wait w t)\<lparr>tm_can := tm_can (with_wait w t) @ [x]\<rparr> = with_wait w (t\<lparr>tm_can := tm_can t @ [x]\<rparr>)" for x
    by (simp add: with_wait_def)
  show ?thesis using q by (simp add: set_timer_def create_or_update_timer_def Let_def c with_upd with_start)
qed

lemma with_stops: "wt_state w = Queued e \<Longrightarrow> fold stop_timer tids (with_wait w t) = with_wait w (fold stop_timer tids t)"
  by (induction tids arbitrary: t) (simp_all add: with_stop)

lemma with_can [simp]: "tm_can (with_wait w t) = tm_can t"
  by (simp add: with_wait_def)

lemma with_refs:
  "clear_io_context_refs (with_wait w t) = with_wait w (clear_io_context_refs t)"
  "reset_io_context_refs (with_wait w t) = with_wait w (reset_io_context_refs t)"
  by (simp_all add: with_wait_def clear_io_context_refs_def sub_io_context_refs_def reset_io_context_refs_def
      add_io_context_refs_def)

lemma with_do: "wt_state w = Queued e \<Longrightarrow> timer_do op (with_wait w t) = with_wait w (timer_do op t)"
  by (cases op) (simp_all add: with_start with_stop with_create stop_all_timer_def stop_all_timer_except_def with_stops
      change_timer_status_def change_timer_call_back_def with_upd with_refs)

lemma with_ops: "wt_state w = Queued e \<Longrightarrow> fold timer_do ops (with_wait w t) = with_wait w (fold timer_do ops t)"
  by (induction ops arbitrary: t) (simp_all add: with_do)

lemma lacking_ops: "lacking tid sq t \<Longrightarrow> lacking tid sq (fold timer_do ops t)"
  unfolding lacking_with using timer_inv_ops by (metis with_ops wait.select_convs(3))

lemma lacking_start: "lacking tid sq t \<Longrightarrow> lacking tid sq (snd (start_timer i t))"
  unfolding lacking_with using timer_inv_start by (metis with_start wait.select_convs(3))

lemma timer_inv_handler:
  assumes lk: "lacking tid sq t" and h: "wait_handler ops ret ec tid sq t = (cb, t')"
    and cbs: "\<And>ti. find_timer tid t = Some ti \<Longrightarrow> ti_status ti = TIMER_STARTED \<Longrightarrow> ti_call_back ti \<noteq> None"
  shows "timer_inv t'"
proof (cases "find_timer tid t")
  case None
  then have "t' = t" using h by (simp add: wait_handler_def)
  then show ?thesis using lacking_served [OF lk] None by simp
next
  case (Some ti)
  define inv where "inv = (ti_status ti = TIMER_STARTED \<and> \<not> ec)"
  define t1 where "t1 = (if inv then fold timer_do ops t else t)"
  have lk1: "lacking tid sq t1" using lk lacking_ops [of tid sq t ops] by (simp add: t1_def)
  have t': "t' = (if inv \<and> ret \<and> is_timer tid t1 then snd (start_timer tid t1)
      else if map_option ti_seq (find_timer tid t1) = Some sq
      then upd_timer tid (\<lambda>ti. ti\<lparr>ti_status := TIMER_CANCELED\<rparr>) t1 else t1)"
    using h Some by (auto simp: wait_handler_def inv_def t1_def Let_def)
  show ?thesis
  proof (cases "inv \<and> ret \<and> is_timer tid t1")
    case True
    then obtain tj where j: "find_timer tid t1 = Some tj" "ti_status tj = TIMER_STARTED"
      by (auto simp: is_timer_def split: option.splits)
    have "ti_call_back tj \<noteq> None"
      using lk1 j unfolding lacking_with timer_inv_def by (metis find_with)
    then obtain f where f: "ti_call_back tj = Some f" by auto
    let ?w = "\<lparr>wt_id = tid, wt_prev_seq = ti_seq tj + 1, wt_state = Waiting\<rparr>"
    have ws: "?w \<in> set (waits_of tid (snd (start_timer tid t1)))"
      using j f by (simp add: start_timer_def Let_def waits_of_def)
    have fd: "find_timer tid (snd (start_timer tid t1)) = Some (tj\<lparr>ti_status := TIMER_STARTED, ti_seq := ti_seq tj + 1\<rparr>)"
      using j f by (simp add: find_timer_start)
    have "timer_inv (snd (start_timer tid t1))"
    proof (rule lacking_served [OF lacking_start [OF lk1]])
      fix tk assume "find_timer tid (snd (start_timer tid t1)) = Some tk" "ti_seq tk = sq"
      then have "wt_prev_seq ?w = sq" using fd by auto
      then show "\<exists>v\<in>set (waits_of tid (snd (start_timer tid t1))). wt_prev_seq v = sq" using ws by blast
    qed
    then show ?thesis using t' True by simp
  next
    case no: False
    show ?thesis
    proof (cases "map_option ti_seq (find_timer tid t1) = Some sq")
      case True
      then show ?thesis using t' no lacking_canceled [OF lk1] by simp
    next
      case False
      then have "timer_inv t1" using lacking_served [OF lk1] by auto
      then show ?thesis unfolding t' if_not_P [OF no] if_not_P [OF False] .
    qed
  qed
qed

interpretation tm: step_invariant "\<lambda>t. t = tm_new" "\<lambda>t t'. \<exists>cb. timer_step t cb t'" timer_inv
proof (unfold_locales, goal_cases)
  case (1 s)
  then show ?case by (simp add: timer_inv_new)
next
  case (2 s t)
  then obtain cb where "timer_step s cb t" by blast
  then show ?case
  proof (cases rule: timer_step.cases)
    case (user op)
    then show ?thesis using timer_inv_do [OF 2(2)] by simp
  next
    case (expire ws1 w ws2)
    then show ?thesis using timer_inv_expire [OF 2(2)] by simp
  next
    case (complete ws1 w ws2 ec ops ret cb0)
    show ?thesis
    proof (rule timer_inv_handler [OF lacking_intro [OF 2(2) complete(2,3)] complete(4)])
      fix ti assume "find_timer (wt_id w) (s\<lparr>tm_waits := ws1 @ ws2\<rparr>) = Some ti" "ti_status ti = TIMER_STARTED"
      then show "ti_call_back ti \<noteq> None" using 2(2) by (auto simp: timer_inv_def timer_simps)
    qed
  qed
qed

text \<open>
  C27. A started timer is never forgotten and never runs twice at a time: in every reachable state,
  whatever users and call backs did, a timer that is started has a wait outstanding that carries its
  current sequence number, so a handler will still serve it, and at most one of its waits is
  unexpired. This holds although the sequence numbers wrap after 256 starts.
\<close>

theorem timer_never_forgotten:
  assumes "reach (\<lambda>t. t = tm_new) (\<lambda>t t'. \<exists>cb. timer_step t cb t') t"
  shows "(is_timer tid t \<longrightarrow> (\<exists>w\<in>set (waits_of tid t). map_option ti_seq (find_timer tid t) = Some (wt_prev_seq w))) \<and>
         length (filter (\<lambda>w. wt_state w = Waiting) (waits_of tid t)) \<le> 1"
proof -
  have inv: "timer_inv t" by (rule tm.reachable_inv [OF assms])
  have "\<exists>w\<in>set (waits_of tid t). map_option ti_seq (find_timer tid t) = Some (wt_prev_seq w)" if st: "is_timer tid t"
  proof -
    obtain ti where ti: "find_timer tid t = Some ti" "ti_status ti = TIMER_STARTED"
      using st by (auto simp: is_timer_def split: option.splits)
    then obtain w where "w \<in> set (waits_of tid t)" "wt_prev_seq w = ti_seq ti" using inv unfolding timer_inv_def by blast
    then show ?thesis using ti by (intro bexI [of _ w]) simp_all
  qed
  then show ?thesis using inv unfolding timer_inv_def by blast
qed

theorem timer_never_forgotten_witness:
  "length (filter (\<lambda>w. wt_state w = Waiting) (waits_of 3 (timer_do (Set_timer 3 500 ''cb'') tm_new))) \<le> 1"
proof -
  have "reach (\<lambda>t. t = tm_new) (\<lambda>t t'. \<exists>cb. timer_step t cb t') (timer_do (Set_timer 3 500 ''cb'') tm_new)"
    by (rule reach_step [where s = tm_new]) (simp add: reach_init, rule exI, rule timer_step.user)
  from timer_never_forgotten [OF this, of 3] show ?thesis by blast
qed

text \<open>
  Stopping does not reach an expiration that is already queued once the timer is started again:
  its handler still invokes the call back, ahead of the new interval, because it compares the status
  only and not its sequence number.
\<close>

theorem restarted_timer_fires_early:
  assumes "find_timer tid t = Some ti" "ti_status ti = TIMER_STARTED" "ti_call_back ti = Some f"
    and "t' = snd (start_timer tid (stop_timer tid t))"
  shows "fst (wait_handler ops ret False tid (ti_seq ti) t') = Some (Some f) \<and>
         \<lparr>wt_id = tid, wt_prev_seq = ti_seq ti + 1, wt_state = Waiting\<rparr> \<in> set (tm_waits t')"
proof -
  have s: "find_timer tid (stop_timer tid t) = Some (ti\<lparr>ti_status := TIMER_CANCELED\<rparr>)"
    using assms by (simp add: find_timer_stop)
  then have "find_timer tid t' = Some (ti\<lparr>ti_status := TIMER_STARTED, ti_seq := ti_seq ti + 1\<rparr>)"
    using assms by (simp add: find_timer_start)
  moreover have "\<lparr>wt_id = tid, wt_prev_seq = ti_seq ti + 1, wt_state = Waiting\<rparr> \<in> set (tm_waits t')"
    using s assms by (simp add: start_timer_def Let_def)
  ultimately show ?thesis using assms by (simp add: wait_handler_def Let_def)
qed

theorem restarted_timer_fires_early_witness:
  "let t = timer_do (Set_timer 3 500 ''cb'') tm_new
   in fst (wait_handler [] True False 3 0 (snd (start_timer 3 (stop_timer 3 t)))) = Some (Some ''cb'')"
proof -
  let ?t = "timer_do (Set_timer 3 500 ''cb'') tm_new"
  have "find_timer 3 ?t = Some \<lparr>ti_id = 3, ti_seq = 0, ti_status = TIMER_STARTED, ti_interval = 500, ti_call_back = Some ''cb''\<rparr>"
    by (simp add: set_timer_def create_or_update_timer_def start_timer_def find_timer_def tm_new_def upd_timer_def ti_new_def Let_def)
  from restarted_timer_fires_early [OF this _ _ refl, of "''cb''" "[]" True] show ?thesis by (simp add: Let_def)
qed

section \<open>Aligned timers\<close>

text \<open>
  With \<open>ASCS_ALIGNED_TIMER\<close> only the delays differ: that of the next wait after a call back that took \<open>elapsed\<close> milliseconds, as an \<open>unsigned\<close>. \<open>None\<close>: the remainder by zero traps.
\<close>

definition aligned_delay :: "32 word \<Rightarrow> int \<Rightarrow> 32 word option" where
  "aligned_delay interval elapsed =
     (let elapsed_ms = (word_of_int elapsed :: 32 word)
      in if elapsed_ms > interval
         then if interval = 0 then None else Some (interval - elapsed_ms mod interval)
         else Some (interval - elapsed_ms))"

text \<open>
  The next call back begins a whole number of intervals after this one did, at the first such time that is not before the end of
  this one.
\<close>

lemma aligned_on_grid:
  assumes "0 \<le> elapsed" "elapsed < 2 ^ 32" "interval \<noteq> 0"
  shows "\<exists>d. aligned_delay interval elapsed = Some d \<and> (elapsed + uint d) mod uint interval = 0 \<and>
    0 < elapsed + uint d \<and> 0 \<le> uint d \<and> uint d \<le> uint interval"
proof -
  define e :: "32 word" where "e = word_of_int elapsed"
  have u: "uint e = elapsed" using assms(1,2) by (simp add: e_def uint_word_of_int)
  have pos: "0 < uint interval" using assms(3) by (simp add: word_neq_0_conv word_less_def)
  show ?thesis
  proof (cases "e > interval")
    case True
    have m: "uint (e mod interval) = elapsed mod uint interval" by (simp add: uint_mod u)
    have lt: "elapsed mod uint interval < uint interval" using pos by simp
    have d: "uint (interval - e mod interval) = uint interval - elapsed mod uint interval"
      using lt m uint_sub_lem [of "e mod interval" interval] by simp
    have "(elapsed + (uint interval - elapsed mod uint interval)) mod uint interval = 0"
      by (metis add.commute add_diff_eq diff_add_eq minus_mod_eq_mult_div mod_add_self1 mod_mult_self1_is_0)
    moreover have "0 \<le> elapsed mod uint interval" using pos by simp
    ultimately show ?thesis using True assms(1,3) lt d by (simp add: aligned_delay_def e_def [symmetric])
  next
    case False
    then have "uint e \<le> uint interval" by (simp add: word_less_def not_less)
    then have d: "uint (interval - e) = uint interval - elapsed" using u uint_sub_lem [of e interval] by simp
    then show ?thesis using False pos u \<open>uint e \<le> uint interval\<close> assms(1) by (simp add: aligned_delay_def e_def [symmetric])
  qed
qed

lemma aligned_zero_interval_traps: "aligned_delay 0 1 = None"
  by (simp add: aligned_delay_def)

end
