(* ===== verification/Object_Pool.thy ===== *)
theory Object_Pool
  imports Ascs_Config "HOL-Library.Multiset"
begin

text \<open>
  \<open>object_pool.h\<close>: the valid objects by id, the invalid ones waiting to be freed or reused, and the
  generator of ids. Objects are addresses; the id an object carries is part of the state. Whether an
  object is obsoleted and whether the pool holds the only reference to it depend on the rest of the
  program and are arguments (\<open>obs\<close>, \<open>uniq\<close>), as is whether the allocation of a list node succeeds.
  Each operation holds the mutex of the container it works on; \<open>del_object\<close> and
  \<open>clear_obsoleted_object\<close> release one before they take the other and are modelled as one step.
\<close>

type_synonym ptr = nat
type_synonym object_id = "64 word"

record pool =
  pl_cur_id :: object_id
  pl_can :: "(object_id \<times> ptr) list"
  pl_invalid :: "ptr list"
  pl_max_size :: nat
  pl_id :: "ptr \<Rightarrow> object_id"

definition pool_new :: "(ptr \<Rightarrow> object_id) \<Rightarrow> pool" where
  "pool_new ids =
     \<lparr>pl_cur_id = of_nat ASCS_START_OBJECT_ID - 1, pl_can = [], pl_invalid = [], pl_max_size = ASCS_MAX_OBJECT_NUM, pl_id = ids\<rparr>"

definition set_start_object_id :: "object_id \<Rightarrow> pool \<Rightarrow> pool" where
  "set_start_object_id i p = p\<lparr>pl_cur_id := i - 1\<rparr>"

definition pool_find :: "object_id \<Rightarrow> pool \<Rightarrow> ptr option" where
  "pool_find i p = map_of (pl_can p) i"

definition pool_exist :: "object_id \<Rightarrow> pool \<Rightarrow> bool" where
  "pool_exist i p \<longleftrightarrow> pool_find i p \<noteq> None"

definition pool_size :: "pool \<Rightarrow> nat" where
  "pool_size p = length (pl_can p)"

definition pool_at :: "nat \<Rightarrow> pool \<Rightarrow> ptr option" where
  "pool_at i p = (if i < length (pl_can p) then Some (snd (pl_can p ! i)) else None)"

text \<open>\<open>unordered_map::emplace\<close> and \<open>erase\<close>.\<close>

definition emplace :: "object_id \<Rightarrow> ptr \<Rightarrow> pool \<Rightarrow> bool \<times> pool" where
  "emplace i o1 p = (if pool_exist i p then (False, p) else (True, p\<lparr>pl_can := pl_can p @ [(i, o1)]\<rparr>))"

definition erase :: "object_id \<Rightarrow> pool \<Rightarrow> pool" where
  "erase i p = p\<lparr>pl_can := filter (\<lambda>(j, _). j \<noteq> i) (pl_can p)\<rparr>"

definition add_object :: "ptr option \<Rightarrow> pool \<Rightarrow> bool \<times> pool" where
  "add_object object_ptr p =
     (case object_ptr of None \<Rightarrow> (False, p)
      | Some o1 \<Rightarrow> if length (pl_can p) < pl_max_size p then emplace (pl_id p o1) o1 p else (False, p))"

definition push_invalid :: "bool \<Rightarrow> ptr \<Rightarrow> pool \<Rightarrow> pool" where
  "push_invalid alloc o1 p = (if alloc then p\<lparr>pl_invalid := pl_invalid p @ [o1]\<rparr> else p)"

definition del_object :: "bool \<Rightarrow> ptr \<Rightarrow> pool \<Rightarrow> bool \<times> pool" where
  "del_object alloc o1 p =
     (let exist = pool_exist (pl_id p o1) p; p1 = erase (pl_id p o1) p
      in (exist, if exist then push_invalid alloc o1 p1 else p1))"

definition del_object_id :: "bool \<Rightarrow> object_id \<Rightarrow> pool \<Rightarrow> bool \<times> pool" where
  "del_object_id alloc i p =
     (case pool_find i p of None \<Rightarrow> (False, p) | Some o1 \<Rightarrow> (True, push_invalid alloc o1 (erase i p)))"

definition pool_finalize :: "pool \<Rightarrow> pool" where
  "pool_finalize p = p\<lparr>pl_can := []\<rparr>"

definition init_object :: "ptr option \<Rightarrow> pool \<Rightarrow> pool" where
  "init_object object_ptr p =
     (case object_ptr of None \<Rightarrow> p
      | Some o1 \<Rightarrow> p\<lparr>pl_id := (pl_id p)(o1 := 1 + pl_cur_id p), pl_cur_id := pl_cur_id p + 1\<rparr>)"

definition init_object_id :: "ptr \<Rightarrow> object_id \<Rightarrow> pool \<Rightarrow> bool \<times> pool" where
  "init_object_id o1 i p =
     (if pl_id p o1 = i then (True, p)
      else
        let (inserted, p1) = emplace i o1 p
        in if \<not> inserted then (False, p1)
           else let p2 = erase (pl_id p o1) p1 in (True, p2\<lparr>pl_id := (pl_id p2)(o1 := i)\<rparr>))"

definition invalid_object_find :: "object_id \<Rightarrow> pool \<Rightarrow> ptr option" where
  "invalid_object_find i p = find (\<lambda>o1. pl_id p o1 = i) (pl_invalid p)"

definition invalid_object_at :: "nat \<Rightarrow> pool \<Rightarrow> ptr option" where
  "invalid_object_at i p = (if i < length (pl_invalid p) then Some (pl_invalid p ! i) else None)"

definition invalid_object_pop_id :: "(ptr \<Rightarrow> bool) \<Rightarrow> (ptr \<Rightarrow> bool) \<Rightarrow> object_id \<Rightarrow> pool \<Rightarrow> ptr option \<times> pool" where
  "invalid_object_pop_id uniq obs i p =
     (case invalid_object_find i p of None \<Rightarrow> (None, p)
      | Some o1 \<Rightarrow> if uniq o1 \<and> obs o1 then (Some o1, p\<lparr>pl_invalid := remove1 o1 (pl_invalid p)\<rparr>) else (None, p))"

definition invalid_object_pop :: "(ptr \<Rightarrow> bool) \<Rightarrow> (ptr \<Rightarrow> bool) \<Rightarrow> pool \<Rightarrow> ptr option \<times> pool" where
  "invalid_object_pop uniq obs p =
     (case find (\<lambda>o1. uniq o1 \<and> obs o1) (pl_invalid p) of None \<Rightarrow> (None, p)
      | Some o1 \<Rightarrow> (Some o1, p\<lparr>pl_invalid := remove1 o1 (pl_invalid p)\<rparr>))"

definition change_object_id :: "(ptr \<Rightarrow> bool) \<Rightarrow> (ptr \<Rightarrow> bool) \<Rightarrow> ptr \<Rightarrow> object_id \<Rightarrow> pool \<Rightarrow> ptr option \<times> pool" where
  "change_object_id uniq obs o1 i p =
     (case invalid_object_pop_id uniq obs i p of (None, p1) \<Rightarrow> (None, p1)
      | (Some old, p1) \<Rightarrow>
          let (done, p2) = init_object_id o1 i p1
          in if \<not> done then (None, p2\<lparr>pl_invalid := pl_invalid p2 @ [old]\<rparr>) else (Some old, p2))"

text \<open>\<open>create_object\<close>, without reuse and with it; \<open>mk\<close> is the object \<open>make_shared\<close> gives.\<close>

definition create_object :: "ptr option \<Rightarrow> pool \<Rightarrow> ptr option \<times> pool" where
  "create_object mk p = (mk, init_object mk p)"

definition create_object_reuse :: "(ptr \<Rightarrow> bool) \<Rightarrow> (ptr \<Rightarrow> bool) \<Rightarrow> ptr option \<Rightarrow> pool \<Rightarrow> ptr option \<times> pool" where
  "create_object_reuse uniq obs mk p =
     (let (reused, p1) = invalid_object_pop uniq obs p;
          object_ptr = (if reused = None then mk else reused)
      in (object_ptr, init_object object_ptr p1))"

definition clear_obsoleted_object :: "(ptr \<Rightarrow> bool) \<Rightarrow> (ptr \<Rightarrow> bool) \<Rightarrow> pool \<Rightarrow> nat \<times> pool" where
  "clear_obsoleted_object alloc obs p =
     (let objects = filter alloc (filter obs (map snd (pl_can p)))
      in (length objects,
          p\<lparr>pl_can := filter (\<lambda>(_, o1). \<not> obs o1) (pl_can p), pl_invalid := pl_invalid p @ objects\<rparr>))"

text \<open>The loop of \<open>free_object\<close>: the objects that stay, and how many were freed.\<close>

fun free_loop :: "(ptr \<Rightarrow> bool) \<Rightarrow> nat \<Rightarrow> nat \<Rightarrow> ptr list \<Rightarrow> ptr list \<times> nat" where
  "free_loop ok num num_affected [] = ([], num_affected)"
| "free_loop ok num num_affected (o1 # os) =
     (if num = 0 then (o1 # os, num_affected)
      else if ok o1 then free_loop ok (num - 1) (num_affected + 1) os
      else let (kept, n) = free_loop ok num num_affected os in (o1 # kept, n))"

definition free_object :: "(ptr \<Rightarrow> bool) \<Rightarrow> (ptr \<Rightarrow> bool) \<Rightarrow> nat \<Rightarrow> pool \<Rightarrow> nat \<times> pool" where
  "free_object uniq obs num p =
     (let (kept, n) = free_loop (\<lambda>o1. uniq o1 \<and> obs o1) num 0 (pl_invalid p)
      in (n, p\<lparr>pl_invalid := kept\<rparr>))"

section \<open>The pool's invariant\<close>

text \<open>
  Every valid object is registered once, under the id it carries; an object is valid or invalid, not
  both; and the invalid list has no duplicates.
\<close>

definition pool_inv :: "pool \<Rightarrow> bool" where
  "pool_inv p \<longleftrightarrow>
     distinct (map fst (pl_can p)) \<and> (\<forall>(i, o1)\<in>set (pl_can p). pl_id p o1 = i) \<and>
     distinct (pl_invalid p) \<and> snd ` set (pl_can p) \<inter> set (pl_invalid p) = {}"

lemma pool_inv_new: "pool_inv (pool_new ids)"
  by (simp add: pool_inv_def pool_new_def)

lemma pool_find_set: "pool_inv p \<Longrightarrow> pool_find i p = Some o1 \<longleftrightarrow> (i, o1) \<in> set (pl_can p)"
  by (simp add: pool_find_def pool_inv_def)

lemma pool_exist_set: "pool_exist i p \<longleftrightarrow> i \<in> fst ` set (pl_can p)"
  by (simp add: pool_exist_def pool_find_def map_of_eq_None_iff)

lemma pool_inv_emplace:
  "pool_inv p \<Longrightarrow> o1 \<notin> set (pl_invalid p) \<Longrightarrow> pl_id p o1 = i \<Longrightarrow> pool_inv (snd (emplace i o1 p))"
  by (auto simp: pool_inv_def emplace_def pool_exist_set)

lemma distinct_erase: "distinct (map fst xs) \<Longrightarrow> distinct (map fst (filter P xs))"
  by (induction xs) auto

lemma pool_inv_erase: "pool_inv p \<Longrightarrow> pool_inv (erase i p)"
  by (auto simp: pool_inv_def erase_def distinct_erase)

lemma pool_inv_push:
  "pool_inv p \<Longrightarrow> o1 \<notin> snd ` set (pl_can p) \<Longrightarrow> o1 \<notin> set (pl_invalid p) \<Longrightarrow> pool_inv (push_invalid alloc o1 p)"
  by (auto simp: pool_inv_def push_invalid_def)

lemma erased_gone: "pool_inv p \<Longrightarrow> o1 \<notin> snd ` set (pl_can (erase (pl_id p o1) p))"
  by (auto simp: pool_inv_def erase_def)

lemma pool_inv_del_id: "pool_inv p \<Longrightarrow> pool_inv (snd (del_object_id alloc i p))"
proof (cases "pool_find i p")
  case None
  assume "pool_inv p"
  then show ?thesis using None by (simp add: del_object_id_def)
next
  case (Some o1)
  assume inv: "pool_inv p"
  then have m: "(i, o1) \<in> set (pl_can p)" using Some pool_find_set by blast
  then have i: "pl_id p o1 = i" using inv by (auto simp: pool_inv_def)
  have "o1 \<notin> set (pl_invalid (erase i p))" using inv m by (auto simp: pool_inv_def erase_def)
  moreover have "o1 \<notin> snd ` set (pl_can (erase i p))" using erased_gone [OF inv, of o1] i by simp
  ultimately show ?thesis using Some pool_inv_push [OF pool_inv_erase [OF inv]] by (simp add: del_object_id_def)
qed

lemma pool_inv_del:
  assumes "pool_inv p" "pool_exist (pl_id p o1) p \<Longrightarrow> o1 \<notin> set (pl_invalid p)"
  shows "pool_inv (snd (del_object alloc o1 p))"
proof (cases "pool_exist (pl_id p o1) p")
  case True
  then show ?thesis
    using pool_inv_push [OF pool_inv_erase [OF assms(1), of "pl_id p o1"] erased_gone [OF assms(1)]] assms(2)
    by (simp add: del_object_def Let_def erase_def)
next
  case False
  then show ?thesis using pool_inv_erase [OF assms(1)] by (simp add: del_object_def Let_def)
qed

lemma pool_inv_init:
  "pool_inv p \<Longrightarrow> \<forall>o1. object_ptr = Some o1 \<longrightarrow> o1 \<notin> snd ` set (pl_can p) \<Longrightarrow> pool_inv (init_object object_ptr p)"
  by (cases object_ptr) (force simp: pool_inv_def init_object_def)+

lemma pool_inv_init_id:
  assumes "pool_inv p" "o1 \<notin> set (pl_invalid p)"
    and "\<forall>q. (pl_id p o1, q) \<in> set (pl_can p) \<longrightarrow> q = o1"
  shows "pool_inv (snd (init_object_id o1 i p))"
proof (cases "pl_id p o1 = i \<or> pool_exist i p")
  case True
  then show ?thesis using assms(1) by (auto simp: init_object_id_def emplace_def)
next
  case False
  have inv: "distinct (map fst (pl_can p))" "\<forall>(j, q)\<in>set (pl_can p). pl_id p q = j" "distinct (pl_invalid p)"
    "snd ` set (pl_can p) \<inter> set (pl_invalid p) = {}"
    using assms(1) by (auto simp: pool_inv_def)
  let ?can = "filter (\<lambda>(j, _). j \<noteq> pl_id p o1) (pl_can p) @ [(i, o1)]"
  have e: "snd (init_object_id o1 i p) = p\<lparr>pl_can := ?can, pl_id := (pl_id p)(o1 := i)\<rparr>"
    using False by (auto simp: init_object_id_def emplace_def erase_def Let_def)
  have "distinct (map fst ?can)" using inv(1) False by (auto simp: distinct_erase pool_exist_set)
  moreover have "\<forall>(j, q)\<in>set ?can. ((pl_id p)(o1 := i)) q = j" using inv(2) by auto
  moreover have "snd ` set ?can \<inter> set (pl_invalid p) = {}" using inv(4) assms(2) by auto
  ultimately show ?thesis unfolding e using inv(3) by (simp add: pool_inv_def)
qed

lemma pool_inv_shrink: "pool_inv p \<Longrightarrow> set os \<subseteq> set (pl_invalid p) \<Longrightarrow> distinct os \<Longrightarrow> pool_inv (p\<lparr>pl_invalid := os\<rparr>)"
  by (auto simp: pool_inv_def)

lemma invalid_find_in: "invalid_object_find i p = Some o1 \<Longrightarrow> o1 \<in> set (pl_invalid p) \<and> pl_id p o1 = i"
  by (auto simp: invalid_object_find_def find_Some_iff)

lemma pool_inv_pop_id: "pool_inv p \<Longrightarrow> pool_inv (snd (invalid_object_pop_id uniq obs i p))"
  by (auto simp: invalid_object_pop_id_def pool_inv_def disjoint_iff split: option.splits dest: notin_set_remove1)

lemma pool_inv_pop: "pool_inv p \<Longrightarrow> pool_inv (snd (invalid_object_pop uniq obs p))"
  by (auto simp: invalid_object_pop_def pool_inv_def disjoint_iff split: option.splits dest: notin_set_remove1)

lemma pool_inv_objects: "pool_inv p \<Longrightarrow> distinct (map snd (pl_can p))"
proof -
  assume inv: "pool_inv p"
  have "map fst (pl_can p) = map (pl_id p) (map snd (pl_can p))" using inv by (auto simp: pool_inv_def)
  moreover have "distinct (map fst (pl_can p))" using inv by (simp add: pool_inv_def)
  ultimately show ?thesis by (metis distinct_map)
qed

lemma distinct_snd_inj: "distinct (map snd xs) \<Longrightarrow> (i, x) \<in> set xs \<Longrightarrow> (j, x) \<in> set xs \<Longrightarrow> i = j"
  by (induction xs) force+

lemma pool_inv_clear: "pool_inv p \<Longrightarrow> pool_inv (snd (clear_obsoleted_object alloc obs p))"
  using pool_inv_objects [of p]
  by (fastforce simp: clear_obsoleted_object_def pool_inv_def Let_def distinct_erase disjoint_iff)

lemma free_loop_spec:
  "\<exists>pre post. os = pre @ post \<and>
     free_loop ok num n os = (filter (\<lambda>x. \<not> ok x) pre @ post, n + length (filter ok pre)) \<and>
     length (filter ok pre) \<le> num \<and> (length (filter ok pre) = num \<or> post = [])"
proof (induction ok num n os rule: free_loop.induct)
  case (1 ok num n)
  show ?case by (intro exI [of _ "[]"]) simp
next
  case (2 ok num n x xs)
  consider "num = 0" | "num \<noteq> 0" "ok x" | "num \<noteq> 0" "\<not> ok x" by blast
  then show ?case
  proof cases
    case 1
    then show ?thesis by (intro exI [of _ "[]"] exI [of _ "x # xs"]) simp
  next
    case 2
    then obtain pre post where h: "xs = pre @ post"
      "free_loop ok (num - 1) (n + 1) xs = (filter (\<lambda>x. \<not> ok x) pre @ post, n + 1 + length (filter ok pre))"
      "length (filter ok pre) \<le> num - 1" "length (filter ok pre) = num - 1 \<or> post = []"
      using "2.IH"(1) by blast
    then show ?thesis using 2 by (intro exI [of _ "x # pre"] exI [of _ post]) auto
  next
    case 3
    then obtain pre post where h: "xs = pre @ post"
      "free_loop ok num n xs = (filter (\<lambda>x. \<not> ok x) pre @ post, n + length (filter ok pre))"
      "length (filter ok pre) \<le> num" "length (filter ok pre) = num \<or> post = []"
      using "2.IH"(2) by blast
    then show ?thesis using 3 by (intro exI [of _ "x # pre"] exI [of _ post]) auto
  qed
qed

lemma free_loop_count: "snd (free_loop ok num n os) = n + min num (length (filter ok os))"
proof -
  obtain pre post where h: "os = pre @ post"
    "free_loop ok num n os = (filter (\<lambda>x. \<not> ok x) pre @ post, n + length (filter ok pre))"
    "length (filter ok pre) \<le> num" "length (filter ok pre) = num \<or> post = []"
    using free_loop_spec by blast
  then show ?thesis by (auto simp: min_def)
qed

lemma free_loop_keeps: "x \<in> set os \<Longrightarrow> \<not> ok x \<Longrightarrow> x \<in> set (fst (free_loop ok num n os))"
  by (induction ok num n os rule: free_loop.induct) (auto simp: split_beta)

lemma free_loop_sub: "set (fst (free_loop ok num n os)) \<subseteq> set os"
  by (induction ok num n os rule: free_loop.induct) (auto simp: split_beta)

lemma free_loop_distinct: "distinct os \<Longrightarrow> distinct (fst (free_loop ok num n os))"
  by (induction ok num n os rule: free_loop.induct) (use free_loop_sub in \<open>auto simp: split_beta, blast\<close>)

lemma pool_inv_free: "pool_inv p \<Longrightarrow> pool_inv (snd (free_object uniq obs num p))"
  unfolding free_object_def split_beta Let_def snd_conv
  by (rule pool_inv_shrink) (auto simp: pool_inv_def free_loop_distinct dest: subsetD [OF free_loop_sub])

lemma pop_id_result:
  "invalid_object_pop_id uniq obs i p = (r, p1) \<Longrightarrow>
     (case r of None \<Rightarrow> p1 = p
      | Some old \<Rightarrow> old \<in> set (pl_invalid p) \<and> pl_id p old = i \<and> uniq old \<and> obs old \<and>
          p1 = p\<lparr>pl_invalid := remove1 old (pl_invalid p)\<rparr>)"
  by (auto simp: invalid_object_pop_id_def dest: invalid_find_in split: option.splits if_splits)

lemma init_id_invalid: "pl_invalid (snd (init_object_id o1 i p)) = pl_invalid p"
  by (simp add: init_object_id_def emplace_def erase_def Let_def)

lemma init_id_fail: "\<not> fst (init_object_id o1 i p) \<Longrightarrow> snd (init_object_id o1 i p) = p"
  by (auto simp: init_object_id_def emplace_def erase_def Let_def split: if_splits)

lemma pool_inv_change_id:
  assumes inv: "pool_inv p" and ok: "o1 \<notin> set (pl_invalid p)" "\<forall>q. (pl_id p o1, q) \<in> set (pl_can p) \<longrightarrow> q = o1"
  shows "pool_inv (snd (change_object_id uniq obs o1 i p))"
proof -
  obtain r p1 where r: "invalid_object_pop_id uniq obs i p = (r, p1)" by (cases "invalid_object_pop_id uniq obs i p")
  have inv1: "pool_inv p1" using pool_inv_pop_id [OF inv, of uniq obs i] r by simp
  show ?thesis
  proof (cases r)
    case None
    then show ?thesis using r inv1 by (simp add: change_object_id_def)
  next
    case (Some old)
    then have old: "old \<in> set (pl_invalid p)" "p1 = p\<lparr>pl_invalid := remove1 old (pl_invalid p)\<rparr>"
      using pop_id_result [OF r] by auto
    then have ok1: "o1 \<notin> set (pl_invalid p1)" "\<forall>q. (pl_id p1 o1, q) \<in> set (pl_can p1) \<longrightarrow> q = o1"
      using ok by (auto dest: notin_set_remove1)
    have inv2: "pool_inv (snd (init_object_id o1 i p1))" using pool_inv_init_id [OF inv1 ok1] .
    have restored: "pool_inv (p1\<lparr>pl_invalid := pl_invalid p1 @ [old]\<rparr>)"
      using inv old inv1 by (auto simp: pool_inv_def)
    show ?thesis
    proof (cases "fst (init_object_id o1 i p1)")
      case True
      then show ?thesis using inv2 by (simp add: change_object_id_def r Some split_beta Let_def)
    next
      case False
      then show ?thesis using restored init_id_fail [OF False]
        by (simp add: change_object_id_def r Some split_beta Let_def)
    qed
  qed
qed

lemma pool_inv_create_reuse:
  assumes "pool_inv p" "\<forall>o1\<in>set_option mk. o1 \<notin> snd ` set (pl_can p)"
  shows "pool_inv (snd (create_object_reuse uniq obs mk p))"
proof -
  obtain r p1 where r: "invalid_object_pop uniq obs p = (r, p1)" by (cases "invalid_object_pop uniq obs p")
  have "pool_inv p1" using pool_inv_pop [OF assms(1), of uniq obs] r by simp
  moreover have "pl_can p1 = pl_can p" "\<forall>x. r = Some x \<longrightarrow> x \<in> set (pl_invalid p)"
    using r by (auto simp: invalid_object_pop_def find_Some_iff split: option.splits)
  moreover have "\<forall>x. (if r = None then mk else r) = Some x \<longrightarrow> x \<notin> snd ` set (pl_can p)"
    using assms calculation(3) by (auto simp: pool_inv_def)
  ultimately show ?thesis by (simp add: create_object_reuse_def r Let_def pool_inv_init)
qed

lemma pool_inv_add:
  "pool_inv p \<Longrightarrow> \<forall>o1\<in>set_option object_ptr. o1 \<notin> set (pl_invalid p) \<Longrightarrow> pool_inv (snd (add_object object_ptr p))"
  by (auto simp: add_object_def pool_inv_emplace split: option.splits)

section \<open>Running the pool\<close>

datatype pool_op =
    Create "ptr option"
  | Create_reuse "ptr \<Rightarrow> bool" "ptr \<Rightarrow> bool" "ptr option"
  | Add "ptr option"
  | Del bool ptr
  | Del_id bool object_id
  | Init_id ptr object_id
  | Change_id "ptr \<Rightarrow> bool" "ptr \<Rightarrow> bool" ptr object_id
  | Pop "ptr \<Rightarrow> bool" "ptr \<Rightarrow> bool"
  | Clear_obsoleted "ptr \<Rightarrow> bool" "ptr \<Rightarrow> bool"
  | Free "ptr \<Rightarrow> bool" "ptr \<Rightarrow> bool" nat
  | Finalize

fun pool_do :: "pool_op \<Rightarrow> pool \<Rightarrow> pool" where
  "pool_do (Create mk) p = snd (create_object mk p)"
| "pool_do (Create_reuse uniq obs mk) p = snd (create_object_reuse uniq obs mk p)"
| "pool_do (Add object_ptr) p = snd (add_object object_ptr p)"
| "pool_do (Del alloc o1) p = snd (del_object alloc o1 p)"
| "pool_do (Del_id alloc i) p = snd (del_object_id alloc i p)"
| "pool_do (Init_id o1 i) p = snd (init_object_id o1 i p)"
| "pool_do (Change_id uniq obs o1 i) p = snd (change_object_id uniq obs o1 i p)"
| "pool_do (Pop uniq obs) p = snd (invalid_object_pop uniq obs p)"
| "pool_do (Clear_obsoleted alloc obs) p = snd (clear_obsoleted_object alloc obs p)"
| "pool_do (Free uniq obs num) p = snd (free_object uniq obs num p)"
| "pool_do Finalize p = pool_finalize p"

text \<open>
  What the callers guarantee: a created object is at a fresh address; an object is registered, deleted
  or renamed only while it is not among the invalid ones; and an object that is being renamed is the
  only one with its id.
\<close>

fun pool_op_ok :: "pool_op \<Rightarrow> pool \<Rightarrow> bool" where
  "pool_op_ok (Create mk) p \<longleftrightarrow> (\<forall>o1\<in>set_option mk. o1 \<notin> snd ` set (pl_can p))"
| "pool_op_ok (Create_reuse uniq obs mk) p \<longleftrightarrow> (\<forall>o1\<in>set_option mk. o1 \<notin> snd ` set (pl_can p))"
| "pool_op_ok (Add object_ptr) p \<longleftrightarrow> (\<forall>o1\<in>set_option object_ptr. o1 \<notin> set (pl_invalid p))"
| "pool_op_ok (Del alloc o1) p \<longleftrightarrow> pool_exist (pl_id p o1) p \<longrightarrow> o1 \<notin> set (pl_invalid p)"
| "pool_op_ok (Init_id o1 i) p \<longleftrightarrow>
     o1 \<notin> set (pl_invalid p) \<and> (\<forall>(j, q)\<in>set (pl_can p). j = pl_id p o1 \<longrightarrow> q = o1)"
| "pool_op_ok (Change_id uniq obs o1 i) p \<longleftrightarrow>
     o1 \<notin> set (pl_invalid p) \<and> (\<forall>(j, q)\<in>set (pl_can p). j = pl_id p o1 \<longrightarrow> q = o1)"
| "pool_op_ok _ p \<longleftrightarrow> True"

fun pool_run :: "pool_op list \<Rightarrow> pool \<Rightarrow> pool" where
  "pool_run [] p = p"
| "pool_run (op1 # ops) p = pool_run ops (pool_do op1 p)"

fun pool_run_ok :: "pool_op list \<Rightarrow> pool \<Rightarrow> bool" where
  "pool_run_ok [] p \<longleftrightarrow> True"
| "pool_run_ok (op1 # ops) p \<longleftrightarrow> pool_op_ok op1 p \<and> pool_run_ok ops (pool_do op1 p)"

lemma pool_inv_do: "pool_inv p \<Longrightarrow> pool_op_ok op1 p \<Longrightarrow> pool_inv (pool_do op1 p)"
  by (cases op1)
     (auto simp: create_object_def pool_inv_create_reuse pool_inv_add pool_inv_del pool_inv_del_id pool_inv_pop
        pool_inv_clear pool_inv_free pool_finalize_def pool_inv_def [of "_\<lparr>pl_can := []\<rparr>"]
        intro!: pool_inv_init pool_inv_init_id pool_inv_change_id, auto simp: pool_inv_def)

lemma pool_inv_run: "pool_inv p \<Longrightarrow> pool_run_ok ops p \<Longrightarrow> pool_inv (pool_run ops p)"
  by (induction ops arbitrary: p) (auto simp: pool_inv_do)

section \<open>Properties\<close>

text \<open>
  C29. From the empty pool, after any sequence of operations whose callers keep their side (an object is
  not registered, deleted or renamed while it waits among the invalid ones, \<open>pool_run_ok\<close>): no id is
  registered twice, \<open>find\<close> returns exactly the object that carries the id it was asked for, no object
  is valid and invalid at once, and none waits twice to be freed.
\<close>
theorem pool_registration:
  assumes "pool_run_ok ops (pool_new ids)"
  shows "let p = pool_run ops (pool_new ids) in
     distinct (map fst (pl_can p)) \<and> distinct (map snd (pl_can p)) \<and> distinct (pl_invalid p) \<and>
     (\<forall>i o1. pool_find i p = Some o1 \<longrightarrow> pl_id p o1 = i \<and> o1 \<notin> set (pl_invalid p))"
proof -
  have inv: "pool_inv (pool_run ops (pool_new ids))" using pool_inv_run [OF pool_inv_new assms] .
  show ?thesis
    using inv pool_inv_objects [OF inv] pool_find_set [OF inv] unfolding Let_def pool_inv_def by fastforce
qed

lemma pool_registration_witness:
  "let p = pool_run [Create (Some 1), Add (Some 1), Create (Some 2), Add (Some 2), Del True 1] (pool_new (\<lambda>_. 0))
   in pool_find 1 p = Some 2 \<and> pool_find 0 p = None \<and> pl_invalid p = [1] \<and> distinct (map fst (pl_can p))"
  using pool_registration [of "[Create (Some 1), Add (Some 1), Create (Some 2), Add (Some 2), Del True 1]" "\<lambda>_. 0"]
  by (simp add: pool_new_def create_object_def init_object_def add_object_def emplace_def pool_exist_def pool_find_def
      del_object_def erase_def push_invalid_def ASCS_START_OBJECT_ID_def ASCS_MAX_OBJECT_NUM_def Let_def)

text \<open>
  \<open>free_object(num)\<close> frees \<open>num\<close> of the objects that are obsoleted and referenced by nobody else, or
  all of them if there are fewer: it walks the list from the front, frees only such objects, leaves the
  others in their order, and returns how many it freed.
\<close>
theorem free_object_spec:
  "\<exists>pre post. pl_invalid p = pre @ post \<and>
     free_object uniq obs num p =
       (min num (length (filter (\<lambda>x. uniq x \<and> obs x) (pl_invalid p))),
        p\<lparr>pl_invalid := filter (\<lambda>x. \<not> (uniq x \<and> obs x)) pre @ post\<rparr>) \<and>
     length (filter (\<lambda>x. uniq x \<and> obs x) pre) \<le> num \<and>
     (length (filter (\<lambda>x. uniq x \<and> obs x) pre) = num \<or> post = [])"
proof -
  obtain pre post where h: "pl_invalid p = pre @ post"
    "free_loop (\<lambda>x. uniq x \<and> obs x) num 0 (pl_invalid p) =
       (filter (\<lambda>x. \<not> (uniq x \<and> obs x)) pre @ post, 0 + length (filter (\<lambda>x. uniq x \<and> obs x) pre))"
    "length (filter (\<lambda>x. uniq x \<and> obs x) pre) \<le> num" "length (filter (\<lambda>x. uniq x \<and> obs x) pre) = num \<or> post = []"
    using free_loop_spec [of "pl_invalid p" "\<lambda>x. uniq x \<and> obs x" num 0] by blast
  then show ?thesis
    using free_loop_count [of "\<lambda>x. uniq x \<and> obs x" num 0 "pl_invalid p"]
    by (intro exI [of _ pre] exI [of _ post]) (simp add: free_object_def split_beta)
qed

lemma change_id_success:
  assumes inv: "pool_inv p" and o1: "o1 \<notin> set (pl_invalid p)" and new: "pl_id p o1 \<noteq> i"
    and r: "change_object_id uniq obs o1 i p = (Some old, p')"
  shows "old \<in> set (pl_invalid p) \<and> pl_id p old = i \<and> uniq old \<and> obs old \<and> pool_find i p = None \<and>
    pl_invalid p' = remove1 old (pl_invalid p) \<and> pl_id p' = (pl_id p)(o1 := i) \<and>
    pl_can p' = filter (\<lambda>(j, _). j \<noteq> pl_id p o1) (pl_can p) @ [(i, o1)]"
proof -
  obtain s p1 where s: "invalid_object_pop_id uniq obs i p = (s, p1)" by (cases "invalid_object_pop_id uniq obs i p")
  then have "s = Some old" using r by (auto simp: change_object_id_def split_beta Let_def split: option.splits if_splits)
  then show ?thesis
    using r s pop_id_result [OF s] new
    by (auto simp: change_object_id_def split_beta Let_def init_object_id_def emplace_def erase_def pool_exist_def pool_find_def
        split: if_splits)
qed

lemma change_id_failure:
  assumes r: "change_object_id uniq obs o1 i p = (None, p')"
  shows "pl_can p' = pl_can p \<and> pl_id p' = pl_id p \<and> mset (pl_invalid p') = mset (pl_invalid p)"
proof -
  obtain s p1 where s: "invalid_object_pop_id uniq obs i p = (s, p1)" by (cases "invalid_object_pop_id uniq obs i p")
  show ?thesis
    using r s pop_id_result [OF s]
    by (auto simp: change_object_id_def split_beta Let_def split: option.splits if_splits dest: init_id_fail)
qed

lemma map_of_filter_other: "map_of (filter (\<lambda>(j, _). j \<noteq> k) xs) j = (if j = k then None else map_of xs j)"
  by (induction xs) auto

text \<open>
  \<open>change_object_id\<close> lets an object take over the id of an abandoned one. When it succeeds, the id
  belonged to an invalid object that was obsoleted and unshared, which is handed back and is in the
  pool no more; the object is found under the new id, nobody under its former one, and every other id
  finds what it found. When it fails, the valid objects, the ids and the invalid objects are as before
  (the order of the invalid ones aside).
\<close>
theorem change_object_id_takes_over:
  assumes "pool_run_ok ops (pool_new ids)" and "p = pool_run ops (pool_new ids)"
    and "o1 \<notin> set (pl_invalid p)" and "pl_id p o1 \<noteq> i"
  shows "case change_object_id uniq obs o1 i p of
      (Some old, p') \<Rightarrow>
        pl_id p old = i \<and> uniq old \<and> obs old \<and> old \<in> set (pl_invalid p) \<and> old \<notin> set (pl_invalid p') \<and>
        (\<forall>j. pool_find j p' = (if j = i then Some o1 else if j = pl_id p o1 then None else pool_find j p)) \<and>
        (\<forall>j. pool_find j p' \<noteq> Some old) \<and> pl_id p' o1 = i
    | (None, p') \<Rightarrow>
        (\<forall>j. pool_find j p' = pool_find j p) \<and> pl_id p' = pl_id p \<and> mset (pl_invalid p') = mset (pl_invalid p)"
proof -
  have inv: "pool_inv p" using pool_inv_run [OF pool_inv_new assms(1)] assms(2) by simp
  obtain r p' where r: "change_object_id uniq obs o1 i p = (r, p')" by (cases "change_object_id uniq obs o1 i p")
  show ?thesis
  proof (cases r)
    case None
    then show ?thesis using r change_id_failure [of uniq obs o1 i p p'] by (simp add: pool_find_def)
  next
    case (Some old)
    then have c: "old \<in> set (pl_invalid p) \<and> pl_id p old = i \<and> uniq old \<and> obs old \<and> pool_find i p = None \<and>
        pl_invalid p' = remove1 old (pl_invalid p) \<and> pl_id p' = (pl_id p)(o1 := i) \<and>
        pl_can p' = filter (\<lambda>(j, _). j \<noteq> pl_id p o1) (pl_can p) @ [(i, o1)]"
      using change_id_success [OF inv assms(3,4)] r by blast
    have f: "pool_find j p' = (if j = i then Some o1 else if j = pl_id p o1 then None else pool_find j p)" for j
      using c by (auto simp: pool_find_def map_of_filter_other map_add_def split: option.splits)
    have "old \<noteq> o1" using c assms(3) by blast
    moreover have "pool_find j p \<noteq> Some old" for j
      using inv c pool_find_set [OF inv, of j old] by (auto simp: pool_inv_def)
    moreover have "old \<notin> set (pl_invalid p')" using c inv by (simp add: pool_inv_def)
    ultimately show ?thesis using r Some c f by simp
  qed
qed

lemma change_object_id_takes_over_witness:
  "let ops = [Create (Some 1), Add (Some 1), Del True 1, Create (Some 2), Add (Some 2)]; p = pool_run ops (pool_new (\<lambda>_. 0))
   in fst (change_object_id (\<lambda>_. True) (\<lambda>_. True) 2 0 p) = Some 1 \<and>
      pool_find 0 (snd (change_object_id (\<lambda>_. True) (\<lambda>_. True) 2 0 p)) = Some 2"
  using change_object_id_takes_over [of "[Create (Some 1), Add (Some 1), Del True 1, Create (Some 2), Add (Some 2)]"
      "\<lambda>_. 0" "pool_run [Create (Some 1), Add (Some 1), Del True 1, Create (Some 2), Add (Some 2)] (pool_new (\<lambda>_. 0))"
      2 0 "\<lambda>_. True" "\<lambda>_. True"]
  by (simp add: pool_new_def create_object_def init_object_def add_object_def emplace_def pool_exist_def pool_find_def
      del_object_def erase_def push_invalid_def ASCS_START_OBJECT_ID_def ASCS_MAX_OBJECT_NUM_def Let_def
      change_object_id_def invalid_object_pop_id_def invalid_object_find_def init_object_id_def)

end
