(* ===== verification/Send_Path.thy ===== *)
theory Send_Path
  imports Msg_Queue "HOL-Library.Multiset"
begin

text \<open>
  How a TCP socket sends (\<open>socket.h\<close>, \<open>tcp/socket.h\<close> and the sending macros of \<open>base.h\<close>). Any thread
  puts messages into \<open>send_buffer\<close>; only \<open>do_send_msg\<close>, which runs in the strand \<open>rw_strand\<close>, moves them
  to \<open>sending_msgs\<close> and issues the \<open>async_write\<close>, whose completion handler \<open>send_handler\<close> runs in the same
  strand. The atomic flag \<open>sending\<close> is set by the one that issues a write and cleared when there is
  nothing left to write. The strand runs one handler at a time, but other threads run between any two
  of its accesses to the shared data, so the handlers are cut into micro steps at these accesses.
\<close>

text \<open>
  Where the strand stands in \<open>do_send_msg(in_strand)\<close> or \<open>send_handler\<close>: before the test of
  \<open>send_buffer.empty()\<close>, before \<open>test_and_set_sending\<close>, before \<open>move_items_out\<close>, before \<open>clear_sending\<close>,
  before the second look at \<open>send_buffer\<close> in \<open>send_handler\<close>, or before the test in \<open>send_msg\<close>.
\<close>

datatype send_pc =
    Strand_idle
  | Test_empty bool
  | Test_and_set
  | Move_out bool
  | Clear_sending bool
  | Clear_failed
  | Recheck
  | Test_send_msg

record 'm sender =
  sd_buffer :: "'m msg_queue"
  sd_sending :: bool
  sd_msgs :: "'m list"
  sd_write :: "'m list option"
  sd_ready :: bool
  sd_checks :: nat
  sd_pops :: nat
  sd_tasks :: nat
  sd_pc :: send_pc

text \<open>
  \<open>sd_write\<close> is the write that is outstanding, with the messages its buffers refer to; \<open>sd_checks\<close> counts
  the threads that queued a message and are about to call \<open>send_msg\<close>, \<open>sd_pops\<close> those that took messages
  out and are about to call \<open>_send_msg\<close>, \<open>sd_tasks\<close> the calls of \<open>do_send_msg\<close> handed to the strand.
\<close>

text \<open>
  A new sender. The flag starts clear: \<open>sending\<close> is an \<open>atomic_size_t\<close> that counts as set when it is 1, and since
  C++20 it starts at 0. Before (the examples are built as C++11) the constructor leaves it as the memory was; any
  value but 1 behaves like 0, and \<open>uninitialised_sending\<close> shows what 1 does. \<open>reset\<close> clears it.
\<close>

definition sd_new :: "'m sender" where
  "sd_new = \<lparr>sd_buffer = q_new, sd_sending = False, sd_msgs = [], sd_write = None, sd_ready = False,
     sd_checks = 0, sd_pops = 0, sd_tasks = 0, sd_pc = Strand_idle\<rparr>"

section \<open>The operations of the users\<close>

definition is_send_buffer_available :: "nat \<Rightarrow> 'm sender \<Rightarrow> bool" where
  "is_send_buffer_available send_buf_size s \<longleftrightarrow> q_size_in_byte (sd_buffer s) < send_buf_size"

definition do_direct_send_msg :: "('m \<Rightarrow> nat) \<Rightarrow> bool \<Rightarrow> bool \<Rightarrow> 'm \<Rightarrow> 'm sender \<Rightarrow> bool \<times> 'm sender" where
  "do_direct_send_msg sz alloc prior msg s =
     (if sz msg = 0 then (True, s)
      else
        let (queued, q) = (if prior then enqueue_front sz alloc msg (sd_buffer s) else enqueue sz alloc msg (sd_buffer s))
        in (True, s\<lparr>sd_buffer := q, sd_checks := (if queued then sd_checks s + 1 else sd_checks s)\<rparr>))"

definition do_direct_send_msgs :: "('m \<Rightarrow> nat) \<Rightarrow> bool \<Rightarrow> 'm list \<Rightarrow> 'm sender \<Rightarrow> bool \<times> 'm sender" where
  "do_direct_send_msgs sz prior msg_can s =
     (let size_in_byte = get_size_in_byte sz msg_can;
          q = (if prior then move_items_in_front sz msg_can size_in_byte (sd_buffer s)
               else move_items_in sz msg_can size_in_byte (sd_buffer s))
      in (True, s\<lparr>sd_buffer := q, sd_checks := sd_checks s + 1\<rparr>))"

definition direct_send_msg ::
  "('m \<Rightarrow> nat) \<Rightarrow> nat \<Rightarrow> bool \<Rightarrow> 'm \<Rightarrow> bool \<Rightarrow> bool \<Rightarrow> 'm sender \<Rightarrow> bool \<times> 'm sender" where
  "direct_send_msg sz send_buf_size alloc msg can_overflow prior s =
     (if can_overflow \<or> is_send_buffer_available send_buf_size s then do_direct_send_msg sz alloc prior msg s
      else (False, s))"

text \<open>
  The overloads of \<open>TCP_SEND_MSG\<close>: one message, a container (also of two messages), and an array of
  byte ranges. \<open>pack\<close> is the packer's answer, success and the messages it made.
\<close>

definition tcp_send_msg ::
  "('m \<Rightarrow> nat) \<Rightarrow> nat \<Rightarrow> bool \<Rightarrow> bool \<Rightarrow> ('m \<Rightarrow> bool \<times> 'm list) \<Rightarrow> 'm \<Rightarrow> bool \<Rightarrow> bool \<Rightarrow> 'm sender \<Rightarrow> bool \<times> 'm sender" where
  "tcp_send_msg sz send_buf_size native alloc pack msg can_overflow prior s =
     (if \<not> can_overflow \<and> \<not> is_send_buffer_available send_buf_size s then (False, s)
      else if native then do_direct_send_msg sz alloc prior msg s
      else let (re, msg_can) = pack msg in if re then do_direct_send_msgs sz prior msg_can s else (False, s))"

definition tcp_send_msgs ::
  "('m \<Rightarrow> nat) \<Rightarrow> nat \<Rightarrow> bool \<Rightarrow> ('m list \<Rightarrow> bool \<times> 'm list) \<Rightarrow> 'm list \<Rightarrow> bool \<Rightarrow> bool \<Rightarrow> 'm sender \<Rightarrow> bool \<times> 'm sender" where
  "tcp_send_msgs sz send_buf_size native pack msg_can can_overflow prior s =
     (if \<not> can_overflow \<and> \<not> is_send_buffer_available send_buf_size s then (False, s)
      else if native then do_direct_send_msgs sz prior msg_can s
      else let (re, out) = pack msg_can in if re then do_direct_send_msgs sz prior out s else (False, s))"

definition tcp_send_array ::
  "('m \<Rightarrow> nat) \<Rightarrow> nat \<Rightarrow> bool \<Rightarrow> 'm \<Rightarrow> bool \<Rightarrow> bool \<Rightarrow> 'm sender \<Rightarrow> bool \<times> 'm sender" where
  "tcp_send_array sz send_buf_size alloc packed can_overflow prior s =
     (if \<not> can_overflow \<and> \<not> is_send_buffer_available send_buf_size s then (False, s)
      else do_direct_send_msg sz alloc prior packed s)"

definition send_heartbeat :: "('m \<Rightarrow> nat) \<Rightarrow> bool \<Rightarrow> 'm \<Rightarrow> 'm sender \<Rightarrow> 'm sender" where
  "send_heartbeat sz alloc msg s = (if sz msg \<noteq> 0 then snd (do_direct_send_msg sz alloc False msg s) else s)"

text \<open>\<open>pop_first_pending_send_msg\<close> and \<open>pop_all_pending_send_msg\<close>, up to the call of \<open>_send_msg\<close>.\<close>

definition pop_first_pending_send_msg :: "('m \<Rightarrow> nat) \<Rightarrow> 'm sender \<Rightarrow> 'm option \<times> 'm sender" where
  "pop_first_pending_send_msg sz s =
     (case try_dequeue sz (sd_buffer s) of
        (None, q) \<Rightarrow> (None, s\<lparr>sd_buffer := q\<rparr>)
      | (Some msg, q) \<Rightarrow> (Some msg, s\<lparr>sd_buffer := q, sd_pops := sd_pops s + 1\<rparr>))"

definition pop_all_pending_send_msg :: "('m \<Rightarrow> nat) \<Rightarrow> 'm sender \<Rightarrow> 'm list \<times> 'm sender" where
  "pop_all_pending_send_msg sz s =
     (let (can, q) = q_swap sz [] (sd_buffer s) in (can, s\<lparr>sd_buffer := q, sd_pops := sd_pops s + 1\<rparr>))"

text \<open>\<open>_send_msg\<close> hands \<open>do_send_msg\<close> to the strand; \<open>send_msg\<close> does so if the link is ready and nobody is sending.\<close>

definition post_send_msg :: "'m sender \<Rightarrow> 'm sender" where
  "post_send_msg s = s\<lparr>sd_tasks := sd_tasks s + 1\<rparr>"

definition send_msg :: "'m sender \<Rightarrow> 'm sender" where
  "send_msg s = (if sd_ready s \<and> \<not> sd_sending s then post_send_msg s else s)"

text \<open>\<open>do_start\<close> of a connected link, and \<open>reset\<close> of a socket that is to be used again.\<close>

definition sender_start :: "'m sender \<Rightarrow> 'm sender" where
  "sender_start s = s\<lparr>sd_ready := True, sd_checks := sd_checks s + 1\<rparr>"

definition sender_reset :: "'m sender \<Rightarrow> 'm sender" where
  "sender_reset s = s\<lparr>sd_ready := False, sd_msgs := [], sd_sending := False, sd_buffer := q_clear (sd_buffer s)\<rparr>"

section \<open>The handlers of the strand\<close>

text \<open>\<open>do_send_msg\<close> and \<open>send_handler\<close> without interference.\<close>

definition do_send_msg :: "('m \<Rightarrow> nat) \<Rightarrow> nat \<Rightarrow> bool \<Rightarrow> 'm sender \<Rightarrow> bool \<times> 'm sender" where
  "do_send_msg sz batch in_strand s =
     (if q_empty (sd_buffer s) then (False, if in_strand then s\<lparr>sd_sending := False\<rparr> else s)
      else if \<not> in_strand \<and> sd_sending s then (True, s)
      else
        let s1 = (if in_strand then s else s\<lparr>sd_sending := True\<rparr>);
            (out, q) = move_items_out_bytes sz batch (sd_buffer s1);
            s2 = s1\<lparr>sd_buffer := q, sd_msgs := sd_msgs s1 @ out\<rparr>
        in if sd_msgs s2 \<noteq> [] then (True, s2\<lparr>sd_write := Some (sd_msgs s2)\<rparr>)
           else (False, s2\<lparr>sd_sending := False\<rparr>))"

definition send_handler :: "('m \<Rightarrow> nat) \<Rightarrow> nat \<Rightarrow> bool \<Rightarrow> 'm sender \<Rightarrow> 'm sender" where
  "send_handler sz batch ec s =
     (if \<not> ec
      then let (sent, s1) = do_send_msg sz batch True (s\<lparr>sd_write := None, sd_msgs := []\<rparr>)
           in if \<not> sent \<and> \<not> q_empty (sd_buffer s1)
              then if sd_ready s1 \<and> \<not> sd_sending s1 then snd (do_send_msg sz batch False s1) else s1
              else s1
      else s\<lparr>sd_write := None, sd_msgs := [], sd_sending := False\<rparr>)"

text \<open>The same in micro steps.\<close>

definition begin_task :: "'m sender \<Rightarrow> 'm sender" where
  "begin_task s = s\<lparr>sd_tasks := sd_tasks s - 1, sd_pc := Test_empty False\<rparr>"

definition begin_send_handler :: "bool \<Rightarrow> 'm sender \<Rightarrow> 'm sender" where
  "begin_send_handler ec s =
     s\<lparr>sd_write := None, sd_msgs := [], sd_pc := (if ec then Clear_failed else Test_empty True)\<rparr>"

fun strand_micro :: "('m \<Rightarrow> nat) \<Rightarrow> nat \<Rightarrow> send_pc \<Rightarrow> 'm sender \<Rightarrow> 'm sender" where
  "strand_micro sz batch Strand_idle s = s"
| "strand_micro sz batch (Test_empty in_strand) s =
     s\<lparr>sd_pc := (if q_empty (sd_buffer s) then (if in_strand then Clear_sending True else Strand_idle)
                else if in_strand then Move_out True else Test_and_set)\<rparr>"
| "strand_micro sz batch Test_and_set s =
     s\<lparr>sd_sending := True, sd_pc := (if sd_sending s then Strand_idle else Move_out False)\<rparr>"
| "strand_micro sz batch (Move_out in_strand) s =
     (let (out, q) = move_items_out_bytes sz batch (sd_buffer s);
          s1 = s\<lparr>sd_buffer := q, sd_msgs := sd_msgs s @ out\<rparr>
      in if sd_msgs s1 \<noteq> [] then s1\<lparr>sd_write := Some (sd_msgs s1), sd_pc := Strand_idle\<rparr>
         else s1\<lparr>sd_pc := Clear_sending in_strand\<rparr>)"
| "strand_micro sz batch (Clear_sending in_strand) s =
     s\<lparr>sd_sending := False, sd_pc := (if in_strand then Recheck else Strand_idle)\<rparr>"
| "strand_micro sz batch Clear_failed s = s\<lparr>sd_sending := False, sd_pc := Strand_idle\<rparr>"
| "strand_micro sz batch Recheck s =
     s\<lparr>sd_pc := (if q_empty (sd_buffer s) then Strand_idle else Test_send_msg)\<rparr>"
| "strand_micro sz batch Test_send_msg s =
     s\<lparr>sd_pc := (if sd_ready s \<and> \<not> sd_sending s then Test_empty False else Strand_idle)\<rparr>"

definition strand_step :: "('m \<Rightarrow> nat) \<Rightarrow> nat \<Rightarrow> 'm sender \<Rightarrow> 'm sender" where
  "strand_step sz batch s = strand_micro sz batch (sd_pc s) s"

lemma empty_items [simp]: "q_empty q \<longleftrightarrow> q_items q = []"
  by (simp add: q_empty_def)

lemma move_out_parts:
  assumes "move_items_out_bytes sz batch q = (out, q')"
  shows "q_items q = out @ q_items q' \<and> (out = [] \<longleftrightarrow> q_items q = [])"
proof (cases "batch = npos")
  case True
  then show ?thesis using assms by (auto simp: move_items_out_bytes_def move_items_out_num_def)
next
  case False
  obtain k l where kl: "scan_bytes sz batch 0 0 (q_items q) = (k, l)" by fastforce
  then have "k \<le> length (q_items q) \<and> (q_items q \<noteq> [] \<longrightarrow> 0 < k)"
    using scan_bytes_char [of sz batch 0 0 "q_items q" k l] by simp
  then show ?thesis using assms False kl by (auto simp: move_items_out_bytes_def move_items_out_iter_def)
qed

section \<open>The micro steps are the handlers when nobody interferes\<close>

fun strand_run :: "('m \<Rightarrow> nat) \<Rightarrow> nat \<Rightarrow> nat \<Rightarrow> 'm sender \<Rightarrow> 'm sender" where
  "strand_run sz batch 0 s = s"
| "strand_run sz batch (Suc n) s = strand_run sz batch n (strand_step sz batch s)"

lemma micro_stop: "\<exists>n. strand_run sz batch n s = s"
  by (rule exI [of _ 0]) simp

lemma micro_next: "strand_step sz batch s = s1 \<Longrightarrow> \<exists>n. strand_run sz batch n s1 = t \<Longrightarrow> \<exists>n. strand_run sz batch n s = t"
  by (metis strand_run.simps(2))

lemma micro_last: "strand_step sz batch s = t \<Longrightarrow> \<exists>n. strand_run sz batch n s = t"
  by (rule micro_next [OF _ micro_stop])

lemma micro_do_send_msg:
  assumes pc: "sd_pc s = Test_empty False"
  shows "\<exists>n. strand_run sz batch n s = (snd (do_send_msg sz batch False s))\<lparr>sd_pc := Strand_idle\<rparr>"
proof -
  obtain out q where mv: "move_items_out_bytes sz batch (sd_buffer s) = (out, q)" by fastforce
  consider "q_items (sd_buffer s) = []" | "q_items (sd_buffer s) \<noteq> []" "sd_sending s"
    | "q_items (sd_buffer s) \<noteq> []" "\<not> sd_sending s" by blast
  then show ?thesis
  proof cases
    case 1
    have a: "strand_step sz batch s = s\<lparr>sd_pc := Strand_idle\<rparr>" using 1 by (simp add: strand_step_def pc)
    from micro_last [OF a] show ?thesis using 1 by (simp add: do_send_msg_def)
  next
    case 2
    have a: "strand_step sz batch s = s\<lparr>sd_pc := Test_and_set\<rparr>" using 2 by (simp add: strand_step_def pc)
    have b: "strand_step sz batch (s\<lparr>sd_pc := Test_and_set\<rparr>) = s\<lparr>sd_pc := Strand_idle\<rparr>"
      using 2 by (simp add: strand_step_def)
    from micro_next [OF a micro_last [OF b]] show ?thesis using 2 by (simp add: do_send_msg_def)
  next
    case 3
    then have ne: "out \<noteq> []" using move_out_parts [OF mv] by blast
    have a: "strand_step sz batch s = s\<lparr>sd_pc := Test_and_set\<rparr>" using 3 by (simp add: strand_step_def pc)
    have b: "strand_step sz batch (s\<lparr>sd_pc := Test_and_set\<rparr>) = s\<lparr>sd_sending := True, sd_pc := Move_out False\<rparr>"
      using 3 by (simp add: strand_step_def)
    have c: "strand_step sz batch (s\<lparr>sd_sending := True, sd_pc := Move_out False\<rparr>) =
        s\<lparr>sd_sending := True, sd_buffer := q, sd_msgs := sd_msgs s @ out, sd_write := Some (sd_msgs s @ out), sd_pc := Strand_idle\<rparr>"
      using ne by (simp add: strand_step_def mv)
    from micro_next [OF a micro_next [OF b micro_last [OF c]]] show ?thesis using 3 ne by (simp add: do_send_msg_def mv)
  qed
qed

lemma micro_send_handler:
  "\<exists>n. strand_run sz batch n (begin_send_handler ec s) = (send_handler sz batch ec s)\<lparr>sd_pc := Strand_idle\<rparr>"
proof -
  obtain out q where mv: "move_items_out_bytes sz batch (sd_buffer s) = (out, q)" by fastforce
  let ?s = "s\<lparr>sd_write := None, sd_msgs := []\<rparr>"
  consider "ec" | "\<not> ec" "q_items (sd_buffer s) = []" | "\<not> ec" "q_items (sd_buffer s) \<noteq> []" by blast
  then show ?thesis
  proof cases
    case 1
    have a: "strand_step sz batch (begin_send_handler ec s) = ?s\<lparr>sd_sending := False, sd_pc := Strand_idle\<rparr>"
      using 1 by (simp add: strand_step_def begin_send_handler_def)
    from micro_last [OF a] show ?thesis using 1 by (simp add: send_handler_def)
  next
    case 2
    have a: "strand_step sz batch (begin_send_handler ec s) = ?s\<lparr>sd_pc := Clear_sending True\<rparr>"
      using 2 by (simp add: strand_step_def begin_send_handler_def)
    have b: "strand_step sz batch (?s\<lparr>sd_pc := Clear_sending True\<rparr>) = ?s\<lparr>sd_sending := False, sd_pc := Recheck\<rparr>"
      by (simp add: strand_step_def)
    have c: "strand_step sz batch (?s\<lparr>sd_sending := False, sd_pc := Recheck\<rparr>) = ?s\<lparr>sd_sending := False, sd_pc := Strand_idle\<rparr>"
      using 2 by (simp add: strand_step_def)
    from micro_next [OF a micro_next [OF b micro_last [OF c]]] show ?thesis
      using 2 by (simp add: send_handler_def do_send_msg_def)
  next
    case 3
    then have ne: "out \<noteq> []" using move_out_parts [OF mv] by blast
    have a: "strand_step sz batch (begin_send_handler ec s) = ?s\<lparr>sd_pc := Move_out True\<rparr>"
      using 3 by (simp add: strand_step_def begin_send_handler_def)
    have b: "strand_step sz batch (?s\<lparr>sd_pc := Move_out True\<rparr>) =
        ?s\<lparr>sd_buffer := q, sd_msgs := out, sd_write := Some out, sd_pc := Strand_idle\<rparr>"
      using ne by (simp add: strand_step_def mv)
    from micro_next [OF a micro_last [OF b]] show ?thesis
      using 3 ne by (simp add: send_handler_def do_send_msg_def mv)
  qed
qed

section \<open>All interleavings\<close>

datatype 'm send_event =
    Queued "'m list"
  | Queued_front "'m list"
  | Popped "'m list"
  | Issued "'m list"
  | Sent "'m list"
  | Failed "'m list"
  | Cleared "'m list"
  | Started
  | Internal

text \<open>
  A step is one access of a user thread, one micro step of the strand, the completion of a write, or
  a change of the link; users are free to queue and take out messages at any time.
\<close>

inductive send_step :: "('m \<Rightarrow> nat) \<Rightarrow> nat \<Rightarrow> 'm sender \<Rightarrow> 'm send_event \<Rightarrow> 'm sender \<Rightarrow> bool"
  for sz :: "'m \<Rightarrow> nat" and batch :: nat where
  queue: "snd (do_direct_send_msg sz alloc prior msg s) = s' \<Longrightarrow>
    ev = (if sz msg = 0 \<or> \<not> alloc then Internal else if prior then Queued_front [msg] else Queued [msg]) \<Longrightarrow>
    send_step sz batch s ev s'"
| queue_list: "snd (do_direct_send_msgs sz prior msg_can s) = s' \<Longrightarrow>
    ev = (if prior then Queued_front msg_can else Queued msg_can) \<Longrightarrow> send_step sz batch s ev s'"
| pop_first: "pop_first_pending_send_msg sz s = (Some msg, s') \<Longrightarrow> send_step sz batch s (Popped [msg]) s'"
| pop_all: "pop_all_pending_send_msg sz s = (can, s') \<Longrightarrow> send_step sz batch s (Popped can) s'"
| check: "0 < sd_checks s \<Longrightarrow> s' = send_msg (s\<lparr>sd_checks := sd_checks s - 1\<rparr>) \<Longrightarrow> send_step sz batch s Internal s'"
| popped: "0 < sd_pops s \<Longrightarrow> s' = post_send_msg (s\<lparr>sd_pops := sd_pops s - 1\<rparr>) \<Longrightarrow> send_step sz batch s Internal s'"
| task: "sd_pc s = Strand_idle \<Longrightarrow> 0 < sd_tasks s \<Longrightarrow> s' = begin_task s \<Longrightarrow> send_step sz batch s Internal s'"
| micro: "sd_pc s \<noteq> Strand_idle \<Longrightarrow> s' = strand_step sz batch s \<Longrightarrow>
    ev = (case (sd_pc s, sd_write s') of (Move_out _, Some can) \<Rightarrow> Issued can | _ \<Rightarrow> Internal) \<Longrightarrow>
    send_step sz batch s ev s'"
| complete: "sd_pc s = Strand_idle \<Longrightarrow> sd_write s = Some can \<Longrightarrow> s' = begin_send_handler ec s \<Longrightarrow>
    send_step sz batch s (if ec then Failed can else Sent can) s'"
| connect: "\<not> sd_ready s \<Longrightarrow> s' = sender_start s \<Longrightarrow> send_step sz batch s Started s'"
| break: "s' = s\<lparr>sd_ready := False\<rparr> \<Longrightarrow> send_step sz batch s Internal s'"
| reuse: "sd_pc s = Strand_idle \<Longrightarrow> sd_write s = None \<Longrightarrow> s' = sender_reset s \<Longrightarrow>
    send_step sz batch s (Cleared (q_items (sd_buffer s))) s'"

inductive send_run :: "('m \<Rightarrow> nat) \<Rightarrow> nat \<Rightarrow> 'm sender \<Rightarrow> 'm send_event list \<Rightarrow> 'm sender \<Rightarrow> bool"
  for sz :: "'m \<Rightarrow> nat" and batch :: nat and s0 :: "'m sender" where
  run_nil: "send_run sz batch s0 [] s0"
| run_snoc: "send_run sz batch s0 evs s \<Longrightarrow> send_step sz batch s ev s' \<Longrightarrow> send_run sz batch s0 (evs @ [ev]) s'"

text \<open>Who holds the flag, and what the write's buffers refer to.\<close>

definition flag_inv :: "'m sender \<Rightarrow> bool" where
  "flag_inv s \<longleftrightarrow>
     (sd_sending s \<longleftrightarrow> sd_write s \<noteq> None \<or>
        (case sd_pc s of Test_empty in_strand \<Rightarrow> in_strand | Move_out _ \<Rightarrow> True | Clear_sending _ \<Rightarrow> True
         | Clear_failed \<Rightarrow> True | _ \<Rightarrow> False)) \<and>
     (sd_write s \<noteq> None \<longrightarrow> sd_pc s \<in> {Strand_idle, Test_empty False, Test_and_set}) \<and>
     (case sd_write s of None \<Rightarrow> sd_msgs s = [] | Some can \<Rightarrow> sd_msgs s = can \<and> can \<noteq> [])"

lemma do_direct_fields [simp]:
  "sd_sending (snd (do_direct_send_msg sz alloc prior msg s)) = sd_sending s"
  "sd_write (snd (do_direct_send_msg sz alloc prior msg s)) = sd_write s"
  "sd_msgs (snd (do_direct_send_msg sz alloc prior msg s)) = sd_msgs s"
  "sd_pc (snd (do_direct_send_msg sz alloc prior msg s)) = sd_pc s"
  "sd_ready (snd (do_direct_send_msg sz alloc prior msg s)) = sd_ready s"
  "sd_tasks (snd (do_direct_send_msg sz alloc prior msg s)) = sd_tasks s"
  "sd_pops (snd (do_direct_send_msg sz alloc prior msg s)) = sd_pops s"
  by (simp_all add: do_direct_send_msg_def split_beta Let_def)

lemma do_direct_queue:
  "sd_checks (snd (do_direct_send_msg sz alloc prior msg s)) = (if sz msg = 0 \<or> \<not> alloc then sd_checks s else sd_checks s + 1)"
  "q_items (sd_buffer (snd (do_direct_send_msg sz alloc prior msg s))) =
     (if sz msg = 0 \<or> \<not> alloc then q_items (sd_buffer s)
      else if prior then msg # q_items (sd_buffer s) else q_items (sd_buffer s) @ [msg])"
  by (simp_all add: do_direct_send_msg_def enqueue_def enqueue_front_def Let_def)

lemma do_directs_fields [simp]:
  "sd_sending (snd (do_direct_send_msgs sz prior msg_can s)) = sd_sending s"
  "sd_write (snd (do_direct_send_msgs sz prior msg_can s)) = sd_write s"
  "sd_msgs (snd (do_direct_send_msgs sz prior msg_can s)) = sd_msgs s"
  "sd_pc (snd (do_direct_send_msgs sz prior msg_can s)) = sd_pc s"
  "sd_ready (snd (do_direct_send_msgs sz prior msg_can s)) = sd_ready s"
  "sd_tasks (snd (do_direct_send_msgs sz prior msg_can s)) = sd_tasks s"
  "sd_pops (snd (do_direct_send_msgs sz prior msg_can s)) = sd_pops s"
  "sd_checks (snd (do_direct_send_msgs sz prior msg_can s)) = sd_checks s + 1"
  "q_items (sd_buffer (snd (do_direct_send_msgs sz prior msg_can s))) =
     (if prior then msg_can @ q_items (sd_buffer s) else q_items (sd_buffer s) @ msg_can)"
  by (simp_all add: do_direct_send_msgs_def move_items_in_def move_items_in_front_def Let_def)

lemma pop_first_fields:
  "pop_first_pending_send_msg sz s = (Some msg, s') \<Longrightarrow>
     q_items (sd_buffer s) = msg # q_items (sd_buffer s') \<and> sd_pops s' = sd_pops s + 1 \<and>
     sd_sending s' = sd_sending s \<and> sd_write s' = sd_write s \<and> sd_msgs s' = sd_msgs s \<and> sd_pc s' = sd_pc s \<and>
     sd_ready s' = sd_ready s \<and> sd_tasks s' = sd_tasks s \<and> sd_checks s' = sd_checks s"
  by (auto simp: pop_first_pending_send_msg_def try_dequeue_def split: list.splits)

lemma pop_all_fields:
  "pop_all_pending_send_msg sz s = (can, s') \<Longrightarrow>
     q_items (sd_buffer s) = can \<and> q_items (sd_buffer s') = [] \<and> sd_pops s' = sd_pops s + 1 \<and>
     sd_sending s' = sd_sending s \<and> sd_write s' = sd_write s \<and> sd_msgs s' = sd_msgs s \<and> sd_pc s' = sd_pc s \<and>
     sd_ready s' = sd_ready s \<and> sd_tasks s' = sd_tasks s \<and> sd_checks s' = sd_checks s"
  by (auto simp: pop_all_pending_send_msg_def q_swap_def Let_def)

lemma flag_inv_same:
  "flag_inv s \<Longrightarrow> sd_sending s' = sd_sending s \<Longrightarrow> sd_write s' = sd_write s \<Longrightarrow> sd_msgs s' = sd_msgs s \<Longrightarrow> sd_pc s' = sd_pc s \<Longrightarrow>
     flag_inv s'"
  by (cases "sd_write s") (simp_all add: flag_inv_def)

lemma flag_inv_micro: "flag_inv s \<Longrightarrow> flag_inv (strand_step sz batch s)"
  unfolding strand_step_def
  by (cases "sd_pc s") (auto simp: flag_inv_def Let_def split_beta split: option.splits)

lemma flag_inv_step: "send_step sz batch s ev s' \<Longrightarrow> flag_inv s \<Longrightarrow> flag_inv s'"
proof (induction rule: send_step.induct)
  case (queue alloc prior msg s s' ev)
  then show ?case by (auto intro: flag_inv_same)
next
  case (queue_list prior msg_can s s' ev)
  then show ?case by (auto intro: flag_inv_same)
next
  case (pop_first s msg s')
  then show ?case using pop_first_fields by (metis flag_inv_same)
next
  case (pop_all s can s')
  then show ?case using pop_all_fields by (metis flag_inv_same)
next
  case (check s s')
  show ?case by (rule flag_inv_same [OF check(3)]) (simp_all add: check send_msg_def post_send_msg_def)
next
  case (popped s s')
  show ?case by (rule flag_inv_same [OF popped(3)]) (simp_all add: popped post_send_msg_def)
next
  case (task s s')
  then show ?case by (auto simp: flag_inv_def begin_task_def)
next
  case (micro s s' ev)
  then show ?case by (simp add: flag_inv_micro)
next
  case (complete s can s' ec)
  then show ?case by (auto simp: flag_inv_def begin_send_handler_def)
next
  case (connect s s')
  show ?case by (rule flag_inv_same [OF connect(3)]) (simp_all add: connect sender_start_def)
next
  case (break s' s)
  show ?case by (rule flag_inv_same [OF break(2)]) (simp_all add: break)
next
  case (reuse s s')
  then show ?case by (auto simp: flag_inv_def sender_reset_def)
qed

lemma flag_inv_run: "send_run sz batch s0 evs s \<Longrightarrow> flag_inv s0 \<Longrightarrow> flag_inv s"
  by (induction rule: send_run.induct) (auto intro: flag_inv_step)

lemma flag_inv_new: "flag_inv sd_new"
  by (simp add: flag_inv_def sd_new_def)

text \<open>
  As long as no write fails, a message that waits on a ready link has somebody who will look at it:
  a write that is outstanding, a thread on its way, a task, or the strand itself.
\<close>

definition awake :: "'m sender \<Rightarrow> bool" where
  "awake s \<longleftrightarrow> sd_write s \<noteq> None \<or> 0 < sd_checks s \<or> 0 < sd_tasks s \<or> 0 < sd_pops s \<or>
     sd_pc s \<notin> {Strand_idle, Clear_sending False, Clear_failed}"

definition wake_inv :: "'m sender \<Rightarrow> bool" where
  "wake_inv s \<longleftrightarrow>
     (sd_ready s \<and> q_items (sd_buffer s) \<noteq> [] \<longrightarrow> awake s) \<and> sd_pc s \<noteq> Clear_failed \<and>
     (sd_pc s = Clear_sending False \<or> sd_pc s \<in> {Test_and_set, Move_out False} \<and> q_items (sd_buffer s) = [] \<longrightarrow>
        0 < sd_tasks s \<or> 0 < sd_pops s)"

lemma wake_inv_micro:
  assumes f: "flag_inv s" and w: "wake_inv s"
  shows "wake_inv (strand_step sz batch s)"
proof (cases "sd_pc s")
  case (Move_out b)
  obtain out q where mv: "move_items_out_bytes sz batch (sd_buffer s) = (out, q)" by fastforce
  have m: "sd_msgs s = []" using f Move_out by (auto simp: flag_inv_def split: option.splits)
  show ?thesis
  proof (cases "out = []")
    case True
    have e: "q_items (sd_buffer s) = []" using move_out_parts [OF mv] True by blast
    have "q_items q = []" using move_out_parts [OF mv] unfolding e by simp
    then show ?thesis using w Move_out True mv m e by (cases b) (auto simp: strand_step_def wake_inv_def awake_def)
  next
    case False
    then show ?thesis using w Move_out mv m by (auto simp: strand_step_def wake_inv_def awake_def)
  qed
next
  case (Test_empty b)
  then show ?thesis using w by (cases b) (auto simp: strand_step_def wake_inv_def awake_def)
next
  case (Clear_sending b)
  then show ?thesis using w by (cases b) (auto simp: strand_step_def wake_inv_def awake_def)
next
  case Test_and_set
  then show ?thesis using f w by (auto simp: strand_step_def wake_inv_def awake_def flag_inv_def)
next
  case Test_send_msg
  then show ?thesis using f w by (auto simp: strand_step_def wake_inv_def awake_def flag_inv_def)
qed (use w in \<open>auto simp: strand_step_def wake_inv_def awake_def\<close>)

lemma wake_inv_user:
  "wake_inv s \<Longrightarrow> sd_write s' = sd_write s \<Longrightarrow> sd_pc s' = sd_pc s \<Longrightarrow> sd_tasks s' = sd_tasks s \<Longrightarrow> sd_pops s' = sd_pops s \<Longrightarrow>
     sd_ready s' = sd_ready s \<Longrightarrow>
     q_items (sd_buffer s') = q_items (sd_buffer s) \<and> sd_checks s' = sd_checks s \<or>
       0 < sd_checks s' \<and> (q_items (sd_buffer s') = [] \<longrightarrow> q_items (sd_buffer s) = []) \<Longrightarrow>
     wake_inv s'"
  by (auto simp: wake_inv_def awake_def)

lemma wake_inv_step: "send_step sz batch s ev s' \<Longrightarrow> flag_inv s \<Longrightarrow> wake_inv s \<Longrightarrow> (\<forall>can. ev \<noteq> Failed can) \<Longrightarrow> wake_inv s'"
proof (induction rule: send_step.induct)
  case (queue alloc prior msg s s' ev)
  show ?case unfolding queue(1) [symmetric]
    by (rule wake_inv_user [OF queue(4)]) (simp_all add: do_direct_queue)
next
  case (queue_list prior msg_can s s' ev)
  show ?case unfolding queue_list(1) [symmetric]
    by (rule wake_inv_user [OF queue_list(4)]) simp_all
next
  case (pop_first s msg s')
  then show ?case using pop_first_fields [OF pop_first(1)] by (simp add: wake_inv_def awake_def)
next
  case (pop_all s can s')
  then show ?case using pop_all_fields [OF pop_all(1)] by (simp add: wake_inv_def awake_def)
next
  case (check s s')
  show ?case
  proof (cases "sd_ready s \<and> \<not> sd_sending s")
    case True
    then show ?thesis using check by (simp add: wake_inv_def awake_def send_msg_def post_send_msg_def)
  next
    case False
    then show ?thesis using check
      by (auto simp: wake_inv_def awake_def send_msg_def flag_inv_def split: send_pc.splits)
  qed
next
  case (popped s s')
  then show ?case by (simp add: wake_inv_def awake_def post_send_msg_def)
next
  case (task s s')
  then show ?case by (simp add: wake_inv_def awake_def begin_task_def)
next
  case (micro s s' ev)
  then show ?case by (simp add: wake_inv_micro)
next
  case (complete s can s' ec)
  then show ?case by (cases ec) (simp_all add: wake_inv_def awake_def begin_send_handler_def)
next
  case (connect s s')
  then show ?case by (simp add: wake_inv_def awake_def sender_start_def)
next
  case (break s' s)
  then show ?case by (simp add: wake_inv_def)
next
  case (reuse s s')
  then show ?case by (simp add: wake_inv_def sender_reset_def)
qed

lemma wake_inv_run:
  "send_run sz batch s0 evs s \<Longrightarrow> flag_inv s0 \<Longrightarrow> wake_inv s0 \<Longrightarrow> (\<forall>can. Failed can \<notin> set evs) \<Longrightarrow> wake_inv s"
proof (induction rule: send_run.induct)
  case (run_snoc evs s ev s')
  then show ?case using wake_inv_step [OF run_snoc(2)] flag_inv_run [OF run_snoc(1)] by auto
qed simp

section \<open>What is queued is what is written\<close>

fun ev_queued :: "'m send_event \<Rightarrow> 'm list" where
  "ev_queued (Queued ms) = ms"
| "ev_queued (Queued_front ms) = ms"
| "ev_queued _ = []"

fun ev_issued :: "'m send_event \<Rightarrow> 'm list" where
  "ev_issued (Issued ms) = ms"
| "ev_issued _ = []"

fun ev_removed :: "'m send_event \<Rightarrow> 'm list" where
  "ev_removed (Popped ms) = ms"
| "ev_removed (Cleared ms) = ms"
| "ev_removed _ = []"

fun ev_fifo :: "'m send_event \<Rightarrow> bool" where
  "ev_fifo (Queued_front ms) = False"
| "ev_fifo (Popped ms) = False"
| "ev_fifo (Cleared ms) = False"
| "ev_fifo _ = True"

lemma move_out_step:
  assumes "flag_inv s" "sd_pc s = Move_out b" "move_items_out_bytes sz batch (sd_buffer s) = (out, q)"
  shows "strand_step sz batch s =
      (if out \<noteq> [] then s\<lparr>sd_buffer := q, sd_msgs := out, sd_write := Some out, sd_pc := Strand_idle\<rparr>
       else s\<lparr>sd_buffer := q, sd_msgs := [], sd_pc := Clear_sending b\<rparr>) \<and> sd_write s = None"
proof -
  have "sd_msgs s = []" "sd_write s = None" using assms(1,2) by (auto simp: flag_inv_def split: option.splits)
  then show ?thesis using assms(2,3) by (simp add: strand_step_def)
qed

lemma micro_flow:
  assumes f: "flag_inv s" and ev: "ev = (case (sd_pc s, sd_write (strand_step sz batch s)) of (Move_out _, Some can) \<Rightarrow> Issued can | _ \<Rightarrow> Internal)"
  shows "q_items (sd_buffer s) = ev_issued ev @ q_items (sd_buffer (strand_step sz batch s)) \<and> ev_queued ev = [] \<and> ev_removed ev = []"
proof (cases "sd_pc s")
  case (Move_out b)
  obtain out q where mv: "move_items_out_bytes sz batch (sd_buffer s) = (out, q)" by fastforce
  note st = conjunct1 [OF move_out_step [OF f Move_out mv]] and wr = conjunct2 [OF move_out_step [OF f Move_out mv]]
  have "ev_issued ev = out \<and> ev_queued ev = [] \<and> ev_removed ev = []"
    using wr by (cases "out = []") (simp_all add: ev st Move_out)
  moreover have "q_items (sd_buffer s) = out @ q_items q" using move_out_parts [OF mv] by blast
  moreover have "sd_buffer (strand_step sz batch s) = q" by (simp add: st)
  ultimately show ?thesis by simp
qed (use ev in \<open>auto simp: strand_step_def\<close>)

lemma step_flow:
  assumes "send_step sz batch s ev s'" and "flag_inv s"
  shows "mset (q_items (sd_buffer s)) + mset (ev_queued ev) =
           mset (ev_issued ev) + mset (ev_removed ev) + mset (q_items (sd_buffer s')) \<and>
         (ev_fifo ev \<longrightarrow> q_items (sd_buffer s) @ ev_queued ev = ev_issued ev @ q_items (sd_buffer s'))"
  using assms
proof (induction rule: send_step.induct)
  case (queue alloc prior msg s s' ev)
  then show ?case by (auto simp: do_direct_queue)
next
  case (queue_list prior msg_can s s' ev)
  then show ?case by auto
next
  case (pop_first s msg s')
  then show ?case using pop_first_fields [OF pop_first(1)] by simp
next
  case (pop_all s can s')
  then show ?case using pop_all_fields [OF pop_all(1)] by simp
next
  case (micro s s' ev)
  have ev: "ev = (case (sd_pc s, sd_write (strand_step sz batch s)) of (Move_out _, Some can) \<Rightarrow> Issued can | _ \<Rightarrow> Internal)"
    using micro(2,3) by simp
  show ?case using micro_flow [OF micro(4) ev] micro(2) by simp
qed (auto simp: send_msg_def post_send_msg_def begin_task_def begin_send_handler_def sender_start_def sender_reset_def q_clear_def)

lemma run_flow:
  "send_run sz batch s0 evs s \<Longrightarrow> flag_inv s0 \<Longrightarrow>
     mset (q_items (sd_buffer s0)) + mset (concat (map ev_queued evs)) =
       mset (concat (map ev_issued evs)) + mset (concat (map ev_removed evs)) + mset (q_items (sd_buffer s)) \<and>
     ((\<forall>ev\<in>set evs. ev_fifo ev) \<longrightarrow>
       q_items (sd_buffer s0) @ concat (map ev_queued evs) = concat (map ev_issued evs) @ q_items (sd_buffer s))"
proof (induction rule: send_run.induct)
  case run_nil
  show ?case by simp
next
  case (run_snoc evs s ev s')
  have f: "flag_inv s" using flag_inv_run [OF run_snoc(1)] run_snoc(4) by simp
  note st = step_flow [OF run_snoc(2) f]
  show ?case
  proof (intro conjI impI)
    show "mset (q_items (sd_buffer s0)) + mset (concat (map ev_queued (evs @ [ev]))) =
      mset (concat (map ev_issued (evs @ [ev]))) + mset (concat (map ev_removed (evs @ [ev]))) + mset (q_items (sd_buffer s'))"
      using run_snoc st by (simp add: ac_simps)
  next
    assume "\<forall>e\<in>set (evs @ [ev]). ev_fifo e"
    then have "q_items (sd_buffer s0) @ concat (map ev_queued evs) = concat (map ev_issued evs) @ q_items (sd_buffer s)"
      "q_items (sd_buffer s) @ ev_queued ev = ev_issued ev @ q_items (sd_buffer s')"
      using run_snoc st by auto
    then show "q_items (sd_buffer s0) @ concat (map ev_queued (evs @ [ev])) =
      concat (map ev_issued (evs @ [ev])) @ q_items (sd_buffer s')"
      by (metis append_assoc concat.simps(1) concat.simps(2) concat_append list.simps(8) list.simps(9) map_append append_Nil2)
  qed
qed

section \<open>Everything gets written\<close>

text \<open>
  The steps that need no user: the threads that are on their way, the tasks, the strand, and the
  completion of writes. Each of them lowers \<open>send_work\<close>.
\<close>

inductive drive_step :: "('m \<Rightarrow> nat) \<Rightarrow> nat \<Rightarrow> 'm sender \<Rightarrow> 'm sender \<Rightarrow> bool"
  for sz :: "'m \<Rightarrow> nat" and batch :: nat where
  "0 < sd_checks s \<Longrightarrow> drive_step sz batch s (send_msg (s\<lparr>sd_checks := sd_checks s - 1\<rparr>))"
| "0 < sd_pops s \<Longrightarrow> drive_step sz batch s (post_send_msg (s\<lparr>sd_pops := sd_pops s - 1\<rparr>))"
| "sd_pc s = Strand_idle \<Longrightarrow> 0 < sd_tasks s \<Longrightarrow> drive_step sz batch s (begin_task s)"
| "sd_pc s \<noteq> Strand_idle \<Longrightarrow> drive_step sz batch s (strand_step sz batch s)"
| "sd_pc s = Strand_idle \<Longrightarrow> sd_write s \<noteq> None \<Longrightarrow> drive_step sz batch s (begin_send_handler ec s)"

fun pc_work :: "send_pc \<Rightarrow> nat" where
  "pc_work Strand_idle = 0"
| "pc_work (Test_empty in_strand) = (if in_strand then 9 else 4)"
| "pc_work Test_and_set = 3"
| "pc_work (Move_out in_strand) = (if in_strand then 8 else 2)"
| "pc_work (Clear_sending in_strand) = (if in_strand then 7 else 1)"
| "pc_work Clear_failed = 1"
| "pc_work Recheck = 6"
| "pc_work Test_send_msg = 5"

definition send_work :: "'m sender \<Rightarrow> nat" where
  "send_work s = 10 * length (q_items (sd_buffer s)) + 6 * sd_checks s + 6 * sd_pops s + 5 * sd_tasks s +
     (if sd_write s = None then 0 else 10) + pc_work (sd_pc s)"

lemma drive_send_step: "drive_step sz batch s s' \<Longrightarrow> \<exists>ev. send_step sz batch s ev s'"
proof (induction rule: drive_step.induct)
  case (5 s ec)
  then show ?case by (auto intro: send_step.complete)
qed (blast intro: send_step.intros)+

lemma micro_work:
  assumes f: "flag_inv s" and pc: "sd_pc s \<noteq> Strand_idle"
  shows "send_work (strand_step sz batch s) < send_work s"
proof (cases "sd_pc s")
  case (Move_out b)
  obtain out q where mv: "move_items_out_bytes sz batch (sd_buffer s) = (out, q)" by fastforce
  note st = conjunct1 [OF move_out_step [OF f Move_out mv]] and wr = conjunct2 [OF move_out_step [OF f Move_out mv]]
  have len: "length (q_items (sd_buffer s)) = length out + length (q_items q)"
    using move_out_parts [OF mv] by (metis length_append)
  show ?thesis
  proof (cases "out = []")
    case True
    then show ?thesis using wr len Move_out by (simp add: st send_work_def)
  next
    case False
    then obtain k where "length out = Suc k" by (cases out) auto
    then show ?thesis using False wr len Move_out by (cases b) (simp_all add: st send_work_def)
  qed
qed (use pc in \<open>auto simp: strand_step_def send_work_def\<close>)

lemma drive_work: "drive_step sz batch s s' \<Longrightarrow> flag_inv s \<Longrightarrow> send_work s' < send_work s"
proof (induction rule: drive_step.induct)
  case (1 s)
  then show ?case by (cases "sd_ready s \<and> \<not> sd_sending s") (auto simp: send_work_def send_msg_def post_send_msg_def)
next
  case (2 s)
  then show ?case by (simp add: send_work_def post_send_msg_def)
next
  case (3 s)
  then show ?case by (simp add: send_work_def begin_task_def)
next
  case (4 s)
  then show ?case by (simp add: micro_work)
next
  case (5 s ec)
  then show ?case by (auto simp: send_work_def begin_send_handler_def)
qed

interpretation sending_run: step_measure "drive_step sz batch" "\<lambda>w s. flag_inv s \<and> send_work s = w" for sz batch
  by unfold_locales (use drive_work drive_send_step flag_inv_step in blast)

lemma drive_stuck:
  assumes "\<not> (\<exists>s'. drive_step sz batch s s')"
  shows "sd_checks s = 0 \<and> sd_pops s = 0 \<and> sd_pc s = Strand_idle \<and> sd_tasks s = 0 \<and> sd_write s = None"
  using assms drive_step.intros by blast

lemma wake_inv_start:
  "flag_inv s \<Longrightarrow> sd_pc s = Strand_idle \<Longrightarrow> sd_write s = None \<Longrightarrow> flag_inv (sender_start s) \<and> wake_inv (sender_start s)"
  by (simp add: flag_inv_def wake_inv_def awake_def sender_start_def)

section \<open>Properties\<close>

text \<open>
  C4. One write at a time, in order. Whatever users, the strand and the completions of writes do to
  one another: every message that was queued was handed to a write, or taken out by a user, or dropped
  by \<open>reset\<close>, or is still in the buffer, exactly once; if nobody queues with priority, takes messages
  out or resets, the writes carry the messages in the order they were queued; a new write is issued
  only when no other is outstanding, by the one who holds the \<open>sending\<close> flag; and the messages an
  outstanding write refers to stay in \<open>sending_msgs\<close> untouched.
\<close>
theorem send_in_order:
  assumes "send_run sz batch sd_new evs s"
  shows "mset (concat (map ev_queued evs)) =
           mset (concat (map ev_issued evs)) + mset (concat (map ev_removed evs)) + mset (q_items (sd_buffer s)) \<and>
         ((\<forall>ev\<in>set evs. ev_fifo ev) \<longrightarrow> concat (map ev_queued evs) = concat (map ev_issued evs) @ q_items (sd_buffer s)) \<and>
         (\<forall>can s'. send_step sz batch s (Issued can) s' \<longrightarrow> sd_write s = None \<and> sd_sending s \<and> sd_write s' = Some can) \<and>
         (\<forall>can. sd_write s = Some can \<longrightarrow> sd_msgs s = can \<and> sd_sending s)"
proof -
  have f: "flag_inv s" using flag_inv_run [OF assms flag_inv_new] .
  have "sd_write s = None \<and> sd_sending s \<and> sd_write s' = Some can" if "send_step sz batch s (Issued can) s'" for can s'
    using that
  proof (cases rule: send_step.cases)
    case micro
    then show ?thesis using f by (auto simp: flag_inv_def split: send_pc.splits option.splits)
  qed (auto split: if_splits)
  moreover have "sd_write s = Some can \<longrightarrow> sd_msgs s = can \<and> sd_sending s" for can
    using f by (auto simp: flag_inv_def)
  moreover have "q_items (sd_buffer sd_new) = []" by (simp add: sd_new_def q_new_def)
  note run_flow [OF assms flag_inv_new, unfolded this mset.simps append_Nil add_0]
  ultimately show ?thesis by blast
qed

text \<open>
  C5. No message is left behind. After the link has become ready (\<open>do_start\<close>) and as long as no write
  fails, whatever the interleaving: when nothing more can happen without a user and the link is ready,
  the send buffer is empty, nothing is being sent and the flag is clear. And it always comes to that:
  from every reachable state at most \<open>send_work\<close> steps can follow without a user.
\<close>
theorem send_nothing_left_behind:
  assumes "send_run sz batch sd_new evs1 s1" and "sd_pc s1 = Strand_idle" and "sd_write s1 = None"
    and "send_run sz batch (sender_start s1) evs2 s2" and "\<forall>can. Failed can \<notin> set evs2"
  shows "(sd_ready s2 \<and> \<not> (\<exists>s'. drive_step sz batch s2 s') \<longrightarrow>
            q_items (sd_buffer s2) = [] \<and> sd_msgs s2 = [] \<and> \<not> sd_sending s2) \<and>
         (\<forall>n s3. (drive_step sz batch ^^ n) s2 s3 \<longrightarrow> n \<le> send_work s2)"
proof -
  have "flag_inv s1" using flag_inv_run [OF assms(1) flag_inv_new] .
  then have i: "flag_inv (sender_start s1)" "wake_inv (sender_start s1)" using wake_inv_start assms(2,3) by auto
  have f: "flag_inv s2" using flag_inv_run [OF assms(4) i(1)] .
  have w: "wake_inv s2" using wake_inv_run [OF assms(4) i assms(5)] .
  have "q_items (sd_buffer s2) = [] \<and> sd_msgs s2 = [] \<and> \<not> sd_sending s2"
    if "sd_ready s2" "\<not> (\<exists>s'. drive_step sz batch s2 s')"
    using drive_stuck [OF that(2)] that(1) f w by (simp add: wake_inv_def awake_def flag_inv_def)
  then show ?thesis using sending_run.bounded_steps f by fastforce
qed

text \<open>A run: the link becomes ready, a message is queued, and the strand issues the write.\<close>

definition demo_written :: "'m \<Rightarrow> 'm sender" where
  "demo_written m = sd_new\<lparr>sd_ready := True, sd_buffer := \<lparr>q_items = [], q_total = 0\<rparr>, sd_sending := True,
     sd_msgs := [m], sd_write := Some [m], sd_tasks := 1\<rparr>"

lemma msg_written_run:
  assumes "0 < sz m" "sz m \<le> SIZE_MAX"
  shows "send_run sz batch (sender_start sd_new) [Queued [m], Internal, Internal, Internal, Internal, Internal, Issued [m]] (demo_written m)"
proof -
  let ?s0 = "sender_start sd_new"
  let ?s1 = "?s0\<lparr>sd_buffer := \<lparr>q_items = [m], q_total = sz m\<rparr>, sd_checks := 2\<rparr>"
  let ?s2 = "?s1\<lparr>sd_checks := 1, sd_tasks := 1\<rparr>"
  let ?s3 = "?s1\<lparr>sd_checks := 0, sd_tasks := 2\<rparr>"
  let ?s4 = "?s3\<lparr>sd_tasks := 1, sd_pc := Test_empty False\<rparr>"
  let ?s5 = "?s3\<lparr>sd_tasks := 1, sd_pc := Test_and_set\<rparr>"
  let ?s6 = "?s3\<lparr>sd_tasks := 1, sd_sending := True, sd_pc := Move_out False\<rparr>"
  note defs = sender_start_def sd_new_def q_new_def
  have a: "send_step sz batch ?s0 (Queued [m]) ?s1"
    by (rule queue [where alloc = True and prior = False and msg = m])
      (use assms in \<open>simp_all add: do_direct_send_msg_def enqueue_def size_add_def le_SIZE_MAX_iff defs\<close>)
  have b: "send_step sz batch ?s1 Internal ?s2" "send_step sz batch ?s2 Internal ?s3"
    by (rule check; simp add: send_msg_def post_send_msg_def defs)+
  have c: "send_step sz batch ?s3 Internal ?s4"
    by (rule task) (simp_all add: begin_task_def defs)
  have d: "send_step sz batch ?s4 Internal ?s5" "send_step sz batch ?s5 Internal ?s6"
    by (rule micro; simp add: strand_step_def defs)+
  have e: "move_items_out_bytes sz batch \<lparr>q_items = [m], q_total = sz m\<rparr> = ([m], \<lparr>q_items = [], q_total = 0\<rparr>)"
    using assms by (simp add: move_items_out_bytes_def move_items_out_num_def move_items_out_iter_def size_add_def size_sub_def SIZE_MAX_def SIZE_MOD_def Let_def)
  have f: "send_step sz batch ?s6 (Issued [m]) (demo_written m)"
    by (rule micro) (simp_all add: strand_step_def e demo_written_def defs)
  show ?thesis
    using run_snoc [OF run_snoc [OF run_snoc [OF run_snoc [OF run_snoc [OF run_snoc [OF run_snoc [OF run_nil a] b(1)] b(2)] c] d(1)] d(2)] f]
    by simp
qed

lemma send_run_append: "send_run sz batch s1 evs s \<Longrightarrow> send_run sz batch s0 evs0 s1 \<Longrightarrow> send_run sz batch s0 (evs0 @ evs) s"
proof (induction rule: send_run.induct)
  case run_nil
  then show ?case by simp
next
  case (run_snoc evs s ev s')
  then show ?case using send_run.run_snoc by fastforce
qed

lemma written_from_new:
  assumes "0 < sz m" "sz m \<le> SIZE_MAX"
  shows "send_run sz batch sd_new ([Started] @ [Queued [m], Internal, Internal, Internal, Internal, Internal, Issued [m]]) (demo_written m)"
proof -
  have "send_step sz batch sd_new Started (sender_start sd_new)"
    by (rule connect) (simp_all add: sd_new_def)
  then have "send_run sz batch sd_new [Started] (sender_start sd_new)" using run_snoc [OF run_nil] by fastforce
  then show ?thesis by (rule send_run_append [OF msg_written_run [of sz m, OF assms]])
qed

abbreviation demo_sender :: "nat sender" where
  "demo_sender \<equiv> demo_written 7"

lemmas demo_sender_def = demo_written_def [of "7 :: nat"]

lemma demo_run:
  "send_run (\<lambda>_. 1) 65536 (sender_start sd_new) [Queued [7], Internal, Internal, Internal, Internal, Internal, Issued [7]] demo_sender"
  by (rule msg_written_run) (simp_all add: SIZE_MAX_def)

lemma demo_rest:
  "send_run (\<lambda>_. 1) 65536 (sender_start sd_new)
     ([Queued [7::nat], Internal, Internal, Internal, Internal, Internal, Issued [7]] @ [Sent [7], Internal, Internal, Internal, Internal, Internal])
     (sd_new\<lparr>sd_ready := True\<rparr>)"
proof -
  let ?r = "sd_new\<lparr>sd_ready := True, sd_tasks := 1\<rparr> :: nat sender"
  let ?t1 = "?r\<lparr>sd_sending := True, sd_pc := Test_empty True\<rparr>"
  let ?t2 = "?r\<lparr>sd_sending := True, sd_pc := Clear_sending True\<rparr>"
  let ?t3 = "?r\<lparr>sd_pc := Recheck\<rparr>"
  let ?t5 = "?r\<lparr>sd_tasks := 0, sd_pc := Test_empty False\<rparr>"
  note defs = sender_start_def sd_new_def q_new_def
  have a: "send_step (\<lambda>_. 1) 65536 demo_sender (Sent [7]) ?t1"
    using complete [of demo_sender "[7]" ?t1 False "\<lambda>_. 1" 65536]
    by (simp add: demo_sender_def begin_send_handler_def defs)
  have b: "send_step (\<lambda>_. 1) 65536 ?t1 Internal ?t2" "send_step (\<lambda>_. 1) 65536 ?t2 Internal ?t3" "send_step (\<lambda>_. 1) 65536 ?t3 Internal ?r"
    by (rule micro; simp add: strand_step_def defs)+
  have c: "send_step (\<lambda>_. 1) 65536 ?r Internal ?t5" by (rule task) (simp_all add: begin_task_def defs)
  have d: "send_step (\<lambda>_. 1) 65536 ?t5 Internal (sd_new\<lparr>sd_ready := True\<rparr>)" by (rule micro; simp add: strand_step_def defs)
  show ?thesis
    using run_snoc [OF run_snoc [OF run_snoc [OF run_snoc [OF run_snoc [OF run_snoc [OF demo_run a] b(1)] b(2)] b(3)] c] d] by simp
qed

lemma demo_at_rest: "\<not> (\<exists>s'. drive_step sz batch (sd_new\<lparr>sd_ready := True\<rparr>) s')"
  by (auto simp: sd_new_def elim: drive_step.cases)

lemma demo_from_new:
  "send_run (\<lambda>_. 1) 65536 sd_new ([Started] @ [Queued [7], Internal, Internal, Internal, Internal, Internal, Issued [7]]) demo_sender"
  by (rule written_from_new) (simp_all add: SIZE_MAX_def)

lemma send_in_order_witness: "[7] = [7] @ q_items (sd_buffer demo_sender) \<and> sd_sending demo_sender"
  using send_in_order [OF demo_from_new] by (simp add: demo_sender_def)

lemma send_nothing_left_behind_witness: "sd_msgs (sd_new\<lparr>sd_ready := True\<rparr> :: nat sender) = []"
  using send_nothing_left_behind [OF run_nil _ _ demo_rest] demo_at_rest by (auto simp: sd_new_def)

text \<open>
  The flag of a new socket that happens to find a 1 in its memory: nothing is ever written, until \<open>reset\<close> (the
  event \<open>Cleared\<close>), which a socket that is not taken from a pool's invalid objects does not see.
\<close>

lemma stuck_flag_step:
  "send_step sz batch s ev s' \<Longrightarrow> sd_sending s \<Longrightarrow> sd_write s = None \<Longrightarrow> sd_pc s \<in> {Strand_idle, Test_empty False, Test_and_set} \<Longrightarrow>
     (\<forall>ms. ev \<noteq> Cleared ms) \<Longrightarrow>
     sd_sending s' \<and> sd_write s' = None \<and> sd_pc s' \<in> {Strand_idle, Test_empty False, Test_and_set} \<and> (\<forall>ms. ev \<noteq> Issued ms)"
proof (induction rule: send_step.induct)
  case (pop_first s msg s')
  then show ?case using pop_first_fields [OF pop_first(1)] by simp
next
  case (pop_all s can s')
  then show ?case using pop_all_fields [OF pop_all(1)] by simp
next
  case (micro s s' ev)
  then show ?case by (auto simp: strand_step_def split: if_splits)
qed (auto simp: send_msg_def post_send_msg_def begin_task_def sender_start_def split: if_splits)

lemma uninitialised_sending:
  "send_run sz batch (sd_new\<lparr>sd_sending := True\<rparr>) evs s \<Longrightarrow> (\<forall>ms. Cleared ms \<notin> set evs) \<Longrightarrow>
     sd_sending s \<and> sd_write s = None \<and> sd_pc s \<in> {Strand_idle, Test_empty False, Test_and_set} \<and> (\<forall>ms. Issued ms \<notin> set evs)"
proof (induction rule: send_run.induct)
  case (run_snoc evs s ev s')
  then show ?case using stuck_flag_step [OF run_snoc(2)] by auto
qed (simp add: sd_new_def)

text \<open>
  Taking a message out of the send buffer starts a write even when the link is not ready:
  \<open>pop_first_pending_send_msg\<close> calls \<open>_send_msg\<close>, not \<open>send_msg\<close>, and \<open>do_send_msg\<close> does not ask
  \<open>is_ready\<close> either. A socket that was never connected and has two messages queued writes the second
  one as soon as the first one is taken out, so it is lost to \<open>on_send_error\<close>.
\<close>
theorem pop_writes_unready:
  "\<exists>evs s. send_run (\<lambda>_. 1) 65536 sd_new evs s \<and> Started \<notin> set evs \<and> Popped [1] \<in> set evs \<and>
     \<not> sd_ready s \<and> sd_write s = Some [2 :: nat]"
proof -
  let ?s0 = "sd_new :: nat sender"
  let ?s1 = "?s0\<lparr>sd_buffer := \<lparr>q_items = [1], q_total = 1\<rparr>, sd_checks := 1\<rparr>"
  let ?s2 = "?s0\<lparr>sd_buffer := \<lparr>q_items = [1, 2], q_total = 2\<rparr>, sd_checks := 2\<rparr>"
  let ?s3 = "?s0\<lparr>sd_buffer := \<lparr>q_items = [2], q_total = 1\<rparr>, sd_checks := 2, sd_pops := 1\<rparr>"
  let ?s4 = "?s3\<lparr>sd_pops := 0, sd_tasks := 1\<rparr>"
  let ?s5 = "?s3\<lparr>sd_pops := 0, sd_pc := Test_empty False\<rparr>"
  let ?s6 = "?s3\<lparr>sd_pops := 0, sd_pc := Test_and_set\<rparr>"
  let ?s7 = "?s3\<lparr>sd_pops := 0, sd_sending := True, sd_pc := Move_out False\<rparr>"
  let ?s8 = "?s0\<lparr>sd_buffer := \<lparr>q_items = [], q_total = 0\<rparr>, sd_checks := 2, sd_sending := True, sd_msgs := [2], sd_write := Some [2]\<rparr>"
  note defs = sender_start_def sd_new_def q_new_def size_add_def size_sub_def SIZE_MOD_def
  have a: "send_step (\<lambda>_. 1) 65536 ?s0 (Queued [1]) ?s1"
    by (rule queue [where alloc = True and prior = False and msg = 1]) (simp_all add: do_direct_send_msg_def enqueue_def defs)
  have b: "send_step (\<lambda>_. 1) 65536 ?s1 (Queued [2]) ?s2"
    by (rule queue [where alloc = True and prior = False and msg = 2]) (simp_all add: do_direct_send_msg_def enqueue_def defs)
  have c: "send_step (\<lambda>_. 1) 65536 ?s2 (Popped [1]) ?s3"
    by (rule pop_first) (simp add: pop_first_pending_send_msg_def try_dequeue_def defs)
  have d: "send_step (\<lambda>_. 1) 65536 ?s3 Internal ?s4" by (rule popped) (simp_all add: post_send_msg_def defs)
  have e: "send_step (\<lambda>_. 1) 65536 ?s4 Internal ?s5" by (rule task) (simp_all add: begin_task_def defs)
  have f: "send_step (\<lambda>_. 1) 65536 ?s5 Internal ?s6" "send_step (\<lambda>_. 1) 65536 ?s6 Internal ?s7"
    by (rule micro; simp add: strand_step_def defs)+
  have mv: "move_items_out_bytes (\<lambda>_. 1) 65536 \<lparr>q_items = [2], q_total = 1\<rparr> = ([2::nat], \<lparr>q_items = [], q_total = 0\<rparr>)"
    by (simp add: move_items_out_bytes_def move_items_out_iter_def SIZE_MAX_def defs)
  have g: "send_step (\<lambda>_. 1) 65536 ?s7 (Issued [2]) ?s8"
    by (rule micro) (simp_all add: strand_step_def mv [unfolded One_nat_def] defs)
  show ?thesis
    using run_snoc [OF run_snoc [OF run_snoc [OF run_snoc [OF run_snoc [OF run_snoc [OF run_snoc [OF run_snoc [OF run_nil a] b] c] d] e] f(1)] f(2)] g]
    by (intro exI conjI) (auto simp: sd_new_def)
qed

end
