(* ===== verification/Msg_Dispatch.thy ===== *)
theory Msg_Dispatch
  imports Msg_Queue "HOL-Library.Multiset"
begin

text \<open>
  How a socket hands received messages to the application (\<open>handle_msg\<close>, \<open>handled_msg\<close>,
  \<open>check_receiving\<close>, \<open>dispatch_msg\<close> and \<open>do_dispatch_msg\<close> of \<open>socket.h\<close>, one message at a time; for
  \<open>ASCS_DISPATCH_BATCH_MSG\<close> see theory Batch_Dispatch). The read handler runs in \<open>rw_strand\<close> and fills \<open>recv_buffer\<close>; the
  dispatcher runs in \<open>dis_strand\<close> and takes messages out one by one, holding the current one in
  \<open>dispatching_msg\<close> until \<open>on_msg_handle\<close> accepts it. When the buffer is full no further read is issued
  and \<open>TIMER_CHECK_RECV\<close> looks again later; when a message is refused \<open>TIMER_DISPATCH_MSG\<close> tries again later.
\<close>

datatype rw_pc = Rw_idle | Rw_dispatch_msg | Rw_handled_msg

record 'm receiver =
  rv_buffer :: "'m msg_queue"
  rv_dispatching :: bool
  rv_msg :: "'m option"
  rv_idle :: bool
  rv_rw :: rw_pc
  rv_handling :: bool
  rv_tasks :: nat
  rv_hold :: bool
  rv_check :: bool
  rv_recvs :: nat
  rv_reading :: bool

text \<open>
  \<open>rv_handling\<close>: \<open>on_msg_handle\<close> is running; \<open>rv_tasks\<close>: calls of \<open>do_dispatch_msg\<close> posted to \<open>dis_strand\<close>;
  \<open>rv_hold\<close>, \<open>rv_check\<close>: \<open>TIMER_DISPATCH_MSG\<close>, \<open>TIMER_CHECK_RECV\<close> are started; \<open>rv_recvs\<close>: calls of
  \<open>do_recv_msg\<close> handed to \<open>rw_strand\<close>; \<open>rv_reading\<close>: an \<open>async_read\<close> is outstanding.
\<close>

definition rv_new :: "'m receiver" where
  "rv_new = \<lparr>rv_buffer = q_new, rv_dispatching = False, rv_msg = None, rv_idle = False, rv_rw = Rw_idle,
     rv_handling = False, rv_tasks = 0, rv_hold = False, rv_check = False, rv_recvs = 0, rv_reading = False\<rparr>"

definition is_recv_buffer_available :: "nat \<Rightarrow> 'm receiver \<Rightarrow> bool" where
  "is_recv_buffer_available recv_buf_size s \<longleftrightarrow> q_size_in_byte (rv_buffer s) < recv_buf_size"

section \<open>Receiving\<close>

definition recv_msg :: "'m receiver \<Rightarrow> 'm receiver" where
  "recv_msg s = s\<lparr>rv_recvs := rv_recvs s + 1\<rparr>"

definition do_recv_msg :: "'m receiver \<Rightarrow> 'm receiver" where
  "do_recv_msg s = s\<lparr>rv_reading := True\<rparr>"

definition check_receiving :: "nat \<Rightarrow> bool \<Rightarrow> 'm receiver \<Rightarrow> bool \<times> 'm receiver" where
  "check_receiving recv_buf_size raise_recv s =
     (if is_recv_buffer_available recv_buf_size s
      then let s1 = s\<lparr>rv_idle := False\<rparr> in (True, if raise_recv then recv_msg s1 else s1)
      else (False, s\<lparr>rv_idle := True\<rparr>))"

definition handled_msg :: "nat \<Rightarrow> 'm receiver \<Rightarrow> bool \<times> 'm receiver" where
  "handled_msg recv_buf_size s =
     (let (re, s1) = check_receiving recv_buf_size False s
      in if re then (True, s1) else (False, s1\<lparr>rv_check := True\<rparr>))"

text \<open>The call back of \<open>TIMER_CHECK_RECV\<close>: returning true keeps the timer running.\<close>

definition check_recv_timer :: "nat \<Rightarrow> 'm receiver \<Rightarrow> 'm receiver" where
  "check_recv_timer recv_buf_size s =
     (let (re, s1) = check_receiving recv_buf_size True s in s1\<lparr>rv_check := \<not> re\<rparr>)"

text \<open>
  \<open>handle_msg\<close> with the messages \<open>temp_msg_can\<close> that the unpacker delivered, cut where the dispatcher can
  interfere: up to the test of \<open>dispatching\<close>, that test, and the rest with the next read.
\<close>

definition dispatch_msg :: "'m receiver \<Rightarrow> 'm receiver" where
  "dispatch_msg s = (if \<not> rv_dispatching s then s\<lparr>rv_tasks := rv_tasks s + 1\<rparr> else s)"

definition handle_msg_in :: "('m \<Rightarrow> nat) \<Rightarrow> 'm list \<Rightarrow> 'm receiver \<Rightarrow> 'm receiver" where
  "handle_msg_in sz temp_msg_can s =
     (let size_in_byte = get_size_in_byte sz temp_msg_can
      in if temp_msg_can \<noteq> []
         then s\<lparr>rv_buffer := move_items_in sz temp_msg_can size_in_byte (rv_buffer s), rv_rw := Rw_dispatch_msg\<rparr>
         else s\<lparr>rv_rw := Rw_handled_msg\<rparr>)"

definition recv_handler_begin :: "('m \<Rightarrow> nat) \<Rightarrow> 'm list \<Rightarrow> 'm receiver \<Rightarrow> 'm receiver" where
  "recv_handler_begin sz temp_msg_can s = handle_msg_in sz temp_msg_can (s\<lparr>rv_reading := False\<rparr>)"

definition recv_handler_micro :: "nat \<Rightarrow> bool \<Rightarrow> 'm receiver \<Rightarrow> 'm receiver" where
  "recv_handler_micro recv_buf_size ec s =
     (case rv_rw s of
        Rw_idle \<Rightarrow> s
      | Rw_dispatch_msg \<Rightarrow> (dispatch_msg s)\<lparr>rv_rw := Rw_handled_msg\<rparr>
      | Rw_handled_msg \<Rightarrow>
          let (need_next_recv, s1) = handled_msg recv_buf_size (s\<lparr>rv_rw := Rw_idle\<rparr>)
          in if \<not> ec \<and> need_next_recv then do_recv_msg s1 else s1)"

section \<open>Dispatching\<close>

definition do_dispatch_begin :: "('m \<Rightarrow> nat) \<Rightarrow> 'm receiver \<Rightarrow> 'm receiver" where
  "do_dispatch_begin sz s =
     (if rv_dispatching s then s\<lparr>rv_handling := True\<rparr>
      else case try_dequeue sz (rv_buffer s) of
             (Some msg, q) \<Rightarrow> s\<lparr>rv_buffer := q, rv_msg := Some msg, rv_dispatching := True, rv_handling := True\<rparr>
           | (None, q) \<Rightarrow> s\<lparr>rv_buffer := q, rv_dispatching := False\<rparr>)"

definition do_dispatch_end :: "bool \<Rightarrow> 'm receiver \<Rightarrow> 'm receiver" where
  "do_dispatch_end re s =
     (if \<not> re then s\<lparr>rv_handling := False, rv_hold := True\<rparr>
      else s\<lparr>rv_handling := False, rv_msg := None, rv_dispatching := False, rv_tasks := rv_tasks s + 1\<rparr>)"

text \<open>\<open>timer_handler(TIMER_DISPATCH_MSG)\<close>.\<close>

definition dispatch_timer :: "'m receiver \<Rightarrow> 'm receiver" where
  "dispatch_timer s = s\<lparr>rv_hold := False, rv_tasks := rv_tasks s + 1\<rparr>"

text \<open>What \<open>close\<close> does here: \<open>stop_all_timer\<close>. \<open>clear_buffer\<close> and the flags are the business of \<open>reset\<close>.\<close>

definition receiver_close :: "'m receiver \<Rightarrow> 'm receiver" where
  "receiver_close s = s\<lparr>rv_hold := False, rv_check := False\<rparr>"

definition receiver_reset :: "'m receiver \<Rightarrow> 'm receiver" where
  "receiver_reset s =
     s\<lparr>rv_hold := False, rv_check := False, rv_dispatching := False, rv_idle := False, rv_msg := None,
       rv_buffer := q_clear (rv_buffer s)\<rparr>"

definition pop_all_pending_recv_msg :: "('m \<Rightarrow> nat) \<Rightarrow> 'm receiver \<Rightarrow> 'm list \<times> 'm receiver" where
  "pop_all_pending_recv_msg sz s = (let (can, q) = q_swap sz [] (rv_buffer s) in (can, s\<lparr>rv_buffer := q\<rparr>))"

definition pop_first_pending_recv_msg :: "('m \<Rightarrow> nat) \<Rightarrow> 'm receiver \<Rightarrow> 'm option \<times> 'm receiver" where
  "pop_first_pending_recv_msg sz s = (let (msg, q) = try_dequeue sz (rv_buffer s) in (msg, s\<lparr>rv_buffer := q\<rparr>))"

section \<open>All interleavings\<close>

datatype 'm recv_event =
    Received "'m list"
  | Handled 'm
  | Refused 'm
  | Taken "'m list"
  | Link_started
  | Link_closed
  | Recv_failed
  | Tau

inductive recv_step :: "('m \<Rightarrow> nat) \<Rightarrow> nat \<Rightarrow> 'm receiver \<Rightarrow> 'm recv_event \<Rightarrow> 'm receiver \<Rightarrow> bool"
  for sz :: "'m \<Rightarrow> nat" and rbs :: nat where
  start: "rv_rw s = Rw_idle \<Longrightarrow> \<not> rv_reading s \<Longrightarrow> rv_recvs s = 0 \<Longrightarrow> \<not> rv_check s \<Longrightarrow>
    recv_step sz rbs s Link_started (recv_msg s)"
| recv_task: "rv_rw s = Rw_idle \<Longrightarrow> 0 < rv_recvs s \<Longrightarrow> s' = do_recv_msg (s\<lparr>rv_recvs := rv_recvs s - 1\<rparr>) \<Longrightarrow>
    recv_step sz rbs s Tau s'"
| received: "rv_rw s = Rw_idle \<Longrightarrow> rv_reading s \<Longrightarrow> recv_step sz rbs s (Received msgs) (recv_handler_begin sz msgs s)"
| read_error: "rv_rw s = Rw_idle \<Longrightarrow> rv_reading s \<Longrightarrow> recv_step sz rbs s Recv_failed (s\<lparr>rv_reading := False\<rparr>)"
| rw_micro: "rv_rw s \<noteq> Rw_idle \<Longrightarrow> ev = (if ec \<and> rv_rw s = Rw_handled_msg then Recv_failed else Tau) \<Longrightarrow>
    recv_step sz rbs s ev (recv_handler_micro rbs ec s)"
| check_timer: "rv_check s \<Longrightarrow> recv_step sz rbs s Tau (check_recv_timer rbs s)"
| dispatch: "0 < rv_tasks s \<Longrightarrow> \<not> rv_handling s \<Longrightarrow> s' = do_dispatch_begin sz (s\<lparr>rv_tasks := rv_tasks s - 1\<rparr>) \<Longrightarrow>
    recv_step sz rbs s Tau s'"
| handled: "rv_handling s \<Longrightarrow> rv_msg s = Some msg \<Longrightarrow>
    recv_step sz rbs s (if re then Handled msg else Refused msg) (do_dispatch_end re s)"
| hold_timer: "rv_hold s \<Longrightarrow> recv_step sz rbs s Tau (dispatch_timer s)"
| pop_all: "pop_all_pending_recv_msg sz s = (can, s') \<Longrightarrow> recv_step sz rbs s (Taken can) s'"
| pop_first: "pop_first_pending_recv_msg sz s = (Some msg, s') \<Longrightarrow> recv_step sz rbs s (Taken [msg]) s'"
| close: "recv_step sz rbs s Link_closed (receiver_close s)"

inductive recv_run :: "('m \<Rightarrow> nat) \<Rightarrow> nat \<Rightarrow> 'm receiver \<Rightarrow> 'm recv_event list \<Rightarrow> 'm receiver \<Rightarrow> bool"
  for sz :: "'m \<Rightarrow> nat" and rbs :: nat and s0 :: "'m receiver" where
  run_nil: "recv_run sz rbs s0 [] s0"
| run_snoc: "recv_run sz rbs s0 evs s \<Longrightarrow> recv_step sz rbs s ev s' \<Longrightarrow> recv_run sz rbs s0 (evs @ [ev]) s'"

lemmas receiver_defs = recv_msg_def do_recv_msg_def check_receiving_def handled_msg_def check_recv_timer_def dispatch_msg_def
  handle_msg_in_def recv_handler_begin_def recv_handler_micro_def do_dispatch_begin_def do_dispatch_end_def dispatch_timer_def
  receiver_close_def receiver_reset_def

lemma try_dequeue_cases:
  "try_dequeue sz q = (r, q') \<Longrightarrow> (case r of None \<Rightarrow> q' = q \<and> q_items q = [] | Some x \<Rightarrow> q_items q = x # q_items q')"
  by (auto simp: try_dequeue_def split: list.splits)

lemma move_in_items [simp]: "q_items (move_items_in sz ms n q) = q_items q @ ms"
  by (simp add: move_items_in_def Let_def)

lemma pop_recv_first:
  "pop_first_pending_recv_msg sz s = (Some m, s') \<Longrightarrow>
     q_items (rv_buffer s) = m # q_items (rv_buffer s') \<and> s' = s\<lparr>rv_buffer := snd (try_dequeue sz (rv_buffer s))\<rparr>"
  by (auto simp: pop_first_pending_recv_msg_def try_dequeue_def split: list.splits)

lemma pop_recv_all:
  "pop_all_pending_recv_msg sz s = (can, s') \<Longrightarrow>
     q_items (rv_buffer s) = can \<and> q_items (rv_buffer s') = [] \<and> s' = s\<lparr>rv_buffer := snd (q_swap sz [] (rv_buffer s))\<rparr>"
  by (auto simp: pop_all_pending_recv_msg_def q_swap_def Let_def)

section \<open>One read at a time, and a bounded buffer\<close>

text \<open>Who is in charge of the next read: the read that is outstanding, its handler, a posted \<open>do_recv_msg\<close>, or the timer.\<close>

definition recv_tokens :: "'m receiver \<Rightarrow> nat" where
  "recv_tokens s = of_bool (rv_reading s) + of_bool (rv_rw s \<noteq> Rw_idle) + rv_recvs s + of_bool (rv_check s)"

lemma recv_tokens_step:
  "recv_step sz rbs s ev s' \<Longrightarrow> recv_tokens s \<le> 1 \<Longrightarrow>
     recv_tokens s' \<le> 1 \<and> (ev \<noteq> Link_closed \<and> ev \<noteq> Recv_failed \<and> (recv_tokens s = 1 \<or> ev = Link_started) \<longrightarrow> recv_tokens s' = 1)"
proof (induction rule: recv_step.induct)
  case (rw_micro s ev ec)
  then show ?case by (cases "rv_rw s") (auto simp: recv_tokens_def receiver_defs split: if_splits)
next
  case (dispatch s s')
  then show ?case by (auto simp: recv_tokens_def receiver_defs split: if_splits option.splits prod.splits)
next
  case (pop_all s can s')
  then show ?case using pop_recv_all [OF pop_all(1)] by (auto simp: recv_tokens_def)
next
  case (pop_first s msg s')
  then show ?case using pop_recv_first [OF pop_first(1)] by (auto simp: recv_tokens_def)
qed (auto simp: recv_tokens_def receiver_defs split: if_splits)

definition recv_bounded :: "('m \<Rightarrow> nat) \<Rightarrow> nat \<Rightarrow> nat \<Rightarrow> 'm receiver \<Rightarrow> bool" where
  "recv_bounded sz rbs read_max s \<longleftrightarrow>
     q_inv sz (rv_buffer s) \<and> bytes_of sz (q_items (rv_buffer s)) < rbs + read_max \<and>
     (rv_reading s \<or> 0 < rv_recvs s \<longrightarrow> bytes_of sz (q_items (rv_buffer s)) < rbs)"

lemma recv_bounded_fewer:
  "recv_bounded sz rbs mx s \<Longrightarrow> q_inv sz (rv_buffer s') \<Longrightarrow>
     bytes_of sz (q_items (rv_buffer s')) \<le> bytes_of sz (q_items (rv_buffer s)) \<Longrightarrow>
     (rv_reading s' \<or> 0 < rv_recvs s' \<longrightarrow> rv_reading s \<or> 0 < rv_recvs s) \<Longrightarrow> recv_bounded sz rbs mx s'"
  by (auto simp: recv_bounded_def)

lemma q_inv_dequeue: "q_inv sz q \<Longrightarrow> bytes_of sz (q_items q) \<le> SIZE_MAX \<Longrightarrow> q_inv sz (snd (try_dequeue sz q)) \<and> bytes_of sz (q_items (snd (try_dequeue sz q))) \<le> bytes_of sz (q_items q)"
  using q_exec_spec [of sz q Op_try_dequeue "fst (q_exec sz Op_try_dequeue q)" "snd (q_exec sz Op_try_dequeue q)"]
  by (cases "q_items q") (auto simp: try_dequeue_def)

lemma q_inv_move_in:
  "q_inv sz q \<Longrightarrow> bytes_of sz (q_items q) \<le> SIZE_MAX \<Longrightarrow> bytes_of sz ms \<le> SIZE_MAX \<Longrightarrow>
     q_inv sz (move_items_in sz ms (get_size_in_byte sz ms) q)"
  using q_exec_spec [of sz q "Op_move_in ms (get_size_in_byte sz ms)" "[]"] by (simp add: get_size_bytes_of)

lemma available_exact:
  "q_inv sz (rv_buffer s) \<Longrightarrow> bytes_of sz (q_items (rv_buffer s)) \<le> SIZE_MAX \<Longrightarrow>
     is_recv_buffer_available rbs s \<longleftrightarrow> bytes_of sz (q_items (rv_buffer s)) < rbs"
  by (simp add: is_recv_buffer_available_def q_inv_exact)

lemma recv_bounded_step:
  assumes "recv_step sz rbs s ev s'" "recv_bounded sz rbs mx s" "recv_tokens s \<le> 1" "rbs + mx \<le> SIZE_MAX"
    and "\<And>msgs. ev = Received msgs \<Longrightarrow> bytes_of sz msgs \<le> mx" "0 < rbs"
    and "ev = Link_started \<Longrightarrow> bytes_of sz (q_items (rv_buffer s)) < rbs"
  shows "recv_bounded sz rbs mx s'"
  using assms
proof (induction rule: recv_step.induct)
  case (start s)
  then show ?case by (auto simp: recv_bounded_def recv_msg_def)
next
  case (received s msgs)
  then have b: "bytes_of sz msgs \<le> mx" "bytes_of sz (q_items (rv_buffer s)) < rbs" "q_inv sz (rv_buffer s)" "rv_recvs s = 0"
    by (auto simp: recv_bounded_def recv_tokens_def)
  then have "q_inv sz (move_items_in sz msgs (get_size_in_byte sz msgs) (rv_buffer s))"
    using received by (intro q_inv_move_in) auto
  then show ?case using received b by (auto simp: recv_bounded_def receiver_defs)
next
  case (rw_micro s ev ec)
  have "bytes_of sz (q_items (rv_buffer s)) \<le> SIZE_MAX" using rw_micro by (auto simp: recv_bounded_def)
  then show ?case using rw_micro available_exact [of sz s rbs]
    by (cases "rv_rw s") (auto simp: recv_bounded_def receiver_defs is_recv_buffer_available_def)
next
  case (check_timer s)
  have "bytes_of sz (q_items (rv_buffer s)) \<le> SIZE_MAX" using check_timer by (auto simp: recv_bounded_def)
  then show ?case using check_timer available_exact [of sz s rbs]
    by (auto simp: recv_bounded_def receiver_defs)
next
  case (dispatch s s')
  have q: "q_inv sz (rv_buffer s)" "bytes_of sz (q_items (rv_buffer s)) \<le> SIZE_MAX" using dispatch by (auto simp: recv_bounded_def)
  obtain r q' where r: "try_dequeue sz (rv_buffer s) = (r, q')" by fastforce
  show ?case
    by (rule recv_bounded_fewer [OF dispatch(4)])
      (use q_inv_dequeue [OF q] q r dispatch(3) in \<open>auto simp: receiver_defs split: option.splits if_splits\<close>)
next
  case (pop_all s can s')
  show ?case
    by (rule recv_bounded_fewer [OF pop_all(2)])
      (use pop_recv_all [OF pop_all(1)] in \<open>auto simp: q_swap_def q_inv_def get_size_in_byte_def Let_def\<close>)
next
  case (pop_first s msg s')
  have q: "q_inv sz (rv_buffer s)" "bytes_of sz (q_items (rv_buffer s)) \<le> SIZE_MAX" using pop_first by (auto simp: recv_bounded_def)
  show ?case
    by (rule recv_bounded_fewer [OF pop_first(2)]) (use pop_recv_first [OF pop_first(1)] q_inv_dequeue [OF q] in auto)
qed (auto simp: recv_bounded_def receiver_defs)

lemma recv_tokens_run:
  "recv_run sz rbs s0 evs s \<Longrightarrow> recv_tokens s0 \<le> 1 \<Longrightarrow>
     recv_tokens s \<le> 1 \<and> (recv_tokens s0 = 1 \<and> Link_closed \<notin> set evs \<and> Recv_failed \<notin> set evs \<longrightarrow> recv_tokens s = 1)"
proof (induction rule: recv_run.induct)
  case (run_snoc evs s ev s')
  then show ?case using recv_tokens_step [OF run_snoc(2)] by auto
qed simp

lemma recv_bounded_run:
  "recv_run sz rbs s0 evs s \<Longrightarrow> recv_tokens s0 \<le> 1 \<Longrightarrow> recv_bounded sz rbs mx s0 \<Longrightarrow> rbs + mx \<le> SIZE_MAX \<Longrightarrow> 0 < rbs \<Longrightarrow>
     Link_started \<notin> set evs \<Longrightarrow> (\<And>msgs. Received msgs \<in> set evs \<Longrightarrow> bytes_of sz msgs \<le> mx) \<Longrightarrow> recv_bounded sz rbs mx s"
proof (induction rule: recv_run.induct)
  case (run_snoc evs s ev s')
  have "recv_bounded sz rbs mx s" "recv_tokens s \<le> 1" using run_snoc recv_tokens_run [OF run_snoc(1)] by auto
  then show ?case using run_snoc by (intro recv_bounded_step [OF run_snoc(2)]) auto
qed simp

section \<open>Every message once, in order, and none stuck\<close>

fun ev_received :: "'m recv_event \<Rightarrow> 'm list" where
  "ev_received (Received ms) = ms"
| "ev_received _ = []"

fun ev_handled :: "'m recv_event \<Rightarrow> 'm list" where
  "ev_handled (Handled m) = [m]"
| "ev_handled _ = []"

fun ev_taken :: "'m recv_event \<Rightarrow> 'm list" where
  "ev_taken (Taken ms) = ms"
| "ev_taken _ = []"

definition pending :: "'m receiver \<Rightarrow> 'm list" where
  "pending s = (case rv_msg s of None \<Rightarrow> [] | Some m \<Rightarrow> [m]) @ q_items (rv_buffer s)"

definition dispatch_inv :: "'m receiver \<Rightarrow> bool" where
  "dispatch_inv s \<longleftrightarrow> (rv_dispatching s \<longleftrightarrow> rv_msg s \<noteq> None) \<and> (rv_handling s \<longrightarrow> rv_dispatching s)"

definition dispatch_awake :: "'m receiver \<Rightarrow> bool" where
  "dispatch_awake s \<longleftrightarrow>
     (rv_dispatching s \<longrightarrow> rv_handling s \<or> 0 < rv_tasks s \<or> rv_hold s) \<and>
     (q_items (rv_buffer s) \<noteq> [] \<longrightarrow> rv_handling s \<or> 0 < rv_tasks s \<or> rv_hold s \<or> rv_rw s = Rw_dispatch_msg)"

lemma dispatch_step:
  "recv_step sz rbs s ev s' \<Longrightarrow> dispatch_inv s \<Longrightarrow>
     dispatch_inv s' \<and> (ev \<noteq> Link_closed \<longrightarrow> dispatch_awake s \<longrightarrow> dispatch_awake s') \<and>
     mset (pending s) + mset (ev_received ev) = mset (ev_handled ev) + mset (ev_taken ev) + mset (pending s') \<and>
     (ev_taken ev = [] \<longrightarrow> pending s @ ev_received ev = ev_handled ev @ pending s')"
proof (induction rule: recv_step.induct)
  case (rw_micro s ev ec)
  then show ?case
    by (cases "rv_rw s") (auto simp: dispatch_inv_def dispatch_awake_def pending_def receiver_defs split: if_splits)
next
  case (dispatch s s')
  obtain r q' where r: "try_dequeue sz (rv_buffer s) = (r, q')" by fastforce
  then show ?case using dispatch try_dequeue_cases [OF r]
    by (auto simp: dispatch_inv_def dispatch_awake_def pending_def receiver_defs split: if_splits option.splits)
next
  case (pop_all s can s')
  show ?case using pop_recv_all [OF pop_all(1)] pop_all(2)
    by (auto simp: dispatch_inv_def dispatch_awake_def pending_def q_swap_def Let_def split: option.splits)
next
  case (pop_first s msg s')
  obtain q where q: "s' = s\<lparr>rv_buffer := q\<rparr>" "q_items (rv_buffer s) = msg # q_items q"
    using pop_recv_first [OF pop_first(1)] by (metis receiver.select_convs(1) receiver.surjective receiver.update_convs(1))
  show ?case using pop_first(2) unfolding q(1)
    by (auto simp: dispatch_inv_def dispatch_awake_def pending_def q(2) split: option.splits)
qed (auto simp: dispatch_inv_def dispatch_awake_def pending_def receiver_defs split: option.splits)

lemma dispatch_run:
  "recv_run sz rbs s0 evs s \<Longrightarrow> dispatch_inv s0 \<Longrightarrow>
     dispatch_inv s \<and> (Link_closed \<notin> set evs \<longrightarrow> dispatch_awake s0 \<longrightarrow> dispatch_awake s) \<and>
     mset (pending s0) + mset (concat (map ev_received evs)) =
       mset (concat (map ev_handled evs)) + mset (concat (map ev_taken evs)) + mset (pending s) \<and>
     (concat (map ev_taken evs) = [] \<longrightarrow>
       pending s0 @ concat (map ev_received evs) = concat (map ev_handled evs) @ pending s)"
proof (induction rule: recv_run.induct)
  case run_nil
  then show ?case by simp
next
  case (run_snoc evs s ev s')
  note st = dispatch_step [OF run_snoc(2)]
  show ?case
  proof (intro conjI impI)
    show "dispatch_inv s'" using run_snoc st by blast
    show "dispatch_awake s'" if "Link_closed \<notin> set (evs @ [ev])" "dispatch_awake s0" using run_snoc st that by auto
    show "mset (pending s0) + mset (concat (map ev_received (evs @ [ev]))) =
      mset (concat (map ev_handled (evs @ [ev]))) + mset (concat (map ev_taken (evs @ [ev]))) + mset (pending s')"
      using run_snoc st by (simp add: ac_simps)
    show "pending s0 @ concat (map ev_received (evs @ [ev])) = concat (map ev_handled (evs @ [ev])) @ pending s'"
      if h: "concat (map ev_taken (evs @ [ev])) = []"
    proof -
      have "concat (map ev_taken evs) = []" "ev_taken ev = []" using h by auto
      then have "pending s0 @ concat (map ev_received evs) = concat (map ev_handled evs) @ pending s"
        "pending s @ ev_received ev = ev_handled ev @ pending s'"
        using run_snoc(3,4) st by blast+
      then have "(pending s0 @ concat (map ev_received evs)) @ ev_received ev =
          concat (map ev_handled evs) @ (ev_handled ev @ pending s')"
        by (simp only: append_assoc)
      then show ?thesis by simp
    qed
  qed
qed

text \<open>A dispatcher that holds a message nobody will come back to.\<close>

definition dispatch_dead :: "'m receiver \<Rightarrow> bool" where
  "dispatch_dead s \<longleftrightarrow> rv_dispatching s \<and> \<not> rv_handling s \<and> rv_tasks s = 0 \<and> \<not> rv_hold s"

lemma dispatch_dead_step: "recv_step sz rbs s ev s' \<Longrightarrow> dispatch_dead s \<Longrightarrow> dispatch_dead s' \<and> ev_handled ev = [] \<and> rv_msg s' = rv_msg s"
proof (induction rule: recv_step.induct)
  case (rw_micro s ev ec)
  then show ?case by (cases "rv_rw s") (auto simp: dispatch_dead_def receiver_defs split: if_splits)
next
  case (pop_all s can s')
  then show ?case using pop_recv_all [OF pop_all(1)] by (auto simp: dispatch_dead_def)
next
  case (pop_first s msg s')
  then show ?case using pop_recv_first [OF pop_first(1)] by (auto simp: dispatch_dead_def)
qed (auto simp: dispatch_dead_def receiver_defs split: if_splits)

lemma dispatch_dead_run: "recv_run sz rbs s0 evs s \<Longrightarrow> dispatch_dead s0 \<Longrightarrow> dispatch_dead s \<and> concat (map ev_handled evs) = [] \<and> rv_msg s = rv_msg s0"
  by (induction rule: recv_run.induct) (auto dest: dispatch_dead_step)

lemma receiver_new_inv: "dispatch_inv rv_new" "dispatch_awake rv_new" "pending rv_new = []" "recv_tokens rv_new = 0"
  by (simp_all add: dispatch_inv_def dispatch_awake_def pending_def recv_tokens_def rv_new_def q_new_def)

section \<open>The way to the next read\<close>

text \<open>
  What whoever is in charge of the next read does next, if the read before did not fail: the handler of a read, a posted \<open>do_recv_msg\<close>, or an
  expiry of \<open>TIMER_CHECK_RECV\<close>. It is a step of the receiver.
\<close>

definition read_turn :: "nat \<Rightarrow> 'm receiver \<Rightarrow> 'm receiver" where
  "read_turn recv_buf_size s =
     (if rv_rw s \<noteq> Rw_idle then recv_handler_micro recv_buf_size False s
      else if 0 < rv_recvs s then do_recv_msg (s\<lparr>rv_recvs := rv_recvs s - 1\<rparr>)
      else if rv_check s then check_recv_timer recv_buf_size s
      else s)"

lemma read_turn_step: "read_turn rbs s = s \<or> recv_step sz rbs s Tau (read_turn rbs s)"
  using recv_step.rw_micro [of s Tau False sz rbs] recv_step.recv_task [of s _ sz rbs] recv_step.check_timer [of s sz rbs]
  by (auto simp: read_turn_def)

lemma read_turns:
  assumes "recv_tokens s = 1" "is_recv_buffer_available rbs s"
  shows "rv_reading (read_turn rbs (read_turn rbs s))"
proof -
  consider (read) "rv_reading s" "rv_rw s = Rw_idle" "rv_recvs s = 0" "\<not> rv_check s" | (handler) "rv_rw s \<noteq> Rw_idle" "rv_recvs s = 0" "\<not> rv_check s"
    | (posted) "rv_recvs s = 1" "rv_rw s = Rw_idle" "\<not> rv_check s" | (timer) "rv_check s" "rv_rw s = Rw_idle" "rv_recvs s = 0"
    using assms(1) by (auto simp: recv_tokens_def of_bool_def split: if_splits)
  then show ?thesis
  proof cases
    case handler
    then show ?thesis using assms(2) by (cases "rv_rw s") (auto simp: read_turn_def receiver_defs is_recv_buffer_available_def)
  qed (use assms(2) in \<open>auto simp: read_turn_def receiver_defs is_recv_buffer_available_def\<close>)
qed

section \<open>Properties\<close>

text \<open>
  C10. Exactly once, in order, and none stuck. For every interleaving of the read handler, the
  dispatcher, the two timers and users: each received message was accepted by \<open>on_msg_handle\<close>, or taken
  out by a user, or is still pending, exactly once, however often it was refused in between; unless
  users take messages out, they are accepted in the order of arrival; and as long as the link is not
  closed, a state in which the dispatcher has nothing left to do has accepted everything.
\<close>
theorem dispatch_exactly_once:
  assumes "recv_run sz rbs rv_new evs s"
  shows "mset (concat (map ev_received evs)) =
           mset (concat (map ev_handled evs)) + mset (concat (map ev_taken evs)) + mset (pending s) \<and>
         (concat (map ev_taken evs) = [] \<longrightarrow> concat (map ev_received evs) = concat (map ev_handled evs) @ pending s) \<and>
         (Link_closed \<notin> set evs \<and> rv_tasks s = 0 \<and> \<not> rv_handling s \<and> \<not> rv_hold s \<and> rv_rw s = Rw_idle \<longrightarrow> pending s = [])"
proof -
  note d = dispatch_run [OF assms receiver_new_inv(1), unfolded receiver_new_inv mset.simps add_0 append_Nil]
  have "pending s = []" if "Link_closed \<notin> set evs" "rv_tasks s = 0" "\<not> rv_handling s" "\<not> rv_hold s" "rv_rw s = Rw_idle"
    using d receiver_new_inv(2) that by (auto simp: dispatch_awake_def dispatch_inv_def pending_def)
  then show ?thesis using d by blast
qed

text \<open>
  C16. Flow control of a link. From \<open>do_start\<close> with a buffer that is not full, as long as the link is
  neither closed nor broken, exactly one of these is there: an outstanding read, the handler of a read,
  a posted \<open>do_recv_msg\<close>, or \<open>TIMER_CHECK_RECV\<close>. So there are never two reads on one socket. Reading goes on when the
  buffer has room: then it takes at most two turns of that one, which are steps of the receiver, until a read is outstanding;
  the timer keeps running only while the buffer is full. And if no read delivers more than \<open>read_max\<close> bytes, the receive buffer holds
  less than \<open>recv_buf_size\<close> bytes whenever a read is outstanding and less than \<open>recv_buf_size + read_max\<close>
  at any time.
\<close>
theorem recv_flow_control:
  assumes "recv_run sz recv_buf_size (recv_msg s0) evs s" and "recv_tokens s0 = 0" and "q_inv sz (rv_buffer s0)"
    and "bytes_of sz (q_items (rv_buffer s0)) < recv_buf_size"
    and "Link_started \<notin> set evs" and "recv_buf_size + read_max \<le> SIZE_MAX"
    and "\<And>msgs. Received msgs \<in> set evs \<Longrightarrow> bytes_of sz msgs \<le> read_max"
  shows "recv_tokens s \<le> 1 \<and> (Link_closed \<notin> set evs \<and> Recv_failed \<notin> set evs \<longrightarrow> recv_tokens s = 1) \<and>
         bytes_of sz (q_items (rv_buffer s)) < recv_buf_size + read_max \<and>
         (rv_reading s \<longrightarrow> bytes_of sz (q_items (rv_buffer s)) < recv_buf_size) \<and>
         (Link_closed \<notin> set evs \<and> Recv_failed \<notin> set evs \<and> bytes_of sz (q_items (rv_buffer s)) < recv_buf_size \<longrightarrow>
            rv_reading (read_turn recv_buf_size (read_turn recv_buf_size s))) \<and>
         (\<forall>s1. read_turn recv_buf_size s1 = s1 \<or> recv_step sz recv_buf_size s1 Tau (read_turn recv_buf_size s1))"
proof -
  have t: "recv_tokens (recv_msg s0) = 1" using assms(2) by (simp add: recv_tokens_def recv_msg_def)
  have b: "recv_bounded sz recv_buf_size read_max (recv_msg s0)" using assms(3,4) by (simp add: recv_bounded_def recv_msg_def)
  have "recv_bounded sz recv_buf_size read_max s"
    using recv_bounded_run [OF assms(1) _ b assms(6) _ assms(5,7)] t assms(4) by simp
  then have q: "q_inv sz (rv_buffer s)" "bytes_of sz (q_items (rv_buffer s)) < recv_buf_size + read_max"
    "rv_reading s \<longrightarrow> bytes_of sz (q_items (rv_buffer s)) < recv_buf_size"
    by (auto simp: recv_bounded_def)
  have one: "recv_tokens s \<le> 1" "Link_closed \<notin> set evs \<and> Recv_failed \<notin> set evs \<longrightarrow> recv_tokens s = 1"
    using recv_tokens_run [OF assms(1)] t by auto
  have "rv_reading (read_turn recv_buf_size (read_turn recv_buf_size s))"
    if "Link_closed \<notin> set evs \<and> Recv_failed \<notin> set evs \<and> bytes_of sz (q_items (rv_buffer s)) < recv_buf_size"
    using read_turns [of s] one(2) available_exact [OF q(1)] q(2) assms(6) that by simp
  then show ?thesis using one q(2,3) read_turn_step by blast
qed

text \<open>
  C32. A message that was refused just before the link is closed blocks the socket for ever. \<open>close\<close> stops
  \<open>TIMER_DISPATCH_MSG\<close>, nothing clears \<open>dispatching\<close>, and \<open>dispatch_msg\<close> does nothing while it is set: the
  state is reachable by one message, one refusal and a close, and from then on, whatever is received
  over new links, the held message is never offered again and no message is ever accepted, unless the
  socket is reset (which a reconnecting client is not).
\<close>
theorem dispatch_blocked_after_reconnect:
  "(\<exists>evs s. recv_run sz rbs rv_new evs s \<and> dispatch_dead s \<and> rv_msg s = Some m \<and>
      (\<forall>ev\<in>set evs. ev \<in> {Link_started, Tau, Received [m], Refused m, Link_closed})) \<and>
   (\<forall>s evs s'. dispatch_dead s \<and> recv_run sz rbs s evs s' \<longrightarrow> dispatch_dead s' \<and> concat (map ev_handled evs) = [])"
proof (intro conjI allI impI)
  show "dispatch_dead s'" if "dispatch_dead s \<and> recv_run sz rbs s evs s'" for s evs s' using that dispatch_dead_run by blast
  show "concat (map ev_handled evs) = []" if "dispatch_dead s \<and> recv_run sz rbs s evs s'" for s evs s' using that dispatch_dead_run by blast
  let ?q = "\<lparr>q_items = [], q_total = size_sub (size_add 0 (size_add 0 (sz m))) (sz m)\<rparr>"
  let ?s1 = "recv_msg rv_new" let ?s2 = "rv_new\<lparr>rv_reading := True\<rparr>"
  let ?s3 = "recv_handler_begin sz [m] ?s2"
  let ?s4 = "?s3\<lparr>rv_tasks := 1, rv_rw := Rw_handled_msg\<rparr>"
  let ?s5 = "?s4\<lparr>rv_tasks := 0, rv_buffer := snd (try_dequeue sz (rv_buffer ?s4)), rv_msg := Some m, rv_dispatching := True, rv_handling := True\<rparr>"
  let ?s6 = "?s5\<lparr>rv_handling := False, rv_hold := True\<rparr>"
  have a: "recv_step sz rbs rv_new Link_started ?s1" by (rule start) (simp_all add: rv_new_def)
  have b: "recv_step sz rbs ?s1 Tau ?s2" by (rule recv_task) (simp_all add: rv_new_def receiver_defs)
  have c: "recv_step sz rbs ?s2 (Received [m]) ?s3" by (rule received) (simp_all add: rv_new_def)
  have "?s4 = recv_handler_micro rbs False ?s3" by (simp add: rv_new_def receiver_defs)
  then have d: "recv_step sz rbs ?s3 Tau ?s4" using rw_micro [of ?s3 Tau False sz rbs] by (simp add: receiver_defs rv_new_def)
  have e: "recv_step sz rbs ?s4 Tau ?s5"
    by (rule dispatch) (simp_all add: receiver_defs rv_new_def try_dequeue_def move_items_in_def q_new_def)
  have f: "recv_step sz rbs ?s5 (Refused m) ?s6" using handled [of ?s5 m sz rbs False] by (simp add: receiver_defs rv_new_def)
  have g: "recv_step sz rbs ?s6 Link_closed (receiver_close ?s6)" by (rule close)
  show "\<exists>evs s. recv_run sz rbs rv_new evs s \<and> dispatch_dead s \<and> rv_msg s = Some m \<and>
      (\<forall>ev\<in>set evs. ev \<in> {Link_started, Tau, Received [m], Refused m, Link_closed})"
    using run_snoc [OF run_snoc [OF run_snoc [OF run_snoc [OF run_snoc [OF run_snoc [OF run_snoc [OF run_nil a] b] c] d] e] f] g]
    by (intro exI conjI) (auto simp: dispatch_dead_def receiver_defs rv_new_def)
qed

text \<open>A run that receives one message and hands it over.\<close>

lemma demo_received:
  fixes m :: 'm and sz :: "'m \<Rightarrow> nat"
  defines "s3 \<equiv> recv_handler_begin sz [m] (rv_new\<lparr>rv_reading := True\<rparr>)"
  shows "recv_run sz rbs (recv_msg rv_new) [Tau, Received [m]] s3"
    and "\<exists>s. recv_run sz rbs rv_new [Link_started, Tau, Received [m], Tau, Tau, Handled m] s"
proof -
  let ?s2 = "rv_new\<lparr>rv_reading := True\<rparr>" let ?s4 = "s3\<lparr>rv_tasks := 1, rv_rw := Rw_handled_msg\<rparr>"
  let ?s5 = "?s4\<lparr>rv_tasks := 0, rv_buffer := snd (try_dequeue sz (rv_buffer ?s4)), rv_msg := Some m, rv_dispatching := True, rv_handling := True\<rparr>"
  have a: "recv_step sz rbs rv_new Link_started (recv_msg rv_new)" by (rule start) (simp_all add: rv_new_def)
  have b: "recv_step sz rbs (recv_msg rv_new) Tau ?s2" by (rule recv_task) (simp_all add: rv_new_def receiver_defs)
  have c: "recv_step sz rbs ?s2 (Received [m]) s3" unfolding s3_def by (rule received) (simp_all add: rv_new_def)
  have "?s4 = recv_handler_micro rbs False s3" by (simp add: s3_def rv_new_def receiver_defs)
  then have d: "recv_step sz rbs s3 Tau ?s4" using rw_micro [of s3 Tau False sz rbs] by (simp add: s3_def receiver_defs rv_new_def)
  have e: "recv_step sz rbs ?s4 Tau ?s5"
    by (rule dispatch) (simp_all add: s3_def receiver_defs rv_new_def try_dequeue_def move_items_in_def q_new_def)
  have f: "recv_step sz rbs ?s5 (Handled m) (do_dispatch_end True ?s5)"
    using handled [of ?s5 m sz rbs True] by simp
  show "recv_run sz rbs (recv_msg rv_new) [Tau, Received [m]] s3" using run_snoc [OF run_snoc [OF run_nil b] c] by simp
  show "\<exists>s. recv_run sz rbs rv_new [Link_started, Tau, Received [m], Tau, Tau, Handled m] s"
    using run_snoc [OF run_snoc [OF run_snoc [OF run_snoc [OF run_snoc [OF run_snoc [OF run_nil a] b] c] d] e] f] by auto
qed

lemma dispatch_exactly_once_witness:
  "\<exists>s. recv_run (\<lambda>_. 1) 4 rv_new [Link_started, Tau, Received [7], Tau, Tau, Handled (7::nat)] s \<and> pending s = []"
proof -
  obtain s where s: "recv_run (\<lambda>_. 1) 4 rv_new [Link_started, Tau, Received [7], Tau, Tau, Handled (7::nat)] s"
    using demo_received(2) [where sz = "\<lambda>_. 1" and rbs = 4 and m = "7::nat"] by blast
  then show ?thesis using dispatch_exactly_once [OF s] by auto
qed

lemma recv_flow_control_witness:
  "let s = recv_handler_begin (\<lambda>_. 1) [7::nat] (rv_new\<lparr>rv_reading := True\<rparr>) in recv_tokens s = 1 \<and> rv_reading (read_turn 4 (read_turn 4 s))"
proof -
  note run = demo_received(1) [where sz = "\<lambda>_. 1" and rbs = 4 and m = "7::nat"]
  have q: "q_inv (\<lambda>_. 1) (rv_buffer rv_new)" "bytes_of (\<lambda>_. 1) (q_items (rv_buffer rv_new)) < 4"
    by (simp_all add: rv_new_def q_new_def q_inv_def)
  show ?thesis
    using recv_flow_control [OF run receiver_new_inv(4) q, where read_max = 8]
    by (simp add: SIZE_MAX_def Let_def recv_handler_begin_def handle_msg_in_def rv_new_def q_new_def)
qed

lemma dispatch_blocked_after_reconnect_witness:
  "\<exists>evs s. recv_run (\<lambda>_. 1) 4 rv_new evs s \<and> rv_msg s = Some (7::nat) \<and>
     (\<forall>evs' s'. recv_run (\<lambda>_. 1) 4 s evs' s' \<longrightarrow> concat (map ev_handled evs') = [])"
  using dispatch_blocked_after_reconnect [of "\<lambda>_. 1" 4 "7::nat"] by blast

end
