(* ===== verification/Service_Pump.thy ===== *)
theory Service_Pump
  imports Timer
begin

text \<open>
  \<open>service_pump.h\<close>: the io_contexts with the references and threads assigned to them, the services,
  starting and stopping them, and how an object accounts for its references (\<open>timer.h\<close>,
  \<open>attach_io_context\<close>, \<open>detach_io_context\<close>). An io_context is identified by its position. What a service
  does in \<open>init\<close> is an argument. Running the handlers is not modelled, but \<open>ASCS_DECREASE_THREAD_AT_RUNTIME\<close>
  is: the two atomic counters that threads use to agree who may end.
\<close>

record io_ctx =
  cx_refs :: "32 word"
  cx_threads :: nat
  cx_blocked :: bool
  cx_stopped :: bool

record service =
  sv_ptr :: nat
  sv_id :: int
  sv_started :: bool

record pump =
  sp_started :: bool
  sp_first :: bool
  sp_services :: "service list"
  sp_single_ctx :: bool
  sp_ctxs :: "io_ctx list"

text \<open>\<open>cx_blocked\<close>: the thread that called \<open>run_service\<close> runs this io_context; it is not among \<open>threads\<close>.\<close>

definition cx_new :: io_ctx where
  "cx_new = \<lparr>cx_refs = 0, cx_threads = 0, cx_blocked = False, cx_stopped = False\<rparr>"

definition sp_new :: "bool \<Rightarrow> pump" where
  "sp_new multi_ctx =
     \<lparr>sp_started = False, sp_first = True, sp_services = [], sp_single_ctx = (\<not> multi_ctx), sp_ctxs = [cx_new]\<rparr>"

definition set_io_context_num :: "int \<Rightarrow> pump \<Rightarrow> bool \<times> pump" where
  "set_io_context_num io_context_num sp =
     (if io_context_num < 1 \<or> sp_started sp \<or> length (sp_ctxs sp) > 1 then (False, sp)
      else
        let ctxs = sp_ctxs sp @ replicate (nat (io_context_num - 1)) cx_new
        in (True, sp\<lparr>sp_ctxs := ctxs, sp_single_ctx := (if length ctxs > 1 then False else sp_single_ctx sp)\<rparr>))"

section \<open>Choosing the io_context with the least load\<close>

text \<open>The loop of \<open>assign_io_context\<close> and \<open>assign_thread\<close> over the loads: the position it stops with.\<close>

fun pick_loop :: "nat \<Rightarrow> nat option \<Rightarrow> nat \<Rightarrow> nat list \<Rightarrow> nat option" where
  "pick_loop i ctx least [] = ctx"
| "pick_loop i ctx least (load # loads) =
     (let (ctx', least') = (if load = 0 \<or> least = 0 \<or> least > load then (Some i, load) else (ctx, least))
      in if load = 0 then ctx' else pick_loop (i + 1) ctx' least' loads)"

definition assign_io_context :: "bool \<Rightarrow> pump \<Rightarrow> nat option \<times> pump" where
  "assign_io_context increase_ref sp =
     (if sp_single_ctx sp then (Some 0, sp)
      else case pick_loop 0 None 0 (map (unat \<circ> cx_refs) (sp_ctxs sp)) of
             None \<Rightarrow> (None, sp)
           | Some i \<Rightarrow>
               (Some i, if increase_ref
                        then sp\<lparr>sp_ctxs := (sp_ctxs sp)[i := (sp_ctxs sp ! i)\<lparr>cx_refs := cx_refs (sp_ctxs sp ! i) + 1\<rparr>]\<rparr>
                        else sp))"

definition upd_refs :: "(32 word \<Rightarrow> 32 word) \<Rightarrow> nat \<Rightarrow> pump \<Rightarrow> pump" where
  "upd_refs f i sp =
     (if \<not> sp_single_ctx sp \<and> i < length (sp_ctxs sp)
      then sp\<lparr>sp_ctxs := (sp_ctxs sp)[i := (sp_ctxs sp ! i)\<lparr>cx_refs := f (cx_refs (sp_ctxs sp ! i))\<rparr>]\<rparr>
      else sp)"

definition return_io_context :: "nat \<Rightarrow> 32 word \<Rightarrow> pump \<Rightarrow> pump" where
  "return_io_context i refs sp = upd_refs (\<lambda>r. r - refs) i sp"

definition assign_io_context_refs :: "nat \<Rightarrow> 32 word \<Rightarrow> pump \<Rightarrow> pump" where
  "assign_io_context_refs i refs sp = upd_refs (\<lambda>r. r + refs) i sp"

definition get_io_context_refs :: "pump \<Rightarrow> 32 word list" where
  "get_io_context_refs sp = (if sp_single_ctx sp then [] else map cx_refs (sp_ctxs sp))"

definition assign_thread :: "pump \<Rightarrow> nat option" where
  "assign_thread sp = pick_loop 0 None 0 (map cx_threads (sp_ctxs sp))"

section \<open>Threads and services\<close>

text \<open>The loop of \<open>add_service_thread\<close>; the last of the threads is the caller if \<open>block\<close>.\<close>

fun add_threads :: "nat \<Rightarrow> bool \<Rightarrow> pump \<Rightarrow> pump" where
  "add_threads 0 block sp = sp"
| "add_threads (Suc n) block sp =
     (case assign_thread sp of
        None \<Rightarrow> add_threads n block sp
      | Some i \<Rightarrow>
          let c = sp_ctxs sp ! i
          in if block \<and> n = 0 then sp\<lparr>sp_ctxs := (sp_ctxs sp)[i := c\<lparr>cx_blocked := True\<rparr>]\<rparr>
             else add_threads n block (sp\<lparr>sp_ctxs := (sp_ctxs sp)[i := c\<lparr>cx_threads := cx_threads c + 1\<rparr>]\<rparr>))"

definition add_service_thread :: "int \<Rightarrow> bool \<Rightarrow> int \<Rightarrow> pump \<Rightarrow> pump" where
  "add_service_thread thread_num block io_context_num sp =
     (if io_context_num > 0 \<and> thread_num < io_context_num then sp
      else
        let sp1 = (if io_context_num > 0
                   then sp\<lparr>sp_single_ctx := False, sp_ctxs := sp_ctxs sp @ replicate (nat io_context_num) cx_new\<rparr>
                   else sp)
        in add_threads (nat thread_num) block sp1)"

text \<open>\<open>i_service::start_service\<close>, with the answer of \<open>init\<close>, and \<open>i_service::stop_service\<close>.\<close>

definition service_start :: "(nat \<Rightarrow> bool) \<Rightarrow> service \<Rightarrow> service" where
  "service_start init_ok sv = (if \<not> sv_started sv then sv\<lparr>sv_started := init_ok (sv_ptr sv)\<rparr> else sv)"

definition service_stop :: "service \<Rightarrow> service" where
  "service_stop sv = sv\<lparr>sv_started := False\<rparr>"

definition pump_add :: "nat \<Rightarrow> pump \<Rightarrow> pump" where
  "pump_add p sp = sp\<lparr>sp_services := sp_services sp @ [\<lparr>sv_ptr = p, sv_id = 0, sv_started = False\<rparr>]\<rparr>"

definition pump_find :: "int \<Rightarrow> pump \<Rightarrow> service option" where
  "pump_find i sp = find (\<lambda>sv. sv_id sv = i) (sp_services sp)"

text \<open>Both \<open>remove\<close>s, and \<open>clear\<close>, with the services handed to \<open>stop_and_free\<close>.\<close>

definition pump_remove :: "nat \<Rightarrow> pump \<Rightarrow> pump" where
  "pump_remove p sp = sp\<lparr>sp_services := filter (\<lambda>sv. sv_ptr sv \<noteq> p) (sp_services sp)\<rparr>"

fun erase_first :: "('a \<Rightarrow> bool) \<Rightarrow> 'a list \<Rightarrow> 'a list" where
  "erase_first P [] = []"
| "erase_first P (x # xs) = (if P x then xs else x # erase_first P xs)"

definition pump_remove_id :: "int \<Rightarrow> pump \<Rightarrow> service option \<times> pump" where
  "pump_remove_id i sp =
     (case pump_find i sp of None \<Rightarrow> (None, sp)
      | Some sv \<Rightarrow> (Some (service_stop sv), sp\<lparr>sp_services := erase_first (\<lambda>sv. sv_id sv = i) (sp_services sp)\<rparr>))"

definition pump_clear :: "pump \<Rightarrow> service list \<times> pump" where
  "pump_clear sp = (map service_stop (sp_services sp), sp\<lparr>sp_services := []\<rparr>)"

definition pump_stop :: "pump \<Rightarrow> pump" where
  "pump_stop sp = sp\<lparr>sp_ctxs := map (\<lambda>c. c\<lparr>cx_stopped := True\<rparr>) (sp_ctxs sp)\<rparr>"

definition do_service :: "(nat \<Rightarrow> bool) \<Rightarrow> int \<Rightarrow> bool \<Rightarrow> pump \<Rightarrow> pump" where
  "do_service init_ok thread_num block sp =
     (if thread_num \<le> 0 \<or> thread_num < int (length (sp_ctxs sp)) then sp
      else
        add_service_thread thread_num block 0
          (sp\<lparr>sp_started := True, sp_ctxs := map (\<lambda>c. c\<lparr>cx_stopped := False\<rparr>) (sp_ctxs sp),
              sp_services := map (service_start init_ok) (sp_services sp)\<rparr>))"

definition wait_service :: "pump \<Rightarrow> pump" where
  "wait_service sp =
     sp\<lparr>sp_ctxs := map (\<lambda>c. c\<lparr>cx_threads := 0\<rparr>) (sp_ctxs sp), sp_started := False, sp_first := False\<rparr>"

definition end_service :: "pump \<Rightarrow> pump" where
  "end_service sp = (if sp_started sp then sp\<lparr>sp_services := map service_stop (sp_services sp)\<rparr> else sp)"

definition start_service :: "(nat \<Rightarrow> bool) \<Rightarrow> int \<Rightarrow> pump \<Rightarrow> pump" where
  "start_service init_ok thread_num sp = (if \<not> sp_started sp then do_service init_ok thread_num False sp else sp)"

definition stop_service :: "pump \<Rightarrow> pump" where
  "stop_service sp = (if sp_started sp then wait_service (end_service sp) else sp)"

definition start_service_of :: "(nat \<Rightarrow> bool) \<Rightarrow> nat \<Rightarrow> int \<Rightarrow> pump \<Rightarrow> pump" where
  "start_service_of init_ok p thread_num sp =
     (if sp_started sp
      then sp\<lparr>sp_services := map (\<lambda>sv. if sv_ptr sv = p then service_start init_ok sv else sv) (sp_services sp)\<rparr>
      else start_service init_ok thread_num sp)"

definition stop_service_of :: "nat \<Rightarrow> pump \<Rightarrow> pump" where
  "stop_service_of p sp =
     sp\<lparr>sp_services := map (\<lambda>sv. if sv_ptr sv = p then service_stop sv else sv) (sp_services sp)\<rparr>"

definition is_running :: "pump \<Rightarrow> bool" where
  "is_running sp = list_ex (\<lambda>c. \<not> cx_stopped c) (sp_ctxs sp)"

text \<open>\<open>run_service\<close> up to the moment its own thread runs, and from its return on.\<close>

definition run_service_begin :: "(nat \<Rightarrow> bool) \<Rightarrow> int \<Rightarrow> pump \<Rightarrow> pump" where
  "run_service_begin init_ok thread_num sp = (if \<not> sp_started sp then do_service init_ok thread_num True sp else sp)"

definition run_service_end :: "pump \<Rightarrow> pump" where
  "run_service_end sp = wait_service (sp\<lparr>sp_ctxs := map (\<lambda>c. c\<lparr>cx_blocked := False\<rparr>) (sp_ctxs sp)\<rparr>)"

section \<open>The least loaded is chosen\<close>

lemma pick_loop_acc:
  "0 < least \<Longrightarrow>
     (pick_loop i (Some k) least loads = Some k \<and> (\<forall>x\<in>set loads. least \<le> x)) \<or>
     (\<exists>j<length loads. pick_loop i (Some k) least loads = Some (i + j) \<and> loads ! j < least \<and>
        (\<forall>x\<in>set loads. loads ! j \<le> x) \<and> (\<forall>l<j. loads ! j < loads ! l))"
proof (induction loads arbitrary: i k least)
  case Nil
  then show ?case by simp
next
  case (Cons load loads)
  consider "load = 0" | "0 < load" "load < least" | "0 < load" "least \<le> load" by linarith
  then show ?case
  proof cases
    case 1
    then show ?thesis using Cons.prems by (intro disjI2 exI [of _ 0]) auto
  next
    case 2
    have step: "pick_loop i (Some k) least (load # loads) = pick_loop (i + 1) (Some i) load loads" using 2 by simp
    from Cons.IH [OF 2(1), of "i + 1" i] show ?thesis
    proof (elim disjE exE conjE)
      assume "pick_loop (i + 1) (Some i) load loads = Some i" "\<forall>x\<in>set loads. load \<le> x"
      then show ?thesis using 2 unfolding step by (intro disjI2 exI [of _ 0]) auto
    next
      fix j
      assume h: "j < length loads" "pick_loop (i + 1) (Some i) load loads = Some (i + 1 + j)" "loads ! j < load"
        "\<forall>x\<in>set loads. loads ! j \<le> x" "\<forall>l<j. loads ! j < loads ! l"
      then show ?thesis using 2 unfolding step
        by (intro disjI2 exI [of _ "Suc j"]) (auto simp: less_Suc_eq_0_disj)
    qed
  next
    case 3
    have step: "pick_loop i (Some k) least (load # loads) = pick_loop (i + 1) (Some k) least loads"
      using 3 Cons.prems by simp
    from Cons.IH [OF Cons.prems, of "i + 1" k] show ?thesis
    proof (elim disjE exE conjE)
      assume "pick_loop (i + 1) (Some k) least loads = Some k" "\<forall>x\<in>set loads. least \<le> x"
      then show ?thesis using 3 unfolding step by auto
    next
      fix j
      assume h: "j < length loads" "pick_loop (i + 1) (Some k) least loads = Some (i + 1 + j)" "loads ! j < least"
        "\<forall>x\<in>set loads. loads ! j \<le> x" "\<forall>l<j. loads ! j < loads ! l"
      then show ?thesis using 3 unfolding step
        by (intro disjI2 exI [of _ "Suc j"]) (auto simp: less_Suc_eq_0_disj)
    qed
  qed
qed

lemma pick_least:
  assumes "loads \<noteq> []"
  shows "\<exists>i<length loads. pick_loop 0 None 0 loads = Some i \<and> (\<forall>x\<in>set loads. loads ! i \<le> x) \<and> (\<forall>l<i. loads ! i < loads ! l)"
proof -
  obtain load rest where l: "loads = load # rest" using assms by (cases loads) auto
  show ?thesis
  proof (cases "load = 0")
    case True
    then show ?thesis using l by (intro exI [of _ 0]) simp
  next
    case False
    have step: "pick_loop 0 None 0 loads = pick_loop 1 (Some 0) load rest" using False l by simp
    have "0 < load" using False by simp
    from pick_loop_acc [OF this, of 1 0 rest] show ?thesis
    proof (elim disjE exE conjE)
      assume "pick_loop 1 (Some 0) load rest = Some 0" "\<forall>x\<in>set rest. load \<le> x"
      then show ?thesis using l step by (intro exI [of _ 0]) auto
    next
      fix j
      assume "j < length rest" "pick_loop 1 (Some 0) load rest = Some (1 + j)" "rest ! j < load"
        "\<forall>x\<in>set rest. rest ! j \<le> x" "\<forall>l<j. rest ! j < rest ! l"
      then show ?thesis using l step by (intro exI [of _ "Suc j"]) (auto simp: less_Suc_eq_0_disj)
    qed
  qed
qed

text \<open>Loads that differ by one at most stay so when the least one grows by one.\<close>

definition balanced :: "nat list \<Rightarrow> bool" where
  "balanced loads \<longleftrightarrow> (\<forall>x\<in>set loads. \<forall>y\<in>set loads. x \<le> y + 1)"

lemma balanced_pick:
  assumes "balanced loads" "i < length loads" "\<forall>x\<in>set loads. loads ! i \<le> x"
  shows "balanced (loads[i := loads ! i + 1])"
proof -
  have "x \<le> y + 1" if x: "x \<in> set (loads[i := loads ! i + 1])" and y: "y \<in> set (loads[i := loads ! i + 1])" for x y
  proof -
    have "x \<in> set loads \<or> x = loads ! i + 1" "y \<in> set loads \<or> y = loads ! i + 1"
      using x y set_update_subset_insert [of loads i "loads ! i + 1"] by auto
    moreover have "loads ! i \<in> set loads" using assms(2) by simp
    ultimately show ?thesis using assms(1,3) unfolding balanced_def by fastforce
  qed
  then show ?thesis by (auto simp: balanced_def)
qed

section \<open>Every io_context gets a thread\<close>

definition served :: "pump \<Rightarrow> bool" where
  "served sp \<longleftrightarrow> (\<forall>c\<in>set (sp_ctxs sp). 0 < cx_threads c \<or> cx_blocked c)"

definition unserved :: "pump \<Rightarrow> nat" where
  "unserved sp = length (filter (\<lambda>c. cx_threads c = 0 \<and> \<not> cx_blocked c) (sp_ctxs sp))"

lemma served_iff: "served sp \<longleftrightarrow> unserved sp = 0"
  by (auto simp: served_def unserved_def filter_empty_conv)

lemma count_update:
  "i < length xs \<Longrightarrow> \<not> P y \<Longrightarrow> length (filter P (xs[i := y])) + (if P (xs ! i) then 1 else 0) = length (filter P xs)"
proof (induction xs arbitrary: i)
  case (Cons x xs)
  then show ?case using Cons.IH [of "i - 1"] by (cases i) auto
qed simp

lemma unserved_step:
  assumes "i < length (sp_ctxs sp)" "\<forall>c\<in>set (sp_ctxs sp). cx_threads (sp_ctxs sp ! i) \<le> cx_threads c"
    and "\<forall>c\<in>set (sp_ctxs sp). \<not> cx_blocked c" "0 < cx_threads y \<or> cx_blocked y"
  shows "unserved (sp\<lparr>sp_ctxs := (sp_ctxs sp)[i := y]\<rparr>) \<le> unserved sp - 1"
proof -
  let ?P = "\<lambda>c. cx_threads c = 0 \<and> \<not> cx_blocked c"
  have eq: "unserved (sp\<lparr>sp_ctxs := (sp_ctxs sp)[i := y]\<rparr>) + (if ?P (sp_ctxs sp ! i) then 1 else 0) = unserved sp"
    using count_update [of i "sp_ctxs sp" ?P y] assms(1,4) by (auto simp: unserved_def)
  show ?thesis
  proof (cases "unserved sp = 0")
    case False
    then obtain c where "c \<in> set (sp_ctxs sp)" "cx_threads c = 0" by (auto simp: unserved_def filter_empty_conv)
    then have "cx_threads (sp_ctxs sp ! i) = 0" using assms(2) by fastforce
    then show ?thesis using eq assms(1,3) by auto
  qed (use eq in simp)
qed

lemma assign_thread_least:
  assumes "sp_ctxs sp \<noteq> []"
  shows "\<exists>i<length (sp_ctxs sp). assign_thread sp = Some i \<and> (\<forall>c\<in>set (sp_ctxs sp). cx_threads (sp_ctxs sp ! i) \<le> cx_threads c)"
  using pick_least [of "map cx_threads (sp_ctxs sp)"] assms by (auto simp: assign_thread_def)

lemma add_threads_served:
  "sp_ctxs sp \<noteq> [] \<Longrightarrow> unserved sp \<le> n \<Longrightarrow> \<forall>c\<in>set (sp_ctxs sp). \<not> cx_blocked c \<Longrightarrow> served (add_threads n block sp)"
proof (induction n arbitrary: sp)
  case 0
  then show ?case by (simp add: served_iff)
next
  case (Suc n)
  obtain i where i: "i < length (sp_ctxs sp)" "assign_thread sp = Some i"
    "\<forall>c\<in>set (sp_ctxs sp). cx_threads (sp_ctxs sp ! i) \<le> cx_threads c"
    using assign_thread_least [OF Suc.prems(1)] by blast
  let ?c = "sp_ctxs sp ! i"
  let ?b = "sp\<lparr>sp_ctxs := (sp_ctxs sp)[i := ?c\<lparr>cx_blocked := True\<rparr>]\<rparr>"
  let ?t = "sp\<lparr>sp_ctxs := (sp_ctxs sp)[i := ?c\<lparr>cx_threads := cx_threads ?c + 1\<rparr>]\<rparr>"
  have n: "unserved sp - 1 \<le> n" using Suc.prems(2) by simp
  have u: "unserved ?b \<le> n" "unserved ?t \<le> n"
    by (rule order_trans [OF unserved_step [OF i(1,3) Suc.prems(3)] n]; simp)+
  have "\<forall>c\<in>set (sp_ctxs ?t). \<not> cx_blocked c"
    using Suc.prems(3) i(1) by (auto dest!: set_update_subset_insert [THEN subsetD])
  then have "served (add_threads n block ?t)" using Suc.IH [of ?t] Suc.prems(1) u by simp
  then show ?case using i(2) u by (auto simp: Let_def served_iff)
qed

section \<open>The references of the objects\<close>

text \<open>
  Objects bound to an io_context, each with its \<open>io_context_refs\<close>; \<open>attach_io_context\<close> and
  \<open>detach_io_context\<close> of sockets and servers pass the counts on to the pump.
\<close>

record bound_obj =
  bo_ctx :: nat
  bo_refs :: "32 word"

definition obj_create :: "pump \<Rightarrow> bound_obj option \<times> pump" where
  "obj_create sp =
     (case assign_io_context True sp of (None, sp') \<Rightarrow> (None, sp') | (Some i, sp') \<Rightarrow> (Some \<lparr>bo_ctx = i, bo_refs = 1\<rparr>, sp'))"

definition obj_add_refs :: "32 word \<Rightarrow> bound_obj \<times> pump \<Rightarrow> bound_obj \<times> pump" where
  "obj_add_refs count = (\<lambda>(b, sp).
     if count > 0 then (b\<lparr>bo_refs := bo_refs b + count\<rparr>, assign_io_context_refs (bo_ctx b) count sp) else (b, sp))"

definition obj_sub_refs :: "32 word \<Rightarrow> bound_obj \<times> pump \<Rightarrow> bound_obj \<times> pump" where
  "obj_sub_refs count = (\<lambda>(b, sp).
     if count > 0 \<and> bo_refs b \<ge> count
     then (b\<lparr>bo_refs := bo_refs b - count\<rparr>, return_io_context (bo_ctx b) count sp) else (b, sp))"

definition obj_clear_refs :: "bound_obj \<times> pump \<Rightarrow> bound_obj \<times> pump" where
  "obj_clear_refs bs = obj_sub_refs (bo_refs (fst bs)) bs"

definition obj_reset_refs :: "bound_obj \<times> pump \<Rightarrow> bound_obj \<times> pump" where
  "obj_reset_refs bs = (if bo_refs (fst bs) = 0 then obj_add_refs 1 bs else bs)"

datatype ref_op = Ref_create | Ref_add nat "32 word" | Ref_sub nat "32 word" | Ref_clear nat | Ref_reset nat | Ref_destroy nat

fun ref_do :: "ref_op \<Rightarrow> bound_obj list \<times> pump \<Rightarrow> bound_obj list \<times> pump" where
  "ref_do Ref_create (bs, sp) = (case obj_create sp of (None, sp') \<Rightarrow> (bs, sp') | (Some b, sp') \<Rightarrow> (bs @ [b], sp'))"
| "ref_do (Ref_add k n) (bs, sp) = (if k < length bs then let (b, sp') = obj_add_refs n (bs ! k, sp) in (bs[k := b], sp') else (bs, sp))"
| "ref_do (Ref_sub k n) (bs, sp) = (if k < length bs then let (b, sp') = obj_sub_refs n (bs ! k, sp) in (bs[k := b], sp') else (bs, sp))"
| "ref_do (Ref_clear k) (bs, sp) = (if k < length bs then let (b, sp') = obj_clear_refs (bs ! k, sp) in (bs[k := b], sp') else (bs, sp))"
| "ref_do (Ref_reset k) (bs, sp) = (if k < length bs then let (b, sp') = obj_reset_refs (bs ! k, sp) in (bs[k := b], sp') else (bs, sp))"
| "ref_do (Ref_destroy k) (bs, sp) =
     (if k < length bs then let (b, sp') = obj_clear_refs (bs ! k, sp) in (take k bs @ drop (k + 1) bs, sp') else (bs, sp))"

text \<open>Each io_context carries the references of the objects bound to it, no more and no less.\<close>

definition refs_of :: "nat \<Rightarrow> bound_obj list \<Rightarrow> 32 word" where
  "refs_of i bs = sum_list (map (\<lambda>b. if bo_ctx b = i then bo_refs b else 0) bs)"

definition refs_inv :: "bound_obj list \<times> pump \<Rightarrow> bool" where
  "refs_inv = (\<lambda>(bs, sp). \<not> sp_single_ctx sp \<and> (\<forall>b\<in>set bs. bo_ctx b < length (sp_ctxs sp)) \<and>
     (\<forall>i<length (sp_ctxs sp). cx_refs (sp_ctxs sp ! i) = refs_of i bs))"

lemma refs_of_update:
  "k < length bs \<Longrightarrow> bo_ctx b = bo_ctx (bs ! k) \<Longrightarrow>
     refs_of i (bs[k := b]) = refs_of i bs + (if bo_ctx b = i then bo_refs b - bo_refs (bs ! k) else 0)"
  unfolding refs_of_def
proof (induction bs arbitrary: k)
  case (Cons x bs)
  then show ?case using Cons.IH [of "k - 1"] by (cases k) (auto simp: algebra_simps split: if_splits)
qed simp

lemma refs_of_delete:
  "k < length bs \<Longrightarrow> refs_of i (take k bs @ drop (k + 1) bs) = refs_of i bs - (if bo_ctx (bs ! k) = i then bo_refs (bs ! k) else 0)"
  unfolding refs_of_def
proof (induction bs arbitrary: k)
  case (Cons x bs)
  then show ?case using Cons.IH [of "k - 1"] by (cases k) (auto simp: algebra_simps split: if_splits)
qed simp

lemma upd_refs_keeps [simp]:
  "sp_single_ctx (upd_refs f i sp) = sp_single_ctx sp" "length (sp_ctxs (upd_refs f i sp)) = length (sp_ctxs sp)"
  by (simp_all add: upd_refs_def)

lemma upd_refs_nth:
  "\<not> sp_single_ctx sp \<Longrightarrow> i < length (sp_ctxs sp) \<Longrightarrow> j < length (sp_ctxs sp) \<Longrightarrow>
     cx_refs (sp_ctxs (upd_refs f i sp) ! j) = (if j = i then f (cx_refs (sp_ctxs sp ! i)) else cx_refs (sp_ctxs sp ! j))"
  by (simp add: upd_refs_def nth_list_update)

text \<open>What an operation of one object does to the pump, whatever the operation.\<close>

definition obj_effect :: "bound_obj \<Rightarrow> pump \<Rightarrow> bound_obj \<times> pump \<Rightarrow> bool" where
  "obj_effect b sp = (\<lambda>(b', sp'). bo_ctx b' = bo_ctx b \<and> sp_single_ctx sp' = sp_single_ctx sp \<and>
     length (sp_ctxs sp') = length (sp_ctxs sp) \<and>
     (\<forall>i<length (sp_ctxs sp). cx_refs (sp_ctxs sp' ! i) =
        cx_refs (sp_ctxs sp ! i) + (if bo_ctx b = i then bo_refs b' - bo_refs b else 0)))"

lemma obj_effects:
  assumes "\<not> sp_single_ctx sp" "bo_ctx b < length (sp_ctxs sp)"
  shows "obj_effect b sp (obj_add_refs n (b, sp))" "obj_effect b sp (obj_sub_refs n (b, sp))"
    "obj_effect b sp (obj_clear_refs (b, sp))" "obj_effect b sp (obj_reset_refs (b, sp))"
  using assms
  by (auto simp: obj_effect_def obj_add_refs_def obj_sub_refs_def obj_clear_refs_def obj_reset_refs_def
      assign_io_context_refs_def return_io_context_def upd_refs_nth)

lemma refs_inv_obj:
  assumes inv: "refs_inv (bs, sp)" and k: "k < length bs" and e: "obj_effect (bs ! k) sp (b', sp')"
  shows "refs_inv (bs[k := b'], sp')"
proof -
  have "\<forall>b\<in>set (bs[k := b']). bo_ctx b < length (sp_ctxs sp')"
    using inv k e by (auto simp: refs_inv_def obj_effect_def dest!: set_update_subset_insert [THEN subsetD])
  moreover have "cx_refs (sp_ctxs sp' ! i) = refs_of i (bs[k := b'])" if "i < length (sp_ctxs sp')" for i
    using inv e that refs_of_update [OF k, of b' i] by (auto simp: refs_inv_def obj_effect_def)
  ultimately show ?thesis using inv e by (auto simp: refs_inv_def obj_effect_def)
qed

lemma clear_refs_zero: "bo_refs (fst (obj_clear_refs (b, sp))) = 0"
  by (auto simp: obj_clear_refs_def obj_sub_refs_def word_gt_0)

lemma refs_inv_create:
  assumes inv: "refs_inv (bs, sp)"
  shows "refs_inv (ref_do Ref_create (bs, sp))"
proof (cases "pick_loop 0 None 0 (map (unat \<circ> cx_refs) (sp_ctxs sp))")
  case None
  then show ?thesis using inv by (simp add: obj_create_def assign_io_context_def refs_inv_def)
next
  case (Some i)
  have ne: "sp_ctxs sp \<noteq> []" using Some by auto
  then have "i < length (sp_ctxs sp)" using pick_least [of "map (unat \<circ> cx_refs) (sp_ctxs sp)"] Some by auto
  then show ?thesis using inv Some
    by (auto simp: obj_create_def assign_io_context_def refs_inv_def refs_of_def nth_list_update)
qed

lemma refs_inv_drop:
  assumes inv: "refs_inv (bs, sp)" and k: "k < length bs" and z: "bo_refs (bs ! k) = 0"
  shows "refs_inv (take k bs @ drop (k + 1) bs, sp)"
proof -
  have "refs_of i (take k bs @ drop (k + 1) bs) = refs_of i bs" for i
    using refs_of_delete [OF k, of i] z by simp
  moreover have "set (take k bs @ drop (k + 1) bs) \<subseteq> set bs"
    using set_take_subset [of k bs] set_drop_subset [of "k + 1" bs] by auto
  ultimately show ?thesis using inv by (auto simp: refs_inv_def)
qed

lemma refs_inv_do: "refs_inv st \<Longrightarrow> refs_inv (ref_do op1 st)"
proof (cases st)
  case (Pair bs sp)
  assume inv: "refs_inv st"
  have b: "obj_effect (bs ! k) sp (obj_add_refs n (bs ! k, sp))" "obj_effect (bs ! k) sp (obj_sub_refs n (bs ! k, sp))"
    "obj_effect (bs ! k) sp (obj_clear_refs (bs ! k, sp))" "obj_effect (bs ! k) sp (obj_reset_refs (bs ! k, sp))"
    if "k < length bs" for k n
    using obj_effects [of sp "bs ! k"] inv that Pair by (auto simp: refs_inv_def)
  note upd = refs_inv_obj [OF inv [unfolded Pair]]
  show ?thesis
  proof (cases op1)
    case Ref_create
    then show ?thesis using refs_inv_create inv Pair by simp
  next
    case (Ref_destroy k)
    show ?thesis
    proof (cases "k < length bs")
      case True
      obtain b' sp' where o: "obj_clear_refs (bs ! k, sp) = (b', sp')" by fastforce
      have z: "bo_refs b' = 0" using clear_refs_zero [of "bs ! k" sp] o by simp
      have i1: "refs_inv (bs[k := b'], sp')" using upd [OF True] b(3) [OF True] o by simp
      have "take k bs @ drop (k + 1) bs = take k (bs[k := b']) @ drop (k + 1) (bs[k := b'])" using True by simp
      moreover have "refs_inv (take k (bs[k := b']) @ drop (k + 1) (bs[k := b']), sp')"
        by (rule refs_inv_drop [OF i1]) (use True z in simp_all)
      ultimately show ?thesis using Ref_destroy True o Pair by (simp add: Let_def)
    qed (use Ref_destroy inv Pair in simp)
  qed (use inv upd b Pair in \<open>auto simp: Let_def split_beta split: if_splits\<close>)
qed

lemma refs_inv_run: "refs_inv st \<Longrightarrow> refs_inv (fold ref_do ops st)"
  by (induction ops arbitrary: st) (auto simp: refs_inv_do)

section \<open>Ending threads at run time\<close>

text \<open>Where a thread stands in \<open>run\<close>; each step is one access to an atomic counter, or \<open>run_one\<close>.\<close>

datatype thread_pc = T_start | T_check | T_dec_del | T_inc_del | T_dec_real | T_inc_real | T_run | T_exit | T_gone

record thread_state =
  real_thread_num :: int
  del_thread_num :: int
  thread_pcs :: "thread_pc list"

datatype run_one_result = Ran nat | Threw bool

text \<open>\<open>Threw\<close> carries the answer of \<open>on_exception\<close>.\<close>

fun run_step :: "run_one_result \<Rightarrow> thread_pc \<Rightarrow> int \<times> int \<Rightarrow> thread_pc \<times> int \<times> int" where
  "run_step res T_start (real, del) = (T_check, real + 1, del)"
| "run_step res T_check (real, del) = (if del > 0 then T_dec_del else T_run, real, del)"
| "run_step res T_dec_del (real, del) = (if del - 1 \<ge> 0 then T_dec_real else T_inc_del, real, del - 1)"
| "run_step res T_inc_del (real, del) = (T_run, real, del + 1)"
| "run_step res T_dec_real (real, del) = (if real - 1 > 0 then T_gone else T_inc_real, real - 1, del)"
| "run_step res T_inc_real (real, del) = (T_run, real + 1, del)"
| "run_step res T_run (real, del) =
     (case res of Ran this_n \<Rightarrow> (if this_n > 0 then T_check else T_exit, real, del)
      | Threw on_exception \<Rightarrow> (if on_exception then T_exit else T_gone, real, del))"
| "run_step res T_exit (real, del) = (T_gone, real - 1, del)"
| "run_step res T_gone (real, del) = (T_gone, real, del)"

definition thread_step :: "nat \<Rightarrow> run_one_result \<Rightarrow> thread_state \<Rightarrow> thread_state" where
  "thread_step k res t =
     (if k < length (thread_pcs t)
      then let (pc, real, del) = run_step res (thread_pcs t ! k) (real_thread_num t, del_thread_num t)
           in t\<lparr>real_thread_num := real, del_thread_num := del, thread_pcs := (thread_pcs t)[k := pc]\<rparr>
      else t)"

definition del_service_thread :: "int \<Rightarrow> thread_state \<Rightarrow> thread_state" where
  "del_service_thread thread_num t = (if thread_num > 0 then t\<lparr>del_thread_num := del_thread_num t + thread_num\<rparr> else t)"

inductive thread_run :: "nat \<Rightarrow> thread_state \<Rightarrow> bool" for n :: nat where
  "thread_run n \<lparr>real_thread_num = 0, del_thread_num = 0, thread_pcs = replicate n T_start\<rparr>"
| "thread_run n t \<Longrightarrow> 0 < this_n \<Longrightarrow> thread_run n (thread_step k (Ran this_n) t)"
| "thread_run n t \<Longrightarrow> thread_run n (del_service_thread m t)"

definition counted :: "thread_pc \<Rightarrow> bool" where
  "counted pc \<longleftrightarrow> pc \<notin> {T_start, T_inc_real, T_gone}"

lemma filter_length_upd:
  "k < length xs \<Longrightarrow> int (length (filter P (xs[k := y]))) = int (length (filter P xs)) + of_bool (P y) - of_bool (P (xs ! k))"
proof (induction xs arbitrary: k)
  case (Cons x xs)
  then show ?case using Cons.IH [of "k - 1"] by (cases k) auto
qed simp

lemma run_step_counted:
  "run_step (Ran this_n) pc (real, del) = (pc', real', del') \<Longrightarrow> real' = real + of_bool (counted pc') - of_bool (counted pc)"
  by (cases pc) (auto simp: counted_def split: if_splits)

lemma thread_run_inv:
  "thread_run n t \<Longrightarrow> real_thread_num t = int (length (filter counted (thread_pcs t))) \<and> T_exit \<notin> set (thread_pcs t) \<and>
     length (thread_pcs t) = n \<and> (0 < n \<longrightarrow> \<not> set (thread_pcs t) \<subseteq> {T_gone})"
proof (induction rule: thread_run.induct)
  case 1
  then show ?case by (auto simp: counted_def)
next
  case (2 t this_n k)
  show ?case
  proof (cases "k < length (thread_pcs t)")
    case False
    then show ?thesis using 2 by (simp add: thread_step_def)
  next
    case True
    obtain pc real del where r: "run_step (Ran this_n) (thread_pcs t ! k) (real_thread_num t, del_thread_num t) = (pc, real, del)"
      by (cases "run_step (Ran this_n) (thread_pcs t ! k) (real_thread_num t, del_thread_num t)")
    have st: "thread_step k (Ran this_n) t = t\<lparr>real_thread_num := real, del_thread_num := del, thread_pcs := (thread_pcs t)[k := pc]\<rparr>"
      using True r by (simp add: thread_step_def)
    have cnt: "real = int (length (filter counted ((thread_pcs t)[k := pc])))"
      using run_step_counted [OF r] filter_length_upd [OF True, of counted pc] 2 by simp
    have ne: "thread_pcs t ! k \<noteq> T_exit" using 2 True nth_mem by metis
    then have "pc \<noteq> T_exit" using r 2(2) by (cases "thread_pcs t ! k") (auto split: if_splits)
    then have "T_exit \<notin> set ((thread_pcs t)[k := pc])"
      using 2 by (auto dest!: set_update_subset_insert [THEN subsetD])
    moreover have "\<not> set ((thread_pcs t)[k := pc]) \<subseteq> {T_gone}"
    proof (cases "pc = T_gone \<and> thread_pcs t ! k \<noteq> T_gone")
      case gone: True
      then have "0 < real" using r ne by (cases "thread_pcs t ! k") (auto split: if_splits)
      then have "filter counted ((thread_pcs t)[k := pc]) \<noteq> []" using cnt by auto
      then show ?thesis by (auto simp: filter_empty_conv counted_def)
    next
      case False
      then consider "pc \<noteq> T_gone" | "(thread_pcs t)[k := pc] = thread_pcs t" by (metis list_update_id)
      then show ?thesis
      proof cases
        case 1
        then show ?thesis using True set_update_memI by fastforce
      next
        case 2
        then show ?thesis using \<open>thread_run n t\<close> "2.IH" True by (metis gr_zeroI length_0_conv list.size(3) not_less_zero)
      qed
    qed
    ultimately show ?thesis using 2 st cnt by simp
  qed
next
  case (3 t m)
  then show ?case by (simp add: del_service_thread_def)
qed

section \<open>Properties\<close>

lemma add_threads_keeps:
  "sp_started (add_threads n block sp) = sp_started sp" "sp_services (add_threads n block sp) = sp_services sp"
  by (induction n arbitrary: sp) (auto simp: Let_def split: option.splits)

lemma assign_io_context_some:
  assumes "sp_ctxs sp \<noteq> []" "\<not> sp_single_ctx sp"
  shows "\<exists>i<length (sp_ctxs sp). assign_io_context True sp =
      (Some i, sp\<lparr>sp_ctxs := (sp_ctxs sp)[i := (sp_ctxs sp ! i)\<lparr>cx_refs := cx_refs (sp_ctxs sp ! i) + 1\<rparr>]\<rparr>) \<and>
      (\<forall>c\<in>set (sp_ctxs sp). unat (cx_refs (sp_ctxs sp ! i)) \<le> unat (cx_refs c)) \<and>
      (\<forall>l<i. unat (cx_refs (sp_ctxs sp ! i)) < unat (cx_refs (sp_ctxs sp ! l)))"
proof -
  obtain i where i: "i < length (sp_ctxs sp)" "pick_loop 0 None 0 (map (unat \<circ> cx_refs) (sp_ctxs sp)) = Some i"
    "\<forall>x\<in>set (map (unat \<circ> cx_refs) (sp_ctxs sp)). map (unat \<circ> cx_refs) (sp_ctxs sp) ! i \<le> x"
    "\<forall>l<i. map (unat \<circ> cx_refs) (sp_ctxs sp) ! i < map (unat \<circ> cx_refs) (sp_ctxs sp) ! l"
    using pick_least [of "map (unat \<circ> cx_refs) (sp_ctxs sp)"] assms(1) by auto
  then show ?thesis using assms(2) by (intro exI [of _ i]) (auto simp: assign_io_context_def)
qed

definition ref_loads :: "pump \<Rightarrow> nat list" where
  "ref_loads sp = map (unat \<circ> cx_refs) (sp_ctxs sp)"

lemma ref_loads_assign:
  assumes "i < length (sp_ctxs sp)" "unat (cx_refs (sp_ctxs sp ! i)) < 2 ^ 32 - 1"
  shows "ref_loads (sp\<lparr>sp_ctxs := (sp_ctxs sp)[i := (sp_ctxs sp ! i)\<lparr>cx_refs := cx_refs (sp_ctxs sp ! i) + 1\<rparr>]\<rparr>) =
    (ref_loads sp)[i := ref_loads sp ! i + 1]"
proof -
  have "unat (cx_refs (sp_ctxs sp ! i) + 1) = unat (cx_refs (sp_ctxs sp ! i)) + 1"
    using assms(2) by (simp add: unat_word_ariths)
  then show ?thesis using assms(1) by (simp add: ref_loads_def map_update)
qed

text \<open>The io_context handed to a new object is the first one with the fewest references, and handing it out
  leaves the references balanced: if they differed by one at most, they still do.\<close>

theorem assign_io_context_balances:
  assumes "sp_ctxs sp \<noteq> []" "\<not> sp_single_ctx sp" "balanced (ref_loads sp)" "\<forall>x\<in>set (ref_loads sp). x < 2 ^ 32 - 1"
    and "assign_io_context True sp = (ctx, sp')"
  shows "\<exists>i<length (sp_ctxs sp). ctx = Some i \<and> (\<forall>x\<in>set (ref_loads sp). ref_loads sp ! i \<le> x) \<and>
      (\<forall>l<i. ref_loads sp ! i < ref_loads sp ! l) \<and> ref_loads sp' = (ref_loads sp)[i := ref_loads sp ! i + 1] \<and>
      balanced (ref_loads sp')"
proof -
  obtain i where i: "i < length (sp_ctxs sp)" "assign_io_context True sp =
      (Some i, sp\<lparr>sp_ctxs := (sp_ctxs sp)[i := (sp_ctxs sp ! i)\<lparr>cx_refs := cx_refs (sp_ctxs sp ! i) + 1\<rparr>]\<rparr>)"
    "\<forall>c\<in>set (sp_ctxs sp). unat (cx_refs (sp_ctxs sp ! i)) \<le> unat (cx_refs c)"
    "\<forall>l<i. unat (cx_refs (sp_ctxs sp ! i)) < unat (cx_refs (sp_ctxs sp ! l))"
    using assign_io_context_some [OF assms(1,2)] by blast
  have l: "length (ref_loads sp) = length (sp_ctxs sp)" "ref_loads sp ! i = unat (cx_refs (sp_ctxs sp ! i))"
    using i(1) by (simp_all add: ref_loads_def)
  have "ref_loads sp ! i < 2 ^ 32 - 1" using assms(4) i(1) l by (metis nth_mem)
  then have upd: "ref_loads sp' = (ref_loads sp)[i := ref_loads sp ! i + 1]"
    using ref_loads_assign [OF i(1)] i(2) assms(5) l by simp
  have least: "\<forall>x\<in>set (ref_loads sp). ref_loads sp ! i \<le> x" using i(3) l by (simp add: ref_loads_def)
  have "balanced (ref_loads sp')" unfolding upd by (rule balanced_pick [OF assms(3) _ least]) (simp add: i(1) l)
  moreover have "\<forall>j<i. ref_loads sp ! i < ref_loads sp ! j" using i(1,4) by (simp add: ref_loads_def)
  ultimately show ?thesis using i(1,2) assms(5) least upd by auto
qed

theorem assign_io_context_balances_witness:
  "let sp = snd (assign_io_context True (snd (set_io_context_num 3 (sp_new False))))
   in \<exists>i<3. fst (assign_io_context True sp) = Some i \<and> balanced (ref_loads (snd (assign_io_context True sp)))"
proof -
  have sp: "snd (assign_io_context True (snd (set_io_context_num 3 (sp_new False)))) =
    \<lparr>sp_started = False, sp_first = True, sp_services = [], sp_single_ctx = False,
     sp_ctxs = [cx_new\<lparr>cx_refs := 1\<rparr>, cx_new, cx_new]\<rparr>" (is "_ = ?sp")
    by (simp add: sp_new_def set_io_context_num_def assign_io_context_def cx_new_def numeral_2_eq_2)
  have "balanced (ref_loads ?sp)" "\<forall>x\<in>set (ref_loads ?sp). x < 2 ^ 32 - 1"
    by (simp_all add: ref_loads_def balanced_def cx_new_def)
  then show ?thesis unfolding sp Let_def
    using assign_io_context_balances [of ?sp, OF _ _ _ _ prod.collapse [symmetric]] by auto
qed

text \<open>\<open>do_service\<close> with at least as many threads as io_contexts leaves no io_context without a thread, the
  calling thread of \<open>run_service\<close> counting as one, and every service whose \<open>init\<close> succeeds started.\<close>

theorem every_io_context_served:
  assumes "sp_ctxs sp \<noteq> []" "int (length (sp_ctxs sp)) \<le> thread_num" "\<forall>c\<in>set (sp_ctxs sp). \<not> cx_blocked c"
  shows "served (do_service init_ok thread_num block sp) \<and> sp_started (do_service init_ok thread_num block sp) \<and>
    sp_services (do_service init_ok thread_num block sp) = map (service_start init_ok) (sp_services sp)"
proof -
  let ?sp = "sp\<lparr>sp_started := True, sp_ctxs := map (\<lambda>c. c\<lparr>cx_stopped := False\<rparr>) (sp_ctxs sp),
              sp_services := map (service_start init_ok) (sp_services sp)\<rparr>"
  have "0 < length (sp_ctxs sp)" using assms(1) by simp
  then have "0 < thread_num" using assms(2) by linarith
  then have d: "do_service init_ok thread_num block sp = add_threads (nat thread_num) block ?sp"
    using assms(2) by (simp add: do_service_def add_service_thread_def not_le)
  have "unserved ?sp \<le> length (sp_ctxs ?sp)" unfolding unserved_def by (rule length_filter_le)
  then have "unserved ?sp \<le> nat thread_num" using assms(2) by simp
  then have "served (add_threads (nat thread_num) block ?sp)"
    using add_threads_served [of ?sp] assms(1,3) by simp
  then show ?thesis unfolding d by (simp add: add_threads_keeps)
qed

theorem every_io_context_served_witness:
  "served (do_service (\<lambda>_. True) 3 True (snd (set_io_context_num 3 (sp_new False))))"
  using every_io_context_served [of "snd (set_io_context_num 3 (sp_new False))" 3 "\<lambda>_. True" True]
  by (simp add: sp_new_def set_io_context_num_def cx_new_def numeral_2_eq_2)

text \<open>C33. Whatever objects do with their references (attach, detach, create, destroy, in any order, wrapping
  included), each io_context carries exactly the sum of the references of the objects bound to it.\<close>

theorem refs_accounted:
  assumes "\<not> sp_single_ctx sp" "\<forall>c\<in>set (sp_ctxs sp). cx_refs c = 0" "fold ref_do ops ([], sp) = (bs, sp')"
  shows "get_io_context_refs sp' = map (\<lambda>i. refs_of i bs) [0..<length (sp_ctxs sp')]"
proof -
  have "refs_inv ([], sp)" using assms(1,2) by (simp add: refs_inv_def refs_of_def)
  then have "refs_inv (bs, sp')" using refs_inv_run assms(3) by metis
  then show ?thesis by (auto simp: refs_inv_def get_io_context_refs_def intro!: nth_equalityI)
qed

theorem refs_accounted_witness:
  "get_io_context_refs (snd (fold ref_do [Ref_create, Ref_create, Ref_add 1 3, Ref_sub 0 1, Ref_create, Ref_destroy 1]
      ([], snd (set_io_context_num 2 (sp_new False))))) = [1, 0]"
  using refs_accounted [of "snd (set_io_context_num 2 (sp_new False))"
      "[Ref_create, Ref_create, Ref_add 1 3, Ref_sub 0 1, Ref_create, Ref_destroy 1]", OF _ _ prod.collapse [symmetric]]
  by (simp add: sp_new_def set_io_context_num_def cx_new_def obj_create_def assign_io_context_def obj_add_refs_def
      obj_sub_refs_def obj_clear_refs_def assign_io_context_refs_def return_io_context_def upd_refs_def refs_of_def upt_rec)

text \<open>Threads that are told to end at run time never all end: whatever the interleaving of their accesses to
  the two counters and however many are asked to go, one that still runs the io_context remains.\<close>

theorem last_thread_stays:
  assumes "thread_run n t" "0 < n"
  shows "\<exists>pc\<in>set (thread_pcs t). pc \<noteq> T_gone \<and> pc \<noteq> T_exit"
  using thread_run_inv [OF assms(1)] assms(2) by fastforce

lemma pick_zero_first: "pick_loop i c least (replicate k 1 @ 0 # loads) = Some (i + k)"
  by (induction k arbitrary: i c least) (simp_all add: Let_def split_beta)

text \<open>How the threads of \<open>run_service\<close> spread: one for each io_context, the last being the caller.\<close>

lemma add_threads_spread:
  "sp_ctxs sp = replicate k (cx_new\<lparr>cx_threads := 1\<rparr>) @ replicate (Suc m) cx_new \<Longrightarrow>
   add_threads (Suc m) True sp =
     sp\<lparr>sp_ctxs := replicate (k + m) (cx_new\<lparr>cx_threads := 1\<rparr>) @ [cx_new\<lparr>cx_blocked := True\<rparr>]\<rparr>"
proof (induction m arbitrary: k sp)
  case 0
  have "assign_thread sp = Some k"
    using pick_zero_first [of 0 None 0 k "[]"] 0 by (simp add: assign_thread_def cx_new_def)
  then show ?case using 0 by (simp add: nth_append list_update_append)
next
  case (Suc m)
  have a: "assign_thread sp = Some k"
    using pick_zero_first [of 0 None 0 k "replicate (Suc m) 0"] Suc.prems by (simp add: assign_thread_def cx_new_def)
  let ?sp = "sp\<lparr>sp_ctxs := replicate (Suc k) (cx_new\<lparr>cx_threads := 1\<rparr>) @ replicate (Suc m) cx_new\<rparr>"
  have u: "sp\<lparr>sp_ctxs := (sp_ctxs sp)[k := (sp_ctxs sp ! k)\<lparr>cx_threads := cx_threads (sp_ctxs sp ! k) + 1\<rparr>]\<rparr> = ?sp"
    using Suc.prems by (simp add: nth_append list_update_append replicate_append_same cx_new_def)
  have "add_threads (Suc (Suc m)) True sp = add_threads (Suc m) True ?sp"
    using add_threads.simps(2) [of "Suc m" True sp] unfolding u [symmetric] by (simp add: a Let_def del: add_threads.simps)
  also have "\<dots> = sp\<lparr>sp_ctxs := replicate (k + Suc m) (cx_new\<lparr>cx_threads := 1\<rparr>) @ [cx_new\<lparr>cx_blocked := True\<rparr>]\<rparr>"
    using Suc.IH [of ?sp "Suc k"] by simp
  finally show ?case .
qed

theorem last_thread_stays_witness:
  "\<exists>pc\<in>set (thread_pcs (thread_step 0 (Ran 1) (del_service_thread 5 (thread_step 0 (Ran 1)
      \<lparr>real_thread_num = 0, del_thread_num = 0, thread_pcs = [T_start, T_start]\<rparr>)))). pc \<noteq> T_gone \<and> pc \<noteq> T_exit"
proof (rule last_thread_stays)
  have "thread_run 2 \<lparr>real_thread_num = 0, del_thread_num = 0, thread_pcs = [T_start, T_start]\<rparr>"
    using thread_run.intros(1) [of 2] by (simp add: numeral_2_eq_2)
  then show "thread_run 2 (thread_step 0 (Ran 1) (del_service_thread 5 (thread_step 0 (Ran 1)
      \<lparr>real_thread_num = 0, del_thread_num = 0, thread_pcs = [T_start, T_start]\<rparr>)))"
    by (intro thread_run.intros(2,3)) simp_all
qed simp

text \<open>
  A handler that throws: when \<open>on_exception\<close> asks to continue, the thread ends all the same, since no handler
  was counted; when it asks to stop, the thread ends without being taken off \<open>real_thread_num\<close>, and then
  the last thread can be ended as well.
\<close>

lemma exception_ends_thread:
  "fst (run_step (Threw True) T_run (real, del)) = T_exit"
  "run_step (Threw False) T_run (real, del) = (T_gone, real, del)"
  by simp_all

text \<open>After an exception that \<open>on_exception\<close> answered with false, asking for one thread less ends the last one.\<close>

theorem exception_then_last_thread_ends:
  assumes "thread_run 2 t" "thread_pcs t = [T_run, T_check]" "del_thread_num t = 0"
    and "t1 = del_service_thread 1 (thread_step 0 (Threw False) t)"
  shows "thread_pcs (thread_step 1 (Ran 1) (thread_step 1 (Ran 1) (thread_step 1 (Ran 1) t1))) = [T_gone, T_gone]"
proof -
  have "real_thread_num t = 2" using thread_run_inv [OF assms(1)] assms(2) by (simp add: counted_def)
  then show ?thesis using assms(2-4) by (simp add: thread_step_def del_service_thread_def)
qed

theorem exception_then_last_thread_ends_witness:
  "let t = thread_step 1 (Ran 1) (thread_step 0 (Ran 1) (thread_step 0 (Ran 1)
       \<lparr>real_thread_num = 0, del_thread_num = 0, thread_pcs = [T_start, T_start]\<rparr>))
   in thread_pcs (thread_step 1 (Ran 1) (thread_step 1 (Ran 1) (thread_step 1 (Ran 1)
       (del_service_thread 1 (thread_step 0 (Threw False) t))))) = [T_gone, T_gone]"
  unfolding Let_def
proof (rule exception_then_last_thread_ends [OF _ _ _ refl])
  have "thread_run 2 \<lparr>real_thread_num = 0, del_thread_num = 0, thread_pcs = [T_start, T_start]\<rparr>"
    using thread_run.intros(1) [of 2] by (simp add: numeral_2_eq_2)
  then show "thread_run 2 (thread_step 1 (Ran 1) (thread_step 0 (Ran 1) (thread_step 0 (Ran 1)
       \<lparr>real_thread_num = 0, del_thread_num = 0, thread_pcs = [T_start, T_start]\<rparr>)))"
    by (intro thread_run.intros(2)) simp_all
qed (simp_all add: thread_step_def)

text \<open>After \<open>run_service\<close> with as many threads as io_contexts, a thread added for a new io_context goes to
  the one the caller of \<open>run_service\<close> already runs, since that thread is not counted, and none runs the new one.\<close>

theorem added_io_context_unserved:
  assumes "0 < n"
  shows "let sp = run_service_begin init_ok (int n) (snd (set_io_context_num (int n) (sp_new False)));
             sp' = add_service_thread 1 False 1 sp
         in served sp \<and> length (sp_ctxs sp') = n + 1 \<and> cx_threads (sp_ctxs sp' ! (n - 1)) = 1 \<and>
            cx_blocked (sp_ctxs sp' ! (n - 1)) \<and> cx_threads (sp_ctxs sp' ! n) = 0 \<and> \<not> served sp'"
proof -
  obtain m where m: "n = Suc m" using assms by (cases n) auto
  let ?sp0 = "snd (set_io_context_num (int n) (sp_new False))"
  let ?sp1 = "?sp0\<lparr>sp_started := True, sp_services := []\<rparr>"
  have c0: "sp_ctxs ?sp0 = replicate n cx_new" "\<not> sp_started ?sp0" "sp_services ?sp0 = []"
    using m by (simp_all add: set_io_context_num_def sp_new_def)
  have up: "?sp0\<lparr>sp_started := True, sp_ctxs := map (\<lambda>c. c\<lparr>cx_stopped := False\<rparr>) (sp_ctxs ?sp0),
      sp_services := map (service_start init_ok) (sp_services ?sp0)\<rparr> = ?sp1"
    using c0 by (simp add: cx_new_def)
  have "run_service_begin init_ok (int n) ?sp0 = add_threads n True ?sp1"
    using c0(1,2) assms unfolding run_service_begin_def do_service_def up add_service_thread_def
    by (simp del: add_threads.simps)
  also have "\<dots> = ?sp1\<lparr>sp_ctxs := replicate m (cx_new\<lparr>cx_threads := 1\<rparr>) @ [cx_new\<lparr>cx_blocked := True\<rparr>]\<rparr>"
    using add_threads_spread [of ?sp1 0 m] c0(1) m by (simp del: add_threads.simps)
  finally have run: "run_service_begin init_ok (int n) ?sp0 =
    ?sp1\<lparr>sp_ctxs := replicate m (cx_new\<lparr>cx_threads := 1\<rparr>) @ [cx_new\<lparr>cx_blocked := True\<rparr>]\<rparr>" .
  let ?sp = "run_service_begin init_ok (int n) ?sp0"
  have c1: "sp_ctxs ?sp = replicate m (cx_new\<lparr>cx_threads := 1\<rparr>) @ [cx_new\<lparr>cx_blocked := True\<rparr>]"
    unfolding run by simp
  have "assign_thread (?sp\<lparr>sp_single_ctx := False, sp_ctxs := sp_ctxs ?sp @ [cx_new]\<rparr>) = Some m"
    using pick_zero_first [of 0 None 0 m "[0]"] unfolding c1 by (simp add: assign_thread_def cx_new_def)
  then have "sp_ctxs (add_service_thread 1 False 1 ?sp) = (sp_ctxs ?sp @ [cx_new])
      [m := ((sp_ctxs ?sp @ [cx_new]) ! m)\<lparr>cx_threads := cx_threads ((sp_ctxs ?sp @ [cx_new]) ! m) + 1\<rparr>]"
    by (simp add: add_service_thread_def Let_def del: of_nat_Suc)
  also have "\<dots> = replicate m (cx_new\<lparr>cx_threads := 1\<rparr>) @ [cx_new\<lparr>cx_blocked := True, cx_threads := 1\<rparr>, cx_new]"
    unfolding c1 by (simp add: nth_append list_update_append cx_new_def)
  finally show ?thesis using c1 m by (auto simp: Let_def nth_append served_def cx_new_def)
qed

theorem added_io_context_unserved_witness:
  "\<not> served (add_service_thread 1 False 1 (run_service_begin (\<lambda>_. True) 2 (snd (set_io_context_num 2 (sp_new False)))))"
  using added_io_context_unserved [of 2 "\<lambda>_. True"] by (simp add: Let_def)

end
