(* ===== verification/Socks.thy ===== *)
theory Socks
  imports Ascs_Prelude
begin

text \<open>
  The SOCKS4 and SOCKS5 client endpoints (\<open>tcp/proxy/socks.h\<close>): building the requests in the fixed buffer
  \<open>buff\<close>, and the negotiation as a state machine driven by the completions of the writes and reads.
  A \<open>char\<close> is a signed byte where its value matters. The IP address parser of Boost.Asio is an argument,
  \<open>parse_ip\<close>; what it returns is known to have 4 or 16 bytes. Each handler returns the one asynchronous
  operation it starts, or the call of the base class it ends with.
\<close>

datatype ip_addr = Ip_v4 bytes | Ip_v6 bytes

definition is_v4 :: "ip_addr \<Rightarrow> bool" where
  "is_v4 a = (case a of Ip_v4 _ \<Rightarrow> True | _ \<Rightarrow> False)"

definition is_v6 :: "ip_addr \<Rightarrow> bool" where
  "is_v6 a = (case a of Ip_v6 _ \<Rightarrow> True | _ \<Rightarrow> False)"

fun addr_bytes :: "ip_addr \<Rightarrow> bytes" where
  "addr_bytes (Ip_v4 bs) = bs"
| "addr_bytes (Ip_v6 bs) = bs"

definition well_formed_ip :: "ip_addr \<Rightarrow> bool" where
  "well_formed_ip a = (case a of Ip_v4 bs \<Rightarrow> length bs = 4 | Ip_v6 bs \<Rightarrow> length bs = 16)"

type_synonym endpoint = "ip_addr \<times> 16 word"

definition htons :: "16 word \<Rightarrow> bytes" where
  "htons port = be_bytes 2 (unat port)"

text \<open>\<open>generic_client_socket::set_addr\<close> for an address that is not empty.\<close>

definition set_addr :: "(bytes \<Rightarrow> ip_addr option) \<Rightarrow> 16 word \<Rightarrow> bytes \<Rightarrow> endpoint \<Rightarrow> bool \<times> endpoint" where
  "set_addr parse_ip port ip ep = (case parse_ip ip of None \<Rightarrow> (False, ep) | Some a \<Rightarrow> (True, (a, port)))"

text \<open>
  What a handler ends with: \<open>async_write\<close> of the bytes, \<open>async_read\<close> or \<open>async_read_some\<close> into \<open>buff\<close> at a
  position with a length, \<open>connect_handler\<close> of the base class with its error, or \<open>force_shutdown\<close>.
\<close>

datatype socks_action =
    Write bytes
  | Read_some nat nat
  | Connect_handler bool
  | Force_shutdown

datatype socks_event =
    Connected bool
  | Written bool nat
  | Got bool bytes

section \<open>SOCKS4\<close>

record socks4 =
  s4_buff :: bytes
  s4_req_len :: nat
  s4_target_addr :: endpoint
  s4_handshaking :: bool

text \<open>''ascs'' and its terminator.\<close>

definition ascs_id :: bytes where
  "ascs_id = [97, 115, 99, 115, 0]"

definition set_target_addr4 :: "(bytes \<Rightarrow> ip_addr option) \<Rightarrow> 16 word \<Rightarrow> bytes \<Rightarrow> socks4 \<Rightarrow> bool \<times> socks4" where
  "set_target_addr4 parse_ip port ip s =
     (let s0 = s\<lparr>s4_req_len := 0\<rparr>
      in if port = 0 \<or> ip = [] then (False, s0)
         else
           let (ok, ep) = set_addr parse_ip port ip (s4_target_addr s0); s1 = s0\<lparr>s4_target_addr := ep\<rparr>
           in if \<not> ok \<or> \<not> is_v4 (fst ep) then (False, s1)
              else
                let b1 = (s4_buff s1)[0 := 4, 1 := 1];
                    b2 = write_at 2 (htons (snd ep)) b1;
                    b3 = write_at 4 (addr_bytes (fst ep)) b2;
                    b4 = write_at 8 ascs_id b3
                in (True, s1\<lparr>s4_buff := b4, s4_req_len := 8 + length ascs_id\<rparr>))"

definition connect_handler4 :: "bool \<Rightarrow> socks4 \<Rightarrow> socks4 \<times> socks_action" where
  "connect_handler4 ec s =
     (if ec \<or> s4_req_len s = 0 then (s, Connect_handler ec)
      else (s\<lparr>s4_handshaking := True\<rparr>, Write (take (s4_req_len s) (s4_buff s))))"

definition send_handler4 :: "bool \<Rightarrow> nat \<Rightarrow> socks4 \<Rightarrow> socks4 \<times> socks_action" where
  "send_handler4 ec bytes_transferred s =
     (s, if ec \<or> s4_req_len s \<noteq> bytes_transferred then Force_shutdown else Read_some 0 8)"

text \<open>The read is \<open>async_read\<close> of exactly 8 bytes; the buffer already holds what was read.\<close>

definition recv_handler4 :: "bool \<Rightarrow> nat \<Rightarrow> socks4 \<Rightarrow> socks4 \<times> socks_action" where
  "recv_handler4 ec bytes_transferred s =
     (s, if ec \<or> bytes_transferred \<noteq> 8 then Force_shutdown
         else if s4_buff s ! 1 \<noteq> 90 then Force_shutdown
         else Connect_handler ec)"

section \<open>SOCKS5\<close>

definition BUFF_SIZE :: nat where
  "BUFF_SIZE = 64"

record socks5 =
  s5_buff :: bytes
  s5_req_len :: nat
  s5_res_len :: nat
  s5_step :: int
  s5_target_addr :: endpoint
  s5_target_domain :: bytes
  s5_target_port :: "16 word"
  s5_username :: bytes
  s5_password :: bytes
  s5_handshaking :: bool

text \<open>A new endpoint, with whatever bytes \<open>buff\<close> holds.\<close>

definition socks5_new :: "bytes \<Rightarrow> socks5" where
  "socks5_new b = \<lparr>s5_buff = b, s5_req_len = 0, s5_res_len = 0, s5_step = -1, s5_target_addr = (Ip_v4 [0, 0, 0, 0], 0),
     s5_target_domain = [], s5_target_port = 0, s5_username = [], s5_password = [], s5_handshaking = False\<rparr>"

definition set_target_addr5 :: "(bytes \<Rightarrow> ip_addr option) \<Rightarrow> 16 word \<Rightarrow> bytes \<Rightarrow> socks5 \<Rightarrow> bool \<times> socks5" where
  "set_target_addr5 parse_ip port ip s =
     (let s0 = s\<lparr>s5_step := -1\<rparr>
      in if port = 0 \<or> ip = [] then (False, s0)
         else
           let (ok, ep) = set_addr parse_ip port ip (s5_target_addr s0)
           in if \<not> ok
              then if length ip > BUFF_SIZE - 7 then (False, s0)
                   else (True, s0\<lparr>s5_target_domain := ip, s5_target_port := port, s5_step := 0\<rparr>)
              else let s1 = s0\<lparr>s5_target_addr := ep\<rparr>
                   in if \<not> is_v4 (fst ep) \<and> \<not> is_v6 (fst ep) then (False, s1)
                      else (True, s1\<lparr>s5_step := 0\<rparr>))"

definition set_auth :: "bytes \<Rightarrow> bytes \<Rightarrow> socks5 \<Rightarrow> bool \<times> socks5" where
  "set_auth usr pwd s =
     (if usr = [] \<or> pwd = [] \<or> length usr + length pwd > 60 then (False, s)
      else (True, s\<lparr>s5_username := usr, s5_password := pwd\<rparr>))"

text \<open>Each sender builds the request in \<open>buff\<close> and writes the first \<open>req_len\<close> bytes of it.\<close>

definition send_req :: "bytes \<Rightarrow> nat \<Rightarrow> socks5 \<Rightarrow> socks5 \<times> socks_action" where
  "send_req buff req_len s =
     (s\<lparr>s5_res_len := 0, s5_buff := buff, s5_req_len := req_len\<rparr>, Write (take req_len buff))"

definition send_method :: "socks5 \<Rightarrow> socks5 \<times> socks_action" where
  "send_method s =
     (let b = (s5_buff s)[0 := 5];
          (b1, req_len) = (if s5_username s = [] \<and> s5_password s = [] then (b[1 := 1], 3) else (b[1 := 2, 3 := 2], 4))
      in send_req (b1[2 := 0]) req_len s)"

definition send_auth :: "socks5 \<Rightarrow> socks5 \<times> socks_action" where
  "send_auth s =
     (let u = s5_username s; p = s5_password s;
          b1 = (s5_buff s)[0 := 1, 1 := of_nat (length u)];
          b2 = (write_at 2 u b1)[2 + length u := of_nat (length p)];
          b3 = write_at (3 + length u) p b2
      in send_req b3 (1 + 1 + length u + 1 + length p) s)"

definition send_request :: "socks5 \<Rightarrow> socks5 \<times> socks_action" where
  "send_request s =
     (let b = (s5_buff s)[0 := 5, 1 := 1, 2 := 0]; (addr, port) = s5_target_addr s
      in if s5_target_domain s \<noteq> []
         then
           let b1 = b[3 := 3, 4 := of_nat (min (length (s5_target_domain s)) (BUFF_SIZE - 7))];
               n = nat (sint (b1 ! 4));
               b2 = write_at 5 (take n (s5_target_domain s)) b1;
               b3 = write_at (5 + n) (htons (s5_target_port s)) b2
           in send_req b3 (7 + n) s
         else if is_v4 addr
         then send_req (write_at 8 (htons port) (write_at 4 (addr_bytes addr) (b[3 := 1]))) 10 s
         else send_req (write_at 20 (htons port) (write_at 4 (addr_bytes addr) (b[3 := 4]))) 22 s)"

definition connect_handler5 :: "bool \<Rightarrow> socks5 \<Rightarrow> socks5 \<times> socks_action" where
  "connect_handler5 ec s =
     (if ec \<or> s5_step s = -1 then (s, Connect_handler ec)
      else send_method (s\<lparr>s5_handshaking := True, s5_step := 0\<rparr>))"

definition send_handler5 :: "bool \<Rightarrow> nat \<Rightarrow> socks5 \<Rightarrow> socks5 \<times> socks_action" where
  "send_handler5 ec bytes_transferred s =
     (if ec \<or> s5_req_len s \<noteq> bytes_transferred then (s, Force_shutdown)
      else (s\<lparr>s5_step := s5_step s + 1\<rparr>, Read_some 0 BUFF_SIZE))"

text \<open>
  The expected length of a reply with the header in \<open>buff\<close>, as \<open>size_t\<close>: the length of a domain is read
  from a signed \<open>char\<close>.
\<close>

definition reply_len :: "bytes \<Rightarrow> nat" where
  "reply_len buff =
     (if buff ! 3 = 1 then 6 + 4
      else if buff ! 3 = 3 then nat ((6 + (1 + sint (buff ! 4))) mod 2 ^ 64)
      else if buff ! 3 = 4 then 6 + 16
      else 6)"

text \<open>What follows when all branches are through: \<open>succ\<close> and \<open>continue_read\<close> decide.\<close>

definition recv_end :: "bool \<Rightarrow> bool \<Rightarrow> bool \<Rightarrow> socks5 \<Rightarrow> socks5 \<times> socks_action" where
  "recv_end ec succ continue_read s =
     (s, if \<not> succ then Force_shutdown
         else if \<not> continue_read then Connect_handler ec
         else if s5_res_len s \<ge> BUFF_SIZE then Force_shutdown
         else Read_some (s5_res_len s) (BUFF_SIZE - s5_res_len s))"

definition recv_handler5 :: "bool \<Rightarrow> nat \<Rightarrow> socks5 \<Rightarrow> socks5 \<times> socks_action" where
  "recv_handler5 ec bytes_transferred s0 =
     (let s = s0\<lparr>s5_res_len := s5_res_len s0 + bytes_transferred\<rparr>; buff = s5_buff s; res_len = s5_res_len s
      in if ec then (s, Force_shutdown)
         else if s5_step s = 1
         then if res_len < 2 then recv_end ec True True s
              else if res_len > 2 then recv_end ec False False s
              else if buff ! 1 = 0 then send_request (s\<lparr>s5_step := s5_step s + 1\<rparr>)
              else if buff ! 1 = 2 then send_auth s
              else recv_end ec False False s
         else if s5_step s = 2
         then if res_len < 2 then recv_end ec True True s
              else if res_len > 2 then recv_end ec False False s
              else if buff ! 1 = 0 then send_request s
              else recv_end ec False False s
         else if s5_step s = 3
         then if res_len < 6 then recv_end ec True True s
              else if buff ! 1 = 0
              then if res_len < reply_len buff then recv_end ec True True s
                   else if res_len > reply_len buff then recv_end ec False False s
                   else recv_end ec True False s
              else recv_end ec False False s
         else recv_end ec False False s)"

section \<open>The negotiation\<close>

text \<open>
  A completion answers the operation that is outstanding: a write reports at most what it was given, all of it
  when there is no error; a read puts at least one byte into the buffer, unless there is an error.
\<close>

fun socks_enabled :: "socks_action \<Rightarrow> socks_event \<Rightarrow> bool" where
  "socks_enabled (Write bs) (Written ec n) = (if ec then n \<le> length bs else n = length bs)"
| "socks_enabled (Read_some pos len) (Got ec bs) = (length bs \<le> len \<and> (ec \<or> bs \<noteq> []))"
| "socks_enabled _ _ = False"

fun socks5_event :: "socks_event \<Rightarrow> socks5 \<times> socks_action \<Rightarrow> socks5 \<times> socks_action" where
  "socks5_event (Written ec n) (s, a) = send_handler5 ec n s"
| "socks5_event (Got ec bs) (s, Read_some pos len) =
     recv_handler5 ec (length bs) (s\<lparr>s5_buff := write_at pos bs (s5_buff s)\<rparr>)"
| "socks5_event ev (s, a) = (s, a)"

fun socks4_event :: "socks_event \<Rightarrow> socks4 \<times> socks_action \<Rightarrow> socks4 \<times> socks_action" where
  "socks4_event (Written ec n) (s, a) = send_handler4 ec n s"
| "socks4_event (Got ec bs) (s, Read_some pos len) =
     recv_handler4 ec (length bs) (s\<lparr>s4_buff := write_at pos bs (s4_buff s)\<rparr>)"
| "socks4_event ev (s, a) = (s, a)"

inductive socks5_run :: "socks5 \<times> socks_action \<Rightarrow> socks_event list \<Rightarrow> socks5 \<times> socks_action \<Rightarrow> bool" where
  run_nil: "socks5_run sa [] sa"
| run_cons: "socks_enabled (snd sa) ev \<Longrightarrow> socks5_run (socks5_event ev sa) evs sa' \<Longrightarrow> socks5_run sa (ev # evs) sa'"

text \<open>How the user may set up the endpoint: targets and credentials in any order, accepted or not.\<close>

inductive socks5_config :: "(bytes \<Rightarrow> ip_addr option) \<Rightarrow> socks5 \<Rightarrow> bool" for parse_ip where
  config_new: "length b = BUFF_SIZE \<Longrightarrow> socks5_config parse_ip (socks5_new b)"
| config_target: "socks5_config parse_ip s \<Longrightarrow> socks5_config parse_ip (snd (set_target_addr5 parse_ip port ip s))"
| config_auth: "socks5_config parse_ip s \<Longrightarrow> socks5_config parse_ip (snd (set_auth usr pwd s))"

section \<open>The buffer is never overrun\<close>

lemma length_htons [simp]: "length (htons port) = 2"
  by (simp add: htons_def)

lemma length_ascs_id [simp]: "length ascs_id = 5"
  by (simp add: ascs_id_def)

lemma domain_len_byte [simp]: "n \<le> 57 \<Longrightarrow> nat (sint (of_nat n :: u8)) = n"
proof -
  assume n: "n \<le> 57"
  have "sint (of_nat n :: u8) = int n"
    using n by (simp add: signed_of_nat signed_take_bit_int_eq_self)
  then show ?thesis by simp
qed

definition s5_ok :: "socks5 \<Rightarrow> bool" where
  "s5_ok s \<longleftrightarrow> length (s5_buff s) = BUFF_SIZE \<and> length (s5_target_domain s) \<le> BUFF_SIZE - 7 \<and>
     length (s5_username s) + length (s5_password s) \<le> 60 \<and> well_formed_ip (fst (s5_target_addr s)) \<and> -1 \<le> s5_step s"

definition socks_inv :: "socks5 \<times> socks_action \<Rightarrow> bool" where
  "socks_inv = (\<lambda>(s, a). s5_ok s \<and>
     (case a of Write bs \<Rightarrow> 0 \<le> s5_step s \<and> s5_step s \<le> 2 \<and> s5_req_len s = length bs \<and> length bs \<le> BUFF_SIZE \<and> s5_res_len s = 0
      | Read_some pos len \<Rightarrow> 1 \<le> s5_step s \<and> s5_step s \<le> 3 \<and> pos + len = BUFF_SIZE \<and> 0 < len \<and> s5_res_len s = pos
      | _ \<Rightarrow> True))"

lemma addr_bytes_length:
  "well_formed_ip a \<Longrightarrow> length (addr_bytes a) = (if is_v4 a then 4 else 16)"
  by (cases a) (simp_all add: well_formed_ip_def is_v4_def)

lemma send_req_inv:
  "s5_ok s \<Longrightarrow> length buff = BUFF_SIZE \<Longrightarrow> n \<le> BUFF_SIZE \<Longrightarrow> 0 \<le> s5_step s \<Longrightarrow> s5_step s \<le> 2 \<Longrightarrow> socks_inv (send_req buff n s)"
  by (simp add: send_req_def socks_inv_def s5_ok_def)

lemma send_method_inv: "s5_ok s \<Longrightarrow> 0 \<le> s5_step s \<Longrightarrow> s5_step s \<le> 2 \<Longrightarrow> socks_inv (send_method s)"
  by (auto simp: send_method_def Let_def intro!: send_req_inv) (simp_all add: s5_ok_def BUFF_SIZE_def)

lemma send_auth_inv: "s5_ok s \<Longrightarrow> 0 \<le> s5_step s \<Longrightarrow> s5_step s \<le> 2 \<Longrightarrow> socks_inv (send_auth s)"
  unfolding send_auth_def Let_def
  by (rule send_req_inv) (auto simp: s5_ok_def BUFF_SIZE_def buf_simps)

lemma send_request_inv:
  assumes "s5_ok s" "0 \<le> s5_step s" "s5_step s \<le> 2"
  shows "socks_inv (send_request s)"
proof -
  obtain addr port where ap: "s5_target_addr s = (addr, port)" by fastforce
  have l: "length (addr_bytes addr) = (if is_v4 addr then 4 else 16)" "length (s5_buff s) = 64" "length (s5_target_domain s) \<le> 57"
    using assms(1) ap addr_bytes_length [of addr] by (simp_all add: s5_ok_def BUFF_SIZE_def)
  show ?thesis unfolding send_request_def Let_def ap using l
    by (auto intro!: send_req_inv assms simp: BUFF_SIZE_def buf_simps)
qed

lemma recv_end_inv:
  "s5_ok s \<Longrightarrow> 1 \<le> s5_step s \<Longrightarrow> s5_step s \<le> 3 \<Longrightarrow> socks_inv (recv_end ec succ cont s)"
  by (simp add: recv_end_def socks_inv_def)

lemma recv_handler5_inv:
  assumes "s5_ok s0" "1 \<le> s5_step s0" "s5_step s0 \<le> 3"
  shows "socks_inv (recv_handler5 ec n s0)"
proof -
  define s where "s = s0\<lparr>s5_res_len := s5_res_len s0 + n\<rparr>"
  have ok: "s5_ok s" "1 \<le> s5_step s" "s5_step s \<le> 3" using assms by (simp_all add: s_def s5_ok_def)
  have e: "socks_inv (recv_end ec' succ cont s)" for ec' succ cont by (rule recv_end_inv [OF ok])
  have f: "socks_inv (s, Force_shutdown)" using ok by (simp add: socks_inv_def)
  have r1: "s5_step s = 1 \<Longrightarrow> socks_inv (send_request (s\<lparr>s5_step := 2\<rparr>))"
    by (rule send_request_inv) (use ok in \<open>simp_all add: s5_ok_def\<close>)
  have r2: "s5_step s = 2 \<Longrightarrow> socks_inv (send_request s)" "s5_step s = 1 \<Longrightarrow> socks_inv (send_auth s)"
    using ok by (simp_all add: send_request_inv send_auth_inv)
  show ?thesis unfolding recv_handler5_def Let_def s_def [symmetric]
    using r1 r2 by (simp add: e f)
qed

lemma socks5_event_inv:
  assumes "socks_inv sa" "socks_enabled (snd sa) ev"
  shows "socks_inv (socks5_event ev sa)"
proof (cases sa)
  case (Pair s a)
  show ?thesis
  proof (cases a)
    case (Write bs)
    then obtain ec n where "ev = Written ec n" using assms Pair by (cases ev) auto
    then show ?thesis using assms Pair Write
      by (auto simp: socks_inv_def send_handler5_def s5_ok_def BUFF_SIZE_def split: if_splits)
  next
    case (Read_some pos len)
    then obtain ec bs where ev: "ev = Got ec bs" using assms Pair by (cases ev) auto
    have "s5_ok (s\<lparr>s5_buff := write_at pos bs (s5_buff s)\<rparr>)" "1 \<le> s5_step s" "s5_step s \<le> 3"
      using assms ev Pair Read_some by (auto simp: socks_inv_def s5_ok_def buf_simps)
    then show ?thesis unfolding Pair Read_some ev by (simp add: recv_handler5_inv)
  qed (use assms Pair in \<open>auto\<close>)
qed

lemma socks5_run_inv: "socks5_run sa evs sa' \<Longrightarrow> socks_inv sa \<Longrightarrow> socks_inv sa'"
  by (induction rule: socks5_run.induct) (auto intro: socks5_event_inv)

lemma config_ok:
  assumes "\<And>ip a. parse_ip ip = Some a \<Longrightarrow> well_formed_ip a"
  shows "socks5_config parse_ip s \<Longrightarrow> s5_ok s"
proof (induction rule: socks5_config.induct)
  case (config_target s port ip)
  then show ?case using assms [of ip]
    by (auto simp: s5_ok_def set_target_addr5_def set_addr_def Let_def split: option.splits)
qed (auto simp: s5_ok_def set_auth_def socks5_new_def well_formed_ip_def)

section \<open>The negotiation ends\<close>

definition socks_measure :: "socks5 \<times> socks_action \<Rightarrow> nat" where
  "socks_measure = (\<lambda>(s, a). case a of
       Write _ \<Rightarrow> nat (3 - s5_step s) * 65
     | Read_some _ len \<Rightarrow> nat (3 - s5_step s) * 65 + len
     | _ \<Rightarrow> 0)"

lemma measure_send [simp]:
  "socks_measure (send_method s) = nat (3 - s5_step s) * 65"
  "socks_measure (send_auth s) = nat (3 - s5_step s) * 65"
  "socks_measure (send_request s) = nat (3 - s5_step s) * 65"
  by (simp_all add: send_method_def send_auth_def send_request_def send_req_def socks_measure_def Let_def split_beta)

lemma measure_recv_end:
  "pos < s5_res_len s \<Longrightarrow> pos + len = BUFF_SIZE \<Longrightarrow> 0 < len \<Longrightarrow>
     socks_measure (recv_end ec succ cont s) < nat (3 - s5_step s) * 65 + len"
  by (auto simp: recv_end_def socks_measure_def)

lemma measure_recv:
  assumes "1 \<le> s5_step s0" "s5_step s0 \<le> 3" "s5_res_len s0 + len = BUFF_SIZE" "0 < len" "ec \<or> 0 < n"
  shows "socks_measure (recv_handler5 ec n s0) < nat (3 - s5_step s0) * 65 + len"
proof -
  define s where "s = s0\<lparr>s5_res_len := s5_res_len s0 + n\<rparr>"
  have st: "s5_step s0 = s5_step s" by (simp add: s_def)
  have e: "0 < n \<Longrightarrow> socks_measure (recv_end ec' succ cont s) < nat (3 - s5_step s) * 65 + len" for ec' succ cont
    by (rule measure_recv_end [of "s5_res_len s0"]) (use assms in \<open>simp_all add: s_def\<close>)
  have f: "socks_measure (s, Force_shutdown) < nat (3 - s5_step s) * 65 + len"
    using assms(4) by (simp add: socks_measure_def)
  have "s5_step s = 1 \<or> s5_step s = 2 \<or> s5_step s = 3" using assms(1,2) st by linarith
  then show ?thesis unfolding recv_handler5_def Let_def s_def [symmetric] st
    by (elim disjE) (use e f assms(4,5) in auto)
qed

lemma measure_event:
  assumes "socks_inv sa" "socks_enabled (snd sa) ev"
  shows "socks_measure (socks5_event ev sa) < socks_measure sa"
proof (cases sa)
  case (Pair s a)
  show ?thesis
  proof (cases a)
    case (Write bs)
    then obtain ec n where "ev = Written ec n" using assms Pair by (cases ev) auto
    moreover have "0 \<le> s5_step s" "s5_step s \<le> 2" using assms Pair Write by (auto simp: socks_inv_def)
    ultimately show ?thesis using Pair Write
      by (auto simp: socks_measure_def send_handler5_def BUFF_SIZE_def nat_diff_distrib)
  next
    case (Read_some pos len)
    then obtain ec bs where ev: "ev = Got ec bs" using assms Pair by (cases ev) auto
    let ?s = "s\<lparr>s5_buff := write_at pos bs (s5_buff s)\<rparr>"
    have "socks_measure (recv_handler5 ec (length bs) ?s) < nat (3 - s5_step ?s) * 65 + len"
      by (rule measure_recv) (use assms ev Pair Read_some in \<open>auto simp: socks_inv_def\<close>)
    then show ?thesis unfolding Pair Read_some ev by (simp add: socks_measure_def)
  qed (use assms Pair in auto)
qed

lemma run_measure: "socks5_run sa evs sa' \<Longrightarrow> socks_inv sa \<Longrightarrow> length evs + socks_measure sa' \<le> socks_measure sa"
proof (induction rule: socks5_run.induct)
  case (run_cons sa ev evs sa')
  then show ?case using socks5_event_inv [of sa ev] measure_event [of sa ev] by simp
qed simp

lemma connect_inv: "s5_ok s \<Longrightarrow> socks_inv (connect_handler5 ec s)"
  by (auto simp: connect_handler5_def intro!: send_method_inv) (auto simp: socks_inv_def s5_ok_def)

lemma connect_measure: "socks_measure (connect_handler5 ec s) \<le> 195"
  by (simp add: connect_handler5_def) (simp add: socks_measure_def)

section \<open>A conforming server is understood, however its replies are cut\<close>

lemma run_append: "socks5_run sa evs sa' \<Longrightarrow> socks5_run sa' evs' sa'' \<Longrightarrow> socks5_run sa (evs @ evs') sa''"
  by (induction rule: socks5_run.induct) (auto intro: socks5_run.intros)

lemma run_one: "socks_enabled a ev \<Longrightarrow> socks5_event ev (s, a) = sa \<Longrightarrow> socks5_run (s, a) [ev] sa"
  by (auto intro: socks5_run.intros)

lemma recv_count: "recv_handler5 ec n s = recv_handler5 ec 0 (s\<lparr>s5_res_len := s5_res_len s + n\<rparr>)"
  by (simp add: recv_handler5_def)

text \<open>The pieces of a reply pile up in the buffer until the last one; then the handler sees all of it.\<close>

lemma feed_reply:
  assumes more: "\<And>b q. length b = BUFF_SIZE \<Longrightarrow> q < length reply \<Longrightarrow> take q b = take q reply \<Longrightarrow>
      recv_handler5 False 0 (s\<lparr>s5_buff := b, s5_res_len := q\<rparr>) =
        (s\<lparr>s5_buff := b, s5_res_len := q\<rparr>, Read_some q (BUFF_SIZE - q))"
    and "length reply \<le> BUFF_SIZE"
  shows "chunks \<noteq> [] \<Longrightarrow> [] \<notin> set chunks \<Longrightarrow> concat chunks = drop pos reply \<Longrightarrow> length b = BUFF_SIZE \<Longrightarrow>
    take pos b = take pos reply \<Longrightarrow>
    \<exists>b'. length b' = BUFF_SIZE \<and> take (length reply) b' = reply \<and>
      socks5_run (s\<lparr>s5_buff := b, s5_res_len := pos\<rparr>, Read_some pos (BUFF_SIZE - pos)) (map (Got False) chunks)
        (recv_handler5 False 0 (s\<lparr>s5_buff := b', s5_res_len := length reply\<rparr>))"
proof (induction chunks arbitrary: pos b)
  case (Cons c chunks)
  have c: "c \<noteq> []" "c @ concat chunks = drop pos reply" using Cons.prems by auto
  have len: "pos + length c + length (concat chunks) = length reply"
    using arg_cong [OF c(2), of length] c(1) by (cases "pos \<le> length reply") auto
  define b1 where "b1 = write_at pos c b"
  have b1: "length b1 = BUFF_SIZE" using Cons.prems len assms(2) by (simp add: b1_def buf_simps)
  have "take (pos + length c) b1 = take pos reply @ c"
    using Cons.prems len assms(2) by (simp add: b1_def buf_simps)
  also have "\<dots> = take (pos + length c) reply" using arg_cong [OF c(2), of "take (length c)"] by (simp add: take_add)
  finally have pre: "take (pos + length c) b1 = take (pos + length c) reply" .
  have ev: "socks5_event (Got False c) (s\<lparr>s5_buff := b, s5_res_len := pos\<rparr>, Read_some pos (BUFF_SIZE - pos)) =
      recv_handler5 False 0 (s\<lparr>s5_buff := b1, s5_res_len := pos + length c\<rparr>)"
    by (simp add: b1_def recv_count [of False "length c"])
  have en: "socks_enabled (Read_some pos (BUFF_SIZE - pos)) (Got False c)" using c(1) len assms(2) by simp
  show ?case
  proof (cases "chunks = []")
    case True
    then have "pos + length c = length reply" using len by simp
    then show ?thesis using run_one [OF en ev] b1 pre True by (intro exI [of _ b1]) simp
  next
    case False
    have "concat chunks \<noteq> []" using False Cons.prems(2) by (cases chunks) auto
    then have "0 < length (concat chunks)" by (rule iffD2 [OF length_greater_0_conv])
    then have q: "pos + length c < length reply" using len by linarith
    have "concat chunks = drop (pos + length c) reply"
      using arg_cong [OF c(2), of "drop (length c)"] by (simp add: add.commute)
    then obtain b' where b': "length b' = BUFF_SIZE" "take (length reply) b' = reply"
      "socks5_run (s\<lparr>s5_buff := b1, s5_res_len := pos + length c\<rparr>,
          Read_some (pos + length c) (BUFF_SIZE - (pos + length c))) (map (Got False) chunks)
        (recv_handler5 False 0 (s\<lparr>s5_buff := b', s5_res_len := length reply\<rparr>))"
      using Cons.IH [OF False _ _ b1 pre] Cons.prems(2) by auto
    then show ?thesis using en ev more [OF b1 q pre]
      by (intro exI [of _ b']) (auto intro!: socks5_run.run_cons)
  qed
qed simp

text \<open>The replies with which a server grants a request (RFC 1928); a bound domain may have up to 255 bytes.\<close>

definition request_reply :: "bytes \<Rightarrow> bool" where
  "request_reply r \<longleftrightarrow> 6 \<le> length r \<and> r ! 1 = 0 \<and>
     (r ! 3 = 1 \<and> length r = 10 \<or> r ! 3 = 4 \<and> length r = 22 \<or> r ! 3 = 3 \<and> length r = 7 + unat (r ! 4))"

definition cut_into :: "bytes \<Rightarrow> bytes list \<Rightarrow> bool" where
  "cut_into r chunks \<longleftrightarrow> r \<noteq> [] \<and> [] \<notin> set chunks \<and> concat chunks = r"

lemma nth_of_take: "take q b = take q r \<Longrightarrow> i < q \<Longrightarrow> b ! i = r ! i"
  by (metis nth_take)

lemma reply_len_request:
  assumes "request_reply r" "length r \<le> BUFF_SIZE" "take q b = take q r" "6 \<le> q"
  shows "reply_len b = length r"
proof -
  have b: "b ! 3 = r ! 3" "b ! 4 = r ! 4" using nth_of_take [OF assms(3)] assms(4) by auto
  show ?thesis
  proof (cases "r ! 3 = 3")
    case True
    define n where "n = unat (r ! 4)"
    have n: "length r = 7 + n" "n < 58" using assms(1,2) True by (auto simp: request_reply_def BUFF_SIZE_def n_def)
    have "int n < 58" using n(2) by linarith
    then have "uint (r ! 4) < 58" by (simp add: n_def)
    then have "signed_take_bit 7 (uint (r ! 4)) = uint (r ! 4)"
      by (intro signed_take_bit_int_eq_self order_trans [OF _ uint_ge_0]) simp_all
    then have "sint (b ! 4) = int n" unfolding b by (simp add: sint_uint n_def)
    then show ?thesis using True b(1) n by (simp add: reply_len_def nat_add_distrib)
  next
    case False
    then show ?thesis using assms(1) b by (auto simp: reply_len_def request_reply_def)
  qed
qed

lemma feed_two:
  assumes "s5_step s = 1 \<or> s5_step s = 2" "cut_into [x, y] chunks" "length (s5_buff s) = BUFF_SIZE"
  shows "\<exists>b. length b = BUFF_SIZE \<and> take 2 b = [x, y] \<and>
    socks5_run (s\<lparr>s5_res_len := 0\<rparr>, Read_some 0 BUFF_SIZE) (map (Got False) chunks)
      (recv_handler5 False 0 (s\<lparr>s5_buff := b, s5_res_len := 2\<rparr>))"
proof -
  have "\<exists>b'. length b' = BUFF_SIZE \<and> take (length [x, y]) b' = [x, y] \<and>
      socks5_run (s\<lparr>s5_buff := s5_buff s, s5_res_len := 0\<rparr>, Read_some 0 (BUFF_SIZE - 0)) (map (Got False) chunks)
        (recv_handler5 False 0 (s\<lparr>s5_buff := b', s5_res_len := length [x, y]\<rparr>))"
    by (rule feed_reply) (use assms in \<open>auto simp: recv_handler5_def recv_end_def cut_into_def BUFF_SIZE_def Let_def\<close>)
  then show ?thesis by (simp add: numeral_2_eq_2)
qed

lemma feed_request:
  assumes "s5_step s = 3" "cut_into r chunks" "request_reply r" "length r \<le> BUFF_SIZE" "length (s5_buff s) = BUFF_SIZE"
  shows "\<exists>s'. socks5_run (s\<lparr>s5_res_len := 0\<rparr>, Read_some 0 BUFF_SIZE) (map (Got False) chunks) (s', Connect_handler False)"
proof -
  have r: "6 \<le> length r" "length r \<le> BUFF_SIZE" "r ! 1 = 0" using assms(3,4) by (auto simp: request_reply_def)
  have more: "recv_handler5 False 0 (s\<lparr>s5_buff := b, s5_res_len := q\<rparr>) =
      (s\<lparr>s5_buff := b, s5_res_len := q\<rparr>, Read_some q (BUFF_SIZE - q))"
    if "q < length r" "take q b = take q r" for b q
  proof (cases "q < 6")
    case True
    then show ?thesis using assms(1) r(2) that by (simp add: recv_handler5_def recv_end_def BUFF_SIZE_def)
  next
    case False
    then have "reply_len b = length r" "b ! 1 = 0"
      using reply_len_request [OF assms(3,4) that(2)] nth_of_take [OF that(2), of 1] r(3) by auto
    then show ?thesis using False assms(1) r(2) that by (simp add: recv_handler5_def recv_end_def Let_def)
  qed
  have "\<exists>b'. length b' = BUFF_SIZE \<and> take (length r) b' = r \<and>
      socks5_run (s\<lparr>s5_buff := s5_buff s, s5_res_len := 0\<rparr>, Read_some 0 (BUFF_SIZE - 0)) (map (Got False) chunks)
        (recv_handler5 False 0 (s\<lparr>s5_buff := b', s5_res_len := length r\<rparr>))"
    by (rule feed_reply) (use assms r more in \<open>auto simp: cut_into_def\<close>)
  then obtain b where b: "take (length r) b = r" "socks5_run (s\<lparr>s5_res_len := 0\<rparr>, Read_some 0 BUFF_SIZE) (map (Got False) chunks)
        (recv_handler5 False 0 (s\<lparr>s5_buff := b, s5_res_len := length r\<rparr>))" by auto
  have "reply_len b = length r" "b ! 1 = 0"
    using reply_len_request [OF assms(3,4), of "length r" b] nth_of_take [of "length r" b r 1] b(1) r by auto
  then have "snd (recv_handler5 False 0 (s\<lparr>s5_buff := b, s5_res_len := length r\<rparr>)) = Connect_handler False"
    using assms(1) r by (simp add: recv_handler5_def recv_end_def Let_def)
  then show ?thesis using b(2) by (metis prod.collapse)
qed

text \<open>
  A reply with a bound domain of 58 bytes or more does not fit the buffer, and from 128 on its length is
  taken for a negative number. Whatever has arrived of it, the endpoint reads on until the buffer is full
  or shuts down; with 255 the first 6 bytes, if they come alone, count as all of the reply.
\<close>

lemma sint_u8: "sint (w :: u8) = (if uint w < 128 then uint w else uint w - 256)"
proof -
  have b: "0 \<le> uint w" "uint w < 256" using uint_bounded [of w] by simp_all
  have s: "sint w = (uint w + 128) mod 256 - 128"
    by (simp add: sint_uint signed_take_bit_eq_take_bit_shift take_bit_eq_mod)
  show ?thesis
  proof (cases "uint w < 128")
    case False
    have "(uint w + 128) mod 256 = (uint w - 128 + 256) mod 256" by (simp add: add.commute)
    also have "\<dots> = uint w - 128" using b False by (subst mod_add_self2) simp
    finally show ?thesis using s False by simp
  qed (use b s in simp)
qed

lemma reply_len_long:
  assumes "request_reply r" "BUFF_SIZE < length r" "take q b = take q r" "6 \<le> q"
  shows "BUFF_SIZE < reply_len b \<or> reply_len b < 6 \<or> reply_len b = 6 \<and> r ! 4 = 255"
proof -
  have b: "b ! 3 = r ! 3" "b ! 4 = r ! 4" using nth_of_take [OF assms(3)] assms(4) by auto
  have n: "r ! 3 = 3" "58 \<le> unat (r ! 4)" using assms(1,2) by (auto simp: request_reply_def BUFF_SIZE_def)
  define d where "d = uint (r ! 4)"
  have "int (unat (r ! 4)) = d" by (simp add: d_def)
  then have "58 \<le> d" using n(2) by linarith
  moreover have "d < 256" using uint_bounded [of "r ! 4", folded d_def] by simp
  ultimately have d: "58 \<le> d" "d < 256" .
  have len: "reply_len b = nat ((7 + (if d < 128 then d else d - 256)) mod 2 ^ 64)"
    using b n(1) by (simp add: reply_len_def sint_u8 d_def)
  consider "d < 128" | "128 \<le> d" "d < 249" | "249 \<le> d" "d < 255" | "d = 255" using d by linarith
  then show ?thesis
  proof cases
    case 1
    then show ?thesis using len d by (simp add: BUFF_SIZE_def zless_nat_eq_int_zless)
  next
    case 2
    have "(7 + (d - 256)) mod 2 ^ 64 = (7 + (d - 256) + 2 ^ 64) mod 2 ^ 64"
      by (simp only: mod_add_self2)
    also have "\<dots> = 7 + (d - 256) + 2 ^ 64" using 2 by (intro mod_pos_pos_trivial) simp_all
    finally show ?thesis using len 2 by (simp add: BUFF_SIZE_def zless_nat_eq_int_zless)
  next
    case 3
    then show ?thesis using len by (simp add: nat_less_iff)
  next
    case 4
    have "r ! 4 = word_of_int d" by (simp add: d_def)
    then have "r ! 4 = 255" using 4 by simp
    then show ?thesis using len 4 by simp
  qed
qed

lemma long_reply_step:
  assumes "s5_step s = 3" "request_reply r" "BUFF_SIZE < length r" "0 < q" "q \<le> BUFF_SIZE" "take q b = take q r"
  shows "\<exists>a. recv_handler5 False 0 (s\<lparr>s5_buff := b, s5_res_len := q\<rparr>) = (s\<lparr>s5_buff := b, s5_res_len := q\<rparr>, a) \<and>
    (a = Force_shutdown \<or> a = Read_some q (BUFF_SIZE - q) \<and> q < BUFF_SIZE \<or> a = Connect_handler False \<and> r ! 4 = 255 \<and> q = 6)"
proof (cases "q < 6")
  case True
  then show ?thesis using assms(1,5) by (simp add: recv_handler5_def recv_end_def BUFF_SIZE_def)
next
  case False
  then have "b ! 1 = 0" using nth_of_take [OF assms(6), of 1] assms(2) by (simp add: request_reply_def)
  then show ?thesis using False assms(1,5) reply_len_long [OF assms(2,3,6)]
    by (auto simp: recv_handler5_def recv_end_def Let_def)
qed

lemma long_reply_run:
  assumes "s5_step s = 3" "request_reply r" "BUFF_SIZE < length r"
  shows "socks5_run (s\<lparr>s5_buff := b, s5_res_len := pos\<rparr>, Read_some pos (BUFF_SIZE - pos)) (map (Got False) cs) (s', a) \<Longrightarrow>
    drop pos r = concat cs @ rest \<Longrightarrow> length b = BUFF_SIZE \<Longrightarrow> take pos b = take pos r \<Longrightarrow> pos < BUFF_SIZE \<Longrightarrow>
    a = Force_shutdown \<or> a = Read_some (pos + length (concat cs)) (BUFF_SIZE - (pos + length (concat cs))) \<and> pos + length (concat cs) < BUFF_SIZE \<or>
    a = Connect_handler False \<and> r ! 4 = 255 \<and> pos + length (concat cs) = 6"
proof (induction cs arbitrary: pos b)
  case Nil
  then show ?case by (auto elim: socks5_run.cases)
next
  case (Cons c cs)
  let ?s = "\<lambda>b q. s\<lparr>s5_buff := b, s5_res_len := q\<rparr>"
  define b1 q where "b1 = write_at pos c b" and "q = pos + length c"
  have run: "socks_enabled (Read_some pos (BUFF_SIZE - pos)) (Got False c)"
    "socks5_run (socks5_event (Got False c) (?s b pos, Read_some pos (BUFF_SIZE - pos))) (map (Got False) cs) (s', a)"
    using Cons.prems(1) by (auto elim: socks5_run.cases)
  have q: "0 < q" "q \<le> BUFF_SIZE" using run(1) Cons.prems(5) by (auto simp: q_def)
  have d: "drop pos r = c @ concat cs @ rest" using Cons.prems(2) by simp
  have b1: "length b1 = BUFF_SIZE" using Cons.prems(3,5) q(2) by (simp add: b1_def q_def buf_simps)
  have "take q b1 = take pos r @ c" using Cons.prems(3-5) q(2) by (simp add: b1_def q_def buf_simps)
  also have "\<dots> = take q r" using arg_cong [OF d, of "take (length c)"] by (simp add: q_def take_add)
  finally have pre: "take q b1 = take q r" .
  have ev: "socks5_event (Got False c) (?s b pos, Read_some pos (BUFF_SIZE - pos)) = recv_handler5 False 0 (?s b1 q)"
    by (simp add: b1_def q_def recv_count [of False "length c"])
  obtain a1 where a1: "recv_handler5 False 0 (?s b1 q) = (?s b1 q, a1)"
    "a1 = Force_shutdown \<or> a1 = Read_some q (BUFF_SIZE - q) \<and> q < BUFF_SIZE \<or> a1 = Connect_handler False \<and> r ! 4 = 255 \<and> q = 6"
    using long_reply_step [OF assms q pre] by blast
  note go = run(2) [unfolded ev a1(1)]
  show ?case
  proof (cases "\<exists>pos len. a1 = Read_some pos len")
    case True
    then have a: "a1 = Read_some q (BUFF_SIZE - q)" "q < BUFF_SIZE" using a1(2) by auto
    have "drop q r = concat cs @ rest" using arg_cong [OF d, of "drop (length c)"] by (simp add: q_def add.commute)
    then show ?thesis using Cons.IH [OF go [unfolded a(1)] _ b1 pre a(2)] by (simp add: q_def add.assoc)
  next
    case False
    then have "cs = [] \<and> a = a1" using go a1(2) by (cases cs) (auto elim: socks5_run.cases)
    then show ?thesis using a1(2) False by (auto simp: q_def)
  qed
qed

section \<open>What the requests say\<close>

text \<open>The server's reading of a CONNECT request (RFC 1928): a domain or an address, and the port.\<close>

definition decode_request :: "bytes \<Rightarrow> ((bytes + ip_addr) \<times> 16 word) option" where
  "decode_request bs =
     (if length bs < 5 \<or> take 3 bs \<noteq> [5, 1, 0] then None
      else
        let atyp = bs ! 3; n = unat (bs ! 4); port = (\<lambda>off. of_nat (be_value (chunk off 2 bs)) :: 16 word)
        in if atyp = 1 \<and> length bs = 10 then Some (Inr (Ip_v4 (chunk 4 4 bs)), port 8)
           else if atyp = 4 \<and> length bs = 22 then Some (Inr (Ip_v6 (chunk 4 16 bs)), port 20)
           else if atyp = 3 \<and> length bs = 7 + n then Some (Inl (chunk 5 n bs), port (5 + n))
           else None)"

lemma port_back: "(of_nat (be_value (htons port)) :: 16 word) = port"
proof -
  have "unat port < 65536" using unsigned_less [of port] by simp
  then show ?thesis by (simp add: htons_def)
qed

lemma request_layout:
  assumes "length b = BUFF_SIZE" "off + length a + 2 \<le> BUFF_SIZE" "take off b = pre"
  shows "take (off + length a + 2) (write_at (off + length a) (htons port) (write_at off a b)) = pre @ a @ htons port"
proof -
  have "take (off + length a + 2) (write_at (off + length a) (htons port) (write_at off a b)) =
      take (off + length a) (write_at off a b) @ htons port"
    using assms by (intro take_write_at_len) (simp_all add: buf_simps)
  also have "take (off + length a) (write_at off a b) = pre @ a" using assms by (simp add: buf_simps)
  finally show ?thesis by simp
qed

text \<open>What the fields make \<open>send_request\<close> name; the section on what the user asked for says what it should be.\<close>

definition socks_names :: "socks5 \<Rightarrow> (bytes + ip_addr) \<times> 16 word" where
  "socks_names s =
     (if s5_target_domain s \<noteq> [] then (Inl (s5_target_domain s), s5_target_port s)
      else (Inr (fst (s5_target_addr s)), snd (s5_target_addr s)))"

lemma head_update:
  assumes "length b = BUFF_SIZE"
  shows "take 4 (b[0 := 5, 1 := 1, 2 := 0, 3 := x]) = [5, 1, 0, x]"
    "take 5 (b[0 := 5, 1 := 1, 2 := 0, 3 := x, 4 := y]) = [5, 1, 0, x, y]"
proof -
  obtain b0 b1 b2 b3 b4 r where "b = b0 # b1 # b2 # b3 # b4 # r"
    using assms by (auto simp: BUFF_SIZE_def numeral_eq_Suc length_Suc_conv)
  then show "take 4 (b[0 := 5, 1 := 1, 2 := 0, 3 := x]) = [5, 1, 0, x]"
    "take 5 (b[0 := 5, 1 := 1, 2 := 0, 3 := x, 4 := y]) = [5, 1, 0, x, y]" by simp_all
qed

lemma decode_domain:
  assumes "length d \<le> 57"
  shows "decode_request ([5, 1, 0, 3, of_nat (length d)] @ d @ htons port) = Some (Inl d, port)"
proof -
  have n: "unat (of_nat (length d) :: u8) = length d" using assms by (simp add: unat_u8_of_nat)
  have "chunk (5 + length d) 2 ([5, 1, 0, 3, of_nat (length d)] @ d @ htons port) = htons port"
    unfolding chunk_def by (subst append_assoc [symmetric], subst drop_append) simp
  then show ?thesis using n by (simp add: decode_request_def port_back Let_def) (simp add: chunk_def)
qed

lemma decode_v4: "length a = 4 \<Longrightarrow> decode_request ([5, 1, 0, 1] @ a @ htons port) = Some (Inr (Ip_v4 a), port)"
  by (simp add: decode_request_def chunk_def port_back Let_def)

lemma decode_v6: "length a = 16 \<Longrightarrow> decode_request ([5, 1, 0, 4] @ a @ htons port) = Some (Inr (Ip_v6 a), port)"
  by (simp add: decode_request_def chunk_def port_back Let_def)

lemma send_request_bytes:
  assumes "s5_ok s"
  shows "\<exists>s' bs. send_request s = (s', Write bs) \<and> length bs = s5_req_len s' \<and> decode_request bs = Some (socks_names s)"
proof -
  obtain addr port where ap: "s5_target_addr s = (addr, port)" by fastforce
  have ok: "length (s5_buff s) = BUFF_SIZE" "length (s5_target_domain s) \<le> 57" "well_formed_ip addr"
    using assms ap by (simp_all add: s5_ok_def BUFF_SIZE_def)
  consider (dom) "s5_target_domain s \<noteq> []" | (v4) "s5_target_domain s = []" "is_v4 addr" | (v6) "s5_target_domain s = []" "\<not> is_v4 addr"
    by blast
  then show ?thesis
  proof cases
    case dom
    let ?d = "s5_target_domain s" and ?b = "(s5_buff s)[0 := 5, 1 := 1, 2 := 0, 3 := 3, 4 := of_nat (length (s5_target_domain s))]"
    let ?bs = "[5, 1, 0, 3, of_nat (length ?d)] @ ?d @ htons (s5_target_port s)"
    have m: "min (length ?d) (BUFF_SIZE - 7) = length ?d" using ok(2) by (simp add: BUFF_SIZE_def)
    have n: "nat (sint (?b ! 4)) = length ?d" using ok by (simp add: BUFF_SIZE_def)
    have "take (5 + length ?d + 2) (write_at (5 + length ?d) (htons (s5_target_port s)) (write_at 5 ?d ?b)) = ?bs"
      by (subst request_layout) (use ok head_update(2) [OF ok(1)] in \<open>simp_all add: BUFF_SIZE_def\<close>)
    then have "snd (send_request s) = Write ?bs" "s5_req_len (fst (send_request s)) = length ?bs"
      using dom m n by (simp_all add: send_request_def send_req_def Let_def ap add.commute)
    moreover have "decode_request ?bs = Some (socks_names s)"
      using decode_domain [OF ok(2)] dom by (simp add: socks_names_def)
    ultimately show ?thesis by (metis prod.collapse)
  next
    case v4
    then obtain a where a: "addr = Ip_v4 a" "length a = 4" using ok(3) by (cases addr) (auto simp: is_v4_def well_formed_ip_def)
    let ?bs = "[5, 1, 0, 1] @ a @ htons port"
    have "take 10 (write_at 8 (htons port) (write_at 4 a ((s5_buff s)[0 := 5, 1 := 1, 2 := 0, 3 := 1]))) = ?bs"
      using request_layout [of "(s5_buff s)[0 := 5, 1 := 1, 2 := 0, 3 := 1]" 4 a "[5, 1, 0, 1]" port] ok a head_update(1) [OF ok(1)]
      by (simp add: BUFF_SIZE_def)
    then have "snd (send_request s) = Write ?bs" "s5_req_len (fst (send_request s)) = length ?bs"
      using v4 a by (simp_all add: send_request_def send_req_def Let_def ap)
    moreover have "decode_request ?bs = Some (socks_names s)"
      using decode_v4 [OF a(2)] v4 a ap by (simp add: socks_names_def)
    ultimately show ?thesis by (metis prod.collapse)
  next
    case v6
    then obtain a where a: "addr = Ip_v6 a" "length a = 16" using ok(3) by (cases addr) (auto simp: is_v4_def well_formed_ip_def)
    let ?bs = "[5, 1, 0, 4] @ a @ htons port"
    have "take 22 (write_at 20 (htons port) (write_at 4 a ((s5_buff s)[0 := 5, 1 := 1, 2 := 0, 3 := 4]))) = ?bs"
      using request_layout [of "(s5_buff s)[0 := 5, 1 := 1, 2 := 0, 3 := 4]" 4 a "[5, 1, 0, 4]" port] ok a head_update(1) [OF ok(1)]
      by (simp add: BUFF_SIZE_def)
    then have "snd (send_request s) = Write ?bs" "s5_req_len (fst (send_request s)) = length ?bs"
      using v6 a by (simp_all add: send_request_def send_req_def Let_def ap)
    moreover have "decode_request ?bs = Some (socks_names s)"
      using decode_v6 [OF a(2)] v6 a ap by (simp add: socks_names_def)
    ultimately show ?thesis by (metis prod.collapse)
  qed
qed

lemma send_method_bytes:
  assumes "length (s5_buff s) = BUFF_SIZE"
  shows "snd (send_method s) = Write (if s5_username s = [] \<and> s5_password s = [] then [5, 1, 0] else [5, 2, 0, 2])"
proof -
  obtain b0 b1 b2 b3 r where "s5_buff s = b0 # b1 # b2 # b3 # r"
    using assms by (auto simp: BUFF_SIZE_def numeral_eq_Suc length_Suc_conv)
  then show ?thesis by (simp add: send_method_def send_req_def Let_def)
qed

lemma write_after: "off = length pre \<Longrightarrow> write_at off p (pre @ xs) = pre @ p @ drop (length p) xs"
  by (simp add: write_at_def)

lemma send_auth_bytes:
  assumes "s5_ok s"
  shows "snd (send_auth s) = Write ([1, of_nat (length (s5_username s))] @ s5_username s @
    [of_nat (length (s5_password s))] @ s5_password s)"
proof -
  obtain b0 b1 r where b: "s5_buff s = b0 # b1 # r"
    using assms by (auto simp: s5_ok_def BUFF_SIZE_def numeral_eq_Suc length_Suc_conv)
  define u p where "u = s5_username s" and "p = s5_password s"
  have r: "length r = 62" "length u + length p \<le> 60" using assms b by (simp_all add: s5_ok_def BUFF_SIZE_def u_def p_def)
  obtain x xs where x: "drop (length u) r = x # xs" using r by (cases "drop (length u) r") auto
  have w: "write_at 2 u (1 # of_nat (length u) # r) = [1, of_nat (length u)] @ u @ x # xs"
    using x by (simp add: write_at_def)
  have "([1, of_nat (length u)] @ u @ x # xs)[2 + length u := y] = ([1, of_nat (length u)] @ u @ [y]) @ xs" for y :: u8
    by (simp add: list_update_append)
  then have "write_at (3 + length u) p ((write_at 2 u (1 # of_nat (length u) # r))[2 + length u := of_nat (length p)]) =
      ([1, of_nat (length u)] @ u @ [of_nat (length p)]) @ p @ drop (length p) xs"
    unfolding w using write_after [of "3 + length u" "[1, of_nat (length u)] @ u @ [of_nat (length p)]" p xs] by simp
  then show ?thesis using b by (simp add: send_auth_def send_req_def Let_def flip: u_def p_def)
qed

section \<open>The phases of the negotiation\<close>

lemma send_same [simp]:
  "s5_step (fst (send_method s)) = s5_step s" "s5_step (fst (send_auth s)) = s5_step s"
  "s5_step (fst (send_request s)) = s5_step s"
  "socks_names (fst (send_method s)) = socks_names s" "socks_names (fst (send_auth s)) = socks_names s"
  by (simp_all add: send_method_def send_auth_def send_request_def send_req_def Let_def split_beta socks_names_def)

lemma target_update [simp]:
  "socks_names (s\<lparr>s5_step := k, s5_buff := b, s5_res_len := n\<rparr>) = socks_names s"
  "socks_names (s\<lparr>s5_buff := b, s5_res_len := n, s5_step := k\<rparr>) = socks_names s"
  "socks_names (s\<lparr>s5_handshaking := h, s5_step := k\<rparr>) = socks_names s"
  by (simp_all add: socks_names_def)

lemma written_run:
  assumes "socks_inv (s, Write bs)"
  shows "socks5_run (s, Write bs) [Written False (length bs)] (s\<lparr>s5_step := s5_step s + 1, s5_res_len := 0\<rparr>, Read_some 0 BUFF_SIZE)"
proof -
  have "s5_req_len s = length bs" "s5_res_len s = 0" using assms by (auto simp: socks_inv_def)
  then show ?thesis by (intro run_one) (simp_all add: send_handler5_def)
qed

lemma request_phase:
  assumes "s5_ok s" "s5_step s = 2"
  shows "\<exists>s1 bs. send_request s = (s1, Write bs) \<and> decode_request bs = Some (socks_names s) \<and>
    socks_inv (s1, Write bs) \<and> s5_step s1 = 2"
proof -
  obtain s1 bs where b: "send_request s = (s1, Write bs)" "decode_request bs = Some (socks_names s)"
    using send_request_bytes [OF assms(1)] by blast
  then show ?thesis using send_request_inv [OF assms(1)] send_same(3) [of s] assms(2) by auto
qed

lemma reply_phase:
  assumes "socks_inv (s, Write bs)" "s5_step s = 2" "request_reply r"
  shows "length r \<le> BUFF_SIZE \<Longrightarrow> cut_into r cs \<Longrightarrow>
      \<exists>s'. socks5_run (s, Write bs) (Written False (length bs) # map (Got False) cs) (s', Connect_handler False)"
    and "BUFF_SIZE < length r \<Longrightarrow> r = concat cs @ rest \<Longrightarrow>
      socks5_run (s, Write bs) (Written False (length bs) # map (Got False) cs) (s', a) \<Longrightarrow>
      a = Force_shutdown \<or> a = Read_some (length (concat cs)) (BUFF_SIZE - length (concat cs)) \<and> length (concat cs) < BUFF_SIZE \<or>
      a = Connect_handler False \<and> r ! 4 = 255 \<and> length (concat cs) = 6"
proof -
  let ?s = "s\<lparr>s5_step := 3\<rparr>"
  have l: "length (s5_buff ?s) = BUFF_SIZE" "s5_req_len s = length bs" "s5_res_len s = 0" using assms(1) by (simp_all add: socks_inv_def s5_ok_def)
  have st: "s5_step s + 1 = 3" using assms(2) by simp
  note w = written_run [OF assms(1), unfolded st]
  show "\<exists>s'. socks5_run (s, Write bs) (Written False (length bs) # map (Got False) cs) (s', Connect_handler False)"
    if "length r \<le> BUFF_SIZE" "cut_into r cs"
    using feed_request [OF _ that(2) assms(3) that(1) l(1)] run_append [OF w] by auto
  show "a = Force_shutdown \<or> a = Read_some (length (concat cs)) (BUFF_SIZE - length (concat cs)) \<and> length (concat cs) < BUFF_SIZE \<or>
      a = Connect_handler False \<and> r ! 4 = 255 \<and> length (concat cs) = 6"
    if long: "BUFF_SIZE < length r" "r = concat cs @ rest"
      and run: "socks5_run (s, Write bs) (Written False (length bs) # map (Got False) cs) (s', a)"
  proof -
    have "socks5_run (socks5_event (Written False (length bs)) (s, Write bs)) (map (Got False) cs) (s', a)"
      using run by (auto elim: socks5_run.cases)
    moreover have "socks5_event (Written False (length bs)) (s, Write bs) =
        (?s\<lparr>s5_buff := s5_buff s, s5_res_len := 0\<rparr>, Read_some 0 (BUFF_SIZE - 0))"
      using st l by (simp add: send_handler5_def)
    ultimately have r: "socks5_run (?s\<lparr>s5_buff := s5_buff s, s5_res_len := 0\<rparr>, Read_some 0 (BUFF_SIZE - 0)) (map (Got False) cs) (s', a)"
      by simp
    show ?thesis using long_reply_run [OF _ assms(3) long(1) r, of rest] long(2) l(1) by (simp add: BUFF_SIZE_def)
  qed
qed

text \<open>A write of the first two phases and the two bytes that answer it.\<close>

lemma two_phase:
  assumes "socks_inv (s, Write bs)" "s5_step s = 0 \<or> s5_step s = 1" "cut_into [x, y] cs"
  shows "\<exists>b. length b = BUFF_SIZE \<and> b ! 1 = y \<and> socks5_run (s, Write bs) (Written False (length bs) # map (Got False) cs)
      (recv_handler5 False 0 (s\<lparr>s5_step := s5_step s + 1, s5_buff := b, s5_res_len := 2\<rparr>))"
proof -
  let ?s = "s\<lparr>s5_step := s5_step s + 1\<rparr>"
  obtain b where b: "length b = BUFF_SIZE" "take 2 b = [x, y]"
    "socks5_run (?s\<lparr>s5_res_len := 0\<rparr>, Read_some 0 BUFF_SIZE) (map (Got False) cs)
      (recv_handler5 False 0 (?s\<lparr>s5_buff := b, s5_res_len := 2\<rparr>))"
    using feed_two [of ?s x y cs] assms by (auto simp: socks_inv_def s5_ok_def)
  have "b ! 1 = y" using nth_take [of 1 2 b] b(2) by simp
  then show ?thesis using run_append [OF written_run [OF assms(1)] b(3)] b(1) by auto
qed

lemma auth_phase:
  assumes "s5_ok s" "s5_step s = 1" "cut_into [x, 0] cs"
  shows "\<exists>s1. s5_ok s1 \<and> s5_step s1 = 2 \<and> socks_names s1 = socks_names s \<and> socks5_run (send_auth s)
    (Written False (3 + length (s5_username s) + length (s5_password s)) # map (Got False) cs) (send_request s1)"
proof -
  obtain s1 bs where b: "send_auth s = (s1, Write bs)" "length bs = 3 + length (s5_username s) + length (s5_password s)"
    using send_auth_bytes [OF assms(1)] by (metis (no_types, lifting) length_append length_Cons list.size(3) prod.collapse
        add.commute add_Suc_right add_0 numeral_3_eq_3 add_Suc)
  have inv: "socks_inv (s1, Write bs)" using send_auth_inv [OF assms(1)] assms(2) b(1) by simp
  have st: "s5_step s1 = 1" "socks_names s1 = socks_names s" using send_same(2,5) [of s] b(1) assms(2) by simp_all
  obtain b' where b': "length b' = BUFF_SIZE" "b' ! 1 = 0" "socks5_run (s1, Write bs) (Written False (length bs) # map (Got False) cs)
      (recv_handler5 False 0 (s1\<lparr>s5_step := s5_step s1 + 1, s5_buff := b', s5_res_len := 2\<rparr>))"
    using two_phase [OF inv _ assms(3)] st by blast
  let ?s = "s1\<lparr>s5_step := s5_step s1 + 1, s5_buff := b', s5_res_len := 2\<rparr>"
  have "recv_handler5 False 0 ?s = send_request ?s" using b' st by (simp add: recv_handler5_def)
  then show ?thesis using b b' st inv by (intro exI [of _ ?s]) (auto simp: socks_inv_def s5_ok_def)
qed

text \<open>The negotiation up to the request, for a server that wants no credentials or accepts them.\<close>

lemma negotiation:
  assumes "s5_ok s" "s5_step s \<noteq> -1" and "cut_into [v, m] cm" "m = 0 \<or> m = 2 \<and> cut_into [w, 0] ca"
    and "auth = (if m = 2 then Written False (3 + length (s5_username s) + length (s5_password s)) # map (Got False) ca else [])"
  shows "\<exists>s3. s5_ok s3 \<and> s5_step s3 = 2 \<and> socks_names s3 = socks_names s \<and>
    socks5_run (connect_handler5 False s)
      (Written False (if s5_username s = [] \<and> s5_password s = [] then 3 else 4) # map (Got False) cm @ auth) (send_request s3)"
proof -
  let ?k = "if s5_username s = [] \<and> s5_password s = [] then 3 else 4"
  let ?s = "s\<lparr>s5_handshaking := True, s5_step := 0\<rparr>"
  have ok': "s5_ok ?s" "length (s5_buff ?s) = BUFF_SIZE" using assms(1) by (simp_all add: s5_ok_def)
  obtain s1 bs1 where b1: "send_method ?s = (s1, Write bs1)" "length bs1 = ?k"
    using send_method_bytes [OF ok'(2)] by (cases "send_method ?s") auto
  have inv1: "socks_inv (s1, Write bs1)" using send_method_inv [OF ok'(1)] b1(1) by simp
  have s1: "s5_step s1 = 0" "socks_names s1 = socks_names s" "s5_username s1 = s5_username s" "s5_password s1 = s5_password s"
    using send_same(1,4) [of ?s] b1(1) by (auto simp: send_method_def send_req_def Let_def split_beta)
  obtain b where b: "length b = BUFF_SIZE" "b ! 1 = m" "socks5_run (s1, Write bs1) (Written False (length bs1) # map (Got False) cm)
      (recv_handler5 False 0 (s1\<lparr>s5_step := s5_step s1 + 1, s5_buff := b, s5_res_len := 2\<rparr>))"
    using two_phase [OF inv1 _ assms(3)] s1 by blast
  let ?s2 = "s1\<lparr>s5_step := 1, s5_buff := b, s5_res_len := 2\<rparr>"
  have start: "socks5_run (connect_handler5 False s) (Written False ?k # map (Got False) cm) (recv_handler5 False 0 ?s2)"
    using b(3) b1 assms(2) s1(1) by (simp add: connect_handler5_def)
  have "\<exists>s3. s5_ok s3 \<and> s5_step s3 = 2 \<and> socks_names s3 = socks_names s \<and>
      socks5_run (recv_handler5 False 0 ?s2) auth (send_request s3)"
  proof (cases "m = 2")
    case False
    then have "m = 0" using assms(4) by simp
    then have "recv_handler5 False 0 ?s2 = send_request (s1\<lparr>s5_buff := b, s5_res_len := 2, s5_step := 2\<rparr>)"
      using b(2) by (simp add: recv_handler5_def)
    then show ?thesis using inv1 b(1) s1(2) False assms(5)
      by (intro exI [of _ "s1\<lparr>s5_buff := b, s5_res_len := 2, s5_step := 2\<rparr>"])
        (auto simp: socks_inv_def s5_ok_def intro: socks5_run.run_nil)
  next
    case True
    then have "recv_handler5 False 0 ?s2 = send_auth ?s2" using b(2) by (simp add: recv_handler5_def)
    moreover have "s5_ok ?s2" using inv1 b(1) by (simp add: socks_inv_def s5_ok_def)
    ultimately show ?thesis using auth_phase [of ?s2 w ca] assms(4,5) True s1 by simp
  qed
  then obtain s3 where s3: "s5_ok s3" "s5_step s3 = 2" "socks_names s3 = socks_names s"
    "socks5_run (recv_handler5 False 0 ?s2) auth (send_request s3)" by blast
  have "socks5_run (connect_handler5 False s) ((Written False ?k # map (Got False) cm) @ auth) (send_request s3)"
    by (rule run_append [OF start s3(4)])
  then show ?thesis using s3(1-3) by (intro exI [of _ s3]) simp
qed

section \<open>What the user asked for\<close>

text \<open>
  The calls by which the user sets up the endpoint. Independently of the endpoint's state: which target a call
  of \<open>set_target_addr\<close> asks for (none, if it has to be refused: no port, nothing, or a domain that is too
  long), and which credentials a call of \<open>set_auth\<close> gives. What counts is the last call.
\<close>

datatype socks_call = Set_target_addr "16 word" bytes | Set_auth bytes bytes

fun socks5_call :: "(bytes \<Rightarrow> ip_addr option) \<Rightarrow> socks_call \<Rightarrow> socks5 \<Rightarrow> bool \<times> socks5" where
  "socks5_call parse_ip (Set_target_addr port ip) s = set_target_addr5 parse_ip port ip s"
| "socks5_call parse_ip (Set_auth usr pwd) s = set_auth usr pwd s"

definition socks5_calls :: "(bytes \<Rightarrow> ip_addr option) \<Rightarrow> socks_call list \<Rightarrow> socks5 \<Rightarrow> socks5" where
  "socks5_calls parse_ip calls s = foldl (\<lambda>s c. snd (socks5_call parse_ip c s)) s calls"

type_synonym socks_target = "(bytes + ip_addr) \<times> 16 word"

definition target_asked :: "(bytes \<Rightarrow> ip_addr option) \<Rightarrow> 16 word \<Rightarrow> bytes \<Rightarrow> socks_target option" where
  "target_asked parse_ip port ip =
     (if port = 0 \<or> ip = [] then None
      else case parse_ip ip of
             Some a \<Rightarrow> Some (Inr a, port)
           | None \<Rightarrow> if length ip \<le> 57 then Some (Inl ip, port) else None)"

fun targets_asked :: "(bytes \<Rightarrow> ip_addr option) \<Rightarrow> socks_call list \<Rightarrow> socks_target option list" where
  "targets_asked parse_ip [] = []"
| "targets_asked parse_ip (Set_target_addr port ip # calls) = target_asked parse_ip port ip # targets_asked parse_ip calls"
| "targets_asked parse_ip (Set_auth usr pwd # calls) = targets_asked parse_ip calls"

definition last_target :: "(bytes \<Rightarrow> ip_addr option) \<Rightarrow> socks_call list \<Rightarrow> socks_target option" where
  "last_target parse_ip calls = (case rev (targets_asked parse_ip calls) of [] \<Rightarrow> None | t # _ \<Rightarrow> t)"

definition last_domain :: "(bytes \<Rightarrow> ip_addr option) \<Rightarrow> socks_call list \<Rightarrow> socks_target option" where
  "last_domain parse_ip calls =
     List.find (\<lambda>t. isl (fst t)) (rev (map the (filter (\<lambda>t. t \<noteq> None) (targets_asked parse_ip calls))))"

fun auth_asked :: "socks_call list \<Rightarrow> bytes \<times> bytes \<Rightarrow> bytes \<times> bytes" where
  "auth_asked [] a = a"
| "auth_asked (Set_target_addr port ip # calls) a = auth_asked calls a"
| "auth_asked (Set_auth usr pwd # calls) a =
     auth_asked calls (if usr \<noteq> [] \<and> pwd \<noteq> [] \<and> length usr + length pwd \<le> 60 then (usr, pwd) else a)"

lemma targets_asked_append [simp]:
  "targets_asked parse_ip (xs @ ys) = targets_asked parse_ip xs @ targets_asked parse_ip ys"
  by (induction parse_ip xs rule: targets_asked.induct) simp_all

lemma auth_asked_append [simp]: "auth_asked (xs @ ys) a = auth_asked ys (auth_asked xs a)"
  by (induction xs a rule: auth_asked.induct) simp_all

lemma last_target_snoc:
  "last_target parse_ip [] = None"
  "last_target parse_ip (calls @ [Set_target_addr port ip]) = target_asked parse_ip port ip"
  "last_target parse_ip (calls @ [Set_auth usr pwd]) = last_target parse_ip calls"
  by (simp_all add: last_target_def)

lemma last_domain_snoc:
  "last_domain parse_ip [] = None"
  "last_domain parse_ip (calls @ [Set_target_addr port ip]) =
     (case target_asked parse_ip port ip of Some (Inl d, p) \<Rightarrow> Some (Inl d, p) | _ \<Rightarrow> last_domain parse_ip calls)"
  "last_domain parse_ip (calls @ [Set_auth usr pwd]) = last_domain parse_ip calls"
  by (auto simp: last_domain_def split: option.splits sum.splits)

text \<open>
  What the endpoint keeps of it: the last target if it is an address, the last domain, whichever came later,
  and the last credentials.
\<close>

definition s5_holds :: "(bytes \<Rightarrow> ip_addr option) \<Rightarrow> socks_call list \<Rightarrow> socks5 \<Rightarrow> bool" where
  "s5_holds parse_ip calls s \<longleftrightarrow>
     s5_step s = (if last_target parse_ip calls = None then -1 else 0) \<and>
     (case last_domain parse_ip calls of
        None \<Rightarrow> s5_target_domain s = []
      | Some d \<Rightarrow> s5_target_domain s \<noteq> [] \<and> d = (Inl (s5_target_domain s), s5_target_port s)) \<and>
     (case last_target parse_ip calls of
        Some (Inr a, port) \<Rightarrow> s5_target_addr s = (a, port)
      | Some (Inl d, port) \<Rightarrow> last_domain parse_ip calls = Some (Inl d, port)
      | None \<Rightarrow> True) \<and>
     (s5_username s, s5_password s) = auth_asked calls ([], [])"

lemmas s5_holds_defs = s5_holds_def last_target_snoc last_domain_snoc target_asked_def set_target_addr5_def set_addr_def set_auth_def

lemma holds_target:
  assumes "s5_holds parse_ip calls s"
  shows "s5_holds parse_ip (calls @ [Set_target_addr port ip]) (snd (set_target_addr5 parse_ip port ip s))"
proof (cases "port = 0 \<or> ip = [] \<or> parse_ip ip = None")
  case True
  then show ?thesis using assms
    by (cases "length ip \<le> 57"; cases "last_domain parse_ip calls") (auto simp: s5_holds_defs BUFF_SIZE_def)
next
  case False
  then obtain a where "port \<noteq> 0" "ip \<noteq> []" "parse_ip ip = Some a" by auto
  then show ?thesis using assms
    by (cases a; cases "last_domain parse_ip calls") (simp_all add: s5_holds_defs is_v4_def is_v6_def)
qed

lemma holds_auth: "s5_holds parse_ip calls s \<Longrightarrow> s5_holds parse_ip (calls @ [Set_auth usr pwd]) (snd (set_auth usr pwd s))"
  by (cases "last_domain parse_ip calls"; cases "last_target parse_ip calls") (auto simp: s5_holds_defs split: sum.splits)

lemma holds_calls: "s5_holds parse_ip calls (socks5_calls parse_ip calls (socks5_new b))"
proof (induction calls rule: rev_induct)
  case Nil
  then show ?case by (simp add: s5_holds_defs socks5_calls_def socks5_new_def)
next
  case (snoc c calls)
  then show ?case by (cases c) (simp_all add: socks5_calls_def holds_target holds_auth)
qed

lemma calls_config: "length b = BUFF_SIZE \<Longrightarrow> socks5_config parse_ip (socks5_calls parse_ip calls (socks5_new b))"
proof (induction calls rule: rev_induct)
  case Nil
  then show ?case by (simp add: socks5_calls_def config_new)
next
  case (snoc c calls)
  then show ?case by (cases c) (auto simp: socks5_calls_def intro: config_target config_auth)
qed

text \<open>
  The request names what was asked for last, unless that is an address and a domain was accepted before: the
  domain sticks.
\<close>

lemma holds_names:
  assumes "s5_holds parse_ip calls s" "last_target parse_ip calls = Some t"
  shows "(isl (fst t) \<or> last_domain parse_ip calls = None \<longrightarrow> socks_names s = t) \<and>
    (\<not> isl (fst t) \<longrightarrow> (\<forall>d. last_domain parse_ip calls = Some d \<longrightarrow> socks_names s = d))"
  using assms by (cases t; cases "fst t") (auto simp: s5_holds_def socks_names_def split: option.splits)

section \<open>Properties\<close>

text \<open>C34. However the endpoint was set up and whatever the server sends, however it is cut, no request and no
  reply leaves the 64 bytes of \<open>buff\<close>, each read has room, and the negotiation ends: at most 195 completions
  follow the connection.\<close>

theorem socks5_safe_and_finite:
  assumes "\<And>ip a. parse_ip ip = Some a \<Longrightarrow> well_formed_ip a" "socks5_config parse_ip s"
    and "socks5_run (connect_handler5 ec s) evs (s', a)"
  shows "length evs \<le> 195 \<and> length (s5_buff s') = BUFF_SIZE \<and>
    (case a of Write bs \<Rightarrow> length bs \<le> BUFF_SIZE | Read_some pos len \<Rightarrow> pos + len = BUFF_SIZE \<and> 0 < len | _ \<Rightarrow> True)"
proof -
  have inv0: "socks_inv (connect_handler5 ec s)" by (rule connect_inv [OF config_ok [OF assms(1,2)]])
  have "socks_inv (s', a)" by (rule socks5_run_inv [OF assms(3) inv0])
  moreover have "length evs \<le> 195" using run_measure [OF assms(3) inv0] connect_measure [of ec s] by simp
  ultimately show ?thesis by (auto simp: socks_inv_def s5_ok_def split: socks_action.splits)
qed

text \<open>C35. The user sets up the endpoint by any calls of \<open>set_target_addr\<close> and \<open>set_auth\<close>, the last target being \<open>t\<close>, and
  the server answers as RFC 1928 and 1929 say, its answers cut in any way. Then the endpoint offers its methods,
  gives the last credentials if the server wants them, and sends a request. If \<open>t\<close> is a domain, or no domain was
  accepted before, the request names \<open>t\<close>; if \<open>t\<close> is an address and a domain was accepted before, it names that domain.
  A reply that grants the request and fits the 64 bytes of \<open>buff\<close> (a bound domain of at most 57 bytes) hands the link over
  to the connected client. One that is longer never does: whatever part of it has come, the endpoint reads on until
  the buffer is full or has shut down the link; only with a bound domain of 255 bytes it takes the first 6
  bytes, if they come alone, for the whole reply.\<close>

theorem socks5_negotiates:
  assumes "\<And>ip a. parse_ip ip = Some a \<Longrightarrow> well_formed_ip a" "length b = BUFF_SIZE"
    and "s = socks5_calls parse_ip calls (socks5_new b)" "last_target parse_ip calls = Some t"
    and "(usr, pwd) = auth_asked calls ([], [])"
    and "cut_into [v, m] cm" "m = 0 \<or> m = 2 \<and> cut_into [w, 0] ca" "request_reply r"
    and "auth = (if m = 2 then Written False (3 + length usr + length pwd) # map (Got False) ca else [])"
  shows "\<exists>s1 bs.
    socks5_run (connect_handler5 False s)
      (Written False (if usr = [] \<and> pwd = [] then 3 else 4) # map (Got False) cm @ auth) (s1, Write bs) \<and>
    (isl (fst t) \<or> last_domain parse_ip calls = None \<longrightarrow> decode_request bs = Some t) \<and>
    (\<not> isl (fst t) \<longrightarrow> (\<forall>d. last_domain parse_ip calls = Some d \<longrightarrow> decode_request bs = Some d)) \<and>
    (length r \<le> BUFF_SIZE \<longrightarrow> (\<forall>cr. cut_into r cr \<longrightarrow>
       (\<exists>s'. socks5_run (s1, Write bs) (Written False (length bs) # map (Got False) cr) (s', Connect_handler False)))) \<and>
    (BUFF_SIZE < length r \<longrightarrow> (\<forall>cr rest s' a. r = concat cr @ rest \<and>
       socks5_run (s1, Write bs) (Written False (length bs) # map (Got False) cr) (s', a) \<longrightarrow>
       a = Force_shutdown \<or>
       a = Read_some (length (concat cr)) (BUFF_SIZE - length (concat cr)) \<and> length (concat cr) < BUFF_SIZE \<or>
       a = Connect_handler False \<and> r ! 4 = 255 \<and> length (concat cr) = 6))"
proof -
  have ok: "s5_ok s" unfolding assms(3) by (rule config_ok [OF assms(1) calls_config [OF assms(2)]])
  have h: "s5_holds parse_ip calls s" unfolding assms(3) by (rule holds_calls)
  then have u: "s5_username s = usr" "s5_password s = pwd" "s5_step s \<noteq> -1"
    using assms(4) assms(5) [symmetric] by (simp_all add: s5_holds_def)
  obtain s3 where s3: "s5_ok s3" "s5_step s3 = 2" "socks_names s3 = socks_names s"
    "socks5_run (connect_handler5 False s)
      (Written False (if usr = [] \<and> pwd = [] then 3 else 4) # map (Got False) cm @ auth) (send_request s3)"
    using negotiation [OF ok u(3) assms(6,7), unfolded u, OF assms(9)] by blast
  obtain s1 bs where b: "send_request s3 = (s1, Write bs)" "decode_request bs = Some (socks_names s3)"
    "socks_inv (s1, Write bs)" "s5_step s1 = 2"
    using request_phase [OF s3(1,2)] by blast
  note reply = reply_phase [OF b(3,4) assms(8)]
  show ?thesis
    using s3(4) b(1,2) s3(3) holds_names [OF h assms(4)] reply(1)
    by (intro exI [of _ s1] exI [of _ bs] conjI) (simp, simp, simp, blast, use reply(2) in blast)
qed

text \<open>A user with credentials, a target and a server that wants the credentials; both replies come in pieces.\<close>

definition demo_ip :: "bytes \<Rightarrow> ip_addr option" where
  "demo_ip ip = (if ip = [49] then Some (Ip_v4 [1, 2, 3, 4]) else None)"

definition demo_calls :: "socks_call list" where
  "demo_calls = [Set_target_addr 80 [49], Set_auth [117] [112]]"

definition demo_socks5 :: socks5 where
  "demo_socks5 = socks5_calls demo_ip demo_calls (socks5_new (replicate 64 0))"

lemma demo_wf: "demo_ip ip = Some a \<Longrightarrow> well_formed_ip a"
  by (auto simp: demo_ip_def well_formed_ip_def split: if_splits)

lemma demo_config: "socks5_config demo_ip demo_socks5"
  unfolding demo_socks5_def by (rule calls_config) (simp add: BUFF_SIZE_def)

lemma demo_fields:
  "s5_step demo_socks5 = 0" "s5_username demo_socks5 = [117]" "s5_password demo_socks5 = [112]"
  "last_target demo_ip demo_calls = Some (Inr (Ip_v4 [1, 2, 3, 4]), 80)" "last_domain demo_ip demo_calls = None"
  "auth_asked demo_calls ([], []) = ([117], [112])"
  by (simp_all add: demo_socks5_def demo_calls_def socks5_calls_def socks5_new_def set_target_addr5_def set_addr_def demo_ip_def
      set_auth_def is_v4_def last_target_def last_domain_def target_asked_def)

theorem socks5_safe_and_finite_witness:
  "length (s5_buff (fst (socks5_event (Got True [7]) (socks5_event (Written False 4) (connect_handler5 False demo_socks5))))) = 64"
proof -
  have ok: "s5_ok demo_socks5" by (rule config_ok [OF demo_wf demo_config])
  have "snd (connect_handler5 False demo_socks5) = Write [5, 2, 0, 2]"
    using ok by (simp add: connect_handler5_def demo_fields s5_ok_def send_method_bytes)
  then obtain s1 where s1: "connect_handler5 False demo_socks5 = (s1, Write [5, 2, 0, 2])" by (metis prod.collapse)
  have req: "s5_req_len s1 = 4" using connect_inv [OF ok, of False] s1 by (simp add: socks_inv_def)
  obtain s2 a where s2: "socks5_event (Got True [7]) (socks5_event (Written False 4) (s1, Write [5, 2, 0, 2])) = (s2, a)"
    by fastforce
  have "socks5_run (connect_handler5 False demo_socks5) [Written False 4, Got True [7]] (s2, a)"
    unfolding s1(1) s2 [symmetric]
    by (intro socks5_run.intros) (simp_all add: send_handler5_def req BUFF_SIZE_def)
  then show ?thesis
    using socks5_safe_and_finite [of demo_ip demo_socks5 False "[Written False 4, Got True [7]]" s2 a] demo_wf demo_config s1 s2
    by (simp add: BUFF_SIZE_def)
qed

theorem socks5_negotiates_witness:
  "\<exists>s1 bs s'. decode_request bs = Some (Inr (Ip_v4 [1, 2, 3, 4]), 80) \<and>
    socks5_run (connect_handler5 False demo_socks5)
      [Written False 4, Got False [5], Got False [2], Written False 5, Got False [1, 0]] (s1, Write bs) \<and>
    socks5_run (s1, Write bs) [Written False (length bs), Got False [5, 0, 0], Got False [1, 0, 0, 0, 0, 0, 0]]
      (s', Connect_handler False)"
proof -
  have b: "length (replicate 64 (0 :: u8)) = BUFF_SIZE" by (simp add: BUFF_SIZE_def)
  have c: "cut_into [5, 2] [[5 :: u8], [2]]" "(2 :: u8) = 0 \<or> (2 :: u8) = 2 \<and> cut_into [1, 0] [[1, 0]]"
    "request_reply [5, 0, 0, 1, 0, 0, 0, 0, 0, 0]" "cut_into [5, 0, 0, 1, 0, 0, 0, 0, 0, 0] [[5, 0, 0], [1, 0, 0, 0, 0, 0, 0]]"
    by (simp_all add: cut_into_def request_reply_def)
  have "\<exists>s1 bs. socks5_run (connect_handler5 False demo_socks5)
      [Written False 4, Got False [5], Got False [2], Written False 5, Got False [1, 0]] (s1, Write bs) \<and>
    decode_request bs = Some (Inr (Ip_v4 [1, 2, 3, 4]), 80) \<and>
    (\<forall>cr. cut_into [5, 0, 0, 1, 0, 0, 0, 0, 0, 0] cr \<longrightarrow>
       (\<exists>s'. socks5_run (s1, Write bs) (Written False (length bs) # map (Got False) cr) (s', Connect_handler False)))"
    using socks5_negotiates [where parse_ip = demo_ip, OF demo_wf b demo_socks5_def demo_fields(4) demo_fields(6) [symmetric] c(1-3) refl]
    by (simp add: demo_fields BUFF_SIZE_def)
  then show ?thesis using c(4) by fastforce
qed

text \<open>C36. What the messages of the endpoint say, after any calls of \<open>set_target_addr\<close> and \<open>set_auth\<close>. If the last target was
  refused (or there is none), nothing is negotiated. If it is \<open>t\<close>, the request, read back as RFC 1928 says, names
  \<open>t\<close>, be it a domain, an IPv4 or an IPv6 address, except when \<open>t\<close> is an address and a domain was accepted before:
  then it names the last such domain, and \<open>t\<close> is ignored. The messages before it offer the methods for the last
  credentials and carry these.\<close>

theorem socks5_requests_roundtrip:
  assumes "\<And>ip a. parse_ip ip = Some a \<Longrightarrow> well_formed_ip a" "length b = BUFF_SIZE"
    and "s = socks5_calls parse_ip calls (socks5_new b)" "(usr, pwd) = auth_asked calls ([], [])"
  shows "(last_target parse_ip calls = None \<longrightarrow> connect_handler5 ec s = (s, Connect_handler ec)) \<and>
    (\<forall>t. last_target parse_ip calls = Some t \<longrightarrow>
       (\<exists>bs. snd (send_request s) = Write bs \<and>
          (isl (fst t) \<or> last_domain parse_ip calls = None \<longrightarrow> decode_request bs = Some t) \<and>
          (\<not> isl (fst t) \<longrightarrow> (\<forall>d. last_domain parse_ip calls = Some d \<longrightarrow> decode_request bs = Some d)))) \<and>
    snd (send_method s) = Write (if usr = [] \<and> pwd = [] then [5, 1, 0] else [5, 2, 0, 2]) \<and>
    snd (send_auth s) = Write ([1, of_nat (length usr)] @ usr @ [of_nat (length pwd)] @ pwd)"
proof -
  have ok: "s5_ok s" unfolding assms(3) by (rule config_ok [OF assms(1) calls_config [OF assms(2)]])
  have h: "s5_holds parse_ip calls s" unfolding assms(3) by (rule holds_calls)
  then have u: "s5_username s = usr" "s5_password s = pwd" using assms(4) [symmetric] by (simp_all add: s5_holds_def)
  obtain s' bs where "send_request s = (s', Write bs)" "decode_request bs = Some (socks_names s)"
    using send_request_bytes [OF ok] by blast
  moreover have "length (s5_buff s) = BUFF_SIZE" using ok by (simp add: s5_ok_def)
  moreover have "last_target parse_ip calls = None \<longrightarrow> connect_handler5 ec s = (s, Connect_handler ec)"
    using h by (simp add: s5_holds_def connect_handler5_def)
  ultimately show ?thesis
    using send_method_bytes [of s] send_auth_bytes [OF ok] holds_names [OF h] unfolding u by simp
qed

text \<open>A target given as an address, and one after a domain.\<close>

theorem socks5_requests_roundtrip_witness:
  "(\<exists>bs. snd (send_request demo_socks5) = Write bs \<and> decode_request bs = Some (Inr (Ip_v4 [1, 2, 3, 4]), 80)) \<and>
   snd (send_auth demo_socks5) = Write [1, 1, 117, 1, 112] \<and>
   (\<exists>bs. snd (send_request (socks5_calls demo_ip [Set_target_addr 81 [120], Set_target_addr 80 [49]] (socks5_new (replicate 64 0)))) = Write bs \<and>
      decode_request bs = Some (Inl [120], 81))"
proof -
  have "length (replicate 64 (0 :: u8)) = BUFF_SIZE" by (simp add: BUFF_SIZE_def)
  note rt = socks5_requests_roundtrip [where parse_ip = demo_ip, OF demo_wf this refl]
  let ?calls = "[Set_target_addr 81 [120], Set_target_addr 80 [49]]"
  have "last_target demo_ip ?calls = Some (Inr (Ip_v4 [1, 2, 3, 4]), 80)" "last_domain demo_ip ?calls = Some (Inl [120], 81)"
    by (simp_all add: last_target_def last_domain_def target_asked_def demo_ip_def)
  then show ?thesis
    using rt [where calls = demo_calls and usr = "[117]" and pwd = "[112]"] rt [where calls = ?calls and usr = "[]" and pwd = "[]"]
    by (simp add: demo_fields demo_socks5_def)
qed

text \<open>The domain sticks: a target that \<open>set_target_addr\<close> accepts, but that will not be named.\<close>

lemma socks5_domain_sticks:
  assumes "parse_ip domain = None" "domain \<noteq> []" "length domain \<le> 57" "port \<noteq> 0"
    and "parse_ip ip = Some a" "ip \<noteq> []" "port' \<noteq> 0"
  shows "fst (set_target_addr5 parse_ip port' ip (snd (set_target_addr5 parse_ip port domain s)))"
    "socks_names (snd (set_target_addr5 parse_ip port' ip (snd (set_target_addr5 parse_ip port domain s)))) = (Inl domain, port)"
  using assms by (cases a; simp add: set_target_addr5_def set_addr_def BUFF_SIZE_def is_v4_def is_v6_def socks_names_def)+

text \<open>A bound domain of 255 bytes is read as one of -1: the reply counts as complete after 6 bytes.\<close>

lemma socks5_reply_len_signed: "buff ! 3 = 3 \<Longrightarrow> buff ! 4 = 255 \<Longrightarrow> reply_len buff = 6"
  by (simp add: reply_len_def)

section \<open>SOCKS4 as a whole\<close>

text \<open>The request names the address and the port, and only the reply code 90 makes the link ready.\<close>

lemma socks4_request:
  assumes "set_target_addr4 parse_ip port ip s = (True, s')" "parse_ip ip = Some a" "well_formed_ip a" "length (s4_buff s) = 16"
  shows "length (s4_buff s') = 16 \<and> snd (connect_handler4 False s') = Write ([4, 1] @ htons port @ addr_bytes a @ ascs_id)"
proof -
  have a: "is_v4 a" "length (addr_bytes a) = 4" using assms addr_bytes_length [of a]
    by (auto simp: set_target_addr4_def set_addr_def Let_def split: if_splits)
  obtain b0 b1 r where b: "s4_buff s = b0 # b1 # r" "length r = 14"
    using assms(4) by (auto simp: numeral_eq_Suc length_Suc_conv)
  have w: "write_at 2 (htons port) (4 # 1 # r) = [4, 1] @ htons port @ drop 2 r"
    "write_at 4 (addr_bytes a) ([4, 1] @ htons port @ drop 2 r) = ([4, 1] @ htons port @ addr_bytes a) @ drop 6 r"
    "write_at 8 ascs_id (([4, 1] @ htons port @ addr_bytes a) @ drop 6 r) = ([4, 1] @ htons port @ addr_bytes a) @ ascs_id @ drop 11 r"
    using a by (simp_all add: write_at_def)
  have "s4_buff s' = ([4, 1] @ htons port @ addr_bytes a) @ ascs_id @ drop 11 r" "s4_req_len s' = 13"
    using assms(1,2) b a w by (auto simp: set_target_addr4_def set_addr_def Let_def split: if_splits)
  then show ?thesis using a b(2) by (simp add: connect_handler4_def)
qed

lemma socks4_reply:
  assumes "length reply = 8" "length (s4_buff s) = 16"
  shows "snd (socks4_event (Got False reply) (s, Read_some 0 8)) = (if reply ! 1 = 90 then Connect_handler False else Force_shutdown)"
proof -
  have "write_at 0 reply (s4_buff s) ! 1 = reply ! 1" using assms by (simp add: write_at_def nth_append)
  then show ?thesis using assms by (simp add: recv_handler4_def)
qed

end
