(* ===== verification/Link_Life.thy ===== *)
theory Link_Life
  imports Timer
begin

text \<open>
  The life of a TCP link: starting, shutting down and closing it (\<open>socket.h\<close>, \<open>tcp/socket.h\<close>), what the
  server's and the client's endpoint add (\<open>tcp/server_socket.h\<close>, \<open>tcp/client_socket.h\<close>), and the
  count of asynchronous calls (\<open>tracked_executor.h\<close>) by which a closing link waits for its last one. The
  timers are those of theory Timer, with the call backs the code sets. Boost.Asio decides in which order
  handlers run and with which errors, and the answers of virtual functions (\<open>bind\<close>, \<open>prepare_reconnect\<close>) and of
  the system are in \<open>link_env\<close>. Allocating a timer does not fail here; a stopped io_context is not restarted. \<open>start\<close> and
  \<open>close\<close> are one step each; theory Start_Lock shows when that is so.
\<close>

section \<open>State\<close>

datatype link_status = CONNECTED | FORCE_SHUTTING_DOWN | GRACEFUL_SHUTTING_DOWN | BROKEN | HANDSHAKING

datatype role = Server | Client

text \<open>Call backs of the timers; the others (receiving, dispatching, user timers) only answer whether to go on.\<close>

datatype link_cb =
    Cb_delay_close
  | Cb_shutdown nat
  | Cb_connect bool
  | Cb_connect_delay
  | Cb_other bool

datatype link_task = Task_force_shutdown | Task_graceful_shutdown

text \<open>What the link told the application: \<open>On_close\<close> with whether the io_context was stopped and the number of other asynchronous calls.\<close>

datatype link_log =
    Started
  | On_connect
  | On_close bool nat
  | After_close
  | On_async_shutdown_error
  | Reconnect_abandoned

record link =
  lk_status :: link_status
  lk_started :: bool
  lk_obsoleted :: bool
  lk_stopped :: bool
  lk_open :: bool
  lk_timers :: "link_cb timer_obj"
  lk_calls :: nat
  lk_tasks :: "link_task list"
  lk_connecting :: bool
  lk_need_reconnect :: bool
  lk_log :: "link_log list"

text \<open>
  \<open>lk_calls\<close>: reads and writes and posted calls outstanding; \<open>lk_tasks\<close>: shutdowns handed to \<open>rw_strand\<close>;
  \<open>lk_connecting\<close>: an \<open>async_connect\<close> is outstanding; \<open>lk_stopped\<close>: the io_context is stopped.
\<close>

record link_env =
  ev_bind :: bool
  ev_delay :: int
  ev_shutdown_ec :: bool

definition TIMER_DELAY_CLOSE :: nat where
  "TIMER_DELAY_CLOSE = 2"

definition TIMER_ASYNC_SHUTDOWN :: nat where
  "TIMER_ASYNC_SHUTDOWN = 10"

definition TIMER_CONNECT_DELAY :: nat where
  "TIMER_CONNECT_DELAY = 15"

definition TIMER_CONNECT :: nat where
  "TIMER_CONNECT = 16"

definition GRACEFUL_SHUTDOWN_MAX_DURATION :: nat where
  "GRACEFUL_SHUTDOWN_MAX_DURATION = 5"

definition link_new :: "role \<Rightarrow> link" where
  "link_new role = \<lparr>lk_status = BROKEN, lk_started = False, lk_obsoleted = False, lk_stopped = False,
     lk_open = (role = Server), lk_timers = tm_new, lk_calls = 0, lk_tasks = [], lk_connecting = False,
     lk_need_reconnect = (role = Client), lk_log = []\<rparr>"

section \<open>The count of asynchronous calls\<close>

text \<open>The holders of \<open>aci\<close> besides the object; in a call back, besides the call back as well.\<close>

definition async_calls :: "link \<Rightarrow> nat" where
  "async_calls lk = length (tm_waits (lk_timers lk)) + lk_calls lk + length (lk_tasks lk) + of_bool (lk_connecting lk)"

definition is_async_calling :: "link \<Rightarrow> bool" where
  "is_async_calling lk \<longleftrightarrow> 1 + async_calls lk > 1"

definition is_last_async_call :: "link \<Rightarrow> bool" where
  "is_last_async_call lk \<longleftrightarrow> 2 + async_calls lk \<le> 2"

definition obsoleted :: "role \<Rightarrow> link \<Rightarrow> bool" where
  "obsoleted role lk \<longleftrightarrow> (role = Client \<longrightarrow> \<not> lk_need_reconnect lk) \<and> lk_obsoleted lk \<and> \<not> is_async_calling lk"

definition is_broken :: "link \<Rightarrow> bool" where
  "is_broken lk \<longleftrightarrow> lk_status lk = BROKEN"

definition is_connected :: "link \<Rightarrow> bool" where
  "is_connected lk \<longleftrightarrow> lk_status lk = CONNECTED"

definition is_shutting_down :: "link \<Rightarrow> bool" where
  "is_shutting_down lk \<longleftrightarrow> lk_status lk = FORCE_SHUTTING_DOWN \<or> lk_status lk = GRACEFUL_SHUTTING_DOWN"

definition say :: "link_log \<Rightarrow> link \<Rightarrow> link" where
  "say e lk = lk\<lparr>lk_log := lk_log lk @ [e]\<rparr>"

definition link_set_timer :: "nat \<Rightarrow> 32 word \<Rightarrow> link_cb \<Rightarrow> link \<Rightarrow> link" where
  "link_set_timer tid interval cb lk = lk\<lparr>lk_timers := snd (set_timer True tid interval (Some cb) (lk_timers lk))\<rparr>"

section \<open>Starting\<close>

text \<open>\<open>socket_base::do_start\<close> with \<open>socket::do_start\<close>: the first read is issued; sending is counted by its own step.\<close>

definition tcp_do_start :: "link \<Rightarrow> link" where
  "tcp_do_start lk = (say On_connect (lk\<lparr>lk_status := CONNECTED\<rparr>))\<lparr>lk_calls := lk_calls lk + 1\<rparr>"

definition do_start :: "role \<Rightarrow> link_env \<Rightarrow> link \<Rightarrow> bool \<times> link" where
  "do_start role env lk =
     (if role = Server then (True, tcp_do_start lk)
      else if ev_bind env then (True, link_set_timer TIMER_CONNECT 50 (Cb_connect True) lk)
      else (False, lk))"

definition link_start :: "role \<Rightarrow> link_env \<Rightarrow> link \<Rightarrow> link" where
  "link_start role env lk =
     (if \<not> lk_started lk \<and> \<not> is_timer TIMER_DELAY_CLOSE (lk_timers lk) \<and> \<not> lk_stopped lk
      then let (ok, lk1) = do_start role env lk in (if ok then say Started lk1 else lk1)\<lparr>lk_started := ok\<rparr>
      else lk)"

text \<open>\<open>reset\<close>: throws while the link is closing.\<close>

definition link_reset :: "role \<Rightarrow> link \<Rightarrow> link option" where
  "link_reset role lk =
     (if is_timer TIMER_DELAY_CLOSE (lk_timers lk) then None
      else Some (lk\<lparr>lk_need_reconnect := (role = Client), lk_status := BROKEN, lk_obsoleted := False,
                    lk_timers := stop_all_timer (reset_io_context_refs (lk_timers lk))\<rparr>))"

section \<open>Closing\<close>

definition tcp_on_close :: "link \<Rightarrow> link" where
  "tcp_on_close lk = say (On_close (lk_stopped lk) (async_calls lk)) (lk\<lparr>lk_status := BROKEN\<rparr>)"

definition server_on_close :: "link \<Rightarrow> link" where
  "server_on_close lk = tcp_on_close (lk\<lparr>lk_timers := clear_io_context_refs (lk_timers lk)\<rparr>)"

definition client_on_close :: "link \<Rightarrow> link" where
  "client_on_close lk =
     tcp_on_close (if \<not> lk_need_reconnect lk then lk\<lparr>lk_timers := clear_io_context_refs (lk_timers lk)\<rparr> else lk)"

definition on_close :: "role \<Rightarrow> link \<Rightarrow> link" where
  "on_close role lk = (if role = Server then server_on_close lk else client_on_close lk)"

lemmas on_close_defs = on_close_def server_on_close_def client_on_close_def tcp_on_close_def

definition after_close :: "role \<Rightarrow> link_env \<Rightarrow> link \<Rightarrow> link" where
  "after_close role env lk =
     (let lk1 = say After_close lk in if role = Client \<and> lk_need_reconnect lk1 then link_start role env lk1 else lk1)"

text \<open>
  \<open>close\<close>. The interval of \<open>TIMER_DELAY_CLOSE\<close> is 50 ms, as with \<open>ASCS_DELAY_CLOSE\<close> 0 (the default), where the handler waits for the
  last asynchronous call. With another value the timer runs that many seconds more and \<open>tracked_executor.h\<close>
  answers \<open>is_last_async_call\<close> with true at its first expiry, whatever is still in flight; that build is not modelled.
\<close>

definition link_close :: "role \<Rightarrow> link_env \<Rightarrow> bool \<Rightarrow> link \<Rightarrow> bool \<times> link" where
  "link_close role env use_close lk =
     (if \<not> lk_started lk then (False, lk)
      else
        let lk1 = lk\<lparr>lk_started := False, lk_timers := stop_all_timer (lk_timers lk)\<rparr>;
            lk2 = (if lk_open lk1 \<and> use_close then lk1\<lparr>lk_open := False\<rparr> else lk1)
        in (True, if lk_stopped lk2 then (after_close role env (on_close role lk2))\<lparr>lk_obsoleted := True\<rparr>
                  else link_set_timer TIMER_DELAY_CLOSE 50 Cb_delay_close lk2))"

text \<open>\<open>timer_handler(TIMER_DELAY_CLOSE)\<close>.\<close>

definition delay_close_handler :: "role \<Rightarrow> link_env \<Rightarrow> link \<Rightarrow> bool \<times> link" where
  "delay_close_handler role env lk =
     (if \<not> is_last_async_call lk
      then (True, lk\<lparr>lk_timers := stop_all_timer_except TIMER_DELAY_CLOSE (lk_timers lk)\<rparr>)
      else
        let lk1 = on_close role (lk\<lparr>lk_open := False\<rparr>);
            lk2 = lk1\<lparr>lk_timers := snd (change_timer_status TIMER_DELAY_CLOSE TIMER_CANCELED (lk_timers lk1))\<rparr>
        in (False, (after_close role env lk2)\<lparr>lk_obsoleted := True\<rparr>))"

section \<open>Shutting down\<close>

definition shutdown :: "role \<Rightarrow> link_env \<Rightarrow> link \<Rightarrow> link" where
  "shutdown role env lk =
     (if is_broken lk then snd (link_close role env True lk)
      else snd (link_close role env False (lk\<lparr>lk_status := FORCE_SHUTTING_DOWN\<rparr>)))"

definition force_shutdown_in :: "role \<Rightarrow> link_env \<Rightarrow> link \<Rightarrow> link" where
  "force_shutdown_in role env lk = (if lk_status lk \<noteq> FORCE_SHUTTING_DOWN then shutdown role env lk else lk)"

definition graceful_shutdown_in :: "role \<Rightarrow> link_env \<Rightarrow> link \<Rightarrow> link" where
  "graceful_shutdown_in role env lk =
     (if is_broken lk then shutdown role env lk
      else if \<not> is_shutting_down lk
      then let lk1 = lk\<lparr>lk_status := GRACEFUL_SHUTTING_DOWN\<rparr>
           in if ev_shutdown_ec env then shutdown role env lk1
              else link_set_timer TIMER_ASYNC_SHUTDOWN 10 (Cb_shutdown (GRACEFUL_SHUTDOWN_MAX_DURATION * 100)) lk1
      else lk)"

text \<open>\<open>dispatch_in_io_strand\<close>: at once in the strand, a task for it otherwise.\<close>

definition dispatch_task :: "bool \<Rightarrow> link_task \<Rightarrow> role \<Rightarrow> link_env \<Rightarrow> link \<Rightarrow> link" where
  "dispatch_task in_strand task role env lk =
     (if in_strand then (case task of Task_force_shutdown \<Rightarrow> force_shutdown_in role env lk
                         | Task_graceful_shutdown \<Rightarrow> graceful_shutdown_in role env lk)
      else lk\<lparr>lk_tasks := lk_tasks lk @ [task]\<rparr>)"

text \<open>\<open>force_shutdown\<close> and \<open>graceful_shutdown\<close> of the endpoints; the server's ones take no argument.\<close>

definition server_force_shutdown :: "bool \<Rightarrow> link_env \<Rightarrow> link \<Rightarrow> link" where
  "server_force_shutdown in_strand env lk = dispatch_task in_strand Task_force_shutdown Server env lk"

definition client_force_shutdown :: "bool \<Rightarrow> bool \<Rightarrow> link_env \<Rightarrow> link \<Rightarrow> link" where
  "client_force_shutdown in_strand reconnect env lk =
     (let lk1 = lk\<lparr>lk_need_reconnect := reconnect\<rparr>
      in if reconnect \<and> is_broken lk1 \<and> \<not> lk_started lk1 then link_start Client env lk1
         else dispatch_task in_strand Task_force_shutdown Client env lk1)"

definition force_shutdown :: "bool \<Rightarrow> bool \<Rightarrow> role \<Rightarrow> link_env \<Rightarrow> link \<Rightarrow> link" where
  "force_shutdown in_strand reconnect role env lk =
     (if role = Server then server_force_shutdown in_strand env lk else client_force_shutdown in_strand reconnect env lk)"

definition server_graceful_shutdown :: "bool \<Rightarrow> link_env \<Rightarrow> link \<Rightarrow> link" where
  "server_graceful_shutdown in_strand env lk =
     (if is_broken lk then server_force_shutdown in_strand env lk
      else dispatch_task in_strand Task_graceful_shutdown Server env lk)"

definition client_graceful_shutdown :: "bool \<Rightarrow> bool \<Rightarrow> link_env \<Rightarrow> link \<Rightarrow> link" where
  "client_graceful_shutdown in_strand reconnect env lk =
     (let lk1 = lk\<lparr>lk_need_reconnect := reconnect\<rparr>
      in if reconnect \<and> is_broken lk1 \<and> \<not> lk_started lk1 then link_start Client env lk1
         else if is_broken lk1 then client_force_shutdown in_strand reconnect env lk1
         else dispatch_task in_strand Task_graceful_shutdown Client env lk1)"

definition graceful_shutdown :: "bool \<Rightarrow> bool \<Rightarrow> role \<Rightarrow> link_env \<Rightarrow> link \<Rightarrow> link" where
  "graceful_shutdown in_strand reconnect role env lk =
     (if role = Server then server_graceful_shutdown in_strand env lk
      else client_graceful_shutdown in_strand reconnect env lk)"

lemmas force_shutdown_defs = force_shutdown_def server_force_shutdown_def client_force_shutdown_def
lemmas graceful_shutdown_defs = graceful_shutdown_def server_graceful_shutdown_def client_graceful_shutdown_def

text \<open>The reactions of the endpoints to errors of a read (in the strand) and to a graceful shutdown that takes too long.\<close>

definition on_recv_error :: "role \<Rightarrow> link_env \<Rightarrow> link \<Rightarrow> link" where
  "on_recv_error role env lk = force_shutdown True (lk_need_reconnect lk) role env lk"

definition on_async_shutdown_error :: "role \<Rightarrow> link_env \<Rightarrow> link \<Rightarrow> link" where
  "on_async_shutdown_error role env lk =
     force_shutdown False (lk_need_reconnect lk) role env (say On_async_shutdown_error lk)"

definition shutdown_handler :: "nat \<Rightarrow> role \<Rightarrow> link_env \<Rightarrow> link \<Rightarrow> bool \<times> link" where
  "shutdown_handler loop_num role env lk =
     (if lk_status lk = GRACEFUL_SHUTTING_DOWN
      then let n = size_sub loop_num 1
           in if n > 0
              then (True, lk\<lparr>lk_timers := snd (change_timer_call_back TIMER_ASYNC_SHUTDOWN (Some (Cb_shutdown n)) (lk_timers lk))\<rparr>)
              else (False, on_async_shutdown_error role env lk)
      else (False, lk))"

section \<open>Connecting\<close>

definition connect :: "bool \<Rightarrow> link_env \<Rightarrow> link \<Rightarrow> link" where
  "connect first env lk = (if \<not> first \<and> \<not> ev_bind env then lk else lk\<lparr>lk_connecting := True, lk_open := True\<rparr>)"

definition connect_handler :: "bool \<Rightarrow> link \<Rightarrow> link" where
  "connect_handler ec lk =
     (let lk1 = lk\<lparr>lk_connecting := False\<rparr>
      in if \<not> ec then tcp_do_start lk1 else link_set_timer TIMER_CONNECT_DELAY 50 Cb_connect_delay lk1)"

definition prepare_next_reconnect :: "link_env \<Rightarrow> link \<Rightarrow> link" where
  "prepare_next_reconnect env lk =
     (let abandon = (\<lambda>lk. dispatch_task False Task_force_shutdown Client env (say Reconnect_abandoned lk))
      in if lk_need_reconnect lk \<and> lk_started lk \<and> \<not> lk_stopped lk
         then let lk1 = lk\<lparr>lk_open := False\<rparr>
              in if ev_delay env < 0 then abandon (lk1\<lparr>lk_need_reconnect := False\<rparr>)
                 else link_set_timer TIMER_CONNECT (word_of_int (ev_delay env)) (Cb_connect False) lk1
         else abandon lk)"

section \<open>The handlers of the timers\<close>

fun run_cb :: "role \<Rightarrow> link_env \<Rightarrow> link_cb \<Rightarrow> link \<Rightarrow> bool \<times> link" where
  "run_cb role env Cb_delay_close lk = delay_close_handler role env lk"
| "run_cb role env (Cb_shutdown n) lk = shutdown_handler n role env lk"
| "run_cb role env (Cb_connect first) lk = (False, connect first env lk)"
| "run_cb role env Cb_connect_delay lk =
     (if is_timer TIMER_CONNECT (lk_timers lk) then (True, lk) else (False, prepare_next_reconnect env lk))"
| "run_cb role env (Cb_other ret) lk = (ret, lk)"

text \<open>The completion handler of a wait, as in theory Timer, with the call back's effect on the whole link.\<close>

definition link_wait_handler :: "role \<Rightarrow> link_env \<Rightarrow> bool \<Rightarrow> nat \<Rightarrow> u8 \<Rightarrow> link \<Rightarrow> link" where
  "link_wait_handler role env ec tid prev_seq lk =
     (case find_timer tid (lk_timers lk) of None \<Rightarrow> lk
      | Some ti \<Rightarrow>
          let (ret, lk1) = (case ti_call_back ti of
                 Some cb \<Rightarrow> if ti_status ti = TIMER_STARTED \<and> \<not> ec then run_cb role env cb lk else (False, lk)
               | None \<Rightarrow> (False, lk));
              t1 = lk_timers lk1
          in if ret \<and> is_timer tid t1 then lk1\<lparr>lk_timers := snd (start_timer tid t1)\<rparr>
             else if map_option ti_seq (find_timer tid t1) = Some prev_seq
             then lk1\<lparr>lk_timers := upd_timer tid (\<lambda>ti. ti\<lparr>ti_status := TIMER_CANCELED\<rparr>) t1\<rparr>
             else lk1)"

section \<open>What the timer operations do to the started timers and their call backs\<close>

definition cb_of :: "nat \<Rightarrow> 'cb timer_obj \<Rightarrow> 'cb option" where
  "cb_of i t = Option.bind (find_timer i t) ti_call_back"

lemma find_set_timer:
  "find_timer i (snd (set_timer True tid n (Some cb) t)) =
     (if i = tid
      then Some ((case find_timer tid t of None \<Rightarrow> ti_new tid | Some ti \<Rightarrow> ti)
             \<lparr>ti_interval := n, ti_call_back := Some cb, ti_status := TIMER_STARTED,
              ti_seq := ti_seq (case find_timer tid t of None \<Rightarrow> ti_new tid | Some ti \<Rightarrow> ti) + 1\<rparr>)
      else find_timer i t)"
proof (cases "find_timer tid t")
  case None
  then show ?thesis
    by (simp add: set_timer_def create_or_update_timer_def Let_def find_timer_start timer_simps find_new_timer)
next
  case (Some ti)
  then show ?thesis
    by (simp add: set_timer_def create_or_update_timer_def Let_def find_timer_start timer_simps)
qed

named_theorems link_timers "started timers and call backs after a timer operation"

lemma set_timer_obs [link_timers]:
  "is_timer i (snd (set_timer True tid n (Some cb) t)) \<longleftrightarrow> i = tid \<or> is_timer i t"
  "cb_of i (snd (set_timer True tid n (Some cb) t)) = (if i = tid then Some cb else cb_of i t)"
  by (simp_all add: is_timer_def cb_of_def find_set_timer)

lemma stop_obs:
  "is_timer i (stop_timer tid t) \<longleftrightarrow> i \<noteq> tid \<and> is_timer i t" "cb_of i (stop_timer tid t) = cb_of i t"
  by (cases "find_timer tid t"; auto simp: is_timer_def cb_of_def find_timer_stop split: option.splits)+

lemma stop_fold_obs:
  "is_timer i (fold stop_timer tids t) \<longleftrightarrow> i \<notin> set tids \<and> is_timer i t" "cb_of i (fold stop_timer tids t) = cb_of i t"
  by (induction tids arbitrary: t) (auto simp: stop_obs)

lemma is_timer_listed: "is_timer i t \<Longrightarrow> i \<in> ti_id ` set (tm_can t)"
  by (auto simp: is_timer_def find_timer_def find_Some_iff in_set_conv_nth split: option.splits) (metis image_eqI nth_mem)

lemma stop_all_obs [link_timers]:
  "\<not> is_timer i (stop_all_timer t)" "cb_of i (stop_all_timer t) = cb_of i t"
  "is_timer i (stop_all_timer_except tid t) \<longleftrightarrow> i = tid \<and> is_timer i t" "cb_of i (stop_all_timer_except tid t) = cb_of i t"
  using is_timer_listed [of i t]
  by (auto simp: stop_all_timer_def stop_all_timer_except_def stop_fold_obs)

lemma change_obs [link_timers]:
  "is_timer i (snd (change_timer_status tid TIMER_CANCELED t)) \<longleftrightarrow> i \<noteq> tid \<and> is_timer i t"
  "cb_of i (snd (change_timer_status tid TIMER_CANCELED t)) = cb_of i t"
  "is_timer i (snd (change_timer_call_back tid (Some cb) t)) \<longleftrightarrow> is_timer i t"
  "cb_of i (snd (change_timer_call_back tid (Some cb) t)) = (if i = tid \<and> find_timer tid t \<noteq> None then Some cb else cb_of i t)"
  by (auto simp: is_timer_def cb_of_def change_timer_status_def change_timer_call_back_def timer_simps split: option.splits)

lemma refs_obs [link_timers]:
  "is_timer i (clear_io_context_refs t) = is_timer i t" "cb_of i (clear_io_context_refs t) = cb_of i t"
  "tm_waits (clear_io_context_refs t) = tm_waits t"
  "is_timer i (reset_io_context_refs t) = is_timer i t" "cb_of i (reset_io_context_refs t) = cb_of i t"
  by (simp_all add: is_timer_def cb_of_def find_timer_def clear_io_context_refs_def sub_io_context_refs_def
      reset_io_context_refs_def add_io_context_refs_def)

lemma start_obs:
  "is_timer tid t \<Longrightarrow> is_timer i (snd (start_timer tid t)) = is_timer i t" "cb_of i (snd (start_timer tid t)) = cb_of i t"
  by (auto simp: is_timer_def cb_of_def find_timer_start split: option.splits)

lemma cancel_obs:
  "is_timer i (upd_timer tid (\<lambda>ti. ti\<lparr>ti_status := TIMER_CANCELED\<rparr>) t) \<longleftrightarrow> i \<noteq> tid \<and> is_timer i t"
  "cb_of i (upd_timer tid (\<lambda>ti. ti\<lparr>ti_status := TIMER_CANCELED\<rparr>) t) = cb_of i t"
  by (cases "find_timer tid t"; auto simp: is_timer_def cb_of_def timer_simps split: option.splits)+

lemma waits_obs [link_timers]:
  "is_timer i (t\<lparr>tm_waits := ws\<rparr>) = is_timer i t" "cb_of i (t\<lparr>tm_waits := ws\<rparr>) = cb_of i t"
  by (simp_all add: is_timer_def cb_of_def timer_simps)

section \<open>All behaviours\<close>

inductive link_step :: "role \<Rightarrow> link \<Rightarrow> link \<Rightarrow> bool" for role :: role where
  user_start: "(role = Server \<longrightarrow> \<not> lk_obsoleted lk) \<Longrightarrow> link_step role lk (link_start role env lk)"
| user_force: "link_step role lk (force_shutdown False reconnect role env lk)"
| user_graceful: "link_step role lk (graceful_shutdown False reconnect role env lk)"
| user_timer: "lk_started lk \<Longrightarrow> tid \<notin> {TIMER_DELAY_CLOSE, TIMER_ASYNC_SHUTDOWN, TIMER_CONNECT_DELAY, TIMER_CONNECT} \<Longrightarrow>
    link_step role lk (link_set_timer tid interval (Cb_other ret) lk)"
| user_reconnect: "link_step role lk (lk\<lparr>lk_need_reconnect := reconnect\<rparr>)"
| run_task: "lk_tasks lk = task # tasks \<Longrightarrow> link_step role lk (dispatch_task True task role env (lk\<lparr>lk_tasks := tasks\<rparr>))"
| issue_call: "lk_started lk \<Longrightarrow> link_step role lk (lk\<lparr>lk_calls := lk_calls lk + 1\<rparr>)"
| call_done: "0 < lk_calls lk \<Longrightarrow> link_step role lk (lk\<lparr>lk_calls := lk_calls lk - 1\<rparr>)"
| recv_error: "0 < lk_calls lk \<Longrightarrow> link_step role lk (on_recv_error role env (lk\<lparr>lk_calls := lk_calls lk - 1\<rparr>))"
| connected: "lk_connecting lk \<Longrightarrow> link_step role lk (connect_handler ec lk)"
| expire: "tm_waits (lk_timers lk) = ws1 @ w # ws2 \<Longrightarrow> wt_state w = Waiting \<Longrightarrow>
    link_step role lk (lk\<lparr>lk_timers := (lk_timers lk)\<lparr>tm_waits := ws1 @ w\<lparr>wt_state := Queued False\<rparr> # ws2\<rparr>\<rparr>)"
| timer_done: "tm_waits (lk_timers lk) = ws1 @ w # ws2 \<Longrightarrow> wt_state w = Queued ec \<Longrightarrow>
    link_step role lk (link_wait_handler role env ec (wt_id w) (wt_prev_seq w)
      (lk\<lparr>lk_timers := (lk_timers lk)\<lparr>tm_waits := ws1 @ ws2\<rparr>\<rparr>))"
| stop: "link_step role lk (lk\<lparr>lk_stopped := True\<rparr>)"

section \<open>The invariant of a link\<close>

fun is_on_close :: "link_log \<Rightarrow> bool" where
  "is_on_close (On_close _ _) = True"
| "is_on_close _ = False"

definition starts :: "link \<Rightarrow> nat" where
  "starts lk = length (filter (\<lambda>e. e = Started) (lk_log lk))"

definition closes :: "link \<Rightarrow> nat" where
  "closes lk = length (filter is_on_close (lk_log lk))"

definition closing :: "link \<Rightarrow> bool" where
  "closing lk \<longleftrightarrow> is_timer TIMER_DELAY_CLOSE (lk_timers lk)"

text \<open>Every start is answered by one \<open>on_close\<close>; only a link that is started or closing is not broken.\<close>

definition link_inv :: "role \<Rightarrow> link \<Rightarrow> bool" where
  "link_inv role lk \<longleftrightarrow>
     \<not> (lk_started lk \<and> closing lk) \<and>
     starts lk = closes lk + of_bool (lk_started lk \<or> closing lk) \<and>
     (\<forall>st n. On_close st n \<in> set (lk_log lk) \<longrightarrow> st \<or> n = 0) \<and>
     (\<forall>i. cb_of i (lk_timers lk) = Some Cb_delay_close \<longrightarrow> i = TIMER_DELAY_CLOSE) \<and>
     (\<forall>i b. cb_of i (lk_timers lk) = Some (Cb_connect b) \<longrightarrow> i = TIMER_CONNECT) \<and>
     (is_timer TIMER_CONNECT (lk_timers lk) \<longrightarrow> lk_started lk) \<and>
     (lk_stopped lk \<or> (lk_connecting lk \<or> lk_status lk \<noteq> BROKEN \<longrightarrow> lk_started lk \<or> closing lk)) \<and>
     (role = Server \<and> lk_obsoleted lk \<longrightarrow> \<not> lk_started lk \<and> \<not> closing lk)"

lemmas tids = TIMER_DELAY_CLOSE_def TIMER_ASYNC_SHUTDOWN_def TIMER_CONNECT_DELAY_def TIMER_CONNECT_def

lemma distinct_tids [simp]:
  "TIMER_CONNECT \<noteq> TIMER_DELAY_CLOSE" "TIMER_DELAY_CLOSE \<noteq> TIMER_CONNECT"
  "TIMER_ASYNC_SHUTDOWN \<noteq> TIMER_DELAY_CLOSE" "TIMER_DELAY_CLOSE \<noteq> TIMER_ASYNC_SHUTDOWN"
  "TIMER_CONNECT_DELAY \<noteq> TIMER_DELAY_CLOSE" "TIMER_DELAY_CLOSE \<noteq> TIMER_CONNECT_DELAY"
  "TIMER_CONNECT_DELAY \<noteq> TIMER_CONNECT" "TIMER_CONNECT \<noteq> TIMER_CONNECT_DELAY"
  "TIMER_ASYNC_SHUTDOWN \<noteq> TIMER_CONNECT" "TIMER_CONNECT \<noteq> TIMER_ASYNC_SHUTDOWN"
  by (simp_all add: tids)

lemma inv_say: "e \<noteq> Started \<Longrightarrow> \<not> is_on_close e \<Longrightarrow> link_inv role (say e lk) \<longleftrightarrow> link_inv role lk"
  by (cases e) (simp_all add: link_inv_def say_def starts_def closes_def closing_def)

lemma inv_fields:
  "link_inv role (lk\<lparr>lk_calls := n\<rparr>) \<longleftrightarrow> link_inv role lk"
  "link_inv role (lk\<lparr>lk_tasks := ts\<rparr>) \<longleftrightarrow> link_inv role lk"
  "link_inv role (lk\<lparr>lk_open := b\<rparr>) \<longleftrightarrow> link_inv role lk"
  "link_inv role (lk\<lparr>lk_need_reconnect := b\<rparr>) \<longleftrightarrow> link_inv role lk"
  "link_inv role lk \<Longrightarrow> link_inv role (lk\<lparr>lk_stopped := True\<rparr>)"
  by (simp_all add: link_inv_def starts_def closes_def closing_def)

lemma inv_obsoleted:
  "link_inv role lk \<Longrightarrow> role = Client \<or> \<not> lk_started lk \<and> \<not> closing lk \<Longrightarrow> link_inv role (lk\<lparr>lk_obsoleted := True\<rparr>)"
  by (auto simp: link_inv_def starts_def closes_def closing_def)

lemma inv_set_timer:
  "link_inv role lk \<Longrightarrow> tid \<noteq> TIMER_DELAY_CLOSE \<Longrightarrow> cb \<noteq> Cb_delay_close \<Longrightarrow>
     ((\<exists>b. cb = Cb_connect b) \<longrightarrow> tid = TIMER_CONNECT) \<Longrightarrow> (tid = TIMER_CONNECT \<longrightarrow> lk_started lk) \<Longrightarrow>
     link_inv role (link_set_timer tid n cb lk)"
  by (auto simp: link_inv_def link_set_timer_def starts_def closes_def closing_def link_timers)

text \<open>\<open>do_start\<close> of the server's endpoint and the success of a connection.\<close>

lemma inv_tcp_do_start:
  "link_inv role lk \<Longrightarrow> lk_stopped lk \<or> lk_started lk \<or> closing lk \<Longrightarrow> link_inv role (tcp_do_start lk)"
  unfolding tcp_do_start_def
  by (auto simp: link_inv_def say_def starts_def closes_def closing_def)

lemma inv_start:
  assumes inv: "link_inv role lk" and obs: "role = Server \<longrightarrow> \<not> lk_obsoleted lk"
  shows "link_inv role (link_start role env lk)"
proof (cases "\<not> lk_started lk \<and> \<not> closing lk \<and> \<not> lk_stopped lk")
  case True
  show ?thesis
  proof (cases role)
    case Server
    then show ?thesis using True inv obs
      by (auto simp: link_start_def closing_def do_start_def tcp_do_start_def link_inv_def say_def starts_def closes_def)
  next
    case Client
    then show ?thesis using True inv
      by (auto simp: link_start_def closing_def do_start_def link_inv_def say_def starts_def closes_def link_set_timer_def link_timers)
  qed
next
  case False
  then show ?thesis using inv by (auto simp: link_start_def closing_def)
qed

lemma inv_after_close: "link_inv role lk \<Longrightarrow> link_inv role (after_close role env lk)"
  unfolding after_close_def Let_def by (auto intro!: inv_start simp: inv_say)

text \<open>After \<open>on_close\<close> of a link that is neither started nor closing, the books are balanced again.\<close>

lemma inv_on_close:
  assumes "\<not> lk_started lk" "\<not> closing lk" "starts lk = closes lk + 1" "lk_stopped lk \<or> async_calls lk = 0"
    and "\<forall>st n. On_close st n \<in> set (lk_log lk) \<longrightarrow> st \<or> n = 0"
    and "\<forall>i. cb_of i (lk_timers lk) = Some Cb_delay_close \<longrightarrow> i = TIMER_DELAY_CLOSE"
    and "\<forall>i b. cb_of i (lk_timers lk) = Some (Cb_connect b) \<longrightarrow> i = TIMER_CONNECT"
    and "\<not> is_timer TIMER_CONNECT (lk_timers lk)"
  shows "link_inv role (on_close role lk)"
  using assms
  by (auto simp: on_close_defs Let_def say_def link_inv_def starts_def closes_def closing_def link_timers async_calls_def)

lemma server_idle_after: "role = Server \<Longrightarrow> \<not> lk_started (after_close role env lk) = (\<not> lk_started lk) \<and>
    closing (after_close role env lk) = closing lk"
  by (simp add: after_close_def say_def closing_def)

lemma on_close_fields [simp]:
  "lk_started (on_close role lk) = lk_started lk" "closing (on_close role lk) = closing lk"
  by (simp_all add: on_close_defs Let_def say_def closing_def link_timers)

lemma inv_close:
  assumes inv: "link_inv role lk"
  shows "link_inv role (snd (link_close role env use_close lk))"
proof (cases "lk_started lk")
  case False
  then show ?thesis using inv by (simp add: link_close_def)
next
  case True
  define lk2 where "lk2 = (let lk1 = lk\<lparr>lk_started := False, lk_timers := stop_all_timer (lk_timers lk)\<rparr>
    in if lk_open lk1 \<and> use_close then lk1\<lparr>lk_open := False\<rparr> else lk1)"
  have f: "\<not> lk_started lk2" "\<not> closing lk2" "lk_log lk2 = lk_log lk" "lk_stopped lk2 = lk_stopped lk"
    "cb_of i (lk_timers lk2) = cb_of i (lk_timers lk)" "\<not> is_timer i (lk_timers lk2)" "lk_obsoleted lk2 = lk_obsoleted lk" for i
    by (auto simp: lk2_def Let_def closing_def link_timers)
  have c: "snd (link_close role env use_close lk) =
      (if lk_stopped lk2 then (after_close role env (on_close role lk2))\<lparr>lk_obsoleted := True\<rparr>
       else link_set_timer TIMER_DELAY_CLOSE 50 Cb_delay_close lk2)"
    using True by (simp add: link_close_def lk2_def Let_def)
  show ?thesis
  proof (cases "lk_stopped lk2")
    case stopped: True
    have "link_inv role (on_close role lk2)"
      by (rule inv_on_close) (use inv True stopped f in \<open>auto simp: link_inv_def starts_def closes_def\<close>)
    then have "link_inv role (after_close role env (on_close role lk2))" by (rule inv_after_close)
    moreover have "role = Server \<Longrightarrow> \<not> lk_started (after_close role env (on_close role lk2)) \<and>
        \<not> closing (after_close role env (on_close role lk2))"
      using server_idle_after [of role env "on_close role lk2"] f by simp
    ultimately show ?thesis unfolding c using stopped by (cases role) (auto intro!: inv_obsoleted)
  next
    case False
    have "link_inv role (link_set_timer TIMER_DELAY_CLOSE 50 Cb_delay_close lk2)"
      using inv True False f
      by (auto simp: link_inv_def link_set_timer_def starts_def closes_def closing_def link_timers)
    then show ?thesis unfolding c using False by simp
  qed
qed

lemma inv_delay_close:
  assumes inv: "link_inv role lk" and cl: "closing lk"
  shows "link_inv role (snd (delay_close_handler role env lk))"
proof (cases "is_last_async_call lk")
  case False
  then show ?thesis using inv cl
    by (auto simp: delay_close_handler_def link_inv_def starts_def closes_def closing_def link_timers)
next
  case True
  define lk2 where "lk2 = (let lk1 = on_close role (lk\<lparr>lk_open := False\<rparr>)
    in lk1\<lparr>lk_timers := snd (change_timer_status TIMER_DELAY_CLOSE TIMER_CANCELED (lk_timers lk1))\<rparr>)"
  have a: "async_calls lk = 0" using True by (simp add: is_last_async_call_def)
  have lk2: "link_inv role lk2" "\<not> lk_started lk2" "\<not> closing lk2"
    using inv cl a
    by (auto simp: lk2_def on_close_defs Let_def say_def link_inv_def starts_def closes_def closing_def link_timers async_calls_def)
  have "link_inv role (after_close role env lk2)" by (rule inv_after_close [OF lk2(1)])
  moreover have "role = Server \<Longrightarrow> \<not> lk_started (after_close role env lk2) \<and> \<not> closing (after_close role env lk2)"
    using server_idle_after [of role env lk2] lk2 by simp
  ultimately have "link_inv role ((after_close role env lk2)\<lparr>lk_obsoleted := True\<rparr>)"
    by (cases role) (auto intro!: inv_obsoleted)
  then show ?thesis using True by (simp add: delay_close_handler_def lk2_def Let_def)
qed

lemma inv_status: "link_inv role lk \<Longrightarrow> lk_status lk \<noteq> BROKEN \<Longrightarrow> link_inv role (lk\<lparr>lk_status := st\<rparr>)"
  by (auto simp: link_inv_def starts_def closes_def closing_def)

lemma inv_shutdown: "link_inv role lk \<Longrightarrow> link_inv role (shutdown role env lk)"
  by (auto simp: shutdown_def is_broken_def intro!: inv_close inv_status)

lemma inv_force_in: "link_inv role lk \<Longrightarrow> link_inv role (force_shutdown_in role env lk)"
  by (simp add: force_shutdown_in_def inv_shutdown)

lemma inv_graceful_in: "link_inv role lk \<Longrightarrow> link_inv role (graceful_shutdown_in role env lk)"
  by (auto simp: graceful_shutdown_in_def Let_def is_broken_def intro!: inv_shutdown inv_set_timer inv_status)

lemma inv_dispatch: "link_inv role lk \<Longrightarrow> link_inv role (dispatch_task in_strand task role env lk)"
  by (cases task) (auto simp: dispatch_task_def inv_fields inv_force_in inv_graceful_in)

lemma inv_force: "link_inv role lk \<Longrightarrow> link_inv role (force_shutdown in_strand reconnect role env lk)"
  by (cases role) (auto simp: force_shutdown_defs Let_def inv_fields intro!: inv_dispatch inv_start)

lemma inv_graceful: "link_inv role lk \<Longrightarrow> link_inv role (graceful_shutdown in_strand reconnect role env lk)"
  by (cases role) (auto simp: graceful_shutdown_defs force_shutdown_defs Let_def inv_fields intro!: inv_dispatch inv_start)

lemma inv_shutdown_handler: "link_inv role lk \<Longrightarrow> link_inv role (snd (shutdown_handler n role env lk))"
proof -
  assume inv: "link_inv role lk"
  have "link_inv role (lk\<lparr>lk_timers := snd (change_timer_call_back TIMER_ASYNC_SHUTDOWN (Some (Cb_shutdown k)) (lk_timers lk))\<rparr>)" for k
    using inv by (auto simp: link_inv_def starts_def closes_def closing_def link_timers split: if_splits)
  moreover have "link_inv role (on_async_shutdown_error role env lk)"
    unfolding on_async_shutdown_error_def by (rule inv_force) (simp add: inv_say inv)
  ultimately show ?thesis using inv by (simp add: shutdown_handler_def Let_def)
qed

lemma inv_connect: "link_inv role lk \<Longrightarrow> lk_started lk \<Longrightarrow> link_inv role (connect first env lk)"
  by (auto simp: connect_def link_inv_def starts_def closes_def closing_def)

lemma inv_connect_handler:
  assumes "link_inv role lk" "lk_connecting lk"
  shows "link_inv role (connect_handler ec lk)"
proof -
  have i: "link_inv role (lk\<lparr>lk_connecting := False\<rparr>)"
    using assms by (auto simp: link_inv_def starts_def closes_def closing_def)
  have "lk_stopped lk \<or> lk_started lk \<or> closing lk" using assms by (auto simp: link_inv_def)
  then have "link_inv role (tcp_do_start (lk\<lparr>lk_connecting := False\<rparr>))"
    by (intro inv_tcp_do_start i) (simp add: closing_def)
  moreover have "link_inv role (link_set_timer TIMER_CONNECT_DELAY 50 Cb_connect_delay (lk\<lparr>lk_connecting := False\<rparr>))"
    by (rule inv_set_timer [OF i]) simp_all
  ultimately show ?thesis by (simp add: connect_handler_def Let_def)
qed

lemma dispatch_later: "dispatch_task False task role env lk = lk\<lparr>lk_tasks := lk_tasks lk @ [task]\<rparr>"
  by (simp add: dispatch_task_def)

lemma inv_reconnect: "link_inv role lk \<Longrightarrow> link_inv role (prepare_next_reconnect env lk)"
  by (auto simp: prepare_next_reconnect_def Let_def inv_fields inv_say dispatch_later intro!: inv_set_timer)

section \<open>The wait of the closing timer\<close>

text \<open>
  While a link is closing, \<open>TIMER_DELAY_CLOSE\<close> has one wait, which was not cancelled and carries the
  timer's number; otherwise it has none. Only \<open>close\<close> and the timer's own handler change that.
\<close>

definition dview :: "link \<Rightarrow> wait list \<times> link_cb timer_info option" where
  "dview lk = (waits_of TIMER_DELAY_CLOSE (lk_timers lk), find_timer TIMER_DELAY_CLOSE (lk_timers lk))"

definition close_wait :: "link \<Rightarrow> bool" where
  "close_wait lk \<longleftrightarrow>
     (if closing lk
      then \<exists>w. waits_of TIMER_DELAY_CLOSE (lk_timers lk) = [w] \<and> wt_state w \<noteq> Queued True \<and>
             map_option ti_seq (find_timer TIMER_DELAY_CLOSE (lk_timers lk)) = Some (wt_prev_seq w) \<and>
             cb_of TIMER_DELAY_CLOSE (lk_timers lk) = Some Cb_delay_close
      else waits_of TIMER_DELAY_CLOSE (lk_timers lk) = [])"

lemma close_wait_view: "dview lk = dview lk' \<Longrightarrow> close_wait lk = close_wait lk'"
  by (simp add: dview_def close_wait_def closing_def is_timer_def cb_of_def)

lemma view_fields [simp]:
  "dview (say e lk) = dview lk" "dview (lk\<lparr>lk_status := st\<rparr>) = dview lk" "dview (lk\<lparr>lk_started := b\<rparr>) = dview lk"
  "dview (lk\<lparr>lk_obsoleted := b\<rparr>) = dview lk" "dview (lk\<lparr>lk_stopped := b\<rparr>) = dview lk" "dview (lk\<lparr>lk_open := b\<rparr>) = dview lk"
  "dview (lk\<lparr>lk_calls := n\<rparr>) = dview lk" "dview (lk\<lparr>lk_tasks := ts\<rparr>) = dview lk" "dview (lk\<lparr>lk_connecting := b\<rparr>) = dview lk"
  "dview (lk\<lparr>lk_need_reconnect := b\<rparr>) = dview lk"
  by (simp_all add: dview_def say_def)

lemma waits_of_start:
  assumes "find_timer tid t = Some ti" "ti_call_back ti \<noteq> None"
  shows "waits_of i (snd (start_timer tid t)) =
     (if i = tid then cancel_waits tid (waits_of i t) @ [\<lparr>wt_id = tid, wt_prev_seq = ti_seq ti + 1, wt_state = Waiting\<rparr>]
      else waits_of i t)"
proof -
  have "tm_waits (snd (start_timer tid t)) =
      cancel_waits tid (tm_waits t) @ [\<lparr>wt_id = tid, wt_prev_seq = ti_seq ti + 1, wt_state = Waiting\<rparr>]"
    using assms by (auto simp: start_timer_def Let_def timer_simps)
  then show ?thesis by (simp add: waits_of_def waits_of_cancel)
qed

lemma waits_of_set:
  "waits_of i (snd (set_timer True tid n (Some cb) t)) =
     (if i = tid then cancel_waits tid (waits_of i t) @ [\<lparr>wt_id = tid, wt_prev_seq =
         ti_seq (case find_timer tid t of None \<Rightarrow> ti_new tid | Some ti \<Rightarrow> ti) + 1, wt_state = Waiting\<rparr>]
      else waits_of i t)"
proof -
  define t1 where "t1 = (if find_timer tid t = None then t\<lparr>tm_can := tm_can t @ [ti_new tid]\<rparr> else t)"
  define t2 where "t2 = upd_timer tid (\<lambda>ti. ti\<lparr>ti_interval := n, ti_call_back := Some cb\<rparr>) t1"
  have "find_timer tid t1 = Some (case find_timer tid t of None \<Rightarrow> ti_new tid | Some ti \<Rightarrow> ti)"
    by (auto simp: t1_def find_new_timer split: option.split)
  then have f2: "find_timer tid t2 = Some ((case find_timer tid t of None \<Rightarrow> ti_new tid | Some ti \<Rightarrow> ti)
      \<lparr>ti_interval := n, ti_call_back := Some cb\<rparr>)"
    by (simp add: t2_def timer_simps)
  have w2: "waits_of k t2 = waits_of k t" for k by (simp add: t1_def t2_def waits_of_def timer_simps)
  have "snd (set_timer True tid n (Some cb) t) = snd (start_timer tid t2)"
    by (simp add: set_timer_def create_or_update_timer_def Let_def t1_def t2_def)
  then show ?thesis using waits_of_start [OF f2, of i] by (simp add: w2)
qed

lemma view_set_timer [simp]: "tid \<noteq> TIMER_DELAY_CLOSE \<Longrightarrow> dview (link_set_timer tid n cb lk) = dview lk"
  by (simp add: dview_def link_set_timer_def waits_of_set find_set_timer)

lemma stop_other: "i \<noteq> tid \<or> \<not> is_timer i t \<Longrightarrow>
    waits_of i (stop_timer tid t) = waits_of i t \<and> find_timer i (stop_timer tid t) = find_timer i t"
proof -
  assume a: "i \<noteq> tid \<or> \<not> is_timer i t"
  have "waits_of i (stop_timer tid t) = waits_of i t"
    using a by (auto simp: stop_timer_def Let_def waits_of_def waits_of_cancel timer_simps is_timer_def split: option.splits)
  moreover have "find_timer i (stop_timer tid t) = find_timer i t"
    using a by (cases "find_timer i t") (auto simp: find_timer_stop is_timer_def)
  ultimately show ?thesis by simp
qed

lemma stop_fold_other: "i \<notin> set tids \<or> \<not> is_timer i t \<Longrightarrow>
    waits_of i (fold stop_timer tids t) = waits_of i t \<and> find_timer i (fold stop_timer tids t) = find_timer i t"
proof (induction tids arbitrary: t)
  case (Cons tid tids)
  have a: "i \<noteq> tid \<or> \<not> is_timer i t" using Cons.prems by auto
  have "i \<notin> set tids \<or> \<not> is_timer i (stop_timer tid t)" using Cons.prems by (auto simp: stop_obs)
  from Cons.IH [OF this] show ?case using stop_other [OF a] by simp
qed simp

lemma view_stop_all:
  "\<not> closing lk \<Longrightarrow> dview (lk\<lparr>lk_timers := stop_all_timer (lk_timers lk)\<rparr>) = dview lk"
  "dview (lk\<lparr>lk_timers := stop_all_timer_except TIMER_DELAY_CLOSE (lk_timers lk)\<rparr>) = dview lk"
  unfolding dview_def closing_def stop_all_timer_def stop_all_timer_except_def
  by (simp_all add: stop_fold_other [of TIMER_DELAY_CLOSE "map ti_id (tm_can (lk_timers lk))"]
      stop_fold_other [of TIMER_DELAY_CLOSE "filter ((\<noteq>) TIMER_DELAY_CLOSE) (map ti_id (tm_can (lk_timers lk)))"])

lemma view_call_back [simp]:
  "tid \<noteq> TIMER_DELAY_CLOSE \<Longrightarrow> dview (lk\<lparr>lk_timers := snd (change_timer_call_back tid cb (lk_timers lk))\<rparr>) = dview lk"
  by (simp add: dview_def change_timer_call_back_def timer_simps waits_of_def)

lemma view_refs [simp]: "dview (lk\<lparr>lk_timers := clear_io_context_refs (lk_timers lk)\<rparr>) = dview lk"
  using refs_only(1) [of "lk_timers lk"] by (auto simp: dview_def find_timer_def waits_of_def)

lemma view_start [simp]: "dview (link_start role env lk) = dview lk"
  by (simp add: link_start_def do_start_def tcp_do_start_def)

lemma view_on_close [simp]: "dview (on_close role lk) = dview lk"
  by (simp add: on_close_defs Let_def)

lemma view_after_close [simp]: "dview (after_close role env lk) = dview lk"
  by (simp add: after_close_def Let_def)

lemma wait_set_delay:
  assumes "close_wait lk" "\<not> closing lk"
  shows "close_wait (link_set_timer TIMER_DELAY_CLOSE n Cb_delay_close lk)"
  using assms
  by (simp add: close_wait_def closing_def link_set_timer_def waits_of_set find_set_timer link_timers) (simp add: cancel_waits_def)

lemma wait_close:
  assumes inv: "link_inv role lk" and cw: "close_wait lk"
  shows "close_wait (snd (link_close role env use_close lk))"
proof (cases "lk_started lk")
  case False
  then show ?thesis using cw by (simp add: link_close_def)
next
  case True
  then have nc: "\<not> closing lk" using inv by (auto simp: link_inv_def)
  define lk2 where "lk2 = (let lk1 = lk\<lparr>lk_started := False, lk_timers := stop_all_timer (lk_timers lk)\<rparr>
    in if lk_open lk1 \<and> use_close then lk1\<lparr>lk_open := False\<rparr> else lk1)"
  have "dview lk2 = dview lk"
    using view_stop_all(1) [of "lk\<lparr>lk_started := False\<rparr>"] nc by (auto simp: lk2_def Let_def closing_def)
  then have cw2: "close_wait lk2" using close_wait_view cw by blast
  have nc2: "\<not> closing lk2" by (auto simp: lk2_def Let_def closing_def link_timers)
  have c: "snd (link_close role env use_close lk) =
      (if lk_stopped lk2 then (after_close role env (on_close role lk2))\<lparr>lk_obsoleted := True\<rparr>
       else link_set_timer TIMER_DELAY_CLOSE 50 Cb_delay_close lk2)"
    using True by (simp add: link_close_def lk2_def Let_def)
  have "close_wait ((after_close role env (on_close role lk2))\<lparr>lk_obsoleted := True\<rparr>)"
    using close_wait_view [of "(after_close role env (on_close role lk2))\<lparr>lk_obsoleted := True\<rparr>" lk2] cw2 by simp
  then show ?thesis unfolding c using wait_set_delay [OF cw2 nc2] by simp
qed

definition good :: "role \<Rightarrow> link \<Rightarrow> bool" where
  "good role lk \<longleftrightarrow> link_inv role lk \<and> close_wait lk"

lemma good_view: "good role lk \<Longrightarrow> link_inv role lk' \<Longrightarrow> dview lk' = dview lk \<Longrightarrow> good role lk'"
  unfolding good_def using close_wait_view by blast

lemma good_start: "good role lk \<Longrightarrow> (role = Server \<longrightarrow> \<not> lk_obsoleted lk) \<Longrightarrow> good role (link_start role env lk)"
  by (rule good_view) (auto simp: good_def intro: inv_start)

lemma good_close: "good role lk \<Longrightarrow> good role (snd (link_close role env use_close lk))"
  by (simp add: good_def inv_close wait_close)

lemma good_shutdown: "good role lk \<Longrightarrow> good role (shutdown role env lk)"
  unfolding shutdown_def using good_close [of role lk env True]
    good_close [of role "lk\<lparr>lk_status := FORCE_SHUTTING_DOWN\<rparr>" env False]
    good_view [of role lk "lk\<lparr>lk_status := FORCE_SHUTTING_DOWN\<rparr>"] inv_status [of role lk FORCE_SHUTTING_DOWN]
  by (auto simp: is_broken_def good_def)

lemma good_graceful_in: "good role lk \<Longrightarrow> good role (graceful_shutdown_in role env lk)"
proof -
  assume g: "good role lk"
  have s: "\<not> is_broken lk \<Longrightarrow> good role (lk\<lparr>lk_status := GRACEFUL_SHUTTING_DOWN\<rparr>)"
    by (rule good_view [OF g]) (use g inv_status in \<open>auto simp: good_def is_broken_def\<close>)
  have "\<not> is_broken lk \<Longrightarrow> good role (link_set_timer TIMER_ASYNC_SHUTDOWN n (Cb_shutdown k) (lk\<lparr>lk_status := GRACEFUL_SHUTTING_DOWN\<rparr>))"
    for n k
    by (rule good_view [OF s]) (use s in \<open>auto simp: good_def intro: inv_set_timer\<close>)
  then show ?thesis using g s by (auto simp: graceful_shutdown_in_def Let_def intro: good_shutdown)
qed

lemma good_dispatch: "good role lk \<Longrightarrow> good role (dispatch_task in_strand task role env lk)"
proof -
  assume g: "good role lk"
  have "good role (lk\<lparr>lk_tasks := ts\<rparr>)" for ts
    by (rule good_view [OF g]) (use g in \<open>simp_all add: good_def inv_fields\<close>)
  then show ?thesis using g by (cases task) (auto simp: dispatch_task_def force_shutdown_in_def intro: good_shutdown good_graceful_in)
qed

lemma good_reconnect_flag: "good role lk \<Longrightarrow> good role (lk\<lparr>lk_need_reconnect := b\<rparr>)"
  by (rule good_view) (simp_all add: good_def inv_fields)

lemma good_force: "good role lk \<Longrightarrow> good role (force_shutdown in_strand reconnect role env lk)"
  by (cases role) (auto simp: force_shutdown_defs Let_def intro!: good_dispatch good_start good_reconnect_flag)

lemma good_graceful: "good role lk \<Longrightarrow> good role (graceful_shutdown in_strand reconnect role env lk)"
  by (cases role) (auto simp: graceful_shutdown_defs force_shutdown_defs Let_def intro!: good_dispatch good_start good_reconnect_flag)

lemma good_say: "good role lk \<Longrightarrow> e \<noteq> Started \<Longrightarrow> \<not> is_on_close e \<Longrightarrow> good role (say e lk)"
  by (rule good_view) (simp_all add: good_def inv_say)

text \<open>The handler of a wait of another timer; its wait is already gone.\<close>

lemma view_wait: "wt_id w \<noteq> TIMER_DELAY_CLOSE \<Longrightarrow> tm_waits (lk_timers lk) = ws1 @ w # ws2 \<Longrightarrow>
    dview (lk\<lparr>lk_timers := (lk_timers lk)\<lparr>tm_waits := ws1 @ ws2\<rparr>\<rparr>) = dview lk"
  by (simp add: dview_def timer_simps waits_of_def)

lemma inv_waits: "link_inv role (lk\<lparr>lk_timers := (lk_timers lk)\<lparr>tm_waits := ws\<rparr>\<rparr>) = link_inv role lk"
  by (simp add: link_inv_def starts_def closes_def closing_def link_timers)

lemma good_run_cb:
  assumes g: "good role lk" and t: "is_timer tid (lk_timers lk)" "cb_of tid (lk_timers lk) = Some cb" "tid \<noteq> TIMER_DELAY_CLOSE"
  shows "good role (snd (run_cb role env cb lk))"
proof (cases cb)
  case Cb_delay_close
  then show ?thesis using g t by (auto simp: good_def link_inv_def)
next
  case (Cb_shutdown n)
  have "good role (lk\<lparr>lk_timers := snd (change_timer_call_back TIMER_ASYNC_SHUTDOWN (Some (Cb_shutdown k)) (lk_timers lk))\<rparr>)" for k
    by (rule good_view [OF g]) (use g in \<open>auto simp: good_def link_inv_def starts_def closes_def closing_def link_timers split: if_splits\<close>)
  moreover have "good role (on_async_shutdown_error role env lk)"
    unfolding on_async_shutdown_error_def by (rule good_force, rule good_say [OF g]) simp_all
  ultimately show ?thesis using g Cb_shutdown by (simp add: shutdown_handler_def Let_def)
next
  case (Cb_connect first)
  then have "lk_started lk" using g t by (auto simp: good_def link_inv_def)
  then have "link_inv role (connect first env lk)" using g by (simp add: good_def inv_connect)
  then show ?thesis using Cb_connect good_view [OF g] by (simp add: connect_def)
next
  case Cb_connect_delay
  have "link_inv role (prepare_next_reconnect env lk)" using g by (simp add: good_def inv_reconnect)
  moreover have "dview (prepare_next_reconnect env lk) = dview lk"
    by (simp add: prepare_next_reconnect_def Let_def dispatch_later)
  ultimately show ?thesis using Cb_connect_delay g good_view [OF g] by simp
qed (use g in simp)

lemma good_restart:
  assumes "good role lk" "tid \<noteq> TIMER_DELAY_CLOSE"
  shows "is_timer tid (lk_timers lk) \<Longrightarrow> good role (lk\<lparr>lk_timers := snd (start_timer tid (lk_timers lk))\<rparr>)"
    and "good role (lk\<lparr>lk_timers := upd_timer tid (\<lambda>ti. ti\<lparr>ti_status := TIMER_CANCELED\<rparr>) (lk_timers lk)\<rparr>)"
proof -
  assume t: "is_timer tid (lk_timers lk)"
  have "dview (lk\<lparr>lk_timers := snd (start_timer tid (lk_timers lk))\<rparr>) = dview lk"
    using assms(2) by (cases "find_timer tid (lk_timers lk)")
      (auto simp: dview_def find_timer_start start_timer_def Let_def waits_of_def waits_of_cancel timer_simps)
  moreover have "link_inv role (lk\<lparr>lk_timers := snd (start_timer tid (lk_timers lk))\<rparr>)"
    using assms t by (auto simp: good_def link_inv_def starts_def closes_def closing_def start_obs)
  ultimately show "good role (lk\<lparr>lk_timers := snd (start_timer tid (lk_timers lk))\<rparr>)" using good_view [OF assms(1)] by blast
next
  have "dview (lk\<lparr>lk_timers := upd_timer tid (\<lambda>ti. ti\<lparr>ti_status := TIMER_CANCELED\<rparr>) (lk_timers lk)\<rparr>) = dview lk"
    using assms(2) by (simp add: dview_def timer_simps waits_of_def)
  moreover have "link_inv role (lk\<lparr>lk_timers := upd_timer tid (\<lambda>ti. ti\<lparr>ti_status := TIMER_CANCELED\<rparr>) (lk_timers lk)\<rparr>)"
    using assms by (auto simp: good_def link_inv_def starts_def closes_def closing_def cancel_obs)
  ultimately show "good role (lk\<lparr>lk_timers := upd_timer tid (\<lambda>ti. ti\<lparr>ti_status := TIMER_CANCELED\<rparr>) (lk_timers lk)\<rparr>)"
    using good_view [OF assms(1)] by blast
qed

lemma good_wait_other:
  assumes g: "good role lk" and t: "tid \<noteq> TIMER_DELAY_CLOSE"
  shows "good role (link_wait_handler role env ec tid seq lk)"
proof (cases "find_timer tid (lk_timers lk)")
  case None
  then show ?thesis using g by (simp add: link_wait_handler_def)
next
  case (Some ti)
  obtain ret lk1 where r: "(case ti_call_back ti of
                 Some cb \<Rightarrow> if ti_status ti = TIMER_STARTED \<and> \<not> ec then run_cb role env cb lk else (False, lk)
               | None \<Rightarrow> (False, lk)) = (ret, lk1)" by fastforce
  have g1: "good role lk1"
  proof (cases "ti_call_back ti")
    case None
    then show ?thesis using r g by simp
  next
    case cb: (Some cb)
    have "ti_status ti = TIMER_STARTED \<Longrightarrow> good role (snd (run_cb role env cb lk))"
      by (rule good_run_cb [OF g _ _ t]) (use Some cb in \<open>simp_all add: is_timer_def cb_of_def\<close>)
    then show ?thesis using r g cb by (cases "ti_status ti = TIMER_STARTED \<and> \<not> ec") auto
  qed
  then show ?thesis using Some r good_restart [OF g1 t] by (simp add: link_wait_handler_def Let_def)
qed

text \<open>The handler of the closing timer: its only wait is gone.\<close>

lemma good_wait_close:
  assumes inv: "link_inv role lk" and cl: "closing lk" "waits_of TIMER_DELAY_CLOSE (lk_timers lk) = []"
    and cb: "cb_of TIMER_DELAY_CLOSE (lk_timers lk) = Some Cb_delay_close"
  shows "good role (link_wait_handler role env False TIMER_DELAY_CLOSE seq lk)"
proof -
  obtain ti where ti: "find_timer TIMER_DELAY_CLOSE (lk_timers lk) = Some ti" "ti_status ti = TIMER_STARTED" "ti_call_back ti = Some Cb_delay_close"
    using cl cb by (auto simp: closing_def is_timer_def cb_of_def split: option.splits)
  have ti': "is_timer TIMER_DELAY_CLOSE (lk_timers lk)" using ti by (simp add: is_timer_def)
  show ?thesis
  proof (cases "is_last_async_call lk")
    case False
    define t1 where "t1 = stop_all_timer_except TIMER_DELAY_CLOSE (lk_timers lk)"
    have v: "waits_of TIMER_DELAY_CLOSE t1 = []" "find_timer TIMER_DELAY_CLOSE t1 = Some ti" "is_timer TIMER_DELAY_CLOSE t1"
      using view_stop_all(2) [of lk] cl ti by (auto simp: dview_def t1_def closing_def link_timers)
    have h: "link_wait_handler role env False TIMER_DELAY_CLOSE seq lk = lk\<lparr>lk_timers := snd (start_timer TIMER_DELAY_CLOSE t1)\<rparr>"
      using ti False v(3) by (simp add: link_wait_handler_def delay_close_handler_def t1_def)
    have "link_inv role (lk\<lparr>lk_timers := snd (start_timer TIMER_DELAY_CLOSE t1)\<rparr>)"
      using inv cl v(3) by (auto simp: link_inv_def starts_def closes_def closing_def start_obs t1_def link_timers)
    moreover have "close_wait (lk\<lparr>lk_timers := snd (start_timer TIMER_DELAY_CLOSE t1)\<rparr>)"
      using v ti waits_of_start [OF v(2), of TIMER_DELAY_CLOSE]
      by (simp add: close_wait_def closing_def start_obs find_timer_start cb_of_def cancel_waits_def is_timer_def)
    ultimately show ?thesis unfolding h by (simp add: good_def)
  next
    case True
    obtain lk1 where d: "delay_close_handler role env lk = (False, lk1)" using True by (simp add: delay_close_handler_def Let_def)
    have i1: "link_inv role lk1" using inv_delay_close [OF inv cl(1), of env] d by simp
    have w1: "waits_of TIMER_DELAY_CLOSE (lk_timers lk1) = []" "\<not> closing lk1"
    proof -
      define lk2 where "lk2 = (let lk1 = on_close role (lk\<lparr>lk_open := False\<rparr>)
        in lk1\<lparr>lk_timers := snd (change_timer_status TIMER_DELAY_CLOSE TIMER_CANCELED (lk_timers lk1))\<rparr>)"
      have oc: "dview (on_close role (lk\<lparr>lk_open := False\<rparr>)) = dview lk" by simp
      have "waits_of TIMER_DELAY_CLOSE (lk_timers lk2) = []"
        using oc cl(2) by (simp add: lk2_def Let_def dview_def change_timer_status_def waits_of_def timer_simps)
      moreover have "\<not> closing lk2" by (simp add: lk2_def Let_def closing_def link_timers)
      moreover have "dview lk1 = dview lk2" using True d by (auto simp: delay_close_handler_def Let_def lk2_def)
      ultimately show "waits_of TIMER_DELAY_CLOSE (lk_timers lk1) = []" "\<not> closing lk1"
        by (auto simp: dview_def closing_def is_timer_def)
    qed
    have "link_inv role (lk1\<lparr>lk_timers := upd_timer TIMER_DELAY_CLOSE (\<lambda>ti. ti\<lparr>ti_status := TIMER_CANCELED\<rparr>) (lk_timers lk1)\<rparr>)"
      using i1 w1(2) by (auto simp: link_inv_def starts_def closes_def closing_def cancel_obs)
    then have "good role (lk1\<lparr>lk_timers := upd_timer TIMER_DELAY_CLOSE (\<lambda>ti. ti\<lparr>ti_status := TIMER_CANCELED\<rparr>) (lk_timers lk1)\<rparr>)"
      using w1 by (auto simp: good_def close_wait_def closing_def cancel_obs waits_of_def timer_simps)
    moreover have "good role lk1" using i1 w1 by (simp add: good_def close_wait_def)
    ultimately show ?thesis using ti d by (simp add: link_wait_handler_def Let_def)
  qed
qed

lemma good_link_step: "link_step role lk lk' \<Longrightarrow> good role lk \<Longrightarrow> good role lk'"
proof (induction rule: link_step.induct)
  case (user_start lk env)
  then show ?case by (simp add: good_start)
next
  case (user_timer lk tid interval ret)
  then show ?case by (intro good_view [OF user_timer(3)] inv_set_timer) (auto simp: good_def)
next
  case (run_task lk task tasks env)
  have "good role (lk\<lparr>lk_tasks := tasks\<rparr>)"
    by (rule good_view [OF run_task(2)]) (use run_task in \<open>simp_all add: good_def inv_fields\<close>)
  then show ?case by (rule good_dispatch)
next
  case (issue_call lk)
  then show ?case by (intro good_view [OF issue_call(2)]) (simp_all add: good_def inv_fields)
next
  case (call_done lk)
  then show ?case by (intro good_view [OF call_done(2)]) (simp_all add: good_def inv_fields)
next
  case (recv_error lk env)
  have "good role (lk\<lparr>lk_calls := lk_calls lk - 1\<rparr>)"
    by (rule good_view [OF recv_error(2)]) (use recv_error in \<open>simp_all add: good_def inv_fields\<close>)
  then show ?case by (simp add: on_recv_error_def good_force)
next
  case (connected lk ec)
  have "dview (connect_handler ec lk) = dview lk" by (simp add: connect_handler_def tcp_do_start_def Let_def)
  then show ?case using connected by (intro good_view [OF connected(2)]) (auto simp: good_def intro: inv_connect_handler)
next
  case (expire lk ws1 w ws2)
  let ?lk = "lk\<lparr>lk_timers := (lk_timers lk)\<lparr>tm_waits := ws1 @ w\<lparr>wt_state := Queued False\<rparr> # ws2\<rparr>\<rparr>"
  have "close_wait ?lk"
    using expire by (auto simp: good_def close_wait_def closing_def waits_of_def link_timers timer_simps Cons_eq_append_conv
        append_eq_Cons_conv split: if_splits)
  then show ?case using expire by (simp add: good_def inv_waits)
next
  case (timer_done lk ws1 w ws2 ec env)
  let ?lk = "lk\<lparr>lk_timers := (lk_timers lk)\<lparr>tm_waits := ws1 @ ws2\<rparr>\<rparr>"
  have inv: "link_inv role ?lk" using timer_done(3) by (simp add: good_def inv_waits)
  show ?case
  proof (cases "wt_id w = TIMER_DELAY_CLOSE")
    case False
    have "good role ?lk" by (rule good_view [OF timer_done(3) inv view_wait]) (use False timer_done in simp_all)
    then show ?thesis by (rule good_wait_other [OF _ False])
  next
    case True
    have "w \<in> set (waits_of TIMER_DELAY_CLOSE (lk_timers lk))" using True timer_done(1) by (simp add: waits_of_def)
    then have c: "closing lk" "waits_of TIMER_DELAY_CLOSE (lk_timers lk) = [w]" "ec = False"
      "cb_of TIMER_DELAY_CLOSE (lk_timers lk) = Some Cb_delay_close"
      using timer_done(2,3) by (auto simp: good_def close_wait_def split: if_splits)
    have "waits_of TIMER_DELAY_CLOSE (lk_timers ?lk) = []"
      using c(2) timer_done(1) True by (auto simp: waits_of_def append_eq_Cons_conv)
    then show ?thesis unfolding True c(3)
      by (intro good_wait_close inv) (use c in \<open>simp_all add: closing_def link_timers\<close>)
  qed
next
  case (stop lk)
  then show ?case by (intro good_view [OF stop]) (simp_all add: good_def inv_fields)
qed (auto intro: good_force good_graceful good_reconnect_flag)

lemma good_new: "good role (link_new role)"
  by (simp add: good_def link_inv_def close_wait_def link_new_def starts_def closes_def closing_def is_timer_def cb_of_def
      find_timer_def tm_new_def waits_of_def)

interpretation lk: step_invariant "\<lambda>lk. lk = link_new role" "link_step role" "good role" for role
  by unfold_locales (auto simp: good_new good_link_step)

section \<open>Properties\<close>

text \<open>C38. Every start of a link is answered by exactly one \<open>on_close\<close>, after it was shut down; \<open>on_close\<close> comes
  when no other asynchronous call of the link is outstanding (unless the io_context was stopped); a link that is
  neither started nor closing is broken; and a server's link that reports \<open>obsoleted\<close>, so that the pool may reuse
  or free it, was closed as often as started and has nothing outstanding.\<close>

theorem one_on_close_per_start:
  assumes "reach (\<lambda>lk. lk = link_new role) (link_step role) lk"
  shows "starts lk = closes lk + of_bool (lk_started lk \<or> closing lk) \<and> \<not> (lk_started lk \<and> closing lk) \<and>
    (\<forall>st n. On_close st n \<in> set (lk_log lk) \<longrightarrow> st \<or> n = 0) \<and>
    (lk_stopped lk \<or> lk_started lk \<or> closing lk \<or> is_broken lk) \<and>
    (role = Server \<and> obsoleted role lk \<longrightarrow> starts lk = closes lk \<and> tm_waits (lk_timers lk) = [] \<and> lk_calls lk = 0)"
proof -
  have "link_inv role lk" using lk.reachable_inv [OF assms] by (simp add: good_def)
  then show ?thesis
    by (auto simp: link_inv_def is_broken_def obsoleted_def is_async_calling_def async_calls_def)
qed

lemma closes_start: "closes (link_start role env lk) = closes lk"
  by (simp add: link_start_def do_start_def tcp_do_start_def link_set_timer_def closes_def say_def)

lemma closes_after: "closes (after_close role env lk) = closes lk"
proof -
  have "closes (say After_close lk) = closes lk" by (simp add: say_def closes_def)
  then show ?thesis by (simp add: after_close_def Let_def closes_start)
qed

lemma closing_view: "dview lk = dview lk' \<Longrightarrow> closing lk = closing lk'"
  by (simp add: dview_def closing_def is_timer_def)

text \<open>What the last call of the closing timer does.\<close>

lemma delay_close_last:
  assumes "async_calls lk = 0"
  shows "fst (delay_close_handler role env lk) = False \<and> closes (snd (delay_close_handler role env lk)) = closes lk + 1 \<and>
    \<not> closing (snd (delay_close_handler role env lk)) \<and>
    (role = Server \<longrightarrow> lk_obsoleted (snd (delay_close_handler role env lk)) \<and>
       async_calls (snd (delay_close_handler role env lk)) = 0 \<and> is_broken (snd (delay_close_handler role env lk)))"
proof -
  define lk2 where "lk2 = (let lk1 = on_close role (lk\<lparr>lk_open := False\<rparr>)
    in lk1\<lparr>lk_timers := snd (change_timer_status TIMER_DELAY_CLOSE TIMER_CANCELED (lk_timers lk1))\<rparr>)"
  have h: "delay_close_handler role env lk = (False, (after_close role env lk2)\<lparr>lk_obsoleted := True\<rparr>)"
    using assms by (simp add: delay_close_handler_def is_last_async_call_def lk2_def Let_def)
  have c2: "closes lk2 = closes lk + 1" "\<not> closing lk2" "lk_status lk2 = BROKEN"
    by (simp_all add: lk2_def Let_def on_close_defs say_def closes_def closing_def link_timers)
  have a2: "async_calls lk2 = 0"
    using assms by (auto simp: lk2_def Let_def on_close_defs say_def async_calls_def link_timers change_timer_status_def timer_simps)
  have "closes ((after_close role env lk2)\<lparr>lk_obsoleted := True\<rparr>) = closes lk + 1"
    using closes_after [of role env lk2] c2(1) by (simp add: closes_def)
  moreover have "\<not> closing ((after_close role env lk2)\<lparr>lk_obsoleted := True\<rparr>)"
    using closing_view [of "(after_close role env lk2)\<lparr>lk_obsoleted := True\<rparr>" lk2] c2(2) by simp
  moreover have "after_close Server env lk2 = say After_close lk2" by (simp add: after_close_def)
  ultimately show ?thesis unfolding h using a2 c2(3) by (auto simp: say_def async_calls_def is_broken_def)
qed

text \<open>C39. While a link is closing, one expiry of \<open>TIMER_DELAY_CLOSE\<close> is always due. When it comes and nothing else is
  outstanding, \<open>on_close\<close> is called and a server's link becomes obsolete; otherwise all other timers are stopped and
  the expiry comes again.\<close>

theorem closing_link_closes:
  assumes "reach (\<lambda>lk. lk = link_new role) (link_step role) lk" "closing lk"
  shows "\<exists>ws1 w ws2. tm_waits (lk_timers lk) = ws1 @ w # ws2 \<and> wt_id w = TIMER_DELAY_CLOSE \<and> wt_state w \<noteq> Queued True \<and>
    (let lk0 = lk\<lparr>lk_timers := (lk_timers lk)\<lparr>tm_waits := ws1 @ ws2\<rparr>\<rparr>;
         lk' = link_wait_handler role env False TIMER_DELAY_CLOSE (wt_prev_seq w) lk0
     in if async_calls lk0 = 0
        then closes lk' = closes lk + 1 \<and> \<not> closing lk' \<and> (role = Server \<longrightarrow> obsoleted role lk' \<and> is_broken lk')
        else closes lk' = closes lk \<and> closing lk' \<and> (\<forall>tid. is_timer tid (lk_timers lk') \<longrightarrow> tid = TIMER_DELAY_CLOSE))"
proof -
  have g: "good role lk" using lk.reachable_inv [OF assms(1)] .
  then obtain w where w: "waits_of TIMER_DELAY_CLOSE (lk_timers lk) = [w]" "wt_state w \<noteq> Queued True"
    "cb_of TIMER_DELAY_CLOSE (lk_timers lk) = Some Cb_delay_close"
    using assms(2) by (auto simp: good_def close_wait_def)
  have "w \<in> set (waits_of TIMER_DELAY_CLOSE (lk_timers lk))" unfolding w(1) by simp
  then have "w \<in> set (tm_waits (lk_timers lk)) \<and> wt_id w = TIMER_DELAY_CLOSE" by (simp add: waits_of_def)
  then obtain ws1 ws2 where ws: "tm_waits (lk_timers lk) = ws1 @ w # ws2" "wt_id w = TIMER_DELAY_CLOSE"
    by (meson split_list)
  define lk0 where "lk0 = lk\<lparr>lk_timers := (lk_timers lk)\<lparr>tm_waits := ws1 @ ws2\<rparr>\<rparr>"
  define lk' where "lk' = link_wait_handler role env False TIMER_DELAY_CLOSE (wt_prev_seq w) lk0"
  have cl0: "closing lk0" "\<not> lk_started lk0" "closes lk0 = closes lk"
    using assms(2) g by (auto simp: lk0_def closing_def link_timers good_def link_inv_def closes_def)
  have w0: "waits_of TIMER_DELAY_CLOSE (lk_timers lk0) = []"
    using w(1) ws by (auto simp: lk0_def waits_of_def append_eq_Cons_conv)
  obtain ti where ti: "find_timer TIMER_DELAY_CLOSE (lk_timers lk0) = Some ti" "ti_status ti = TIMER_STARTED" "ti_call_back ti = Some Cb_delay_close"
    using cl0(1) w(3) by (auto simp: lk0_def closing_def is_timer_def cb_of_def timer_simps split: option.splits)
  have "if async_calls lk0 = 0
        then closes lk' = closes lk + 1 \<and> \<not> closing lk' \<and> (role = Server \<longrightarrow> obsoleted role lk' \<and> is_broken lk')
        else closes lk' = closes lk \<and> closing lk' \<and> (\<forall>tid. is_timer tid (lk_timers lk') \<longrightarrow> tid = TIMER_DELAY_CLOSE)"
  proof (cases "async_calls lk0 = 0")
    case False
    then have "\<not> is_last_async_call lk0" by (simp add: is_last_async_call_def)
    then show ?thesis using False ti cl0
      by (auto simp: lk'_def link_wait_handler_def delay_close_handler_def closing_def link_timers start_obs closes_def)
  next
    case True
    obtain ret lk1 where d: "delay_close_handler role env lk0 = (ret, lk1)" by fastforce
    have l1: "\<not> ret" "closes lk1 = closes lk0 + 1" "\<not> closing lk1" "role = Server \<longrightarrow> lk_obsoleted lk1 \<and> async_calls lk1 = 0 \<and> is_broken lk1"
      using delay_close_last [OF True, of role env] d by auto
    show ?thesis using l1 True ti d cl0(3)
      by (auto simp: lk'_def link_wait_handler_def Let_def closing_def cancel_obs closes_def obsoleted_def is_async_calling_def
          async_calls_def is_broken_def timer_simps split: if_splits)
  qed
  then show ?thesis using ws w(2) unfolding lk0_def lk'_def Let_def by blast
qed

text \<open>A server's link that was started and shut down while a read was outstanding, up to the closing timer.\<close>

definition demo_env :: link_env where
  "demo_env = \<lparr>ev_bind = True, ev_delay = 500, ev_shutdown_ec = False\<rparr>"

definition demo_started :: link where
  "demo_started = link_start Server demo_env (link_new Server)"

definition demo_closing :: link where
  "demo_closing = on_recv_error Server demo_env (demo_started\<lparr>lk_calls := lk_calls demo_started - 1\<rparr>)"

lemma demo_started_reach: "reach (\<lambda>lk. lk = link_new Server) (link_step Server) demo_started"
proof (rule reach_step)
  show "reach (\<lambda>lk. lk = link_new Server) (link_step Server) (link_new Server)" by (rule reach_init) simp
  show "link_step Server (link_new Server) demo_started"
    unfolding demo_started_def by (rule user_start) (simp add: link_new_def)
qed

lemma demo_closing_reach: "reach (\<lambda>lk. lk = link_new Server) (link_step Server) demo_closing"
proof (rule reach_step [OF demo_started_reach])
  show "link_step Server demo_started demo_closing"
    unfolding demo_closing_def
    by (rule recv_error)
      (simp add: demo_started_def link_start_def link_new_def is_timer_def find_timer_def tm_new_def do_start_def tcp_do_start_def say_def)
qed

lemma demo_closing_closes: "closing demo_closing" "starts demo_closing = 1"
  by (simp_all add: demo_closing_def demo_started_def link_start_def link_new_def is_timer_def find_timer_def tm_new_def
      do_start_def tcp_do_start_def say_def on_recv_error_def force_shutdown_defs dispatch_task_def force_shutdown_in_def
      shutdown_def is_broken_def link_close_def closing_def link_set_timer_def stop_all_timer_def starts_def Let_def
      set_timer_def create_or_update_timer_def start_timer_def upd_timer_def ti_new_def)

theorem one_on_close_per_start_witness:
  "closes demo_closing = 0 \<and> \<not> lk_started demo_closing"
  using one_on_close_per_start [OF demo_closing_reach] demo_closing_closes by auto

theorem closing_link_closes_witness:
  "\<exists>ws1 w ws2. tm_waits (lk_timers demo_closing) = ws1 @ w # ws2 \<and> wt_state w \<noteq> Queued True"
  using closing_link_closes [OF demo_closing_reach demo_closing_closes(1), of demo_env] by blast

subsection \<open>Graceful shutdown\<close>

text \<open>One expiry of \<open>TIMER_ASYNC_SHUTDOWN\<close> with nothing else happening.\<close>

definition shutdown_tick :: "role \<Rightarrow> link_env \<Rightarrow> link \<Rightarrow> link" where
  "shutdown_tick role env lk =
     (case find_timer TIMER_ASYNC_SHUTDOWN (lk_timers lk) of None \<Rightarrow> lk
      | Some ti \<Rightarrow> link_wait_handler role env False TIMER_ASYNC_SHUTDOWN (ti_seq ti)
          (lk\<lparr>lk_timers := (lk_timers lk)\<lparr>tm_waits := filter (\<lambda>w. wt_id w \<noteq> TIMER_ASYNC_SHUTDOWN) (tm_waits (lk_timers lk))\<rparr>\<rparr>))"

definition graceful_state :: "nat \<Rightarrow> link \<Rightarrow> bool" where
  "graceful_state n lk \<longleftrightarrow> lk_status lk = GRACEFUL_SHUTTING_DOWN \<and> is_timer TIMER_ASYNC_SHUTDOWN (lk_timers lk) \<and>
     cb_of TIMER_ASYNC_SHUTDOWN (lk_timers lk) = Some (Cb_shutdown n)"

lemma find_waits_upd [simp]: "find_timer i (t\<lparr>tm_waits := ws\<rparr>) = find_timer i t"
  by (simp add: find_timer_def)

lemma shutdown_tick_step:
  assumes "graceful_state n lk" "1 < n" "n \<le> SIZE_MAX"
  shows "graceful_state (n - 1) (shutdown_tick role env lk) \<and> lk_log (shutdown_tick role env lk) = lk_log lk \<and>
    lk_tasks (shutdown_tick role env lk) = lk_tasks lk"
proof -
  obtain ti where ti: "find_timer TIMER_ASYNC_SHUTDOWN (lk_timers lk) = Some ti" "ti_status ti = TIMER_STARTED" "ti_call_back ti = Some (Cb_shutdown n)"
    using assms(1) by (auto simp: graceful_state_def is_timer_def cb_of_def split: option.splits)
  have "size_sub n 1 = n - 1" using assms by (simp add: size_sub_exact)
  then show ?thesis using ti assms
    by (simp add: shutdown_tick_def link_wait_handler_def shutdown_handler_def Let_def graceful_state_def link_timers
        start_obs is_timer_def find_timer_start cb_of_def change_timer_call_back_def timer_simps)
qed

lemma shutdown_tick_last:
  assumes "graceful_state 1 lk"
  shows "\<not> is_timer TIMER_ASYNC_SHUTDOWN (lk_timers (shutdown_tick role env lk)) \<and>
    lk_log (shutdown_tick role env lk) = lk_log lk @ [On_async_shutdown_error] \<and>
    lk_tasks (shutdown_tick role env lk) = lk_tasks lk @ [Task_force_shutdown]"
proof -
  obtain ti where ti: "find_timer TIMER_ASYNC_SHUTDOWN (lk_timers lk) = Some ti" "ti_status ti = TIMER_STARTED" "ti_call_back ti = Some (Cb_shutdown 1)"
    using assms(1) by (auto simp: graceful_state_def is_timer_def cb_of_def split: option.splits)
  show ?thesis using ti assms
    by (cases role)
      (simp_all add: shutdown_tick_def link_wait_handler_def shutdown_handler_def Let_def graceful_state_def size_sub_exact
        on_async_shutdown_error_def force_shutdown_defs dispatch_later say_def is_broken_def cancel_obs SIZE_MAX_eq timer_simps)
qed

text \<open>A graceful shutdown that the peer does not answer ends: after \<open>loop_num\<close> expiries of 10 ms, 500 for the
  default of 5 seconds, and not before, \<open>on_async_shutdown_error\<close> is called, once, and the link is shut down by force.\<close>

theorem graceful_shutdown_ends:
  assumes "graceful_state n lk" "0 < n" "n \<le> SIZE_MAX"
  shows "(\<forall>k<n. graceful_state (n - k) ((shutdown_tick role env ^^ k) lk) \<and> lk_log ((shutdown_tick role env ^^ k) lk) = lk_log lk) \<and>
    \<not> is_timer TIMER_ASYNC_SHUTDOWN (lk_timers ((shutdown_tick role env ^^ n) lk)) \<and>
    lk_log ((shutdown_tick role env ^^ n) lk) = lk_log lk @ [On_async_shutdown_error] \<and>
    lk_tasks ((shutdown_tick role env ^^ n) lk) = lk_tasks lk @ [Task_force_shutdown]"
proof -
  have before: "graceful_state (n - k) ((shutdown_tick role env ^^ k) lk) \<and> lk_log ((shutdown_tick role env ^^ k) lk) = lk_log lk \<and>
      lk_tasks ((shutdown_tick role env ^^ k) lk) = lk_tasks lk" if "k < n" for k
    using that
  proof (induction k)
    case 0
    then show ?case using assms by simp
  next
    case (Suc k)
    have g: "graceful_state (n - k) ((shutdown_tick role env ^^ k) lk)" using Suc by simp
    show ?case using shutdown_tick_step [OF g, of role env] Suc assms(3) by simp
  qed
  obtain m where m: "n = Suc m" using assms(2) by (cases n) auto
  have "graceful_state 1 ((shutdown_tick role env ^^ m) lk)" using before [of m] m by simp
  from shutdown_tick_last [OF this, of role env] before [of m] show ?thesis using before m by simp
qed

lemma graceful_starts:
  assumes "\<not> is_broken lk" "\<not> is_shutting_down lk" "\<not> ev_shutdown_ec env"
  shows "graceful_state 500 (graceful_shutdown_in role env lk)"
  using assms by (simp add: graceful_shutdown_in_def GRACEFUL_SHUTDOWN_MAX_DURATION_def graceful_state_def link_set_timer_def link_timers Let_def)

theorem graceful_shutdown_ends_witness:
  "lk_tasks ((shutdown_tick Server demo_env ^^ 500) (graceful_shutdown_in Server demo_env demo_started)) = [Task_force_shutdown]"
proof -
  have "graceful_state 500 (graceful_shutdown_in Server demo_env demo_started)"
    by (rule graceful_starts)
      (simp_all add: demo_started_def link_start_def link_new_def is_timer_def find_timer_def tm_new_def do_start_def
        tcp_do_start_def say_def is_broken_def is_shutting_down_def demo_env_def)
  moreover have "lk_tasks (graceful_shutdown_in Server demo_env demo_started) = []"
    by (simp add: demo_started_def link_start_def link_new_def is_timer_def find_timer_def tm_new_def do_start_def
        tcp_do_start_def say_def is_broken_def is_shutting_down_def demo_env_def graceful_shutdown_in_def link_set_timer_def Let_def)
  ultimately show ?thesis
    using graceful_shutdown_ends [of 500 "graceful_shutdown_in Server demo_env demo_started" Server demo_env]
    by (simp add: SIZE_MAX_eq)
qed

subsection \<open>Reconnecting\<close>

text \<open>
  After a connection attempt failed, \<open>TIMER_CONNECT_DELAY\<close> and then \<open>TIMER_CONNECT\<close> lead to the next one. But when
  \<open>bind\<close> fails in it, nothing follows: the client stays started with no attempt, no timer and no error.
\<close>

lemma reconnect_cycle:
  assumes "lk_started lk" "lk_need_reconnect lk" "\<not> lk_stopped lk" "\<not> is_timer TIMER_CONNECT (lk_timers lk)" "0 \<le> ev_delay env"
    and "lk1 = connect_handler True lk" "lk2 = snd (run_cb Client env Cb_connect_delay lk1)"
  shows "is_timer TIMER_CONNECT_DELAY (lk_timers lk1)" "cb_of TIMER_CONNECT_DELAY (lk_timers lk1) = Some Cb_connect_delay"
    "is_timer TIMER_CONNECT (lk_timers lk2)" "cb_of TIMER_CONNECT (lk_timers lk2) = Some (Cb_connect False)"
    "ev_bind env \<Longrightarrow> lk_connecting (snd (run_cb Client env (Cb_connect False) lk2))"
    "\<not> ev_bind env \<Longrightarrow> run_cb Client env (Cb_connect False) lk2 = (False, lk2)"
  using assms by (auto simp: connect_handler_def link_set_timer_def link_timers prepare_next_reconnect_def connect_def Let_def)

end
