(* ===== verification/Udp.thy ===== *)
theory Udp
  imports Send_Path Msg_Dispatch Simple_Unpackers
begin

text \<open>
  The UDP socket (\<open>udp/socket.h\<close>) on top of what it shares with TCP (\<open>socket.h\<close>): the send buffer and the
  operations of the users are those of theory Send_Path, receiving and dispatching those of Msg_Dispatch. UDP
  sends one datagram at a time, each to the endpoint it carries or, on a connected socket, to the peer; a
  connected socket first asks \<open>check_send_cc\<close>, which the reliable socket overrides with its congestion
  control: when it says no, the \<open>sending\<close> flag stays set until \<open>TIMER_CC\<close> calls \<open>resume_sending\<close>. As
  in Send_Path the strand's handlers are cut into micro steps, because other threads run between them.
\<close>

section \<open>Endpoints\<close>

datatype ('e, 'm) udp_msg = Udp_msg (peer_addr: 'e) (body: 'm)

record 'a endpoint =
  ep_address :: 'a
  ep_port :: "16 word"

text \<open>
  \<open>make_address\<close> parses an IP address; \<open>any\<close> is the unspecified address of \<open>ASCS_UDP_DEFAULT_IP_VERSION\<close>.
  The result is whether the address was accepted and the endpoint.
\<close>

definition udp_set_addr ::
  "(string \<Rightarrow> 'a option) \<Rightarrow> 'a \<Rightarrow> 'a endpoint \<Rightarrow> 16 word \<Rightarrow> string \<Rightarrow> bool \<times> 'a endpoint" where
  "udp_set_addr make_address any endpoint port ip =
     (if ip = [] then (True, \<lparr>ep_address = any, ep_port = port\<rparr>)
      else case make_address ip of
             None \<Rightarrow> (False, endpoint)
           | Some addr \<Rightarrow> (True, \<lparr>ep_address = addr, ep_port = port\<rparr>))"

section \<open>State\<close>

datatype udp_pc =
    Udp_idle
  | Udp_test_empty bool
  | Udp_test_and_set
  | Udp_check_cc bool
  | Udp_dequeue bool
  | Udp_clear bool
  | Udp_clear_failed
  | Udp_recheck
  | Udp_test_send_msg

text \<open>Where a datagram goes: \<open>async_send_to\<close>, \<open>async_send\<close>, or the subclass's own \<open>do_send_msg\<close>.\<close>

datatype 'e route = To_peer 'e | Connected_send | Customized

text \<open>
  \<open>us_snd\<close> is the part shared with TCP; its \<open>sd_msgs\<close> is \<open>sending_msg\<close> (empty or one message), \<open>sd_ready\<close> is
  \<open>is_bound\<close>; its program counter is not used. \<open>us_blocked\<close>: the flag was left set by the congestion control;
  \<open>us_cc\<close>: \<open>TIMER_CC\<close> is started; \<open>us_resumes\<close>: the timer's call back has cleared the flag and is about to
  look at the send buffer.
\<close>

record ('a, 'm) udp_sock =
  us_snd :: "('a endpoint, 'm) udp_msg sender"
  us_pc :: udp_pc
  us_route :: "'a endpoint route option"
  us_blocked :: bool
  us_cc :: bool
  us_resumes :: nat
  us_open :: bool
  us_started :: bool
  us_connected :: bool
  us_connect_mode :: bool
  us_local :: "'a endpoint"
  us_peer :: "'a endpoint"

definition us_new :: "bool \<Rightarrow> 'a endpoint \<Rightarrow> ('a, 'm) udp_sock" where
  "us_new connect_mode addr =
     \<lparr>us_snd = sd_new, us_pc = Udp_idle, us_route = None, us_blocked = False, us_cc = False, us_resumes = 0,
      us_open = False, us_started = False, us_connected = False, us_connect_mode = connect_mode,
      us_local = addr, us_peer = addr\<rparr>"

abbreviation us_queue :: "('a, 'm) udp_sock \<Rightarrow> ('a endpoint, 'm) udp_msg list" where
  "us_queue s \<equiv> q_items (sd_buffer (us_snd s))"

definition us_upd ::
  "(('a endpoint, 'm) udp_msg sender \<Rightarrow> ('a endpoint, 'm) udp_msg sender) \<Rightarrow> ('a, 'm) udp_sock \<Rightarrow> ('a, 'm) udp_sock" where
  "us_upd f s = s\<lparr>us_snd := f (us_snd s)\<rparr>"

definition set_local_addr ::
  "(string \<Rightarrow> 'a option) \<Rightarrow> 'a \<Rightarrow> 16 word \<Rightarrow> string \<Rightarrow> ('a, 'm) udp_sock \<Rightarrow> bool \<times> ('a, 'm) udp_sock" where
  "set_local_addr make_address any port ip s =
     (let (re, ep) = udp_set_addr make_address any (us_local s) port ip in (re, s\<lparr>us_local := ep\<rparr>))"

definition set_peer_addr ::
  "(string \<Rightarrow> 'a option) \<Rightarrow> 'a \<Rightarrow> 16 word \<Rightarrow> string \<Rightarrow> ('a, 'm) udp_sock \<Rightarrow> bool \<times> ('a, 'm) udp_sock" where
  "set_peer_addr make_address any port ip s =
     (let (re, ep) = udp_set_addr make_address any (us_peer s) port ip in (re, s\<lparr>us_peer := ep\<rparr>))"

section \<open>Starting and closing\<close>

text \<open>The answers of the system to \<open>open\<close>, \<open>bind\<close> and \<open>connect\<close>.\<close>

datatype bind_result = Bind_ok | Bind_invalid_argument | Bind_error

record udp_env =
  ue_open_ec :: bool
  ue_bind :: bind_result
  ue_connect_ec :: bool

definition udp_bind :: "('a \<Rightarrow> bool) \<Rightarrow> bind_result \<Rightarrow> 'a endpoint \<Rightarrow> bool" where
  "udp_bind is_unspecified result addr =
     (if ep_port addr \<noteq> 0 \<or> \<not> is_unspecified (ep_address addr)
      then result \<noteq> Bind_error else True)"

definition udp_connect :: "('a \<Rightarrow> bool) \<Rightarrow> bool \<Rightarrow> 'a endpoint \<Rightarrow> bool" where
  "udp_connect is_unspecified ec addr =
     (if ep_port addr \<noteq> 0 \<or> \<not> is_unspecified (ep_address addr) then \<not> ec else False)"

text \<open>\<open>do_start\<close>, with \<open>socket::do_start\<close> (\<open>sender_start\<close>) at its end.\<close>

definition udp_do_start :: "('a \<Rightarrow> bool) \<Rightarrow> udp_env \<Rightarrow> ('a, 'm) udp_sock \<Rightarrow> bool \<times> ('a, 'm) udp_sock" where
  "udp_do_start is_unspecified env s =
     (let unbound = us_upd (\<lambda>d. d\<lparr>sd_ready := False\<rparr>)
      in if \<not> us_open s \<and> ue_open_ec env then (False, unbound s)
         else
           let s1 = s\<lparr>us_open := True\<rparr>
           in if \<not> udp_bind is_unspecified (ue_bind env) (us_local s1) then (False, unbound s1)
              else
                let s2 = (if us_connect_mode s1
                          then s1\<lparr>us_connected := udp_connect is_unspecified (ue_connect_ec env) (us_peer s1)\<rparr> else s1)
                in (True, us_upd sender_start s2))"

definition udp_start :: "('a \<Rightarrow> bool) \<Rightarrow> udp_env \<Rightarrow> ('a, 'm) udp_sock \<Rightarrow> ('a, 'm) udp_sock" where
  "udp_start is_unspecified env s =
     (if \<not> us_started s then let (ok, s1) = udp_do_start is_unspecified env s in s1\<lparr>us_started := ok\<rparr> else s)"

text \<open>
  \<open>force_shutdown\<close> and its synonyms \<open>disconnect\<close> and \<open>graceful_shutdown\<close>: \<open>close(true)\<close> stops the timers
  and closes the socket. Neither it nor \<open>on_close\<close> touches \<open>is_bound\<close>, the flag or the send buffer.
\<close>

definition udp_force_shutdown :: "('a, 'm) udp_sock \<Rightarrow> ('a, 'm) udp_sock" where
  "udp_force_shutdown s = (if \<not> us_started s then s else s\<lparr>us_started := False, us_cc := False, us_open := False\<rparr>)"

definition udp_reset :: "('a, 'm) udp_sock \<Rightarrow> ('a, 'm) udp_sock" where
  "udp_reset s = us_upd sender_reset (s\<lparr>us_connected := False, us_cc := False, us_blocked := False\<rparr>)"

section \<open>Sending\<close>

text \<open>\<open>UDP_SEND_MSG\<close>: \<open>packed\<close> is what the packer made of the arrays, with the endpoint it is for.\<close>

definition udp_send_msg ::
  "('m \<Rightarrow> nat) \<Rightarrow> nat \<Rightarrow> bool \<Rightarrow> 'a endpoint \<Rightarrow> 'm \<Rightarrow> bool \<Rightarrow> bool \<Rightarrow> ('a, 'm) udp_sock \<Rightarrow> bool \<times> ('a, 'm) udp_sock" where
  "udp_send_msg sz send_buf_size alloc addr packed can_overflow prior s =
     (if \<not> can_overflow \<and> \<not> is_send_buffer_available send_buf_size (us_snd s) then (False, s)
      else let (re, d) = do_direct_send_msg (\<lambda>m. sz (body m)) alloc prior (Udp_msg addr packed) (us_snd s)
           in (re, s\<lparr>us_snd := d\<rparr>))"

definition udp_send_heartbeat :: "('m \<Rightarrow> nat) \<Rightarrow> bool \<Rightarrow> 'm \<Rightarrow> ('a, 'm) udp_sock \<Rightarrow> ('a, 'm) udp_sock" where
  "udp_send_heartbeat sz alloc packed s =
     us_upd (\<lambda>d. snd (do_direct_send_msg (\<lambda>m. sz (body m)) alloc False (Udp_msg (us_peer s) packed) d)) s"

text \<open>How the datagram goes out; \<open>custom\<close> is the answer of the virtual \<open>do_send_msg(sending_msg)\<close>.\<close>

definition udp_route :: "bool \<Rightarrow> ('a endpoint, 'm) udp_msg \<Rightarrow> ('a, 'm) udp_sock \<Rightarrow> 'a endpoint route" where
  "udp_route custom msg s =
     (if \<not> us_connected s then To_peer (peer_addr msg) else if custom then Customized else Connected_send)"

definition udp_issue :: "bool \<Rightarrow> ('a endpoint, 'm) udp_msg \<Rightarrow> ('a, 'm) udp_sock \<Rightarrow> ('a, 'm) udp_sock" where
  "udp_issue custom msg s =
     us_upd (\<lambda>d. d\<lparr>sd_msgs := [msg], sd_write := Some [msg]\<rparr>) (s\<lparr>us_route := Some (udp_route custom msg s)\<rparr>)"

text \<open>\<open>do_send_msg\<close> and \<open>send_handler\<close> without interference; \<open>cc\<close> is the answer of \<open>check_send_cc\<close>.\<close>

definition udp_set_sending :: "bool \<Rightarrow> ('a, 'm) udp_sock \<Rightarrow> ('a, 'm) udp_sock" where
  "udp_set_sending b s = us_upd (\<lambda>d. d\<lparr>sd_sending := b\<rparr>) s"

definition udp_do_send_msg ::
  "('m \<Rightarrow> nat) \<Rightarrow> bool \<Rightarrow> bool \<Rightarrow> bool \<Rightarrow> ('a, 'm) udp_sock \<Rightarrow> bool \<times> ('a, 'm) udp_sock" where
  "udp_do_send_msg sz cc custom in_strand s =
     (if q_empty (sd_buffer (us_snd s)) then (False, if in_strand then udp_set_sending False s else s)
      else if \<not> in_strand \<and> sd_sending (us_snd s) then (True, s)
      else
        let s1 = (if in_strand then s else udp_set_sending True s)
        in if us_connected s1 \<and> \<not> cc then (False, s1\<lparr>us_cc := True, us_blocked := True\<rparr>)
           else case try_dequeue (\<lambda>m. sz (body m)) (sd_buffer (us_snd s1)) of
                  (Some msg, q) \<Rightarrow> (True, udp_issue custom msg (us_upd (\<lambda>d. d\<lparr>sd_buffer := q\<rparr>) s1))
                | (None, q) \<Rightarrow> (False, udp_set_sending False s1))"

datatype send_ec = Send_ok | Send_error | Bad_descriptor

definition udp_written :: "('a, 'm) udp_sock \<Rightarrow> ('a, 'm) udp_sock" where
  "udp_written s = us_upd (\<lambda>d. d\<lparr>sd_write := None, sd_msgs := []\<rparr>) (s\<lparr>us_route := None\<rparr>)"

definition udp_send_handler :: "('m \<Rightarrow> nat) \<Rightarrow> bool \<Rightarrow> bool \<Rightarrow> send_ec \<Rightarrow> ('a, 'm) udp_sock \<Rightarrow> ('a, 'm) udp_sock" where
  "udp_send_handler sz cc custom ec s =
     (let s1 = udp_written s
      in if ec = Bad_descriptor then udp_set_sending False s1
         else
           let (sent, s2) = udp_do_send_msg sz cc custom True s1
           in if \<not> sent \<and> \<not> q_empty (sd_buffer (us_snd s2)) \<and> sd_ready (us_snd s2) \<and> \<not> sd_sending (us_snd s2)
              then snd (udp_do_send_msg sz cc custom False s2) else s2)"

text \<open>The same in micro steps.\<close>

definition udp_begin_task :: "('a, 'm) udp_sock \<Rightarrow> ('a, 'm) udp_sock" where
  "udp_begin_task s = us_upd (\<lambda>d. d\<lparr>sd_tasks := sd_tasks d - 1\<rparr>) (s\<lparr>us_pc := Udp_test_empty False\<rparr>)"

definition udp_begin_send_handler :: "send_ec \<Rightarrow> ('a, 'm) udp_sock \<Rightarrow> ('a, 'm) udp_sock" where
  "udp_begin_send_handler ec s =
     (udp_written s)\<lparr>us_pc := (if ec = Bad_descriptor then Udp_clear_failed else Udp_test_empty True)\<rparr>"

fun udp_micro :: "('m \<Rightarrow> nat) \<Rightarrow> bool \<Rightarrow> bool \<Rightarrow> udp_pc \<Rightarrow> ('a, 'm) udp_sock \<Rightarrow> ('a, 'm) udp_sock" where
  "udp_micro sz cc custom Udp_idle s = s"
| "udp_micro sz cc custom (Udp_test_empty in_strand) s =
     s\<lparr>us_pc := (if q_empty (sd_buffer (us_snd s)) then (if in_strand then Udp_clear True else Udp_idle)
                else if in_strand then Udp_check_cc True else Udp_test_and_set)\<rparr>"
| "udp_micro sz cc custom Udp_test_and_set s =
     (udp_set_sending True s)\<lparr>us_pc := (if sd_sending (us_snd s) then Udp_idle else Udp_check_cc False)\<rparr>"
| "udp_micro sz cc custom (Udp_check_cc in_strand) s =
     (if us_connected s \<and> \<not> cc
      then s\<lparr>us_cc := True, us_blocked := True, us_pc := (if in_strand then Udp_recheck else Udp_idle)\<rparr>
      else s\<lparr>us_pc := Udp_dequeue in_strand\<rparr>)"
| "udp_micro sz cc custom (Udp_dequeue in_strand) s =
     (case try_dequeue (\<lambda>m. sz (body m)) (sd_buffer (us_snd s)) of
        (Some msg, q) \<Rightarrow> (udp_issue custom msg (us_upd (\<lambda>d. d\<lparr>sd_buffer := q\<rparr>) s))\<lparr>us_pc := Udp_idle\<rparr>
      | (None, q) \<Rightarrow> s\<lparr>us_pc := Udp_clear in_strand\<rparr>)"
| "udp_micro sz cc custom (Udp_clear in_strand) s =
     (udp_set_sending False s)\<lparr>us_pc := (if in_strand then Udp_recheck else Udp_idle)\<rparr>"
| "udp_micro sz cc custom Udp_clear_failed s = (udp_set_sending False s)\<lparr>us_pc := Udp_idle\<rparr>"
| "udp_micro sz cc custom Udp_recheck s =
     s\<lparr>us_pc := (if q_empty (sd_buffer (us_snd s)) then Udp_idle else Udp_test_send_msg)\<rparr>"
| "udp_micro sz cc custom Udp_test_send_msg s =
     s\<lparr>us_pc := (if sd_ready (us_snd s) \<and> \<not> sd_sending (us_snd s) then Udp_test_empty False else Udp_idle)\<rparr>"

definition udp_strand_step :: "('m \<Rightarrow> nat) \<Rightarrow> bool \<Rightarrow> bool \<Rightarrow> ('a, 'm) udp_sock \<Rightarrow> ('a, 'm) udp_sock" where
  "udp_strand_step sz cc custom s = udp_micro sz cc custom (us_pc s) s"

text \<open>\<open>resume_sending\<close>: the flag is cleared, then the send buffer is looked at.\<close>

definition resume_clear :: "('a, 'm) udp_sock \<Rightarrow> ('a, 'm) udp_sock" where
  "resume_clear s = (udp_set_sending False s)\<lparr>us_blocked := False, us_cc := False, us_resumes := us_resumes s + 1\<rparr>"

definition resume_send :: "('a, 'm) udp_sock \<Rightarrow> ('a, 'm) udp_sock" where
  "resume_send s =
     (let s1 = s\<lparr>us_resumes := us_resumes s - 1\<rparr>
      in if \<not> q_empty (sd_buffer (us_snd s1)) then us_upd send_msg s1 else s1)"

lemmas udp_defs = us_upd_def udp_set_sending_def udp_issue_def udp_written_def udp_begin_task_def
  udp_begin_send_handler_def udp_strand_step_def resume_clear_def resume_send_def udp_force_shutdown_def udp_reset_def

section \<open>The micro steps are the handlers when nobody interferes\<close>

fun udp_strand_run :: "('m \<Rightarrow> nat) \<Rightarrow> bool \<Rightarrow> bool \<Rightarrow> nat \<Rightarrow> ('a, 'm) udp_sock \<Rightarrow> ('a, 'm) udp_sock" where
  "udp_strand_run sz cc custom 0 s = s"
| "udp_strand_run sz cc custom (Suc n) s = udp_strand_run sz cc custom n (udp_strand_step sz cc custom s)"

lemma udp_micro_do_send_msg:
  assumes "us_pc s = Udp_test_empty False"
  shows "\<exists>n. udp_strand_run sz cc custom n s = (snd (udp_do_send_msg sz cc custom False s))\<lparr>us_pc := Udp_idle\<rparr>"
proof -
  consider "us_queue s = []" | "us_queue s \<noteq> []" "sd_sending (us_snd s)"
    | "us_queue s \<noteq> []" "\<not> sd_sending (us_snd s)" "us_connected s \<and> \<not> cc"
    | m ms where "us_queue s = m # ms" "\<not> sd_sending (us_snd s)" "\<not> (us_connected s \<and> \<not> cc)"
    by (metis list.exhaust)
  then show ?thesis
  proof cases
    case 1
    then show ?thesis using assms
      by (intro exI [of _ 1]) (simp add: udp_defs udp_do_send_msg_def)
  next
    case 2
    then show ?thesis using assms
      by (intro exI [of _ 2]) (simp add: udp_defs udp_do_send_msg_def numeral_2_eq_2)
  next
    case 3
    then show ?thesis using assms
      by (intro exI [of _ 3]) (simp add: udp_defs udp_do_send_msg_def numeral_3_eq_3)
  next
    case 4
    then show ?thesis using assms
      by (intro exI [of _ 4]) (auto simp: udp_defs udp_do_send_msg_def eval_nat_numeral try_dequeue_def udp_route_def)
  qed
qed

lemma udp_micro_send_handler:
  assumes "sd_sending (us_snd s)"
  shows "\<exists>n. udp_strand_run sz cc custom n (udp_begin_send_handler ec s) = (udp_send_handler sz cc custom ec s)\<lparr>us_pc := Udp_idle\<rparr>"
proof -
  consider "ec = Bad_descriptor" | "ec \<noteq> Bad_descriptor" "us_queue s = []"
    | m ms where "ec \<noteq> Bad_descriptor" "us_queue s = m # ms" "us_connected s \<and> \<not> cc"
    | m ms where "ec \<noteq> Bad_descriptor" "us_queue s = m # ms" "\<not> (us_connected s \<and> \<not> cc)"
    by (metis list.exhaust)
  then show ?thesis
  proof cases
    case 1
    then show ?thesis
      by (intro exI [of _ 1]) (simp add: udp_defs udp_send_handler_def Let_def)
  next
    case 2
    then show ?thesis
      by (intro exI [of _ 3]) (simp add: udp_defs udp_do_send_msg_def udp_send_handler_def numeral_3_eq_3)
  next
    case 3
    then show ?thesis using assms
      by (intro exI [of _ 4]) (simp add: udp_defs udp_do_send_msg_def udp_send_handler_def eval_nat_numeral Let_def)
  next
    case 4
    then show ?thesis
      by (intro exI [of _ 3]) (auto simp: udp_defs udp_do_send_msg_def udp_send_handler_def eval_nat_numeral Let_def try_dequeue_def udp_route_def)
  qed
qed

section \<open>All interleavings\<close>

datatype ('e, 'm) udp_event =
    Uqueued "('e, 'm) udp_msg list"
  | Uqueued_front "('e, 'm) udp_msg list"
  | Uremoved "('e, 'm) udp_msg list"
  | Uissued "'e route" "('e, 'm) udp_msg"
  | Uwritten send_ec
  | Ublocked
  | Ustarted
  | Uclosed
  | Uinternal

text \<open>
  A step is one access of a user thread (the users are free to queue and take out messages), one micro
  step of the strand, the completion of a datagram with or without an error, a half of \<open>resume_sending\<close> in
  the timer's thread, or a start, close or reset of the socket. When the congestion control answers, and
  what, is open.
\<close>

inductive udp_step ::
  "('m \<Rightarrow> nat) \<Rightarrow> ('a \<Rightarrow> bool) \<Rightarrow> ('a, 'm) udp_sock \<Rightarrow> ('a endpoint, 'm) udp_event \<Rightarrow> ('a, 'm) udp_sock \<Rightarrow> bool"
  for sz :: "'m \<Rightarrow> nat" and uns :: "'a \<Rightarrow> bool" where
  queue: "snd (do_direct_send_msg (\<lambda>m. sz (body m)) alloc prior msg (us_snd s)) = d \<Longrightarrow>
    ev = (if sz (body msg) = 0 \<or> \<not> alloc then Uinternal else if prior then Uqueued_front [msg] else Uqueued [msg]) \<Longrightarrow>
    udp_step sz uns s ev (s\<lparr>us_snd := d\<rparr>)"
| pop_first: "pop_first_pending_send_msg (\<lambda>m. sz (body m)) (us_snd s) = (Some msg, d) \<Longrightarrow>
    udp_step sz uns s (Uremoved [msg]) (s\<lparr>us_snd := d\<rparr>)"
| pop_all: "pop_all_pending_send_msg (\<lambda>m. sz (body m)) (us_snd s) = (can, d) \<Longrightarrow>
    udp_step sz uns s (Uremoved can) (s\<lparr>us_snd := d\<rparr>)"
| check: "0 < sd_checks (us_snd s) \<Longrightarrow>
    udp_step sz uns s Uinternal (us_upd (\<lambda>d. send_msg (d\<lparr>sd_checks := sd_checks d - 1\<rparr>)) s)"
| popped: "0 < sd_pops (us_snd s) \<Longrightarrow>
    udp_step sz uns s Uinternal (us_upd (\<lambda>d. post_send_msg (d\<lparr>sd_pops := sd_pops d - 1\<rparr>)) s)"
| resume: "us_cc s \<Longrightarrow> udp_step sz uns s Uinternal (resume_clear s)"
| resumed: "0 < us_resumes s \<Longrightarrow> udp_step sz uns s Uinternal (resume_send s)"
| task: "us_pc s = Udp_idle \<Longrightarrow> 0 < sd_tasks (us_snd s) \<Longrightarrow> udp_step sz uns s Uinternal (udp_begin_task s)"
| micro: "us_pc s \<noteq> Udp_idle \<Longrightarrow> s' = udp_strand_step sz cc custom s \<Longrightarrow>
    ev = (case us_pc s of
            Udp_check_cc _ \<Rightarrow> if us_connected s \<and> \<not> cc then Ublocked else Uinternal
          | Udp_dequeue _ \<Rightarrow> (case us_queue s of [] \<Rightarrow> Uinternal | m # _ \<Rightarrow> Uissued (udp_route custom m s) m)
          | _ \<Rightarrow> Uinternal) \<Longrightarrow>
    udp_step sz uns s ev s'"
| complete: "us_pc s = Udp_idle \<Longrightarrow> sd_write (us_snd s) \<noteq> None \<Longrightarrow> (us_route s = Some Customized \<Longrightarrow> ec = Send_ok) \<Longrightarrow>
    udp_step sz uns s (Uwritten ec) (udp_begin_send_handler ec s)"
| start: "\<not> us_started s \<Longrightarrow> udp_step sz uns s Ustarted (udp_start uns env s)"
| close: "udp_step sz uns s Uclosed (udp_force_shutdown s)"
| reuse: "us_pc s = Udp_idle \<Longrightarrow> sd_write (us_snd s) = None \<Longrightarrow> \<not> us_started s \<Longrightarrow>
    udp_step sz uns s (Uremoved (us_queue s)) (udp_reset s)"

inductive udp_run ::
  "('m \<Rightarrow> nat) \<Rightarrow> ('a \<Rightarrow> bool) \<Rightarrow> ('a, 'm) udp_sock \<Rightarrow> ('a endpoint, 'm) udp_event list \<Rightarrow> ('a, 'm) udp_sock \<Rightarrow> bool"
  for sz :: "'m \<Rightarrow> nat" and uns :: "'a \<Rightarrow> bool" and s0 :: "('a, 'm) udp_sock" where
  udp_nil: "udp_run sz uns s0 [] s0"
| udp_snoc: "udp_run sz uns s0 evs s \<Longrightarrow> udp_step sz uns s ev s' \<Longrightarrow> udp_run sz uns s0 (evs @ [ev]) s'"

section \<open>Who holds the flag\<close>

definition udp_critical :: "udp_pc \<Rightarrow> bool" where
  "udp_critical pc \<longleftrightarrow>
     (case pc of Udp_test_empty in_strand \<Rightarrow> in_strand | Udp_check_cc _ \<Rightarrow> True | Udp_dequeue _ \<Rightarrow> True
      | Udp_clear _ \<Rightarrow> True | Udp_clear_failed \<Rightarrow> True | _ \<Rightarrow> False)"

text \<open>
  The flag is set exactly when a datagram is outstanding, the strand is about to decide on the next one,
  or the congestion control has left it set; these exclude one another. \<open>TIMER_CC\<close> runs only in the last case.
\<close>

definition udp_flag_inv :: "('a, 'm) udp_sock \<Rightarrow> bool" where
  "udp_flag_inv s \<longleftrightarrow>
     (sd_sending (us_snd s) \<longleftrightarrow> sd_write (us_snd s) \<noteq> None \<or> udp_critical (us_pc s) \<or> us_blocked s) \<and>
     (sd_write (us_snd s) \<noteq> None \<longrightarrow> \<not> udp_critical (us_pc s) \<and> \<not> us_blocked s \<and> us_pc s \<in> {Udp_idle, Udp_test_empty False, Udp_test_and_set}) \<and>
     (us_blocked s \<longrightarrow> \<not> udp_critical (us_pc s)) \<and> (us_cc s \<longrightarrow> us_blocked s) \<and>
     (case sd_write (us_snd s) of
        None \<Rightarrow> sd_msgs (us_snd s) = [] \<and> us_route s = None
      | Some can \<Rightarrow> sd_msgs (us_snd s) = can \<and> (\<exists>m. can = [m]) \<and> us_route s \<noteq> None)"

lemma udp_flag_same:
  "udp_flag_inv s \<Longrightarrow> sd_sending (us_snd s') = sd_sending (us_snd s) \<Longrightarrow> sd_write (us_snd s') = sd_write (us_snd s) \<Longrightarrow>
     sd_msgs (us_snd s') = sd_msgs (us_snd s) \<Longrightarrow> us_pc s' = us_pc s \<Longrightarrow> us_blocked s' = us_blocked s \<Longrightarrow>
     (us_cc s' \<longrightarrow> us_cc s) \<Longrightarrow> us_route s' = us_route s \<Longrightarrow> udp_flag_inv s'"
  by (cases "sd_write (us_snd s)") (auto simp: udp_flag_inv_def)

lemma udp_flag_micro: "udp_flag_inv s \<Longrightarrow> udp_flag_inv (udp_strand_step sz cc custom s)"
  unfolding udp_strand_step_def
  by (cases "us_pc s")
    (auto simp: udp_flag_inv_def udp_critical_def udp_defs split: option.splits prod.splits)

lemma send_msg_parts [simp]:
  "sd_sending (send_msg d) = sd_sending d" "sd_write (send_msg d) = sd_write d" "sd_msgs (send_msg d) = sd_msgs d"
  "sd_buffer (send_msg d) = sd_buffer d" "sd_checks (send_msg d) = sd_checks d" "sd_pops (send_msg d) = sd_pops d"
  "sd_ready (send_msg d) = sd_ready d"
  "sd_sending (post_send_msg d) = sd_sending d" "sd_write (post_send_msg d) = sd_write d" "sd_msgs (post_send_msg d) = sd_msgs d"
  "sd_buffer (post_send_msg d) = sd_buffer d" "sd_checks (post_send_msg d) = sd_checks d" "sd_pops (post_send_msg d) = sd_pops d"
  "sd_ready (post_send_msg d) = sd_ready d" "sd_tasks (post_send_msg d) = sd_tasks d + 1"
  by (simp_all add: send_msg_def post_send_msg_def)

lemma udp_flag_step: "udp_step sz uns s ev s' \<Longrightarrow> udp_flag_inv s \<Longrightarrow> udp_flag_inv s'"
proof (induction rule: udp_step.induct)
  case (queue alloc prior msg s d ev)
  show ?case by (rule udp_flag_same [OF queue(3)]) (simp_all add: queue(1) [symmetric])
next
  case (pop_first s msg d)
  show ?case by (rule udp_flag_same [OF pop_first(2)]) (use pop_first_fields [OF pop_first(1)] in simp_all)
next
  case (pop_all s can d)
  show ?case by (rule udp_flag_same [OF pop_all(2)]) (use pop_all_fields [OF pop_all(1)] in simp_all)
next
  case (check s)
  show ?case by (rule udp_flag_same [OF check(2)]) (simp_all add: us_upd_def)
next
  case (popped s)
  show ?case by (rule udp_flag_same [OF popped(2)]) (simp_all add: us_upd_def)
next
  case (resume s)
  then show ?case by (auto simp: udp_flag_inv_def udp_defs)
next
  case (resumed s)
  show ?case by (rule udp_flag_same [OF resumed(2)]) (simp_all add: udp_defs Let_def)
next
  case (task s)
  then show ?case by (auto simp: udp_flag_inv_def udp_critical_def udp_defs split: option.splits)
next
  case (micro s s' cc custom ev)
  then show ?case by (simp add: udp_flag_micro)
next
  case (complete s ec)
  then show ?case by (auto simp: udp_flag_inv_def udp_critical_def udp_defs)
next
  case (start s env)
  show ?case by (rule udp_flag_same [OF start(2)])
      (simp_all add: udp_start_def udp_do_start_def sender_start_def udp_defs Let_def split: prod.splits)
next
  case (close s)
  show ?case by (rule udp_flag_same [OF close(1)]) (simp_all add: udp_defs)
next
  case (reuse s)
  then show ?case by (auto simp: udp_flag_inv_def udp_critical_def udp_defs sender_reset_def)
qed

lemma udp_flag_run: "udp_run sz uns s0 evs s \<Longrightarrow> udp_flag_inv s0 \<Longrightarrow> udp_flag_inv s"
  by (induction rule: udp_run.induct) (auto intro: udp_flag_step)

lemma udp_flag_new: "udp_flag_inv (us_new connect_mode addr)"
  by (simp add: udp_flag_inv_def us_new_def sd_new_def udp_critical_def)

section \<open>What is queued is what is sent\<close>

fun uev_queued :: "('e, 'm) udp_event \<Rightarrow> ('e, 'm) udp_msg list" where
  "uev_queued (Uqueued ms) = ms"
| "uev_queued (Uqueued_front ms) = ms"
| "uev_queued _ = []"

fun uev_issued :: "('e, 'm) udp_event \<Rightarrow> ('e, 'm) udp_msg list" where
  "uev_issued (Uissued _ m) = [m]"
| "uev_issued _ = []"

fun uev_removed :: "('e, 'm) udp_event \<Rightarrow> ('e, 'm) udp_msg list" where
  "uev_removed (Uremoved ms) = ms"
| "uev_removed _ = []"

fun uev_fifo :: "('e, 'm) udp_event \<Rightarrow> bool" where
  "uev_fifo (Uqueued_front ms) = False"
| "uev_fifo (Uremoved ms) = False"
| "uev_fifo _ = True"

lemma udp_micro_queue:
  "us_queue (udp_micro sz cc custom pc s) =
     (case pc of Udp_dequeue _ \<Rightarrow> tl (us_queue s) | _ \<Rightarrow> us_queue s)"
  by (cases pc) (auto simp: udp_defs try_dequeue_def split: list.splits)

lemma udp_step_flow:
  "udp_step sz uns s ev s' \<Longrightarrow>
     mset (us_queue s) + mset (uev_queued ev) = mset (uev_issued ev) + mset (uev_removed ev) + mset (us_queue s') \<and>
     (uev_fifo ev \<longrightarrow> us_queue s @ uev_queued ev = uev_issued ev @ us_queue s')"
proof (induction rule: udp_step.induct)
  case (queue alloc prior msg s d ev)
  then show ?case by (auto simp: do_direct_queue)
next
  case (pop_first s msg d)
  then show ?case using pop_first_fields [OF pop_first(1)] by simp
next
  case (pop_all s can d)
  then show ?case using pop_all_fields [OF pop_all(1)] by simp
next
  case (micro s s' cc custom ev)
  have q: "us_queue s' = (case us_pc s of Udp_dequeue _ \<Rightarrow> tl (us_queue s) | _ \<Rightarrow> us_queue s)"
    using micro(2) by (simp only: udp_strand_step_def udp_micro_queue)
  show ?case unfolding q micro(3) by (cases "us_pc s"; cases "us_queue s") simp_all
next
  case (start s env)
  then show ?case
    by (simp add: udp_start_def udp_do_start_def sender_start_def udp_defs Let_def split: prod.splits)
qed (simp_all add: udp_defs Let_def sender_reset_def q_clear_def)

lemma udp_run_flow:
  "udp_run sz uns s0 evs s \<Longrightarrow>
     mset (us_queue s0) + mset (concat (map uev_queued evs)) =
       mset (concat (map uev_issued evs)) + mset (concat (map uev_removed evs)) + mset (us_queue s) \<and>
     ((\<forall>ev\<in>set evs. uev_fifo ev) \<longrightarrow>
       us_queue s0 @ concat (map uev_queued evs) = concat (map uev_issued evs) @ us_queue s)"
proof (induction rule: udp_run.induct)
  case udp_nil
  show ?case by simp
next
  case (udp_snoc evs s ev s')
  note st = udp_step_flow [OF udp_snoc(2)]
  have "us_queue s0 @ concat (map uev_queued (evs @ [ev])) = concat (map uev_issued (evs @ [ev])) @ us_queue s'"
    if "\<forall>e\<in>set (evs @ [ev]). uev_fifo e"
  proof -
    have "us_queue s0 @ concat (map uev_queued (evs @ [ev])) = concat (map uev_issued evs) @ us_queue s @ uev_queued ev"
      using that udp_snoc by simp
    also have "us_queue s @ uev_queued ev = uev_issued ev @ us_queue s'" using that st by simp
    finally show ?thesis by simp
  qed
  then show ?case using udp_snoc st by (simp add: ac_simps)
qed

section \<open>Nothing is left behind\<close>

text \<open>
  A message in the send buffer has somebody who will look at it, unless a refusal holds the flag; then it is
  \<open>TIMER_CC\<close> that will, if it runs.
\<close>

definition udp_awake :: "('a, 'm) udp_sock \<Rightarrow> bool" where
  "udp_awake s \<longleftrightarrow> sd_write (us_snd s) \<noteq> None \<or> 0 < sd_checks (us_snd s) \<or> 0 < sd_tasks (us_snd s) \<or>
     0 < sd_pops (us_snd s) \<or> 0 < us_resumes s \<or> us_blocked s \<or> us_pc s \<notin> {Udp_idle, Udp_clear False, Udp_clear_failed}"

definition udp_wake_inv :: "('a, 'm) udp_sock \<Rightarrow> bool" where
  "udp_wake_inv s \<longleftrightarrow>
     (sd_ready (us_snd s) \<and> us_queue s \<noteq> [] \<longrightarrow> udp_awake s) \<and> us_pc s \<noteq> Udp_clear_failed \<and>
     (us_pc s = Udp_clear False \<or> us_pc s \<in> {Udp_test_and_set, Udp_check_cc False, Udp_dequeue False} \<and> us_queue s = [] \<longrightarrow>
        0 < sd_tasks (us_snd s) \<or> 0 < sd_pops (us_snd s))"

lemma udp_wake_micro:
  assumes f: "udp_flag_inv s" and w: "udp_wake_inv s"
  shows "udp_wake_inv (udp_strand_step sz cc custom s)"
proof (cases "us_pc s")
  case (Udp_test_empty b)
  then show ?thesis using w by (cases b) (auto simp: udp_defs udp_wake_inv_def udp_awake_def)
next
  case (Udp_dequeue b)
  then show ?thesis using w
    by (cases b) (auto simp: udp_defs udp_wake_inv_def udp_awake_def try_dequeue_def split: list.splits)
next
  case (Udp_check_cc b)
  then show ?thesis using w by (cases b) (auto simp: udp_defs udp_wake_inv_def udp_awake_def)
next
  case (Udp_clear b)
  then show ?thesis using w by (cases b) (auto simp: udp_defs udp_wake_inv_def udp_awake_def)
next
  case Udp_test_and_set
  then show ?thesis using f w
    by (auto simp: udp_defs udp_wake_inv_def udp_awake_def udp_flag_inv_def udp_critical_def)
next
  case Udp_test_send_msg
  then show ?thesis using f w
    by (auto simp: udp_defs udp_wake_inv_def udp_awake_def udp_flag_inv_def udp_critical_def)
qed (use w in \<open>auto simp: udp_defs udp_wake_inv_def udp_awake_def\<close>)

lemma udp_wake_user:
  "udp_wake_inv s \<Longrightarrow> sd_write (us_snd s') = sd_write (us_snd s) \<Longrightarrow> us_pc s' = us_pc s \<Longrightarrow>
     sd_tasks (us_snd s') = sd_tasks (us_snd s) \<Longrightarrow> sd_pops (us_snd s') = sd_pops (us_snd s) \<Longrightarrow>
     sd_ready (us_snd s') = sd_ready (us_snd s) \<Longrightarrow> us_cc s' = us_cc s \<Longrightarrow> us_blocked s' = us_blocked s \<Longrightarrow>
     us_resumes s' = us_resumes s \<Longrightarrow>
     us_queue s' = us_queue s \<and> sd_checks (us_snd s') = sd_checks (us_snd s) \<or>
       0 < sd_checks (us_snd s') \<and> (us_queue s' = [] \<longrightarrow> us_queue s = []) \<Longrightarrow>
     udp_wake_inv s'"
  by (auto simp: udp_wake_inv_def udp_awake_def)

lemma send_msg_tasks: "sd_tasks (send_msg d) = (if sd_ready d \<and> \<not> sd_sending d then sd_tasks d + 1 else sd_tasks d)"
  by (simp add: send_msg_def)

lemma udp_wake_look:
  assumes "udp_flag_inv s" "udp_wake_inv s" "us_snd s' = send_msg d" "us_pc s' = us_pc s" "us_cc s' = us_cc s"
    "us_blocked s' = us_blocked s" "sd_ready d = sd_ready (us_snd s)" "sd_sending d = sd_sending (us_snd s)"
    "sd_write d = sd_write (us_snd s)" "sd_tasks d = sd_tasks (us_snd s)" "sd_pops d = sd_pops (us_snd s)"
    "sd_buffer d = sd_buffer (us_snd s)"
  shows "udp_wake_inv s'"
  using assms
  by (auto simp: udp_flag_inv_def udp_wake_inv_def udp_awake_def send_msg_tasks udp_critical_def split: udp_pc.splits)

lemma udp_wake_step:
  "udp_step sz uns s ev s' \<Longrightarrow> udp_flag_inv s \<Longrightarrow> udp_wake_inv s \<Longrightarrow> ev \<noteq> Uwritten Bad_descriptor \<Longrightarrow>
     udp_wake_inv s'"
proof (induction rule: udp_step.induct)
  case (queue alloc prior msg s d ev)
  show ?case by (rule udp_wake_user [OF queue(4)]) (simp_all add: queue(1) [symmetric] do_direct_queue)
next
  case (pop_first s msg d)
  then show ?case using pop_first_fields [OF pop_first(1)] by (simp add: udp_wake_inv_def udp_awake_def)
next
  case (pop_all s can d)
  then show ?case using pop_all_fields [OF pop_all(1)] by (simp add: udp_wake_inv_def udp_awake_def)
next
  case (check s)
  show ?case
    by (rule udp_wake_look [OF check(2,3), where d = "(us_snd s)\<lparr>sd_checks := sd_checks (us_snd s) - 1\<rparr>"])
      (simp_all add: us_upd_def)
next
  case (popped s)
  then show ?case by (simp add: udp_wake_inv_def udp_awake_def us_upd_def)
next
  case (resume s)
  then show ?case by (auto simp: udp_wake_inv_def udp_awake_def udp_defs)
next
  case (resumed s)
  show ?case
  proof (cases "us_queue s = []")
    case True
    then show ?thesis using resumed by (simp add: udp_wake_inv_def udp_awake_def udp_defs Let_def)
  next
    case False
    show ?thesis
      by (rule udp_wake_look [OF resumed(2,3), where d = "us_snd s"]) (use False in \<open>simp_all add: udp_defs Let_def\<close>)
  qed
next
  case (task s)
  then show ?case by (simp add: udp_wake_inv_def udp_awake_def udp_defs)
next
  case (micro s s' cc custom ev)
  then show ?case by (simp add: udp_wake_micro)
next
  case (complete s ec)
  then show ?case by (cases ec) (auto simp: udp_wake_inv_def udp_awake_def udp_defs udp_flag_inv_def)
next
  case (start s env)
  then show ?case
    by (auto simp: udp_wake_inv_def udp_awake_def udp_start_def udp_do_start_def sender_start_def udp_defs Let_def
             split: prod.splits)
next
  case (close s)
  then show ?case by (auto simp: udp_wake_inv_def udp_awake_def udp_defs)
next
  case (reuse s)
  then show ?case by (auto simp: udp_wake_inv_def sender_reset_def udp_defs)
qed

lemma udp_wake_run:
  "udp_run sz uns s0 evs s \<Longrightarrow> udp_flag_inv s0 \<Longrightarrow> udp_wake_inv s0 \<Longrightarrow> Uwritten Bad_descriptor \<notin> set evs \<Longrightarrow> udp_wake_inv s"
proof (induction rule: udp_run.induct)
  case (udp_snoc evs s ev s')
  have "udp_flag_inv s" using udp_flag_run [OF udp_snoc(1)] udp_snoc by blast
  then show ?case using udp_wake_step [OF udp_snoc(2)] udp_snoc by auto
qed simp

text \<open>
  \<open>udp_held s\<close>: a refusal holds the flag and \<open>TIMER_CC\<close> does not run. Only a close makes such a state, and only
  \<open>reset\<close>, which needs a socket that is not started, ends it.
\<close>

definition udp_held :: "('a, 'm) udp_sock \<Rightarrow> bool" where
  "udp_held s \<longleftrightarrow> us_blocked s \<and> \<not> us_cc s"

lemma udp_not_held_step: "udp_step sz uns s ev s' \<Longrightarrow> \<not> udp_held s \<Longrightarrow> ev \<noteq> Uclosed \<Longrightarrow> \<not> udp_held s'"
proof (induction rule: udp_step.induct)
  case (micro s s' cc custom ev)
  then show ?case
    by (cases "us_pc s") (auto simp: udp_held_def udp_defs split: option.splits prod.splits)
next
  case (start s env)
  then show ?case
    by (simp add: udp_held_def udp_start_def udp_do_start_def udp_defs Let_def split: prod.splits)
qed (auto simp: udp_held_def udp_defs Let_def)

lemma udp_not_held_run: "udp_run sz uns s0 evs s \<Longrightarrow> \<not> udp_held s0 \<Longrightarrow> Uclosed \<notin> set evs \<Longrightarrow> \<not> udp_held s"
  by (induction rule: udp_run.induct) (auto dest: udp_not_held_step)

lemma udp_held_step:
  "udp_step sz uns s ev s' \<Longrightarrow> udp_flag_inv s \<Longrightarrow> udp_held s \<Longrightarrow> us_started s \<Longrightarrow> ev \<noteq> Uclosed \<Longrightarrow>
     udp_held s' \<and> us_started s' \<and> (\<forall>route m. ev \<noteq> Uissued route m)"
proof (induction rule: udp_step.induct)
  case (micro s s' cc custom ev)
  then have "\<not> udp_critical (us_pc s)" by (simp add: udp_flag_inv_def udp_held_def)
  then show ?case using micro
    by (cases "us_pc s") (auto simp: udp_held_def udp_defs udp_critical_def)
qed (auto simp: udp_held_def udp_defs Let_def split: if_splits)

lemma udp_held_run:
  "udp_run sz uns s0 evs s \<Longrightarrow> udp_flag_inv s0 \<Longrightarrow> udp_held s0 \<Longrightarrow> us_started s0 \<Longrightarrow> Uclosed \<notin> set evs \<Longrightarrow>
     udp_held s \<and> us_started s \<and> (\<forall>route m. Uissued route m \<notin> set evs)"
proof (induction rule: udp_run.induct)
  case (udp_snoc evs s ev s')
  then show ?case using udp_held_step [OF udp_snoc(2) udp_flag_run [OF udp_snoc(1)]] by auto
qed simp

text \<open>A socket at rest with the flag clear is woken by the next message that is queued.\<close>

lemma udp_run_first:
  "udp_run sz uns s0 evs t \<Longrightarrow> evs = ev # evs2 \<Longrightarrow> \<exists>s. udp_step sz uns s0 ev s \<and> udp_run sz uns s evs2 t"
proof (induction arbitrary: evs2 rule: udp_run.induct)
  case (udp_snoc evs s e s')
  show ?case
  proof (cases evs)
    case Nil
    then show ?thesis using udp_snoc(1,2,4) by (auto elim: udp_run.cases intro: udp_nil)
  next
    case (Cons e2 es)
    then show ?thesis using udp_snoc by (auto intro: udp_run.udp_snoc)
  qed
qed simp

lemma udp_queued_awake:
  assumes "udp_step sz uns s (Uqueued ms) s'" "us_pc s = Udp_idle"
  shows "udp_wake_inv s'"
  using assms
proof (cases rule: udp_step.cases)
  case (queue alloc prior msg d)
  have "0 < sd_checks d" using queue do_direct_queue [of "\<lambda>m. sz (body m)" alloc prior msg "us_snd s"]
    by (auto split: if_splits)
  then show ?thesis using queue assms(2) by (simp add: udp_wake_inv_def udp_awake_def)
next
  case (micro cc custom)
  then show ?thesis using assms(2) by simp
qed

text \<open>The steps that need no user, and whether the congestion control said no.\<close>

inductive udp_drive :: "('m \<Rightarrow> nat) \<Rightarrow> bool \<Rightarrow> ('a, 'm) udp_sock \<Rightarrow> ('a, 'm) udp_sock \<Rightarrow> bool"
  for sz :: "'m \<Rightarrow> nat" where
  drive_check: "0 < sd_checks (us_snd s) \<Longrightarrow> udp_drive sz False s (us_upd (\<lambda>d. send_msg (d\<lparr>sd_checks := sd_checks d - 1\<rparr>)) s)"
| drive_popped: "0 < sd_pops (us_snd s) \<Longrightarrow> udp_drive sz False s (us_upd (\<lambda>d. post_send_msg (d\<lparr>sd_pops := sd_pops d - 1\<rparr>)) s)"
| drive_resume: "us_cc s \<Longrightarrow> udp_drive sz False s (resume_clear s)"
| drive_resumed: "0 < us_resumes s \<Longrightarrow> udp_drive sz False s (resume_send s)"
| drive_task: "us_pc s = Udp_idle \<Longrightarrow> 0 < sd_tasks (us_snd s) \<Longrightarrow> udp_drive sz False s (udp_begin_task s)"
| drive_micro: "us_pc s \<noteq> Udp_idle \<Longrightarrow>
    blocked = ((\<exists>b. us_pc s = Udp_check_cc b) \<and> us_connected s \<and> \<not> cc) \<Longrightarrow>
    udp_drive sz blocked s (udp_strand_step sz cc custom s)"
| drive_complete: "us_pc s = Udp_idle \<Longrightarrow> sd_write (us_snd s) \<noteq> None \<Longrightarrow> (us_route s = Some Customized \<Longrightarrow> ec = Send_ok) \<Longrightarrow>
    udp_drive sz False s (udp_begin_send_handler ec s)"

text \<open>\<open>udp_driven sz s n k s'\<close>: from \<open>s\<close> to \<open>s'\<close> in \<open>n\<close> such steps, of which \<open>k\<close> were refusals of the congestion control.\<close>

inductive udp_driven :: "('m \<Rightarrow> nat) \<Rightarrow> ('a, 'm) udp_sock \<Rightarrow> nat \<Rightarrow> nat \<Rightarrow> ('a, 'm) udp_sock \<Rightarrow> bool"
  for sz :: "'m \<Rightarrow> nat" and s0 :: "('a, 'm) udp_sock" where
  driven_0: "udp_driven sz s0 0 0 s0"
| driven_Suc: "udp_driven sz s0 n k s \<Longrightarrow> udp_drive sz blocked s s' \<Longrightarrow> udp_driven sz s0 (Suc n) (k + of_bool blocked) s'"

fun udp_pc_work :: "udp_pc \<Rightarrow> nat" where
  "udp_pc_work Udp_idle = 0"
| "udp_pc_work (Udp_test_empty in_strand) = (if in_strand then 11 else 5)"
| "udp_pc_work Udp_test_and_set = 4"
| "udp_pc_work (Udp_check_cc in_strand) = (if in_strand then 10 else 3)"
| "udp_pc_work (Udp_dequeue in_strand) = (if in_strand then 9 else 2)"
| "udp_pc_work (Udp_clear in_strand) = (if in_strand then 8 else 1)"
| "udp_pc_work Udp_clear_failed = 1"
| "udp_pc_work Udp_recheck = 7"
| "udp_pc_work Udp_test_send_msg = 6"

definition udp_work :: "('a, 'm) udp_sock \<Rightarrow> nat" where
  "udp_work s = 12 * length (us_queue s) + 7 * sd_checks (us_snd s) + 7 * sd_pops (us_snd s) + 6 * sd_tasks (us_snd s) +
     7 * us_resumes s + (if us_cc s then 8 else 0) + (if sd_write (us_snd s) = None then 0 else 12) + udp_pc_work (us_pc s)"

lemma udp_micro_work:
  assumes "us_pc s \<noteq> Udp_idle" "udp_flag_inv s"
    and "blocked = ((\<exists>b. us_pc s = Udp_check_cc b) \<and> us_connected s \<and> \<not> cc)"
  shows "udp_work (udp_strand_step sz cc custom s) < udp_work s + 6 * of_bool blocked"
proof (cases "us_pc s")
  case (Udp_dequeue b)
  then have "sd_write (us_snd s) = None" using assms(2) by (auto simp: udp_flag_inv_def udp_critical_def)
  then show ?thesis using assms Udp_dequeue
    by (cases "us_queue s") (auto simp: udp_defs udp_work_def try_dequeue_def)
next
  case (Udp_check_cc b)
  then have "\<not> us_cc s" using assms(2) by (auto simp: udp_flag_inv_def udp_critical_def)
  then show ?thesis using assms Udp_check_cc by (auto simp: udp_defs udp_work_def)
qed (use assms in \<open>auto simp: udp_defs udp_work_def\<close>)

lemma udp_drive_work: "udp_drive sz blocked s s' \<Longrightarrow> udp_flag_inv s \<Longrightarrow> udp_work s' < udp_work s + 6 * of_bool blocked"
proof (induction rule: udp_drive.induct)
  case (drive_check s)
  then show ?case by (auto simp: udp_work_def us_upd_def send_msg_tasks)
next
  case (drive_resumed s)
  then show ?case by (auto simp: udp_work_def udp_defs Let_def send_msg_tasks)
next
  case (drive_micro s blocked cc custom)
  show ?case by (rule udp_micro_work [OF drive_micro(1,3,2)])
next
  case (drive_complete s ec)
  then show ?case by (cases ec) (auto simp: udp_work_def udp_defs)
qed (auto simp: udp_work_def udp_defs)

lemma udp_drive_step: "udp_drive sz blocked s s' \<Longrightarrow> \<exists>ev. udp_step sz uns s ev s'"
proof (induction rule: udp_drive.induct)
  case (drive_micro s blocked cc custom)
  then show ?case by (auto intro: udp_step.micro [OF _ refl refl])
next
  case (drive_complete s ec)
  then show ?case by (auto intro: udp_step.complete)
qed (blast intro: udp_step.intros)+

lemma udp_driven_bound:
  "udp_driven sz s0 n k s \<Longrightarrow> udp_flag_inv s0 \<Longrightarrow> n + udp_work s \<le> udp_work s0 + 6 * k \<and> udp_flag_inv s"
proof (induction rule: udp_driven.induct)
  case driven_0
  then show ?case by simp
next
  case (driven_Suc n k s blocked s')
  have "udp_flag_inv s'" using udp_drive_step [OF driven_Suc(2)] udp_flag_step driven_Suc by blast
  then show ?case using driven_Suc udp_drive_work [OF driven_Suc(2)] by simp
qed

lemma udp_stuck:
  assumes "\<nexists>blocked s'. udp_drive sz blocked s s'"
  shows "sd_checks (us_snd s) = 0 \<and> sd_pops (us_snd s) = 0 \<and> us_pc s = Udp_idle \<and> sd_tasks (us_snd s) = 0 \<and>
    sd_write (us_snd s) = None \<and> \<not> us_cc s \<and> us_resumes s = 0"
proof -
  have "sd_write (us_snd s) = None \<or> us_pc s \<noteq> Udp_idle"
    using assms drive_complete [of s Send_ok] by blast
  moreover have "us_pc s = Udp_idle" using assms drive_micro [OF _ refl] by blast
  ultimately show ?thesis using assms udp_drive.intros by blast
qed

definition udp_all_sent :: "('a, 'm) udp_sock \<Rightarrow> bool" where
  "udp_all_sent s \<longleftrightarrow> us_queue s = [] \<and> sd_msgs (us_snd s) = [] \<and> \<not> sd_sending (us_snd s)"

lemma udp_rest:
  assumes "udp_flag_inv s" "\<nexists>blocked s'. udp_drive sz blocked s s'" "sd_ready (us_snd s)"
  shows "udp_wake_inv s \<Longrightarrow> udp_all_sent s \<or> udp_held s" "udp_all_sent s \<or> udp_held s \<or> \<not> sd_sending (us_snd s)"
  using assms udp_stuck [OF assms(2)]
  by (auto simp: udp_wake_inv_def udp_awake_def udp_flag_inv_def udp_critical_def udp_held_def udp_all_sent_def)

section \<open>Receiving\<close>

text \<open>
  A datagram that is longer than the unpacker's buffer is cut by the system. \<open>udp_recv_handler\<close> is what
  \<open>recv_handler\<close> makes of a datagram: the unpacker's messages, on a connected socket as \<open>pre_handle_msg\<close>
  leaves them, with the endpoint they came from. \<open>udp_recv_prepare\<close>: \<open>do_recv_msg\<close> reads only if the unpacker
  offers a buffer.
\<close>

definition udp_recv_prepare :: "nat \<Rightarrow> 'm receiver \<Rightarrow> 'm receiver" where
  "udp_recv_prepare buf_size r = (if buf_size = 0 then r else do_recv_msg r)"

definition udp_handled_msgs ::
  "bool \<Rightarrow> 'e \<Rightarrow> 'e \<Rightarrow> (bytes list \<Rightarrow> bytes list) \<Rightarrow> nat \<Rightarrow> bytes \<Rightarrow> ('e, bytes) udp_msg list" where
  "udp_handled_msgs connected peer src pre_handle_msg bytes_transferred raw =
     (let msg_can = snd (udp_parse_msg bytes_transferred raw);
          msg_can = (if connected then pre_handle_msg msg_can else msg_can)
      in map (\<lambda>msg. Udp_msg (if connected then peer else src) msg) msg_can)"

definition udp_recv_handler ::
  "bool \<Rightarrow> 'e \<Rightarrow> 'e \<Rightarrow> (bytes list \<Rightarrow> bytes list) \<Rightarrow> bool \<Rightarrow> nat \<Rightarrow> bytes \<Rightarrow>
    ('e, bytes) udp_msg receiver \<Rightarrow> ('e, bytes) udp_msg receiver" where
  "udp_recv_handler connected peer src pre_handle_msg ec bytes_transferred raw r =
     (if \<not> ec \<and> bytes_transferred > 0
      then recv_handler_begin (\<lambda>m. length (body m))
             (udp_handled_msgs connected peer src pre_handle_msg bytes_transferred raw) r
      else if ec then r\<lparr>rv_reading := False\<rparr>
      else recv_handler_begin (\<lambda>m. length (body m)) [] r)"

datatype 'e udp_recv_event =
    Datagram 'e bytes
  | Datagram_error
  | Handed_over "('e, bytes) udp_msg recv_event"

text \<open>
  The receiver of a socket: a datagram (its sender and its bytes) or an error ends the read that is
  outstanding; everything else is the part common to all sockets. \<open>connected\<close> and \<open>peer\<close> are those of the
  socket and \<open>pre_handle_msg\<close> leaves the messages as they are, as in \<open>generic_socket\<close>.
\<close>

inductive udp_recv_step ::
  "nat \<Rightarrow> nat \<Rightarrow> bool \<Rightarrow> 'e \<Rightarrow> ('e, bytes) udp_msg receiver \<Rightarrow> 'e udp_recv_event \<Rightarrow> ('e, bytes) udp_msg receiver \<Rightarrow> bool"
  for buf_size :: nat and rbs :: nat and connected :: bool and peer :: 'e where
  datagram: "rv_rw r = Rw_idle \<Longrightarrow> rv_reading r \<Longrightarrow> data = take buf_size dgram \<Longrightarrow> length raw = buf_size \<Longrightarrow>
    udp_recv_step buf_size rbs connected peer r (Datagram src dgram)
      (udp_recv_handler connected peer src (\<lambda>can. can) False (length data) (write_at 0 data raw) r)"
| failed: "rv_rw r = Rw_idle \<Longrightarrow> rv_reading r \<Longrightarrow>
    udp_recv_step buf_size rbs connected peer r Datagram_error (udp_recv_handler connected peer src (\<lambda>can. can) True n raw r)"
| recv_task: "rv_rw r = Rw_idle \<Longrightarrow> 0 < rv_recvs r \<Longrightarrow>
    udp_recv_step buf_size rbs connected peer r (Handed_over Tau) (udp_recv_prepare buf_size (r\<lparr>rv_recvs := rv_recvs r - 1\<rparr>))"
| rw_micro: "rv_rw r \<noteq> Rw_idle \<Longrightarrow> udp_recv_step buf_size rbs connected peer r (Handed_over Tau) (recv_handler_micro rbs False r)"
| start: "rv_rw r = Rw_idle \<Longrightarrow> \<not> rv_reading r \<Longrightarrow> rv_recvs r = 0 \<Longrightarrow> \<not> rv_check r \<Longrightarrow>
    udp_recv_step buf_size rbs connected peer r (Handed_over Link_started) (recv_msg r)"
| check_timer: "rv_check r \<Longrightarrow> udp_recv_step buf_size rbs connected peer r (Handed_over Tau) (check_recv_timer rbs r)"
| dispatch: "0 < rv_tasks r \<Longrightarrow> \<not> rv_handling r \<Longrightarrow>
    udp_recv_step buf_size rbs connected peer r (Handed_over Tau)
      (do_dispatch_begin (\<lambda>m. length (body m)) (r\<lparr>rv_tasks := rv_tasks r - 1\<rparr>))"
| handled: "rv_handling r \<Longrightarrow> rv_msg r = Some msg \<Longrightarrow>
    udp_recv_step buf_size rbs connected peer r (Handed_over (if re then Handled msg else Refused msg)) (do_dispatch_end re r)"
| hold_timer: "rv_hold r \<Longrightarrow> udp_recv_step buf_size rbs connected peer r (Handed_over Tau) (dispatch_timer r)"
| pop_all: "pop_all_pending_recv_msg (\<lambda>m. length (body m)) r = (can, r') \<Longrightarrow>
    udp_recv_step buf_size rbs connected peer r (Handed_over (Taken can)) r'"
| close: "udp_recv_step buf_size rbs connected peer r (Handed_over Link_closed) (receiver_close r)"

inductive udp_recv_run ::
  "nat \<Rightarrow> nat \<Rightarrow> bool \<Rightarrow> 'e \<Rightarrow> ('e, bytes) udp_msg receiver \<Rightarrow> 'e udp_recv_event list \<Rightarrow> ('e, bytes) udp_msg receiver \<Rightarrow> bool"
  for buf_size :: nat and rbs :: nat and connected :: bool and peer :: 'e and r0 :: "('e, bytes) udp_msg receiver" where
  udp_recv_nil: "udp_recv_run buf_size rbs connected peer r0 [] r0"
| udp_recv_snoc: "udp_recv_run buf_size rbs connected peer r0 evs r \<Longrightarrow> udp_recv_step buf_size rbs connected peer r ev r' \<Longrightarrow>
    udp_recv_run buf_size rbs connected peer r0 (evs @ [ev]) r'"

text \<open>The messages of a datagram, and the event of the common part that a step is.\<close>

definition datagram_msgs :: "nat \<Rightarrow> bool \<Rightarrow> 'e \<Rightarrow> 'e \<Rightarrow> bytes \<Rightarrow> ('e, bytes) udp_msg list" where
  "datagram_msgs buf_size connected peer src dgram =
     (if take buf_size dgram = [] then [] else [Udp_msg (if connected then peer else src) (take buf_size dgram)])"

fun recv_event_of :: "nat \<Rightarrow> bool \<Rightarrow> 'e \<Rightarrow> 'e udp_recv_event \<Rightarrow> ('e, bytes) udp_msg recv_event" where
  "recv_event_of buf_size connected peer (Datagram src dgram) = Received (datagram_msgs buf_size connected peer src dgram)"
| "recv_event_of buf_size connected peer Datagram_error = Recv_failed"
| "recv_event_of buf_size connected peer (Handed_over ev) = ev"

lemma udp_recv_handler_datagram:
  assumes "data = take buf_size dgram" "length raw = buf_size"
  shows "udp_recv_handler connected peer src (\<lambda>can. can) False (length data) (write_at 0 data raw) r =
    recv_handler_begin (\<lambda>m. length (body m)) (datagram_msgs buf_size connected peer src dgram) r"
  unfolding datagram_msgs_def assms(1) [symmetric]
  by (simp add: udp_recv_handler_def udp_handled_msgs_def udp_parse_msg_def take_write_at_0)

lemma udp_recv_refines_step:
  assumes "udp_recv_step buf_size rbs connected peer r ev r'" "0 < buf_size"
  shows "recv_step (\<lambda>m. length (body m)) rbs r (recv_event_of buf_size connected peer ev) r'"
  using assms
proof (induction rule: udp_recv_step.induct)
  case (datagram r data dgram raw src)
  show ?case unfolding udp_recv_handler_datagram [OF datagram(3,4)] recv_event_of.simps
    by (rule recv_step.received [OF datagram(1,2)])
next
  case (failed r src n raw)
  then show ?case by (auto simp: udp_recv_handler_def intro: recv_step.read_error)
next
  case (recv_task r)
  then show ?case by (auto simp: udp_recv_prepare_def intro: recv_step.recv_task)
next
  case (rw_micro r)
  then show ?case using recv_step.rw_micro [OF rw_micro(1), of Tau False] by simp
next
  case (dispatch r)
  then show ?case by (auto intro: recv_step.dispatch)
next
  case (handled r msg re)
  then show ?case using recv_step.handled by fastforce
qed (auto intro: recv_step.intros)

lemma udp_recv_refines_run:
  "udp_recv_run buf_size rbs connected peer r0 evs r \<Longrightarrow> 0 < buf_size \<Longrightarrow>
     recv_run (\<lambda>m. length (body m)) rbs r0 (map (recv_event_of buf_size connected peer) evs) r"
proof (induction rule: udp_recv_run.induct)
  case (udp_recv_snoc evs r ev r')
  then show ?case using run_snoc udp_recv_refines_step by fastforce
qed (simp add: run_nil)

lemma handed_over_not_received: "udp_recv_step buf_size rbs connected peer r ev r' \<Longrightarrow> ev \<noteq> Handed_over (Received ms)"
  by (induction rule: udp_recv_step.induct) auto

lemma handed_over_not_received_run:
  "udp_recv_run buf_size rbs connected peer r0 evs r \<Longrightarrow> Handed_over (Received ms) \<notin> set evs"
  by (induction rule: udp_recv_run.induct) (auto dest: handed_over_not_received)

text \<open>The messages that arrived with an event, and those that were accepted.\<close>

fun arrived :: "nat \<Rightarrow> bool \<Rightarrow> 'e \<Rightarrow> 'e udp_recv_event \<Rightarrow> ('e, bytes) udp_msg list" where
  "arrived buf_size connected peer (Datagram src dgram) = datagram_msgs buf_size connected peer src dgram"
| "arrived buf_size connected peer _ = []"

fun accepted :: "'e udp_recv_event \<Rightarrow> ('e, bytes) udp_msg list" where
  "accepted (Handed_over (Handled m)) = [m]"
| "accepted _ = []"

lemma arrived_received:
  "(\<And>ms. ev \<noteq> Handed_over (Received ms)) \<Longrightarrow>
     ev_received (recv_event_of buf_size connected peer ev) = arrived buf_size connected peer ev"
  by (cases "(buf_size, connected, peer, ev)" rule: arrived.cases; cases "recv_event_of buf_size connected peer ev") auto

lemma accepted_handled: "ev_handled (recv_event_of buf_size connected peer ev) = accepted ev"
  by (cases ev rule: accepted.cases) auto

lemma not_taken:
  "(\<And>can. ev \<noteq> Handed_over (Taken can)) \<Longrightarrow> ev_taken (recv_event_of buf_size connected peer ev) = []"
  by (cases ev; cases "recv_event_of buf_size connected peer ev") auto

text \<open>A receiver nobody reads for.\<close>

lemma recv_deaf_step:
  "udp_recv_step buf_size rbs connected peer r ev r' \<Longrightarrow> recv_tokens r = 0 \<Longrightarrow> ev \<noteq> Handed_over Link_started \<Longrightarrow>
     recv_tokens r' = 0 \<and> (\<forall>src dgram. ev \<noteq> Datagram src dgram)"
proof (induction rule: udp_recv_step.induct)
  case (dispatch r)
  then show ?case by (auto simp: recv_tokens_def receiver_defs split: if_splits option.splits prod.splits)
next
  case (pop_all r can r')
  then show ?case using pop_recv_all [OF pop_all(1)] by (auto simp: recv_tokens_def)
qed (auto simp: recv_tokens_def receiver_defs)

lemma recv_deaf_run:
  "udp_recv_run buf_size rbs connected peer r evs r' \<Longrightarrow> recv_tokens r = 0 \<Longrightarrow> Handed_over Link_started \<notin> set evs \<Longrightarrow>
     recv_tokens r' = 0 \<and> (\<forall>src dgram. Datagram src dgram \<notin> set evs)"
proof (induction rule: udp_recv_run.induct)
  case (udp_recv_snoc evs r ev r')
  then show ?case using recv_deaf_step [OF udp_recv_snoc(2)] by auto
qed simp

section \<open>Properties\<close>

text \<open>
  C20. UDP sends one datagram at a time, in order and to the right peer. Whatever users, the strand, the
  completions (also with errors) and the congestion control do to one another: every message that was queued
  was issued exactly once, or taken out or dropped by \<open>reset\<close>, or is still in the buffer; if nobody queues with
  priority, takes messages out or resets, they are issued in the order they were queued; and a datagram is
  issued only when none is outstanding, by the holder of the flag, to the endpoint it carries if the
  socket is not connected and through the connection otherwise.
\<close>
theorem udp_sends_in_order:
  assumes "udp_run sz is_unspecified (us_new connect_mode addr) evs s"
  shows "mset (concat (map uev_queued evs)) =
           mset (concat (map uev_issued evs)) + mset (concat (map uev_removed evs)) + mset (us_queue s) \<and>
         ((\<forall>ev\<in>set evs. uev_fifo ev) \<longrightarrow> concat (map uev_queued evs) = concat (map uev_issued evs) @ us_queue s) \<and>
         (\<forall>route m s'. udp_step sz is_unspecified s (Uissued route m) s' \<longrightarrow>
            sd_write (us_snd s) = None \<and> sd_sending (us_snd s) \<and> sd_write (us_snd s') = Some [m] \<and>
            (if us_connected s then route \<in> {Connected_send, Customized} else route = To_peer (peer_addr m)))"
proof -
  have f: "udp_flag_inv s" using udp_flag_run [OF assms udp_flag_new] .
  have "sd_write (us_snd s) = None \<and> sd_sending (us_snd s) \<and> sd_write (us_snd s') = Some [m] \<and>
      (if us_connected s then route \<in> {Connected_send, Customized} else route = To_peer (peer_addr m))"
    if "udp_step sz is_unspecified s (Uissued route m) s'" for route m s'
    using that
  proof (cases rule: udp_step.cases)
    case (micro cc custom)
    then obtain b ms where b: "us_pc s = Udp_dequeue b" "us_queue s = m # ms" "route = udp_route custom m s"
      by (auto split: udp_pc.splits list.splits if_splits)
    then show ?thesis using f micro(2)
      by (auto simp: udp_flag_inv_def udp_critical_def udp_defs try_dequeue_def udp_route_def)
  qed (auto split: if_splits)
  moreover have "us_queue (us_new connect_mode addr) = []" by (simp add: us_new_def sd_new_def q_new_def)
  note udp_run_flow [OF assms, unfolded this mset.simps append_Nil add_0]
  ultimately show ?thesis by blast
qed

text \<open>
  C21. A failing datagram does not stop the others. For every interleaving, whatever errors the datagrams meet
  and whatever the congestion control answers: when nothing more can happen without a user, a bound socket
  has sent everything and the flag is clear, with two exceptions. A datagram failed for a bad descriptor:
  then the flag is clear, but messages may be left; the next one that is queued brings them out, unless
  the descriptor is bad again. Or the socket was closed while a refusal of the congestion control held the
  flag (\<open>udp_held\<close>): then the messages stay, and when the socket is started again, as long as it is not closed, nothing
  is ever sent (\<open>udp_cc_survives_close\<close> is such a run). And it always comes to rest: with \<open>k\<close> refusals at most
  \<open>udp_work + 6 * k\<close> steps can follow without a user.
\<close>
theorem udp_nothing_left_behind:
  assumes "udp_run sz is_unspecified (us_new connect_mode addr) evs s"
  shows "(sd_ready (us_snd s) \<and> (\<nexists>blocked s'. udp_drive sz blocked s s') \<longrightarrow>
            udp_all_sent s \<or> udp_held s \<or> Uwritten Bad_descriptor \<in> set evs \<and> \<not> sd_sending (us_snd s)) \<and>
         (\<forall>ms evs2 t. \<not> sd_sending (us_snd s) \<and> (\<nexists>blocked s'. udp_drive sz blocked s s') \<and>
            udp_run sz is_unspecified s (Uqueued ms # evs2) t \<and> Uwritten Bad_descriptor \<notin> set evs2 \<and>
            sd_ready (us_snd t) \<and> (\<nexists>blocked s'. udp_drive sz blocked t s') \<longrightarrow> udp_all_sent t \<or> udp_held t) \<and>
         (udp_held s \<longrightarrow> Uclosed \<in> set evs \<and>
            (\<forall>evs2 t. us_started s \<and> udp_run sz is_unspecified s evs2 t \<and> Uclosed \<notin> set evs2 \<longrightarrow>
               udp_held t \<and> (\<forall>route m. Uissued route m \<notin> set evs2))) \<and>
         (\<forall>n k s'. udp_driven sz s n k s' \<longrightarrow> n \<le> udp_work s + 6 * k)"
proof (intro conjI impI allI)
  have f: "udp_flag_inv s" using udp_flag_run [OF assms udp_flag_new] .
  have w0: "udp_wake_inv (us_new connect_mode addr)" by (simp add: udp_wake_inv_def us_new_def sd_new_def)
  show "udp_all_sent s \<or> udp_held s \<or> Uwritten Bad_descriptor \<in> set evs \<and> \<not> sd_sending (us_snd s)"
    if "sd_ready (us_snd s) \<and> (\<nexists>blocked s'. udp_drive sz blocked s s')"
    using that udp_rest [OF f] udp_wake_run [OF assms udp_flag_new w0] by blast
  show "udp_all_sent t \<or> udp_held t"
    if woken: "\<not> sd_sending (us_snd s) \<and> (\<nexists>blocked s'. udp_drive sz blocked s s') \<and>
      udp_run sz is_unspecified s (Uqueued ms # evs2) t \<and> Uwritten Bad_descriptor \<notin> set evs2 \<and>
      sd_ready (us_snd t) \<and> (\<nexists>blocked s'. udp_drive sz blocked t s')" for ms evs2 t
  proof -
    obtain s1 where s1: "udp_step sz is_unspecified s (Uqueued ms) s1" "udp_run sz is_unspecified s1 evs2 t"
      using woken udp_run_first [OF _ refl] by blast
    have f1: "udp_flag_inv s1" using udp_flag_step [OF s1(1) f] .
    have "udp_wake_inv s1" using udp_queued_awake [OF s1(1)] udp_stuck woken by blast
    then have "udp_wake_inv t" using udp_wake_run [OF s1(2) f1] woken by blast
    then show ?thesis using udp_rest [OF udp_flag_run [OF s1(2) f1]] woken by blast
  qed
  show "Uclosed \<in> set evs" if "udp_held s"
    using that udp_not_held_run [OF assms] by (auto simp: udp_held_def us_new_def)
  show "udp_held t" "Uissued route m \<notin> set evs2"
    if "udp_held s" "us_started s \<and> udp_run sz is_unspecified s evs2 t \<and> Uclosed \<notin> set evs2" for evs2 t route m
    using that udp_held_run f by blast+
  show "n \<le> udp_work s + 6 * k" if "udp_driven sz s n k s'" for n k s'
    using udp_driven_bound [OF that f] by simp
qed

text \<open>
  C22. What the application gets from a UDP socket. For every interleaving of datagrams, errors, the
  dispatcher, the timers and users: the messages accepted by \<open>on_msg_handle\<close>, followed by those still pending,
  are the datagrams that arrived, cut to the size of the unpacker's buffer and without the empty ones,
  each with its sender (with the peer on a connected socket), in the order of arrival, as long as nobody
  takes messages out. But after an error of a read no datagram is received any more until the socket
  is started again, although it stays started: nothing else issues a read.
\<close>
theorem udp_delivers_datagrams:
  assumes "udp_recv_run buf_size recv_buf_size connected peer rv_new evs r" and "0 < buf_size"
    and "\<And>can. Handed_over (Taken can) \<notin> set evs"
  shows "concat (map (arrived buf_size connected peer) evs) = concat (map accepted evs) @ pending r \<and>
         (\<forall>r1 r2 evs2. udp_recv_step buf_size recv_buf_size connected peer r Datagram_error r1 \<and>
            udp_recv_run buf_size recv_buf_size connected peer r1 evs2 r2 \<and> Handed_over Link_started \<notin> set evs2 \<longrightarrow>
            (\<forall>src dgram. Datagram src dgram \<notin> set evs2))"
proof -
  let ?f = "recv_event_of buf_size connected peer"
  note run = udp_recv_refines_run [OF assms(1,2)]
  have tk: "concat (map ev_taken (map ?f evs)) = []"
  proof -
    have "ev_taken (?f e) = []" if "e \<in> set evs" for e by (rule not_taken) (use that assms(3) in auto)
    then show ?thesis by simp
  qed
  have ar: "map ev_received (map ?f evs) = map (arrived buf_size connected peer) evs"
  proof -
    have "ev_received (?f e) = arrived buf_size connected peer e" if "e \<in> set evs" for e
      by (rule arrived_received) (use that handed_over_not_received_run [OF assms(1)] in auto)
    then show ?thesis by simp
  qed
  have ac: "map ev_handled (map ?f evs) = map accepted evs" by (simp add: accepted_handled)
  have flow: "concat (map (arrived buf_size connected peer) evs) = concat (map accepted evs) @ pending r"
    using dispatch_run [OF run receiver_new_inv(1)] tk unfolding ar ac receiver_new_inv(3) append_Nil by blast
  have deaf: "\<forall>src dgram. Datagram src dgram \<notin> set evs2"
    if "udp_recv_step buf_size recv_buf_size connected peer r Datagram_error r1"
      "udp_recv_run buf_size recv_buf_size connected peer r1 evs2 r2" "Handed_over Link_started \<notin> set evs2" for r1 r2 evs2
  proof -
    have le: "recv_tokens r \<le> 1" using recv_tokens_run [OF run] by (simp add: receiver_new_inv(4))
    from that(1) have "recv_tokens r1 = 0"
      by (cases rule: udp_recv_step.cases) (use le in \<open>auto simp: udp_recv_handler_def recv_tokens_def\<close>)
    then show ?thesis using recv_deaf_run [OF that(2)] that(3) by blast
  qed
  from flow deaf show ?thesis by blast
qed

text \<open>
  A run of a socket that is not connected: it is started, a message for port 9 is queued, issued, and
  fails; \<open>demo_udp\<close> spells its states.
\<close>

definition demo_ep :: "nat endpoint" where
  "demo_ep = \<lparr>ep_address = 5, ep_port = 9\<rparr>"

definition demo_udp ::
  "bool \<Rightarrow> nat list \<Rightarrow> bool \<Rightarrow> nat list \<Rightarrow> nat \<Rightarrow> nat \<Rightarrow> udp_pc \<Rightarrow> bool \<Rightarrow> bool \<Rightarrow> bool \<Rightarrow> (nat, nat) udp_sock" where
  "demo_udp connected queue sending out checks tasks pc blocked cc started =
     \<lparr>us_snd = \<lparr>sd_buffer = \<lparr>q_items = map (Udp_msg demo_ep) queue, q_total = length queue\<rparr>, sd_sending = sending,
            sd_msgs = map (Udp_msg demo_ep) out, sd_write = (if out = [] then None else Some (map (Udp_msg demo_ep) out)), sd_ready = True,
            sd_checks = checks, sd_pops = 0, sd_tasks = tasks, sd_pc = Strand_idle\<rparr>,
          us_pc = pc, us_route = (if out = [] then None else Some (To_peer demo_ep)), us_blocked = blocked, us_cc = cc, us_resumes = 0,
          us_open = started, us_started = started, us_connected = connected, us_connect_mode = connected, us_local = demo_ep, us_peer = demo_ep\<rparr>"

lemma demo_udp_start:
  "udp_step (\<lambda>_. 1) (\<lambda>a. a = 0) (us_new connected demo_ep) Ustarted
     (demo_udp connected [] False [] 1 0 Udp_idle False False True)"
proof -
  let ?env = "\<lparr>ue_open_ec = False, ue_bind = Bind_ok, ue_connect_ec = False\<rparr>"
  let ?s = "us_new connected demo_ep :: (nat, nat) udp_sock"
  have "udp_start (\<lambda>a. a = 0) ?env ?s = demo_udp connected [] False [] 1 0 Udp_idle False False True"
    by (simp add: udp_start_def udp_do_start_def udp_bind_def udp_connect_def us_upd_def us_new_def sd_new_def
        q_new_def demo_udp_def demo_ep_def sender_start_def Let_def)
  then show ?thesis using udp_step.start [of ?s "\<lambda>_. 1" "\<lambda>a. a = 0" ?env] by (simp add: us_new_def)
qed

lemma demo_udp_queue:
  "udp_step (\<lambda>_. 1) uns (demo_udp connected [] False [] 1 0 Udp_idle False False True)
     (Uqueued [Udp_msg demo_ep 7]) (demo_udp connected [7] False [] 2 0 Udp_idle False False True)"
proof -
  let ?s = "demo_udp connected [] False [] 1 0 Udp_idle False False True" and ?m = "Udp_msg demo_ep (7 :: nat)"
  have "?s\<lparr>us_snd := snd (do_direct_send_msg (\<lambda>m. 1) True False ?m (us_snd ?s))\<rparr> = demo_udp connected [7] False [] 2 0 Udp_idle False False True"
    by (simp add: demo_udp_def do_direct_send_msg_def enqueue_def size_add_def SIZE_MOD_def)
  then show ?thesis using udp_step.queue [OF refl refl, where sz = "\<lambda>_. 1" and alloc = True and prior = False and msg = ?m and s = ?s and uns = uns] by simp
qed

lemmas demo_udp_defs = demo_udp_def udp_defs post_send_msg_def

lemma demo_udp_check:
  "udp_step sz uns (demo_udp connected queue False out (Suc n) tasks pc blocked cc started) Uinternal
     (demo_udp connected queue False out n (Suc tasks) pc blocked cc started)"
  "udp_step sz uns (demo_udp connected queue True out (Suc n) tasks pc blocked cc started) Uinternal
     (demo_udp connected queue True out n tasks pc blocked cc started)"
  using udp_step.check [of "demo_udp connected queue False out (Suc n) tasks pc blocked cc started" sz uns]
    udp_step.check [of "demo_udp connected queue True out (Suc n) tasks pc blocked cc started" sz uns]
  by (simp_all add: demo_udp_def us_upd_def send_msg_def post_send_msg_def)

lemma demo_udp_task:
  "udp_step sz uns (demo_udp connected queue sending out n (Suc tasks) Udp_idle blocked cc started) Uinternal
     (demo_udp connected queue sending out n tasks (Udp_test_empty False) blocked cc started)"
  using udp_step.task [of "demo_udp connected queue sending out n (Suc tasks) Udp_idle blocked cc started" sz uns]
  by (simp add: demo_udp_def udp_begin_task_def us_upd_def)

lemma demo_udp_micros:
  "udp_step sz uns (demo_udp connected [7] False [] n tasks (Udp_test_empty False) blocked cc started) Uinternal
     (demo_udp connected [7] False [] n tasks Udp_test_and_set blocked cc started)"
  "udp_step sz uns (demo_udp connected [7] False [] n tasks Udp_test_and_set blocked cc started) Uinternal
     (demo_udp connected [7] True [] n tasks (Udp_check_cc False) blocked cc started)"
  "udp_step sz uns (demo_udp False [7] True [] n tasks (Udp_check_cc False) blocked cc started) Uinternal
     (demo_udp False [7] True [] n tasks (Udp_dequeue False) blocked cc started)"
  "udp_step sz uns (demo_udp True [7] True [] n tasks (Udp_check_cc False) False False started) Ublocked
     (demo_udp True [7] True [] n tasks Udp_idle True True started)"
  "udp_step (\<lambda>_. 1) uns (demo_udp False [7] True [] n tasks (Udp_dequeue False) blocked cc started)
     (Uissued (To_peer demo_ep) (Udp_msg demo_ep 7))
     (demo_udp False [] True [7] n tasks Udp_idle blocked cc started)"
  "udp_step sz uns (demo_udp connected [] True [] n tasks (Udp_test_empty True) blocked cc started) Uinternal
     (demo_udp connected [] True [] n tasks (Udp_clear True) blocked cc started)"
  "udp_step sz uns (demo_udp connected [] True [] n tasks (Udp_clear True) blocked cc started) Uinternal
     (demo_udp connected [] False [] n tasks Udp_recheck blocked cc started)"
  "udp_step sz uns (demo_udp connected [] False [] n tasks Udp_recheck blocked cc started) Uinternal
     (demo_udp connected [] False [] n tasks Udp_idle blocked cc started)"
  by (rule udp_step.micro [where cc = False and custom = False];
      simp add: demo_udp_def udp_defs try_dequeue_def udp_route_def size_sub_def SIZE_MOD_def)+

lemma demo_udp_fails:
  "udp_step sz uns (demo_udp False [] True [7] n tasks Udp_idle False False started) (Uwritten Send_error)
     (demo_udp False [] True [] n tasks (Udp_test_empty True) False False started)"
  using udp_step.complete [of "demo_udp False [] True [7] n tasks Udp_idle False False started" Send_error sz uns]
  by (simp add: demo_udp_def udp_defs)

lemma demo_udp_run:
  "udp_run (\<lambda>_. 1) (\<lambda>a. a = 0) (us_new False demo_ep)
     [Ustarted, Uqueued [Udp_msg demo_ep 7], Uinternal, Uinternal, Uinternal, Uinternal, Uinternal, Uissued (To_peer demo_ep) (Udp_msg demo_ep 7),
      Uinternal, Uwritten Send_error, Uinternal, Uinternal, Uinternal]
     (demo_udp False [] False [] 0 0 Udp_idle False False True)"
  using udp_snoc [OF udp_snoc [OF udp_snoc [OF udp_snoc [OF udp_snoc [OF udp_snoc [OF udp_snoc [OF udp_snoc [OF udp_snoc [OF udp_snoc
    [OF udp_snoc [OF udp_snoc [OF udp_snoc [OF udp_nil
    demo_udp_start] demo_udp_queue] demo_udp_check(1) [where n = 1, unfolded Suc_1]] demo_udp_task [unfolded One_nat_def]] demo_udp_micros(1)]
    demo_udp_micros(2)] demo_udp_micros(3)] demo_udp_micros(5)] demo_udp_check(2) [where n = 0, folded One_nat_def]] demo_udp_fails]
    demo_udp_micros(6)] demo_udp_micros(7)] demo_udp_micros(8)]
  by simp

lemma udp_sends_in_order_witness:
  "[Udp_msg demo_ep 7] = [Udp_msg demo_ep 7] @ us_queue (demo_udp False [] False [] 0 0 Udp_idle False False True)"
  using udp_sends_in_order [OF demo_udp_run] by simp

lemma udp_nothing_left_behind_witness:
  "us_queue (demo_udp False [] False [] 0 0 Udp_idle False False True) = []"
proof -
  let ?s = "demo_udp False [] False [] 0 0 Udp_idle False False True"
  have "\<nexists>blocked s'. udp_drive (\<lambda>_. 1) blocked ?s s'"
    by (auto simp: demo_udp_def elim: udp_drive.cases)
  moreover have "sd_ready (us_snd ?s)" by (simp add: demo_udp_def)
  ultimately show ?thesis using udp_nothing_left_behind [OF demo_udp_run]
    by (auto simp: udp_all_sent_def udp_held_def demo_udp_def)
qed

text \<open>
  A reliable socket whose congestion control has just refused when it is closed keeps the flag: \<open>close\<close> stops
  \<open>TIMER_CC\<close> and nothing but \<open>reset\<close>, which a single-socket service does not call, clears the flag. Started again,
  it has messages to send, is bound, and nothing will ever happen.
\<close>

lemma udp_cc_survives_close:
  "\<exists>s. udp_run (\<lambda>_. 1) (\<lambda>a. a = 0) (us_new True demo_ep)
     [Ustarted, Uqueued [Udp_msg demo_ep 7], Uinternal, Uinternal, Uinternal, Uinternal, Ublocked, Uinternal, Uclosed, Ustarted, Uinternal] s \<and>
     us_started s \<and> sd_ready (us_snd s) \<and> us_queue s = [Udp_msg demo_ep (7 :: nat)] \<and> sd_write (us_snd s) = None \<and>
     (\<nexists>blocked s'. udp_drive (\<lambda>_. 1) blocked s s')"
proof -
  let ?b = "demo_udp True [7] True [] 0 0 Udp_idle True True True"
  let ?r = "demo_udp True [7] True [] 1 0 Udp_idle True False True"
  let ?env = "\<lparr>ue_open_ec = False, ue_bind = Bind_ok, ue_connect_ec = False\<rparr>"
  let ?run = "udp_run (\<lambda>_. 1) (\<lambda>a. a = 0) (us_new True demo_ep)"
  have a: "?run [Ustarted, Uqueued [Udp_msg demo_ep 7], Uinternal, Uinternal, Uinternal, Uinternal, Ublocked, Uinternal] ?b"
    using udp_snoc [OF udp_snoc [OF udp_snoc [OF udp_snoc [OF udp_snoc [OF udp_snoc [OF udp_snoc [OF udp_snoc [OF udp_nil
      demo_udp_start] demo_udp_queue] demo_udp_check(1) [where n = 1, unfolded Suc_1]] demo_udp_task [unfolded One_nat_def]] demo_udp_micros(1)]
      demo_udp_micros(2)] demo_udp_micros(4)] demo_udp_check(2) [where n = 0, folded One_nat_def]]
    by simp
  have "udp_start (\<lambda>a. a = 0) ?env (udp_force_shutdown ?b) = ?r"
    by (simp add: udp_start_def udp_do_start_def udp_bind_def udp_connect_def demo_udp_def demo_ep_def sender_start_def Let_def udp_defs)
  moreover have "\<not> us_started (udp_force_shutdown ?b)" by (simp add: udp_defs demo_udp_def)
  ultimately have st: "udp_step (\<lambda>_. 1) (\<lambda>a. a = 0) (udp_force_shutdown ?b) Ustarted ?r"
    by (metis udp_step.start)
  have "?run [Ustarted, Uqueued [Udp_msg demo_ep 7], Uinternal, Uinternal, Uinternal, Uinternal, Ublocked, Uinternal, Uclosed, Ustarted, Uinternal]
      (demo_udp True [7] True [] 0 0 Udp_idle True False True)"
    using udp_snoc [OF udp_snoc [OF udp_snoc [OF a udp_step.close] st] demo_udp_check(2) [where n = 0, folded One_nat_def]] by simp
  moreover have "\<nexists>blocked s'. udp_drive (\<lambda>_. 1) blocked (demo_udp True [7] True [] 0 0 Udp_idle True False True) s'"
    by (auto simp: demo_udp_def elim: udp_drive.cases)
  ultimately show ?thesis by (intro exI conjI) (auto simp: demo_udp_def)
qed

text \<open>A run of the receiver: started, a datagram of two bytes read into a buffer of one.\<close>

lemma udp_delivers_datagrams_witness:
  "\<exists>r. udp_recv_run 1 100 False 0 rv_new [Handed_over Link_started, Handed_over Tau, Datagram 9 [65, 66]] r \<and>
     pending r = [Udp_msg (9 :: nat) [65]]"
proof -
  let ?r2 = "rv_new\<lparr>rv_reading := True\<rparr> :: (nat, bytes) udp_msg receiver"
  let ?r3 = "udp_recv_handler False 0 9 (\<lambda>can. can) False 1 (write_at 0 [65] [0]) ?r2"
  have a: "udp_recv_step 1 100 False 0 rv_new (Handed_over Link_started) (recv_msg rv_new)"
    by (rule udp_recv_step.start) (simp_all add: rv_new_def)
  have b: "udp_recv_step 1 100 False 0 (recv_msg rv_new) (Handed_over Tau) ?r2"
    using udp_recv_step.recv_task [of "recv_msg rv_new" 1 100 False 0]
    by (simp add: rv_new_def recv_msg_def udp_recv_prepare_def do_recv_msg_def)
  have c: "udp_recv_step 1 100 False 0 ?r2 (Datagram 9 [65, 66]) ?r3"
    using udp_recv_step.datagram [of ?r2 "[65]" 1 "[65, 66]" "[0]" 100 False 0 9] by (simp add: rv_new_def)
  have run: "udp_recv_run 1 100 False 0 rv_new [Handed_over Link_started, Handed_over Tau, Datagram 9 [65, 66]] ?r3"
    using udp_recv_snoc [OF udp_recv_snoc [OF udp_recv_snoc [OF udp_recv_nil a] b] c] by simp
  have "pending ?r3 = [Udp_msg 9 [65]]"
    using udp_delivers_datagrams [OF run] by (simp add: datagram_msgs_def)
  then show ?thesis using run by blast
qed

end
