(* ===== verification/Reliable.thy ===== *)
theory Reliable
  imports Udp
begin

text \<open>
  The reliable UDP socket (\<open>udp/reliable_socket.h\<close>): messages go through a KCP control block. KCP is not part
  of the repository: its operations are the record \<open>kcp_api\<close>, an argument of every definition that calls
  them, and \<open>kcp_documented\<close> says what the code relies on, as documented in \<open>ikcp.h\<close>. What the control block puts on the
  wire is its own business; the clock is an argument.
\<close>

section \<open>State\<close>

record 'k kcp_api =
  k_create :: "32 word \<Rightarrow> 'k"
  k_send :: "'k \<Rightarrow> bytes \<Rightarrow> int \<times> 'k"
  k_input :: "'k \<Rightarrow> bytes \<Rightarrow> int \<times> 'k"
  k_recv :: "'k \<Rightarrow> nat \<Rightarrow> int \<times> bytes \<times> 'k"
  k_update :: "'k \<Rightarrow> 32 word \<Rightarrow> 'k"
  k_check :: "'k \<Rightarrow> 32 word \<Rightarrow> 32 word"
  k_nsnd_que :: "'k \<Rightarrow> 32 word"

text \<open>
  \<open>rl_cc\<close>: \<open>TIMER_CC\<close> is started; \<open>rl_update\<close>: the interval of \<open>TIMER_KCP_UPDATE\<close> when started; \<open>rl_checked\<close>: the
  strand stands between \<open>check_send_cc\<close> and \<open>do_send_msg\<close>; \<open>rl_blocked\<close>: the \<open>sending\<close> flag was left set by a
  refusal of \<open>check_send_cc\<close>; \<open>rl_resumed\<close> counts the calls of \<open>resume_sending\<close>.
\<close>

record 'k reliable =
  rl_kcp :: "'k option"
  rl_max :: "32 word"
  rl_cc :: bool
  rl_update :: "32 word option"
  rl_started :: bool
  rl_checked :: bool
  rl_blocked :: bool
  rl_resumed :: nat

definition rl_new :: "32 word \<Rightarrow> 'k reliable" where
  "rl_new max_nsnd_que = \<lparr>rl_kcp = None, rl_max = max_nsnd_que, rl_cc = False, rl_update = None, rl_started = False,
     rl_checked = False, rl_blocked = False, rl_resumed = 0\<rparr>"

text \<open>The bound of KCP's send queue can be changed at any time, without the mutex.\<close>

definition set_max_nsnd_que :: "32 word \<Rightarrow> 'k reliable \<Rightarrow> 'k reliable" where
  "set_max_nsnd_que max_nsnd_que s = s\<lparr>rl_max := max_nsnd_que\<rparr>"

text \<open>The clock in milliseconds: \<open>iclock64\<close>, and \<open>iclock\<close>, which keeps 32 bits of it.\<close>

definition iclock64 :: "int \<Rightarrow> int \<Rightarrow> int" where
  "iclock64 s u = s * 1000 + u div 1000"

definition iclock :: "int \<Rightarrow> int \<Rightarrow> 32 word" where
  "iclock s u = word_of_int (iclock64 s u)"

section \<open>Operations\<close>

definition create_kcpcb :: "'k kcp_api \<Rightarrow> 32 word \<Rightarrow> 'k reliable \<Rightarrow> 'k option \<times> 'k reliable" where
  "create_kcpcb api conv s =
     (if rl_started s then (None, s)
      else let k = k_create api conv in (Some k, s\<lparr>rl_kcp := Some k\<rparr>))"

definition release_kcp :: "'k reliable \<Rightarrow> 'k reliable" where
  "release_kcp s = s\<lparr>rl_kcp := None\<rparr>"

text \<open>\<open>do_start\<close>; \<open>ok\<close> is the answer of \<open>generic_socket::do_start\<close>.\<close>

definition rl_do_start :: "'k kcp_api \<Rightarrow> 32 word \<Rightarrow> bool \<Rightarrow> 'k reliable \<Rightarrow> 'k reliable" where
  "rl_do_start api now ok s =
     (case rl_kcp s of
        Some k \<Rightarrow> s\<lparr>rl_update := Some (k_check api k now - now), rl_started := ok\<rparr>
      | None \<Rightarrow> s\<lparr>rl_started := ok\<rparr>)"

definition rl_close :: "'k reliable \<Rightarrow> 'k reliable" where
  "rl_close s = s\<lparr>rl_started := False, rl_cc := False, rl_update := None\<rparr>"

definition rl_on_close :: "'k reliable \<Rightarrow> 'k reliable" where
  "rl_on_close s = release_kcp s"

text \<open>What \<open>socket::reset\<close> does to the \<open>sending\<close> flag; it leaves the control block and the bound as they are.\<close>

definition rl_reset :: "'k reliable \<Rightarrow> 'k reliable" where
  "rl_reset s = s\<lparr>rl_blocked := False\<rparr>"

definition check_send_cc :: "'k kcp_api \<Rightarrow> 'k reliable \<Rightarrow> bool \<times> 'k reliable" where
  "check_send_cc api s =
     (case rl_kcp s of
        None \<Rightarrow> (True, s)
      | Some k \<Rightarrow> if k_nsnd_que api k \<le> rl_max s then (True, s) else (False, s\<lparr>rl_cc := True\<rparr>))"

text \<open>True: the message is KCP's business now, also when \<open>ikcp_send\<close> refused it.\<close>

definition rl_do_send_msg :: "'k kcp_api \<Rightarrow> 32 word \<Rightarrow> bytes \<Rightarrow> 'k reliable \<Rightarrow> bool \<times> 'k reliable" where
  "rl_do_send_msg api now msg s =
     (case rl_kcp s of
        None \<Rightarrow> (False, s)
      | Some k \<Rightarrow>
          let (re, k1) = k_send api k msg
          in (True, s\<lparr>rl_kcp := Some (if re < 0 then k1 else k_update api k1 now)\<rparr>))"

fun kcp_feed :: "'k kcp_api \<Rightarrow> 32 word \<Rightarrow> bytes list \<Rightarrow> 'k \<Rightarrow> 'k" where
  "kcp_feed api now [] k = k"
| "kcp_feed api now (msg # msgs) k =
     (let (re, k1) = k_input api k msg in kcp_feed api now msgs (if re < 0 then k1 else k_update api k1 now))"

partial_function (option) kcp_drain :: "'k kcp_api \<Rightarrow> nat \<Rightarrow> 'k \<Rightarrow> bytes list \<Rightarrow> ('k \<times> bytes list) option" where
  "kcp_drain api buf_size k msg_can =
     (let (re, buff, k1) = k_recv api k buf_size
      in if re < 0 then Some (k1, msg_can)
         else kcp_drain api buf_size k1 (udp_compose_msg (take (nat re) buff) msg_can))"

definition pre_handle_msg ::
  "'k kcp_api \<Rightarrow> 32 word \<Rightarrow> nat \<Rightarrow> bytes list \<Rightarrow> 'k reliable \<Rightarrow> (bytes list \<times> 'k reliable) option" where
  "pre_handle_msg api now buf_size msg_can s =
     (case rl_kcp s of
        None \<Rightarrow> Some (msg_can, s)
      | Some k \<Rightarrow>
          (case kcp_drain api buf_size (kcp_feed api now msg_can k) [] of
             None \<Rightarrow> None
           | Some (k1, can) \<Rightarrow> Some (can, s\<lparr>rl_kcp := Some k1\<rparr>)))"

text \<open>\<open>timer_handler\<close>: the answer is whether the timer goes on.\<close>

definition cc_timer_handler :: "'k kcp_api \<Rightarrow> 'k reliable \<Rightarrow> bool \<times> 'k reliable" where
  "cc_timer_handler api s =
     (case rl_kcp s of
        None \<Rightarrow> (False, s)
      | Some k \<Rightarrow>
          if k_nsnd_que api k > rl_max s then (True, s)
          else (False, s\<lparr>rl_blocked := False, rl_resumed := rl_resumed s + 1\<rparr>))"

definition update_timer_handler :: "'k kcp_api \<Rightarrow> 32 word \<Rightarrow> 'k reliable \<Rightarrow> bool \<times> 'k reliable" where
  "update_timer_handler api now s =
     (case rl_kcp s of
        None \<Rightarrow> (False, s)
      | Some k \<Rightarrow>
          let k1 = k_update api k now in (True, s\<lparr>rl_kcp := Some k1, rl_update := Some (k_check api k1 now - now)\<rparr>))"

section \<open>What KCP promises\<close>

text \<open>
  \<open>ready k\<close>: the complete messages that wait to be received, in order. \<open>ikcp_recv\<close> hands over the first one if it
  fits the buffer and returns a negative number, changing nothing, otherwise; \<open>ikcp_send\<close> adds at most \<open>frags\<close>
  segments to the send queue (it refuses messages of more fragments than the window) and the other calls add none;
  a new control block is empty.
\<close>

definition kcp_documented :: "'k kcp_api \<Rightarrow> ('k \<Rightarrow> bytes list) \<Rightarrow> nat \<Rightarrow> bool" where
  "kcp_documented api ready frags \<longleftrightarrow>
     (\<forall>k n. case ready k of
        [] \<Rightarrow> fst (k_recv api k n) < 0 \<and> snd (snd (k_recv api k n)) = k
      | m # ms \<Rightarrow> if length m \<le> n
                  then (\<exists>k1. k_recv api k n = (int (length m), m, k1) \<and> ready k1 = ms \<and> k_nsnd_que api k1 = k_nsnd_que api k)
                  else fst (k_recv api k n) < 0 \<and> snd (snd (k_recv api k n)) = k) \<and>
     (\<forall>k m. unat (k_nsnd_que api (snd (k_send api k m))) \<le> unat (k_nsnd_que api k) + frags) \<and>
     (\<forall>k m. k_nsnd_que api (snd (k_input api k m)) \<le> k_nsnd_que api k) \<and>
     (\<forall>k now. k_nsnd_que api (k_update api k now) \<le> k_nsnd_que api k) \<and>
     (\<forall>conv. k_nsnd_que api (k_create api conv) = 0)"

lemma kcp_recv_ready:
  assumes "kcp_documented api ready frags"
  shows "ready k = m # ms \<Longrightarrow> length m \<le> n \<Longrightarrow>
           \<exists>k1. k_recv api k n = (int (length m), m, k1) \<and> ready k1 = ms \<and> k_nsnd_que api k1 = k_nsnd_que api k"
    and "ready k = [] \<or> length (hd (ready k)) > n \<Longrightarrow> fst (k_recv api k n) < 0 \<and> snd (snd (k_recv api k n)) = k"
proof -
  have r: "case ready k of
        [] \<Rightarrow> fst (k_recv api k n) < 0 \<and> snd (snd (k_recv api k n)) = k
      | m # ms \<Rightarrow> if length m \<le> n
                  then (\<exists>k1. k_recv api k n = (int (length m), m, k1) \<and> ready k1 = ms \<and> k_nsnd_que api k1 = k_nsnd_que api k)
                  else fst (k_recv api k n) < 0 \<and> snd (snd (k_recv api k n)) = k"
    using assms unfolding kcp_documented_def by blast
  show "ready k = m # ms \<Longrightarrow> length m \<le> n \<Longrightarrow>
           \<exists>k1. k_recv api k n = (int (length m), m, k1) \<and> ready k1 = ms \<and> k_nsnd_que api k1 = k_nsnd_que api k"
    using r by simp
  show "ready k = [] \<or> length (hd (ready k)) > n \<Longrightarrow> fst (k_recv api k n) < 0 \<and> snd (snd (k_recv api k n)) = k"
    using r by (cases "ready k") auto
qed

lemma kcp_queue_laws:
  assumes "kcp_documented api ready frags"
  shows "unat (k_nsnd_que api (snd (k_send api k m))) \<le> unat (k_nsnd_que api k) + frags"
    and "k_nsnd_que api (snd (k_input api k m)) \<le> k_nsnd_que api k"
    and "k_nsnd_que api (k_update api k now) \<le> k_nsnd_que api k"
    and "k_nsnd_que api (k_create api conv) = 0"
  using assms unfolding kcp_documented_def by blast+

lemma kcp_drain_spec:
  assumes d: "kcp_documented api ready frags"
  shows "\<exists>k1. kcp_drain api n k can = Some (k1, can @ takeWhile (\<lambda>m. length m \<le> n) (ready k)) \<and>
     ready k1 = dropWhile (\<lambda>m. length m \<le> n) (ready k) \<and> k_nsnd_que api k1 = k_nsnd_que api k"
proof (induction "ready k" arbitrary: k can)
  case Nil
  then have "fst (k_recv api k n) < 0" "snd (snd (k_recv api k n)) = k" using kcp_recv_ready(2) [OF d] by metis+
  then show ?case using Nil by (subst kcp_drain.simps) (auto simp: split_beta Let_def)
next
  case (Cons m ms)
  show ?case
  proof (cases "length m \<le> n")
    case True
    then obtain k1 where k: "k_recv api k n = (int (length m), m, k1)" "ready k1 = ms" "k_nsnd_que api k1 = k_nsnd_que api k"
      using kcp_recv_ready(1) [OF d] Cons(2) by metis
    obtain k2 where "kcp_drain api n k1 (can @ [m]) = Some (k2, (can @ [m]) @ takeWhile (\<lambda>m. length m \<le> n) ms)"
      "ready k2 = dropWhile (\<lambda>m. length m \<le> n) ms" "k_nsnd_que api k2 = k_nsnd_que api k"
      using Cons(1) [OF k(2) [symmetric], of "can @ [m]"] k by metis
    then show ?thesis using k Cons(2) [symmetric] True
      by (subst kcp_drain.simps) (simp add: udp_compose_msg_def)
  next
    case False
    then have "fst (k_recv api k n) < 0" "snd (snd (k_recv api k n)) = k"
      using kcp_recv_ready(2) [OF d, of k n] Cons(2) by (metis list.sel(1) not_le)+
    then show ?thesis using Cons(2) [symmetric] False
      by (subst kcp_drain.simps) (auto simp: split_beta Let_def)
  qed
qed

lemma kcp_feed_nsnd:
  assumes "kcp_documented api ready frags"
  shows "k_nsnd_que api (kcp_feed api now msgs k) \<le> k_nsnd_que api k"
proof (induction msgs arbitrary: k)
  case (Cons m ms)
  obtain re k1 where i: "k_input api k m = (re, k1)" by fastforce
  have "k_nsnd_que api k1 \<le> k_nsnd_que api k" using kcp_queue_laws(2) [OF assms, of k m] i by simp
  moreover have "k_nsnd_que api (k_update api k1 now) \<le> k_nsnd_que api k1" by (rule kcp_queue_laws(3) [OF assms])
  ultimately show ?case using Cons [of k1] Cons [of "k_update api k1 now"] i by (auto intro: order_trans)
qed simp

section \<open>All interleavings\<close>

text \<open>
  What the strand, the timers and the user do: \<open>check\<close> and \<open>send\<close> are the two halves of \<open>generic_socket::do_send_msg\<close>
  on a connected socket (theory Udp), \<open>cc_timer\<close> and \<open>update_timer\<close> the expiries of the timers, \<open>set_max\<close> a call of
  \<open>set_max_nsnd_que\<close>. \<open>close\<close> is \<open>socket::close\<close> or the stopping of the timers by
  \<open>TIMER_DELAY_CLOSE\<close>, which calls \<open>on_close\<close> when no asynchronous call, so no timer, is left; the socket can be \<open>reset\<close>
  then.
\<close>

inductive rl_step :: "'k kcp_api \<Rightarrow> nat \<Rightarrow> 'k reliable \<Rightarrow> 'k reliable \<Rightarrow> bool"
  for api :: "'k kcp_api" and buf_size :: nat where
  create: "\<not> rl_checked s \<Longrightarrow> create_kcpcb api conv s = (k, s') \<Longrightarrow> rl_step api buf_size s s'"
| start: "\<not> rl_started s \<Longrightarrow> rl_step api buf_size s (rl_do_start api now ok s)"
| check: "\<not> rl_checked s \<Longrightarrow> \<not> rl_blocked s \<Longrightarrow> check_send_cc api s = (ok, s') \<Longrightarrow>
    rl_step api buf_size s (s'\<lparr>rl_checked := ok, rl_blocked := \<not> ok\<rparr>)"
| send: "rl_checked s \<Longrightarrow> rl_do_send_msg api now msg s = (custom, s') \<Longrightarrow> rl_step api buf_size s (s'\<lparr>rl_checked := False\<rparr>)"
| receive: "pre_handle_msg api now buf_size msgs s = Some (can, s') \<Longrightarrow> rl_step api buf_size s s'"
| cc_timer: "rl_cc s \<Longrightarrow> cc_timer_handler api s = (go_on, s') \<Longrightarrow> rl_step api buf_size s (s'\<lparr>rl_cc := go_on\<rparr>)"
| update_timer: "rl_update s \<noteq> None \<Longrightarrow> update_timer_handler api now s = (go_on, s') \<Longrightarrow>
    rl_step api buf_size s (if go_on then s' else s'\<lparr>rl_update := None\<rparr>)"
| close: "rl_step api buf_size s (rl_close s)"
| on_close: "\<not> rl_started s \<Longrightarrow> \<not> rl_checked s \<Longrightarrow> \<not> rl_cc s \<Longrightarrow> rl_update s = None \<Longrightarrow>
    rl_step api buf_size s (rl_on_close s)"
| reset: "\<not> rl_started s \<Longrightarrow> \<not> rl_checked s \<Longrightarrow> \<not> rl_cc s \<Longrightarrow> rl_update s = None \<Longrightarrow>
    rl_step api buf_size s (rl_reset s)"
| set_max: "rl_step api buf_size s (set_max_nsnd_que max_nsnd_que s)"

text \<open>
  \<open>rl_inv api seen bound s\<close>: no limit above \<open>seen\<close> is in force, the send queue of KCP holds at most \<open>bound\<close> segments, and
  at most \<open>seen\<close> when \<open>check_send_cc\<close> has just said yes.
\<close>

definition rl_inv :: "'k kcp_api \<Rightarrow> nat \<Rightarrow> nat \<Rightarrow> 'k reliable \<Rightarrow> bool" where
  "rl_inv api seen bound s \<longleftrightarrow> unat (rl_max s) \<le> seen \<and>
     (\<forall>k. rl_kcp s = Some k \<longrightarrow> unat (k_nsnd_que api k) \<le> bound \<and> (rl_checked s \<longrightarrow> unat (k_nsnd_que api k) \<le> seen)) \<and>
     (rl_cc s \<longrightarrow> rl_blocked s \<and> rl_kcp s \<noteq> None) \<and> (rl_blocked s \<longrightarrow> \<not> rl_checked s)"

lemma pre_handle_nsnd:
  assumes "kcp_documented api ready frags" "pre_handle_msg api now buf_size msgs s = Some (can, s')"
  shows "(\<forall>k1. rl_kcp s' = Some k1 \<longrightarrow> (\<exists>k. rl_kcp s = Some k \<and> k_nsnd_que api k1 \<le> k_nsnd_que api k)) \<and>
     s' = s\<lparr>rl_kcp := rl_kcp s'\<rparr> \<and> (rl_kcp s' = None \<longleftrightarrow> rl_kcp s = None)"
proof (cases "rl_kcp s")
  case None
  then show ?thesis using assms(2) by (auto simp: pre_handle_msg_def)
next
  case (Some k)
  obtain k1 where k1: "kcp_drain api buf_size (kcp_feed api now msgs k) [] =
      Some (k1, [] @ takeWhile (\<lambda>m. length m \<le> buf_size) (ready (kcp_feed api now msgs k)))"
    "k_nsnd_que api k1 = k_nsnd_que api (kcp_feed api now msgs k)"
    using kcp_drain_spec [OF assms(1)] by metis
  then show ?thesis using assms(2) Some kcp_feed_nsnd [OF assms(1), of now msgs k]
    by (auto simp: pre_handle_msg_def)
qed

lemma rl_inv_step:
  assumes d: "kcp_documented api ready frags" and b: "seen + frags \<le> bound"
  shows "rl_step api buf_size s s' \<Longrightarrow> unat (rl_max s') \<le> seen \<Longrightarrow> rl_inv api seen bound s \<Longrightarrow> rl_inv api seen bound s'"
proof (induction rule: rl_step.induct)
  case (create s conv k s')
  then show ?case using kcp_queue_laws(4) [OF d]
    by (auto simp: create_kcpcb_def rl_inv_def Let_def split: if_splits)
next
  case (start s now ok)
  then show ?case by (auto simp: rl_do_start_def rl_inv_def split: option.splits)
next
  case (check s ok s')
  then show ?case by (auto simp: check_send_cc_def rl_inv_def word_le_nat_alt split: option.splits if_splits)
next
  case (send s now msg custom s')
  show ?case
  proof (cases "rl_kcp s")
    case None
    then show ?thesis using send by (auto simp: rl_do_send_msg_def rl_inv_def)
  next
    case (Some k)
    obtain re k1 where k: "k_send api k msg = (re, k1)" by fastforce
    have "unat (k_nsnd_que api k) \<le> seen" using send Some by (simp add: rl_inv_def)
    then have "unat (k_nsnd_que api k1) \<le> bound" using kcp_queue_laws(1) [OF d, of k msg] k b by simp
    moreover have "unat (k_nsnd_que api (k_update api k1 now)) \<le> unat (k_nsnd_que api k1)"
      using kcp_queue_laws(3) [OF d] by (simp add: word_le_nat_alt)
    ultimately show ?thesis using send Some k by (auto simp: rl_do_send_msg_def rl_inv_def split: if_splits)
  qed
next
  case (receive now msgs s can s')
  note p = pre_handle_nsnd [OF d receive(1)]
  have e: "rl_max s' = rl_max s" "rl_checked s' = rl_checked s" "rl_cc s' = rl_cc s" "rl_blocked s' = rl_blocked s"
    using p by (metis reliable.select_convs reliable.surjective reliable.update_convs)+
  have "unat (k_nsnd_que api k1) \<le> bound \<and> (rl_checked s \<longrightarrow> unat (k_nsnd_que api k1) \<le> seen)" if k1: "rl_kcp s' = Some k1" for k1
  proof -
    obtain k where k: "rl_kcp s = Some k" "unat (k_nsnd_que api k1) \<le> unat (k_nsnd_que api k)"
      using p k1 unfolding word_le_nat_alt by blast
    then show ?thesis using receive(3) by (auto simp: rl_inv_def)
  qed
  then show ?case using p receive(3) unfolding rl_inv_def e by blast
next
  case (cc_timer s go_on s')
  then show ?case by (auto simp: cc_timer_handler_def rl_inv_def split: option.splits if_splits)
next
  case (update_timer s now go_on s')
  show ?case
  proof (cases "rl_kcp s")
    case None
    then show ?thesis using update_timer by (auto simp: update_timer_handler_def rl_inv_def)
  next
    case (Some k)
    have "unat (k_nsnd_que api (k_update api k now)) \<le> unat (k_nsnd_que api k)"
      using kcp_queue_laws(3) [OF d] by (simp add: word_le_nat_alt)
    then show ?thesis using update_timer Some
      by (auto simp: update_timer_handler_def rl_inv_def Let_def)
  qed
qed (auto simp: rl_close_def rl_on_close_def release_kcp_def rl_reset_def set_max_nsnd_que_def rl_inv_def)

lemma rl_inv_steps:
  assumes "kcp_documented api ready frags" "seen + frags \<le> bound" "rl_inv api seen bound s"
    and "(\<lambda>a b. rl_step api buf_size a b \<and> unat (rl_max b) \<le> seen)\<^sup>*\<^sup>* s t"
  shows "rl_inv api seen bound t"
  using assms(4,3) by (induction rule: rtranclp_induct) (use rl_inv_step [OF assms(1,2)] in blast)+

lemma rl_inv_new: "unat max_nsnd_que \<le> seen \<Longrightarrow> rl_inv api seen bound (rl_new max_nsnd_que)"
  by (simp add: rl_inv_def rl_new_def)

text \<open>
  While the socket stays started, a refusal always has the timer that will ask again; but one that has lost it, by
  a close, never gets it back.
\<close>

lemma rl_cc_step:
  "rl_step api buf_size s t \<Longrightarrow> rl_started t \<Longrightarrow> (rl_cc s \<longrightarrow> rl_kcp s \<noteq> None) \<Longrightarrow> (rl_blocked s \<longrightarrow> rl_cc s) \<Longrightarrow>
     (rl_blocked t \<longrightarrow> rl_cc t)"
proof (induction rule: rl_step.induct)
  case (create s conv k s')
  then show ?case by (auto simp: create_kcpcb_def Let_def split: if_splits)
next
  case (start s now ok)
  then show ?case by (auto simp: rl_do_start_def split: option.splits)
next
  case (check s ok s')
  then show ?case by (auto simp: check_send_cc_def split: option.splits if_splits)
next
  case (send s now msg custom s')
  then show ?case by (auto simp: rl_do_send_msg_def split: option.splits prod.splits)
next
  case (receive now msgs s can s')
  then show ?case by (auto simp: pre_handle_msg_def split: option.splits)
next
  case (cc_timer s go_on s')
  then show ?case by (auto simp: cc_timer_handler_def split: option.splits if_splits)
next
  case (update_timer s now go_on s')
  then show ?case by (auto simp: update_timer_handler_def Let_def split: option.splits)
qed (auto simp: rl_close_def rl_on_close_def release_kcp_def rl_reset_def set_max_nsnd_que_def)

lemma rl_lost_step:
  "rl_step api buf_size s t \<Longrightarrow> rl_started s \<Longrightarrow> rl_blocked s \<Longrightarrow> \<not> rl_cc s \<Longrightarrow> \<not> rl_checked s \<Longrightarrow>
     rl_blocked t \<and> \<not> rl_cc t \<and> \<not> rl_checked t"
proof (induction rule: rl_step.induct)
  case (create s conv k s')
  then show ?case by (simp add: create_kcpcb_def)
next
  case (receive now msgs s can s')
  then show ?case by (auto simp: pre_handle_msg_def split: option.splits)
next
  case (update_timer s now go_on s')
  then show ?case by (auto simp: update_timer_handler_def Let_def split: option.splits)
qed (auto simp: rl_close_def set_max_nsnd_que_def)

lemma rl_lost_steps:
  "(\<lambda>a b. rl_step api buf_size a b \<and> rl_started b)\<^sup>*\<^sup>* s t \<Longrightarrow> rl_started s \<Longrightarrow> rl_blocked s \<Longrightarrow> \<not> rl_cc s \<Longrightarrow> \<not> rl_checked s \<Longrightarrow>
     rl_started t \<and> rl_blocked t \<and> \<not> rl_cc t \<and> \<not> rl_checked t"
  by (induction rule: rtranclp_induct) (auto dest: rl_lost_step)

text \<open>A sender that waits for the timer has a control block.\<close>

definition rl_waits :: "'k reliable \<Rightarrow> bool" where
  "rl_waits s \<longleftrightarrow> (rl_cc s \<longrightarrow> rl_kcp s \<noteq> None)"

lemma rl_waits_step: "rl_step api buf_size s t \<Longrightarrow> rl_waits s \<Longrightarrow> rl_waits t"
proof (induction rule: rl_step.induct)
  case (create s conv k s')
  then show ?case by (auto simp: rl_waits_def create_kcpcb_def Let_def split: if_splits)
next
  case (start s now ok)
  then show ?case by (auto simp: rl_waits_def rl_do_start_def split: option.splits)
next
  case (check s ok s')
  then show ?case by (auto simp: rl_waits_def check_send_cc_def split: option.splits if_splits)
next
  case (send s now msg custom s')
  then show ?case by (auto simp: rl_waits_def rl_do_send_msg_def split: option.splits prod.splits)
next
  case (receive now msgs s can s')
  then show ?case by (auto simp: rl_waits_def pre_handle_msg_def split: option.splits)
next
  case (cc_timer s go_on s')
  then show ?case by (auto simp: rl_waits_def cc_timer_handler_def split: option.splits if_splits)
next
  case (update_timer s now go_on s')
  then show ?case by (auto simp: rl_waits_def update_timer_handler_def Let_def split: option.splits)
qed (auto simp: rl_waits_def rl_close_def rl_on_close_def release_kcp_def rl_reset_def set_max_nsnd_que_def)

lemma rl_live_steps:
  "(\<lambda>a b. rl_step api buf_size a b \<and> rl_started b)\<^sup>*\<^sup>* s t \<Longrightarrow> rl_waits s \<Longrightarrow> (rl_blocked s \<longrightarrow> rl_cc s) \<Longrightarrow>
     rl_waits t \<and> (rl_blocked t \<longrightarrow> rl_cc t)"
proof (induction rule: rtranclp_induct)
  case (step t u)
  then have t: "rl_waits t" "rl_blocked t \<longrightarrow> rl_cc t" "rl_step api buf_size t u" "rl_started u" by blast+
  show ?case using rl_cc_step [OF t(3,4) _ t(2)] rl_waits_step [OF t(3,1)] t(1) unfolding rl_waits_def by blast
qed simp

text \<open>The segments that wait in KCP.\<close>

definition rl_segments :: "'k kcp_api \<Rightarrow> 'k reliable \<Rightarrow> nat" where
  "rl_segments api s = (case rl_kcp s of None \<Rightarrow> 0 | Some k \<Rightarrow> unat (k_nsnd_que api k))"

lemma rl_inv_lowered:
  assumes "kcp_documented api ready frags" "rl_inv api seen bound s"
    and "\<not> rl_checked s" "(\<lambda>a b. rl_step api buf_size a b \<and> rl_max b = rl_max s)\<^sup>*\<^sup>* s t"
  shows "rl_inv api (unat (rl_max s)) (max (rl_segments api s) (unat (rl_max s) + frags)) t"
proof (rule rl_inv_steps [OF assms(1)])
  show "rl_inv api (unat (rl_max s)) (max (rl_segments api s) (unat (rl_max s) + frags)) s"
    using assms(2,3) by (auto simp: rl_inv_def rl_segments_def)
  have "(\<lambda>a b. rl_step api buf_size a b \<and> rl_max b = rl_max s) \<le> (\<lambda>a b. rl_step api buf_size a b \<and> unat (rl_max b) \<le> unat (rl_max s))"
    by auto
  then show "(\<lambda>a b. rl_step api buf_size a b \<and> unat (rl_max b) \<le> unat (rl_max s))\<^sup>*\<^sup>* s t"
    using assms(4) rtranclp_mono by blast
qed simp

section \<open>Properties\<close>

text \<open>
  C24. Flow control of the reliable socket, for every interleaving of the strand, the timers and the user, who
  may change \<open>max_nsnd_que\<close> at any time. If no limit above \<open>seen\<close> was set, the send queue of KCP never holds more than
  \<open>seen\<close> segments and those of one message, and at most \<open>seen\<close> when a message is about to be given to it. A limit
  that was lowered takes effect with the next \<open>check_send_cc\<close>: as long as it is not changed again, the queue only
  shrinks, down to the limit and one message. When sending was not blocked, then as long as the socket stays
  started a blocked sender has \<open>TIMER_CC\<close> running, and an expiry of that timer resumes sending exactly when the queue
  is within its limit, and comes again otherwise. But a sender that is blocked without the timer, because the
  socket was closed meanwhile (and started again without \<open>reset\<close>), stays so and gives nothing to KCP.
\<close>
theorem reliable_flow_control:
  assumes "kcp_documented api ready frags" and "unat max_nsnd_que \<le> seen"
    and "(\<lambda>a b. rl_step api buf_size a b \<and> unat (rl_max b) \<le> seen)\<^sup>*\<^sup>* (rl_new max_nsnd_que) s"
  shows "(\<forall>k. rl_kcp s = Some k \<longrightarrow>
            unat (k_nsnd_que api k) \<le> seen + frags \<and> (rl_checked s \<longrightarrow> unat (k_nsnd_que api k) \<le> seen)) \<and>
         (\<forall>t k. \<not> rl_checked s \<and> (\<lambda>a b. rl_step api buf_size a b \<and> rl_max b = rl_max s)\<^sup>*\<^sup>* s t \<and> rl_kcp t = Some k \<longrightarrow>
            (rl_checked t \<longrightarrow> k_nsnd_que api k \<le> rl_max s) \<and>
            unat (k_nsnd_que api k) \<le> max (rl_segments api s) (unat (rl_max s) + frags)) \<and>
         (\<not> rl_blocked s \<longrightarrow>
            (\<forall>t. (\<lambda>a b. rl_step api buf_size a b \<and> rl_started b)\<^sup>*\<^sup>* s t \<longrightarrow> rl_blocked t \<longrightarrow> rl_cc t)) \<and>
         (rl_cc s \<longrightarrow> (\<exists>k. rl_kcp s = Some k \<and>
            cc_timer_handler api s =
              (if k_nsnd_que api k \<le> rl_max s then (False, s\<lparr>rl_blocked := False, rl_resumed := rl_resumed s + 1\<rparr>) else (True, s)))) \<and>
         (rl_blocked s \<and> \<not> rl_cc s \<and> rl_started s \<longrightarrow>
            (\<forall>t. (\<lambda>a b. rl_step api buf_size a b \<and> rl_started b)\<^sup>*\<^sup>* s t \<longrightarrow> rl_blocked t \<and> \<not> rl_cc t \<and> \<not> rl_checked t))"
proof (intro conjI impI allI)
  have i: "rl_inv api seen (seen + frags) s" by (rule rl_inv_steps [OF assms(1) _ rl_inv_new [OF assms(2)] assms(3)]) simp
  show "unat (k_nsnd_que api k) \<le> seen"
    if "rl_kcp s = Some k" "rl_checked s" for k
    using that i by (auto simp: rl_inv_def)
  show "unat (k_nsnd_que api k) \<le> seen + frags" if "rl_kcp s = Some k" for k using that i by (auto simp: rl_inv_def)
  note lowered = rl_inv_lowered [OF assms(1) i]
  show "k_nsnd_que api k \<le> rl_max s"
    if "\<not> rl_checked s \<and> (\<lambda>a b. rl_step api buf_size a b \<and> rl_max b = rl_max s)\<^sup>*\<^sup>* s t \<and> rl_kcp t = Some k" "rl_checked t" for t k
    using that lowered by (auto simp: rl_inv_def word_le_nat_alt)
  show "unat (k_nsnd_que api k) \<le> max (rl_segments api s) (unat (rl_max s) + frags)"
    if "\<not> rl_checked s \<and> (\<lambda>a b. rl_step api buf_size a b \<and> rl_max b = rl_max s)\<^sup>*\<^sup>* s t \<and> rl_kcp t = Some k" for t k
    using that lowered by (auto simp: rl_inv_def)
  show "rl_cc t" if "\<not> rl_blocked s" "(\<lambda>a b. rl_step api buf_size a b \<and> rl_started b)\<^sup>*\<^sup>* s t" "rl_blocked t" for t
    using rl_live_steps [OF that(2)] that i by (auto simp: rl_inv_def rl_waits_def)
  show "\<exists>k. rl_kcp s = Some k \<and> cc_timer_handler api s =
      (if k_nsnd_que api k \<le> rl_max s then (False, s\<lparr>rl_blocked := False, rl_resumed := rl_resumed s + 1\<rparr>) else (True, s))"
    if "rl_cc s"
    using that i by (cases "rl_kcp s") (simp_all add: rl_inv_def cc_timer_handler_def not_le)
  show "rl_blocked t" "\<not> rl_cc t" "\<not> rl_checked t"
    if "rl_blocked s \<and> \<not> rl_cc s \<and> rl_started s" "(\<lambda>a b. rl_step api buf_size a b \<and> rl_started b)\<^sup>*\<^sup>* s t" for t
    using rl_lost_steps [OF that(2)] that(1) i by (auto simp: rl_inv_def)
qed

text \<open>
  Receiving from KCP ends. After the datagrams were given to KCP, the loop of \<open>pre_handle_msg\<close> returns,
  with the messages KCP has ready, in order, up to the first one that does not fit \<open>ASCS_MSG_BUFFER_SIZE\<close>; these
  have left KCP and the others stay. So nothing that fits is left behind, unless a longer message stands before
  it: that one is never received and blocks all that follow, whatever comes in.
\<close>
theorem reliable_receive_ends:
  assumes "kcp_documented api ready frags" and "rl_kcp s = Some k"
  shows "\<exists>k1. pre_handle_msg api now buf_size msgs s =
           Some (takeWhile (\<lambda>m. length m \<le> buf_size) (ready (kcp_feed api now msgs k)), s\<lparr>rl_kcp := Some k1\<rparr>) \<and>
         ready k1 = dropWhile (\<lambda>m. length m \<le> buf_size) (ready (kcp_feed api now msgs k)) \<and>
         (ready k1 = [] \<or> (\<forall>can. kcp_drain api buf_size k1 can = Some (k1, can)))"
proof -
  let ?f = "kcp_feed api now msgs k" and ?fits = "\<lambda>m :: bytes. length m \<le> buf_size"
  obtain k1 where k1: "kcp_drain api buf_size ?f [] = Some (k1, [] @ takeWhile ?fits (ready ?f))" "ready k1 = dropWhile ?fits (ready ?f)"
    using kcp_drain_spec [OF assms(1)] by metis
  have "kcp_drain api buf_size k1 can = Some (k1, can)" if "ready k1 \<noteq> []" for can
  proof -
    have "length (hd (ready k1)) > buf_size" using that hd_dropWhile [of ?fits "ready ?f"] k1(2) by auto
    then have "fst (k_recv api k1 buf_size) < 0" "snd (snd (k_recv api k1 buf_size)) = k1"
      using kcp_recv_ready(2) [OF assms(1)] by metis+
    then show ?thesis by (subst kcp_drain.simps) (auto simp: split_beta Let_def)
  qed
  then show ?thesis using k1 assms(2) by (auto simp: pre_handle_msg_def)
qed

text \<open>A control block that counts one segment per message and delivers what is put in.\<close>

definition demo_kcp :: "(bytes list \<times> 32 word) kcp_api" where
  "demo_kcp = \<lparr>k_create = \<lambda>conv. ([], 0), k_send = \<lambda>k m. (0, (fst k, snd k + 1)), k_input = \<lambda>k m. (0, (fst k @ [m], snd k)),
     k_recv = \<lambda>k n. (case fst k of [] \<Rightarrow> (-1, [], k) | m # ms \<Rightarrow> if length m \<le> n then (int (length m), m, (ms, snd k)) else (-3, [], k)),
     k_update = \<lambda>k now. k, k_check = \<lambda>k now. now + 10, k_nsnd_que = snd\<rparr>"

lemma demo_kcp_documented: "kcp_documented demo_kcp fst 1"
  by (auto simp: kcp_documented_def demo_kcp_def unat_word_ariths split: list.splits)

lemma reliable_flow_control_witness:
  "unat (k_nsnd_que demo_kcp ([] :: bytes list, 1)) \<le> unat (0 :: 32 word) + 1"
proof -
  let ?s1 = "(rl_new 0)\<lparr>rl_kcp := Some ([] :: bytes list, 0)\<rparr>"
  let ?s2 = "?s1\<lparr>rl_update := Some 10, rl_started := True\<rparr>"
  let ?s3 = "?s2\<lparr>rl_checked := True, rl_blocked := False\<rparr>"
  let ?s4 = "(?s2\<lparr>rl_kcp := Some ([], 1), rl_checked := True, rl_blocked := False\<rparr>)\<lparr>rl_checked := False\<rparr>"
  have a: "rl_step demo_kcp 100 (rl_new 0) ?s1"
    by (rule rl_step.create [where conv = 5 and k = "Some ([], 0)"]) (simp_all add: rl_new_def create_kcpcb_def demo_kcp_def Let_def)
  have b: "rl_step demo_kcp 100 ?s1 ?s2"
    using rl_step.start [of ?s1 demo_kcp 100 7 True] by (simp add: rl_new_def rl_do_start_def demo_kcp_def)
  have c: "rl_step demo_kcp 100 ?s2 ?s3"
    using rl_step.check [of ?s2 demo_kcp True ?s2 100] by (simp add: rl_new_def check_send_cc_def demo_kcp_def)
  have d: "rl_step demo_kcp 100 ?s3 ?s4"
    by (rule rl_step.send [where now = 7 and msg = "[65]" and custom = True])
      (simp_all add: rl_new_def rl_do_send_msg_def demo_kcp_def)
  let ?step = "\<lambda>a b. rl_step demo_kcp 100 a b \<and> unat (rl_max b) \<le> 0"
  have m: "unat (rl_max ?s1) \<le> 0" "unat (rl_max ?s2) \<le> 0" "unat (rl_max ?s3) \<le> 0" "unat (rl_max ?s4) \<le> 0"
    by (simp_all add: rl_new_def)
  have "?step\<^sup>*\<^sup>* (rl_new 0) ?s4"
    by (rule rtranclp.rtrancl_into_rtrancl [OF rtranclp.rtrancl_into_rtrancl [OF rtranclp.rtrancl_into_rtrancl
          [OF r_into_rtranclp [of ?step, OF conjI [OF a m(1)]] conjI [OF b m(2)]] conjI [OF c m(3)]] conjI [OF d m(4)]])
  from reliable_flow_control [OF demo_kcp_documented _ this] show ?thesis by (simp add: rl_new_def)
qed

lemma reliable_receive_ends_witness:
  "\<exists>k1. pre_handle_msg demo_kcp 7 1 [[65], [66, 67], [68]] ((rl_new 0)\<lparr>rl_kcp := Some ([], 0)\<rparr>) =
     Some ([[65]], ((rl_new 0)\<lparr>rl_kcp := Some ([], 0)\<rparr>)\<lparr>rl_kcp := Some k1\<rparr>) \<and> fst k1 = [[66, 67], [68]]"
proof -
  have "kcp_feed demo_kcp 7 [[65], [66, 67], [68]] ([], 0) = ([[65], [66, 67], [68]], 0)" by (simp add: demo_kcp_def)
  then show ?thesis
    using reliable_receive_ends [OF demo_kcp_documented, of "(rl_new 0)\<lparr>rl_kcp := Some ([], 0)\<rparr>" "([], 0)" 7 1 "[[65], [66, 67], [68]]"]
    by auto
qed

end
