(* ===== verification/Server.thy ===== *)
theory Server
  imports Ascs_Prelude Object_Pool
begin

text \<open>
  The containers of links: the TCP server (\<open>tcp/server.h\<close>) with its accept loop, and the multi-socket service
  behind multi-link clients and UDP services (\<open>socket_service.h\<close>, \<open>tcp/client.h\<close>, \<open>udp/socket_service.h\<close>),
  all over the object pool of theory Object_Pool. What is asked of the links themselves (theories Link_Life, Udp
  and Send_Path say what they do then) is recorded in \<open>sv_acts\<close>. The acceptor is Boost.Asio's: when an
  \<open>async_accept\<close> completes, and how, is the environment's choice, as are the answers of \<open>bind\<close>, \<open>listen\<close> and
  \<open>make_shared\<close>.
\<close>

section \<open>State\<close>

datatype sv_act =
    Act_start ptr
  | Act_force_shutdown ptr
  | Act_disconnect ptr
  | Act_graceful_shutdown ptr
  | Act_take_over ptr ptr
  | Act_send ptr
  | Act_add_refs ptr "32 word"
  | Act_pool_start
  | Act_pool_stop

datatype accept_ec = Accept_ok | Accept_aborted | Accept_error

text \<open>
  \<open>sv_accepts\<close>: the sockets of the outstanding \<open>async_accept\<close>s; \<open>sv_done\<close>: those of completed ones whose
  handler has not run; \<open>sv_made\<close>: all sockets created so far; \<open>sv_lost\<close>: how often \<open>start_next_accept\<close> could not
  create a socket.
\<close>

record server =
  sv_pool :: pool
  sv_listening :: bool
  sv_open :: bool
  sv_accepts :: "ptr list"
  sv_done :: "(ptr \<times> accept_ec) list"
  sv_running :: bool
  sv_acts :: "sv_act list"
  sv_made :: "ptr list"
  sv_lost :: nat

definition server_new :: "(ptr \<Rightarrow> object_id) \<Rightarrow> server" where
  "server_new ids = \<lparr>sv_pool = pool_new ids, sv_listening = False, sv_open = False, sv_accepts = [], sv_done = [],
     sv_running = False, sv_acts = [], sv_made = [], sv_lost = 0\<rparr>"

definition act :: "sv_act list \<Rightarrow> server \<Rightarrow> server" where
  "act as s = s\<lparr>sv_acts := sv_acts s @ as\<rparr>"

definition links :: "server \<Rightarrow> ptr list" where
  "links s = map snd (pl_can (sv_pool s))"

definition do_something_to_all :: "(ptr \<Rightarrow> sv_act) \<Rightarrow> server \<Rightarrow> server" where
  "do_something_to_all f s = act (map f (links s)) s"

section \<open>Accepting\<close>

definition sv_create_object :: "ptr option \<Rightarrow> server \<Rightarrow> ptr option \<times> server" where
  "sv_create_object mk s =
     (let (object_ptr, p) = create_object mk (sv_pool s)
      in (object_ptr, s\<lparr>sv_pool := p, sv_made := sv_made s @ (case mk of None \<Rightarrow> [] | Some o1 \<Rightarrow> [o1])\<rparr>))"

text \<open>\<open>do_async_accept\<close>: nothing without a socket; on a closed acceptor the accept fails at once.\<close>

definition do_async_accept :: "ptr option \<Rightarrow> server \<Rightarrow> server" where
  "do_async_accept socket_ptr s =
     (case socket_ptr of
        None \<Rightarrow> s\<lparr>sv_lost := sv_lost s + 1\<rparr>
      | Some o1 \<Rightarrow> if sv_open s then s\<lparr>sv_accepts := sv_accepts s @ [o1]\<rparr> else s\<lparr>sv_done := sv_done s @ [(o1, Accept_error)]\<rparr>)"

definition start_next_accept :: "ptr option \<Rightarrow> server \<Rightarrow> server" where
  "start_next_accept mk s = (let (object_ptr, s1) = sv_create_object mk s in do_async_accept object_ptr s1)"

text \<open>The loop of \<open>start_listen\<close>: sockets are created until the number is reached or a creation fails.\<close>

fun pre_create :: "nat \<Rightarrow> ptr option list \<Rightarrow> server \<Rightarrow> ptr list \<times> server" where
  "pre_create 0 mks s = ([], s)"
| "pre_create (Suc num) mks s =
     (let (object_ptr, s1) = sv_create_object (case mks of [] \<Rightarrow> None | mk # _ \<Rightarrow> mk) s
      in case object_ptr of
           None \<Rightarrow> ([], s1)
         | Some o1 \<Rightarrow> let (os, s2) = pre_create num (tl mks) s1 in (o1 # os, s2))"

record listen_env =
  le_bind_ec :: bool
  le_listen_ec :: bool
  le_num :: int
  le_mks :: "ptr option list"

definition start_listen :: "listen_env \<Rightarrow> server \<Rightarrow> bool \<times> server" where
  "start_listen env s =
     (if sv_listening s then (False, s)
      else
        let s1 = s\<lparr>sv_open := True\<rparr>
        in if le_bind_ec env then (False, s1)
           else
             let num = (if le_num env \<le> 0 then 16 else le_num env);
                 (sockets, s2) = pre_create (nat num) (le_mks env) (s1\<lparr>sv_listening := True\<rparr>)
             in if le_listen_ec env then (False, s2)
                else (True, s2\<lparr>sv_accepts := sv_accepts s2 @ sockets\<rparr>))"

definition stop_listen :: "server \<Rightarrow> server" where
  "stop_listen s =
     s\<lparr>sv_listening := False, sv_open := False, sv_accepts := [],
       sv_done := sv_done s @ map (\<lambda>o1. (o1, Accept_aborted)) (sv_accepts s)\<rparr>"

definition on_accept_error :: "accept_ec \<Rightarrow> server \<Rightarrow> bool \<times> server" where
  "on_accept_error ec s = (False, if ec \<noteq> Accept_aborted then stop_listen s else s)"

definition add_socket :: "ptr \<Rightarrow> server \<Rightarrow> bool \<times> server" where
  "add_socket socket_ptr s =
     (let (added, p) = add_object (Some socket_ptr) (sv_pool s); s1 = s\<lparr>sv_pool := p\<rparr>
      in if added then (True, if sv_running s1 then act [Act_start socket_ptr] s1 else s1) else (False, s1))"

text \<open>\<open>accepted\<close> is the answer of \<open>on_accept\<close>, \<open>mk\<close> the socket for the next accept.\<close>

definition accept_handler :: "bool \<Rightarrow> ptr option \<Rightarrow> accept_ec \<Rightarrow> ptr \<Rightarrow> server \<Rightarrow> server" where
  "accept_handler accepted mk ec socket_ptr s =
     (if ec = Accept_ok
      then
        let s1 = (if accepted then snd (add_socket socket_ptr s) else s)
        in if sv_listening s1 then start_next_accept mk s1 else s1
      else let (re, s1) = on_accept_error ec s in if re then start_next_accept mk s1 else s1)"

section \<open>The links of a server\<close>

definition socket_exist :: "object_id \<Rightarrow> server \<Rightarrow> bool" where
  "socket_exist i s = pool_exist i (sv_pool s)"

definition find_socket :: "object_id \<Rightarrow> server \<Rightarrow> ptr option" where
  "find_socket i s = pool_find i (sv_pool s)"

definition del_socket :: "bool \<Rightarrow> ptr option \<Rightarrow> bool \<Rightarrow> server \<Rightarrow> bool \<times> server" where
  "del_socket alloc raw_socket_ptr need_shutdown s =
     (case raw_socket_ptr of
        None \<Rightarrow> (False, s)
      | Some o1 \<Rightarrow>
          let s1 = (if need_shutdown then act [Act_force_shutdown o1] s else s);
              (re, p) = del_object alloc o1 (sv_pool s1)
          in (re, s1\<lparr>sv_pool := p\<rparr>))"

definition restore_socket ::
  "(ptr \<Rightarrow> bool) \<Rightarrow> (ptr \<Rightarrow> bool) \<Rightarrow> ptr option \<Rightarrow> object_id \<Rightarrow> bool \<Rightarrow> server \<Rightarrow> bool \<times> server" where
  "restore_socket uniq obs raw_socket_ptr i init s =
     (case raw_socket_ptr of
        None \<Rightarrow> (False, s)
      | Some o1 \<Rightarrow>
          if \<not> init
          then (case change_object_id uniq obs o1 i (sv_pool s) of
                  (None, p) \<Rightarrow> (False, s\<lparr>sv_pool := p\<rparr>)
                | (Some old, p) \<Rightarrow> (True, act [Act_take_over o1 old] (s\<lparr>sv_pool := p\<rparr>)))
          else let (re, p) = init_object_id o1 i (sv_pool s) in (re, s\<lparr>sv_pool := p\<rparr>))"

text \<open>\<open>disconnect\<close>, \<open>force_shutdown\<close> and \<open>graceful_shutdown\<close> of one link: it leaves the pool first.\<close>

definition sv_remove_and :: "(ptr \<Rightarrow> sv_act) \<Rightarrow> bool \<Rightarrow> ptr \<Rightarrow> server \<Rightarrow> server" where
  "sv_remove_and f alloc o1 s = act [f o1] (s\<lparr>sv_pool := snd (del_object alloc o1 (sv_pool s))\<rparr>)"

definition sv_force_shutdown :: "server \<Rightarrow> server" where
  "sv_force_shutdown s = do_something_to_all Act_force_shutdown s"

definition sv_disconnect :: "server \<Rightarrow> server" where
  "sv_disconnect s = do_something_to_all Act_disconnect s"

definition sv_graceful_shutdown :: "server \<Rightarrow> server" where
  "sv_graceful_shutdown s = do_something_to_all Act_graceful_shutdown s"

definition broadcast_msg :: "server \<Rightarrow> server" where
  "broadcast_msg s = do_something_to_all Act_send s"

definition server_init :: "listen_env \<Rightarrow> server \<Rightarrow> bool \<times> server" where
  "server_init env s =
     (let (ok, s1) = start_listen env s in if ok then (True, act [Act_pool_start] s1) else (False, s1))"

definition server_uninit :: "server \<Rightarrow> server" where
  "server_uninit s = sv_force_shutdown (stop_listen (act [Act_pool_stop] s))"

section \<open>Services of many sockets without an acceptor\<close>

definition matrix_init :: "server \<Rightarrow> bool \<times> server" where
  "matrix_init s = (True, act [Act_pool_start] (do_something_to_all Act_start s))"

definition matrix_uninit :: "server \<Rightarrow> server" where
  "matrix_uninit s = sv_force_shutdown (act [Act_pool_stop] s)"

definition matrix_add_socket :: "ptr \<Rightarrow> 32 word \<Rightarrow> server \<Rightarrow> bool \<times> server" where
  "matrix_add_socket socket_ptr additional_io_context_refs s =
     (let (added, p) = add_object (Some socket_ptr) (sv_pool s); s1 = s\<lparr>sv_pool := p\<rparr>
      in if added
         then let s2 = act [Act_add_refs socket_ptr additional_io_context_refs] s1
              in (True, if sv_running s2 then act [Act_start socket_ptr] s2 else s2)
         else (False, s1))"

text \<open>The overloads that create the socket and set its addresses first.\<close>

definition matrix_create_and_add :: "ptr option \<Rightarrow> 32 word \<Rightarrow> server \<Rightarrow> ptr option \<times> server" where
  "matrix_create_and_add mk additional_io_context_refs s =
     (let (socket_ptr, s1) = sv_create_object mk s
      in case socket_ptr of
           None \<Rightarrow> (None, s1)
         | Some o1 \<Rightarrow> let (ok, s2) = matrix_add_socket o1 additional_io_context_refs s1 in (if ok then Some o1 else None, s2))"

definition matrix_del_socket :: "bool \<Rightarrow> object_id \<Rightarrow> server \<Rightarrow> bool \<times> server" where
  "matrix_del_socket alloc i s = (let (re, p) = del_object_id alloc i (sv_pool s) in (re, s\<lparr>sv_pool := p\<rparr>))"

definition valid_size :: "(ptr \<Rightarrow> bool) \<Rightarrow> server \<Rightarrow> nat" where
  "valid_size connected s = length (filter connected (links s))"

lemmas server_defs = act_def links_def do_something_to_all_def do_async_accept_def start_next_accept_def stop_listen_def
  on_accept_error_def add_socket_def accept_handler_def sv_create_object_def create_object_def

section \<open>All interleavings\<close>

fun start_of :: "sv_act \<Rightarrow> ptr list" where
  "start_of (Act_start o1) = [o1]"
| "start_of _ = []"

definition starts :: "server \<Rightarrow> ptr list" where
  "starts s = concat (map start_of (sv_acts s))"

definition fresh_sockets :: "ptr option list \<Rightarrow> server \<Rightarrow> bool" where
  "fresh_sockets mks s \<longleftrightarrow>
     (let os = concat (map (\<lambda>mk. case mk of None \<Rightarrow> [] | Some o1 \<Rightarrow> [o1]) mks)
      in distinct os \<and> set os \<inter> set (sv_made s) = {})"

text \<open>
  What can happen to a server: an accept completes, a handler runs, somebody starts or stops listening, the
  pump or the service starts or stops, links are deleted, shut down or written to, and the timers of the
  pool collect. \<open>make_shared\<close> gives a new object or none; a link is deleted while it is registered, or after
  its id is gone. \<open>restore_socket\<close> is left out: it is for links that are renamed by their users.
\<close>

inductive server_step :: "server \<Rightarrow> server \<Rightarrow> bool" where
  accept_done: "o1 \<in> set (sv_accepts s) \<Longrightarrow> ec \<noteq> Accept_aborted \<Longrightarrow>
    server_step s (s\<lparr>sv_accepts := remove1 o1 (sv_accepts s), sv_done := sv_done s @ [(o1, ec)]\<rparr>)"
| handle: "(o1, ec) \<in> set (sv_done s) \<Longrightarrow> fresh_sockets [mk] s \<Longrightarrow>
    server_step s (accept_handler accepted mk ec o1 (s\<lparr>sv_done := remove1 (o1, ec) (sv_done s)\<rparr>))"
| listen: "fresh_sockets (le_mks env) s \<Longrightarrow> start_listen env s = (ok, s') \<Longrightarrow> server_step s s'"
| stop: "server_step s (stop_listen s)"
| pump: "server_step s (s\<lparr>sv_running := b\<rparr>)"
| init: "fresh_sockets (le_mks env) s \<Longrightarrow> server_init env s = (ok, s') \<Longrightarrow> server_step s s'"
| uninit: "server_step s (server_uninit s)"
| del: "o1 \<in> set (links s) \<or> \<not> pool_exist (pl_id (sv_pool s) o1) (sv_pool s) \<Longrightarrow>
    del_socket alloc (Some o1) need_shutdown s = (re, s') \<Longrightarrow> server_step s s'"
| remove: "o1 \<in> set (links s) \<or> \<not> pool_exist (pl_id (sv_pool s) o1) (sv_pool s) \<Longrightarrow>
    f \<in> {Act_force_shutdown, Act_disconnect, Act_graceful_shutdown} \<Longrightarrow> server_step s (sv_remove_and f alloc o1 s)"
| to_all: "f \<in> {Act_force_shutdown, Act_disconnect, Act_graceful_shutdown, Act_send} \<Longrightarrow>
    server_step s (do_something_to_all f s)"
| collect: "server_step s (s\<lparr>sv_pool := snd (clear_obsoleted_object alloc_of obs (sv_pool s))\<rparr>)"
| free: "server_step s (s\<lparr>sv_pool := snd (free_object uniq obs num (sv_pool s))\<rparr>)"

section \<open>The invariant\<close>

text \<open>The sockets that wait for a connection or for their handler.\<close>

definition waiting :: "server \<Rightarrow> ptr list" where
  "waiting s = sv_accepts s @ map fst (sv_done s)"

definition pooled :: "pool \<Rightarrow> ptr set" where
  "pooled p = snd ` set (pl_can p) \<union> set (pl_invalid p)"

definition sv_inv :: "server \<Rightarrow> bool" where
  "sv_inv s \<longleftrightarrow>
     pool_inv (sv_pool s) \<and> length (pl_can (sv_pool s)) \<le> pl_max_size (sv_pool s) \<and>
     pooled (sv_pool s) \<union> set (waiting s) \<union> set (starts s) \<subseteq> set (sv_made s) \<and>
     distinct (waiting s) \<and> set (waiting s) \<inter> (pooled (sv_pool s) \<union> set (starts s)) = {} \<and>
     distinct (starts s) \<and> (sv_listening s \<longrightarrow> sv_open s)"

definition spare :: "ptr \<Rightarrow> server \<Rightarrow> bool" where
  "spare o1 s \<longleftrightarrow> o1 \<in> set (sv_made s) \<and> o1 \<notin> pooled (sv_pool s) \<and> o1 \<notin> set (waiting s) \<and> o1 \<notin> set (starts s)"

lemma pooled_links: "set (links s) \<subseteq> pooled (sv_pool s)"
  by (auto simp: links_def pooled_def)

lemma starts_act: "starts (act as s) = starts s @ concat (map start_of as)"
  by (simp add: starts_def act_def)

lemma starts_act_none:
  "f \<in> {Act_force_shutdown, Act_disconnect, Act_graceful_shutdown, Act_send} \<Longrightarrow> starts (do_something_to_all f s) = starts s"
  by (auto simp: do_something_to_all_def starts_act comp_def)

lemma sv_inv_same:
  "sv_inv s \<Longrightarrow> sv_pool s' = sv_pool s \<Longrightarrow> waiting s' = waiting s \<Longrightarrow> starts s' = starts s \<Longrightarrow> sv_made s' = sv_made s \<Longrightarrow>
     (sv_listening s' \<longrightarrow> sv_open s') \<Longrightarrow> sv_inv s'"
  by (simp add: sv_inv_def)

lemma sv_inv_pool:
  "sv_inv s \<Longrightarrow> pool_inv p \<Longrightarrow> length (pl_can p) \<le> pl_max_size p \<Longrightarrow> pooled p \<subseteq> pooled (sv_pool s) \<Longrightarrow> sv_inv (s\<lparr>sv_pool := p\<rparr>)"
  by (auto simp: sv_inv_def waiting_def starts_def)

lemma sv_inv_act: "sv_inv s \<Longrightarrow> concat (map start_of as) = [] \<Longrightarrow> sv_inv (act as s)"
  by (rule sv_inv_same [where s = s]) (simp_all only: starts_act append_Nil2, simp_all add: act_def waiting_def sv_inv_def)

lemma create_parts:
  "sv_create_object mk s = (mk, s\<lparr>sv_pool := init_object mk (sv_pool s), sv_made := sv_made s @ (case mk of None \<Rightarrow> [] | Some o1 \<Rightarrow> [o1])\<rparr>)"
  by (simp add: sv_create_object_def create_object_def)

lemma init_object_parts [simp]:
  "pl_can (init_object mk p) = pl_can p" "pl_invalid (init_object mk p) = pl_invalid p" "pl_max_size (init_object mk p) = pl_max_size p"
  by (simp_all add: init_object_def split: option.split)

text \<open>What creating sockets changes: they are new, and nothing else happens.\<close>

definition made_only :: "ptr list \<Rightarrow> server \<Rightarrow> server \<Rightarrow> bool" where
  "made_only os s s1 \<longleftrightarrow>
     pool_inv (sv_pool s1) \<and> pl_can (sv_pool s1) = pl_can (sv_pool s) \<and> pl_invalid (sv_pool s1) = pl_invalid (sv_pool s) \<and>
     pl_max_size (sv_pool s1) = pl_max_size (sv_pool s) \<and> sv_accepts s1 = sv_accepts s \<and> sv_done s1 = sv_done s \<and>
     sv_acts s1 = sv_acts s \<and> sv_listening s1 = sv_listening s \<and> sv_open s1 = sv_open s \<and> sv_lost s1 = sv_lost s \<and>
     sv_made s1 = sv_made s @ os \<and> distinct os \<and> set os \<inter> set (sv_made s) = {}"

lemma made_only_inv:
  assumes "sv_inv s" "made_only os s s1"
  shows "sv_inv s1 \<and> (\<forall>o1\<in>set os. spare o1 s1)"
proof -
  have e: "waiting s1 = waiting s" "starts s1 = starts s" "pooled (sv_pool s1) = pooled (sv_pool s)"
    using assms(2) by (simp_all add: made_only_def waiting_def starts_def pooled_def)
  show ?thesis using assms unfolding sv_inv_def spare_def e by (auto simp: made_only_def)
qed

lemma made_only_trans: "made_only os s t \<Longrightarrow> made_only os' t u \<Longrightarrow> made_only (os @ os') s u"
  by (auto simp: made_only_def)

lemma create_made:
  assumes "sv_create_object mk s = (r, s1)" "sv_inv s" "fresh_sockets [mk] s"
  shows "r = mk \<and> made_only (case mk of None \<Rightarrow> [] | Some o1 \<Rightarrow> [o1]) s s1"
proof -
  have new: "o1 \<notin> set (sv_made s)" if "mk = Some o1" for o1 using assms(3) that by (auto simp: fresh_sockets_def)
  have "pool_inv (init_object mk (sv_pool s))"
    by (rule pool_inv_init) (use assms(2) new in \<open>auto simp: sv_inv_def pooled_def\<close>)
  then show ?thesis using assms(1) new
    by (cases mk) (auto simp: create_parts made_only_def)
qed

lemma sv_inv_async_accept: "sv_inv s \<Longrightarrow> (\<forall>o1. r = Some o1 \<longrightarrow> spare o1 s) \<Longrightarrow> sv_inv (do_async_accept r s)"
  by (cases r) (auto simp: do_async_accept_def sv_inv_def spare_def waiting_def starts_def)

lemma sv_inv_next_accept:
  assumes "sv_inv s" "fresh_sockets [mk] s"
  shows "sv_inv (start_next_accept mk s)"
proof -
  obtain r s1 where c: "sv_create_object mk s = (r, s1)" by fastforce
  note m = create_made [OF c assms]
  have "sv_inv s1" "\<forall>o1. r = Some o1 \<longrightarrow> spare o1 s1" using m made_only_inv [OF assms(1)] by auto
  then show ?thesis by (simp add: start_next_accept_def c sv_inv_async_accept)
qed

lemma pre_create_made:
  "pre_create num mks s = (os, s1) \<Longrightarrow> sv_inv s \<Longrightarrow> fresh_sockets mks s \<Longrightarrow> made_only os s s1 \<and> length os \<le> num"
proof (induction num arbitrary: mks s os s1)
  case 0
  then show ?case by (simp add: made_only_def sv_inv_def)
next
  case (Suc num)
  define mk where "mk = (case mks of [] \<Rightarrow> None | mk # _ \<Rightarrow> mk)"
  obtain r t where c: "sv_create_object mk s = (r, t)" by fastforce
  have f: "fresh_sockets [mk] s"
    using Suc(4) by (cases mks) (auto simp: mk_def fresh_sockets_def split: option.splits)
  note m = create_made [OF c Suc(3) f]
  show ?case
  proof (cases r)
    case None
    then show ?thesis using Suc(2) m c by (simp add: mk_def [symmetric])
  next
    case (Some o1)
    obtain os' t' where pc: "pre_create num (tl mks) t = (os', t')" by fastforce
    then have e: "os = [o1] @ os'" "s1 = t'" using Suc(2) c Some by (simp_all add: mk_def [symmetric])
    obtain mks' where mks: "mks = Some o1 # mks'" using m Some by (cases mks) (auto simp: mk_def)
    have mt: "made_only [o1] s t" using m Some by auto
    then have "fresh_sockets (tl mks) t" using Suc(4) by (auto simp: mks fresh_sockets_def made_only_def)
    then have "made_only os' t t' \<and> length os' \<le> num" using Suc(1) [OF pc] made_only_inv [OF Suc(3) mt] by blast
    then show ?thesis using made_only_trans [OF mt] by (simp add: e)
  qed
qed

lemma sv_inv_start_listen:
  assumes "sv_inv s" "fresh_sockets (le_mks env) s" "start_listen env s = (ok, s')"
  shows "sv_inv s'"
proof (cases "sv_listening s \<or> le_bind_ec env")
  case True
  then show ?thesis using assms
    by (auto simp: start_listen_def Let_def split: if_splits intro: sv_inv_same [OF assms(1)] simp: waiting_def starts_def)
next
  case False
  let ?s = "s\<lparr>sv_open := True, sv_listening := True\<rparr>"
  have i: "sv_inv ?s" by (rule sv_inv_same [OF assms(1)]) (simp_all add: waiting_def starts_def)
  obtain os t where pc: "pre_create (nat (if le_num env \<le> 0 then 16 else le_num env)) (le_mks env) ?s = (os, t)" by fastforce
  have "fresh_sockets (le_mks env) ?s" using assms(2) by (simp add: fresh_sockets_def)
  then have m: "made_only os ?s t" using pre_create_made [OF pc i] by blast
  have t: "sv_inv t" "\<forall>o1\<in>set os. spare o1 t" "distinct os" using made_only_inv [OF i m] m by (auto simp: made_only_def)
  have "sv_inv (t\<lparr>sv_accepts := sv_accepts t @ os\<rparr>)"
    using t by (auto simp: sv_inv_def spare_def waiting_def starts_def)
  moreover have "s' = t \<or> s' = t\<lparr>sv_accepts := sv_accepts t @ os\<rparr>"
    using assms(3) False pc by (auto simp: start_listen_def Let_def split: if_splits)
  ultimately show ?thesis using t(1) by blast
qed

lemma sv_inv_stop_listen: "sv_inv s \<Longrightarrow> sv_inv (stop_listen s)"
  by (auto simp: sv_inv_def stop_listen_def waiting_def starts_def comp_def)

lemma add_object_parts:
  assumes "add_object (Some o1) p = (added, p1)" "pool_inv p" "o1 \<notin> set (pl_invalid p)" "length (pl_can p) \<le> pl_max_size p"
  shows "pool_inv p1 \<and> pl_invalid p1 = pl_invalid p \<and> pl_max_size p1 = pl_max_size p \<and> length (pl_can p1) \<le> pl_max_size p \<and>
    map snd (pl_can p1) = map snd (pl_can p) @ (if added then [o1] else [])"
  using assms pool_inv_add [of p "Some o1"]
  by (auto simp: add_object_def emplace_def split: if_splits)

lemma add_socket_spec:
  assumes "sv_inv s" "spare o1 s"
  shows "sv_inv (snd (add_socket o1 s)) \<and> waiting (snd (add_socket o1 s)) = waiting s \<and>
    sv_made (snd (add_socket o1 s)) = sv_made s \<and> sv_listening (snd (add_socket o1 s)) = sv_listening s \<and>
    sv_open (snd (add_socket o1 s)) = sv_open s \<and> sv_lost (snd (add_socket o1 s)) = sv_lost s \<and>
    sv_accepts (snd (add_socket o1 s)) = sv_accepts s \<and> sv_done (snd (add_socket o1 s)) = sv_done s"
proof -
  obtain added p1 where a: "add_object (Some o1) (sv_pool s) = (added, p1)" by fastforce
  have "o1 \<notin> set (pl_invalid (sv_pool s))" using assms(2) by (auto simp: spare_def pooled_def)
  then have p1: "pool_inv p1" "pl_invalid p1 = pl_invalid (sv_pool s)" "pl_max_size p1 = pl_max_size (sv_pool s)"
    "length (pl_can p1) \<le> pl_max_size (sv_pool s)" "map snd (pl_can p1) = map snd (pl_can (sv_pool s)) @ (if added then [o1] else [])"
    using add_object_parts [OF a] assms(1) by (auto simp: sv_inv_def)
  have "snd ` set (pl_can p1) = snd ` set (pl_can (sv_pool s)) \<union> (if added then {o1} else {})"
    using arg_cong [OF p1(5), of set] by auto
  then have pool: "pooled p1 = pooled (sv_pool s) \<union> (if added then {o1} else {})" using p1(2) by (auto simp: pooled_def)
  let ?t = "snd (add_socket o1 s)"
  have t: "sv_pool ?t = p1" "waiting ?t = waiting s" "starts ?t = starts s @ (if added \<and> sv_running s then [o1] else [])"
    "sv_made ?t = sv_made s" "sv_listening ?t = sv_listening s" "sv_open ?t = sv_open s" "sv_lost ?t = sv_lost s"
    "sv_accepts ?t = sv_accepts s" "sv_done ?t = sv_done s"
    by (simp_all add: add_socket_def a Let_def act_def waiting_def starts_def)
  have "sv_inv ?t" using assms p1 pool unfolding sv_inv_def t spare_def by auto
  then show ?thesis using t by blast
qed

lemma sv_inv_handle:
  assumes "sv_inv s" "(o1, ec) \<in> set (sv_done s)" "fresh_sockets [mk] s"
  shows "sv_inv (accept_handler accepted mk ec o1 (s\<lparr>sv_done := remove1 (o1, ec) (sv_done s)\<rparr>))"
proof -
  let ?s = "s\<lparr>sv_done := remove1 (o1, ec) (sv_done s)\<rparr>"
  obtain l r where d: "sv_done s = l @ (o1, ec) # r" "remove1 (o1, ec) (sv_done s) = l @ r"
    using split_list_first [OF assms(2)] by (metis remove1_append remove1.simps(2))
  have i: "sv_inv ?s" "spare o1 ?s"
    using assms(1) d by (auto simp: sv_inv_def spare_def waiting_def starts_def)
  have f: "fresh_sockets [mk] t" if "sv_made t = sv_made s" for t using assms(3) that by (simp add: fresh_sockets_def)
  note a = add_socket_spec [OF i]
  show ?thesis
  proof (cases "ec = Accept_ok")
    case True
    then show ?thesis using a i sv_inv_next_accept f by (auto simp: accept_handler_def)
  next
    case False
    then show ?thesis using i(1) sv_inv_stop_listen by (cases ec) (simp_all add: accept_handler_def on_accept_error_def)
  qed
qed

lemma sv_inv_del:
  assumes "sv_inv s" "o1 \<in> set (links s) \<or> \<not> pool_exist (pl_id (sv_pool s) o1) (sv_pool s)"
  shows "sv_inv (s\<lparr>sv_pool := snd (del_object alloc o1 (sv_pool s))\<rparr>)"
proof (rule sv_inv_pool [OF assms(1)])
  let ?p = "sv_pool s"
  have p: "pool_inv ?p" "length (pl_can ?p) \<le> pl_max_size ?p" using assms(1) by (auto simp: sv_inv_def)
  show "pool_inv (snd (del_object alloc o1 ?p))"
    by (rule pool_inv_del [OF p(1)]) (use assms(2) p(1) in \<open>auto simp: links_def pool_inv_def\<close>)
  show "length (pl_can (snd (del_object alloc o1 ?p))) \<le> pl_max_size (snd (del_object alloc o1 ?p))"
    using p(2) by (auto simp: del_object_def erase_def push_invalid_def Let_def intro: le_trans [OF length_filter_le])
  show "pooled (snd (del_object alloc o1 ?p)) \<subseteq> pooled ?p"
    using assms(2) by (auto simp: pooled_def del_object_def erase_def push_invalid_def Let_def links_def split: if_splits)
qed

lemma sv_inv_collect: "sv_inv s \<Longrightarrow> sv_inv (s\<lparr>sv_pool := snd (clear_obsoleted_object alloc_of obs (sv_pool s))\<rparr>)"
  by (rule sv_inv_pool)
    (auto simp: sv_inv_def pool_inv_clear, auto simp: clear_obsoleted_object_def pooled_def Let_def intro: le_trans [OF length_filter_le])

lemma sv_inv_free:
  assumes "sv_inv s"
  shows "sv_inv (s\<lparr>sv_pool := snd (free_object uniq obs num (sv_pool s))\<rparr>)"
proof -
  obtain kept n where k: "free_loop (\<lambda>o1. uniq o1 \<and> obs o1) num 0 (pl_invalid (sv_pool s)) = (kept, n)" by fastforce
  have "set kept \<subseteq> set (pl_invalid (sv_pool s))" using free_loop_sub k by (metis fst_conv)
  then show ?thesis using assms pool_inv_free [of "sv_pool s" uniq obs num]
    by (intro sv_inv_pool) (auto simp: sv_inv_def free_object_def k pooled_def)
qed

lemma sv_inv_step: "server_step s s' \<Longrightarrow> sv_inv s \<Longrightarrow> sv_inv s'"
proof (induction rule: server_step.induct)
  case (accept_done o1 s ec)
  then show ?case by (auto simp: sv_inv_def waiting_def starts_def)
next
  case (handle o1 ec s mk accepted)
  then show ?case by (intro sv_inv_handle)
next
  case (listen env s ok s')
  then show ?case using sv_inv_start_listen by blast
next
  case (stop s)
  then show ?case by (rule sv_inv_stop_listen)
next
  case (pump s b)
  then show ?case by (auto simp: sv_inv_def waiting_def starts_def)
next
  case (init env s ok s')
  obtain ok' t where t: "start_listen env s = (ok', t)" by fastforce
  then have "sv_inv t" using sv_inv_start_listen init by blast
  then show ?case using init(2) t by (auto simp: server_init_def sv_inv_act split: if_splits)
next
  case (uninit s)
  then show ?case
    by (auto simp: server_uninit_def sv_force_shutdown_def do_something_to_all_def comp_def intro!: sv_inv_act sv_inv_stop_listen)
next
  case (del o1 s alloc need_shutdown re s')
  let ?t = "if need_shutdown then act [Act_force_shutdown o1] s else s"
  have "sv_inv ?t" using del(3) by (auto intro: sv_inv_act)
  moreover have "sv_pool ?t = sv_pool s" "links ?t = links s" by (simp_all add: act_def links_def)
  ultimately have "sv_inv (?t\<lparr>sv_pool := snd (del_object alloc o1 (sv_pool ?t))\<rparr>)" using sv_inv_del del(1) by metis
  then show ?case using del(2) by (auto simp: del_socket_def Let_def split: prod.splits)
next
  case (remove o1 s f alloc)
  then show ?case using sv_inv_del by (auto simp: sv_remove_and_def intro!: sv_inv_act)
next
  case (to_all f s)
  then show ?case by (auto simp: do_something_to_all_def comp_def intro!: sv_inv_act)
next
  case (collect s alloc_of obs)
  then show ?case by (rule sv_inv_collect)
next
  case (free s uniq obs num)
  then show ?case by (rule sv_inv_free)
qed

lemma sv_inv_new: "sv_inv (server_new ids)"
  using pool_inv_new [of ids] by (simp add: sv_inv_def server_new_def waiting_def starts_def pooled_def pool_new_def)

interpretation sv: step_invariant "\<lambda>s. \<exists>ids. s = server_new ids" server_step sv_inv
  by unfold_locales (auto simp: sv_inv_new intro: sv_inv_step)

section \<open>The accept loop does not run dry\<close>

text \<open>The accepts that are outstanding or whose handler, which starts the next one, is still to run.\<close>

definition slots :: "server \<Rightarrow> nat" where
  "slots s = length (sv_accepts s) + length (filter (\<lambda>(_, ec). ec \<noteq> Accept_aborted) (sv_done s))"

lemma slots_same: "sv_accepts s' = sv_accepts s \<Longrightarrow> sv_done s' = sv_done s \<Longrightarrow> slots s' = slots s"
  by (simp add: slots_def)

lemma length_filter_remove1:
  "x \<in> set xs \<Longrightarrow> length (filter P xs) = length (filter P (remove1 x xs)) + (if P x then 1 else 0)"
  by (induction xs) auto

lemma slots_next_accept:
  "sv_open s \<Longrightarrow> slots (start_next_accept mk s) + sv_lost (start_next_accept mk s) = Suc (slots s + sv_lost s)"
  by (cases mk) (auto simp: start_next_accept_def create_parts do_async_accept_def slots_def)

lemma slots_step:
  "server_step s s' \<Longrightarrow> sv_inv s \<Longrightarrow> sv_listening s \<Longrightarrow> sv_listening s' \<Longrightarrow> slots s' + sv_lost s' = slots s + sv_lost s"
proof (induction rule: server_step.induct)
  case (accept_done o1 s ec)
  then have "0 < length (sv_accepts s)" by (cases "sv_accepts s") auto
  then show ?case using accept_done by (auto simp: slots_def length_remove1)
next
  case (handle o1 ec s mk accepted)
  let ?s = "s\<lparr>sv_done := remove1 (o1, ec) (sv_done s)\<rparr>"
  have op: "sv_open s" using handle by (simp add: sv_inv_def)
  have sl: "slots s = slots ?s + (if ec \<noteq> Accept_aborted then 1 else 0)"
    using length_filter_remove1 [OF handle(1), of "\<lambda>(_, ec). ec \<noteq> Accept_aborted"] by (simp add: slots_def)
  show ?case
  proof (cases ec)
    case Accept_ok
    let ?t = "if accepted then snd (add_socket o1 ?s) else ?s"
    have t: "sv_listening ?t" "sv_open ?t" "slots ?t = slots ?s" "sv_lost ?t = sv_lost s"
      using handle(4) op by (simp_all add: add_socket_def act_def slots_def Let_def split: prod.splits)
    have "accept_handler accepted mk ec o1 ?s = start_next_accept mk ?t"
      unfolding accept_handler_def Let_def using t(1) by (simp only: Accept_ok if_True simp_thms)
    then show ?thesis using slots_next_accept [OF t(2), of mk] t sl Accept_ok by simp
  next
    case Accept_aborted
    then show ?thesis using sl by (simp add: accept_handler_def on_accept_error_def)
  next
    case Accept_error
    then show ?thesis using handle(5) by (simp add: accept_handler_def on_accept_error_def stop_listen_def)
  qed
next
  case (listen env s ok s')
  then show ?case by (simp add: start_listen_def)
next
  case (init env s ok s')
  then show ?case by (simp add: server_init_def start_listen_def)
qed (auto simp: stop_listen_def server_uninit_def sv_force_shutdown_def do_something_to_all_def act_def slots_def
      del_socket_def sv_remove_and_def Let_def split: prod.splits if_splits)

lemma pre_create_all:
  "num \<le> length mks \<Longrightarrow> None \<notin> set (take num mks) \<Longrightarrow> pre_create num mks s = (os, s1) \<Longrightarrow> length os = num"
proof (induction num arbitrary: mks s os s1)
  case (Suc num)
  then obtain mk mks' where "mks = mk # mks'" by (cases mks) auto
  moreover from this Suc(3) obtain o1 where "mk = Some o1" by (cases mk) auto
  ultimately have m: "mks = Some o1 # mks'" by simp
  obtain os' t where "pre_create num mks' (snd (sv_create_object (Some o1) s)) = (os', t)" by fastforce
  then show ?case using Suc by (auto simp: m create_parts split: prod.splits)
qed simp

section \<open>Properties\<close>

text \<open>
  C28. What a server holds is well formed, in every state that accepts, handlers, users and the pool's timers
  can reach: the pool is (every id at most once, under the object that carries it), it never holds more links
  than \<open>max_size\<close>, a socket that still waits for a connection is neither registered nor started, no socket
  waits twice, and none is ever started twice.
\<close>
theorem server_well_formed:
  assumes "server_step\<^sup>*\<^sup>* (server_new ids) s"
  shows "pool_inv (sv_pool s) \<and> length (pl_can (sv_pool s)) \<le> pl_max_size (sv_pool s) \<and>
         distinct (waiting s) \<and> set (waiting s) \<inter> (set (links s) \<union> set (starts s)) = {} \<and> distinct (starts s)"
  using sv.steps_inv [OF assms sv_inv_new] pooled_links [of s] by (auto simp: sv_inv_def)

text \<open>
  The accept loop does not run dry. When \<open>start_listen\<close> succeeds, in any reachable state and with all its
  sockets created, then as long as the server keeps listening, after whatever happens: the accepts that are
  outstanding, or whose handler is still to run, and those for which no socket could be created make up
  at least \<open>async_accept_num\<close>. So only failing creations can silence a server that listens.
\<close>
theorem server_keeps_accepting:
  assumes "server_step\<^sup>*\<^sup>* (server_new ids) s" and "start_listen env s = (True, s1)" and "fresh_sockets (le_mks env) s"
    and "0 < le_num env" and "nat (le_num env) \<le> length (le_mks env)" and "None \<notin> set (take (nat (le_num env)) (le_mks env))"
    and "(\<lambda>a b. server_step a b \<and> sv_listening b)\<^sup>*\<^sup>* s1 t"
  shows "le_num env \<le> int (slots t) + (int (sv_lost t) - int (sv_lost s1))"
proof -
  have i: "sv_inv s" using sv.steps_inv [OF assms(1) sv_inv_new] .
  let ?s = "s\<lparr>sv_open := True, sv_listening := True\<rparr>"
  obtain os u where pc: "pre_create (nat (le_num env)) (le_mks env) ?s = (os, u)" by fastforce
  have n: "length os = nat (le_num env)" using pre_create_all [OF assms(5,6) pc] .
  have si: "sv_inv ?s" by (rule sv_inv_same [OF i]) (simp_all add: waiting_def starts_def)
  have "fresh_sockets (le_mks env) ?s" using assms(3) by (simp add: fresh_sockets_def)
  then have m: "made_only os ?s u" using pre_create_made [OF pc si] by blast
  have s1: "s1 = u\<lparr>sv_accepts := sv_accepts u @ os\<rparr>"
    using assms(2,4) pc by (auto simp: start_listen_def Let_def split: if_splits)
  have i1: "sv_inv s1" using sv_inv_start_listen [OF i assms(3,2)] .
  have l1: "sv_listening s1" "le_num env \<le> int (slots s1)"
    using m n assms(4) by (simp_all add: s1 made_only_def slots_def)
  have "slots t + sv_lost t = slots s1 + sv_lost s1 \<and> sv_inv t \<and> sv_listening t"
    using assms(7)
  proof (induction rule: rtranclp_induct)
    case base
    then show ?case using i1 l1 by simp
  next
    case (step t u)
    then show ?case using slots_step [of t u] sv_inv_step [of t u] by auto
  qed
  then show ?thesis using l1 by linarith
qed

text \<open>When \<open>listen\<close> fails, the server counts as listening all the same: it has no accept and can not be started again.\<close>

lemma failed_listen_sticks:
  assumes "\<not> sv_listening s" "\<not> le_bind_ec env" "le_listen_ec env" "fresh_sockets (le_mks env) s" "sv_inv s" "start_listen env s = (ok, s')"
  shows "\<not> ok \<and> sv_listening s' \<and> sv_accepts s' = sv_accepts s \<and> (\<forall>env2. start_listen env2 s' = (False, s'))"
proof -
  let ?s = "s\<lparr>sv_open := True, sv_listening := True\<rparr>"
  obtain os u where pc: "pre_create (nat (if le_num env \<le> 0 then 16 else le_num env)) (le_mks env) ?s = (os, u)" by fastforce
  have si: "sv_inv ?s" by (rule sv_inv_same [OF assms(5)]) (simp_all add: waiting_def starts_def)
  have "fresh_sockets (le_mks env) ?s" using assms(4) by (simp add: fresh_sockets_def)
  then have m: "made_only os ?s u" using pre_create_made [OF pc si] by blast
  have "s' = u \<and> \<not> ok" using assms(1,2,3,6) pc by (auto simp: start_listen_def Let_def)
  then show ?thesis using m by (simp add: made_only_def start_listen_def)
qed

text \<open>A server that listens with two sockets and accepts a connection on the first.\<close>

definition demo_listen :: listen_env where
  "demo_listen = \<lparr>le_bind_ec = False, le_listen_ec = False, le_num = 2, le_mks = [Some 1, Some 2]\<rparr>"

lemma demo_listen_fresh: "fresh_sockets (le_mks demo_listen) (server_new ids)"
  by (simp add: demo_listen_def fresh_sockets_def server_new_def)

lemma demo_listens:
  "start_listen demo_listen (server_new (\<lambda>_. 0)) = (True, snd (start_listen demo_listen (server_new (\<lambda>_. 0)))) \<and>
   sv_accepts (snd (start_listen demo_listen (server_new (\<lambda>_. 0)))) = [1, 2] \<and>
   sv_lost (snd (start_listen demo_listen (server_new (\<lambda>_. 0)))) = 0 \<and>
   sv_listening (snd (start_listen demo_listen (server_new (\<lambda>_. 0))))"
  by (simp add: start_listen_def demo_listen_def numeral_2_eq_2 create_parts server_new_def Let_def)

lemma server_keeps_accepting_witness:
  "2 \<le> slots (snd (start_listen demo_listen (server_new (\<lambda>_. 0)))\<lparr>sv_accepts := [2], sv_done := [(1, Accept_ok)]\<rparr>)"
proof -
  let ?s1 = "snd (start_listen demo_listen (server_new (\<lambda>_. 0)))"
  let ?t = "?s1\<lparr>sv_accepts := remove1 1 (sv_accepts ?s1), sv_done := sv_done ?s1 @ [(1, Accept_ok)]\<rparr>"
  have d: "sv_done ?s1 = []"
    by (simp add: start_listen_def demo_listen_def numeral_2_eq_2 create_parts server_new_def Let_def)
  have "server_step ?s1 ?t" by (rule server_step.accept_done) (use demo_listens in simp_all)
  then have "(\<lambda>a b. server_step a b \<and> sv_listening b)\<^sup>*\<^sup>* ?s1 ?t" using demo_listens by auto
  from server_keeps_accepting [OF rtranclp.rtrancl_refl conjunct1 [OF demo_listens] demo_listen_fresh _ _ _ this]
  have "2 \<le> int (slots ?t) + (int (sv_lost ?t) - int (sv_lost ?s1))" by (simp add: demo_listen_def)
  then show ?thesis using demo_listens d by simp
qed

lemma server_well_formed_witness:
  "distinct (waiting (snd (start_listen demo_listen (server_new (\<lambda>_. 0)))))"
proof -
  have "server_step\<^sup>*\<^sup>* (server_new (\<lambda>_. 0)) (snd (start_listen demo_listen (server_new (\<lambda>_. 0))))"
    by (rule r_into_rtranclp, rule server_step.listen [OF demo_listen_fresh conjunct1 [OF demo_listens]])
  from server_well_formed [OF this] show ?thesis by blast
qed

end
