(* ===== verification/Safe_Send.thy ===== *)
theory Safe_Send
  imports Udp
begin

text \<open>
  The sending functions that wait for room (\<open>TCP_SAFE_SEND_MSG\<close>, \<open>UDP_SAFE_SEND_MSG\<close> and
  \<open>SAFE_SEND_MSG_CHECK\<close> of \<open>base.h\<close>): they try again every 50 milliseconds until the message is in the send buffer or the
  link is not ready. What other threads do in between is an argument, one function per round; the loop need
  not end, so its result is an option.
\<close>

section \<open>The loop\<close>

partial_function (option) safe_send ::
  "('s \<Rightarrow> bool \<times> 's) \<Rightarrow> ('s \<Rightarrow> bool) \<Rightarrow> (nat \<Rightarrow> 's \<Rightarrow> 's) \<Rightarrow> nat \<Rightarrow> 's \<Rightarrow> (bool \<times> 's) option" where
  "safe_send send_fun is_ready others n s =
     (let (re, s1) = send_fun s
      in if re then Some (True, s1)
         else if \<not> is_ready s1 then Some (False, s1)
         else safe_send send_fun is_ready others (n + 1) (others n s1))"

text \<open>The state the loop finds in round \<open>n + k\<close> when it enters round \<open>n\<close> and no try before succeeds.\<close>

fun safe_round :: "(nat \<Rightarrow> 's \<Rightarrow> 's) \<Rightarrow> nat \<Rightarrow> nat \<Rightarrow> 's \<Rightarrow> 's" where
  "safe_round others n 0 s = s"
| "safe_round others n (Suc k) s = safe_round others (n + 1) k (others n s)"

lemma safe_send_leaves:
  assumes keep: "\<And>s. \<not> fst (send_fun s) \<Longrightarrow> snd (send_fun s) = s"
    and "\<And>i. i < k \<Longrightarrow> \<not> fst (send_fun (safe_round others n i s)) \<and> is_ready (safe_round others n i s)"
    and "fst (send_fun (safe_round others n k s)) \<or> \<not> is_ready (safe_round others n k s)"
  shows "safe_send send_fun is_ready others n s = Some (send_fun (safe_round others n k s))"
  using assms(2,3)
proof (induction k arbitrary: n s)
  case 0
  obtain re s1 where r: "send_fun s = (re, s1)" by fastforce
  then show ?case using 0(2) keep [of s]
    by (subst safe_send.simps) auto
next
  case (Suc k)
  have z: "\<not> fst (send_fun s)" "is_ready s" using Suc(2) [of 0] by auto
  have "\<not> fst (send_fun (safe_round others (n + 1) i (others n s))) \<and> is_ready (safe_round others (n + 1) i (others n s))" if "i < k" for i
    using Suc(2) [of "Suc i"] that by simp
  then have "safe_send send_fun is_ready others (n + 1) (others n s) = Some (send_fun (safe_round others (n + 1) k (others n s)))"
    using Suc(1) [of "n + 1" "others n s"] Suc(3) by simp
  then show ?case using z keep [OF z(1)]
    by (subst safe_send.simps) (auto simp: split_beta Let_def)
qed

lemma safe_send_returned:
  assumes "safe_send send_fun is_ready others n s = Some r" "\<And>s. \<not> fst (send_fun s) \<Longrightarrow> snd (send_fun s) = s"
  shows "\<exists>k. fst (send_fun (safe_round others n k s)) \<or> \<not> is_ready (safe_round others n k s)"
proof -
  let ?P = "\<lambda>send_fun is_ready others n s r. (\<forall>s. \<not> fst (send_fun s) \<longrightarrow> snd (send_fun s) = s) \<longrightarrow>
    (\<exists>k. fst (send_fun (safe_round others n k s)) \<or> \<not> is_ready (safe_round others n k s))"
  have "?P send_fun is_ready others n s r"
  proof (rule safe_send.raw_induct [where P = ?P, OF _ assms(1)], rule impI)
    fix f send_fun is_ready others n s r
    assume ih: "\<And>send_fun is_ready others n s y. f send_fun is_ready others n s = Some y \<Longrightarrow> ?P send_fun is_ready others n s y"
      and body: "(let (re, s1) = send_fun s in if re then Some (True, s1) else if \<not> is_ready s1 then Some (False, s1)
        else f send_fun is_ready others (n + 1) (others n s1)) = Some r"
      and keep: "\<forall>s. \<not> fst (send_fun s) \<longrightarrow> snd (send_fun s) = s"
    show "\<exists>k. fst (send_fun (safe_round others n k s)) \<or> \<not> is_ready (safe_round others n k s)"
    proof (cases "fst (send_fun s) \<or> \<not> is_ready s")
      case True
      then show ?thesis by (intro exI [of _ 0]) simp
    next
      case False
      then have "snd (send_fun s) = s" using keep by blast
      then have "f send_fun is_ready others (n + 1) (others n s) = Some r" using body False by (auto simp: split_beta Let_def)
      from ih [OF this] keep obtain k where
        "fst (send_fun (safe_round others (n + 1) k (others n s))) \<or> \<not> is_ready (safe_round others (n + 1) k (others n s))" by blast
      then show ?thesis by (intro exI [of _ "Suc k"]) simp
    qed
  qed
  then show ?thesis using assms(2) by blast
qed

lemma safe_send_value:
  assumes keep: "\<And>s. \<not> fst (send_fun s) \<Longrightarrow> snd (send_fun s) = s"
    and leaves: "\<And>t. leaves t \<longleftrightarrow> fst (send_fun t) \<or> \<not> is_ready t"
  shows "safe_send send_fun is_ready others n s =
    (if \<exists>k. leaves (safe_round others n k s)
     then Some (send_fun (safe_round others n (LEAST k. leaves (safe_round others n k s)) s)) else None)"
proof (cases "\<exists>k. leaves (safe_round others n k s)")
  case True
  define k where "k = (LEAST k. leaves (safe_round others n k s))"
  have "leaves (safe_round others n k s)" using LeastI_ex [OF True] by (simp add: k_def)
  moreover have "\<not> leaves (safe_round others n i s)" if "i < k" for i using not_less_Least that by (auto simp: k_def)
  ultimately have "safe_send send_fun is_ready others n s = Some (send_fun (safe_round others n k s))"
    using safe_send_leaves [OF keep, of k others n s is_ready] leaves by blast
  then show ?thesis using True by (simp add: k_def)
next
  case False
  have "safe_send send_fun is_ready others n s \<noteq> Some r" for r
    using safe_send_returned [of send_fun is_ready others n s r] keep False leaves by blast
  then have "safe_send send_fun is_ready others n s = None" by (cases "safe_send send_fun is_ready others n s") auto
  then show ?thesis using False by simp
qed

section \<open>The functions\<close>

text \<open>\<open>safe_send_msg\<close> of a TCP socket for a message and for arrays of bytes, and of a UDP socket.\<close>

definition safe_send_msg ::
  "('m \<Rightarrow> nat) \<Rightarrow> nat \<Rightarrow> bool \<Rightarrow> bool \<Rightarrow> ('m \<Rightarrow> bool \<times> 'm list) \<Rightarrow> 'm \<Rightarrow> bool \<Rightarrow> bool \<Rightarrow>
    (nat \<Rightarrow> 'm sender \<Rightarrow> 'm sender) \<Rightarrow> 'm sender \<Rightarrow> (bool \<times> 'm sender) option" where
  "safe_send_msg sz send_buf_size native alloc pack msg can_overflow prior others s =
     safe_send (tcp_send_msg sz send_buf_size native alloc pack msg can_overflow prior) sd_ready others 0 s"

definition safe_send_array ::
  "('m \<Rightarrow> nat) \<Rightarrow> nat \<Rightarrow> bool \<Rightarrow> 'm \<Rightarrow> bool \<Rightarrow> bool \<Rightarrow> (nat \<Rightarrow> 'm sender \<Rightarrow> 'm sender) \<Rightarrow> 'm sender \<Rightarrow> (bool \<times> 'm sender) option" where
  "safe_send_array sz send_buf_size alloc packed can_overflow prior others s =
     safe_send (tcp_send_array sz send_buf_size alloc packed can_overflow prior) sd_ready others 0 s"

definition udp_safe_send_msg ::
  "('m \<Rightarrow> nat) \<Rightarrow> nat \<Rightarrow> bool \<Rightarrow> 'a endpoint \<Rightarrow> 'm \<Rightarrow> bool \<Rightarrow> bool \<Rightarrow> (nat \<Rightarrow> ('a, 'm) udp_sock \<Rightarrow> ('a, 'm) udp_sock) \<Rightarrow>
    ('a, 'm) udp_sock \<Rightarrow> (bool \<times> ('a, 'm) udp_sock) option" where
  "udp_safe_send_msg sz send_buf_size alloc addr packed can_overflow prior others s =
     safe_send (udp_send_msg sz send_buf_size alloc addr packed can_overflow prior) (\<lambda>s. sd_ready (us_snd s)) others 0 s"

lemma tcp_send_accepts:
  "fst (tcp_send_msg sz sbs native alloc pack msg can_overflow prior s) \<longleftrightarrow>
     (can_overflow \<or> is_send_buffer_available sbs s) \<and> (native \<or> fst (pack msg))"
  "\<not> fst (tcp_send_msg sz sbs native alloc pack msg can_overflow prior s) \<Longrightarrow>
     snd (tcp_send_msg sz sbs native alloc pack msg can_overflow prior s) = s"
  by (auto simp: tcp_send_msg_def do_direct_send_msg_def do_direct_send_msgs_def split_beta Let_def)

lemma tcp_send_array_accepts:
  "fst (tcp_send_array sz sbs alloc packed can_overflow prior s) \<longleftrightarrow> can_overflow \<or> is_send_buffer_available sbs s"
  "\<not> fst (tcp_send_array sz sbs alloc packed can_overflow prior s) \<Longrightarrow> snd (tcp_send_array sz sbs alloc packed can_overflow prior s) = s"
  by (auto simp: tcp_send_array_def do_direct_send_msg_def split_beta)

lemma udp_send_accepts:
  "fst (udp_send_msg sz sbs alloc addr packed can_overflow prior s) \<longleftrightarrow> can_overflow \<or> is_send_buffer_available sbs (us_snd s)"
  "\<not> fst (udp_send_msg sz sbs alloc addr packed can_overflow prior s) \<Longrightarrow>
     snd (udp_send_msg sz sbs alloc addr packed can_overflow prior s) = s"
  by (auto simp: udp_send_msg_def do_direct_send_msg_def split_beta)

section \<open>Properties\<close>

text \<open>
  C7. When the functions that wait return, and with what. Whatever others do in the meantime:
  \<open>safe_send_msg\<close> returns in the first round that finds the link not ready, or room in the buffer (or
  \<open>can_overflow\<close>) for a message the packer accepts, with what \<open>send_msg\<close> does there; without such a round it
  never returns, so for a message that the packer refuses (too long, say) it ends only when the link breaks.
  For arrays of bytes a refusal does not matter: \<open>send_msg\<close> then pretends to have succeeded.
\<close>
theorem safe_send_returns:
  "safe_send_msg sz send_buf_size native alloc pack msg can_overflow prior others s =
     (let leaves = (\<lambda>k. \<not> sd_ready (safe_round others 0 k s) \<or>
            (can_overflow \<or> is_send_buffer_available send_buf_size (safe_round others 0 k s)) \<and> (native \<or> fst (pack msg)))
      in if \<exists>k. leaves k
         then Some (tcp_send_msg sz send_buf_size native alloc pack msg can_overflow prior (safe_round others 0 (LEAST k. leaves k) s))
         else None) \<and>
   safe_send_array sz send_buf_size alloc packed can_overflow prior others s =
     (let leaves = (\<lambda>k. \<not> sd_ready (safe_round others 0 k s) \<or> can_overflow \<or> is_send_buffer_available send_buf_size (safe_round others 0 k s))
      in if \<exists>k. leaves k
         then Some (tcp_send_array sz send_buf_size alloc packed can_overflow prior (safe_round others 0 (LEAST k. leaves k) s))
         else None)"
proof -
  have a: "safe_send_msg sz send_buf_size native alloc pack msg can_overflow prior others s =
     (let leaves = (\<lambda>k. \<not> sd_ready (safe_round others 0 k s) \<or>
            (can_overflow \<or> is_send_buffer_available send_buf_size (safe_round others 0 k s)) \<and> (native \<or> fst (pack msg)))
      in if \<exists>k. leaves k
         then Some (tcp_send_msg sz send_buf_size native alloc pack msg can_overflow prior (safe_round others 0 (LEAST k. leaves k) s))
         else None)"
    unfolding safe_send_msg_def Let_def by (rule safe_send_value) (auto simp: tcp_send_accepts)
  have b: "safe_send_array sz send_buf_size alloc packed can_overflow prior others s =
     (let leaves = (\<lambda>k. \<not> sd_ready (safe_round others 0 k s) \<or> can_overflow \<or> is_send_buffer_available send_buf_size (safe_round others 0 k s))
      in if \<exists>k. leaves k
         then Some (tcp_send_array sz send_buf_size alloc packed can_overflow prior (safe_round others 0 (LEAST k. leaves k) s))
         else None)"
    unfolding safe_send_array_def Let_def by (rule safe_send_value) (auto simp: tcp_send_array_accepts)
  show ?thesis using a b by (rule conjI)
qed

lemma safe_send_returns_witness:
  "safe_send_array (\<lambda>_. 1) 10 True (7 :: nat) False False (\<lambda>_ s. s) (sd_new\<lparr>sd_ready := True\<rparr>) =
     Some (True, sd_new\<lparr>sd_ready := True, sd_buffer := \<lparr>q_items = [7], q_total = 1\<rparr>, sd_checks := 1\<rparr>)"
proof -
  have r: "safe_round (\<lambda>_ s. s) n k s = s" for n k and s :: "nat sender" by (induction k arbitrary: n) auto
  show ?thesis
    using safe_send_returns [where sz = "\<lambda>_. 1" and send_buf_size = 10 and alloc = True and packed = "7 :: nat"
        and can_overflow = False and prior = False and others = "\<lambda>_ s. s" and s = "sd_new\<lparr>sd_ready := True\<rparr>", THEN conjunct2]
    by (simp add: Let_def r is_send_buffer_available_def q_size_in_byte_def tcp_send_array_def do_direct_send_msg_def enqueue_def
        sd_new_def q_new_def size_add_def SIZE_MOD_def)
qed

text \<open>
  A message the packer refuses keeps \<open>safe_send_msg\<close> looping as long as the link is ready, although the
  comment at \<open>do_direct_send_msg\<close> says dead loops are avoided. And on a UDP socket, which counts as ready even after
  it was closed, \<open>safe_send_msg\<close> never returns once the buffer is full and nobody takes messages out.
\<close>

lemma safe_send_dead_loop:
  assumes "\<not> fst (pack msg)" "\<And>k. sd_ready (safe_round others 0 k s)"
  shows "safe_send_msg sz send_buf_size False alloc pack msg can_overflow prior others s = None"
  unfolding safe_send_msg_def
  by (subst safe_send_value [OF tcp_send_accepts(2) refl]) (use assms in \<open>simp_all add: tcp_send_accepts\<close>)

lemma udp_safe_send_dead_loop:
  assumes "sd_ready (us_snd s)" "\<not> us_started s" "\<not> is_send_buffer_available send_buf_size (us_snd s)"
  shows "udp_safe_send_msg sz send_buf_size alloc addr packed False prior (\<lambda>_ s. s) s = None"
proof -
  have "safe_round (\<lambda>_ s. s) n k s = s" for n k by (induction k arbitrary: n) auto
  then show ?thesis unfolding udp_safe_send_msg_def
    by (subst safe_send_value [OF udp_send_accepts(2) refl]) (use assms in \<open>simp_all add: udp_send_accepts\<close>)
qed

end
