(* ===== verification/Tcp_Link.thy ===== *)
theory Tcp_Link
  imports Unpacker Send_Path Msg_Dispatch
begin

text \<open>
  From one application to the other: what theories Packer, Send_Path, Stream_Reader with Unpacker, and
  Msg_Dispatch say of their parts, put together over a TCP connection. The connection is the only
  assumption: the bytes that reach the peer are the first part of the bytes of the writes that were issued.
\<close>

text \<open>
  \<open>bs\<close> are the bodies the sending application sends (an empty one stands for a heartbeat). The sender's side is
  any run of the send path in which their packed forms are what is queued; the receiving side any session
  of the default unpacker on the bytes that arrive, and any run of the dispatcher that is given the
  messages this session delivers.
\<close>

definition tcp_link ::
  "ext_cfg \<Rightarrow> bool \<Rightarrow> bytes \<Rightarrow> nat \<Rightarrow> nat \<Rightarrow> bytes list \<Rightarrow> bytes send_event list \<Rightarrow> bytes sender \<Rightarrow> bytes \<Rightarrow> unpacker reader \<Rightarrow>
    bytes recv_event list \<Rightarrow> bytes receiver \<Rightarrow> bool" where
  "tcp_link c st raw batch rbs bs sent s stream r events v \<longleftrightarrow>
     send_run length batch sd_new sent s \<and> (\<forall>ev\<in>set sent. ev_fifo ev) \<and>
     concat (map ev_queued sent) = map (wire c) bs \<and>
     (\<exists>missing. concat (concat (map ev_issued sent)) = stream @ missing) \<and>
     up_run c st raw stream r \<and>
     recv_run length rbs rv_new events v \<and> concat (map ev_received events) = rd_out r \<and> concat (map ev_taken events) = []"

lemma decode_wires:
  assumes "valid_cfg c" "\<forall>b\<in>set bs. fits c b"
  shows "decode c st (concat (map (wire c) bs)) = (map (\<lambda>b. if st then b else frame c b) (filter (\<lambda>b. b \<noteq> []) bs), [], True)"
proof -
  have "map (wire c) bs = map (frame c) bs" using assms by (simp add: wire_frame)
  then have "concat (map (wire c) bs) = concat (map (frame c) bs)" by (rule arg_cong)
  then show ?thesis using split_frames_frames [OF assms(2)] by (simp add: decode_def bodies_frames)
qed

text \<open>What arrives is the first part of what was sent, decoded it is the first part of the messages.\<close>

lemma tcp_link_stream:
  assumes l: "tcp_link c st raw batch rbs bs sent s stream r events v"
  shows "\<exists>rest. concat (map (wire c) bs) = stream @ rest"
    and "q_items (sd_buffer s) = [] \<Longrightarrow> concat (concat (map ev_issued sent)) = stream \<Longrightarrow> concat (map (wire c) bs) = stream"
proof -
  have q: "q_items (sd_buffer (sd_new :: bytes sender)) = []" by (simp add: sd_new_def q_new_def)
  have f: "map (wire c) bs = concat (map ev_issued sent) @ q_items (sd_buffer s)"
    using run_flow [of length batch sd_new sent s] flag_inv_new l q by (auto simp: tcp_link_def)
  obtain missing where "concat (concat (map ev_issued sent)) = stream @ missing" using l by (auto simp: tcp_link_def)
  then show "\<exists>rest. concat (map (wire c) bs) = stream @ rest" unfolding f by simp
  show "q_items (sd_buffer s) = [] \<Longrightarrow> concat (concat (map ev_issued sent)) = stream \<Longrightarrow> concat (map (wire c) bs) = stream"
    unfolding f by simp
qed

text \<open>
  C6. What one application sends is what the other one handles. On a connection between two sockets with the
  same configuration, for every interleaving on either side and however the network cuts the stream and whenever
  it breaks: the messages accepted by \<open>on_msg_handle\<close> are, in order, the first ones of those that were sent, bodies
  unchanged (with their headers if the unpacker does not strip them) and heartbeats left out; nothing is lost in the
  middle, duplicated, reordered or made up. And when everything was written and arrived, the session has read it and
  the dispatcher has nothing left to do, they are all of them.
\<close>
theorem tcp_link_delivers:
  assumes "valid_cfg c" and "\<forall>b\<in>set bs. fits c b" and "tcp_link c st raw batch rbs bs sent s stream r events v"
  shows "(\<exists>later. map (\<lambda>b. if st then b else frame c b) (filter (\<lambda>b. b \<noteq> []) bs) = concat (map ev_handled events) @ later) \<and>
         (q_items (sd_buffer s) = [] \<and> concat (concat (map ev_issued sent)) = stream \<and> reader_quiet (up_session c) r \<and>
          Link_closed \<notin> set events \<and> rv_tasks v = 0 \<and> \<not> rv_handling v \<and> \<not> rv_hold v \<and> rv_rw v = Rw_idle \<longrightarrow>
            concat (map ev_handled events) = map (\<lambda>b. if st then b else frame c b) (filter (\<lambda>b. b \<noteq> []) bs))"
proof -
  let ?sent = "map (\<lambda>b. if st then b else frame c b) (filter (\<lambda>b. b \<noteq> []) bs)"
  note dec = decode_wires [OF assms(1,2), of st]
  have up: "(up_session c)\<^sup>*\<^sup>* (reader_init (up_init raw st) stream) r" "length raw = msg_buffer_size c" "up_run c st raw stream r"
    using assms(3) by (auto simp: tcp_link_def up_run_def)
  obtain rest where rest: "concat (map (wire c) bs) = stream @ rest" using tcp_link_stream(1) [OF assms(3)] by blast
  then have ok: "snd (snd (decode c st stream))" using up.decode_ok_prefix [of c st stream rest] dec by simp
  obtain more where more: "fst (decode c st stream) = rd_out r @ more"
    using up.never_fails [OF up(1) up_start [OF assms(1) up(2)] ok] by blast
  obtain later where "?sent = fst (decode c st stream) @ later" using rest up.decode_prefix [of c st stream rest] dec by auto
  then have pre: "?sent = rd_out r @ (more @ later)" using more by simp
  have run: "recv_run length rbs rv_new events v" "concat (map ev_received events) = rd_out r" "concat (map ev_taken events) = []"
    using assms(3) by (simp_all add: tcp_link_def)
  have p: "dispatch_awake (rv_new :: bytes receiver)" "pending (rv_new :: bytes receiver) = []" by (rule receiver_new_inv)+
  note d' = dispatch_run [OF run(1) receiver_new_inv(1)]
  have d: "dispatch_inv v" "Link_closed \<notin> set events \<Longrightarrow> dispatch_awake v" "rd_out r = concat (map ev_handled events) @ pending v"
    using d' run(2,3) p by simp_all
  have "concat (map ev_handled events) = ?sent"
    if "q_items (sd_buffer s) = []" "concat (concat (map ev_issued sent)) = stream" "reader_quiet (up_session c) r"
      "Link_closed \<notin> set events" "rv_tasks v = 0" "\<not> rv_handling v" "\<not> rv_hold v" "rv_rw v = Rw_idle"
  proof -
    have "rd_out r = ?sent" using up_run_verdict [OF assms(1) up(3) that(3) ok] dec tcp_link_stream(2) [OF assms(3) that(1,2)] by simp
    moreover have "pending v = []" using d(1) d(2) [OF that(4)] that(5-8) by (auto simp: dispatch_awake_def dispatch_inv_def pending_def)
    ultimately show ?thesis using d(3) by simp
  qed
  then show ?thesis using pre d(3) by auto
qed

text \<open>One heartbeat-free exchange: the body \<open>[7]\<close> is packed, written, cut out of the stream and handled.\<close>

lemma tcp_link_demo:
  "\<exists>sent s r events v. tcp_link tiny_cfg True (replicate 8 0) 65536 4 [[7]] sent s [0, 3, 7] r events v \<and>
     concat (map ev_handled events) = [[7]]"
proof -
  have fit: "fits tiny_cfg [7]" by (simp add: fits_def)
  have w: "wire tiny_cfg [7] = [0, 3, 7]" using wire_frame [OF valid_cfg_tiny fit] by (simp add: frame_def head_H2N_def be_bytes_2)
  have sent: "send_run length 65536 sd_new ([Started] @ [Queued [[0, 3, 7 :: 8 word]], Internal, Internal, Internal, Internal, Internal, Issued [[0, 3, 7]]]) (demo_written [0, 3, 7])"
    by (rule written_from_new) (simp_all add: SIZE_MAX_def)
  obtain r where r: "up_run tiny_cfg True (replicate 8 0) [0, 3, 7] r" "reader_quiet (up_session tiny_cfg) r"
    using up_run_quiet_ex [of "replicate 8 0" tiny_cfg] by auto
  have "decode tiny_cfg True (concat (map (wire tiny_cfg) [[7]])) = ([[7]], [], True)"
    using decode_wires [OF valid_cfg_tiny, of "[[7]]" True] fit by simp
  then have out: "rd_out r = [[7]]" using up_run_verdict [OF valid_cfg_tiny r] w by simp
  obtain v where v: "recv_run length 4 rv_new [Link_started, Tau, Received [[7 :: 8 word]], Tau, Tau, Handled [7]] v"
    using demo_received(2) [where sz = length and rbs = 4 and m = "[7 :: 8 word]"] by blast
  have "tcp_link tiny_cfg True (replicate 8 0) 65536 4 [[7]] ([Started] @ [Queued [[0, 3, 7 :: 8 word]], Internal, Internal, Internal, Internal, Internal, Issued [[0, 3, 7]]]) (demo_written [0, 3, 7])
      [0, 3, 7] r [Link_started, Tau, Received [[7]], Tau, Tau, Handled [7]] v"
    using sent r(1) v out w by (simp add: tcp_link_def)
  then show ?thesis by fastforce
qed

theorem tcp_link_delivers_witness:
  "\<exists>sent s r events v. tcp_link tiny_cfg True (replicate 8 0) 65536 4 [[7]] sent s [0, 3, 7] r events v \<and>
     concat (map ev_handled events) = [[7]] \<and> (\<exists>later. [[7]] = concat (map ev_handled events) @ later)"
proof -
  obtain sent s r events v where l: "tcp_link tiny_cfg True (replicate 8 0) 65536 4 [[7]] sent s [0, 3, 7] r events v"
    and h: "concat (map ev_handled events) = [[7]]"
    using tcp_link_demo by blast
  have "\<forall>b\<in>set [[7]]. fits tiny_cfg b" by (simp add: fits_def)
  from tcp_link_delivers [OF valid_cfg_tiny this l] l h show ?thesis by fastforce
qed

end
