(* ===== verification/Sync_Send.thy ===== *)
theory Sync_Send
  imports Safe_Send
begin

text \<open>
  Sending with an answer (\<open>ASCS_SYNC_SEND\<close>): \<open>obj_with_begin_time_promise\<close> and the sending macros of \<open>base.h\<close>,
  \<open>do_direct_sync_send_msg\<close> of \<open>socket.h\<close>, and the places in \<open>tcp/socket.h\<close> and the pop macros that fulfil the
  promises. It is the sender of theory Send_Path with messages that may carry a promise; promises are
  numbered, and \<open>sy_value\<close> holds what they were set to.
\<close>

section \<open>Messages with a promise\<close>

datatype sync_call_result = SUCCESS | NOT_APPLICABLE | DUPLICATE | TIMEOUT

record 'm in_msg =
  im_obj :: 'm
  im_p :: "nat option"

definition check_and_create_promise :: "bool \<Rightarrow> nat \<Rightarrow> 'm in_msg \<Rightarrow> 'm in_msg \<times> nat" where
  "check_and_create_promise need_promise next_p m =
     (if \<not> need_promise then (m\<lparr>im_p := None\<rparr>, next_p)
      else if im_p m = None then (m\<lparr>im_p := Some next_p\<rparr>, next_p + 1) else (m, next_p))"

definition in_msg_new :: "bool \<Rightarrow> nat \<Rightarrow> 'm \<Rightarrow> 'm in_msg \<times> nat" where
  "in_msg_new need_promise next_p obj = check_and_create_promise need_promise next_p \<lparr>im_obj = obj, im_p = None\<rparr>"

text \<open>\<open>sy_thrown\<close>: \<open>set_value\<close> on a promise that has a value throws; the model does not go on after that.\<close>

record 'm sync_sender =
  sy_snd :: "'m in_msg sender"
  sy_next :: nat
  sy_value :: "nat \<Rightarrow> sync_call_result option"
  sy_thrown :: bool

definition sync_new :: "'m sync_sender" where
  "sync_new = \<lparr>sy_snd = sd_new, sy_next = 0, sy_value = (\<lambda>_. None), sy_thrown = False\<rparr>"

definition im_size :: "('m \<Rightarrow> nat) \<Rightarrow> 'm in_msg \<Rightarrow> nat" where
  "im_size sz m = sz (im_obj m)"

text \<open>The loops that fulfil the promises of some messages.\<close>

fun notify_msgs :: "sync_call_result \<Rightarrow> 'm in_msg list \<Rightarrow> 'm sync_sender \<Rightarrow> 'm sync_sender" where
  "notify_msgs v [] s = s"
| "notify_msgs v (m # ms) s =
     (case im_p m of None \<Rightarrow> notify_msgs v ms s
      | Some p \<Rightarrow> if sy_value s p = None then notify_msgs v ms (s\<lparr>sy_value := (sy_value s)(p \<mapsto> v)\<rparr>)
                  else s\<lparr>sy_thrown := True\<rparr>)"

section \<open>The sending functions\<close>

text \<open>
  Up to the point where they wait: \<open>Inl\<close> is returned at once, \<open>Inr\<close> is the promise they wait for.
  \<open>stopped\<close> is the answer of the service pump.
\<close>

definition do_direct_sync_send_msg ::
  "('m \<Rightarrow> nat) \<Rightarrow> bool \<Rightarrow> bool \<Rightarrow> bool \<Rightarrow> 'm \<Rightarrow> 'm sync_sender \<Rightarrow> (sync_call_result + nat) \<times> 'm sync_sender" where
  "do_direct_sync_send_msg sz stopped alloc prior msg s =
     (if stopped then (Inl NOT_APPLICABLE, s)
      else if sz msg = 0 then (Inl SUCCESS, s)
      else
        let (unused, next_p) = in_msg_new True (sy_next s) msg;
            snd1 = sy_snd s;
            (queued, q) = (if prior then enqueue_front (im_size sz) alloc unused (sd_buffer snd1)
                           else enqueue (im_size sz) alloc unused (sd_buffer snd1))
        in if \<not> queued then (Inl NOT_APPLICABLE, s\<lparr>sy_next := next_p\<rparr>)
           else (Inr (the (im_p unused)),
                 s\<lparr>sy_snd := snd1\<lparr>sd_buffer := q, sd_checks := sd_checks snd1 + 1\<rparr>, sy_next := next_p\<rparr>))"

definition do_direct_sync_send_msgs ::
  "('m \<Rightarrow> nat) \<Rightarrow> bool \<Rightarrow> bool \<Rightarrow> 'm list \<Rightarrow> 'm sync_sender \<Rightarrow> (sync_call_result + nat) \<times> 'm sync_sender" where
  "do_direct_sync_send_msgs sz stopped prior msg_can s =
     (if stopped then (Inl NOT_APPLICABLE, s)
      else if msg_can = [] then (Inl SUCCESS, s)
      else
        let size_in_byte = get_size_in_byte sz msg_can;
            temp = map (\<lambda>m. fst (in_msg_new False (sy_next s) m)) msg_can;
            (back, next_p) = check_and_create_promise True (sy_next s) (last temp);
            temp_buffer = butlast temp @ [back];
            snd1 = sy_snd s;
            q = (if prior then move_items_in_front (im_size sz) temp_buffer size_in_byte (sd_buffer snd1)
                 else move_items_in (im_size sz) temp_buffer size_in_byte (sd_buffer snd1))
        in (Inr (the (im_p back)),
            s\<lparr>sy_snd := snd1\<lparr>sd_buffer := q, sd_checks := sd_checks snd1 + 1\<rparr>, sy_next := next_p\<rparr>))"

text \<open>
  The wait at the end: \<open>v\<close> is what the promise holds when the time is over, or ever, for \<open>duration = 0\<close>;
  \<open>None\<close> is a call that never returns.
\<close>

definition sync_wait :: "nat \<Rightarrow> sync_call_result option \<Rightarrow> sync_call_result option" where
  "sync_wait duration v = (case v of Some r \<Rightarrow> Some r | None \<Rightarrow> if duration = 0 then None else Some TIMEOUT)"

text \<open>\<open>direct_sync_send_msg\<close>, for messages that are packed already.\<close>

definition direct_sync_send_msg ::
  "('m \<Rightarrow> nat) \<Rightarrow> nat \<Rightarrow> bool \<Rightarrow> bool \<Rightarrow> 'm \<Rightarrow> bool \<Rightarrow> bool \<Rightarrow> 'm sync_sender \<Rightarrow> (sync_call_result + nat) \<times> 'm sync_sender" where
  "direct_sync_send_msg sz send_buf_size stopped alloc msg can_overflow prior s =
     (if can_overflow \<or> is_send_buffer_available send_buf_size (sy_snd s) then do_direct_sync_send_msg sz stopped alloc prior msg s
      else (Inl NOT_APPLICABLE, s))"

definition direct_sync_send_msgs ::
  "('m \<Rightarrow> nat) \<Rightarrow> nat \<Rightarrow> bool \<Rightarrow> 'm list \<Rightarrow> bool \<Rightarrow> bool \<Rightarrow> 'm sync_sender \<Rightarrow> (sync_call_result + nat) \<times> 'm sync_sender" where
  "direct_sync_send_msgs sz send_buf_size stopped msg_can can_overflow prior s =
     (if can_overflow \<or> is_send_buffer_available send_buf_size (sy_snd s) then do_direct_sync_send_msgs sz stopped prior msg_can s
      else (Inl NOT_APPLICABLE, s))"

text \<open>The overloads of \<open>TCP_SYNC_SEND_MSG\<close>: a message, a container (also of two messages), an array of byte ranges.\<close>

definition sync_send_msg ::
  "('m \<Rightarrow> nat) \<Rightarrow> nat \<Rightarrow> bool \<Rightarrow> bool \<Rightarrow> bool \<Rightarrow> ('m \<Rightarrow> bool \<times> 'm list) \<Rightarrow> 'm \<Rightarrow> bool \<Rightarrow> bool \<Rightarrow> 'm sync_sender \<Rightarrow>
    (sync_call_result + nat) \<times> 'm sync_sender" where
  "sync_send_msg sz send_buf_size stopped native alloc pack msg can_overflow prior s =
     (if \<not> can_overflow \<and> \<not> is_send_buffer_available send_buf_size (sy_snd s) then (Inl NOT_APPLICABLE, s)
      else if native then do_direct_sync_send_msg sz stopped alloc prior msg s
      else let (re, msg_can) = pack msg
           in if re then do_direct_sync_send_msgs sz stopped prior msg_can s else (Inl NOT_APPLICABLE, s))"

definition sync_send_msgs ::
  "('m \<Rightarrow> nat) \<Rightarrow> nat \<Rightarrow> bool \<Rightarrow> bool \<Rightarrow> ('m list \<Rightarrow> bool \<times> 'm list) \<Rightarrow> 'm list \<Rightarrow> bool \<Rightarrow> bool \<Rightarrow> 'm sync_sender \<Rightarrow>
    (sync_call_result + nat) \<times> 'm sync_sender" where
  "sync_send_msgs sz send_buf_size stopped native pack msg_can can_overflow prior s =
     (if \<not> can_overflow \<and> \<not> is_send_buffer_available send_buf_size (sy_snd s) then (Inl NOT_APPLICABLE, s)
      else if native then do_direct_sync_send_msgs sz stopped prior msg_can s
      else let (re, out) = pack msg_can
           in if re then do_direct_sync_send_msgs sz stopped prior out s else (Inl NOT_APPLICABLE, s))"

definition sync_send_array ::
  "('m \<Rightarrow> nat) \<Rightarrow> nat \<Rightarrow> bool \<Rightarrow> bool \<Rightarrow> 'm \<Rightarrow> bool \<Rightarrow> bool \<Rightarrow> 'm sync_sender \<Rightarrow> (sync_call_result + nat) \<times> 'm sync_sender" where
  "sync_send_array sz send_buf_size stopped alloc packed can_overflow prior s =
     (if \<not> can_overflow \<and> \<not> is_send_buffer_available send_buf_size (sy_snd s) then (Inl NOT_APPLICABLE, s)
      else do_direct_sync_send_msg sz stopped alloc prior packed s)"

text \<open>
  \<open>TCP_SYNC_SAFE_SEND_MSG\<close>: the loop of theory Safe_Send around a sending function and its wait; \<open>wait\<close> is
  what happens while the function waits in the round and with what it ends.
\<close>

definition sync_try ::
  "('s \<Rightarrow> (sync_call_result + nat) \<times> 's) \<Rightarrow> (nat \<Rightarrow> 's \<Rightarrow> sync_call_result \<times> 's) \<Rightarrow> 's \<Rightarrow> bool \<times> 's" where
  "sync_try send_fun wait s =
     (case send_fun s of (Inl r, s1) \<Rightarrow> (r = SUCCESS, s1) | (Inr p, s1) \<Rightarrow> (let (r, s2) = wait p s1 in (r = SUCCESS, s2)))"

definition sync_safe_send ::
  "('s \<Rightarrow> (sync_call_result + nat) \<times> 's) \<Rightarrow> (nat \<Rightarrow> 's \<Rightarrow> sync_call_result \<times> 's) \<Rightarrow> ('s \<Rightarrow> bool) \<Rightarrow> (nat \<Rightarrow> 's \<Rightarrow> 's) \<Rightarrow> 's \<Rightarrow>
    (sync_call_result \<times> 's) option" where
  "sync_safe_send send_fun wait is_ready others s =
     map_option (\<lambda>(ok, s1). (if ok then SUCCESS else NOT_APPLICABLE, s1))
       (safe_send (sync_try send_fun wait) is_ready others 0 s)"

section \<open>Who fulfils the promises\<close>

text \<open>
  \<open>send_handler\<close> answers the messages of its write, the pop functions those they take out, and \<open>on_close\<close>
  those in \<open>sending_msgs\<close>; \<open>reset\<close> answers nobody.
\<close>

fun ev_answer :: "sync_call_result \<Rightarrow> 'm send_event \<Rightarrow> 'm list" where
  "ev_answer SUCCESS (Sent ms) = ms"
| "ev_answer NOT_APPLICABLE (Failed ms) = ms"
| "ev_answer NOT_APPLICABLE (Popped ms) = ms"
| "ev_answer _ _ = []"

definition sync_notify :: "'m in_msg send_event \<Rightarrow> 'm sync_sender \<Rightarrow> 'm sync_sender" where
  "sync_notify ev s =
     (case ev of Sent ms \<Rightarrow> notify_msgs SUCCESS ms s
      | Failed ms \<Rightarrow> notify_msgs NOT_APPLICABLE ms s
      | Popped ms \<Rightarrow> notify_msgs NOT_APPLICABLE ms s
      | _ \<Rightarrow> s)"

definition sync_on_close :: "'m sync_sender \<Rightarrow> 'm sync_sender" where
  "sync_on_close s = notify_msgs NOT_APPLICABLE (sd_msgs (sy_snd s)) (s\<lparr>sy_snd := (sy_snd s)\<lparr>sd_ready := False\<rparr>\<rparr>)"

text \<open>
  The steps of the sender, where messages of the other sending functions carry no promise, the calls that wait, and
  \<open>on_close\<close> with the messages it answers. There are some only if a write is outstanding, which \<open>close\<close> prevents with
  \<open>ASCS_DELAY_CLOSE = 0\<close> and a service pump that runs, and not otherwise.
\<close>

datatype 'm sync_event = Snd "'m send_event" | Closed "'m list"

fun sync_queued :: "'m sync_event \<Rightarrow> 'm list" where
  "sync_queued (Snd ev) = ev_queued ev"
| "sync_queued (Closed ms) = []"

fun sync_answer :: "sync_call_result \<Rightarrow> 'm sync_event \<Rightarrow> 'm list" where
  "sync_answer v (Snd ev) = ev_answer v ev"
| "sync_answer v (Closed ms) = (if v = NOT_APPLICABLE then ms else [])"

inductive sync_step :: "('m \<Rightarrow> nat) \<Rightarrow> nat \<Rightarrow> 'm sync_sender \<Rightarrow> 'm in_msg sync_event \<Rightarrow> 'm sync_sender \<Rightarrow> bool"
  for sz :: "'m \<Rightarrow> nat" and batch :: nat where
  plain: "\<not> sy_thrown s \<Longrightarrow> send_step (im_size sz) batch (sy_snd s) ev t \<Longrightarrow> \<forall>m\<in>set (ev_queued ev). im_p m = None \<Longrightarrow>
    s' = sync_notify ev (s\<lparr>sy_snd := t\<rparr>) \<Longrightarrow> sync_step sz batch s (Snd ev) s'"
| sync_one: "\<not> sy_thrown s \<Longrightarrow> do_direct_sync_send_msg sz stopped alloc prior msg s = (Inr p, s') \<Longrightarrow>
    ev = (if prior then Queued_front [\<lparr>im_obj = msg, im_p = Some p\<rparr>] else Queued [\<lparr>im_obj = msg, im_p = Some p\<rparr>]) \<Longrightarrow>
    sync_step sz batch s (Snd ev) s'"
| sync_list: "\<not> sy_thrown s \<Longrightarrow> do_direct_sync_send_msgs sz stopped prior msg_can s = (Inr p, s') \<Longrightarrow>
    ms = map (\<lambda>m. \<lparr>im_obj = m, im_p = None\<rparr>) (butlast msg_can) @ [\<lparr>im_obj = last msg_can, im_p = Some p\<rparr>] \<Longrightarrow>
    ev = (if prior then Queued_front ms else Queued ms) \<Longrightarrow> sync_step sz batch s (Snd ev) s'"
| refused: "\<not> sy_thrown s \<Longrightarrow> do_direct_sync_send_msg sz stopped alloc prior msg s = (Inl r, s') \<Longrightarrow>
    sync_step sz batch s (Snd Internal) s'"
| closed: "\<not> sy_thrown s \<Longrightarrow> s' = sync_on_close s \<Longrightarrow> sync_step sz batch s (Closed (sd_msgs (sy_snd s))) s'"

inductive sync_run :: "('m \<Rightarrow> nat) \<Rightarrow> nat \<Rightarrow> 'm sync_sender \<Rightarrow> 'm in_msg sync_event list \<Rightarrow> 'm sync_sender \<Rightarrow> bool"
  for sz :: "'m \<Rightarrow> nat" and batch :: nat and s0 :: "'m sync_sender" where
  sync_nil: "sync_run sz batch s0 [] s0"
| sync_snoc: "sync_run sz batch s0 evs s \<Longrightarrow> sync_step sz batch s ev s' \<Longrightarrow> sync_run sz batch s0 (evs @ [ev]) s'"

section \<open>The sender of theory Send_Path underneath\<close>

definition promises :: "'m in_msg list \<Rightarrow> nat list" where
  "promises ms = concat (map (\<lambda>m. case im_p m of None \<Rightarrow> [] | Some p \<Rightarrow> [p]) ms)"

lemma promises_simps [simp]:
  "promises [] = []" "promises (ms @ ns) = promises ms @ promises ns"
  "promises (m # ms) = (case im_p m of None \<Rightarrow> [] | Some p \<Rightarrow> [p]) @ promises ms"
  by (simp_all add: promises_def)

lemma promises_none: "\<forall>m\<in>set ms. im_p m = None \<Longrightarrow> promises ms = []"
  by (induction ms) auto

lemma notify_fields [simp]:
  "sy_snd (notify_msgs v ms s) = sy_snd s" "sy_next (notify_msgs v ms s) = sy_next s"
  by (induction v ms s rule: notify_msgs.induct) (auto split: option.splits)

lemma notify_distinct:
  assumes "distinct (promises ms)" "\<forall>p\<in>set (promises ms). sy_value s p = None"
  shows "sy_value (notify_msgs v ms s) = (\<lambda>p. if p \<in> set (promises ms) then Some v else sy_value s p) \<and>
    sy_thrown (notify_msgs v ms s) = sy_thrown s"
  using assms
proof (induction v ms s rule: notify_msgs.induct)
  case (2 v m ms s)
  show ?case
  proof (cases "im_p m")
    case None
    then show ?thesis using 2 by simp
  next
    case (Some p)
    let ?s = "s\<lparr>sy_value := (sy_value s)(p \<mapsto> v)\<rparr>"
    have n: "sy_value s p = None" "p \<notin> set (promises ms)" "\<forall>q\<in>set (promises ms). sy_value ?s q = None"
      using 2(3,4) Some by auto
    then have "sy_value (notify_msgs v ms ?s) = (\<lambda>q. if q \<in> set (promises ms) then Some v else sy_value ?s q) \<and>
        sy_thrown (notify_msgs v ms ?s) = sy_thrown ?s"
      using 2(2) [OF Some n(1)] 2(3) by simp
    then show ?thesis using Some n by (simp add: fun_eq_iff)
  qed
qed simp

text \<open>Only promises that are answered change, and \<open>set_value\<close> throws only on one that has a value.\<close>

lemma notify_value: "sy_value (notify_msgs v ms s) p = Some w \<Longrightarrow> sy_value s p = Some w \<or> w = v \<and> p \<in> set (promises ms)"
  by (induction v ms s rule: notify_msgs.induct) (auto split: option.splits if_splits)

lemma notify_unchanged: "p \<notin> set (promises ms) \<Longrightarrow> sy_value (notify_msgs v ms s) p = sy_value s p"
  by (induction v ms s rule: notify_msgs.induct) (auto split: option.splits if_splits)

lemma sync_notify_fields [simp]: "sy_snd (sync_notify ev s) = sy_snd s" "sy_next (sync_notify ev s) = sy_next s"
  by (simp_all add: sync_notify_def split: send_event.splits)

lemma sync_one_parts:
  assumes "do_direct_sync_send_msg sz stopped alloc prior msg s = (Inr p, s')"
  shows "p = sy_next s \<and> sy_next s' = sy_next s + 1 \<and> sy_value s' = sy_value s \<and> sy_thrown s' = sy_thrown s \<and>
    sz msg \<noteq> 0 \<and> alloc \<and> sy_snd s' = snd (do_direct_send_msg (im_size sz) alloc prior \<lparr>im_obj = msg, im_p = Some p\<rparr> (sy_snd s))"
  using assms
  by (auto simp: do_direct_sync_send_msg_def do_direct_send_msg_def in_msg_new_def check_and_create_promise_def im_size_def
      enqueue_def enqueue_front_def Let_def split: if_splits prod.splits)

lemma sync_list_parts:
  assumes "do_direct_sync_send_msgs sz stopped prior msg_can s = (Inr p, s')"
  shows "p = sy_next s \<and> sy_next s' = sy_next s + 1 \<and> sy_value s' = sy_value s \<and> sy_thrown s' = sy_thrown s \<and>
    sy_snd s' = snd (do_direct_send_msgs (im_size sz) prior
      (map (\<lambda>m. \<lparr>im_obj = m, im_p = None\<rparr>) (butlast msg_can) @ [\<lparr>im_obj = last msg_can, im_p = Some p\<rparr>]) (sy_snd s))"
proof -
  have ne: "msg_can \<noteq> []" using assms by (auto simp: do_direct_sync_send_msgs_def split: if_splits)
  then have "get_size_in_byte (im_size sz)
      (map (\<lambda>m. \<lparr>im_obj = m, im_p = None\<rparr>) (butlast msg_can) @ [\<lparr>im_obj = last msg_can, im_p = Some p\<rparr>]) = get_size_in_byte sz msg_can"
    by (cases msg_can rule: rev_cases) (simp_all add: get_size_bytes_of bytes_of_def im_size_def comp_def)
  then show ?thesis using assms ne
    by (auto simp: do_direct_sync_send_msgs_def do_direct_send_msgs_def in_msg_new_def check_and_create_promise_def
        map_butlast last_map Let_def split: if_splits)
qed

lemma sync_refused_parts:
  "do_direct_sync_send_msg sz stopped alloc prior msg s = (Inl r, s') \<Longrightarrow>
     sy_snd s' = sy_snd s \<and> sy_next s \<le> sy_next s' \<and> sy_value s' = sy_value s \<and> sy_thrown s' = sy_thrown s"
  by (auto simp: do_direct_sync_send_msg_def in_msg_new_def check_and_create_promise_def Let_def split: if_splits prod.splits)

lemma send_step_idle: "send_step sz batch s Internal s"
  by (rule send_step.queue [where alloc = False and prior = False and msg = undefined])
    (simp_all add: do_direct_send_msg_def enqueue_def)

lemma sync_step_sends:
  "sync_step sz batch s lab s' \<Longrightarrow> send_step (im_size sz) batch (sy_snd s) (case lab of Snd ev \<Rightarrow> ev | Closed ms \<Rightarrow> Internal) (sy_snd s')"
proof (induction rule: sync_step.induct)
  case (plain s ev t s')
  then show ?case by simp
next
  case (sync_one s stopped alloc prior msg p s' ev)
  note parts = sync_one_parts [OF sync_one(2)]
  have "im_size sz \<lparr>im_obj = msg, im_p = Some p\<rparr> \<noteq> 0" using parts by (simp add: im_size_def)
  then show ?case
    using parts sync_one(3) by (intro send_step.queue [where alloc = alloc and prior = prior and msg = "\<lparr>im_obj = msg, im_p = Some p\<rparr>"]) simp_all
next
  case (sync_list s stopped prior msg_can p s' ms ev)
  note parts = sync_list_parts [OF sync_list(2)]
  have "send_step (im_size sz) batch (sy_snd s) ev (sy_snd s')" by (rule send_step.queue_list [where prior = prior]) (use parts sync_list(3,4) in simp_all)
  then show ?case by simp
next
  case (refused s stopped alloc prior msg r s')
  then show ?case using sync_refused_parts [OF refused(2)] send_step_idle by simp
next
  case (closed s s')
  then show ?case by (simp add: sync_on_close_def send_step.break)
qed

text \<open>A step gives values to promises it answers only.\<close>

lemma sync_step_value:
  "sync_step sz batch s lab s' \<Longrightarrow> sy_value s' p = Some v \<Longrightarrow> sy_value s p = Some v \<or> p \<in> set (promises (sync_answer v lab))"
proof (induction rule: sync_step.induct)
  case (plain s ev t s')
  then show ?case by (cases ev) (auto simp: sync_notify_def dest: notify_value)
next
  case (sync_one s stopped alloc prior msg p s' ev)
  then show ?case using sync_one_parts [OF sync_one(2)] by simp
next
  case (sync_list s stopped prior msg_can p s' ms ev)
  then show ?case using sync_list_parts [OF sync_list(2)] by simp
next
  case (refused s stopped alloc prior msg r s')
  then show ?case using sync_refused_parts [OF refused(2)] by simp
next
  case (closed s s')
  then show ?case by (auto simp: sync_on_close_def dest: notify_value)
qed

lemma sync_run_value:
  "sync_run sz batch sync_new evs s \<Longrightarrow> sy_value s p = Some v \<Longrightarrow> p \<in> set (promises (concat (map (sync_answer v) evs)))"
proof (induction arbitrary: rule: sync_run.induct)
  case sync_nil
  then show ?case by (simp add: sync_new_def)
next
  case (sync_snoc evs s ev s')
  then show ?case using sync_step_value [OF sync_snoc(2,4)] by auto
qed

text \<open>What is issued is sent, fails, or is outstanding.\<close>

definition outstanding :: "'m sender \<Rightarrow> 'm list" where
  "outstanding s = (case sd_write s of None \<Rightarrow> [] | Some can \<Rightarrow> can)"

fun ev_done :: "'m send_event \<Rightarrow> 'm list" where
  "ev_done (Sent ms) = ms"
| "ev_done (Failed ms) = ms"
| "ev_done _ = []"

lemma done_step:
  "send_step sz batch s ev s' \<Longrightarrow> flag_inv s \<Longrightarrow>
     mset (outstanding s) + mset (ev_issued ev) = mset (ev_done ev) + mset (outstanding s')"
proof (induction rule: send_step.induct)
  case (pop_first s msg s')
  then show ?case using pop_first_fields [OF pop_first(1)] by (simp add: outstanding_def)
next
  case (pop_all s can s')
  then show ?case using pop_all_fields [OF pop_all(1)] by (simp add: outstanding_def)
next
  case (micro s s' ev)
  then show ?case
  proof (cases "sd_pc s")
    case (Move_out b)
    obtain out q where mv: "move_items_out_bytes sz batch (sd_buffer s) = (out, q)" by fastforce
    note st = move_out_step [OF micro(4) Move_out mv]
    then show ?thesis using micro(2,3) Move_out by (cases "out = []") (simp_all add: outstanding_def)
  qed (use micro in \<open>auto simp: strand_step_def outstanding_def\<close>)
qed (auto simp: outstanding_def send_msg_def post_send_msg_def begin_task_def begin_send_handler_def sender_start_def sender_reset_def)

section \<open>Every promise is answered once\<close>

definition waiting :: "'m in_msg sender \<Rightarrow> nat list" where
  "waiting t = promises (q_items (sd_buffer t) @ outstanding t)"

lemma mset_promises: "mset ms = mset ns \<Longrightarrow> mset (promises ms) = mset (promises ns)"
proof -
  have "mset (promises ms) = \<Sum>\<^sub># (image_mset (\<lambda>m. mset (case im_p m of None \<Rightarrow> [] | Some p \<Rightarrow> [p])) (mset ms))" for ms :: "'a in_msg list"
    by (induction ms) simp_all
  then show "mset ms = mset ns \<Longrightarrow> mset (promises ms) = mset (promises ns)" by simp
qed

lemma waiting_step:
  assumes "send_step sz batch t ev t'" "flag_inv t"
  shows "mset (waiting t) + mset (promises (ev_queued ev)) =
    mset (promises (ev_answer SUCCESS ev)) + mset (promises (ev_answer NOT_APPLICABLE ev)) +
    mset (promises (case ev of Cleared ms \<Rightarrow> ms | _ \<Rightarrow> [])) + mset (waiting t')"
proof -
  have "mset (q_items (sd_buffer t) @ outstanding t @ ev_queued ev) =
      mset (ev_done ev @ ev_removed ev @ q_items (sd_buffer t') @ outstanding t')"
    using arg_cong2 [OF conjunct1 [OF step_flow [OF assms]] done_step [OF assms], of "(+)"] by (simp add: ac_simps)
  from mset_promises [OF this] show ?thesis by (cases ev) (simp_all add: waiting_def ac_simps)
qed

text \<open>
  \<open>sync_inv\<close>: the promises still waiting are distinct and without a value, unless \<open>on_close\<close> answered them early; the
  values are the answers the events gave, and they went to promises that were made.
\<close>

definition early :: "'m in_msg sync_event list \<Rightarrow> nat \<Rightarrow> bool" where
  "early evs p \<longleftrightarrow> (\<exists>ms. Closed ms \<in> set evs \<and> p \<in> set (promises ms))"

definition dropped :: "'m in_msg sync_event list \<Rightarrow> nat \<Rightarrow> bool" where
  "dropped evs p \<longleftrightarrow> (\<exists>ms. Snd (Cleared ms) \<in> set evs \<and> p \<in> set (promises ms))"

lemma early_dropped_append [simp]:
  "early (evs @ evs') p \<longleftrightarrow> early evs p \<or> early evs' p" "dropped (evs @ evs') p \<longleftrightarrow> dropped evs p \<or> dropped evs' p"
  "early [Snd ev] p \<longleftrightarrow> False" "early [Closed ms] p \<longleftrightarrow> p \<in> set (promises ms)" "dropped [Closed ms] p \<longleftrightarrow> False"
  "dropped [Snd ev] p \<longleftrightarrow> p \<in> set (promises (case ev of Cleared ms \<Rightarrow> ms | _ \<Rightarrow> []))"
  by (auto simp: early_def dropped_def split: send_event.splits)

definition sync_inv :: "'m in_msg sync_event list \<Rightarrow> 'm sync_sender \<Rightarrow> bool" where
  "sync_inv evs s \<longleftrightarrow>
     flag_inv (sy_snd s) \<and> \<not> sy_thrown s \<and> distinct (waiting (sy_snd s)) \<and>
     (\<forall>p\<in>set (waiting (sy_snd s)). p < sy_next s \<and> (sy_value s p = None \<or> early evs p)) \<and>
     (\<forall>p v. sy_value s p = Some v \<longleftrightarrow> p \<in> set (promises (concat (map (sync_answer v) evs)))) \<and>
     (\<forall>p. sy_next s \<le> p \<longrightarrow> sy_value s p = None) \<and>
     (\<forall>p\<in>set (promises (concat (map sync_queued evs))).
        p < sy_next s \<and> (p \<in> set (waiting (sy_snd s)) \<or> sy_value s p \<noteq> None \<or> dropped evs p))"

lemma sync_inv_new: "sync_inv [] sync_new"
  using flag_inv_new by (simp add: sync_inv_def sync_new_def waiting_def outstanding_def sd_new_def q_new_def)

lemma ev_answer_none [simp]:
  "(\<forall>ms. ev \<noteq> Sent ms) \<Longrightarrow> ev_answer SUCCESS ev = []"
  "(\<forall>ms. ev \<noteq> Failed ms \<and> ev \<noteq> Popped ms) \<Longrightarrow> ev_answer NOT_APPLICABLE ev = []"
  "ev_answer DUPLICATE ev = []" "ev_answer TIMEOUT ev = []"
  by (cases ev; simp)+

lemma sync_inv_core:
  assumes i: "sync_inv evs s" and st: "send_step sz batch (sy_snd s) ev (sy_snd s')"
    and v: "sy_value s' = (\<lambda>p. if p \<in> set (promises (ev_answer SUCCESS ev)) then Some SUCCESS
          else if p \<in> set (promises (ev_answer NOT_APPLICABLE ev)) then Some NOT_APPLICABLE else sy_value s p)"
    and u: "\<forall>p\<in>set (promises (ev_answer SUCCESS ev @ ev_answer NOT_APPLICABLE ev)). sy_value s p = None"
    and q: "\<not> sy_thrown s'" "sy_next s \<le> sy_next s'" "distinct (promises (ev_queued ev))"
      "\<forall>p\<in>set (promises (ev_queued ev)). sy_next s \<le> p \<and> p < sy_next s'"
  shows "sync_inv (evs @ [Snd ev]) s'"
proof -
  let ?S = "promises (ev_answer SUCCESS ev)" and ?N = "promises (ev_answer NOT_APPLICABLE ev)" and ?Q = "promises (ev_queued ev)"
    and ?C = "promises (case ev of Cleared ms \<Rightarrow> ms | _ \<Rightarrow> [])" and ?W = "waiting (sy_snd s)" and ?W' = "waiting (sy_snd s')"
  have f: "flag_inv (sy_snd s)" and w: "distinct ?W" "\<forall>p\<in>set ?W. p < sy_next s \<and> (sy_value s p = None \<or> early evs p)"
    and vals: "\<And>p v. sy_value s p = Some v \<longleftrightarrow> p \<in> set (promises (concat (map (sync_answer v) evs)))"
    and late: "\<And>p. sy_next s \<le> p \<Longrightarrow> sy_value s p = None"
    and known: "\<And>p. p \<in> set (promises (concat (map sync_queued evs))) \<Longrightarrow>
      p < sy_next s \<and> (p \<in> set ?W \<or> sy_value s p \<noteq> None \<or> dropped evs p)"
    using i unfolding sync_inv_def by blast+
  have m: "mset (?W @ ?Q) = mset (?S @ ?N @ ?C @ ?W')" using waiting_step [OF st f] by simp
  have "distinct (?W @ ?Q)" using w q by fastforce
  then have d: "distinct (?S @ ?N @ ?C @ ?W')" using m by (metis mset_eq_imp_distinct_iff)
  have "set ?W \<union> set ?Q = set ?S \<union> set ?N \<union> set ?C \<union> set ?W'" using m by (metis Un_assoc set_append set_mset_mset)
  then have sub: "\<And>p. p \<in> set ?W \<or> p \<in> set ?Q \<longleftrightarrow> p \<in> set ?S \<or> p \<in> set ?N \<or> p \<in> set ?C \<or> p \<in> set ?W'" by blast
  have new: "p < sy_next s' \<and> (sy_value s p = None \<or> early evs p)" if "p \<in> set ?W \<or> p \<in> set ?Q" for p
    using that w(2) late q(2,4) by (meson order_less_le_trans)
  have SN: "set ?S \<inter> set ?N = {}" using d by auto
  have a: "sy_value s' p = Some v \<longleftrightarrow> p \<in> set (promises (concat (map (sync_answer v) (evs @ [Snd ev]))))" for p v
  proof (cases "p \<in> set ?S \<or> p \<in> set ?N")
    case True
    then have "sy_value s p = None" using u by auto
    then have "p \<notin> set (promises (concat (map (sync_answer v) evs)))" using vals by (metis option.distinct(1))
    moreover have "sy_value s' p = Some v \<longleftrightarrow> p \<in> set (promises (ev_answer v ev))"
      using True SN v by (cases v) auto
    ultimately show ?thesis by simp
  next
    case False
    moreover have "p \<notin> set (promises (ev_answer v ev))" using False by (cases v) simp_all
    ultimately show ?thesis using vals [of p v] v by simp
  qed
  have "p < sy_next s' \<and> (p \<in> set ?W' \<or> sy_value s' p \<noteq> None \<or> dropped (evs @ [Snd ev]) p)"
    if "p \<in> set (promises (concat (map sync_queued (evs @ [Snd ev]))))" for p
  proof (cases "p \<in> set ?W \<or> p \<in> set ?Q")
    case True
    then consider "p \<in> set ?S" | "p \<in> set ?N" | "p \<in> set ?C" | "p \<in> set ?W'" using sub by blast
    then show ?thesis using new [OF True] v by cases simp_all
  next
    case False
    then have "p < sy_next s" "sy_value s p \<noteq> None \<or> dropped evs p"
      using that known by auto
    moreover have "sy_value s' p \<noteq> None" if "sy_value s p \<noteq> None" using that v by simp
    ultimately show ?thesis using q(2) by auto
  qed
  moreover have "p < sy_next s' \<and> (sy_value s' p = None \<or> early (evs @ [Snd ev]) p)" if "p \<in> set ?W'" for p
    using that d sub new v by auto
  moreover have "sy_value s' p = None" if "sy_next s' \<le> p" for p
    using that sub new v late q(2) by (metis (no_types, lifting) le_trans not_le)
  moreover have "distinct ?W'" using d by simp
  moreover have "flag_inv (sy_snd s')" using flag_inv_step [OF st f] .
  ultimately show ?thesis using a q(1) unfolding sync_inv_def by blast
qed

text \<open>The invariant lasts until a promise that \<open>on_close\<close> answered early is answered again.\<close>

lemma notify_throws: "p \<in> set (promises ms) \<Longrightarrow> sy_value s p \<noteq> None \<Longrightarrow> sy_thrown (notify_msgs v ms s)"
  by (induction v ms s rule: notify_msgs.induct) (auto split: option.splits)

lemma sync_inv_plain:
  assumes st: "send_step (im_size sz) batch (sy_snd s) ev t" and i: "sync_inv evs s" and none: "promises (ev_queued ev) = []"
    and ev: "ev_answer v ev = ms" "ev_answer SUCCESS ev @ ev_answer NOT_APPLICABLE ev = ms" "v = SUCCESS \<or> v = NOT_APPLICABLE"
  shows "sync_inv (evs @ [Snd ev]) (notify_msgs v ms (s\<lparr>sy_snd := t\<rparr>)) \<or>
    sy_thrown (notify_msgs v ms (s\<lparr>sy_snd := t\<rparr>)) \<and> (\<exists>p\<in>set (promises ms). early evs p)"
proof (cases "\<forall>p\<in>set (promises ms). sy_value s p = None")
  case True
  have f: "flag_inv (sy_snd s)" and w: "distinct (waiting (sy_snd s))" and th: "\<not> sy_thrown s" using i by (simp_all add: sync_inv_def)
  have m: "mset (waiting (sy_snd s)) = mset (promises ms @ promises (case ev of Cleared ms \<Rightarrow> ms | _ \<Rightarrow> []) @ waiting t)"
    using waiting_step [OF st f] none ev(2) promises_simps(2) [of "ev_answer SUCCESS ev" "ev_answer NOT_APPLICABLE ev"] by (simp add: add.assoc)
  then have "distinct (promises ms)" using w mset_eq_imp_distinct_iff [OF m] by simp
  note n = notify_distinct [OF this, of "s\<lparr>sy_snd := t\<rparr>" v]
  have "sync_inv (evs @ [Snd ev]) (notify_msgs v ms (s\<lparr>sy_snd := t\<rparr>))"
  proof (rule sync_inv_core [OF i])
    show "send_step (im_size sz) batch (sy_snd s) ev (sy_snd (notify_msgs v ms (s\<lparr>sy_snd := t\<rparr>)))" using st by simp
    show "sy_value (notify_msgs v ms (s\<lparr>sy_snd := t\<rparr>)) = (\<lambda>p. if p \<in> set (promises (ev_answer SUCCESS ev)) then Some SUCCESS
        else if p \<in> set (promises (ev_answer NOT_APPLICABLE ev)) then Some NOT_APPLICABLE else sy_value s p)"
      using n True ev by (cases ev) (auto simp: fun_eq_iff)
    show "\<forall>p\<in>set (promises (ev_answer SUCCESS ev @ ev_answer NOT_APPLICABLE ev)). sy_value s p = None" unfolding ev(2) by (rule True)
  qed (use n True th none in simp_all)
  then show ?thesis ..
next
  case False
  then obtain p where p: "p \<in> set (promises ms)" "sy_value s p \<noteq> None" by blast
  have f: "flag_inv (sy_snd s)" and w: "\<forall>p\<in>set (waiting (sy_snd s)). sy_value s p = None \<or> early evs p" using i by (simp_all add: sync_inv_def)
  have "mset (waiting (sy_snd s)) = mset (promises ms @ promises (case ev of Cleared ms \<Rightarrow> ms | _ \<Rightarrow> []) @ waiting t)"
    using waiting_step [OF st f] none ev(2) promises_simps(2) [of "ev_answer SUCCESS ev" "ev_answer NOT_APPLICABLE ev"] by (simp add: add.assoc)
  then have "p \<in> set (waiting (sy_snd s))" using p(1) by (metis UnI1 set_append set_mset_mset)
  then have "early evs p" using w p(2) by auto
  moreover have "sy_thrown (notify_msgs v ms (s\<lparr>sy_snd := t\<rparr>))" by (rule notify_throws [OF p(1)]) (use p(2) in simp)
  ultimately show ?thesis using p(1) by auto
qed

lemma sync_inv_step:
  assumes "sync_step sz batch s lab s'" "sync_inv evs s"
  shows "sync_inv (evs @ [lab]) s' \<or> sy_thrown s' \<and> (\<exists>p v. early evs p \<and> p \<in> set (promises (sync_answer v lab)))"
  using assms(1)
proof (cases rule: sync_step.cases)
  case (plain ev t)
  have none: "promises (ev_queued ev) = []" using plain(4) by (rule promises_none)
  note pl = sync_inv_plain [OF plain(3) assms(2) none]
  show ?thesis
  proof (cases "\<exists>ms. ev = Sent ms \<or> ev = Failed ms \<or> ev = Popped ms")
    case True
    then obtain ms where "ev = Sent ms \<or> ev = Failed ms \<or> ev = Popped ms" by blast
    then show ?thesis
    proof (elim disjE)
      assume "ev = Sent ms"
      then show ?thesis using pl [of SUCCESS ms] plain(1,5) by (fastforce simp: sync_notify_def intro: exI [of _ SUCCESS])
    next
      assume "ev = Failed ms"
      then show ?thesis using pl [of NOT_APPLICABLE ms] plain(1,5) by (fastforce simp: sync_notify_def intro: exI [of _ NOT_APPLICABLE])
    next
      assume "ev = Popped ms"
      then show ?thesis using pl [of NOT_APPLICABLE ms] plain(1,5) by (fastforce simp: sync_notify_def intro: exI [of _ NOT_APPLICABLE])
    qed
  next
    case False
    then have "ev_answer SUCCESS ev = []" "ev_answer NOT_APPLICABLE ev = []" "s' = s\<lparr>sy_snd := t\<rparr>"
      using plain(5) by (cases ev; simp add: sync_notify_def)+
    then show ?thesis using pl [of SUCCESS "[]"] plain(1) by simp
  qed
next
  case (sync_one stopped alloc prior msg p ev)
  have "send_step (im_size sz) batch (sy_snd s) ev (sy_snd s')" using sync_step_sends [OF assms(1)] sync_one(1) by simp
  then have "sync_inv (evs @ [Snd ev]) s'" using sync_one_parts [OF sync_one(3)] sync_one(2,4)
    by (intro sync_inv_core [OF assms(2)]) (simp_all add: fun_eq_iff)
  then show ?thesis using sync_one(1) by simp
next
  case (sync_list stopped prior msg_can p ms ev)
  have "promises ms = [p]" using sync_list(4) by (simp add: promises_none)
  moreover have "send_step (im_size sz) batch (sy_snd s) ev (sy_snd s')" using sync_step_sends [OF assms(1)] sync_list(1) by simp
  ultimately have "sync_inv (evs @ [Snd ev]) s'" using sync_list_parts [OF sync_list(3)] sync_list(2,5)
    by (intro sync_inv_core [OF assms(2)]) (simp_all add: fun_eq_iff)
  then show ?thesis using sync_list(1) by simp
next
  case (refused stopped alloc prior msg r)
  have "send_step (im_size sz) batch (sy_snd s) Internal (sy_snd s')" using sync_step_sends [OF assms(1)] refused(1) by simp
  then have "sync_inv (evs @ [Snd Internal]) s'" using sync_refused_parts [OF refused(3)] refused(2)
    by (intro sync_inv_core [OF assms(2)]) (simp_all add: fun_eq_iff)
  then show ?thesis using refused(1) by simp
next
  case closed
  let ?ms = "sd_msgs (sy_snd s)"
  have f: "flag_inv (sy_snd s)" "\<not> sy_thrown s" and w: "distinct (waiting (sy_snd s))" "\<forall>p\<in>set (waiting (sy_snd s)). p < sy_next s \<and> (sy_value s p = None \<or> early evs p)"
    using assms(2) by (simp_all add: sync_inv_def)
  have o: "outstanding (sy_snd s) = ?ms" using f(1) by (auto simp: flag_inv_def outstanding_def split: option.splits)
  show ?thesis
  proof (cases "\<forall>p\<in>set (promises ?ms). sy_value s p = None")
    case True
    have "distinct (promises ?ms)" using w(1) o by (simp add: waiting_def)
    then have n: "sy_value s' = (\<lambda>p. if p \<in> set (promises ?ms) then Some NOT_APPLICABLE else sy_value s p)" "\<not> sy_thrown s'"
      using notify_distinct [of ?ms "s\<lparr>sy_snd := (sy_snd s)\<lparr>sd_ready := False\<rparr>\<rparr>" NOT_APPLICABLE] True f(2) closed(3) by (simp_all add: sync_on_close_def fun_eq_iff)
    have s': "waiting (sy_snd s') = waiting (sy_snd s)" "sy_next s' = sy_next s"
      unfolding closed(3) by (simp_all add: sync_on_close_def waiting_def outstanding_def)
    have f': "flag_inv (sy_snd s')" using flag_inv_step [OF sync_step_sends [OF assms(1)] f(1)] .
    have i: "\<And>p v. sy_value s p = Some v \<longleftrightarrow> p \<in> set (promises (concat (map (sync_answer v) evs)))"
      "\<And>p. sy_next s \<le> p \<Longrightarrow> sy_value s p = None"
      "\<And>p. p \<in> set (promises (concat (map sync_queued evs))) \<Longrightarrow> p < sy_next s \<and> (p \<in> set (waiting (sy_snd s)) \<or> sy_value s p \<noteq> None \<or> dropped evs p)"
      using assms(2) unfolding sync_inv_def by blast+
    have wm: "p < sy_next s" if "p \<in> set (promises ?ms)" for p using that w(2) o by (simp add: waiting_def)
    have "sy_value s' p = Some v \<longleftrightarrow> p \<in> set (promises (concat (map (sync_answer v) (evs @ [Closed ?ms]))))" for p v
      using i(1) [of p v] True n(1) by (cases "p \<in> set (promises ?ms)") auto
    moreover have "p < sy_next s' \<and> (sy_value s' p = None \<or> early (evs @ [Closed ?ms]) p)" if "p \<in> set (waiting (sy_snd s'))" for p
      using that w(2) n(1) s' by auto
    moreover have "sy_value s' p = None" if "sy_next s' \<le> p" for p using that i(2) wm n(1) s'(2) by (auto simp: not_le [symmetric])
    moreover have "p < sy_next s' \<and> (p \<in> set (waiting (sy_snd s')) \<or> sy_value s' p \<noteq> None \<or> dropped (evs @ [Closed ?ms]) p)"
      if "p \<in> set (promises (concat (map sync_queued (evs @ [Closed ?ms]))))" for p
    proof -
      have k: "p < sy_next s \<and> (p \<in> set (waiting (sy_snd s)) \<or> sy_value s p \<noteq> None \<or> dropped evs p)" using that by (intro i(3)) simp
      have "sy_value s' p \<noteq> None" if "sy_value s p \<noteq> None" using that n(1) by simp
      then show ?thesis using k unfolding s' by auto
    qed
    ultimately have "sync_inv (evs @ [Closed ?ms]) s'"
      using f' n(2) w(1) unfolding sync_inv_def s'(1) [symmetric] by blast
    then show ?thesis using closed(1) by simp
  next
    case False
    then obtain p where p: "p \<in> set (promises ?ms)" "sy_value s p \<noteq> None" by blast
    moreover from p(1) have "p \<in> set (waiting (sy_snd s))" using o by (simp add: waiting_def)
    ultimately have "sy_value s p = None \<or> early evs p" using w(2) by blast
    then have "early evs p" using p(2) by simp
    moreover have "sy_thrown s'" unfolding closed(3) sync_on_close_def by (rule notify_throws [OF p(1)]) (use p(2) in simp)
    ultimately show ?thesis using p(1) closed(1) by (intro disjI2 conjI exI [of _ p] exI [of _ NOT_APPLICABLE]) simp_all
  qed
qed

lemma sync_inv_run:
  "sync_run sz batch s0 evs s \<Longrightarrow> sync_inv [] s0 \<Longrightarrow>
     sync_inv evs s \<or> sy_thrown s \<and> (\<exists>evs1 lab p v. evs = evs1 @ [lab] \<and> early evs1 p \<and> p \<in> set (promises (sync_answer v lab)))"
proof (induction rule: sync_run.induct)
  case (sync_snoc evs s ev s')
  have "\<not> sy_thrown s" using sync_snoc(2) by (auto elim: sync_step.cases)
  then have "sync_inv evs s" using sync_snoc(3) [OF sync_snoc(4)] by blast
  then show ?case using sync_inv_step [OF sync_snoc(2)] by fastforce
qed simp

section \<open>Properties\<close>

text \<open>
  C8. Every caller of a synchronous sending function gets the one right answer. For every interleaving of
  callers, other senders, the strand, completions of writes, users that take messages out, and \<open>on_close\<close> at any time: a promise is
  only set to \<open>SUCCESS\<close> if the write that carried its message succeeded, and only to \<open>NOT_APPLICABLE\<close> if that
  write failed, a user took the message out, or \<open>on_close\<close> came while that write was outstanding; each of these events does
  set it, and a promise that is not set has its message in the send buffer or in the outstanding write,
  unless \<open>reset\<close> dropped it. The one exception is an \<open>on_close\<close> during a write, which \<open>ASCS_DELAY_CLOSE = 0\<close> and a
  running service pump exclude: when the promises it set are to be set again, that throws in the strand.
\<close>
theorem sync_send_answered:
  assumes "sync_run sz batch sync_new evs s"
  shows "(\<forall>p v. sy_value s p = Some v \<longrightarrow> p \<in> set (promises (concat (map (sync_answer v) evs)))) \<and>
    (\<not> sy_thrown s \<and>
     (\<forall>p v. p \<in> set (promises (concat (map (sync_answer v) evs))) \<longrightarrow> sy_value s p = Some v) \<and>
     (\<forall>p\<in>set (promises (concat (map sync_queued evs))). sy_value s p = None \<longrightarrow>
        p \<in> set (promises (q_items (sd_buffer (sy_snd s)))) \<or>
        (\<exists>can. sd_write (sy_snd s) = Some can \<and> p \<in> set (promises can)) \<or>
        (\<exists>ms. Snd (Cleared ms) \<in> set evs \<and> p \<in> set (promises ms))) \<or>
     sy_thrown s \<and> (\<exists>evs1 lab ms p v. evs = evs1 @ [lab] \<and> Closed ms \<in> set evs1 \<and> p \<in> set (promises ms) \<and> p \<in> set (promises (sync_answer v lab))))"
proof -
  have w: "p \<in> set (promises (q_items (sd_buffer t))) \<or> (\<exists>can. sd_write t = Some can \<and> p \<in> set (promises can))"
    if "p \<in> set (waiting t)" for p and t :: "'a in_msg sender"
    using that by (auto simp: waiting_def outstanding_def split: option.splits)
  have v: "\<forall>p v. sy_value s p = Some v \<longrightarrow> p \<in> set (promises (concat (map (sync_answer v) evs)))" using sync_run_value [OF assms] by blast
  from sync_inv_run [OF assms sync_inv_new] show ?thesis
  proof
    assume i: "sync_inv evs s"
    then have k: "\<And>p. p \<in> set (promises (concat (map sync_queued evs))) \<Longrightarrow> p \<in> set (waiting (sy_snd s)) \<or> sy_value s p \<noteq> None \<or> dropped evs p"
      unfolding sync_inv_def by blast
    have "\<And>p v. sy_value s p = Some v \<longleftrightarrow> p \<in> set (promises (concat (map (sync_answer v) evs)))" using i unfolding sync_inv_def by blast
    then have set: "\<forall>p v. p \<in> set (promises (concat (map (sync_answer v) evs))) \<longrightarrow> sy_value s p = Some v" by simp
    have nt: "\<not> sy_thrown s" using i by (simp add: sync_inv_def)
    have wait: "\<forall>p\<in>set (promises (concat (map sync_queued evs))). sy_value s p = None \<longrightarrow>
        p \<in> set (promises (q_items (sd_buffer (sy_snd s)))) \<or> (\<exists>can. sd_write (sy_snd s) = Some can \<and> p \<in> set (promises can)) \<or>
        (\<exists>ms. Snd (Cleared ms) \<in> set evs \<and> p \<in> set (promises ms))"
      using k w unfolding dropped_def by blast
    show ?thesis by (rule conjI [OF v disjI1 [OF conjI [OF nt conjI [OF set wait]]]])
  next
    assume "sy_thrown s \<and> (\<exists>evs1 lab p v. evs = evs1 @ [lab] \<and> early evs1 p \<and> p \<in> set (promises (sync_answer v lab)))"
    then show ?thesis using v unfolding early_def by simp blast
  qed
qed

lemma sync_demo_run:
  "sync_run (\<lambda>_. 1) 65536 sync_new [Snd (Queued [\<lparr>im_obj = 7 :: nat, im_p = Some 0\<rparr>]), Snd (Popped [\<lparr>im_obj = 7, im_p = Some 0\<rparr>])]
     \<lparr>sy_snd = sd_new\<lparr>sd_checks := 1, sd_pops := 1\<rparr>, sy_next = 1, sy_value = (\<lambda>_. None)(0 \<mapsto> NOT_APPLICABLE), sy_thrown = False\<rparr>"
proof -
  let ?m = "\<lparr>im_obj = 7 :: nat, im_p = Some 0\<rparr>"
  let ?s1 = "sync_new\<lparr>sy_snd := sd_new\<lparr>sd_buffer := \<lparr>q_items = [?m], q_total = 1\<rparr>, sd_checks := 1\<rparr>, sy_next := 1\<rparr>"
  note defs = sync_new_def sd_new_def q_new_def size_add_def size_sub_def SIZE_MOD_def im_size_def
  have a: "sync_step (\<lambda>_. 1) 65536 sync_new (Snd (Queued [?m])) ?s1"
    by (rule sync_one [where stopped = False and alloc = True and prior = False and msg = 7 and p = 0])
      (simp_all add: do_direct_sync_send_msg_def in_msg_new_def check_and_create_promise_def enqueue_def defs)
  have b: "sync_step (\<lambda>_. 1) 65536 ?s1 (Snd (Popped [?m]))
      \<lparr>sy_snd = sd_new\<lparr>sd_checks := 1, sd_pops := 1\<rparr>, sy_next = 1, sy_value = (\<lambda>_. None)(0 \<mapsto> NOT_APPLICABLE), sy_thrown = False\<rparr>"
    by (rule plain [OF _ send_step.pop_first]) (simp_all add: pop_first_pending_send_msg_def try_dequeue_def sync_notify_def defs)
  show ?thesis using sync_snoc [OF sync_snoc [OF sync_nil a] b] by simp
qed

theorem sync_send_answered_witness:
  "\<exists>s. sync_run (\<lambda>_. 1) 65536 sync_new [Snd (Queued [\<lparr>im_obj = 7 :: nat, im_p = Some 0\<rparr>]), Snd (Popped [\<lparr>im_obj = 7, im_p = Some 0\<rparr>])] s \<and>
     sy_value s 0 = Some NOT_APPLICABLE"
proof -
  let ?evs = "[Snd (Queued [\<lparr>im_obj = 7 :: nat, im_p = Some 0\<rparr>]), Snd (Popped [\<lparr>im_obj = 7, im_p = Some 0\<rparr>])]"
  obtain s where r: "sync_run (\<lambda>_. 1) 65536 sync_new ?evs s" using sync_demo_run by blast
  have "Closed ms \<notin> set evs1" if "?evs = evs1 @ [lab]" for evs1 lab ms
  proof
    assume "Closed ms \<in> set evs1"
    then have "Closed ms \<in> set ?evs" unfolding that by simp
    then show False by simp
  qed
  then have "\<forall>p v. p \<in> set (promises (concat (map (sync_answer v) ?evs))) \<longrightarrow> sy_value s p = Some v"
    using sync_send_answered [OF r] by blast
  then have "sy_value s 0 = Some NOT_APPLICABLE" by (auto dest!: spec [of _ 0])
  then show ?thesis using r by blast
qed

section \<open>Where the answers fail\<close>

text \<open>
  A message that \<open>reset\<close> drops (a server socket that is used again) leaves its caller without an answer: nothing that can
  happen afterwards sets the promise, so with \<open>duration = 0\<close> the call never returns.
\<close>

lemma sync_step_new_promises:
  "sync_step sz batch s ev s' \<Longrightarrow> sy_next s \<le> sy_next s' \<and> (\<forall>p\<in>set (promises (sync_queued ev)). sy_next s \<le> p)"
proof (induction rule: sync_step.induct)
  case (plain s ev t s')
  then show ?case by (simp add: promises_none)
next
  case (sync_one s stopped alloc prior msg p s' ev)
  then show ?case using sync_one_parts [OF sync_one(2)] by simp
next
  case (sync_list s stopped prior msg_can p s' ms ev)
  have "promises ms = [p]" using sync_list(3) by (simp add: promises_none)
  then show ?case using sync_list_parts [OF sync_list(2)] sync_list(4) by simp
next
  case (refused s stopped alloc prior msg r s')
  then show ?case using sync_refused_parts [OF refused(2)] by simp
next
  case (closed s s')
  then show ?case by (simp add: sync_on_close_def)
qed

definition forgotten :: "nat \<Rightarrow> 'm sync_sender \<Rightarrow> bool" where
  "forgotten p s \<longleftrightarrow> flag_inv (sy_snd s) \<and> p < sy_next s \<and> p \<notin> set (waiting (sy_snd s)) \<and> sy_value s p = None"

lemma forgotten_step:
  assumes "sync_step sz batch s lab s'" "forgotten p s"
  shows "forgotten p s'"
proof -
  let ?ev = "case lab of Snd ev \<Rightarrow> ev | Closed ms \<Rightarrow> Internal"
  note st = sync_step_sends [OF assms(1)] and new = sync_step_new_promises [OF assms(1)]
  have f: "flag_inv (sy_snd s)" "p < sy_next s" "p \<notin> set (waiting (sy_snd s))" "sy_value s p = None" using assms(2) by (simp_all add: forgotten_def)
  have "p \<notin> set (promises (ev_queued ?ev))" using new f(2) by (cases lab) auto
  moreover have "set (waiting (sy_snd s)) \<union> set (promises (ev_queued ?ev)) = set (promises (ev_answer SUCCESS ?ev)) \<union>
      set (promises (ev_answer NOT_APPLICABLE ?ev)) \<union> set (promises (case ?ev of Cleared ms \<Rightarrow> ms | _ \<Rightarrow> [])) \<union> set (waiting (sy_snd s'))"
    using arg_cong [OF waiting_step [OF st f(1)], of set_mset] by (simp only: set_mset_union set_mset_mset)
  ultimately have n: "p \<notin> set (promises (ev_answer SUCCESS ?ev))" "p \<notin> set (promises (ev_answer NOT_APPLICABLE ?ev))" "p \<notin> set (waiting (sy_snd s'))"
    using f(3) by blast+
  have "p \<notin> set (promises (sync_answer v lab))" for v
  proof (cases lab)
    case (Snd ev)
    then show ?thesis using n by (cases v) simp_all
  next
    case (Closed ms)
    then have "ms = sd_msgs (sy_snd s)" using assms(1) by (auto elim: sync_step.cases)
    then have "ms = outstanding (sy_snd s)" using f(1) by (auto simp: flag_inv_def outstanding_def split: option.splits)
    then show ?thesis using f(3) Closed by (simp add: waiting_def)
  qed
  then have "sy_value s' p = None" using sync_step_value [OF assms(1)] f(4) by (metis option.exhaust option.distinct(1))
  then show ?thesis using n(3) f(2) new flag_inv_step [OF st f(1)] by (simp add: forgotten_def)
qed

lemma sync_send_hangs:
  "\<exists>evs s. sync_run (\<lambda>_. 1) 65536 sync_new evs s \<and> 0 \<in> set (promises (concat (map sync_queued evs))) \<and>
     (\<forall>evs2 s2. sync_run (\<lambda>_. 1) 65536 s evs2 s2 \<longrightarrow> sync_wait 0 (sy_value s2 0) = None) \<and>
     s = (sync_new :: nat sync_sender)\<lparr>sy_snd := sd_new\<lparr>sd_checks := 1\<rparr>, sy_next := 1\<rparr>"
proof -
  let ?m = "\<lparr>im_obj = 7 :: nat, im_p = Some 0\<rparr>"
  let ?s1 = "sync_new\<lparr>sy_snd := sd_new\<lparr>sd_buffer := \<lparr>q_items = [?m], q_total = 1\<rparr>, sd_checks := 1\<rparr>, sy_next := 1\<rparr>"
  let ?s2 = "sync_new\<lparr>sy_snd := sd_new\<lparr>sd_checks := 1\<rparr>, sy_next := 1\<rparr> :: nat sync_sender"
  note defs = sync_new_def sd_new_def q_new_def size_add_def size_sub_def SIZE_MOD_def im_size_def
  have a: "sync_step (\<lambda>_. 1) 65536 sync_new (Snd (Queued [?m])) ?s1"
    by (rule sync_one [where stopped = False and alloc = True and prior = False and msg = 7 and p = 0])
      (simp_all add: do_direct_sync_send_msg_def in_msg_new_def check_and_create_promise_def enqueue_def defs)
  have "send_step (im_size (\<lambda>_. 1)) 65536 (sy_snd ?s1) (Cleared (q_items (sd_buffer (sy_snd ?s1)))) (sender_reset (sy_snd ?s1))"
    by (rule send_step.reuse) (simp_all add: defs)
  then have b: "sync_step (\<lambda>_. 1) 65536 ?s1 (Snd (Cleared [?m])) ?s2"
    by (intro plain [where t = "sender_reset (sy_snd ?s1)"]) (simp_all add: sync_notify_def sender_reset_def q_clear_def defs)
  have r: "sync_run (\<lambda>_. 1) 65536 sync_new [Snd (Queued [?m]), Snd (Cleared [?m])] ?s2" using sync_snoc [OF sync_snoc [OF sync_nil a] b] by simp
  have "forgotten 0 s3" if "sync_run (\<lambda>_. 1) 65536 ?s2 evs2 s3" for evs2 s3
    using that
  proof (induction rule: sync_run.induct)
    case sync_nil
    then show ?case by (simp add: forgotten_def waiting_def outstanding_def flag_inv_def defs)
  qed (rule forgotten_step)
  then have "sync_wait 0 (sy_value s3 0) = None" if "sync_run (\<lambda>_. 1) 65536 ?s2 evs2 s3" for evs2 s3
    using that by (simp add: sync_wait_def forgotten_def)
  then show ?thesis using r by fastforce
qed

text \<open>
  \<open>on_close\<close> with a write outstanding, which a stopped service pump makes possible: it answers the messages of the
  write, and when the pump runs again the completion handler answers them once more and throws.
\<close>

lemma sync_closed_twice:
  assumes "\<not> sy_thrown s" "flag_inv (sy_snd s)" "sd_pc (sy_snd s) = Strand_idle" "sd_write (sy_snd s) = Some can"
    and "distinct (promises can)" "\<forall>p\<in>set (promises can). sy_value s p = None" "promises can \<noteq> []"
  shows "\<exists>s1 s2. sync_step sz batch s (Closed can) s1 \<and> sync_step sz batch s1 (Snd (Sent can)) s2 \<and> sy_thrown s2"
proof -
  let ?s1 = "sync_on_close s"
  have m: "sd_msgs (sy_snd s) = can" using assms(2,4) by (simp add: flag_inv_def)
  have v: "sy_value ?s1 = (\<lambda>p. if p \<in> set (promises can) then Some NOT_APPLICABLE else sy_value s p)" "\<not> sy_thrown ?s1"
    using notify_distinct [OF assms(5), of "s\<lparr>sy_snd := (sy_snd s)\<lparr>sd_ready := False\<rparr>\<rparr>" NOT_APPLICABLE] assms(1,6) m
    by (simp_all add: sync_on_close_def fun_eq_iff)
  let ?t = "begin_send_handler False (sy_snd ?s1)"
  have a: "sync_step sz batch s (Closed can) ?s1" using closed [of s ?s1 sz batch] assms(1) m by simp
  have "send_step (im_size sz) batch (sy_snd ?s1) (if False then Failed can else Sent can) ?t"
    by (rule send_step.complete) (use assms(3,4) in \<open>simp_all add: sync_on_close_def\<close>)
  then have b: "sync_step sz batch ?s1 (Snd (Sent can)) (sync_notify (Sent can) (?s1\<lparr>sy_snd := ?t\<rparr>))"
    by (intro plain) (use v(2) in simp_all)
  have "sy_thrown (sync_notify (Sent can) (?s1\<lparr>sy_snd := ?t\<rparr>))" using notify_throws [OF hd_in_set [OF assms(7)], of "?s1\<lparr>sy_snd := ?t\<rparr>" SUCCESS] v(1) assms(7) by (simp add: sync_notify_def)
  then show ?thesis using a b by blast
qed

text \<open>
  The sending function that must succeed sends twice: a call that times out has queued its message, which may still be
  sent, and the loop queues it again.
\<close>

lemma sync_safe_send_twice:
  "sync_safe_send (do_direct_sync_send_msg (\<lambda>_. 1) False True False (7 :: nat)) (\<lambda>p s. (if p = 0 then TIMEOUT else SUCCESS, s))
     (\<lambda>_. True) (\<lambda>_ s. s) sync_new =
   Some (SUCCESS, sync_new\<lparr>sy_snd := sd_new\<lparr>sd_buffer := \<lparr>q_items = [\<lparr>im_obj = 7, im_p = Some 0\<rparr>, \<lparr>im_obj = 7, im_p = Some 1\<rparr>], q_total = 2\<rparr>,
     sd_checks := 2\<rparr>, sy_next := 2\<rparr>)"
  unfolding sync_safe_send_def
  by (subst safe_send.simps, subst safe_send.simps)
    (simp add: sync_try_def do_direct_sync_send_msg_def in_msg_new_def check_and_create_promise_def enqueue_def
      sync_new_def sd_new_def q_new_def size_add_def SIZE_MOD_def Let_def im_size_def)

end
