(* ===== verification/Sync_Recv.thy ===== *)
theory Sync_Recv
  imports Sync_Send
begin

text \<open>
  Receiving by a call that waits (\<open>ASCS_SYNC_RECV\<close>, \<open>socket.h\<close>): \<open>sync_recv_msg\<close> and \<open>sync_recv_waiting\<close> in the
  thread of a caller, \<open>handle_msg\<close> and \<open>handle_error\<close> in the strand, \<open>close\<close> in any thread. They share
  \<open>sync_recv_mutex\<close>, the condition variable \<open>sync_recv_cv\<close>, the status \<open>sr_status\<close> and \<open>temp_msg_can\<close>. The threads are
  cut where others can run: between two critical sections, and, because \<open>close\<close> changes \<open>started_\<close> without the
  mutex, between the test of a waiting predicate and the wait.
\<close>

section \<open>State\<close>

datatype sync_recv_status = NOT_REQUESTED | REQUESTED | RESPONDED | RESPONDED_FAILURE

text \<open>
  A thread in \<open>sync_recv_cv.wait(lock, pred)\<close>: about to evaluate the predicate or to block after it was
  false (both with the mutex), blocked, or woken and in need of the mutex.
\<close>

datatype wait_pc = W_none | W_test | W_block | W_asleep | W_woken

text \<open>
  \<open>sc_caller\<close>: the call that is active, \<open>sc_duration\<close> its limit (0 is none) and \<open>sc_timed\<close> whether it has
  passed; \<open>sc_handler\<close>: the handler of a read, in \<open>handle_error\<close> if \<open>sc_err\<close>, else in \<open>handle_msg\<close>.
\<close>

record 'm sync_rcv =
  sc_status :: sync_recv_status
  sc_started :: bool
  sc_caller :: wait_pc
  sc_duration :: nat
  sc_timed :: bool
  sc_handler :: wait_pc
  sc_err :: bool
  sc_temp :: "'m list"

definition sc_new :: "'m sync_rcv" where
  "sc_new = \<lparr>sc_status = NOT_REQUESTED, sc_started = False, sc_caller = W_none, sc_duration = 0, sc_timed = False,
     sc_handler = W_none, sc_err = False, sc_temp = []\<rparr>"

fun owns_mutex :: "wait_pc \<Rightarrow> bool" where
  "owns_mutex W_test = True"
| "owns_mutex W_block = True"
| "owns_mutex _ = False"

definition mutex_free :: "'m sync_rcv \<Rightarrow> bool" where
  "mutex_free s \<longleftrightarrow> \<not> owns_mutex (sc_caller s) \<and> \<not> owns_mutex (sc_handler s)"

fun wake :: "wait_pc \<Rightarrow> wait_pc" where
  "wake W_asleep = W_woken"
| "wake pc = pc"

text \<open>\<open>notify_one\<close> wakes any one of the blocked threads (\<open>first\<close> prefers the caller), \<open>notify_all\<close> all of them.\<close>

definition notify_one :: "bool \<Rightarrow> 'm sync_rcv \<Rightarrow> 'm sync_rcv" where
  "notify_one first s =
     (if sc_caller s = W_asleep \<and> (first \<or> sc_handler s \<noteq> W_asleep) then s\<lparr>sc_caller := W_woken\<rparr>
      else s\<lparr>sc_handler := wake (sc_handler s)\<rparr>)"

definition notify_all :: "'m sync_rcv \<Rightarrow> 'm sync_rcv" where
  "notify_all s = s\<lparr>sc_caller := wake (sc_caller s), sc_handler := wake (sc_handler s)\<rparr>"

section \<open>The caller\<close>

text \<open>\<open>sync_recv_msg\<close> up to the wait; \<open>Some\<close> is what it returns at once.\<close>

definition sync_recv_msg :: "bool \<Rightarrow> nat \<Rightarrow> 'm sync_rcv \<Rightarrow> sync_call_result option \<times> 'm sync_rcv" where
  "sync_recv_msg stopped duration s =
     (if stopped then (Some NOT_APPLICABLE, s)
      else if sc_status s \<noteq> NOT_REQUESTED then (Some DUPLICATE, s)
      else (None, s\<lparr>sc_status := REQUESTED, sc_caller := W_test, sc_duration := duration, sc_timed := False\<rparr>))"

text \<open>The end of \<open>sync_recv_msg\<close>: it takes the messages if there is an answer.\<close>

definition sync_recv_end :: "bool \<Rightarrow> sync_call_result \<Rightarrow> 'm sync_rcv \<Rightarrow> (sync_call_result \<times> 'm list) \<times> 'm sync_rcv" where
  "sync_recv_end first re s =
     ((re, if re = SUCCESS then sc_temp s else []),
      notify_one first (s\<lparr>sc_temp := (if re = SUCCESS then [] else sc_temp s), sc_status := NOT_REQUESTED, sc_caller := W_none\<rparr>))"

text \<open>\<open>sync_recv_waiting\<close>, one evaluation of the predicate.\<close>

definition sync_recv_waiting :: "bool \<Rightarrow> 'm sync_rcv \<Rightarrow> (sync_call_result \<times> 'm list) option \<times> 'm sync_rcv" where
  "sync_recv_waiting first s =
     (if \<not> sc_started s \<or> sc_status s \<noteq> REQUESTED
      then let (r, s1) = sync_recv_end first (if sc_status s = RESPONDED then SUCCESS else NOT_APPLICABLE) s in (Some r, s1)
      else if sc_timed s then let (r, s1) = sync_recv_end first TIMEOUT s in (Some r, s1)
      else (None, s\<lparr>sc_caller := W_block\<rparr>))"

section \<open>The strand\<close>

text \<open>
  \<open>handle_msg\<close> after \<open>parse_msg\<close> has appended the messages \<open>ms\<close>: it offers them to a caller that waits,
  or hands them to the dispatcher (\<open>Some\<close>).
\<close>

definition sr_handle_msg :: "bool \<Rightarrow> 'm list \<Rightarrow> 'm sync_rcv \<Rightarrow> 'm list option \<times> 'm sync_rcv" where
  "sr_handle_msg first ms s =
     (let s0 = s\<lparr>sc_temp := sc_temp s @ ms\<rparr>
      in if sc_status s0 = REQUESTED
         then (None, notify_one first (s0\<lparr>sc_status := RESPONDED, sc_handler := W_test, sc_err := False\<rparr>))
         else (Some (sc_temp s0), s0\<lparr>sc_temp := []\<rparr>))"

definition sr_handle_error :: "bool \<Rightarrow> 'm sync_rcv \<Rightarrow> 'm sync_rcv" where
  "sr_handle_error first s =
     (if sc_status s = REQUESTED
      then notify_one first (s\<lparr>sc_status := RESPONDED_FAILURE, sc_handler := W_test, sc_err := True\<rparr>) else s)"

text \<open>
  The waits of the two, one evaluation of the predicate. \<open>handle_msg\<close> gives up (and reads no more) if the link was closed
  and nobody has taken the messages; otherwise it goes on, with what is left for the dispatcher (\<open>Some\<close>), normally nothing.
\<close>

definition sr_handler_waiting :: "'m sync_rcv \<Rightarrow> 'm list option \<times> 'm sync_rcv" where
  "sr_handler_waiting s =
     (if sc_err s
      then (None, if \<not> sc_started s \<or> sc_status s \<noteq> RESPONDED_FAILURE then s\<lparr>sc_handler := W_none\<rparr> else s\<lparr>sc_handler := W_block\<rparr>)
      else if \<not> sc_started s \<or> sc_status s \<noteq> RESPONDED
      then (if sc_status s = RESPONDED then (None, s\<lparr>sc_handler := W_none\<rparr>)
            else if sc_temp s = [] then (None, s\<lparr>sc_handler := W_none\<rparr>)
            else (Some (sc_temp s), s\<lparr>sc_handler := W_none, sc_temp := []\<rparr>))
      else (None, s\<lparr>sc_handler := W_block\<rparr>))"

text \<open>The part of \<open>close\<close> that matters here, and starting again, which nobody does while a handler runs.\<close>

definition sr_close :: "'m sync_rcv \<Rightarrow> 'm sync_rcv" where
  "sr_close s = (if sc_started s then notify_all (s\<lparr>sc_started := False\<rparr>) else s)"

section \<open>All interleavings\<close>

datatype 'm sr_event =
    Entered
  | Returned sync_call_result "'m list"
  | Sr_read "'m list"
  | Dispatched "'m list"
  | Sr_internal

fun ev_read :: "'m sr_event \<Rightarrow> 'm list" where
  "ev_read (Sr_read ms) = ms"
| "ev_read _ = []"

fun ev_delivered :: "'m sr_event \<Rightarrow> 'm list" where
  "ev_delivered (Returned r ms) = ms"
| "ev_delivered (Dispatched ms) = ms"
| "ev_delivered _ = []"

text \<open>
  The steps that need nobody from outside: threads that were woken take the mutex, evaluate their predicate, and block.
\<close>

inductive sr_drive :: "'m sync_rcv \<Rightarrow> 'm sr_event list \<Rightarrow> 'm sync_rcv \<Rightarrow> bool" where
  caller_lock: "sc_caller s = W_woken \<Longrightarrow> mutex_free s \<Longrightarrow> sr_drive s [] (s\<lparr>sc_caller := W_test\<rparr>)"
| caller_test: "sc_caller s = W_test \<Longrightarrow> sync_recv_waiting first s = (re, s') \<Longrightarrow>
    sr_drive s (case re of None \<Rightarrow> [] | Some (r, ms) \<Rightarrow> [Returned r ms]) s'"
| caller_block: "sc_caller s = W_block \<Longrightarrow> sr_drive s [] (s\<lparr>sc_caller := W_asleep\<rparr>)"
| handler_lock: "sc_handler s = W_woken \<Longrightarrow> mutex_free s \<Longrightarrow> sr_drive s [] (s\<lparr>sc_handler := W_test\<rparr>)"
| handler_test: "sc_handler s = W_test \<Longrightarrow> sr_handler_waiting s = (d, s') \<Longrightarrow>
    sr_drive s (case d of None \<Rightarrow> [] | Some ms \<Rightarrow> [Dispatched ms]) s'"
| handler_block: "sc_handler s = W_block \<Longrightarrow> sr_drive s [] (s\<lparr>sc_handler := W_asleep\<rparr>)"

text \<open>
  And those that do: calls, reads and read errors, \<open>close\<close> at any moment, a start, wake-ups without reason
  and the end of a caller's time.
\<close>

inductive sr_step :: "'m sync_rcv \<Rightarrow> 'm sr_event list \<Rightarrow> 'm sync_rcv \<Rightarrow> bool" where
  drive: "sr_drive s evs s' \<Longrightarrow> sr_step s evs s'"
| call: "mutex_free s \<Longrightarrow> sync_recv_msg stopped duration s = (re, s') \<Longrightarrow>
    sr_step s (case re of None \<Rightarrow> [Entered] | Some r \<Rightarrow> [Entered, Returned r []]) s'"
| read_msg: "sc_handler s = W_none \<Longrightarrow> mutex_free s \<Longrightarrow> sr_handle_msg first ms s = (d, s') \<Longrightarrow>
    sr_step s (Sr_read ms # (case d of None \<Rightarrow> [] | Some out \<Rightarrow> [Dispatched out])) s'"
| read_error: "sc_handler s = W_none \<Longrightarrow> mutex_free s \<Longrightarrow> sr_step s [Sr_internal] (sr_handle_error first s)"
| link_closed: "sr_step s [Sr_internal] (sr_close s)"
| link_started: "\<not> sc_started s \<Longrightarrow> sc_handler s = W_none \<Longrightarrow> sr_step s [Sr_internal] (s\<lparr>sc_started := True\<rparr>)"
| spurious_caller: "sc_caller s = W_asleep \<Longrightarrow> sr_step s [Sr_internal] (s\<lparr>sc_caller := W_woken\<rparr>)"
| spurious_handler: "sc_handler s = W_asleep \<Longrightarrow> sr_step s [Sr_internal] (s\<lparr>sc_handler := W_woken\<rparr>)"
| time_out: "sc_caller s = W_asleep \<Longrightarrow> 0 < sc_duration s \<Longrightarrow> sr_step s [Sr_internal] (s\<lparr>sc_caller := W_woken, sc_timed := True\<rparr>)"

inductive sr_run :: "'m sync_rcv \<Rightarrow> 'm sr_event list \<Rightarrow> 'm sync_rcv \<Rightarrow> bool" for s0 :: "'m sync_rcv" where
  sr_nil: "sr_run s0 [] s0"
| sr_snoc: "sr_run s0 evs s \<Longrightarrow> sr_step s ev s' \<Longrightarrow> sr_run s0 (evs @ ev) s'"

section \<open>Invariant\<close>

text \<open>
  The mutex has one owner; a call is active exactly when the status says so; a caller blocks only while its request is
  open, a handler only while its answer has not been taken.
\<close>

definition sr_inv :: "'m sync_rcv \<Rightarrow> bool" where
  "sr_inv s \<longleftrightarrow>
     \<not> (owns_mutex (sc_caller s) \<and> owns_mutex (sc_handler s)) \<and>
     (sc_status s = NOT_REQUESTED \<longleftrightarrow> sc_caller s = W_none) \<and>
     (sc_caller s \<in> {W_block, W_asleep} \<longrightarrow> sc_status s = REQUESTED) \<and>
     (sc_handler s \<in> {W_block, W_asleep} \<longrightarrow> sc_status s = (if sc_err s then RESPONDED_FAILURE else RESPONDED))"

lemma wake_cases: "wake pc = (if pc = W_asleep then W_woken else pc)"
  by (cases pc) simp_all

lemma owns_cases: "owns_mutex pc \<longleftrightarrow> pc = W_test \<or> pc = W_block"
  by (cases pc) simp_all

lemmas sr_defs = notify_one_def notify_all_def wake_cases owns_cases mutex_free_def

lemma sr_inv_drive: "sr_drive s ev s' \<Longrightarrow> sr_inv s \<Longrightarrow> sr_inv s'"
proof (induction rule: sr_drive.induct)
  case (caller_test s first re s')
  then show ?case
    by (auto simp: sr_inv_def sr_defs sync_recv_waiting_def sync_recv_end_def Let_def split: if_splits)
next
  case (handler_test s d s')
  then show ?case by (auto simp: sr_inv_def sr_defs sr_handler_waiting_def split: if_splits)
qed (auto simp: sr_inv_def sr_defs split: if_splits)

lemma sr_inv_step: "sr_step s ev s' \<Longrightarrow> sr_inv s \<Longrightarrow> sr_inv s'"
proof (induction rule: sr_step.induct)
  case (drive s evs s')
  then show ?case by (simp add: sr_inv_drive)
next
  case (call s stopped duration re s')
  then show ?case by (auto simp: sr_inv_def sr_defs sync_recv_msg_def split: if_splits)
next
  case (read_msg s first ms d s')
  then show ?case by (auto simp: sr_inv_def sr_defs sr_handle_msg_def Let_def split: if_splits)
next
  case (read_error s first)
  then show ?case by (auto simp: sr_inv_def sr_defs sr_handle_error_def split: if_splits)
next
  case (link_closed s)
  then show ?case by (auto simp: sr_inv_def sr_defs sr_close_def split: if_splits)
qed (auto simp: sr_inv_def sr_defs split: if_splits)

lemma sr_inv_new: "sr_inv sc_new"
  by (simp add: sr_inv_def sc_new_def)

interpretation sr: step_invariant "\<lambda>s. s = sc_new" "\<lambda>s s'. \<exists>ev. sr_step s ev s'" sr_inv
  by unfold_locales (simp_all add: sr_inv_new, blast intro: sr_inv_step)

lemma sr_run_steps: "sr_run s0 evs s \<Longrightarrow> (\<lambda>s s'. \<exists>ev. sr_step s ev s')\<^sup>*\<^sup>* s0 s"
  by (induction rule: sr_run.induct) (auto intro: rtranclp.intros)

lemma sr_run_inv: "sr_run sc_new evs s \<Longrightarrow> sr_inv s"
  using sr.steps_inv [OF sr_run_steps] sr.start_inv by blast

text \<open>Messages: what was read is delivered, to calls or to the dispatcher, or still in \<open>temp_msg_can\<close>.\<close>

lemma sr_step_flow: "sr_step s ev s' \<Longrightarrow> sc_temp s @ concat (map ev_read ev) = concat (map ev_delivered ev) @ sc_temp s'"
proof (induction rule: sr_step.induct)
  case (drive s evs s')
  then show ?case
    by (induction rule: sr_drive.induct)
      (auto simp: sr_defs sync_recv_waiting_def sync_recv_end_def sr_handler_waiting_def Let_def split: if_splits)
next
  case (call s stopped duration re s')
  then show ?case by (auto simp: sync_recv_msg_def split: if_splits)
next
  case (read_msg s first ms d s')
  then show ?case by (auto simp: sr_defs sr_handle_msg_def Let_def split: if_splits)
qed (auto simp: sr_defs sr_handle_error_def sr_close_def)

lemma sr_run_flow: "sr_run s0 evs s \<Longrightarrow> sc_temp s0 @ concat (map ev_read evs) = concat (map ev_delivered evs) @ sc_temp s"
proof (induction rule: sr_run.induct)
  case (sr_snoc evs s ev s')
  then show ?case using sr_step_flow [OF sr_snoc(2)] by (metis append.assoc concat_append map_append)
qed simp

text \<open>Calls: everyone that came in has returned or is the active one.\<close>

definition entered :: "'m sr_event list \<Rightarrow> nat" where
  "entered evs = length (filter (\<lambda>ev. ev = Entered) evs)"

definition returned :: "'m sr_event list \<Rightarrow> nat" where
  "returned evs = length (filter (\<lambda>ev. \<exists>r ms. ev = Returned r ms) evs)"

definition active :: "'m sync_rcv \<Rightarrow> nat" where
  "active s = (if sc_caller s = W_none then 0 else 1)"

lemma entered_simps [simp]: "entered [] = 0" "entered (ev # evs) = (if ev = Entered then 1 else 0) + entered evs"
  "entered (evs @ evs') = entered evs + entered evs'"
  by (simp_all add: entered_def)

lemma returned_simps [simp]: "returned [] = 0" "returned (ev # evs) = (if \<exists>r ms. ev = Returned r ms then 1 else 0) + returned evs"
  "returned (evs @ evs') = returned evs + returned evs'"
  by (simp_all add: returned_def)

lemma sr_step_calls: "sr_step s ev s' \<Longrightarrow> sr_inv s \<Longrightarrow> entered ev + active s = returned ev + active s'"
proof (induction rule: sr_step.induct)
  case (drive s evs s')
  then show ?case
    by (induction rule: sr_drive.induct)
      (auto simp: active_def sr_defs sync_recv_waiting_def sync_recv_end_def sr_handler_waiting_def Let_def split: if_splits)
next
  case (call s stopped duration re s')
  then show ?case by (auto simp: active_def sr_inv_def sync_recv_msg_def split: if_splits)
next
  case (read_msg s first ms d s')
  then show ?case by (auto simp: active_def sr_defs sr_handle_msg_def Let_def split: if_splits)
qed (auto simp: active_def sr_defs sr_handle_error_def sr_close_def)

lemma sr_run_calls: "sr_run s0 evs s \<Longrightarrow> sr_inv s0 \<Longrightarrow> entered evs + active s0 = returned evs + active s \<and> sr_inv s"
proof (induction rule: sr_run.induct)
  case (sr_snoc evs s ev s')
  then show ?case using sr_step_calls [OF sr_snoc(2)] sr_inv_step [OF sr_snoc(2)] by auto
qed simp

section \<open>Nobody blocks the strand\<close>

fun wait_work :: "wait_pc \<Rightarrow> nat" where
  "wait_work W_none = 0"
| "wait_work W_asleep = 0"
| "wait_work W_block = 1"
| "wait_work W_test = 2"
| "wait_work W_woken = 3"

text \<open>A caller that leaves may wake the handler, so its steps weigh more.\<close>

definition sr_work :: "'m sync_rcv \<Rightarrow> nat" where
  "sr_work s = 4 * wait_work (sc_caller s) + wait_work (sc_handler s)"

lemma sr_drive_work: "sr_drive s ev s' \<Longrightarrow> sr_work s' < sr_work s"
proof (induction rule: sr_drive.induct)
  case (caller_test s first re s')
  then show ?case
    by (auto simp: sr_work_def sr_defs sync_recv_waiting_def sync_recv_end_def Let_def split: if_splits)
next
  case (handler_test s d s')
  then show ?case by (auto simp: sr_work_def sr_handler_waiting_def split: if_splits)
qed (simp_all add: sr_work_def)

interpretation sr_run: step_measure "\<lambda>s s'. \<exists>ev. sr_drive s ev s'" "\<lambda>w s. sr_work s = w"
  by unfold_locales (use sr_drive_work in blast)

lemma sr_work_bound: "sr_work s \<le> 15"
  by (cases "sc_caller s"; cases "sc_handler s") (simp_all add: sr_work_def)

lemma sr_stuck:
  assumes "sr_inv s" and "\<not> (\<exists>ev s'. sr_drive s ev s')"
  shows "sc_handler s = W_none \<and> (sc_caller s = W_none \<or> sc_caller s = W_asleep \<and> sc_status s = REQUESTED)"
proof -
  have c: "sc_caller s \<notin> {W_test, W_block}" "sc_handler s \<notin> {W_test, W_block}"
    using assms(2) sr_drive.intros(2,3,5,6) by (metis insertE prod.exhaust singletonD)+
  then have "mutex_free s" by (simp add: mutex_free_def owns_cases)
  then have "sc_caller s \<noteq> W_woken" "sc_handler s \<noteq> W_woken" using assms(2) sr_drive.intros(1,4) by metis+
  then have "sc_caller s \<in> {W_none, W_asleep}" "sc_handler s \<in> {W_none, W_asleep}"
    using c by (metis insertCI wait_pc.exhaust)+
  then show ?thesis using assms(1) by (auto simp: sr_inv_def split: if_splits)
qed

section \<open>Properties\<close>

text \<open>
  C17. Synchronous receiving neither loses messages nor blocks the strand. For every interleaving of
  callers (with or without a limit), reads, errors, \<open>close\<close> at any moment, restarts and spurious wake-ups: the messages read are,
  in order and each once, those handed to calls or to the dispatcher, then those still in \<open>temp_msg_can\<close>; every call that
  came in has returned or is the one active call. And from every state the threads come to rest within 15 steps of
  their own, and then no handler waits, and a call waits only if its request is open, that is nothing was read since.
\<close>
theorem sync_recv_sound:
  assumes "sr_run sc_new evs s"
  shows "concat (map ev_read evs) = concat (map ev_delivered evs) @ sc_temp s \<and>
         entered evs = returned evs + (if sc_caller s = W_none then 0 else 1) \<and>
         (\<forall>n s'. ((\<lambda>s s'. \<exists>ev. sr_drive s ev s') ^^ n) s s' \<longrightarrow> n \<le> 15) \<and>
         (\<not> (\<exists>ev s'. sr_drive s ev s') \<longrightarrow>
            sc_handler s = W_none \<and> (sc_caller s = W_none \<or> sc_caller s = W_asleep \<and> sc_status s = REQUESTED))"
proof -
  have i: "sr_inv (sc_new :: 'a sync_rcv)" using sr.start_inv by blast
  have "concat (map ev_read evs) = concat (map ev_delivered evs) @ sc_temp s" using sr_run_flow [OF assms] by (simp add: sc_new_def)
  moreover have "entered evs = returned evs + active s" using sr_run_calls [OF assms i] by (simp add: active_def sc_new_def)
  moreover have "n \<le> 15" if "((\<lambda>s s'. \<exists>ev. sr_drive s ev s') ^^ n) s s'" for n s'
    using sr_run.bounded_steps [OF that] sr_work_bound [of s] by auto
  ultimately show ?thesis using sr_stuck [OF sr_run_inv [OF assms]] by (auto simp: active_def)
qed

text \<open>A call, up to the moment it is blocked; then a read wakes it, with messages \<open>ms\<close>.\<close>

definition sc_called :: "wait_pc \<Rightarrow> 'm sync_rcv" where
  "sc_called pc = sc_new\<lparr>sc_started := True, sc_status := REQUESTED, sc_caller := pc\<rparr>"

lemma sync_recv_demo_block: "sr_run sc_new [Sr_internal, Entered] (sc_called W_block :: 'm sync_rcv)"
proof -
  let ?s1 = "sc_new\<lparr>sc_started := True\<rparr> :: 'm sync_rcv"
  have "sr_step (sc_new :: 'm sync_rcv) [Sr_internal] ?s1" by (rule link_started) (simp_all add: sc_new_def)
  from sr_snoc [OF sr_nil this] have a: "sr_run (sc_new :: 'm sync_rcv) [Sr_internal] ?s1" by simp
  have "sr_step ?s1 (case None of None \<Rightarrow> [Entered] | Some r \<Rightarrow> [Entered, Returned r []]) (sc_called W_test)"
    by (rule call [where stopped = False and duration = 0])
      (simp_all add: mutex_free_def sync_recv_msg_def sc_called_def sc_new_def)
  from sr_snoc [OF a this] have b: "sr_run sc_new [Sr_internal, Entered] (sc_called W_test :: 'm sync_rcv)" by simp
  have "sr_drive (sc_called W_test) (case None of None \<Rightarrow> [] | Some (r, ms) \<Rightarrow> [Returned r ms]) (sc_called W_block :: 'm sync_rcv)"
    by (rule caller_test [where first = True]) (simp_all add: sync_recv_waiting_def sc_called_def sc_new_def)
  from sr_snoc [OF b drive [OF this]] show ?thesis by simp
qed

lemma sync_recv_demo:
  "\<exists>s. sr_run (sc_new :: 'm sync_rcv) [Sr_internal, Entered, Sr_read ms, Returned SUCCESS ms] s"
proof -
  let ?s3 = "sc_called W_asleep :: 'm sync_rcv"
  let ?s4 = "(sc_called W_woken)\<lparr>sc_status := RESPONDED, sc_handler := W_test, sc_temp := ms\<rparr>"
  let ?s5 = "(sc_called W_woken)\<lparr>sc_status := RESPONDED, sc_handler := W_block, sc_temp := ms\<rparr>"
  let ?s6 = "(sc_called W_woken)\<lparr>sc_status := RESPONDED, sc_handler := W_asleep, sc_temp := ms\<rparr>"
  let ?s7 = "(sc_called W_test)\<lparr>sc_status := RESPONDED, sc_handler := W_asleep, sc_temp := ms\<rparr>"
  let ?s8 = "(sc_called W_none)\<lparr>sc_status := NOT_REQUESTED, sc_handler := W_woken, sc_temp := []\<rparr>"
  note defs = sc_called_def sc_new_def
  have "sr_drive (sc_called W_block) [] ?s3" using caller_block [of "sc_called W_block"] by (simp add: defs)
  from sr_snoc [OF sync_recv_demo_block drive [OF this]]
  have a: "sr_run sc_new [Sr_internal, Entered] ?s3" by simp
  have "sr_step ?s3 (Sr_read ms # (case None of None \<Rightarrow> [] | Some out \<Rightarrow> [Dispatched out])) ?s4"
    by (rule read_msg [where first = True]) (simp_all add: mutex_free_def sr_handle_msg_def notify_one_def defs)
  from sr_snoc [OF a this] have b: "sr_run sc_new [Sr_internal, Entered, Sr_read ms] ?s4" by simp
  have "sr_drive ?s4 (case None of None \<Rightarrow> [] | Some ms \<Rightarrow> [Dispatched ms]) ?s5"
    by (rule handler_test) (simp_all add: sr_handler_waiting_def defs)
  from sr_snoc [OF b drive [OF this]] have c: "sr_run sc_new [Sr_internal, Entered, Sr_read ms] ?s5" by simp
  have "sr_drive ?s5 [] ?s6" using handler_block [of ?s5] by (simp add: defs)
  from sr_snoc [OF c drive [OF this]] have d: "sr_run sc_new [Sr_internal, Entered, Sr_read ms] ?s6" by simp
  have "sr_drive ?s6 [] ?s7" using caller_lock [of ?s6] by (simp add: mutex_free_def defs)
  from sr_snoc [OF d drive [OF this]] have e: "sr_run sc_new [Sr_internal, Entered, Sr_read ms] ?s7" by simp
  have "sr_drive ?s7 (case Some (SUCCESS, ms) of None \<Rightarrow> [] | Some (r, ms) \<Rightarrow> [Returned r ms]) ?s8"
    by (rule caller_test [where first = True])
      (simp_all add: sync_recv_waiting_def sync_recv_end_def notify_one_def defs)
  from sr_snoc [OF e drive [OF this]] show ?thesis by auto
qed

theorem sync_recv_sound_witness:
  "\<exists>s. sr_run sc_new [Sr_internal, Entered, Sr_read [7 :: nat], Returned SUCCESS [7]] s \<and> sc_temp s = [] \<and> sc_caller s = W_none"
proof -
  obtain s where r: "sr_run sc_new [Sr_internal, Entered, Sr_read [7 :: nat], Returned SUCCESS [7]] s"
    using sync_recv_demo by blast
  from sync_recv_sound [OF r] have "sc_temp s = [] \<and> sc_caller s = W_none" by (simp split: if_splits)
  then show ?thesis using r by blast
qed

text \<open>
  A read that completes no message (half a message, or only a heartbeat) answers a caller as well: its call returns
  \<open>SUCCESS\<close> without any message.
\<close>

lemma sync_recv_empty_success:
  "\<exists>s. sr_run (sc_new :: 'm sync_rcv) [Sr_internal, Entered, Sr_read [], Returned SUCCESS []] s"
  by (rule sync_recv_demo)

text \<open>
  \<open>close\<close> does not take the mutex: between a caller's test and its wait it notifies nobody, and the caller then sleeps on a
  closed link. Only the handler of a read that fails afterwards wakes it; with none outstanding (reading was suspended
  because the receive buffer is full) a call without a limit does not return.
\<close>

lemma sync_recv_lost_wakeup:
  "\<exists>s. sr_run (sc_new :: 'm sync_rcv) [Sr_internal, Entered, Sr_internal] s \<and> \<not> sc_started s \<and> sc_caller s = W_asleep \<and>
     sc_duration s = 0 \<and> \<not> (\<exists>ev s'. sr_drive s ev s')"
proof -
  let ?s1 = "(sc_called W_block)\<lparr>sc_started := False\<rparr> :: 'm sync_rcv" and ?s2 = "(sc_called W_asleep)\<lparr>sc_started := False\<rparr> :: 'm sync_rcv"
  have "sr_close (sc_called W_block) = ?s1" by (simp add: sr_close_def notify_all_def sc_called_def sc_new_def)
  then have "sr_step (sc_called W_block) [Sr_internal] ?s1" using link_closed [of "sc_called W_block :: 'm sync_rcv"] by simp
  from sr_snoc [OF sync_recv_demo_block this] have a: "sr_run sc_new [Sr_internal, Entered, Sr_internal] ?s1" by simp
  have "sr_drive ?s1 [] ?s2" using caller_block [of ?s1] by (simp add: sc_called_def sc_new_def)
  from sr_snoc [OF a drive [OF this]] have "sr_run sc_new [Sr_internal, Entered, Sr_internal] ?s2" by simp
  moreover have "\<not> (\<exists>ev s'. sr_drive ?s2 ev s')" by (auto simp: sc_called_def sc_new_def elim: sr_drive.cases)
  ultimately show ?thesis by (intro exI [of _ ?s2]) (simp add: sc_called_def sc_new_def)
qed

end
