(* ===== verification/Heartbeat.thy ===== *)
theory Heartbeat
  imports Ascs_Config
begin

text \<open>
  The heartbeat of a socket (\<open>start_heartbeat\<close> and \<open>check_heartbeat\<close> of \<open>socket.h\<close>, \<open>on_heartbeat_error\<close> of the TCP and
  UDP sockets). Times are whole seconds, as \<open>time(nullptr)\<close> gives them. Of the link only what the check looks at is
  modelled: when bytes were received and a write completed for the last time, \<open>is_ready()\<close>, and the flag \<open>sending\<close>, which
  theory Send_Path shows to be set exactly while a write is outstanding or about to be issued.
\<close>

section \<open>State and operations\<close>

text \<open>\<open>hc_always\<close>: \<open>ASCS_ALWAYS_SEND_HEARTBEAT\<close>; \<open>hc_tcp\<close>: which of the two families of sockets.\<close>

record hb_cfg =
  hc_interval :: int
  hc_max_absence :: int
  hc_always :: bool
  hc_tcp :: bool

text \<open>\<open>hb_beats\<close> counts the heartbeats handed to the send buffer, \<open>hb_errors\<close> the calls of \<open>on_heartbeat_error\<close>.\<close>

record hb =
  hb_last_recv :: int
  hb_last_send :: int
  hb_ready :: bool
  hb_sending :: bool
  hb_timer :: bool
  hb_beats :: nat
  hb_errors :: nat

definition hb_new :: hb where
  "hb_new = \<lparr>hb_last_recv = 0, hb_last_send = 0, hb_ready = False, hb_sending = False, hb_timer = False, hb_beats = 0, hb_errors = 0\<rparr>"

definition start_heartbeat :: "hb \<Rightarrow> hb" where
  "start_heartbeat s = (if hb_timer s then s else s\<lparr>hb_timer := True\<rparr>)"

text \<open>\<open>do_start\<close> with \<open>ASCS_HEARTBEAT_INTERVAL > 0\<close>, and the effect of closing the link.\<close>

definition hb_do_start :: "int \<Rightarrow> hb \<Rightarrow> hb" where
  "hb_do_start now s = start_heartbeat (s\<lparr>hb_ready := True, hb_last_recv := now\<rparr>)"

definition hb_force_shutdown :: "hb \<Rightarrow> hb" where
  "hb_force_shutdown s = s\<lparr>hb_ready := False, hb_timer := False\<rparr>"

text \<open>A TCP link is shut down; a UDP socket only starts counting again.\<close>

definition on_heartbeat_error :: "bool \<Rightarrow> int \<Rightarrow> hb \<Rightarrow> bool \<times> hb" where
  "on_heartbeat_error tcp now s =
     (let s1 = s\<lparr>hb_errors := hb_errors s + 1\<rparr>
      in if tcp then (False, hb_force_shutdown s1) else (True, s1\<lparr>hb_last_recv := now\<rparr>))"

definition hb_send_heartbeat :: "hb \<Rightarrow> hb" where
  "hb_send_heartbeat s = s\<lparr>hb_beats := hb_beats s + 1\<rparr>"

definition check_heartbeat :: "hb_cfg \<Rightarrow> int \<Rightarrow> hb \<Rightarrow> bool \<times> hb" where
  "check_heartbeat c now s =
     (if hb_last_recv s > 0 \<and> hb_ready s
      then
        let (go_on, s1) = (if now - hb_last_recv s \<ge> hc_interval c * hc_max_absence c then on_heartbeat_error (hc_tcp c) now s
                           else (True, s))
        in if \<not> go_on then (False, s1)
           else (True, if hc_always c \<or> now - hb_last_send s1 \<ge> hc_interval c \<and> \<not> hb_sending s1 then hb_send_heartbeat s1 else s1)
      else (True, s))"

text \<open>
  What happens to a link, in the order of time: the timer's call back, a read with bytes, a write that is issued, and
  its completion, with success or not.
\<close>

datatype hb_event = Hb_check | Hb_received | Hb_write | Hb_written | Hb_failed

fun hb_apply :: "hb_cfg \<Rightarrow> int \<times> hb_event \<Rightarrow> hb \<Rightarrow> hb" where
  "hb_apply c (now, Hb_check) s = (if hb_timer s then let (again, s1) = check_heartbeat c now s in s1\<lparr>hb_timer := again\<rparr> else s)"
| "hb_apply c (now, Hb_received) s = s\<lparr>hb_last_recv := now\<rparr>"
| "hb_apply c (now, Hb_write) s = s\<lparr>hb_sending := True\<rparr>"
| "hb_apply c (now, Hb_written) s = s\<lparr>hb_last_send := now, hb_sending := False\<rparr>"
| "hb_apply c (now, Hb_failed) s = s\<lparr>hb_sending := False\<rparr>"

definition hb_run :: "hb_cfg \<Rightarrow> (int \<times> hb_event) list \<Rightarrow> hb \<Rightarrow> hb" where
  "hb_run c evs s = fold (hb_apply c) evs s"

lemma hb_run_simps [simp]:
  "hb_run c [] s = s" "hb_run c (evs @ evs') s = hb_run c evs' (hb_run c evs s)"
  "hb_run c (ev # evs) s = hb_run c evs (hb_apply c ev s)"
  by (simp_all add: hb_run_def)

section \<open>When a link is given up\<close>

text \<open>When bytes arrived for the last time, and whether some check came too late for it.\<close>

fun hb_last :: "int \<Rightarrow> (int \<times> hb_event) list \<Rightarrow> int" where
  "hb_last t0 [] = t0"
| "hb_last t0 ((t, ev) # evs) = hb_last (if ev = Hb_received then t else t0) evs"

fun absent :: "int \<Rightarrow> int \<Rightarrow> (int \<times> hb_event) list \<Rightarrow> bool" where
  "absent limit t0 [] \<longleftrightarrow> False"
| "absent limit t0 ((t, ev) # evs) \<longleftrightarrow>
     ev = Hb_check \<and> t - t0 \<ge> limit \<or> absent limit (if ev = Hb_received then t else t0) evs"

lemma hb_run_dead: "\<not> hb_ready s \<Longrightarrow> \<not> hb_ready (hb_run c evs s) \<and> hb_errors (hb_run c evs s) = hb_errors s"
proof (induction evs arbitrary: s)
  case (Cons ev evs)
  obtain t e where ev: "ev = (t, e)" by fastforce
  have "\<not> hb_ready (hb_apply c ev s) \<and> hb_errors (hb_apply c ev s) = hb_errors s"
    using Cons(2) ev by (cases e) (auto simp: check_heartbeat_def)
  then show ?case using Cons(1) by simp
qed simp

lemma hb_run_tcp:
  assumes "hc_tcp c" "hb_ready s" "hb_timer s" "0 < hb_last_recv s" "\<forall>(t, ev)\<in>set evs. 0 < t"
  shows "(hb_ready (hb_run c evs s) \<longleftrightarrow> \<not> absent (hc_interval c * hc_max_absence c) (hb_last_recv s) evs) \<and>
    hb_errors (hb_run c evs s) = hb_errors s + (if absent (hc_interval c * hc_max_absence c) (hb_last_recv s) evs then 1 else 0)"
  using assms(2-)
proof (induction evs arbitrary: s)
  case (Cons ev evs)
  obtain t e where ev: "ev = (t, e)" by fastforce
  show ?case
  proof (cases "e = Hb_check \<and> t - hb_last_recv s \<ge> hc_interval c * hc_max_absence c")
    case True
    then have "\<not> hb_ready (hb_apply c ev s)" "hb_errors (hb_apply c ev s) = hb_errors s + 1"
      using Cons(2-4) ev assms(1)
      by (simp_all add: check_heartbeat_def on_heartbeat_error_def hb_force_shutdown_def)
    then show ?thesis using hb_run_dead True ev by simp
  next
    case False
    have "hb_ready (hb_apply c ev s) \<and> hb_timer (hb_apply c ev s) \<and> hb_errors (hb_apply c ev s) = hb_errors s \<and>
        hb_last_recv (hb_apply c ev s) = (if e = Hb_received then t else hb_last_recv s)"
      using Cons(2-4) False ev by (cases e) (auto simp: check_heartbeat_def hb_send_heartbeat_def Let_def)
    then show ?thesis using Cons(1) [of "hb_apply c ev s"] Cons(4,5) False ev by auto
  qed
qed simp

lemma absent_check:
  "absent limit t0 evs \<longleftrightarrow> (\<exists>k<length evs. \<exists>t. evs ! k = (t, Hb_check) \<and> t - hb_last t0 (take k evs) \<ge> limit)"
proof (induction evs arbitrary: t0)
  case (Cons ev evs)
  obtain t e where ev: "ev = (t, e)" by fastforce
  show ?case (is "_ \<longleftrightarrow> (\<exists>k<_. ?P k)")
  proof -
    have "(\<exists>k<length (ev # evs). ?P k) \<longleftrightarrow> ?P 0 \<or> (\<exists>k<length evs. ?P (Suc k))"
      by (auto simp: less_Suc_eq_0_disj)
    then show ?thesis using Cons ev by auto
  qed
qed simp

section \<open>Two ends that keep each other alive\<close>

text \<open>
  \<open>hb_timely\<close>: one end between its start at \<open>t0\<close> and \<open>stop\<close>. It is not shut down; the timer's call back runs at most
  \<open>delay\<close> seconds late; and when there is something to write at a check, a heartbeat it makes or an outstanding write, some
  write completes within \<open>wtime\<close> seconds.
\<close>

definition hb_at :: "hb_cfg \<Rightarrow> int \<Rightarrow> (int \<times> hb_event) list \<Rightarrow> nat \<Rightarrow> hb" where
  "hb_at c t0 evs k = hb_run c (take k evs) (hb_do_start t0 hb_new)"

definition hb_timely :: "hb_cfg \<Rightarrow> int \<Rightarrow> int \<Rightarrow> int \<Rightarrow> int \<Rightarrow> (int \<times> hb_event) list \<Rightarrow> bool" where
  "hb_timely c t0 delay wtime stop evs \<longleftrightarrow>
     hb_ready (hb_at c t0 evs (length evs)) \<and>
     (\<forall>T. t0 \<le> T \<and> T + hc_interval c + delay \<le> stop \<longrightarrow>
        (\<exists>k<length evs. \<exists>t. evs ! k = (t, Hb_check) \<and> T < t \<and> t \<le> T + hc_interval c + delay)) \<and>
     (\<forall>k<length evs. \<forall>t. evs ! k = (t, Hb_check) \<and> t + wtime \<le> stop \<and>
        (hb_sending (hb_at c t0 evs k) \<or> hb_beats (hb_at c t0 evs k) < hb_beats (hb_at c t0 evs (Suc k))) \<longrightarrow>
        (\<exists>t'. (t', Hb_written) \<in> set evs \<and> t \<le> t' \<and> t' \<le> t + wtime))"

lemma hb_at_Suc: "k < length evs \<Longrightarrow> hb_at c t0 evs (Suc k) = hb_apply c (evs ! k) (hb_at c t0 evs k)"
  by (simp add: hb_at_def take_Suc_conv_app_nth)

lemma hb_last_send_event:
  "hb_last_send (hb_run c evs s) = hb_last_send s \<or> (hb_last_send (hb_run c evs s), Hb_written) \<in> set evs"
proof (induction evs arbitrary: s)
  case (Cons ev evs)
  obtain t e where ev: "ev = (t, e)" by fastforce
  have "hb_last_send (hb_apply c ev s) = hb_last_send s \<or> e = Hb_written \<and> hb_last_send (hb_apply c ev s) = t"
    using ev by (cases e) (auto simp: check_heartbeat_def on_heartbeat_error_def hb_force_shutdown_def hb_send_heartbeat_def Let_def)
  then show ?case using Cons [of "hb_apply c ev s"] ev by auto
qed simp

lemma hb_ready_before:
  assumes "hb_ready (hb_at c t0 evs (length evs))" "k \<le> length evs"
  shows "hb_ready (hb_at c t0 evs k)"
proof (rule ccontr)
  assume n: "\<not> hb_ready (hb_at c t0 evs k)"
  have "hb_at c t0 evs (length evs) = hb_run c (drop k evs) (hb_at c t0 evs k)"
    using hb_run_simps(2) [of c "take k evs" "drop k evs"] by (simp add: hb_at_def)
  then show False using hb_run_dead [OF n] assms(1) by simp
qed

text \<open>While a link is ready its timer runs, unless a check has ended it, which for TCP only a shutdown does.\<close>

lemma hb_alive:
  assumes "hb_ready (hb_run c evs s)" "hb_timer s" "0 < hb_last_recv s" "\<forall>(t, ev)\<in>set evs. 0 < t"
  shows "hb_timer (hb_run c evs s) \<and> 0 < hb_last_recv (hb_run c evs s)"
  using assms
proof (induction evs arbitrary: s)
  case (Cons ev evs)
  obtain t e where ev: "ev = (t, e)" by fastforce
  have r: "hb_ready (hb_apply c ev s)" using hb_run_dead Cons(2) by auto
  have "hb_timer (hb_apply c ev s) \<and> 0 < hb_last_recv (hb_apply c ev s)"
    using Cons(3-5) r ev
    by (cases e) (auto simp: check_heartbeat_def on_heartbeat_error_def hb_force_shutdown_def hb_send_heartbeat_def Let_def split: if_splits)
  then show ?case using Cons(1) [of "hb_apply c ev s"] Cons(2,5) by simp
qed simp

text \<open>Earlier in the list is not later in time, and the other way round.\<close>

lemma timed_take:
  assumes "sorted (map fst evs)" "k < length evs" "evs ! k = (t, ev)"
  shows "(t', e) \<in> set (take k evs) \<Longrightarrow> t' \<le> t" and "(t', e) \<in> set evs \<Longrightarrow> t' < t \<Longrightarrow> (t', e) \<in> set (take k evs)"
proof -
  assume "(t', e) \<in> set (take k evs)"
  then obtain i where "i < k" "evs ! i = (t', e)" by (auto simp: in_set_conv_nth)
  then show "t' \<le> t" using sorted_nth_mono [OF assms(1), of i k] assms(2,3) by simp
next
  assume "(t', e) \<in> set evs" "t' < t"
  then obtain i where i: "i < length evs" "evs ! i = (t', e)" by (auto simp: in_set_conv_nth)
  have "i < k" using sorted_nth_mono [OF assms(1), of k i] i assms(3) \<open>t' < t\<close> by (cases "k \<le> i") simp_all
  then show "(t', e) \<in> set (take k evs)" using i assms(2) by (auto simp: in_set_conv_nth intro!: exI [of _ i])
qed

lemma hb_last_start: "m \<le> t0 \<Longrightarrow> \<forall>(t, ev)\<in>set evs. m \<le> t \<Longrightarrow> m \<le> hb_last t0 evs"
  by (induction t0 evs rule: hb_last.induct) auto

lemma hb_last_ge: "sorted (map fst evs) \<Longrightarrow> (t', Hb_received) \<in> set evs \<Longrightarrow> t' \<le> hb_last t0 evs"
proof (induction t0 evs rule: hb_last.induct)
  case (2 t0 t ev evs)
  show ?case
  proof (cases "t' = t \<and> ev = Hb_received")
    case True
    have "\<forall>(u, e)\<in>set evs. t \<le> u" using 2(2) by auto
    then show ?thesis using True hb_last_start [of t t evs] by simp
  next
    case False
    then show ?thesis using 2 by auto
  qed
qed simp

lemma hb_writes_often:
  assumes tm: "hb_timely c t0 delay wtime stop evs" and pos: "0 < hc_interval c" "hc_interval c \<le> t0" "0 \<le> delay" "0 \<le> wtime"
    and times: "sorted (map fst evs)" "\<forall>(t, ev)\<in>set evs. t0 \<le> t"
    and T: "t0 \<le> T" "T + 2 * hc_interval c + delay + wtime \<le> stop"
  shows "\<exists>t. (t, Hb_written) \<in> set evs \<and> T < t \<and> t \<le> T + 2 * hc_interval c + delay + wtime"
proof -
  obtain k t where k: "k < length evs" "evs ! k = (t, Hb_check)" "T + hc_interval c < t" "t \<le> T + hc_interval c + hc_interval c + delay"
    using tm pos T unfolding hb_timely_def by (smt (verit, best))
  let ?s = "hb_at c t0 evs k"
  have p: "\<forall>(t, ev)\<in>set (take k evs). 0 < t" using times pos by (fastforce dest: in_set_takeD)
  have r: "hb_ready ?s" "hb_ready (hb_at c t0 evs (Suc k))"
    using hb_ready_before [of c t0 evs] tm k(1) by (simp_all add: hb_timely_def)
  have al: "hb_timer ?s" "0 < hb_last_recv ?s"
    using hb_alive [of c "take k evs" "hb_do_start t0 hb_new"] r(1) p pos
    by (simp_all add: hb_at_def hb_do_start_def start_heartbeat_def hb_new_def)
  show ?thesis
  proof (cases "t - hb_last_send ?s < hc_interval c")
    case True
    have "hb_last_send ?s = 0 \<or> (hb_last_send ?s, Hb_written) \<in> set (take k evs)"
      using hb_last_send_event [of c "take k evs" "hb_do_start t0 hb_new"]
      by (simp add: hb_at_def hb_do_start_def start_heartbeat_def hb_new_def)
    moreover have "hb_last_send ?s \<noteq> 0" using True k(3) pos T by linarith
    ultimately have w: "(hb_last_send ?s, Hb_written) \<in> set (take k evs)" by simp
    then have "(hb_last_send ?s, Hb_written) \<in> set evs" by (rule in_set_takeD)
    moreover have "hb_last_send ?s \<le> t" using timed_take(1) [OF times(1) k(1,2) w] .
    ultimately show ?thesis using True k(3,4) pos by (intro exI [of _ "hb_last_send ?s"]) auto
  next
    case False
    have "hb_sending ?s \<or> hb_beats ?s < hb_beats (hb_at c t0 evs (Suc k))"
    proof (cases "hb_sending ?s")
      case False
      then show ?thesis using k(1,2) r al \<open>\<not> t - hb_last_send ?s < hc_interval c\<close>
        by (auto simp: hb_at_Suc check_heartbeat_def on_heartbeat_error_def hb_force_shutdown_def hb_send_heartbeat_def Let_def split: if_splits)
    qed simp
    moreover have "t + wtime \<le> stop" using k(4) T by linarith
    ultimately obtain t' where "(t', Hb_written) \<in> set evs" "t \<le> t'" "t' \<le> t + wtime"
      using tm k(1,2) unfolding hb_timely_def by blast
    then show ?thesis using k(3,4) pos by (intro exI [of _ t']) auto
  qed
qed

section \<open>Properties\<close>

text \<open>
  A link is given up exactly when its peer was silent too long. On every sequence of checks, reads and writes of a
  started TCP link: it has been shut down if and only if some check found that nothing had been received for
  \<open>interval * max_absence\<close> seconds or more, and then \<open>on_heartbeat_error\<close> was called once; so a peer that dies at time \<open>r\<close> is
  noticed by the first check at \<open>r + interval * max_absence\<close> or later.
\<close>
theorem heartbeat_gives_up:
  assumes "hc_tcp c" and "0 < t0" and "\<forall>(t, ev)\<in>set evs. 0 < t"
  shows "(hb_ready (hb_run c evs (hb_do_start t0 hb_new)) \<longleftrightarrow>
            (\<forall>k<length evs. \<forall>t. evs ! k = (t, Hb_check) \<longrightarrow> t - hb_last t0 (take k evs) < hc_interval c * hc_max_absence c)) \<and>
         hb_errors (hb_run c evs (hb_do_start t0 hb_new)) = (if hb_ready (hb_run c evs (hb_do_start t0 hb_new)) then 0 else 1)"
proof -
  let ?s = "hb_do_start t0 hb_new"
  have s: "hb_ready ?s" "hb_timer ?s" "hb_last_recv ?s = t0" "hb_errors ?s = 0"
    by (simp_all add: hb_do_start_def start_heartbeat_def hb_new_def)
  note run = hb_run_tcp [OF assms(1) s(1,2) _ assms(3), unfolded s(3,4), OF assms(2)]
  have "absent (hc_interval c * hc_max_absence c) t0 evs \<longleftrightarrow>
      \<not> (\<forall>k<length evs. \<forall>t. evs ! k = (t, Hb_check) \<longrightarrow> t - hb_last t0 (take k evs) < hc_interval c * hc_max_absence c)"
    unfolding absent_check by (meson not_le)
  then show ?thesis using run by auto
qed

theorem heartbeat_gives_up_witness:
  "\<not> hb_ready (hb_run \<lparr>hc_interval = 5, hc_max_absence = 3, hc_always = False, hc_tcp = True\<rparr>
       [(102, Hb_received), (105, Hb_check), (117, Hb_check)] (hb_do_start 100 hb_new))"
proof -
  let ?c = "\<lparr>hc_interval = 5, hc_max_absence = 3, hc_always = False, hc_tcp = True\<rparr>"
  let ?evs = "[(102, Hb_received), (105, Hb_check), (117, Hb_check)] :: (int \<times> hb_event) list"
  have "?evs ! 2 = (117, Hb_check) \<and> \<not> 117 - hb_last 100 (take 2 ?evs) < hc_interval ?c * hc_max_absence ?c" by simp
  then show ?thesis using heartbeat_gives_up [of ?c 100 ?evs] by (auto simp del: hb_run_simps)
qed

text \<open>
  C23. Heartbeats keep an idle link alive. Two ends with the same interval: if one writes within \<open>wtime\<close> seconds what it
  has to write, its checks run at most \<open>delay\<close> seconds late, the network takes at most \<open>transit\<close> seconds, and the ends
  start within \<open>lag\<close> seconds, then the other one never takes it for dead, with or without traffic,
  provided \<open>2 * interval + delay + wtime + transit + lag < interval * max_absence\<close>; with the default \<open>max_absence\<close> of 3
  this leaves one interval for all the delays together.
\<close>
theorem heartbeat_keeps_alive:
  assumes "hc_tcp c" and "0 < hc_interval c" and "hc_interval c \<le> t0" and "0 \<le> delay" and "0 \<le> wtime" and "0 \<le> transit"
    and "hb_timely c t0 delay wtime stop writer" and "sorted (map fst writer)" and "\<forall>(t, ev)\<in>set writer. t0 \<le> t"
    and "0 < t1" and "t0 \<le> t1 + lag" and "sorted (map fst reader)" and "\<forall>(t, ev)\<in>set reader. t1 \<le> t \<and> t \<le> stop"
    and "\<forall>t. (t, Hb_written) \<in> set writer \<and> t + transit \<le> stop \<longrightarrow> (\<exists>t'. (t', Hb_received) \<in> set reader \<and> t \<le> t' \<and> t' \<le> t + transit)"
    and "2 * hc_interval c + delay + wtime + transit + lag < hc_interval c * hc_max_absence c" and "0 \<le> lag"
  shows "hb_ready (hb_run c reader (hb_do_start t1 hb_new)) \<and> hb_errors (hb_run c reader (hb_do_start t1 hb_new)) = 0"
proof -
  let ?gap = "2 * hc_interval c + delay + wtime + transit" and ?s = "hb_do_start t1 hb_new"
  have late: "t - hb_last t1 (take k reader) < hc_interval c * hc_max_absence c" if k: "k < length reader" "reader ! k = (t, Hb_check)" for k t
  proof (cases "t0 \<le> t - 1 - ?gap")
    case True
    have "t \<le> stop" using assms(13) nth_mem [OF k(1)] k(2) by auto
    then obtain u where u: "(u, Hb_written) \<in> set writer" "t - 1 - ?gap < u" "u \<le> t - 1 - transit"
      using hb_writes_often [OF assms(7,2,3,4,5,8,9) True] assms(6) by auto
    then obtain v where v: "(v, Hb_received) \<in> set reader" "u \<le> v" "v \<le> u + transit" using assms(14) \<open>t \<le> stop\<close> by fastforce
    have "(v, Hb_received) \<in> set (take k reader)" using timed_take(2) [OF assms(12) k v(1)] u(3) v(3) by simp
    moreover have "sorted (map fst (take k reader))" using assms(12) by (simp add: take_map [symmetric] sorted_wrt_take)
    ultimately have "v \<le> hb_last t1 (take k reader)" by (intro hb_last_ge)
    then show ?thesis using u v assms(15,16) by linarith
  next
    case False
    have "\<forall>(t, ev)\<in>set (take k reader). t1 \<le> t" using assms(13) by (fastforce dest: in_set_takeD)
    then have "t1 \<le> hb_last t1 (take k reader)" by (intro hb_last_start) simp_all
    then show ?thesis using False assms(11,15) by linarith
  qed
  have s: "hb_ready ?s" "hb_timer ?s" "hb_last_recv ?s = t1" "hb_errors ?s = 0"
    by (simp_all add: hb_do_start_def start_heartbeat_def hb_new_def)
  have "\<forall>(t, ev)\<in>set reader. 0 < t" using assms(10,13) by fastforce
  note run = hb_run_tcp [OF assms(1) s(1,2) _ this, unfolded s(3,4), OF assms(10)]
  have "\<not> absent (hc_interval c * hc_max_absence c) t1 reader" unfolding absent_check using late by (meson not_le)
  then show ?thesis using run by simp
qed

theorem heartbeat_keeps_alive_witness:
  "hb_ready (hb_run \<lparr>hc_interval = 5, hc_max_absence = 3, hc_always = False, hc_tcp = True\<rparr>
     [(106, Hb_received), (111, Hb_received), (112, Hb_check)] (hb_do_start 100 hb_new))"
proof -
  let ?c = "\<lparr>hc_interval = 5, hc_max_absence = 3, hc_always = False, hc_tcp = True\<rparr>"
  let ?w = "[(105, Hb_check), (105, Hb_write), (105, Hb_written), (110, Hb_check), (110, Hb_write), (110, Hb_written)] :: (int \<times> hb_event) list"
  note defs = hb_at_def hb_do_start_def start_heartbeat_def hb_new_def check_heartbeat_def hb_send_heartbeat_def
  have "hb_ready (hb_at ?c 100 ?w (length ?w))" by (simp add: defs)
  moreover have "\<exists>k<length ?w. \<exists>t. ?w ! k = (t, Hb_check) \<and> T < t \<and> t \<le> T + hc_interval ?c + 1"
    if "100 \<le> T \<and> T + hc_interval ?c + 1 \<le> 112" for T
  proof (cases "T < 105")
    case True
    then show ?thesis using that by (intro exI [of _ 0]) simp
  next
    case False
    then show ?thesis using that by (intro exI [of _ 3]) simp
  qed
  moreover have "\<forall>k<length ?w. \<forall>t. ?w ! k = (t, Hb_check) \<and> t + 1 \<le> 112 \<and>
      (hb_sending (hb_at ?c 100 ?w k) \<or> hb_beats (hb_at ?c 100 ?w k) < hb_beats (hb_at ?c 100 ?w (Suc k))) \<longrightarrow>
      (\<exists>t'. (t', Hb_written) \<in> set ?w \<and> t \<le> t' \<and> t' \<le> t + 1)"
    by (auto simp: less_Suc_eq)
  ultimately have tm: "hb_timely ?c 100 1 1 112 ?w" unfolding hb_timely_def by blast
  have "\<forall>t. (t, Hb_written) \<in> set ?w \<and> t + 1 \<le> 112 \<longrightarrow>
      (\<exists>t'. (t', Hb_received) \<in> set [(106, Hb_received), (111, Hb_received), (112, Hb_check)] \<and> t \<le> t' \<and> t' \<le> t + 1)"
    by auto
  then show ?thesis
    using heartbeat_keeps_alive [of ?c 100 1 1 1 112 ?w 100 0 "[(106, Hb_received), (111, Hb_received), (112, Hb_check)]", OF _ _ _ _ _ _ tm]
    by (simp del: hb_run_simps)
qed

text \<open>
  A link that is slow but alive is given up all the same: \<open>last_recv_time\<close> changes only when a read completes, and none completes
  while the receive buffer is full or a long message is still arriving.
\<close>

lemma heartbeat_ignores_suspended_reading:
  assumes "hc_tcp c" "0 < t0" "hc_interval c * hc_max_absence c \<le> t - t0"
  shows "\<not> hb_ready (hb_run c [(t, Hb_check)] (hb_do_start t0 hb_new))"
  using assms by (simp add: hb_do_start_def start_heartbeat_def hb_new_def check_heartbeat_def on_heartbeat_error_def hb_force_shutdown_def)

end
