(* ===== verification/Secure_Link.thy ===== *)
theory Secure_Link
  imports Link_Life Send_Path
begin

text \<open>
  What SSL (\<open>tcp/ssl/ssl.h\<close>), WebSocket (\<open>tcp/websocket/websocket.h\<close>) and WebSocket over SSL
  (\<open>tcp/websocket/ssl/ssl.h\<close>) change in a TCP link: handshakes between connecting and \<open>on_connect\<close>, a shutdown of the
  secure layer in place of the graceful shutdown, and for WebSocket messages that are framed by Boost.Beast. The
  streams themselves belong to Boost: when their operations complete, and with which error, is up to the environment.
\<close>

section \<open>State\<close>

datatype layer = Ssl | Websocket | Ssl_websocket

fun handshakes :: "layer \<Rightarrow> nat" where
  "handshakes Ssl = 1"
| "handshakes Websocket = 1"
| "handshakes Ssl_websocket = 2"

text \<open>
  \<open>se_stage\<close>: the handshakes this connection has finished; \<open>se_pending\<close>: one is outstanding; \<open>se_posted\<close>: shutdowns of the
  secure layer handed to the strand; \<open>se_downs\<close>: those outstanding. All of them are among the link's \<open>lk_calls\<close>.
\<close>

record secure =
  se_link :: link
  se_stage :: nat
  se_pending :: bool
  se_posted :: nat
  se_downs :: nat

definition secure_new :: "role \<Rightarrow> secure" where
  "secure_new role = \<lparr>se_link = link_new role, se_stage = 0, se_pending = False, se_posted = 0, se_downs = 0\<rparr>"

section \<open>Handshakes\<close>

text \<open>The status, then \<open>async_handshake\<close> or \<open>async_accept\<close>.\<close>

definition begin_handshake :: "nat \<Rightarrow> secure \<Rightarrow> secure" where
  "begin_handshake stage s =
     s\<lparr>se_link := (se_link s)\<lparr>lk_status := HANDSHAKING, lk_calls := lk_calls (se_link s) + 1\<rparr>, se_stage := stage, se_pending := True\<rparr>"

text \<open>
  The client's \<open>connect_handler\<close>; \<open>sni\<close> is the answer of \<open>SSL_set_tlsext_host_name\<close>, which WebSocket over SSL calls. The
  server's \<open>do_start\<close> and, around it, \<open>socket::start\<close>.
\<close>

definition secure_connect_handler :: "layer \<Rightarrow> bool \<Rightarrow> bool \<Rightarrow> secure \<Rightarrow> secure" where
  "secure_connect_handler layer sni ec s =
     (if ec then s\<lparr>se_link := connect_handler ec (se_link s)\<rparr>
      else if layer = Ssl_websocket \<and> \<not> sni
      then s\<lparr>se_link := connect_handler True ((se_link s)\<lparr>lk_status := HANDSHAKING\<rparr>)\<rparr>
      else begin_handshake 0 (s\<lparr>se_link := (se_link s)\<lparr>lk_connecting := False\<rparr>\<rparr>))"

definition secure_server_start :: "secure \<Rightarrow> secure" where
  "secure_server_start s =
     (let lk = se_link s
      in if \<not> lk_started lk \<and> \<not> is_timer TIMER_DELAY_CLOSE (lk_timers lk) \<and> \<not> lk_stopped lk
         then (let s1 = begin_handshake 0 s in s1\<lparr>se_link := (say link_log.Started (se_link s1))\<lparr>lk_started := True\<rparr>\<rparr>)
         else s)"

section \<open>Shutting down\<close>

text \<open>\<open>shutdown_ssl\<close> and \<open>shutdown_websocket\<close>: the status at once, the rest in the strand.\<close>

definition shutdown_secure :: "secure \<Rightarrow> secure" where
  "shutdown_secure s =
     s\<lparr>se_link := (se_link s)\<lparr>lk_status := GRACEFUL_SHUTTING_DOWN, lk_calls := lk_calls (se_link s) + 1\<rparr>, se_posted := se_posted s + 1\<rparr>"

text \<open>In the strand: the monitor with its single round of 5 seconds, and \<open>async_shutdown\<close> or \<open>async_close\<close>.\<close>

definition start_graceful_shutdown_monitoring :: "link \<Rightarrow> link" where
  "start_graceful_shutdown_monitoring lk =
     link_set_timer TIMER_ASYNC_SHUTDOWN (of_nat (GRACEFUL_SHUTDOWN_MAX_DURATION * 1000)) (Cb_shutdown 1) lk"

definition stop_graceful_shutdown_monitoring :: "link \<Rightarrow> link" where
  "stop_graceful_shutdown_monitoring lk = lk\<lparr>lk_timers := stop_timer TIMER_ASYNC_SHUTDOWN (lk_timers lk)\<rparr>"

definition shutdown_secure_in :: "secure \<Rightarrow> secure" where
  "shutdown_secure_in s =
     s\<lparr>se_link := start_graceful_shutdown_monitoring (se_link s), se_posted := se_posted s - 1, se_downs := se_downs s + 1\<rparr>"

text \<open>Its completion; only WebSocket stops the monitor there.\<close>

definition secure_down_handler :: "layer \<Rightarrow> secure \<Rightarrow> secure" where
  "secure_down_handler layer s =
     (let lk = (se_link s)\<lparr>lk_calls := lk_calls (se_link s) - 1\<rparr>
      in s\<lparr>se_link := (if layer = Ssl then lk else stop_graceful_shutdown_monitoring lk), se_downs := se_downs s - 1\<rparr>)"

text \<open>\<open>graceful_shutdown\<close>, and \<open>force_shutdown\<close>, which is the same.\<close>

definition secure_graceful_shutdown :: "bool \<Rightarrow> bool \<Rightarrow> role \<Rightarrow> link_env \<Rightarrow> secure \<Rightarrow> secure" where
  "secure_graceful_shutdown in_strand reconnect role env s =
     (if is_connected (se_link s)
      then shutdown_secure (if role = Client then s\<lparr>se_link := (se_link s)\<lparr>lk_need_reconnect := reconnect\<rparr>\<rparr> else s)
      else s\<lparr>se_link := force_shutdown in_strand reconnect role env (se_link s)\<rparr>)"

definition secure_force_shutdown :: "bool \<Rightarrow> bool \<Rightarrow> role \<Rightarrow> link_env \<Rightarrow> secure \<Rightarrow> secure" where
  "secure_force_shutdown in_strand reconnect role env s = secure_graceful_shutdown in_strand reconnect role env s"

text \<open>
  \<open>handle_handshake\<close>: after the last handshake the link goes on as a TCP link that is connected; when one fails the
  client is shut down with \<open>reconnect = false\<close>, the server's link by \<open>del_socket\<close>.
\<close>

definition handle_handshake :: "layer \<Rightarrow> bool \<Rightarrow> role \<Rightarrow> link_env \<Rightarrow> bool \<Rightarrow> secure \<Rightarrow> secure" where
  "handle_handshake layer in_strand role env ec s =
     (let s1 = s\<lparr>se_link := (se_link s)\<lparr>lk_calls := lk_calls (se_link s) - 1\<rparr>, se_pending := False\<rparr>
      in if ec then secure_force_shutdown in_strand False role env s1
         else if se_stage s + 1 < handshakes layer then begin_handshake (se_stage s + 1) s1
         else s1\<lparr>se_link := tcp_do_start (se_link s1), se_stage := se_stage s + 1\<rparr>)"

definition secure_on_recv_error :: "layer \<Rightarrow> role \<Rightarrow> link_env \<Rightarrow> secure \<Rightarrow> secure" where
  "secure_on_recv_error layer role env s =
     s\<lparr>se_link := on_recv_error role env (if layer = Ssl then stop_graceful_shutdown_monitoring (se_link s) else se_link s)\<rparr>"

section \<open>All behaviours\<close>

text \<open>How often \<open>on_connect\<close> was called, which \<open>tcp_do_start\<close> does.\<close>

definition connects :: "link \<Rightarrow> nat" where
  "connects lk = length (filter (\<lambda>e. e = On_connect) (lk_log lk))"

definition secure_calls :: "secure \<Rightarrow> nat" where
  "secure_calls s = of_bool (se_pending s) + se_posted s + se_downs s"

text \<open>
  A secure link does what a TCP link does, except that \<open>tcp_do_start\<close> is not called there but by the last handshake, and
  that the calls counted by \<open>secure_calls\<close> end by their own steps.
\<close>

inductive secure_step :: "layer \<Rightarrow> role \<Rightarrow> secure \<Rightarrow> secure \<Rightarrow> bool" for layer :: layer and role :: role where
  plain_link: "link_step role (se_link s) lk \<Longrightarrow> connects lk = connects (se_link s) \<Longrightarrow> secure_calls s \<le> lk_calls lk \<Longrightarrow>
    secure_step layer role s (s\<lparr>se_link := lk\<rparr>)"
| se_started: "role = Server \<Longrightarrow> \<not> lk_obsoleted (se_link s) \<Longrightarrow> secure_step layer role s (secure_server_start s)"
| se_connected: "role = Client \<Longrightarrow> lk_connecting (se_link s) \<Longrightarrow> secure_step layer role s (secure_connect_handler layer sni ec s)"
| se_handshake: "se_pending s \<Longrightarrow> secure_step layer role s (handle_handshake layer in_strand role env ec s)"
| se_graceful: "secure_step layer role s (secure_graceful_shutdown in_strand reconnect role env s)"
| se_shutdown: "0 < se_posted s \<Longrightarrow> secure_step layer role s (shutdown_secure_in s)"
| se_down: "0 < se_downs s \<Longrightarrow> secure_step layer role s (secure_down_handler layer s)"
| se_recv_error: "secure_calls s < lk_calls (se_link s) \<Longrightarrow>
    secure_step layer role s (secure_on_recv_error layer role env (s\<lparr>se_link := (se_link s)\<lparr>lk_calls := lk_calls (se_link s) - 1\<rparr>\<rparr>))"

section \<open>A link with calls outstanding is not closed for good\<close>

definition alive :: "link \<Rightarrow> bool" where
  "alive lk \<longleftrightarrow> lk_stopped lk \<or> lk_started lk \<or> closing lk"

lemma alive_fields [simp]:
  "alive (say e lk) = alive lk" "alive (lk\<lparr>lk_status := st\<rparr>) = alive lk" "alive (lk\<lparr>lk_obsoleted := b\<rparr>) = alive lk"
  "alive (lk\<lparr>lk_open := b\<rparr>) = alive lk" "alive (lk\<lparr>lk_calls := n\<rparr>) = alive lk" "alive (lk\<lparr>lk_tasks := ts\<rparr>) = alive lk"
  "alive (lk\<lparr>lk_connecting := b\<rparr>) = alive lk" "alive (lk\<lparr>lk_need_reconnect := b\<rparr>) = alive lk"
  by (simp_all add: alive_def say_def closing_def)

lemma alive_timers:
  "(closing lk \<Longrightarrow> is_timer TIMER_DELAY_CLOSE t) \<Longrightarrow> alive lk \<Longrightarrow> alive (lk\<lparr>lk_timers := t\<rparr>)"
  by (auto simp: alive_def closing_def)

lemma alive_set_timer [simp]: "alive lk \<Longrightarrow> alive (link_set_timer tid n cb lk)"
  by (auto simp: link_set_timer_def closing_def link_timers intro: alive_timers)

lemma alive_start [simp]: "alive lk \<Longrightarrow> alive (link_start role env lk)"
  by (auto simp: alive_def closing_def link_start_def)

lemma stopped_start [simp]: "lk_stopped (link_start role env lk) = lk_stopped lk"
  by (simp add: link_start_def do_start_def tcp_do_start_def link_set_timer_def say_def)

lemma stopped_after [simp]: "lk_stopped (after_close role env (on_close role lk)) = lk_stopped lk"
  by (simp add: after_close_def on_close_defs say_def Let_def)

lemma alive_close [simp]: "alive lk \<Longrightarrow> alive (snd (link_close role env use_close lk))"
  by (auto simp: link_close_def Let_def alive_def link_set_timer_def closing_def link_timers)

lemma alive_shutdown [simp]: "alive lk \<Longrightarrow> alive (shutdown role env lk)"
  by (simp add: shutdown_def)

lemma alive_dispatch [simp]: "alive lk \<Longrightarrow> alive (dispatch_task in_strand task role env lk)"
  by (cases task) (auto simp: dispatch_task_def force_shutdown_in_def graceful_shutdown_in_def Let_def)

lemma alive_force [simp]: "alive lk \<Longrightarrow> alive (force_shutdown in_strand reconnect role env lk)"
  by (cases role) (auto simp: force_shutdown_defs Let_def)

lemma alive_graceful [simp]: "alive lk \<Longrightarrow> alive (graceful_shutdown in_strand reconnect role env lk)"
  by (cases role) (auto simp: graceful_shutdown_defs force_shutdown_defs Let_def)

lemma alive_stop_timer [simp]: "tid \<noteq> TIMER_DELAY_CLOSE \<Longrightarrow> alive lk \<Longrightarrow> alive (lk\<lparr>lk_timers := stop_timer tid (lk_timers lk)\<rparr>)"
  by (auto simp: closing_def stop_obs intro: alive_timers)

lemma alive_run_cb: "alive lk \<Longrightarrow> 0 < lk_calls lk \<Longrightarrow> alive (snd (run_cb role env cb lk))"
proof (cases cb)
  case Cb_delay_close
  assume a: "alive lk" "0 < lk_calls lk"
  then have "\<not> is_last_async_call lk" by (simp add: is_last_async_call_def async_calls_def)
  then show ?thesis using a Cb_delay_close by (auto simp: delay_close_handler_def closing_def link_timers intro: alive_timers)
next
  case (Cb_shutdown n)
  assume "alive lk" "0 < lk_calls lk"
  then show ?thesis using Cb_shutdown
    by (auto simp: shutdown_handler_def on_async_shutdown_error_def Let_def closing_def link_timers intro: alive_timers)
next
  case (Cb_connect b)
  assume "alive lk" "0 < lk_calls lk"
  then show ?thesis using Cb_connect by (simp add: connect_def)
next
  case Cb_connect_delay
  assume "alive lk" "0 < lk_calls lk"
  then show ?thesis using Cb_connect_delay by (simp add: prepare_next_reconnect_def Let_def)
qed simp

lemma alive_wait_other:
  assumes "alive lk" "0 < lk_calls lk" "tid \<noteq> TIMER_DELAY_CLOSE"
  shows "alive (link_wait_handler role env ec tid n lk)"
proof -
  have after: "alive (lk1\<lparr>lk_timers := snd (start_timer tid (lk_timers lk1))\<rparr>)"
    "alive (lk1\<lparr>lk_timers := upd_timer tid (\<lambda>ti. ti\<lparr>ti_status := TIMER_CANCELED\<rparr>) (lk_timers lk1)\<rparr>)"
    if "alive lk1" for lk1
    using that assms(3)
    by (auto simp: closing_def timer_simps is_timer_def find_timer_start split: option.splits intro!: alive_timers)
  show ?thesis
    using alive_run_cb [OF assms(1,2)] after assms(1)
    by (auto simp: link_wait_handler_def Let_def split_beta split: option.splits)
qed

lemma alive_wait_close:
  assumes "alive lk" "0 < lk_calls lk" "cb_of TIMER_DELAY_CLOSE (lk_timers lk) = Some Cb_delay_close"
  shows "alive (link_wait_handler role env False TIMER_DELAY_CLOSE n lk)"
proof -
  obtain ti where ti: "find_timer TIMER_DELAY_CLOSE (lk_timers lk) = Some ti" "ti_call_back ti = Some Cb_delay_close"
    using assms(3) by (auto simp: cb_of_def split: Option.bind_splits)
  have last: "\<not> is_last_async_call lk" using assms(2) by (simp add: is_last_async_call_def async_calls_def)
  show ?thesis
  proof (cases "ti_status ti = TIMER_STARTED")
    case True
    then have t: "is_timer TIMER_DELAY_CLOSE (lk_timers lk)" using ti by (simp add: is_timer_def)
    then have t2: "is_timer TIMER_DELAY_CLOSE (stop_all_timer_except TIMER_DELAY_CLOSE (lk_timers lk))" by (simp add: link_timers)
    show ?thesis using ti True last t2 by (simp add: link_wait_handler_def delay_close_handler_def alive_def closing_def start_obs)
  next
    case False
    then have "lk_stopped lk \<or> lk_started lk" using assms(1) ti by (auto simp: alive_def closing_def is_timer_def)
    then show ?thesis using ti False by (auto simp: link_wait_handler_def alive_def)
  qed
qed

lemma alive_link_step: "link_step role lk lk' \<Longrightarrow> good role lk \<Longrightarrow> alive lk \<Longrightarrow> 0 < lk_calls lk \<Longrightarrow> alive lk'"
proof (induction rule: link_step.induct)
  case (recv_error lk env)
  then show ?case by (simp add: on_recv_error_def)
next
  case (connected lk ec)
  then show ?case by (simp add: connect_handler_def tcp_do_start_def Let_def)
next
  case (expire lk ws1 w ws2)
  then show ?case by (auto simp: closing_def link_timers intro: alive_timers)
next
  case (timer_done lk ws1 w ws2 ec env)
  let ?lk = "lk\<lparr>lk_timers := (lk_timers lk)\<lparr>tm_waits := ws1 @ ws2\<rparr>\<rparr>"
  have a: "alive ?lk" "0 < lk_calls ?lk" using timer_done(4,5) by (auto simp: closing_def link_timers intro: alive_timers)
  show ?case
  proof (cases "wt_id w = TIMER_DELAY_CLOSE")
    case False
    then show ?thesis by (intro alive_wait_other a)
  next
    case True
    have "w \<in> set (waits_of TIMER_DELAY_CLOSE (lk_timers lk))" using True timer_done(1) by (simp add: waits_of_def)
    then have "ec = False" "cb_of TIMER_DELAY_CLOSE (lk_timers lk) = Some Cb_delay_close"
      using timer_done(2,3) by (auto simp: good_def close_wait_def split: if_splits)
    then show ?thesis using True alive_wait_close [OF a] by (simp add: link_timers)
  qed
next
  case (stop lk)
  then show ?case by (simp add: alive_def)
qed simp_all

section \<open>The invariant of the link carries over\<close>

text \<open>A handshake or a shutdown of the secure layer goes on only on a link that has not been closed for good.\<close>

definition secure_inv :: "role \<Rightarrow> secure \<Rightarrow> bool" where
  "secure_inv role s \<longleftrightarrow> good role (se_link s) \<and> secure_calls s \<le> lk_calls (se_link s) \<and> (0 < secure_calls s \<longrightarrow> alive (se_link s))"

lemma alive_not_broken: "good role lk \<Longrightarrow> lk_status lk \<noteq> BROKEN \<Longrightarrow> alive lk"
  by (auto simp: good_def link_inv_def alive_def)

lemma good_status: "good role lk \<Longrightarrow> alive lk \<Longrightarrow> good role (lk\<lparr>lk_status := st, lk_calls := n\<rparr>)"
  by (rule good_view) (auto simp: good_def link_inv_def starts_def closes_def closing_def alive_def)

lemma good_calls: "good role lk \<Longrightarrow> good role (lk\<lparr>lk_calls := n\<rparr>)"
  by (rule good_view) (simp_all add: good_def inv_fields)

lemma good_tcp_do_start: "good role lk \<Longrightarrow> alive lk \<Longrightarrow> good role (tcp_do_start lk)"
proof -
  assume g: "good role lk" "alive lk"
  have "dview (tcp_do_start lk) = dview lk" by (simp add: tcp_do_start_def)
  then show ?thesis using g by (intro good_view [OF g(1)] inv_tcp_do_start) (auto simp: good_def alive_def)
qed

lemma good_connecting: "good role lk \<Longrightarrow> good role (lk\<lparr>lk_connecting := False\<rparr>)"
  by (rule good_view) (auto simp: good_def link_inv_def starts_def closes_def closing_def)

lemma calls_same:
  "lk_calls (after_close role env (on_close role lk)) = lk_calls lk"
  "lk_calls (link_set_timer tid n cb lk) = lk_calls lk"
  "lk_calls (link_start Client env lk) = lk_calls lk"
  by (simp_all add: after_close_def on_close_defs say_def link_start_def do_start_def link_set_timer_def Let_def)

lemma calls_force: "lk_calls (force_shutdown in_strand reconnect role env lk) = lk_calls lk"
  by (cases role) (simp_all add: force_shutdown_defs dispatch_task_def force_shutdown_in_def shutdown_def link_close_def calls_same Let_def)

lemma secure_inv_begin:
  "good role (se_link s) \<Longrightarrow> alive (se_link s) \<Longrightarrow> se_posted s + se_downs s \<le> lk_calls (se_link s) \<Longrightarrow>
     secure_inv role (begin_handshake stage s)"
  by (simp add: secure_inv_def begin_handshake_def secure_calls_def good_status)

lemma secure_inv_graceful:
  assumes i: "secure_inv role s"
  shows "secure_inv role (secure_graceful_shutdown in_strand reconnect role env s)"
proof (cases "is_connected (se_link s)")
  case True
  then have "alive (se_link s)" using i by (intro alive_not_broken) (auto simp: secure_inv_def is_connected_def)
  then show ?thesis using i True good_status [of role "(se_link s)\<lparr>lk_need_reconnect := reconnect\<rparr>"]
    by (auto simp: secure_inv_def secure_graceful_shutdown_def shutdown_secure_def secure_calls_def good_status good_reconnect_flag)
next
  case False
  have "lk_calls (se_link s) \<le> lk_calls (force_shutdown in_strand reconnect role env (se_link s))" by (simp add: calls_force)
  then show ?thesis using False i by (auto simp: secure_inv_def secure_graceful_shutdown_def secure_calls_def good_force)
qed

lemma secure_inv_same:
  "secure_inv role s \<Longrightarrow> good role lk \<Longrightarrow> lk_calls lk = lk_calls (se_link s) \<Longrightarrow> (alive (se_link s) \<Longrightarrow> alive lk) \<Longrightarrow>
     secure_inv role (s\<lparr>se_link := lk\<rparr>)"
  by (auto simp: secure_inv_def secure_calls_def)

lemma good_stop_timer: "good role lk \<Longrightarrow> good role (stop_graceful_shutdown_monitoring lk)"
proof -
  assume g: "good role lk"
  have "dview (stop_graceful_shutdown_monitoring lk) = dview lk"
    using stop_other [of TIMER_DELAY_CLOSE TIMER_ASYNC_SHUTDOWN "lk_timers lk"]
    by (simp add: stop_graceful_shutdown_monitoring_def dview_def)
  then show ?thesis using g
    by (intro good_view [OF g])
      (auto simp: good_def link_inv_def stop_graceful_shutdown_monitoring_def stop_obs starts_def closes_def closing_def)
qed

lemma secure_inv_server_start:
  assumes i: "secure_inv Server s" and o: "\<not> lk_obsoleted (se_link s)"
  shows "secure_inv Server (secure_server_start s)"
proof -
  let ?lk = "se_link s"
  let ?lk1 = "(say link_log.Started (?lk\<lparr>lk_status := HANDSHAKING, lk_calls := lk_calls ?lk + 1\<rparr>))\<lparr>lk_started := True\<rparr>"
  have "good Server ?lk1" if n: "\<not> lk_started ?lk" "\<not> closing ?lk"
  proof -
    have g: "good Server ?lk" using i by (simp add: secure_inv_def)
    have "dview ?lk1 = dview ?lk" by (simp add: say_def dview_def)
    then show ?thesis using g n o
      by (intro good_view [OF g]) (auto simp: good_def link_inv_def say_def starts_def closes_def closing_def)
  qed
  then show ?thesis using i
    by (auto simp: secure_inv_def secure_server_start_def begin_handshake_def secure_calls_def alive_def closing_def Let_def say_def)
qed

lemma secure_inv_connect_handler:
  assumes i: "secure_inv Client s" and c: "lk_connecting (se_link s)"
  shows "secure_inv Client (secure_connect_handler layer sni ec s)"
proof -
  let ?lk = "se_link s"
  have g: "good Client ?lk" using i by (simp add: secure_inv_def)
  then have a: "alive ?lk" using c by (auto simp: good_def link_inv_def alive_def)
  have failed: "secure_inv Client (s\<lparr>se_link := connect_handler True lk\<rparr>)"
    if "good Client lk" "lk_connecting lk" "alive lk" "lk_calls lk = lk_calls ?lk" for lk
  proof (rule secure_inv_same [OF i])
    have "link_step Client lk (connect_handler True lk)" by (rule link_step.connected) (use that in simp_all)
    then show "good Client (connect_handler True lk)" using that good_link_step by blast
  qed (use that in \<open>auto simp: connect_handler_def calls_same Let_def\<close>)
  have h: "good Client (?lk\<lparr>lk_status := HANDSHAKING\<rparr>)" using good_status [OF g a, of "lk_calls ?lk" HANDSHAKING] by simp
  have "secure_inv Client (begin_handshake 0 (s\<lparr>se_link := ?lk\<lparr>lk_connecting := False\<rparr>\<rparr>))"
    by (rule secure_inv_begin) (use i a g in \<open>auto simp: good_connecting secure_inv_def secure_calls_def\<close>)
  then show ?thesis using failed [OF g c a] failed [OF h] c a by (auto simp: secure_connect_handler_def)
qed

lemma secure_inv_handshake:
  assumes i: "secure_inv role s" and p: "se_pending s"
  shows "secure_inv role (handle_handshake layer in_strand role env ec s)"
proof -
  define s1 where "s1 = s\<lparr>se_link := (se_link s)\<lparr>lk_calls := lk_calls (se_link s) - 1\<rparr>, se_pending := False\<rparr>"
  have a: "alive (se_link s1)" using i p by (simp add: s1_def secure_inv_def secure_calls_def)
  have i1: "secure_inv role s1" using i p by (auto simp: s1_def secure_inv_def secure_calls_def intro: good_calls)
  then have g: "good role (se_link s1)" by (simp add: secure_inv_def)
  have "secure_inv role (begin_handshake (se_stage s + 1) s1)"
    by (rule secure_inv_begin [OF g a]) (use i1 in \<open>simp add: secure_inv_def secure_calls_def\<close>)
  moreover have "secure_inv role (s1\<lparr>se_link := tcp_do_start (se_link s1), se_stage := se_stage s + 1\<rparr>)"
    using i1 a good_tcp_do_start [OF g a] by (auto simp: secure_inv_def secure_calls_def tcp_do_start_def)
  moreover have "secure_inv role (secure_force_shutdown in_strand False role env s1)"
    unfolding secure_force_shutdown_def by (rule secure_inv_graceful [OF i1])
  ultimately show ?thesis by (simp add: handle_handshake_def s1_def Let_def)
qed

lemma secure_inv_step: "secure_step layer role s s' \<Longrightarrow> secure_inv role s \<Longrightarrow> secure_inv role s'"
proof (induction rule: secure_step.induct)
  case (plain_link s lk)
  have g: "good role (se_link s)" using plain_link(4) by (simp add: secure_inv_def)
  have "alive lk" if "0 < secure_calls s"
    using alive_link_step [OF plain_link(1) g] plain_link(4) that by (auto simp: secure_inv_def)
  then show ?case using plain_link(3) good_link_step [OF plain_link(1) g] by (auto simp: secure_inv_def secure_calls_def)
next
  case (se_started s)
  then show ?case by (auto intro: secure_inv_server_start)
next
  case (se_connected s sni ec)
  then show ?case by (auto intro: secure_inv_connect_handler)
next
  case (se_handshake s in_strand env ec)
  then show ?case by (auto intro: secure_inv_handshake)
next
  case (se_graceful s in_strand reconnect env)
  then show ?case by (rule secure_inv_graceful)
next
  case (se_shutdown s)
  have a: "alive (se_link s)" and g: "good role (se_link s)" using se_shutdown by (auto simp: secure_inv_def secure_calls_def)
  have "good role (start_graceful_shutdown_monitoring (se_link s))" unfolding start_graceful_shutdown_monitoring_def
    by (rule good_view [OF g]) (use g in \<open>auto simp: good_def intro: inv_set_timer\<close>)
  then show ?case using se_shutdown a
    by (auto simp: secure_inv_def secure_calls_def shutdown_secure_in_def start_graceful_shutdown_monitoring_def calls_same)
next
  case (se_down s)
  let ?lk = "(se_link s)\<lparr>lk_calls := lk_calls (se_link s) - 1\<rparr>"
  let ?lk1 = "if layer = Ssl then ?lk else stop_graceful_shutdown_monitoring ?lk"
  have "good role ?lk1" using se_down by (auto simp: secure_inv_def intro!: good_stop_timer good_calls)
  moreover have "alive (se_link s) \<Longrightarrow> alive ?lk1"
    using alive_stop_timer [of TIMER_ASYNC_SHUTDOWN ?lk] by (auto simp: stop_graceful_shutdown_monitoring_def)
  moreover have "lk_calls ?lk1 = lk_calls (se_link s) - 1" by (simp add: stop_graceful_shutdown_monitoring_def)
  ultimately show ?case using se_down by (auto simp: secure_inv_def secure_calls_def secure_down_handler_def Let_def)
next
  case (se_recv_error s env)
  let ?lk = "(se_link s)\<lparr>lk_calls := lk_calls (se_link s) - 1\<rparr>"
  let ?lk1 = "if layer = Ssl then stop_graceful_shutdown_monitoring ?lk else ?lk"
  have "good role ?lk1" using se_recv_error by (auto simp: secure_inv_def intro!: good_stop_timer good_calls)
  then have "good role (on_recv_error role env ?lk1)" by (simp add: on_recv_error_def good_force)
  moreover have "alive (se_link s) \<Longrightarrow> alive (on_recv_error role env ?lk1)"
    using alive_stop_timer [of TIMER_ASYNC_SHUTDOWN ?lk] by (auto simp: on_recv_error_def stop_graceful_shutdown_monitoring_def)
  moreover have "lk_calls (on_recv_error role env ?lk1) = lk_calls (se_link s) - 1"
    by (simp add: on_recv_error_def calls_force stop_graceful_shutdown_monitoring_def)
  ultimately show ?case using se_recv_error by (auto simp: secure_inv_def secure_calls_def secure_on_recv_error_def)
qed

section \<open>The application sees a connection only after every handshake\<close>

text \<open>No operation of the TCP link makes it connected without \<open>on_connect\<close>.\<close>

definition connects_by :: "link \<Rightarrow> link \<Rightarrow> bool" where
  "connects_by lk lk' \<longleftrightarrow> connects lk \<le> connects lk' \<and>
     (lk_status lk' = CONNECTED \<longrightarrow> lk_status lk = CONNECTED \<or> connects lk < connects lk')"

lemma connects_by_refl [simp]: "connects_by lk lk"
  by (simp add: connects_by_def)

lemma connects_by_trans [trans]: "connects_by lk lk1 \<Longrightarrow> connects_by lk1 lk2 \<Longrightarrow> connects_by lk lk2"
  by (auto simp: connects_by_def)

lemma connects_by_fields [simp]:
  "connects_by a (lk\<lparr>lk_obsoleted := b\<rparr>) = connects_by a lk" "connects_by a (lk\<lparr>lk_open := b\<rparr>) = connects_by a lk"
  "connects_by a (lk\<lparr>lk_calls := n\<rparr>) = connects_by a lk" "connects_by a (lk\<lparr>lk_tasks := ts\<rparr>) = connects_by a lk"
  "connects_by a (lk\<lparr>lk_connecting := b\<rparr>) = connects_by a lk" "connects_by a (lk\<lparr>lk_need_reconnect := b\<rparr>) = connects_by a lk"
  "connects_by a (lk\<lparr>lk_timers := t\<rparr>) = connects_by a lk" "connects_by a (lk\<lparr>lk_started := b\<rparr>) = connects_by a lk"
  "connects_by a (lk\<lparr>lk_stopped := b\<rparr>) = connects_by a lk" "connects_by a (link_set_timer tid i cb lk) = connects_by a lk"
  by (auto simp: connects_by_def connects_def link_set_timer_def)

lemma connects_by_simps [simp]:
  "connects_by a lk \<Longrightarrow> connects_by a (say e lk)" "connects_by a lk \<Longrightarrow> connects_by a (tcp_do_start lk)"
  "connects_by a lk \<Longrightarrow> st \<noteq> CONNECTED \<Longrightarrow> connects_by a (lk\<lparr>lk_status := st\<rparr>)"
  by (auto simp: connects_by_def connects_def say_def tcp_do_start_def)

lemma connects_by_start [simp]: "connects_by a lk \<Longrightarrow> connects_by a (link_start role env lk)"
  by (simp add: link_start_def do_start_def)

lemma connects_by_on_close [simp]: "connects_by a lk \<Longrightarrow> connects_by a (on_close role lk)"
  by (simp add: on_close_defs)

lemma connects_by_after [simp]: "connects_by a lk \<Longrightarrow> connects_by a (after_close role env lk)"
  by (simp add: after_close_def Let_def)

lemma connects_by_close [simp]: "connects_by a lk \<Longrightarrow> connects_by a (snd (link_close role env use_close lk))"
  by (simp add: link_close_def Let_def)

lemma connects_by_shutdown [simp]: "connects_by a lk \<Longrightarrow> connects_by a (shutdown role env lk)"
  by (simp add: shutdown_def)

lemma connects_by_dispatch [simp]: "connects_by a lk \<Longrightarrow> connects_by a (dispatch_task in_strand task role env lk)"
  by (cases task) (simp_all add: dispatch_task_def force_shutdown_in_def graceful_shutdown_in_def Let_def)

lemma connects_by_force [simp]: "connects_by a lk \<Longrightarrow> connects_by a (force_shutdown in_strand reconnect role env lk)"
  by (cases role) (simp_all add: force_shutdown_defs Let_def)

lemma connects_by_graceful [simp]: "connects_by a lk \<Longrightarrow> connects_by a (graceful_shutdown in_strand reconnect role env lk)"
  by (cases role) (simp_all add: graceful_shutdown_defs force_shutdown_defs Let_def)

lemma connects_by_run_cb [simp]: "connects_by a lk \<Longrightarrow> connects_by a (snd (run_cb role env cb lk))"
  by (cases cb)
    (simp_all add: delay_close_handler_def shutdown_handler_def on_async_shutdown_error_def connect_def prepare_next_reconnect_def Let_def)

lemma connects_by_wait [simp]: "connects_by a lk \<Longrightarrow> connects_by a (link_wait_handler role env ec tid n lk)"
  by (auto simp: link_wait_handler_def Let_def split_beta split: option.splits)

lemma connects_by_step: "link_step role lk lk' \<Longrightarrow> connects_by lk lk'"
  by (induction rule: link_step.induct) (simp_all add: on_recv_error_def connect_handler_def Let_def)

lemma connects_same:
  "connects (after_close role env (on_close role lk)) = connects lk"
  "connects (link_set_timer tid i cb lk) = connects lk"
  "connects (link_start Client env lk) = connects lk"
  by (simp_all add: after_close_def on_close_defs say_def link_start_def do_start_def link_set_timer_def connects_def Let_def)

lemma connects_fields [simp]:
  "connects (lk\<lparr>lk_obsoleted := b\<rparr>) = connects lk" "connects (lk\<lparr>lk_open := b\<rparr>) = connects lk"
  "connects (lk\<lparr>lk_calls := n\<rparr>) = connects lk" "connects (lk\<lparr>lk_tasks := ts\<rparr>) = connects lk"
  "connects (lk\<lparr>lk_timers := t\<rparr>) = connects lk" "connects (lk\<lparr>lk_started := b\<rparr>) = connects lk"
  "connects (lk\<lparr>lk_status := st\<rparr>) = connects lk" "connects (lk\<lparr>lk_need_reconnect := b\<rparr>) = connects lk"
  by (simp_all add: connects_def)

lemma connects_force: "connects (force_shutdown in_strand reconnect role env lk) = connects lk"
  by (cases role)
    (simp_all add: force_shutdown_defs dispatch_task_def force_shutdown_in_def shutdown_def link_close_def connects_same Let_def)

lemma force_not_connected:
  "lk_status (force_shutdown in_strand reconnect role env lk) = CONNECTED \<Longrightarrow> lk_status lk = CONNECTED"
  using connects_by_force [of lk lk in_strand reconnect role env] by (simp add: connects_by_def connects_force)

definition stage_inv :: "layer \<Rightarrow> secure \<Rightarrow> bool" where
  "stage_inv layer s \<longleftrightarrow> (lk_status (se_link s) = CONNECTED \<longrightarrow> se_stage s = handshakes layer) \<and>
     (se_pending s \<longrightarrow> se_stage s < handshakes layer)"

lemma handshakes_pos [simp]: "0 < handshakes layer"
  by (cases layer) simp_all

lemma stage_begin: "stage < handshakes layer \<Longrightarrow> stage_inv layer (begin_handshake stage s)"
  by (simp add: stage_inv_def begin_handshake_def)

lemma stage_graceful: "stage_inv layer s \<Longrightarrow> stage_inv layer (secure_graceful_shutdown in_strand reconnect role env s)"
  using force_not_connected [of in_strand reconnect role env "se_link s"]
  by (auto simp: stage_inv_def secure_graceful_shutdown_def shutdown_secure_def)

lemma stage_handshake: "stage_inv layer s \<Longrightarrow> se_pending s \<Longrightarrow> stage_inv layer (handle_handshake layer in_strand role env ec s)"
  by (auto simp: handle_handshake_def Let_def secure_force_shutdown_def intro!: stage_begin stage_graceful)
    (auto simp: stage_inv_def)

lemma stage_step: "secure_step layer role s s' \<Longrightarrow> stage_inv layer s \<Longrightarrow> stage_inv layer s'"
proof (induction rule: secure_step.induct)
  case (plain_link s lk)
  then show ?case using connects_by_step [OF plain_link(1)] by (auto simp: stage_inv_def connects_by_def)
next
  case (se_started s)
  then show ?case by (auto simp: secure_server_start_def Let_def stage_inv_def begin_handshake_def say_def)
next
  case (se_connected s sni ec)
  then show ?case
    by (auto simp: secure_connect_handler_def stage_begin) (auto simp: stage_inv_def connect_handler_def link_set_timer_def Let_def)
next
  case (se_handshake s in_strand env ec)
  then show ?case by (simp add: stage_handshake)
next
  case (se_graceful s in_strand reconnect env)
  then show ?case by (rule stage_graceful)
next
  case (se_shutdown s)
  then show ?case by (simp add: stage_inv_def shutdown_secure_in_def start_graceful_shutdown_monitoring_def link_set_timer_def)
next
  case (se_down s)
  then show ?case by (simp add: stage_inv_def secure_down_handler_def stop_graceful_shutdown_monitoring_def Let_def)
next
  case (se_recv_error s env)
  let ?lk = "(se_link s)\<lparr>lk_calls := lk_calls (se_link s) - 1\<rparr>"
  define lk1 where "lk1 = (if layer = Ssl then stop_graceful_shutdown_monitoring ?lk else ?lk)"
  have "lk_status (on_recv_error role env lk1) = CONNECTED \<Longrightarrow> lk_status lk1 = CONNECTED"
    by (simp add: on_recv_error_def force_not_connected)
  moreover have "lk_status lk1 = lk_status (se_link s)" by (simp add: lk1_def stop_graceful_shutdown_monitoring_def)
  moreover have "secure_on_recv_error layer role env (s\<lparr>se_link := ?lk\<rparr>) = s\<lparr>se_link := on_recv_error role env lk1\<rparr>"
    by (simp add: secure_on_recv_error_def lk1_def)
  ultimately show ?case using se_recv_error(2) by (simp add: stage_inv_def)
qed

lemma secure_new_inv: "secure_inv role (secure_new role) \<and> stage_inv layer (secure_new role)"
  by (simp add: secure_inv_def good_new secure_new_def secure_calls_def stage_inv_def link_new_def [of role] good_new [unfolded link_new_def])

interpretation se: step_invariant "\<lambda>s. s = secure_new role" "secure_step layer role"
  "\<lambda>s. secure_inv role s \<and> stage_inv layer s" for layer role
  by unfold_locales (use secure_new_inv secure_inv_step stage_step in blast)+

section \<open>Properties\<close>

text \<open>C40. A link with SSL, WebSocket or both is connected for its application only when every handshake of this connection
  has succeeded, it still answers each start by exactly one \<open>on_close\<close>, no asynchronous call is outstanding when
  \<open>on_close\<close> comes, and a handshake or a shutdown of the secure layer that is outstanding keeps the link from being
  closed for good.\<close>

theorem secure_link_life:
  assumes "reach (\<lambda>s. s = secure_new role) (secure_step layer role) s"
  shows "(is_connected (se_link s) \<longrightarrow> se_stage s = handshakes layer) \<and>
    (se_pending s \<longrightarrow> se_stage s < handshakes layer) \<and>
    starts (se_link s) = closes (se_link s) + of_bool (lk_started (se_link s) \<or> closing (se_link s)) \<and>
    (\<forall>st n. On_close st n \<in> set (lk_log (se_link s)) \<longrightarrow> st \<or> n = 0) \<and>
    (se_pending s \<or> 0 < se_posted s \<or> 0 < se_downs s \<longrightarrow>
       lk_stopped (se_link s) \<or> starts (se_link s) = closes (se_link s) + 1)"
  using se.reachable_inv [OF assms]
  by (auto simp: stage_inv_def secure_inv_def good_def link_inv_def is_connected_def secure_calls_def alive_def closing_def)

text \<open>A server's link with WebSocket over SSL after both handshakes.\<close>

definition demo_secure :: secure where
  "demo_secure = handle_handshake Ssl_websocket True Server demo_env False
     (handle_handshake Ssl_websocket True Server demo_env False (secure_server_start (secure_new Server)))"

lemmas secure_demo_defs = demo_secure_def handle_handshake_def secure_server_start_def secure_new_def begin_handshake_def link_new_def
  is_timer_def find_timer_def tm_new_def tcp_do_start_def say_def Let_def

lemma demo_secure_reach: "reach (\<lambda>s. s = secure_new Server) (secure_step Ssl_websocket Server) demo_secure"
proof -
  define s1 where "s1 = secure_server_start (secure_new Server)"
  define s2 where "s2 = handle_handshake Ssl_websocket True Server demo_env False s1"
  have "reach (\<lambda>s. s = secure_new Server) (secure_step Ssl_websocket Server) s1"
  proof (rule reach_step)
    show "reach (\<lambda>s. s = secure_new Server) (secure_step Ssl_websocket Server) (secure_new Server)" by (rule reach_init) simp
    show "secure_step Ssl_websocket Server (secure_new Server) s1"
      unfolding s1_def by (rule secure_step.se_started) (simp_all add: secure_new_def link_new_def)
  qed
  moreover have "secure_step Ssl_websocket Server s1 s2"
    unfolding s2_def by (rule secure_step.se_handshake) (simp add: s1_def secure_demo_defs)
  moreover have "secure_step Ssl_websocket Server s2 demo_secure"
    unfolding demo_secure_def s1_def [symmetric] s2_def [symmetric]
    by (rule secure_step.se_handshake) (simp add: s2_def s1_def secure_demo_defs)
  ultimately show ?thesis by (blast intro: reach_step)
qed

theorem secure_link_life_witness:
  "se_stage demo_secure = 2 \<and> starts (se_link demo_secure) = 1 \<and> closes (se_link demo_secure) = 0"
proof -
  have "is_connected (se_link demo_secure)" "lk_started (se_link demo_secure)" "starts (se_link demo_secure) = 1"
    by (simp_all add: secure_demo_defs is_connected_def starts_def)
  then show ?thesis using secure_link_life [OF demo_secure_reach] by simp
qed

text \<open>A shutdown of the secure layer that the peer does not answer is ended by force by the first expiry of its timer.\<close>

lemma secure_shutdown_forced:
  assumes "is_connected (se_link s)"
    and lk_def: "lk = se_link (shutdown_secure_in (secure_graceful_shutdown in_strand reconnect role env s))"
  shows "lk_log (shutdown_tick role env lk) = lk_log (se_link s) @ [On_async_shutdown_error] \<and>
    lk_tasks (shutdown_tick role env lk) = lk_tasks (se_link s) @ [Task_force_shutdown]"
proof -
  have "graceful_state 1 lk" using assms(1)
    by (simp add: lk_def secure_graceful_shutdown_def shutdown_secure_def shutdown_secure_in_def start_graceful_shutdown_monitoring_def
        graceful_state_def link_set_timer_def link_timers)
  moreover have "lk_log lk = lk_log (se_link s) \<and> lk_tasks lk = lk_tasks (se_link s)" using assms(1)
    by (simp add: lk_def secure_graceful_shutdown_def shutdown_secure_def shutdown_secure_in_def start_graceful_shutdown_monitoring_def
        link_set_timer_def)
  ultimately show ?thesis using shutdown_tick_last [of lk role env] by simp
qed

text \<open>
  A client whose handshake fails gives up: \<open>force_shutdown\<close> is called with its default \<open>reconnect = false\<close>, so the link
  is closed and \<open>after_close\<close> starts nothing, unlike after a failed connection.
\<close>

lemma failed_handshake_gives_up:
  assumes "\<not> is_connected (se_link s)" "\<not> lk_started (se_link s) \<or> \<not> is_broken (se_link s)"
  shows "\<not> lk_need_reconnect (se_link (handle_handshake layer False Client env True s))"
  using assms
  by (auto simp: handle_handshake_def secure_force_shutdown_def secure_graceful_shutdown_def is_connected_def force_shutdown_defs
      dispatch_task_def Let_def)

section \<open>The messages of WebSocket\<close>

text \<open>
  \<open>stream::parse_msg\<close>: \<open>is_message_done\<close>, the receive buffer and the messages of this read. \<open>async_read\<close> of Boost.Beast
  appends one whole message to the buffer before its handler runs.
\<close>

definition ws_parse_msg :: "bool \<Rightarrow> bytes \<Rightarrow> bytes list \<Rightarrow> bool \<times> bytes \<times> bytes list" where
  "ws_parse_msg is_message_done recv_buff msg_can = (is_message_done, [], if is_message_done then msg_can @ [recv_buff] else msg_can)"

definition ws_read :: "bytes \<Rightarrow> bytes \<times> bytes list \<Rightarrow> bytes \<times> bytes list" where
  "ws_read msg r = snd (ws_parse_msg True (fst r @ msg) (snd r))"

text \<open>\<open>batch_msg_send_size\<close> of the \<open>reader_writer\<close>, and the frames of a run: \<open>async_write\<close> makes one of all its buffers.\<close>

definition ws_batch_msg_send_size :: nat where
  "ws_batch_msg_send_size = 0"

definition ws_frames :: "bytes send_event list \<Rightarrow> bytes list" where
  "ws_frames evs = map (\<lambda>ev. concat (ev_issued ev)) (filter (\<lambda>ev. ev_issued ev \<noteq> []) evs)"

lemma ws_moves_one:
  "move_items_out_bytes sz ws_batch_msg_send_size q = (out, q') \<Longrightarrow> length out \<le> 1"
  by (cases "q_items q")
    (auto simp: move_items_out_bytes_def ws_batch_msg_send_size_def SIZE_MAX_def move_items_out_iter_def Let_def)

lemma ws_issues_one: "send_step sz ws_batch_msg_send_size s ev s' \<Longrightarrow> flag_inv s \<Longrightarrow> length (ev_issued ev) \<le> 1"
proof (induction rule: send_step.induct)
  case (micro s s' ev)
  show ?case
  proof (cases "sd_pc s")
    case (Move_out b)
    obtain out q where mv: "move_items_out_bytes sz ws_batch_msg_send_size (sd_buffer s) = (out, q)" by fastforce
    note st = conjunct1 [OF move_out_step [OF micro(4) Move_out mv]] and wr = conjunct2 [OF move_out_step [OF micro(4) Move_out mv]]
    have "ev_issued ev = out" using wr micro(2,3) by (cases "out = []") (simp_all add: st Move_out)
    then show ?thesis using ws_moves_one [OF mv] by simp
  qed (use micro in simp_all)
qed (auto split: if_splits)

lemma ws_run_issues_one: "send_run sz ws_batch_msg_send_size s0 evs s \<Longrightarrow> flag_inv s0 \<Longrightarrow>
    flag_inv s \<and> (\<forall>ev\<in>set evs. length (ev_issued ev) \<le> 1)"
  by (induction rule: send_run.induct) (auto intro: flag_inv_step dest: ws_issues_one)

lemma ws_frames_are_messages: "\<forall>ev\<in>set evs. length (ev_issued ev) \<le> 1 \<Longrightarrow> ws_frames evs = concat (map ev_issued evs)"
  by (induction evs) (auto simp: ws_frames_def length_Suc_conv le_Suc_eq)

lemma ws_reads: "fold ws_read frames ([], can) = ([], can @ frames)"
  by (induction frames arbitrary: can) (simp_all add: ws_read_def ws_parse_msg_def)

text \<open>WebSocket keeps the messages apart: every write carries exactly one message, whatever is queued and however
  the threads interleave, so reading the frames yields the messages, in the order in which they were sent, and
  without an unpacker nothing is merged, split or lost.\<close>

theorem websocket_keeps_messages:
  assumes "send_run length ws_batch_msg_send_size sd_new evs s"
  shows "(\<forall>can. Issued can \<in> set evs \<longrightarrow> length can \<le> 1) \<and>
    fold ws_read (ws_frames evs) ([], []) = ([], concat (map ev_issued evs)) \<and>
    ((\<forall>ev\<in>set evs. ev_fifo ev) \<longrightarrow>
       concat (map ev_queued evs) = snd (fold ws_read (ws_frames evs) ([], [])) @ q_items (sd_buffer s))"
proof -
  have one: "\<forall>ev\<in>set evs. length (ev_issued ev) \<le> 1" using ws_run_issues_one [OF assms flag_inv_new] by blast
  have r: "fold ws_read (ws_frames evs) ([], []) = ([], concat (map ev_issued evs))"
    by (simp add: ws_reads ws_frames_are_messages [OF one])
  have "q_items (sd_buffer (sd_new :: bytes sender)) = []" by (simp add: sd_new_def q_new_def)
  then have "(\<forall>ev\<in>set evs. ev_fifo ev) \<longrightarrow> concat (map ev_queued evs) = concat (map ev_issued evs) @ q_items (sd_buffer s)"
    using run_flow [OF assms flag_inv_new] by simp
  moreover have "length can \<le> 1" if "Issued can \<in> set evs" for can using one that by force
  ultimately show ?thesis unfolding r by simp
qed

theorem websocket_keeps_messages_witness:
  "\<exists>evs s. send_run length ws_batch_msg_send_size sd_new evs s \<and> concat (map ev_queued evs) = [[0, 3, 7]] \<and>
     fold ws_read (ws_frames evs) ([], []) = ([], [[0, 3, 7]])"
proof -
  let ?evs = "[Started] @ [Queued [[0, 3, 7 :: u8]], Internal, Internal, Internal, Internal, Internal, Issued [[0, 3, 7]]]"
  have "send_run length ws_batch_msg_send_size sd_new ?evs (demo_written [0, 3, 7])"
    by (rule written_from_new) (simp_all add: SIZE_MAX_def)
  then show ?thesis using websocket_keeps_messages [of ?evs "demo_written [0, 3, 7]"] by (intro exI [of _ ?evs]) auto
qed

end
