(* ===== verification/Start_Lock.thy ===== *)
theory Start_Lock
  imports Ascs_Prelude
begin

text \<open>
  \<open>start\<close> and \<open>close\<close> of \<open>socket.h\<close> called by any number of threads. Both guard \<open>started_\<close> by \<open>start_atomic\<close> through
  \<open>scope_atomic_lock\<close> of \<open>base.h\<close>, whose \<open>lock\<close> only tries: \<open>start\<close> gives up, \<open>close\<close> sleeps and tries again. Theory Link_Life
  takes each of the two as one step; here they are the steps that other threads can see.
\<close>

section \<open>The lock\<close>

text \<open>The flag that all share and the \<open>_locked\<close> of one scope. \<open>test_and_set\<close> sets the flag whatever it was.\<close>

definition sal_lock :: "bool \<times> bool \<Rightarrow> bool \<times> bool" where
  "sal_lock l = (if \<not> snd l then (True, \<not> fst l) else l)"

definition sal_unlock :: "bool \<times> bool \<Rightarrow> bool \<times> bool" where
  "sal_unlock l = (if snd l then False else fst l, False)"

section \<open>The two functions in steps\<close>

text \<open>
  Where a thread is: \<open>Start_nested\<close> is inside \<open>do_start\<close>, whose \<open>on_connect\<close> shut the link down, and the strand ran
  \<open>close\<close> at once in the same thread, which \<open>dispatch\<close> may do.
\<close>

datatype call_pc =
    No_call
  | Start_test
  | Start_lock
  | Start_retest bool
  | Start_do
  | Start_nested
  | Start_store bool
  | Start_unlock bool
  | Close_lock
  | Close_test
  | Close_clear
  | Close_timer
  | Close_unlock

datatype start_event = Start_done | Close_done | Closed_for_good

text \<open>\<open>sk_overlap\<close> is not in the code: a call of one of the functions began while one of the other was under way.\<close>

record socket_starts =
  sk_started :: bool
  sk_closing :: bool
  sk_stopped :: bool
  sk_atomic :: bool
  sk_calls :: "call_pc list"
  sk_log :: "start_event list"
  sk_overlap :: bool

definition sk_new :: "nat \<Rightarrow> socket_starts" where
  "sk_new n = \<lparr>sk_started = False, sk_closing = False, sk_stopped = False, sk_atomic = False,
     sk_calls = replicate n No_call, sk_log = [], sk_overlap = False\<rparr>"

definition sk_say :: "start_event \<Rightarrow> socket_starts \<Rightarrow> socket_starts" where
  "sk_say e s = s\<lparr>sk_log := sk_log s @ [e]\<rparr>"

fun starting :: "call_pc \<Rightarrow> bool" where
  "starting Start_test = True"
| "starting Start_lock = True"
| "starting (Start_retest _) = True"
| "starting Start_do = True"
| "starting Start_nested = True"
| "starting (Start_store _) = True"
| "starting (Start_unlock _) = True"
| "starting _ = False"

fun ending :: "call_pc \<Rightarrow> bool" where
  "ending Close_lock = True"
| "ending Close_test = True"
| "ending Close_clear = True"
| "ending Close_timer = True"
| "ending Close_unlock = True"
| "ending _ = False"

text \<open>One step of \<open>start\<close>, \<open>ok\<close> being the result of \<open>do_start\<close>, and of \<open>close\<close>; a call that returns is \<open>No_call\<close> again.\<close>

fun start_step :: "bool \<Rightarrow> call_pc \<Rightarrow> socket_starts \<Rightarrow> call_pc \<times> socket_starts" where
  "start_step ok Start_test s =
     (if \<not> sk_started s \<and> \<not> sk_closing s \<and> \<not> sk_stopped s then Start_lock else No_call, s)"
| "start_step ok Start_lock s =
     (let (atomic, locked) = sal_lock (sk_atomic s, False) in (Start_retest locked, s\<lparr>sk_atomic := atomic\<rparr>))"
| "start_step ok (Start_retest locked) s = (if \<not> sk_started s \<and> locked then Start_do else Start_unlock locked, s)"
| "start_step ok Start_do s = (Start_store ok, s)"
| "start_step ok (Start_store re) s = (Start_unlock True, (if re then sk_say Start_done s else s)\<lparr>sk_started := re\<rparr>)"
| "start_step ok (Start_unlock locked) s = (No_call, s\<lparr>sk_atomic := fst (sal_unlock (sk_atomic s, locked))\<rparr>)"
| "start_step ok pc s = (pc, s)"

fun close_step :: "call_pc \<Rightarrow> socket_starts \<Rightarrow> call_pc \<times> socket_starts" where
  "close_step Close_lock s =
     (let (atomic, locked) = sal_lock (sk_atomic s, False) in (if locked then Close_test else Close_lock, s\<lparr>sk_atomic := atomic\<rparr>))"
| "close_step Close_test s = (if sk_started s then Close_clear else Close_unlock, s)"
| "close_step Close_clear s = (Close_timer, (sk_say Close_done s)\<lparr>sk_started := False\<rparr>)"
| "close_step Close_timer s =
     (Close_unlock, if sk_stopped s then (sk_say Closed_for_good s)\<lparr>sk_closing := False\<rparr> else s\<lparr>sk_closing := True\<rparr>)"
| "close_step Close_unlock s = (No_call, s\<lparr>sk_atomic := fst (sal_unlock (sk_atomic s, True))\<rparr>)"
| "close_step pc s = (pc, s)"

text \<open>
  A call of \<open>close\<close> inside \<open>do_start\<close> tries the lock that its own thread holds: \<open>test_and_set\<close> finds the flag set and leaves
  it set, for any number of tries.
\<close>

definition call_step :: "bool \<Rightarrow> call_pc \<Rightarrow> socket_starts \<Rightarrow> call_pc \<times> socket_starts" where
  "call_step ok pc s =
     (if pc = Start_nested then let (pc1, s1) = close_step Close_lock s in (if pc1 = Close_lock then Start_nested else pc1, s1)
      else if starting pc then start_step ok pc s
      else close_step pc s)"

lemma call_step_simps:
  "call_step ok No_call s = (No_call, s)"
  "call_step ok Start_test s = start_step ok Start_test s" "call_step ok Start_lock s = start_step ok Start_lock s"
  "call_step ok (Start_retest locked) s = start_step ok (Start_retest locked) s" "call_step ok Start_do s = start_step ok Start_do s"
  "call_step ok (Start_store re) s = start_step ok (Start_store re) s"
  "call_step ok (Start_unlock locked) s = start_step ok (Start_unlock locked) s"
  "call_step ok Start_nested s = (let (pc1, s1) = close_step Close_lock s in (if pc1 = Close_lock then Start_nested else pc1, s1))"
  "call_step ok Close_lock s = close_step Close_lock s" "call_step ok Close_test s = close_step Close_test s"
  "call_step ok Close_clear s = close_step Close_clear s" "call_step ok Close_timer s = close_step Close_timer s"
  "call_step ok Close_unlock s = close_step Close_unlock s"
  by (simp_all add: call_step_def)

definition run_call :: "bool \<Rightarrow> nat \<Rightarrow> socket_starts \<Rightarrow> socket_starts" where
  "run_call ok i s = (let (pc, s1) = call_step ok (sk_calls s ! i) s in s1\<lparr>sk_calls := (sk_calls s)[i := pc]\<rparr>)"

text \<open>\<open>closed\<close>: the handler of \<open>TIMER_DELAY_CLOSE\<close> when no asynchronous call is left.\<close>

inductive sk_step :: "socket_starts \<Rightarrow> socket_starts \<Rightarrow> bool" where
  call_start: "i < length (sk_calls s) \<Longrightarrow> sk_calls s ! i = No_call \<Longrightarrow>
    sk_step s (s\<lparr>sk_calls := (sk_calls s)[i := Start_test], sk_overlap := sk_overlap s \<or> (\<exists>pc\<in>set (sk_calls s). ending pc)\<rparr>)"
| call_close: "i < length (sk_calls s) \<Longrightarrow> sk_calls s ! i = No_call \<Longrightarrow>
    sk_step s (s\<lparr>sk_calls := (sk_calls s)[i := Close_lock], sk_overlap := sk_overlap s \<or> (\<exists>pc\<in>set (sk_calls s). starting pc)\<rparr>)"
| call_nested: "i < length (sk_calls s) \<Longrightarrow> sk_calls s ! i = Start_do \<Longrightarrow>
    sk_step s (s\<lparr>sk_calls := (sk_calls s)[i := Start_nested]\<rparr>)"
| call_runs: "i < length (sk_calls s) \<Longrightarrow> sk_step s (run_call ok i s)"
| closed: "sk_closing s \<Longrightarrow> sk_step s ((sk_say Closed_for_good s)\<lparr>sk_closing := False\<rparr>)"
| pump: "sk_step s (s\<lparr>sk_stopped := b\<rparr>)"

section \<open>Who holds the lock\<close>

fun holding :: "call_pc \<Rightarrow> bool" where
  "holding (Start_retest locked) = locked"
| "holding Start_do = True"
| "holding Start_nested = True"
| "holding (Start_store _) = True"
| "holding (Start_unlock locked) = locked"
| "holding Close_test = True"
| "holding Close_clear = True"
| "holding Close_timer = True"
| "holding Close_unlock = True"
| "holding _ = False"

text \<open>What a call knows of \<open>started_\<close> while it holds the lock, and of the closing timer if the calls do not overlap.\<close>

fun knows :: "call_pc \<Rightarrow> bool \<Rightarrow> bool" where
  "knows Start_do started = (\<not> started)"
| "knows Start_nested started = (\<not> started)"
| "knows (Start_store _) started = (\<not> started)"
| "knows Close_clear started = started"
| "knows Close_timer started = (\<not> started)"
| "knows _ started = True"

fun past_test :: "call_pc \<Rightarrow> bool" where
  "past_test Start_test = False"
| "past_test (Start_unlock _) = False"
| "past_test pc = starting pc"

definition owner_inv :: "nat option \<Rightarrow> socket_starts \<Rightarrow> bool" where
  "owner_inv ow s \<longleftrightarrow> sk_atomic s = (ow \<noteq> None) \<and> (\<forall>i. ow = Some i \<longrightarrow> i < length (sk_calls s)) \<and>
     (\<forall>i<length (sk_calls s). (holding (sk_calls s ! i) \<longleftrightarrow> ow = Some i) \<and> knows (sk_calls s ! i) (sk_started s))"

lemma sk_say_fields [simp]:
  "sk_started (sk_say e s) = sk_started s" "sk_closing (sk_say e s) = sk_closing s" "sk_stopped (sk_say e s) = sk_stopped s"
  "sk_atomic (sk_say e s) = sk_atomic s" "sk_calls (sk_say e s) = sk_calls s" "sk_overlap (sk_say e s) = sk_overlap s"
  by (simp_all add: sk_say_def)

definition events :: "start_event \<Rightarrow> socket_starts \<Rightarrow> nat" where
  "events e s = length (filter (\<lambda>e'. e' = e) (sk_log s))"

lemma knows_other: "\<not> holding pc \<Longrightarrow> knows pc b"
  by (cases pc) simp_all

lemma owner_update:
  assumes "owner_inv ow s" "i < length (sk_calls s)"
    and "ow = None \<or> ow = Some i" "sk_calls s' = (sk_calls s)[i := pc]"
    and "sk_atomic s' = (if holding pc then True else if ow = Some i then False else sk_atomic s)" "knows pc (sk_started s')"
  shows "owner_inv (if holding pc then Some i else None) s'"
  using assms
  by (auto simp: owner_inv_def nth_list_update knows_other split: if_splits)

lemma owner_same:
  assumes "owner_inv ow s" "i < length (sk_calls s)" "sk_calls s' = (sk_calls s)[i := pc]" "sk_atomic s' = sk_atomic s"
    and "sk_started s' = sk_started s \<or> ow = Some i" "holding pc = holding (sk_calls s ! i)" "knows pc (sk_started s')"
  shows "owner_inv ow s'"
  using assms knows_other unfolding owner_inv_def
  by (auto simp: nth_list_update split: if_splits)

lemma owner_run: "owner_inv ow s \<Longrightarrow> i < length (sk_calls s) \<Longrightarrow> \<exists>ow'. owner_inv ow' (run_call ok i s)"
proof -
  assume o: "owner_inv ow s" and i: "i < length (sk_calls s)"
  obtain pc s1 where c: "call_step ok (sk_calls s ! i) s = (pc, s1)" by fastforce
  have r: "run_call ok i s = s1\<lparr>sk_calls := (sk_calls s)[i := pc]\<rparr>" using c by (simp add: run_call_def)
  have h: "holding (sk_calls s ! i) \<longleftrightarrow> ow = Some i" "knows (sk_calls s ! i) (sk_started s)" "sk_atomic s = (ow \<noteq> None)"
    using o i by (auto simp: owner_inv_def)
  consider (same) "sk_atomic s1 = sk_atomic s" "sk_started s1 = sk_started s \<or> ow = Some i" "holding pc = holding (sk_calls s ! i)"
      "knows pc (sk_started s1)"
    | (change) "ow = None \<or> ow = Some i"
      "sk_atomic s1 = (if holding pc then True else if ow = Some i then False else sk_atomic s)" "knows pc (sk_started s1)"
    using c h by (cases "sk_calls s ! i") (auto simp: call_step_simps sal_lock_def sal_unlock_def split: if_splits)
  then show ?thesis
  proof cases
    case same
    then have "owner_inv ow (run_call ok i s)" unfolding r by (intro owner_same [OF o i]) simp_all
    then show ?thesis ..
  next
    case change
    then have "owner_inv (if holding pc then Some i else None) (run_call ok i s)"
      unfolding r by (intro owner_update [OF o i]) simp_all
    then show ?thesis ..
  qed
qed

text \<open>A call that was idle starts or ends without the lock.\<close>

lemma owner_step: "sk_step s s' \<Longrightarrow> owner_inv ow s \<Longrightarrow> \<exists>ow'. owner_inv ow' s'"
proof (induction rule: sk_step.induct)
  case (call_start i s)
  then have "owner_inv ow (s\<lparr>sk_calls := (sk_calls s)[i := Start_test], sk_overlap := sk_overlap s \<or> (\<exists>pc\<in>set (sk_calls s). ending pc)\<rparr>)"
    by (intro owner_same [OF call_start(3) call_start(1), where pc = Start_test]) simp_all
  then show ?case ..
next
  case (call_close i s)
  then have "owner_inv ow (s\<lparr>sk_calls := (sk_calls s)[i := Close_lock], sk_overlap := sk_overlap s \<or> (\<exists>pc\<in>set (sk_calls s). starting pc)\<rparr>)"
    by (intro owner_same [OF call_close(3) call_close(1), where pc = Close_lock]) simp_all
  then show ?case ..
next
  case (call_nested i s)
  then have "owner_inv ow (s\<lparr>sk_calls := (sk_calls s)[i := Start_nested]\<rparr>)"
    by (intro owner_same [OF call_nested(3) call_nested(1), where pc = Start_nested]) (use call_nested in \<open>auto simp: owner_inv_def\<close>)
  then show ?case ..
next
  case (call_runs i s ok)
  then show ?case by (intro owner_run)
next
  case (closed s)
  then show ?case by (auto simp: owner_inv_def sk_say_def)
next
  case (pump s b)
  then show ?case by (auto simp: owner_inv_def)
qed

lemma events_say [simp]: "events e (sk_say e' s) = events e s + of_bool (e = e')"
  by (auto simp: events_def sk_say_def)

lemma events_fields [simp]:
  "events e (s\<lparr>sk_started := b\<rparr>) = events e s" "events e (s\<lparr>sk_closing := b\<rparr>) = events e s" "events e (s\<lparr>sk_stopped := b\<rparr>) = events e s"
  "events e (s\<lparr>sk_atomic := b\<rparr>) = events e s" "events e (s\<lparr>sk_calls := cs\<rparr>) = events e s" "events e (s\<lparr>sk_overlap := b\<rparr>) = events e s"
  by (simp_all add: events_def)

lemma count_step: "sk_step s s' \<Longrightarrow> owner_inv ow s \<Longrightarrow>
    events Start_done s = events Close_done s + of_bool (sk_started s) \<Longrightarrow>
    events Start_done s' = events Close_done s' + of_bool (sk_started s')"
proof (induction rule: sk_step.induct)
  case (call_runs i s ok)
  have "knows (sk_calls s ! i) (sk_started s)" using call_runs by (simp add: owner_inv_def)
  then show ?case using call_runs(3)
    by (cases "sk_calls s ! i") (auto simp: run_call_def call_step_simps sal_lock_def split_beta)
qed auto

text \<open>As long as no call of one function overlapped one of the other.\<close>

definition calm_inv :: "socket_starts \<Rightarrow> bool" where
  "calm_inv s \<longleftrightarrow> sk_overlap s \<or>
     \<not> (\<exists>i<length (sk_calls s). \<exists>j<length (sk_calls s). starting (sk_calls s ! i) \<and> ending (sk_calls s ! j)) \<and>
     (sk_closing s \<longrightarrow> \<not> sk_started s \<and> (\<forall>i<length (sk_calls s). \<not> past_test (sk_calls s ! i) \<and> sk_calls s ! i \<noteq> Close_timer)) \<and>
     events Close_done s = events Closed_for_good s + of_bool (sk_closing s) +
       of_bool (\<exists>i<length (sk_calls s). sk_calls s ! i = Close_timer)"

lemma past_starting: "past_test pc \<Longrightarrow> starting pc"
  by (cases pc) simp_all

lemma ex_update:
  "i < length xs \<Longrightarrow> xs ! i \<noteq> a \<Longrightarrow> b \<noteq> a \<Longrightarrow> (\<exists>j<length xs. xs[i := b] ! j = a) \<longleftrightarrow> (\<exists>j<length xs. xs ! j = a)"
  by (metis nth_list_update)

lemma calm_update:
  assumes c: "calm_inv s" and i: "i < length (sk_calls s)" and s': "sk_calls s' = (sk_calls s)[i := pc]"
    and same: "sk_overlap s' = sk_overlap s" "sk_closing s' = sk_closing s"
    and ev: "events Close_done s' = events Close_done s" "events Closed_for_good s' = events Closed_for_good s"
    and pc: "sk_calls s ! i \<noteq> Close_timer" "pc \<noteq> Close_timer" "starting pc \<Longrightarrow> starting (sk_calls s ! i)" "ending pc \<Longrightarrow> ending (sk_calls s ! i)"
      "past_test pc \<Longrightarrow> past_test (sk_calls s ! i) \<or> \<not> sk_closing s" "sk_started s' \<Longrightarrow> sk_started s \<or> past_test (sk_calls s ! i)"
  shows "calm_inv s'"
proof (cases "sk_overlap s")
  case True
  then show ?thesis by (simp add: calm_inv_def same)
next
  case False
  note c' = c [unfolded calm_inv_def]
  have t: "(\<exists>j<length (sk_calls s). (sk_calls s)[i := pc] ! j = Close_timer) \<longleftrightarrow> (\<exists>j<length (sk_calls s). sk_calls s ! j = Close_timer)"
    using i pc(1,2) by (rule ex_update)
  have "\<not> (starting (sk_calls s' ! j) \<and> ending (sk_calls s' ! k))" if "j < length (sk_calls s)" "k < length (sk_calls s)" for j k
    using c' False that i pc(3,4) by (auto simp: s' nth_list_update)
  moreover have "\<not> sk_started s' \<and> (\<forall>j<length (sk_calls s). \<not> past_test (sk_calls s' ! j) \<and> sk_calls s' ! j \<noteq> Close_timer)" if "sk_closing s"
    using c' False that i pc by (auto simp: s' nth_list_update)
  ultimately show ?thesis using c' False t unfolding calm_inv_def by (simp add: s' same ev)
qed

lemma calm_run:
  assumes c: "calm_inv s" and o: "owner_inv ow s" and i: "i < length (sk_calls s)"
  shows "calm_inv (run_call ok i s)"
proof (cases "sk_overlap s")
  case True
  have "sk_overlap (run_call ok i s)" using True
    by (cases "sk_calls s ! i") (auto simp: run_call_def call_step_simps sal_lock_def split_beta)
  then show ?thesis by (simp add: calm_inv_def)
next
  case False
  have one: "j = i" if "j < length (sk_calls s)" "holding (sk_calls s ! j)" "holding (sk_calls s ! i)" for j
    using that o i by (auto simp: owner_inv_def)
  have k: "knows (sk_calls s ! j) (sk_started s)" if "j < length (sk_calls s)" for j using that o by (simp add: owner_inv_def)
  note c' = c [unfolded calm_inv_def] and k' = k [OF i]
  consider "sk_calls s ! i = Close_timer" | "sk_calls s ! i = Close_clear"
    | "sk_calls s ! i \<noteq> Close_timer" "sk_calls s ! i \<noteq> Close_clear" by blast
  then show ?thesis
  proof cases
    case 1
    then have n: "\<not> starting (sk_calls s ! j)" if "j < length (sk_calls s)" for j
      using c' False i that by force
    have "\<not> sk_closing s" "\<exists>i<length (sk_calls s). sk_calls s ! i = Close_timer" using c' False 1 i by auto
    moreover have "sk_calls s ! j \<noteq> Close_timer" if "j < length (sk_calls s)" "j \<noteq> i" for j using one [OF that(1)] that(2) 1 by auto
    ultimately show ?thesis using 1 False c' k' i n
      by (auto simp: calm_inv_def run_call_def call_step_simps nth_list_update dest: past_starting)
  next
    case 2
    have "sk_calls s ! j \<noteq> Close_timer" if "j < length (sk_calls s)" for j using one [OF that] 2 by auto
    moreover have "\<not> starting (sk_calls s ! j)" if "j < length (sk_calls s)" for j using c' False i that 2 by force
    ultimately show ?thesis using 2 False c' k' i by (auto simp: calm_inv_def run_call_def call_step_simps nth_list_update)
  next
    case 3
    obtain pc s1 where st: "call_step ok (sk_calls s ! i) s = (pc, s1)" by fastforce
    have r: "run_call ok i s = s1\<lparr>sk_calls := (sk_calls s)[i := pc]\<rparr>" using st by (simp add: run_call_def)
    have n: "sk_calls s ! i = Start_nested \<Longrightarrow> sk_atomic s" using o i by (auto simp: owner_inv_def)
    have "sk_overlap s1 = sk_overlap s" "sk_closing s1 = sk_closing s" "events Close_done s1 = events Close_done s"
      "events Closed_for_good s1 = events Closed_for_good s" "pc \<noteq> Close_timer" "starting pc \<Longrightarrow> starting (sk_calls s ! i)"
      "ending pc \<Longrightarrow> ending (sk_calls s ! i)" "past_test pc \<Longrightarrow> past_test (sk_calls s ! i) \<or> \<not> sk_closing s"
      "sk_started s1 \<Longrightarrow> sk_started s \<or> past_test (sk_calls s ! i)"
      using 3 st n by (cases "sk_calls s ! i"; auto simp: call_step_simps sal_lock_def split: if_splits; fail)+
    then show ?thesis unfolding r by (intro calm_update [OF c i, where pc = pc]) (use 3 in simp_all)
  qed
qed

lemma calm_step: "sk_step s s' \<Longrightarrow> owner_inv ow s \<Longrightarrow> calm_inv s \<Longrightarrow> calm_inv s'"
proof (induction rule: sk_step.induct)
  case (call_start i s)
  have t: "(\<exists>j<length (sk_calls s). (sk_calls s)[i := Start_test] ! j = Close_timer) \<longleftrightarrow> (\<exists>j<length (sk_calls s). sk_calls s ! j = Close_timer)"
    using call_start by (intro ex_update) simp_all
  have "\<not> ending (sk_calls s ! j)" if "\<not> (\<exists>pc\<in>set (sk_calls s). ending pc)" "j < length (sk_calls s)" for j using that by auto
  then show ?case using call_start t unfolding calm_inv_def by (auto simp: nth_list_update)
next
  case (call_close i s)
  have t: "(\<exists>j<length (sk_calls s). (sk_calls s)[i := Close_lock] ! j = Close_timer) \<longleftrightarrow> (\<exists>j<length (sk_calls s). sk_calls s ! j = Close_timer)"
    using call_close by (intro ex_update) simp_all
  have "\<not> starting (sk_calls s ! j)" if "\<not> (\<exists>pc\<in>set (sk_calls s). starting pc)" "j < length (sk_calls s)" for j using that by auto
  then show ?case using call_close t unfolding calm_inv_def by (auto simp: nth_list_update)
next
  case (call_nested i s)
  show ?case by (rule calm_update [OF call_nested(4) call_nested(1), where pc = Start_nested]) (simp_all add: call_nested)
next
  case (call_runs i s ok)
  then show ?case by (intro calm_run)
next
  case (closed s)
  then show ?case by (auto simp: calm_inv_def)
next
  case (pump s b)
  then show ?case by (simp add: calm_inv_def)
qed

definition sk_inv :: "socket_starts \<Rightarrow> bool" where
  "sk_inv s \<longleftrightarrow> (\<exists>ow. owner_inv ow s) \<and> events Start_done s = events Close_done s + of_bool (sk_started s) \<and> calm_inv s"

interpretation sk: step_invariant "\<lambda>s. \<exists>n. s = sk_new n" sk_step sk_inv
proof
  show "sk_inv s" if "\<exists>n. s = sk_new n" for s
  proof -
    from that obtain n where s: "s = sk_new n" ..
    have "owner_inv None s" by (simp add: s owner_inv_def sk_new_def)
    then show ?thesis by (auto simp: s sk_inv_def calm_inv_def sk_new_def events_def)
  qed
  show "sk_step s t \<Longrightarrow> sk_inv s \<Longrightarrow> sk_inv t" for s t
    unfolding sk_inv_def using owner_step count_step calm_step by blast
qed

section \<open>Properties\<close>

text \<open>C37. However many threads call \<open>start\<close> and \<open>close\<close>: at most one of them is between taking and releasing the lock, \<open>do_start\<close>
  is entered only by a thread that holds it while the socket is not started, and successful starts and effective closes
  alternate. When no call of one function overlaps a call of the other, a started socket is never closing and every
  effective close is answered by one \<open>on_close\<close>.\<close>

theorem start_close_exclusive:
  assumes "reach (\<lambda>s. \<exists>n. s = sk_new n) sk_step s"
  shows "(\<forall>i j. i < length (sk_calls s) \<and> j < length (sk_calls s) \<and> holding (sk_calls s ! i) \<and> holding (sk_calls s ! j) \<longrightarrow> i = j) \<and>
    (sk_atomic s \<longleftrightarrow> (\<exists>pc\<in>set (sk_calls s). holding pc)) \<and>
    (\<forall>pc\<in>set (sk_calls s). pc = Start_do \<longrightarrow> \<not> sk_started s) \<and>
    events Start_done s = events Close_done s + of_bool (sk_started s) \<and>
    (\<not> sk_overlap s \<longrightarrow> \<not> (sk_started s \<and> sk_closing s) \<and>
       ((\<forall>pc\<in>set (sk_calls s). pc = No_call) \<longrightarrow>
         events Start_done s = events Closed_for_good s + of_bool (sk_started s) + of_bool (sk_closing s)))"
proof -
  obtain ow where ow: "owner_inv ow s" and i: "events Start_done s = events Close_done s + of_bool (sk_started s)" "calm_inv s"
    using sk.reachable_inv [OF assms] by (auto simp: sk_inv_def)
  have "sk_atomic s \<longleftrightarrow> (\<exists>pc\<in>set (sk_calls s). holding pc)"
    using ow by (auto simp: owner_inv_def in_set_conv_nth) (metis nth_mem)
  moreover have "\<forall>pc\<in>set (sk_calls s). pc = Start_do \<longrightarrow> \<not> sk_started s"
    using ow by (auto simp: owner_inv_def in_set_conv_nth)
  moreover have "(\<forall>pc\<in>set (sk_calls s). pc = No_call) \<Longrightarrow> \<not> (\<exists>i<length (sk_calls s). sk_calls s ! i = Close_timer)"
    using nth_mem by fastforce
  ultimately show ?thesis using ow i by (auto simp: owner_inv_def calm_inv_def)
qed

text \<open>Two threads, the first of which has started the socket and closed it again.\<close>

definition sk_runs :: "(bool \<times> nat) list \<Rightarrow> socket_starts \<Rightarrow> socket_starts" where
  "sk_runs rs s = fold (\<lambda>(ok, i) s. run_call ok i s) rs s"

lemma sk_runs_reach:
  "reach start sk_step s \<Longrightarrow> \<forall>(ok, i)\<in>set rs. i < length (sk_calls s) \<Longrightarrow> reach start sk_step (sk_runs rs s)"
proof (induction rs arbitrary: s)
  case Nil
  then show ?case by (simp add: sk_runs_def)
next
  case (Cons r rs)
  obtain ok i where r: "r = (ok, i)" by fastforce
  have "reach start sk_step (run_call ok i s)" using Cons.prems r by (auto intro: reach_step call_runs)
  moreover have "length (sk_calls (run_call ok i s)) = length (sk_calls s)" by (simp add: run_call_def split_beta)
  ultimately show ?case using Cons r by (simp add: sk_runs_def)
qed

section \<open>Every call returns\<close>

text \<open>
  A step that brings a call nearer to its end: any step of a call but a try of \<open>close\<close> that fails. A call nested in
  \<open>do_start\<close> never gets the lock, which its own thread holds.
\<close>

inductive sk_drive :: "socket_starts \<Rightarrow> socket_starts \<Rightarrow> bool" where
  drive: "i < length (sk_calls s) \<Longrightarrow> sk_calls s ! i \<notin> {No_call, Start_nested} \<Longrightarrow>
    (sk_calls s ! i = Close_lock \<Longrightarrow> \<not> sk_atomic s) \<Longrightarrow> sk_drive s (run_call ok i s)"

fun call_work :: "call_pc \<Rightarrow> nat" where
  "call_work Start_test = 6"
| "call_work Start_lock = 5"
| "call_work (Start_retest _) = 4"
| "call_work Start_do = 3"
| "call_work (Start_store _) = 2"
| "call_work (Start_unlock _) = 1"
| "call_work Close_lock = 5"
| "call_work Close_test = 4"
| "call_work Close_clear = 3"
| "call_work Close_timer = 2"
| "call_work Close_unlock = 1"
| "call_work _ = 0"

definition sk_work :: "socket_starts \<Rightarrow> nat" where
  "sk_work s = sum_list (map call_work (sk_calls s))"

lemma work_update: "i < length xs \<Longrightarrow> f y < (f (xs ! i) :: nat) \<Longrightarrow> sum_list (map f (xs[i := y])) < sum_list (map f xs)"
proof (induction xs arbitrary: i)
  case (Cons x xs)
  then show ?case by (cases i) auto
qed simp

lemma sk_drive_work: "sk_drive s s' \<Longrightarrow> sk_work s' < sk_work s"
proof (induction rule: sk_drive.induct)
  case (drive i s ok)
  obtain pc s1 where c: "call_step ok (sk_calls s ! i) s = (pc, s1)" by fastforce
  have "call_work pc < call_work (sk_calls s ! i)"
    using drive(2,3) c by (cases "sk_calls s ! i") (auto simp: call_step_simps sal_lock_def split: if_splits)
  then show ?case using drive(1) c by (simp add: sk_work_def run_call_def work_update)
qed

interpretation sk_run: step_measure sk_drive "\<lambda>w s. sk_work s = w"
  by unfold_locales (use sk_drive_work in blast)

text \<open>No call of \<open>start\<close> or \<open>close\<close> waits for ever: as long as no thread closes the socket from inside \<open>do_start\<close>, some
  call can go on whenever one is under way, and after at most \<open>sk_work\<close> steps, six for each call, all of them have returned.\<close>

theorem start_close_return:
  assumes "reach (\<lambda>s. \<exists>n. s = sk_new n) sk_step s" and "Start_nested \<notin> set (sk_calls s)"
  shows "((\<exists>pc\<in>set (sk_calls s). pc \<noteq> No_call) \<longrightarrow> (\<exists>s'. sk_drive s s')) \<and>
    (\<forall>n s'. (sk_drive ^^ n) s s' \<longrightarrow> n \<le> sk_work s)"
proof -
  obtain ow where ow: "owner_inv ow s" using sk.reachable_inv [OF assms(1)] by (auto simp: sk_inv_def)
  have "\<exists>s'. sk_drive s s'" if p: "i < length (sk_calls s)" "sk_calls s ! i \<noteq> No_call" for i
  proof (cases ow)
    case None
    then have "\<not> sk_atomic s" using ow by (simp add: owner_inv_def)
    then have "sk_drive s (run_call True i s)" using p assms(2) nth_mem by (intro drive) fastforce+
    then show ?thesis ..
  next
    case (Some j)
    then have "j < length (sk_calls s)" "holding (sk_calls s ! j)" using ow by (auto simp: owner_inv_def)
    then have "sk_drive s (run_call True j s)" using assms(2) nth_mem by (intro drive) fastforce+
    then show ?thesis ..
  qed
  then have "(\<exists>pc\<in>set (sk_calls s). pc \<noteq> No_call) \<longrightarrow> (\<exists>s'. sk_drive s s')" by (auto simp: in_set_conv_nth)
  moreover have "\<forall>n s'. (sk_drive ^^ n) s s' \<longrightarrow> n \<le> sk_work s" using sk_run.bounded_steps by fastforce
  ultimately show ?thesis by blast
qed

section \<open>Where it goes wrong\<close>

text \<open>
  One thread starts, another one starts and closes while the first is between its test of the closing timer, which is made
  without the lock, and the lock: the socket is started while it is closing. \<open>demo_starts\<close> is the state before that.
\<close>

definition demo_starts :: socket_starts where
  "demo_starts = sk_runs [(True, 0), (True, 1), (True, 1), (True, 1), (True, 1), (True, 1), (True, 1)]
     ((sk_new 2)\<lparr>sk_calls := [Start_test, Start_test]\<rparr>)"

lemma demo_starts_val:
  "demo_starts = \<lparr>sk_started = True, sk_closing = False, sk_stopped = False, sk_atomic = False, sk_calls = [Start_lock, No_call],
     sk_log = [Start_done], sk_overlap = False\<rparr>"
  by (simp add: demo_starts_def sk_runs_def sk_new_def run_call_def call_step_simps sal_lock_def sal_unlock_def sk_say_def numeral_2_eq_2)

lemma demo_starts_reach: "reach (\<lambda>s. \<exists>n. s = sk_new n) sk_step demo_starts"
proof -
  let ?s1 = "(sk_new 2)\<lparr>sk_calls := [Start_test, No_call]\<rparr>"
  have "reach (\<lambda>s. \<exists>n. s = sk_new n) sk_step (sk_new 2)" by (rule reach_init) blast
  moreover have "sk_step (sk_new 2) ?s1"
    using call_start [of 0 "sk_new 2"] by (simp add: sk_new_def numeral_2_eq_2)
  moreover have "sk_step ?s1 ((sk_new 2)\<lparr>sk_calls := [Start_test, Start_test]\<rparr>)"
    using call_start [of 1 ?s1] by (simp add: sk_new_def numeral_2_eq_2)
  ultimately show ?thesis unfolding demo_starts_def by (intro sk_runs_reach) (auto intro: reach_step)
qed

theorem start_close_exclusive_witness:
  "\<not> (sk_started demo_starts \<and> sk_closing demo_starts) \<and> events Start_done demo_starts = 1"
  using start_close_exclusive [OF demo_starts_reach] by (auto simp: demo_starts_val events_def)

theorem start_close_return_witness:
  "(\<exists>s'. sk_drive demo_starts s') \<and> \<not> (\<exists>n s'. 5 < n \<and> (sk_drive ^^ n) demo_starts s')"
proof -
  have "Start_nested \<notin> set (sk_calls demo_starts)" "sk_work demo_starts = 5" by (simp_all add: demo_starts_val sk_work_def)
  with start_close_return [OF demo_starts_reach] show ?thesis by (force simp: demo_starts_val)
qed

lemma started_while_closing:
  "\<exists>s. reach (\<lambda>s. \<exists>n. s = sk_new n) sk_step s \<and> sk_started s \<and> sk_closing s"
proof -
  let ?s1 = "demo_starts\<lparr>sk_calls := [Start_lock, Close_lock], sk_overlap := True\<rparr>"
  let ?rs = "[(True, 1), (True, 1), (True, 1), (True, 1), (True, 1), (True, 0), (True, 0), (True, 0), (True, 0)]"
  have "sk_step demo_starts ?s1" using call_close [of 1 demo_starts] by (simp add: demo_starts_val)
  then have "reach (\<lambda>s. \<exists>n. s = sk_new n) sk_step (sk_runs ?rs ?s1)"
    using demo_starts_reach by (intro sk_runs_reach) (auto intro: reach_step simp: demo_starts_val)
  moreover have "sk_started (sk_runs ?rs ?s1) \<and> sk_closing (sk_runs ?rs ?s1)"
    by (simp add: sk_runs_def demo_starts_val run_call_def call_step_simps sal_lock_def sal_unlock_def sk_say_def)
  ultimately show ?thesis by blast
qed

text \<open>
  A shutdown called from \<open>on_connect\<close>, in the thread that starts the link, never returns when the strand runs it at once, and
  the lock is never released, so all other calls of \<open>close\<close> try for ever.
\<close>

lemma nested_close_hangs: "sk_step\<^sup>*\<^sup>* s s' \<Longrightarrow> sk_inv s \<Longrightarrow> i < length (sk_calls s) \<Longrightarrow> sk_calls s ! i = Start_nested \<Longrightarrow>
    i < length (sk_calls s') \<and> sk_calls s' ! i = Start_nested \<and> sk_atomic s'"
proof (induction rule: rtranclp_induct)
  case base
  then show ?case by (auto simp: sk_inv_def owner_inv_def)
next
  case (step s1 s2)
  have "i < length (sk_calls s2) \<and> sk_calls s2 ! i = Start_nested"
    using step(2) step.IH [OF step.prems]
    by (cases rule: sk_step.cases) (auto simp: nth_list_update run_call_def call_step_simps sal_lock_def split_beta)
  moreover have "sk_inv s2" using sk.steps_inv [OF _ step.prems(1)] step(1,2) by (meson rtranclp.rtrancl_into_rtrancl)
  ultimately show ?case by (auto simp: sk_inv_def owner_inv_def)
qed

end
