(* ===== verification/Batch_Dispatch.thy ===== *)
theory Batch_Dispatch
  imports Msg_Dispatch
begin

text \<open>
  Two other ways to hand messages to the application (\<open>socket.h\<close>): with \<open>ASCS_DISPATCH_BATCH_MSG\<close> the dispatcher passes the
  whole \<open>recv_buffer\<close> to \<open>on_msg_handle\<close>, which removes what it has handled, while the read handler may add to it; with
  \<open>ASCS_SYNC_DISPATCH\<close> the read handler first offers the messages to \<open>on_msg\<close>. Reading, the timers and everything else are
  those of theory Msg_Dispatch.
\<close>

section \<open>State\<close>

text \<open>
  The dispatcher between its accesses to what it shares: \<open>Bt_found\<close> has seen messages and is about to set \<open>dispatching\<close>,
  \<open>Bt_handling\<close> is inside \<open>on_msg_handle\<close>, \<open>Bt_empty\<close> has seen none and is about to clear \<open>dispatching\<close>.
\<close>

datatype batch_pc = Bt_idle | Bt_found | Bt_handling | Bt_empty

record 'm batch =
  bt_recv :: "'m receiver"
  bt_pc :: batch_pc

definition bt_new :: "'m batch" where
  "bt_new = \<lparr>bt_recv = rv_new, bt_pc = Bt_idle\<rparr>"

section \<open>The batch dispatcher\<close>

definition batch_dispatch_begin :: "'m batch \<Rightarrow> 'm batch" where
  "batch_dispatch_begin s = s\<lparr>bt_pc := if q_empty (rv_buffer (bt_recv s)) then Bt_empty else Bt_found\<rparr>"

definition batch_dispatching :: "'m batch \<Rightarrow> 'm batch" where
  "batch_dispatching s = s\<lparr>bt_recv := (bt_recv s)\<lparr>rv_dispatching := True\<rparr>, bt_pc := Bt_handling\<rparr>"

definition batch_dispatch_end :: "nat \<Rightarrow> 'm batch \<Rightarrow> 'm batch" where
  "batch_dispatch_end re s =
     (let r = bt_recv s
      in s\<lparr>bt_recv := (if re = 0 then r\<lparr>rv_hold := True\<rparr> else r\<lparr>rv_dispatching := False, rv_tasks := rv_tasks r + 1\<rparr>), bt_pc := Bt_idle\<rparr>)"

definition batch_dispatch_empty :: "'m batch \<Rightarrow> 'm batch" where
  "batch_dispatch_empty s = s\<lparr>bt_recv := (bt_recv s)\<lparr>rv_dispatching := False\<rparr>, bt_pc := Bt_idle\<rparr>"

text \<open>
  \<open>handle_msg\<close> with \<open>on_msg\<close>: it left \<open>rest\<close> of the messages and answered \<open>re\<close>; the number of bytes is counted again only
  when it answered that it handled some.
\<close>

definition sync_handle_msg_in :: "('m \<Rightarrow> nat) \<Rightarrow> nat \<Rightarrow> 'm list \<Rightarrow> 'm list \<Rightarrow> 'm receiver \<Rightarrow> 'm receiver" where
  "sync_handle_msg_in sz re temp_msg_can rest s =
     (if temp_msg_can = [] then handle_msg_in sz [] s
      else let size_in_byte = (if re > 0 then get_size_in_byte sz rest else get_size_in_byte sz temp_msg_can)
           in if (if re > 0 then rest \<noteq> [] else True)
              then s\<lparr>rv_buffer := move_items_in sz rest size_in_byte (rv_buffer s), rv_rw := Rw_dispatch_msg\<rparr>
              else s\<lparr>rv_rw := Rw_handled_msg\<rparr>)"

section \<open>All interleavings\<close>

text \<open>\<open>On_msg\<close>: what a read brought, what \<open>on_msg\<close> handled, and what it left; \<open>Batch_end\<close>: whether the dispatching failed, and left messages.\<close>

datatype 'm batch_event =
    Other "'m recv_event"
  | Batch_handled 'm
  | Batch_end bool bool
  | On_msg "'m list" "'m list" "'m list"
  | Batch_tau

text \<open>
  \<open>other\<close>: everything but the dispatcher, as in theory Msg_Dispatch. \<open>on_msg_handle\<close> removes messages from the front, one at
  a time; that it takes all of them at once by \<open>swap\<close> is a special case.
\<close>

inductive batch_step :: "('m \<Rightarrow> nat) \<Rightarrow> nat \<Rightarrow> 'm batch \<Rightarrow> 'm batch_event \<Rightarrow> 'm batch \<Rightarrow> bool"
  for sz :: "'m \<Rightarrow> nat" and rbs :: nat where
  other: "recv_step sz rbs ((bt_recv s)\<lparr>rv_tasks := 0\<rparr>) ev r \<Longrightarrow>
    batch_step sz rbs s (Other ev) (s\<lparr>bt_recv := r\<lparr>rv_tasks := rv_tasks r + rv_tasks (bt_recv s)\<rparr>\<rparr>)"
| sync_received: "rv_rw (bt_recv s) = Rw_idle \<Longrightarrow> rv_reading (bt_recv s) \<Longrightarrow> mset msgs = mset handled + mset rest \<Longrightarrow>
    (re = 0 \<Longrightarrow> rest = msgs) \<Longrightarrow>
    batch_step sz rbs s (On_msg msgs handled rest)
      (s\<lparr>bt_recv := sync_handle_msg_in sz re msgs rest ((bt_recv s)\<lparr>rv_reading := False\<rparr>)\<rparr>)"
| task: "bt_pc s = Bt_idle \<Longrightarrow> 0 < rv_tasks (bt_recv s) \<Longrightarrow>
    batch_step sz rbs s Batch_tau (batch_dispatch_begin (s\<lparr>bt_recv := (bt_recv s)\<lparr>rv_tasks := rv_tasks (bt_recv s) - 1\<rparr>\<rparr>))"
| found: "bt_pc s = Bt_found \<Longrightarrow> batch_step sz rbs s Batch_tau (batch_dispatching s)"
| handles: "bt_pc s = Bt_handling \<Longrightarrow> try_dequeue sz (rv_buffer (bt_recv s)) = (Some msg, q) \<Longrightarrow>
    batch_step sz rbs s (Batch_handled msg) (s\<lparr>bt_recv := (bt_recv s)\<lparr>rv_buffer := q\<rparr>\<rparr>)"
| returns: "bt_pc s = Bt_handling \<Longrightarrow>
    batch_step sz rbs s (Batch_end (re = 0) (q_items (rv_buffer (bt_recv s)) \<noteq> [])) (batch_dispatch_end re s)"
| none: "bt_pc s = Bt_empty \<Longrightarrow> batch_step sz rbs s Batch_tau (batch_dispatch_empty s)"

inductive batch_run :: "('m \<Rightarrow> nat) \<Rightarrow> nat \<Rightarrow> 'm batch \<Rightarrow> 'm batch_event list \<Rightarrow> 'm batch \<Rightarrow> bool"
  for sz :: "'m \<Rightarrow> nat" and rbs :: nat and s0 :: "'m batch" where
  batch_nil: "batch_run sz rbs s0 [] s0"
| batch_snoc: "batch_run sz rbs s0 evs s \<Longrightarrow> batch_step sz rbs s ev s' \<Longrightarrow> batch_run sz rbs s0 (evs @ [ev]) s'"

fun bt_received :: "'m batch_event \<Rightarrow> 'm list" where
  "bt_received (Other ev) = ev_received ev"
| "bt_received (On_msg msgs handled rest) = msgs"
| "bt_received _ = []"

fun bt_handled :: "'m batch_event \<Rightarrow> 'm list" where
  "bt_handled (Batch_handled m) = [m]"
| "bt_handled (On_msg msgs handled rest) = handled"
| "bt_handled _ = []"

fun bt_taken :: "'m batch_event \<Rightarrow> 'm list" where
  "bt_taken (Other ev) = ev_taken ev"
| "bt_taken _ = []"

text \<open>Events after which no promise is made: users taking messages out, closing, and a failed dispatching that left nothing.\<close>

fun bt_calm :: "'m batch_event \<Rightarrow> bool" where
  "bt_calm (Other ev) = (ev_taken ev = [] \<and> ev \<noteq> Link_closed)"
| "bt_calm (Batch_end failed left) = (failed \<longrightarrow> left)"
| "bt_calm _ = True"

fun bt_direct :: "'m batch_event \<Rightarrow> bool" where
  "bt_direct (On_msg msgs handled rest) = (handled = [] \<and> rest = msgs)"
| "bt_direct _ = True"

definition bt_items :: "'m batch \<Rightarrow> 'm list" where
  "bt_items s = q_items (rv_buffer (bt_recv s))"

definition batch_inv :: "'m batch \<Rightarrow> bool" where
  "batch_inv s \<longleftrightarrow> rv_msg (bt_recv s) = None \<and> \<not> rv_handling (bt_recv s)"

definition batch_awake :: "'m batch \<Rightarrow> bool" where
  "batch_awake s \<longleftrightarrow>
     (rv_dispatching (bt_recv s) \<longrightarrow> bt_pc s = Bt_handling \<or> bt_items s \<noteq> []) \<and> (bt_pc s = Bt_empty \<longrightarrow> \<not> rv_dispatching (bt_recv s)) \<and>
     (rv_dispatching (bt_recv s) \<longrightarrow> bt_pc s \<in> {Bt_found, Bt_handling} \<or> 0 < rv_tasks (bt_recv s) \<or> rv_hold (bt_recv s)) \<and>
     (bt_items s \<noteq> [] \<longrightarrow> bt_pc s \<in> {Bt_found, Bt_handling} \<or> 0 < rv_tasks (bt_recv s) \<or> rv_hold (bt_recv s) \<or>
       rv_rw (bt_recv s) = Rw_dispatch_msg)"

text \<open>The part of a step that Msg_Dispatch describes, when the dispatcher there has nothing to do.\<close>

lemma other_step:
  assumes "recv_step sz rbs r0 ev r" "rv_tasks r0 = 0" "\<not> rv_handling r0" "rv_msg r0 = None"
  shows "rv_msg r = None \<and> \<not> rv_handling r \<and> ev_handled ev = [] \<and>
    mset (q_items (rv_buffer r0)) + mset (ev_received ev) = mset (ev_taken ev) + mset (q_items (rv_buffer r)) \<and>
    (ev_taken ev = [] \<longrightarrow> q_items (rv_buffer r0) @ ev_received ev = q_items (rv_buffer r)) \<and>
    rv_dispatching r = rv_dispatching r0 \<and> (ev \<noteq> Link_closed \<longrightarrow> rv_hold r0 \<longrightarrow> rv_hold r \<or> 0 < rv_tasks r) \<and>
    (q_items (rv_buffer r) \<noteq> q_items (rv_buffer r0) \<and> ev_taken ev = [] \<longrightarrow> rv_rw r = Rw_dispatch_msg) \<and>
    (rv_rw r0 = Rw_dispatch_msg \<longrightarrow> rv_rw r = Rw_dispatch_msg \<or> rv_dispatching r0 \<or> 0 < rv_tasks r)"
  using assms
proof (induction rule: recv_step.induct)
  case (rw_micro s ev ec)
  then show ?case by (cases "rv_rw s") (auto simp: receiver_defs split: if_splits)
next
  case (pop_all s can s')
  then show ?case using pop_recv_all [OF pop_all(1)] by auto
next
  case (pop_first s msg s')
  then show ?case using pop_recv_first [OF pop_first(1)] by auto
qed (auto simp: receiver_defs split: if_splits)

lemma batch_step_flow:
  "batch_step sz rbs s ev s' \<Longrightarrow> batch_inv s \<Longrightarrow>
     batch_inv s' \<and>
     mset (bt_items s) + mset (bt_received ev) = mset (bt_handled ev) + mset (bt_taken ev) + mset (bt_items s') \<and>
     (bt_taken ev = [] \<and> bt_direct ev \<longrightarrow> bt_items s @ bt_received ev = bt_handled ev @ bt_items s')"
proof (induction rule: batch_step.induct)
  case (other s ev r)
  then show ?case using other_step [OF other(1)] by (auto simp: batch_inv_def bt_items_def)
next
  case (sync_received s msgs handled rest re)
  then show ?case
    by (cases "re = 0") (auto simp: batch_inv_def bt_items_def sync_handle_msg_in_def handle_msg_in_def Let_def)
next
  case (task s)
  then show ?case by (simp add: batch_inv_def bt_items_def batch_dispatch_begin_def)
next
  case (handles s msg q)
  then show ?case using try_dequeue_cases [OF handles(2)] by (auto simp: batch_inv_def bt_items_def)
qed (auto simp: batch_inv_def bt_items_def batch_dispatching_def batch_dispatch_end_def batch_dispatch_empty_def Let_def)

lemma batch_step_awake: "batch_step sz rbs s ev s' \<Longrightarrow> batch_inv s \<Longrightarrow> bt_calm ev \<Longrightarrow> batch_awake s \<Longrightarrow> batch_awake s'"
proof (induction rule: batch_step.induct)
  case (other s ev r)
  have o: "rv_msg r = None" "rv_dispatching r = rv_dispatching (bt_recv s)" "rv_hold (bt_recv s) \<longrightarrow> rv_hold r \<or> 0 < rv_tasks r"
    "bt_items s @ ev_received ev = q_items (rv_buffer r)" "q_items (rv_buffer r) \<noteq> bt_items s \<longrightarrow> rv_rw r = Rw_dispatch_msg"
    "rv_rw (bt_recv s) = Rw_dispatch_msg \<longrightarrow> rv_rw r = Rw_dispatch_msg \<or> rv_dispatching (bt_recv s) \<or> 0 < rv_tasks r"
    using other_step [OF other(1)] other(2,3) by (auto simp: batch_inv_def bt_items_def)
  have items: "bt_items s \<noteq> [] \<Longrightarrow> q_items (rv_buffer r) \<noteq> []" using o(4) by (cases "bt_items s") auto
  show ?case
    unfolding batch_awake_def bt_items_def
    using other(4) [unfolded batch_awake_def] o items by (auto simp: bt_items_def)
next
  case (sync_received s msgs handled rest re)
  then show ?case
    by (cases "re = 0") (auto simp: batch_awake_def bt_items_def sync_handle_msg_in_def handle_msg_in_def Let_def)
next
  case (task s)
  then show ?case by (auto simp: batch_awake_def bt_items_def batch_dispatch_begin_def q_empty_def)
next
  case (found s)
  then show ?case by (auto simp: batch_awake_def bt_items_def batch_dispatching_def)
next
  case (handles s msg q)
  then show ?case using try_dequeue_cases [OF handles(2)] by (auto simp: batch_awake_def bt_items_def)
next
  case (returns s re)
  then show ?case by (auto simp: batch_awake_def bt_items_def batch_dispatch_end_def Let_def)
next
  case (none s)
  then show ?case by (auto simp: batch_awake_def bt_items_def batch_dispatch_empty_def)
qed

lemma mset_chain:
  fixes a :: "'a multiset"
  assumes "a + r = h + t + i" "i + r' = h' + t' + i'"
  shows "a + (r + r') = h + h' + (t + t') + i'"
proof -
  have "a + (r + r') = h + t + (i + r')" using assms(1) by (simp add: add.assoc [symmetric])
  then show ?thesis unfolding assms(2) by (simp add: ac_simps)
qed

lemma batch_run_flow:
  "batch_run sz rbs s0 evs s \<Longrightarrow> batch_inv s0 \<Longrightarrow>
     batch_inv s \<and>
     mset (bt_items s0) + mset (concat (map bt_received evs)) =
       mset (concat (map bt_handled evs)) + mset (concat (map bt_taken evs)) + mset (bt_items s) \<and>
     ((\<forall>ev\<in>set evs. bt_taken ev = [] \<and> bt_direct ev) \<longrightarrow>
       bt_items s0 @ concat (map bt_received evs) = concat (map bt_handled evs) @ bt_items s) \<and>
     ((\<forall>ev\<in>set evs. bt_calm ev) \<and> batch_awake s0 \<longrightarrow> batch_awake s)"
proof (induction rule: batch_run.induct)
  case batch_nil
  then show ?case by simp
next
  case (batch_snoc evs s ev s')
  note fl = batch_step_flow [OF batch_snoc(2)] and aw = batch_step_awake [OF batch_snoc(2)]
  have "bt_items s0 @ concat (map bt_received (evs @ [ev])) = concat (map bt_handled (evs @ [ev])) @ bt_items s'"
    if "\<forall>e\<in>set (evs @ [ev]). bt_taken e = [] \<and> bt_direct e"
    using batch_snoc fl that by (simp flip: append_assoc) (simp add: append_assoc)
  moreover have "mset (bt_items s0) + mset (concat (map bt_received (evs @ [ev]))) =
      mset (concat (map bt_handled (evs @ [ev]))) + mset (concat (map bt_taken (evs @ [ev]))) + mset (bt_items s')"
    using mset_chain [of "mset (bt_items s0)" _ _ _ "mset (bt_items s)"] batch_snoc(3,4) fl by simp
  ultimately show ?case using batch_snoc(3,4) fl aw by (simp add: ball_Un)
qed

lemma bt_new_inv: "batch_inv bt_new" "batch_awake bt_new" "bt_items bt_new = []"
  by (simp_all add: batch_inv_def batch_awake_def bt_items_def bt_new_def rv_new_def q_new_def)

section \<open>Properties\<close>

text \<open>C11. Batch and synchronous dispatching lose nothing: in every interleaving of the read handler, the dispatcher, the timers
  and users each received message is handled, taken out or still in the buffer, exactly once; without \<open>on_msg\<close> handling
  some and users taking some out, they are handled in the order of arrival. And if no user takes messages out, the link is
  not closed and \<open>on_msg_handle\<close> reports a failure only when it leaves messages, the buffer is empty whenever the
  dispatcher has nothing left to do.\<close>

theorem batch_exactly_once:
  assumes "batch_run sz rbs bt_new evs s"
  shows "mset (concat (map bt_received evs)) =
           mset (concat (map bt_handled evs)) + mset (concat (map bt_taken evs)) + mset (bt_items s) \<and>
         ((\<forall>ev\<in>set evs. bt_taken ev = [] \<and> bt_direct ev) \<longrightarrow>
            concat (map bt_received evs) = concat (map bt_handled evs) @ bt_items s) \<and>
         ((\<forall>ev\<in>set evs. bt_calm ev) \<and> bt_pc s = Bt_idle \<and> rv_tasks (bt_recv s) = 0 \<and> \<not> rv_hold (bt_recv s) \<and>
            rv_rw (bt_recv s) = Rw_idle \<longrightarrow> bt_items s = [])"
proof -
  note fl = batch_run_flow [OF assms bt_new_inv(1), unfolded bt_new_inv mset.simps add_0 append_Nil]
  then have aw: "\<forall>ev\<in>set evs. bt_calm ev \<Longrightarrow> batch_awake s" using bt_new_inv(2) by blast
  have "bt_items s = []" if "\<forall>ev\<in>set evs. bt_calm ev" "bt_pc s = Bt_idle" "rv_tasks (bt_recv s) = 0"
    "\<not> rv_hold (bt_recv s)" "rv_rw (bt_recv s) = Rw_idle"
    using aw [OF that(1)] that(2-) by (simp add: batch_awake_def)
  then show ?thesis using fl by blast
qed

text \<open>The steps a run takes, for concrete runs.\<close>

lemma batch_other:
  "recv_step sz rbs ((bt_recv s)\<lparr>rv_tasks := 0\<rparr>) ev r \<Longrightarrow> s' = s\<lparr>bt_recv := r\<lparr>rv_tasks := rv_tasks r + rv_tasks (bt_recv s)\<rparr>\<rparr> \<Longrightarrow>
     batch_step sz rbs s (Other ev) s'"
  using other by simp

lemma demo_batch:
  fixes m :: 'm and sz :: "'m \<Rightarrow> nat"
  defines "r \<equiv> recv_handler_begin sz [m] (rv_new\<lparr>rv_reading := True\<rparr>)"
  shows "batch_run sz rbs bt_new [Other Link_started, Other Tau, Other (Received [m]), Other Tau, Batch_tau, Batch_tau]
    \<lparr>bt_recv = r\<lparr>rv_rw := Rw_handled_msg, rv_dispatching := True\<rparr>, bt_pc = Bt_handling\<rparr>"
proof -
  let ?b = "\<lambda>r. \<lparr>bt_recv = r, bt_pc = Bt_idle\<rparr>"
  let ?r2 = "r\<lparr>rv_rw := Rw_handled_msg, rv_tasks := 1\<rparr>"
  let ?r3 = "r\<lparr>rv_rw := Rw_handled_msg\<rparr>"
  have a: "batch_step sz rbs bt_new (Other Link_started) (?b (recv_msg rv_new))"
    by (rule batch_other [OF start]) (simp_all add: bt_new_def rv_new_def receiver_defs)
  have b: "batch_step sz rbs (?b (recv_msg rv_new)) (Other Tau) (?b (rv_new\<lparr>rv_reading := True\<rparr>))"
    by (rule batch_other [OF recv_task]) (simp_all add: rv_new_def receiver_defs)
  have c: "batch_step sz rbs (?b (rv_new\<lparr>rv_reading := True\<rparr>)) (Other (Received [m])) (?b r)"
    by (rule batch_other [OF received]) (simp_all add: rv_new_def receiver_defs r_def)
  have d: "batch_step sz rbs (?b r) (Other Tau) (?b ?r2)"
    by (rule batch_other [OF rw_micro [where ec = False]]) (simp_all add: rv_new_def receiver_defs r_def)
  have e: "batch_step sz rbs (?b ?r2) Batch_tau \<lparr>bt_recv = ?r3, bt_pc = Bt_found\<rparr>"
    using task [of "?b ?r2" sz rbs] by (simp add: batch_dispatch_begin_def q_empty_def rv_new_def receiver_defs r_def q_new_def)
  have f: "batch_step sz rbs \<lparr>bt_recv = ?r3, bt_pc = Bt_found\<rparr> Batch_tau \<lparr>bt_recv = ?r3\<lparr>rv_dispatching := True\<rparr>, bt_pc = Bt_handling\<rparr>"
    using found [of "\<lparr>bt_recv = ?r3, bt_pc = Bt_found\<rparr>" sz rbs] by (simp add: batch_dispatching_def)
  show ?thesis
    using batch_snoc [OF batch_snoc [OF batch_snoc [OF batch_snoc [OF batch_snoc [OF batch_snoc [OF batch_nil a] b] c] d] e] f] by simp
qed

theorem batch_exactly_once_witness:
  "\<exists>evs s. batch_run (\<lambda>_. 1) 4 bt_new evs s \<and> concat (map bt_received evs) = [7 :: nat] \<and> bt_items s = [7]"
proof -
  note run = demo_batch [of "\<lambda>_. 1" 4 "7 :: nat"]
  show ?thesis using run batch_exactly_once [OF run] by (intro exI conjI) auto
qed

text \<open>
  When a user takes the messages out between two tries of the dispatcher, a message that arrives between the dispatcher's
  look at the buffer and its clearing of \<open>dispatching\<close> finds \<open>dispatching\<close> still set: nobody comes for it until another one
  arrives.
\<close>

lemma batch_lost_wakeup:
  assumes "0 < rbs"
  shows "\<exists>evs s. batch_run sz rbs bt_new evs s \<and> Other Link_closed \<notin> set evs \<and> Other Recv_failed \<notin> set evs \<and>
    concat (map bt_taken evs) = [m] \<and> bt_items s = [m] \<and> bt_pc s = Bt_idle \<and> rv_tasks (bt_recv s) = 0 \<and>
    \<not> rv_hold (bt_recv s) \<and> rv_rw (bt_recv s) = Rw_handled_msg"
proof -
  define r where "r = recv_handler_begin sz [m] (rv_new\<lparr>rv_reading := True\<rparr>)"
  let ?b = "\<lambda>r. \<lparr>bt_recv = r, bt_pc = Bt_idle\<rparr>" and ?e = "\<lambda>r. \<lparr>bt_recv = r, bt_pc = Bt_empty\<rparr>"
  let ?r1 = "r\<lparr>rv_rw := Rw_handled_msg, rv_dispatching := True\<rparr>"
  let ?r2 = "?r1\<lparr>rv_hold := True\<rparr>" let ?r3 = "?r1\<lparr>rv_tasks := 1\<rparr>"
  let ?q = "snd (q_swap sz [] (rv_buffer ?r3))"
  let ?r4 = "?r3\<lparr>rv_buffer := ?q\<rparr>"
  let ?r5 = "?r4\<lparr>rv_rw := Rw_idle, rv_reading := True\<rparr>" let ?r6 = "?r5\<lparr>rv_tasks := 0\<rparr>"
  let ?r7 = "recv_handler_begin sz [m] ?r6" let ?r8 = "?r7\<lparr>rv_rw := Rw_handled_msg\<rparr>"
  note defs = r_def receiver_defs rv_new_def q_new_def q_swap_def move_items_in_def get_size_in_byte_def Let_def
  have a: "batch_step sz rbs \<lparr>bt_recv = ?r1, bt_pc = Bt_handling\<rparr> (Batch_end True True) (?b ?r2)"
    using returns [of "\<lparr>bt_recv = ?r1, bt_pc = Bt_handling\<rparr>" sz rbs 0] by (simp add: batch_dispatch_end_def defs)
  have b: "batch_step sz rbs (?b ?r2) (Other Tau) (?b ?r3)"
    by (rule batch_other [OF hold_timer]) (simp_all add: defs)
  have t: "recv_step sz rbs (?r3\<lparr>rv_tasks := 0\<rparr>) (Taken [m]) (?r4\<lparr>rv_tasks := 0\<rparr>)"
    by (rule pop_all) (simp add: pop_all_pending_recv_msg_def defs)
  have c: "batch_step sz rbs (?b ?r3) (Other (Taken [m])) (?b ?r4)"
    by (rule batch_other [where r = "?r4\<lparr>rv_tasks := 0\<rparr>"]) (use t in simp_all)
  have d: "batch_step sz rbs (?b ?r4) (Other Tau) (?b ?r5)"
    by (rule batch_other [OF rw_micro [where ec = False]])
      (use assms in \<open>simp_all add: defs is_recv_buffer_available_def q_size_in_byte_def\<close>)
  have e: "batch_step sz rbs (?b ?r5) Batch_tau (?e ?r6)"
    using task [of "?b ?r5" sz rbs] by (simp add: batch_dispatch_begin_def q_empty_def defs)
  have f: "batch_step sz rbs (?e ?r6) (Other (Received [m])) (?e ?r7)"
    by (rule batch_other [OF received]) (simp_all add: defs)
  have g: "batch_step sz rbs (?e ?r7) (Other Tau) (?e ?r8)"
    by (rule batch_other [OF rw_micro [where ec = False]]) (simp_all add: defs)
  have h: "batch_step sz rbs (?e ?r8) Batch_tau (batch_dispatch_empty (?e ?r8))" by (rule none) simp
  note run = batch_snoc [OF batch_snoc [OF batch_snoc [OF batch_snoc [OF batch_snoc [OF batch_snoc [OF batch_snoc [OF batch_snoc
    [OF demo_batch [of sz rbs m, folded r_def] a] b] c] d] e] f] g] h]
  show ?thesis using run by (intro exI conjI) (assumption | simp add: batch_dispatch_empty_def bt_items_def defs)+
qed

end
