(* ===== verification/File_Socket.thy ===== *)
theory File_Socket
  imports Ascs_Prelude "HOL-Library.Signed_Division"
begin

text \<open>
  The file transfer program of \<open>examples\<close>: \<open>file_buffer\<close> and \<open>file_unpacker\<close> (\<open>file_common\<close>), which move the content of a file
  without any protocol, and the sockets of client and server (\<open>file_client/file_client.h\<close>, \<open>file_server/file_socket.cpp\<close>) with their
  handlers of the orders. Files are the C library's: a name's content, and for an open file the position; the disk does
  not fail except where a parameter says so. Printing is left out. Theory File_Transfer puts the two sides together.
\<close>

section \<open>Numbers in messages\<close>

text \<open>\<open>fl_type\<close> is \<open>off_t\<close> with 64 bits; \<open>memcpy\<close> takes its bytes in the order of the host, the lowest first.\<close>

definition fl_bytes :: "int \<Rightarrow> bytes" where
  "fl_bytes x = rev (be_bytes 8 (nat (x mod 2 ^ 64)))"

definition fl_value :: "bytes \<Rightarrow> int" where
  "fl_value bs = (let v = int (be_value (rev bs)) in if v < 2 ^ 63 then v else v - 2 ^ 64)"

definition fl_range :: "int \<Rightarrow> bool" where
  "fl_range x \<longleftrightarrow> - (2 ^ 63) \<le> x \<and> x < 2 ^ 63"

lemma length_fl_bytes [simp]: "length (fl_bytes x) = 8"
  by (simp add: fl_bytes_def)

lemma fl_value_bytes [simp]: "fl_range x \<Longrightarrow> fl_value (fl_bytes x) = x"
proof -
  assume r: "fl_range x"
  have v: "int (be_value (rev (fl_bytes x))) = x mod 2 ^ 64"
    by (simp add: fl_bytes_def)
  show ?thesis
  proof (cases "0 \<le> x")
    case True
    then have "x mod 2 ^ 64 = x" using r by (simp add: fl_range_def)
    then show ?thesis using r True unfolding fl_value_def v by (simp add: fl_range_def)
  next
    case False
    have "x mod 2 ^ 64 = (x + 2 ^ 64) mod 2 ^ 64" by simp
    also have "\<dots> = x + 2 ^ 64" using r False by (intro mod_pos_pos_trivial) (simp_all add: fl_range_def)
    finally show ?thesis using r False unfolding fl_value_def v by (simp add: fl_range_def)
  qed
qed

definition ORDER_LEN :: nat where
  "ORDER_LEN = 1"

definition OFFSET_LEN :: nat where
  "OFFSET_LEN = 8"

definition DATA_LEN :: nat where
  "DATA_LEN = OFFSET_LEN"

text \<open>\<open>boost::asio::detail::default_max_transfer_size\<close>.\<close>

definition default_max_transfer_size :: nat where
  "default_max_transfer_size = 65536"

section \<open>Files\<close>

type_synonym files = "bytes \<Rightarrow> bytes option"

text \<open>\<open>fread\<close>, and \<open>fwrite\<close>, which fills a gap behind the end with zeros. A name ends at its first NUL.\<close>

definition fread :: "nat \<Rightarrow> nat \<Rightarrow> bytes \<Rightarrow> bytes" where
  "fread pos n content = take n (drop pos content)"

definition fwrite :: "nat \<Rightarrow> bytes \<Rightarrow> bytes \<Rightarrow> bytes" where
  "fwrite pos ys content = write_at pos ys (content @ replicate (pos - length content) 0)"

definition c_str :: "bytes \<Rightarrow> bytes" where
  "c_str bs = takeWhile (\<lambda>b. b \<noteq> 0) bs"

definition content_of :: "files \<Rightarrow> bytes \<Rightarrow> bytes" where
  "content_of fs name = (case fs name of Some content \<Rightarrow> content | None \<Rightarrow> [])"

section \<open>\<open>file_buffer\<close> and \<open>file_unpacker\<close>\<close>

record file_buffer =
  fb_data :: bytes
  fb_total :: int
  fb_good :: bool

text \<open>\<open>read\<close> with the content and position of its file; the new position is returned as well.\<close>

definition fb_read :: "bytes \<Rightarrow> nat \<Rightarrow> file_buffer \<Rightarrow> bool \<times> nat \<times> file_buffer" where
  "fb_read content pos fb =
     (if fb_total fb \<le> 0 then (True, pos, fb\<lparr>fb_data := []\<rparr>)
      else
        let data_len = (if fb_total fb > int default_max_transfer_size then default_max_transfer_size else nat (fb_total fb));
            got = fread pos data_len content;
            fb1 = fb\<lparr>fb_total := fb_total fb - int data_len\<rparr>
        in if length got \<noteq> data_len then (False, pos + length got, fb1\<lparr>fb_data := [], fb_good := False\<rparr>)
           else (True, pos + data_len, fb1\<lparr>fb_data := got\<rparr>))"

definition fb_new :: "bytes \<Rightarrow> nat \<Rightarrow> int \<Rightarrow> nat \<times> file_buffer" where
  "fb_new content pos total_len =
     (let (good, pos1, fb) = fb_read content pos \<lparr>fb_data = [], fb_total = total_len, fb_good = True\<rparr> in (pos1, fb\<lparr>fb_good := good\<rparr>))"

text \<open>The size of the buffer \<open>prepare_next_recv\<close> of the unpacker offers; the array has \<open>default_max_transfer_size\<close> bytes.\<close>

definition fu_room :: "int \<Rightarrow> nat" where
  "fu_room total_len =
     (if total_len > int default_max_transfer_size then default_max_transfer_size else nat (total_len mod 2 ^ 64))"

definition fu_is_finished :: "int \<Rightarrow> bool" where
  "fu_is_finished total_len \<longleftrightarrow> 0 = total_len"

section \<open>The sockets\<close>

datatype trans_state = TRANS_IDLE | TRANS_PREPARE | TRANS_BUSY

text \<open>
  \<open>fk_file\<close>: the open file's name and position, which the buffer and the unpacker use as well; \<open>fk_unpacker\<close>: \<open>total_len\<close> of the
  \<open>file_unpacker\<close>, none for the default unpacker; \<open>fk_stream\<close>: the \<open>file_buffer\<close> that is being sent.
\<close>

record file_sock =
  fk_state :: trans_state
  fk_file :: "(bytes \<times> nat) option"
  fk_unpacker :: "int option"
  fk_stream :: "file_buffer option"

definition fk_new :: file_sock where
  "fk_new = \<lparr>fk_state = TRANS_IDLE, fk_file = None, fk_unpacker = None, fk_stream = None\<rparr>"

definition fk_clear :: "file_sock \<Rightarrow> file_sock" where
  "fk_clear s = s\<lparr>fk_file := None\<rparr>"

text \<open>The server's also stops its timers, of which it has none.\<close>

definition trans_end :: "bool \<Rightarrow> file_sock \<Rightarrow> file_sock" where
  "trans_end reset_unpacker s =
     (let s1 = fk_clear s in (if reset_unpacker then s1\<lparr>fk_unpacker := None\<rparr> else s1)\<lparr>fk_state := TRANS_IDLE\<rparr>)"

text \<open>Sending a file from the position \<open>offset\<close>: the first block, and \<open>on_msg_send\<close> after each.\<close>

definition start_stream :: "files \<Rightarrow> bytes \<Rightarrow> int \<Rightarrow> int \<Rightarrow> file_sock \<Rightarrow> file_sock" where
  "start_stream fs name offset total_len s =
     (let (pos, fb) = fb_new (content_of fs name) (nat offset) total_len;
          s1 = s\<lparr>fk_state := TRANS_BUSY, fk_file := Some (name, pos)\<rparr>
      in if fb_good fb then s1\<lparr>fk_stream := Some fb\<rparr> else trans_end True s1)"

definition on_msg_send :: "files \<Rightarrow> file_sock \<Rightarrow> file_sock" where
  "on_msg_send fs s =
     (case (fk_stream s, fk_file s) of
        (Some fb, Some (name, pos)) \<Rightarrow>
          (let (ok, pos1, fb1) = fb_read (content_of fs name) pos fb;
               s1 = s\<lparr>fk_file := Some (name, pos1), fk_stream := None\<rparr>
           in if \<not> ok then trans_end False s1
              else if fb_data fb1 = [] then trans_end False s1
              else s1\<lparr>fk_stream := Some fb1\<rparr>)
      | (Some fb, None) \<Rightarrow> trans_end False (s\<lparr>fk_stream := None\<rparr>)
      | _ \<Rightarrow> s)"

text \<open>
  \<open>parse_msg\<close> of the unpacker on the bytes of one read; \<open>written\<close>: \<open>fwrite\<close> wrote them all. The socket then calls \<open>handle_msg\<close>
  with an empty message.
\<close>

definition fu_parse_msg :: "bool \<Rightarrow> bytes \<Rightarrow> files \<Rightarrow> file_sock \<Rightarrow> bool \<times> files \<times> file_sock" where
  "fu_parse_msg written ys fs s =
     (case (fk_unpacker s, fk_file s) of
        (Some total_len, Some (name, pos)) \<Rightarrow>
          (let s1 = s\<lparr>fk_unpacker := Some (total_len - int (length ys))\<rparr>
           in if written then (True, fs(name \<mapsto> fwrite pos ys (content_of fs name)), s1\<lparr>fk_file := Some (name, pos + length ys)\<rparr>)
              else (False, fs, s1))
      | _ \<Rightarrow> (False, fs, s))"

text \<open>\<open>handle_msg\<close> of both sockets while a file is on its way.\<close>

definition handle_busy :: "file_sock \<Rightarrow> file_sock" where
  "handle_busy s =
     (case fk_unpacker s of None \<Rightarrow> trans_end True s
      | Some total_len \<Rightarrow> if fu_is_finished total_len then trans_end True s else s)"

section \<open>The server's handlers\<close>

text \<open>
  Each takes the files of the server, whether the socket is sending, the message and the socket, and returns the files, the
  socket and the messages it sends. \<open>creatable\<close>: \<open>fopen(name, "w+b")\<close> succeeds.
\<close>

definition server_order_0 :: "bool \<Rightarrow> bytes \<Rightarrow> files \<Rightarrow> file_sock \<Rightarrow> file_sock \<times> bytes list" where
  "server_order_0 sending msg fs s =
     (if sending then (s, [])
      else
        let s1 = trans_end True s; name = c_str (drop ORDER_LEN msg)
        in case fs name of
             Some content \<Rightarrow> (s1\<lparr>fk_file := Some (name, length content), fk_state := TRANS_PREPARE\<rparr>, [0 # fl_bytes (int (length content))])
           | None \<Rightarrow> (s1, [0 # replicate DATA_LEN 255]))"

text \<open>
  The sum is that of integers: where it overflows in the code, what is then read is behind the end of the file, and both end with
  \<open>trans_end\<close>.
\<close>

definition server_order_1 :: "bytes \<Rightarrow> files \<Rightarrow> file_sock \<Rightarrow> file_sock" where
  "server_order_1 msg fs s =
     (case fk_file s of
        Some (name, end_pos) \<Rightarrow>
          if fk_state s = TRANS_PREPARE \<and> length msg = ORDER_LEN + OFFSET_LEN + DATA_LEN
          then let offset = fl_value (chunk ORDER_LEN OFFSET_LEN msg); len = fl_value (chunk (ORDER_LEN + OFFSET_LEN) DATA_LEN msg)
               in if offset \<ge> 0 \<and> len > 0 \<and> offset + len \<le> int end_pos then start_stream fs name offset len s
                  else trans_end True s
          else s
      | None \<Rightarrow> s)"

definition server_order_10 :: "(bytes \<Rightarrow> bool) \<Rightarrow> bool \<Rightarrow> bytes \<Rightarrow> files \<Rightarrow> file_sock \<Rightarrow> files \<times> file_sock \<times> bytes list" where
  "server_order_10 creatable sending msg fs s =
     (if sending then (fs, s, [])
      else
        let s1 = trans_end True s; name = c_str (drop ORDER_LEN msg)
        in if creatable name then (fs(name \<mapsto> []), fk_clear s1, [10 # 0 # name])
           else (fs, s1, [10 # 1 # name]))"

definition server_order_11 :: "bool \<Rightarrow> bytes \<Rightarrow> files \<Rightarrow> file_sock \<Rightarrow> file_sock \<times> bytes list" where
  "server_order_11 sending msg fs s =
     (if length msg > ORDER_LEN + OFFSET_LEN + DATA_LEN \<and> \<not> sending
      then
        let s1 = trans_end True s;
            offset = fl_value (chunk ORDER_LEN OFFSET_LEN msg); len = fl_value (chunk (ORDER_LEN + OFFSET_LEN) DATA_LEN msg);
            name = c_str (drop (ORDER_LEN + OFFSET_LEN + DATA_LEN) msg)
        in case fs name of
             None \<Rightarrow> (s1, [11 # fl_bytes len @ [1]])
           | Some content \<Rightarrow>
               (s1\<lparr>fk_state := TRANS_BUSY, fk_file := Some (name, nat offset), fk_unpacker := Some len\<rparr>, [11 # fl_bytes len @ [0]])
      else (s, []))"

text \<open>Orders 2 (talk) and 3 (restoring the link's id, theory Server) change nothing here.\<close>

definition server_handle_msg ::
  "(bytes \<Rightarrow> bool) \<Rightarrow> bool \<Rightarrow> bytes \<Rightarrow> files \<Rightarrow> file_sock \<Rightarrow> files \<times> file_sock \<times> bytes list" where
  "server_handle_msg creatable sending msg fs s =
     (if fk_state s = TRANS_BUSY then (fs, handle_busy s, [])
      else if length msg \<le> ORDER_LEN then (fs, s, [])
      else if msg ! 0 = 0 then (fs, server_order_0 sending msg fs s)
      else if msg ! 0 = 1 then (fs, server_order_1 msg fs s, [])
      else if msg ! 0 = 10 then server_order_10 creatable sending msg fs s
      else if msg ! 0 = 11 then (fs, server_order_11 sending msg fs s)
      else (fs, s, []))"

section \<open>The client's functions and handlers\<close>

text \<open>The part of the file that link \<open>index\<close> of \<open>link_num\<close> transfers; division truncates.\<close>

definition file_piece :: "nat \<Rightarrow> nat \<Rightarrow> int \<Rightarrow> int \<times> int" where
  "file_piece link_num index len =
     (let my_length = len sdiv int link_num; offset = my_length * int index
      in (offset, if index = link_num - 1 then len - offset else my_length))"

definition get_file :: "(bytes \<Rightarrow> bool) \<Rightarrow> nat \<Rightarrow> bytes \<Rightarrow> bool \<Rightarrow> files \<Rightarrow> file_sock \<Rightarrow> bool \<times> files \<times> file_sock \<times> bytes list" where
  "get_file creatable index file_name master_only fs s =
     (if master_only \<and> index \<noteq> 0 \<or> \<not> master_only \<and> index = 0 then (True, fs, s, [])
      else if fk_state s \<noteq> TRANS_IDLE then (False, fs, s, [])
      else
        let name = c_str file_name;
            fs1 = (if master_only \<and> creatable name then fs(name \<mapsto> []) else fs);
            ok = (if master_only then creatable name else fs name \<noteq> None)
        in if \<not> ok then (False, fs1, s\<lparr>fk_file := None\<rparr>, [])
           else (True, fs1, s\<lparr>fk_file := Some (name, 0), fk_state := TRANS_PREPARE\<rparr>, [0 # file_name]))"

definition truncate_file :: "nat \<Rightarrow> bytes \<Rightarrow> bool \<Rightarrow> file_sock \<Rightarrow> bool \<times> file_sock \<times> bytes list" where
  "truncate_file index file_name master_only s =
     (if master_only \<and> index \<noteq> 0 \<or> \<not> master_only \<and> index = 0 then (True, s, [])
      else if fk_state s \<noteq> TRANS_IDLE then (False, s, [])
      else if master_only then (True, s\<lparr>fk_state := TRANS_PREPARE\<rparr>, [10 # file_name])
      else (True, s, []))"

definition put_file :: "nat \<Rightarrow> nat \<Rightarrow> bytes \<Rightarrow> files \<Rightarrow> file_sock \<Rightarrow> bool \<times> file_sock \<times> bytes list \<times> int option" where
  "put_file link_num index file_name fs s =
     (case fs (c_str file_name) of
        None \<Rightarrow> (False, trans_end False (s\<lparr>fk_file := None\<rparr>), [], None)
      | Some content \<Rightarrow>
          let (offset, my_length) = file_piece link_num index (int (length content));
              file_size = (if index = 0 then Some (int (length content)) else None)
          in if my_length > 0
             then (True, s\<lparr>fk_file := Some (c_str file_name, nat offset), fk_state := TRANS_PREPARE\<rparr>,
                   [11 # fl_bytes offset @ fl_bytes my_length @ file_name], file_size)
             else (True, trans_end False (s\<lparr>fk_file := Some (c_str file_name, nat offset)\<rparr>), [], file_size))"

text \<open>The answer to order 0: the socket, the messages it sends, and the new \<open>file_size\<close> if this link sets it.\<close>

definition client_order_0 :: "nat \<Rightarrow> nat \<Rightarrow> bytes \<Rightarrow> file_sock \<Rightarrow> file_sock \<times> bytes list \<times> int option" where
  "client_order_0 link_num index msg s =
     (case fk_file s of
        Some (name, pos) \<Rightarrow>
          if length msg = ORDER_LEN + DATA_LEN \<and> fk_state s = TRANS_PREPARE
          then let len = fl_value (chunk ORDER_LEN DATA_LEN msg)
               in if len = - 1 then (trans_end True s, [], None)
                  else let (offset, my_length) = file_piece link_num index len; file_size = (if index = 0 then Some len else None)
                       in if my_length > 0
                          then (s\<lparr>fk_state := TRANS_BUSY, fk_file := Some (name, nat offset), fk_unpacker := Some my_length\<rparr>,
                                [1 # fl_bytes offset @ fl_bytes my_length], file_size)
                          else (trans_end True s, [], file_size)
          else (s, [], None)
      | None \<Rightarrow> (s, [], None))"

text \<open>The answer to order 10: when the server has created the file, the name with which \<open>put_file\<close> is called on every link.\<close>

definition client_order_10 :: "bytes \<Rightarrow> file_sock \<Rightarrow> file_sock \<times> bytes option" where
  "client_order_10 msg s =
     (if length msg > ORDER_LEN + 1 \<and> fk_file s = None \<and> fk_state s = TRANS_PREPARE
      then if msg ! ORDER_LEN \<noteq> 0 then (trans_end True s, None) else (s, Some (c_str (drop (ORDER_LEN + 1) msg)))
      else (s, None))"

definition client_order_11 :: "bytes \<Rightarrow> files \<Rightarrow> file_sock \<Rightarrow> file_sock" where
  "client_order_11 msg fs s =
     (case fk_file s of
        Some (name, pos) \<Rightarrow>
          if length msg = ORDER_LEN + DATA_LEN + 1 \<and> fk_state s = TRANS_PREPARE
          then if msg ! (ORDER_LEN + DATA_LEN) \<noteq> 0 then trans_end True s
               else start_stream fs name (int pos) (fl_value (chunk ORDER_LEN DATA_LEN msg)) s
          else s
      | None \<Rightarrow> s)"

text \<open>What a message does to the client's socket, with the messages sent, the new \<open>file_size\<close> and the file to put.\<close>

definition client_handle_msg ::
  "nat \<Rightarrow> nat \<Rightarrow> bytes \<Rightarrow> files \<Rightarrow> file_sock \<Rightarrow> file_sock \<times> bytes list \<times> int option \<times> bytes option" where
  "client_handle_msg link_num index msg fs s =
     (if fk_state s = TRANS_BUSY then (handle_busy s, [], None, None)
      else if length msg \<le> ORDER_LEN then (s, [], None, None)
      else if msg ! 0 = 0 then (let (s1, sent, size) = client_order_0 link_num index msg s in (s1, sent, size, None))
      else if msg ! 0 = 10 then (let (s1, name) = client_order_10 msg s in (s1, [], None, name))
      else if msg ! 0 = 11 then (client_order_11 msg fs s, [], None, None)
      else (s, [], None, None))"

section \<open>The pieces of a file\<close>

lemma sdiv_nonneg: "0 \<le> (a :: int) \<Longrightarrow> 0 \<le> b \<Longrightarrow> a sdiv b = a div b"
  by (simp add: signed_divide_int_def sgn_if)

definition piece_start :: "nat \<Rightarrow> nat \<Rightarrow> nat \<Rightarrow> nat" where
  "piece_start n i len = len div n * i"

definition piece_len :: "nat \<Rightarrow> nat \<Rightarrow> nat \<Rightarrow> nat" where
  "piece_len n i len = (if i = n - 1 then len - len div n * i else len div n)"

lemma piece_le: "i < n \<Longrightarrow> len div n * i \<le> (len :: nat)"
  by (rule order_trans [of _ "len div n * n"]) simp_all

lemma file_piece_nat:
  "0 < n \<Longrightarrow> i < n \<Longrightarrow> file_piece n i (int len) = (int (piece_start n i len), int (piece_len n i len))"
proof -
  assume n: "0 < n" "i < n"
  have q: "int len sdiv int n = int (len div n)" by (simp only: sdiv_nonneg of_nat_0_le_iff zdiv_int)
  have d: "int (len - len div n * i) = int len - int (len div n) * int i" using piece_le [OF n(2)] by (simp add: of_nat_diff)
  have "(if i = n - 1 then int len - int (len div n) * int i else int (len div n)) = int (if i = n - 1 then len - len div n * i else len div n)"
    by (simp only: if_distrib [of int] d)
  then show ?thesis unfolding file_piece_def piece_start_def piece_len_def q Let_def by (simp only: of_nat_mult)
qed

lemma piece_end: "i < n \<Longrightarrow> piece_start n i len + piece_len n i len = (if i = n - 1 then len else len div n * (i + 1))"
  using piece_le [of i n len] unfolding piece_start_def piece_len_def by (cases "n = Suc i") auto

lemma piece_end_le: "i < n \<Longrightarrow> piece_start n i len + piece_len n i len \<le> len"
proof -
  assume i: "i < n"
  have "len div n * (i + 1) \<le> len div n * n" using i by (intro mult_le_mono2) simp
  also have "\<dots> \<le> len" by simp
  finally show ?thesis using piece_end [OF i, of len] by (auto split: if_splits)
qed

text \<open>Pieces of different links do not meet, and every position is in one.\<close>

lemma pieces_disjoint:
  assumes "i < j" "j < n"
  shows "piece_start n i len + piece_len n i len \<le> piece_start n j len"
proof -
  have "piece_start n i len + piece_len n i len = len div n * (i + 1)" using assms piece_end [of i n len] by auto
  also have "\<dots> \<le> len div n * j" using assms by (intro mult_le_mono2) simp
  finally show ?thesis by (simp add: piece_start_def)
qed

lemma pieces_cover:
  assumes "0 < n" "p < len"
  shows "\<exists>i<n. piece_start n i len \<le> p \<and> p < piece_start n i len + piece_len n i len"
proof (cases "p < len div n * (n - 1)")
  case True
  then have pos: "0 < len div n" by (cases "len div n") auto
  define i where "i = p div (len div n)"
  have "i < n - 1" using True pos by (simp add: i_def less_mult_imp_div_less mult.commute)
  moreover have "len div n * i \<le> p" "p < len div n * (i + 1)"
    using pos by (simp_all add: i_def) (metis dividend_less_times_div mult.commute mult_Suc_right)
  ultimately show ?thesis using piece_end [of i n len] assms by (intro exI [of _ i]) (auto simp: piece_start_def)
next
  case False
  then show ?thesis using assms piece_end [of "n - 1" n len] by (intro exI [of _ "n - 1"]) (auto simp: piece_start_def)
qed

section \<open>Reading blocks\<close>

lemma fread_len: "pos + n \<le> length content \<Longrightarrow> length (fread pos n content) = n"
  by (simp add: fread_def)

text \<open>A block that is within the file.\<close>

lemma fb_read_ok:
  assumes "0 \<le> fb_total fb" "int pos + fb_total fb \<le> int (length content)"
    and k: "k = min default_max_transfer_size (nat (fb_total fb))"
  shows "fb_read content pos fb = (True, pos + k, fb\<lparr>fb_total := fb_total fb - int k, fb_data := fread pos k content\<rparr>)"
proof (cases "fb_total fb = 0")
  case True
  then show ?thesis using k by (simp add: fb_read_def fread_def)
next
  case False
  have "k = (if fb_total fb > int default_max_transfer_size then default_max_transfer_size else nat (fb_total fb))"
    using k by (auto simp: min_def)
  moreover have "length (fread pos k content) = k" using assms by (intro fread_len) linarith
  ultimately show ?thesis using False assms(1) unfolding fb_read_def by (simp add: Let_def)
qed

lemma fb_read_nat:
  assumes "pos + m \<le> length content"
  shows "fb_read content pos \<lparr>fb_data = ys, fb_total = int m, fb_good = g\<rparr> =
    (True, pos + min default_max_transfer_size m,
     \<lparr>fb_data = fread pos (min default_max_transfer_size m) content, fb_total = int (m - default_max_transfer_size), fb_good = g\<rparr>)"
  using fb_read_ok [of "\<lparr>fb_data = ys, fb_total = int m, fb_good = g\<rparr>" pos content "min default_max_transfer_size m"] assms
  by (simp add: min_def of_nat_diff)

section \<open>Uploads\<close>

text \<open>Order 11 does not look at the numbers: a negative length makes the next read offer more than the unpacker's array holds.\<close>

lemma upload_overflows_buffer:
  assumes "fk_state s \<noteq> TRANS_BUSY" "fs name = Some content" "0 \<notin> set name" "name \<noteq> []" "fl_range len" "len < 0"
  shows "\<exists>s1. server_handle_msg creatable False (11 # fl_bytes offset @ fl_bytes len @ name) fs s = (fs, s1, [11 # fl_bytes len @ [0]]) \<and>
    fk_unpacker s1 = Some len \<and> default_max_transfer_size < fu_room len"
proof -
  have "len mod 2 ^ 64 = (len + 2 ^ 64) mod 2 ^ 64" by simp
  also have "\<dots> = len + 2 ^ 64" using assms(5,6) by (intro mod_pos_pos_trivial) (simp_all add: fl_range_def)
  finally have "default_max_transfer_size < fu_room len"
    using assms(5,6) by (simp add: fu_room_def default_max_transfer_size_def fl_range_def)
  moreover have "c_str name = name" using assms(3) by (auto simp: c_str_def takeWhile_eq_all_conv)
  ultimately show ?thesis using assms
    by (auto simp: server_handle_msg_def server_order_11_def ORDER_LEN_def OFFSET_LEN_def DATA_LEN_def chunk_def Let_def
        trans_end_def fk_clear_def)
qed

end
