(* ===== verification/File_Transfer.thy ===== *)
theory File_Transfer
  imports File_Socket
begin

text \<open>
  Client and server of the file transfer put together: a file is fetched over several links at once, each of which carries one
  piece. A link is two streams of orders and of file content; that orders arrive as they were sent is theory Tcp_Link.
  The sockets read passively (\<open>ASCS_PASSIVE_RECV\<close>, theory Passive_Recv): the next read is issued only when the last message has been
  handled, so an unpacker that is replaced there takes the next read, and the client calls \<open>get_file\<close> on its links first with
  \<open>master_only\<close> and then without.
\<close>

section \<open>The system\<close>

datatype item = Order bytes | Raw u8

record file_link =
  fl_client :: file_sock
  fl_server :: file_sock
  fl_up :: "item list"
  fl_down :: "item list"

record transfer =
  tr_files :: files
  tr_size :: int
  tr_done :: int
  tr_links :: "file_link list"

definition link_idle :: file_link where
  "link_idle = \<lparr>fl_client = fk_new, fl_server = fk_new, fl_up = [], fl_down = []\<rparr>"

definition tr_new :: "nat \<Rightarrow> files \<Rightarrow> transfer" where
  "tr_new n fs = \<lparr>tr_files = fs, tr_size = - 1, tr_done = 0, tr_links = replicate n link_idle\<rparr>"

text \<open>\<open>transmit_file\<close> for a file to get: one pass over the links, and both; true when every link accepted.\<close>

definition get_on :: "(bytes \<Rightarrow> bool) \<Rightarrow> bytes \<Rightarrow> bool \<Rightarrow> nat \<Rightarrow> bool \<times> transfer \<Rightarrow> bool \<times> transfer" where
  "get_on creatable name master_only i r =
     (let t = snd r; l = tr_links t ! i; (ok, fs, s, sent) = get_file creatable i name master_only (tr_files t) (fl_client l)
      in (fst r \<and> ok, t\<lparr>tr_files := fs, tr_links := (tr_links t)[i := l\<lparr>fl_client := s, fl_up := fl_up l @ map Order sent\<rparr>]\<rparr>))"

definition transmit_file :: "(bytes \<Rightarrow> bool) \<Rightarrow> bytes \<Rightarrow> transfer \<Rightarrow> bool \<times> transfer" where
  "transmit_file creatable name t =
     (let n = length (tr_links t)
      in fold (get_on creatable name False) [0..<n] (fold (get_on creatable name True) [0..<n] (True, t\<lparr>tr_size := - 1, tr_done := 0\<rparr>)))"

text \<open>
  The steps of a link: the server handles an order, or the next block of its file goes out; the client handles an order, or a
  read of its \<open>file_unpacker\<close> completes, which is when the buffer it offered is full. \<open>server_files\<close> do not change here.
\<close>

definition server_order :: "(bytes \<Rightarrow> bool) \<Rightarrow> files \<Rightarrow> bytes \<Rightarrow> file_link \<Rightarrow> file_link" where
  "server_order creatable server_files msg l =
     (let (fs, s, sent) = server_handle_msg creatable (fk_stream (fl_server l) \<noteq> None) msg server_files (fl_server l)
      in l\<lparr>fl_server := s, fl_down := fl_down l @ map Order sent\<rparr>)"

definition server_sends :: "files \<Rightarrow> file_link \<Rightarrow> file_link" where
  "server_sends server_files l =
     (case fk_stream (fl_server l) of None \<Rightarrow> l
      | Some fb \<Rightarrow> l\<lparr>fl_server := on_msg_send server_files (fl_server l), fl_down := fl_down l @ map Raw (fb_data fb)\<rparr>)"

definition client_order :: "nat \<Rightarrow> bytes \<Rightarrow> transfer \<Rightarrow> transfer" where
  "client_order i msg t =
     (let l = tr_links t ! i; (s, sent, size, put) = client_handle_msg (length (tr_links t)) i msg (tr_files t) (fl_client l)
      in t\<lparr>tr_size := (case size of None \<Rightarrow> tr_size t | Some n \<Rightarrow> n),
           tr_links := (tr_links t)[i := l\<lparr>fl_client := s, fl_up := fl_up l @ map Order sent\<rparr>]\<rparr>)"

definition client_content :: "nat \<Rightarrow> bytes \<Rightarrow> transfer \<Rightarrow> transfer" where
  "client_content i ys t =
     (let l = tr_links t ! i; (ok, fs, s) = fu_parse_msg True ys (tr_files t) (fl_client l)
      in t\<lparr>tr_files := fs, tr_done := tr_done t + int (length ys), tr_links := (tr_links t)[i := l\<lparr>fl_client := handle_busy s\<rparr>]\<rparr>)"

inductive transfer_step :: "(bytes \<Rightarrow> bool) \<Rightarrow> files \<Rightarrow> transfer \<Rightarrow> transfer \<Rightarrow> bool"
  for creatable :: "bytes \<Rightarrow> bool" and server_files :: files where
  server_reads: "i < length (tr_links t) \<Longrightarrow> fl_up (tr_links t ! i) = Order msg # rest \<Longrightarrow>
    fk_unpacker (fl_server (tr_links t ! i)) = None \<Longrightarrow>
    transfer_step creatable server_files t
      (t\<lparr>tr_links := (tr_links t)[i := server_order creatable server_files msg ((tr_links t ! i)\<lparr>fl_up := rest\<rparr>)]\<rparr>)"
| server_writes: "i < length (tr_links t) \<Longrightarrow> fk_stream (fl_server (tr_links t ! i)) \<noteq> None \<Longrightarrow>
    transfer_step creatable server_files t (t\<lparr>tr_links := (tr_links t)[i := server_sends server_files (tr_links t ! i)]\<rparr>)"
| client_reads: "i < length (tr_links t) \<Longrightarrow> fl_down (tr_links t ! i) = Order msg # rest \<Longrightarrow>
    fk_unpacker (fl_client (tr_links t ! i)) = None \<Longrightarrow>
    transfer_step creatable server_files t (client_order i msg (t\<lparr>tr_links := (tr_links t)[i := (tr_links t ! i)\<lparr>fl_down := rest\<rparr>]\<rparr>))"
| client_receives: "i < length (tr_links t) \<Longrightarrow> fl_down (tr_links t ! i) = map Raw ys @ rest \<Longrightarrow>
    fk_unpacker (fl_client (tr_links t ! i)) = Some total_len \<Longrightarrow> length ys = fu_room total_len \<Longrightarrow> ys \<noteq> [] \<Longrightarrow>
    transfer_step creatable server_files t (client_content i ys (t\<lparr>tr_links := (tr_links t)[i := (tr_links t ! i)\<lparr>fl_down := rest\<rparr>]\<rparr>))"

section \<open>Where a link can be\<close>

text \<open>
  For the name and content of the file, the number of links and the link: everything is as one of these says. \<open>done\<close> bytes of the
  piece have been written by the client, \<open>put\<close> bytes have left the server.
\<close>

datatype link_phase = Asked | Answered | Wanted | Flowing nat nat | Draining nat | Finished

fun phase_link :: "bytes \<Rightarrow> bytes \<Rightarrow> nat \<Rightarrow> nat \<Rightarrow> link_phase \<Rightarrow> file_link \<Rightarrow> bool" where
  "phase_link name content n i Asked l \<longleftrightarrow>
     fl_client l = \<lparr>fk_state = TRANS_PREPARE, fk_file = Some (name, 0), fk_unpacker = None, fk_stream = None\<rparr> \<and>
     fl_server l = fk_new \<and> fl_up l = [Order (0 # name)] \<and> fl_down l = []"
| "phase_link name content n i Answered l \<longleftrightarrow>
     fl_client l = \<lparr>fk_state = TRANS_PREPARE, fk_file = Some (name, 0), fk_unpacker = None, fk_stream = None\<rparr> \<and>
     fl_server l = \<lparr>fk_state = TRANS_PREPARE, fk_file = Some (name, length content), fk_unpacker = None, fk_stream = None\<rparr> \<and>
     fl_up l = [] \<and> fl_down l = [Order (0 # fl_bytes (int (length content)))]"
| "phase_link name content n i Wanted l \<longleftrightarrow>
     (let off = piece_start n i (length content); len = piece_len n i (length content)
      in 0 < len \<and>
         fl_client l = \<lparr>fk_state = TRANS_BUSY, fk_file = Some (name, off), fk_unpacker = Some (int len), fk_stream = None\<rparr> \<and>
         fl_server l = \<lparr>fk_state = TRANS_PREPARE, fk_file = Some (name, length content), fk_unpacker = None, fk_stream = None\<rparr> \<and>
         fl_up l = [Order (1 # fl_bytes (int off) @ fl_bytes (int len))] \<and> fl_down l = [])"
| "phase_link name content n i (Flowing don put) l \<longleftrightarrow>
     (let off = piece_start n i (length content); len = piece_len n i (length content)
      in don \<le> put \<and> put < len \<and>
         fl_client l = \<lparr>fk_state = TRANS_BUSY, fk_file = Some (name, off + don), fk_unpacker = Some (int (len - don)), fk_stream = None\<rparr> \<and>
         (\<exists>k. 0 < k \<and> put + k \<le> len \<and>
            fl_server l = \<lparr>fk_state = TRANS_BUSY, fk_file = Some (name, off + put + k), fk_unpacker = None,
              fk_stream = Some \<lparr>fb_data = fread (off + put) k content, fb_total = int (len - put - k), fb_good = True\<rparr>\<rparr>) \<and>
         fl_up l = [] \<and> fl_down l = map Raw (fread (off + don) (put - don) content))"
| "phase_link name content n i (Draining don) l \<longleftrightarrow>
     (let off = piece_start n i (length content); len = piece_len n i (length content)
      in don < len \<and>
         fl_client l = \<lparr>fk_state = TRANS_BUSY, fk_file = Some (name, off + don), fk_unpacker = Some (int (len - don)), fk_stream = None\<rparr> \<and>
         fl_server l = fk_new \<and> fl_up l = [] \<and> fl_down l = map Raw (fread (off + don) (len - don) content))"
| "phase_link name content n i Finished l \<longleftrightarrow>
     fl_client l = fk_new \<and> fk_stream (fl_server l) = None \<and> fl_up l = [] \<and> fl_down l = []"

fun phase_done :: "nat \<Rightarrow> link_phase \<Rightarrow> nat" where
  "phase_done len (Flowing don put) = don"
| "phase_done len (Draining don) = don"
| "phase_done len Finished = len"
| "phase_done len _ = 0"

text \<open>What the client has of its piece.\<close>

definition has_part :: "bytes \<Rightarrow> nat \<Rightarrow> nat \<Rightarrow> bytes \<Rightarrow> bool" where
  "has_part content off m have \<longleftrightarrow> (\<forall>p. off \<le> p \<and> p < off + m \<longrightarrow> p < length have \<and> have ! p = content ! p)"

definition piece_ok :: "bytes \<Rightarrow> nat \<Rightarrow> nat \<Rightarrow> link_phase \<Rightarrow> bytes \<Rightarrow> bool" where
  "piece_ok content n i ph have \<longleftrightarrow>
     has_part content (piece_start n i (length content)) (phase_done (piece_len n i (length content)) ph) have"

text \<open>The links and the client's file as the phases say.\<close>

definition transfer_at :: "bytes \<Rightarrow> bytes \<Rightarrow> link_phase list \<Rightarrow> transfer \<Rightarrow> bool" where
  "transfer_at name content phs t \<longleftrightarrow> length (tr_links t) = length phs \<and>
     (\<exists>have. tr_files t name = Some have \<and> length have \<le> length content \<and>
       (\<forall>i<length phs. phase_link name content (length phs) i (phs ! i) (tr_links t ! i) \<and> piece_ok content (length phs) i (phs ! i) have))"

text \<open>The work left for a link with \<open>len\<close> bytes to fetch.\<close>

fun phase_work :: "nat \<Rightarrow> link_phase \<Rightarrow> nat" where
  "phase_work len Asked = 2 * len + 3"
| "phase_work len Answered = 2 * len + 2"
| "phase_work len Wanted = 2 * len + 1"
| "phase_work len (Flowing don put) = (len - put) + (len - don)"
| "phase_work len (Draining don) = len - don"
| "phase_work len Finished = 0"

definition transfer_work :: "bytes \<Rightarrow> link_phase list \<Rightarrow> nat" where
  "transfer_work content phs = (\<Sum>i<length phs. phase_work (piece_len (length phs) i (length content)) (phs ! i))"

text \<open>\<open>is_end\<close> of the client.\<close>

definition is_end :: "transfer \<Rightarrow> bool" where
  "is_end t \<longleftrightarrow> (\<forall>l\<in>set (tr_links t). fk_state (fl_client l) = TRANS_IDLE)"

section \<open>Writing a piece\<close>

lemma length_fwrite: "length (fwrite pos ys xs) = max (length xs) (pos + length ys)"
  by (auto simp: fwrite_def write_at_def max_def)

lemma fwrite_in: "pos \<le> p \<Longrightarrow> p < pos + length ys \<Longrightarrow> fwrite pos ys xs ! p = ys ! (p - pos)"
proof -
  assume p: "pos \<le> p" "p < pos + length ys"
  have d: "p - pos < length ys" using p by linarith
  have z: "pos \<le> length z \<Longrightarrow> write_at pos ys z ! p = ys ! (p - pos)" for z :: bytes
    using p d unfolding write_at_def by (simp add: nth_append)
  show ?thesis unfolding fwrite_def by (rule z) simp
qed

lemma fwrite_other: "p < length xs \<Longrightarrow> p < pos \<or> pos + length ys \<le> p \<Longrightarrow> fwrite pos ys xs ! p = xs ! p"
  by (auto simp: fwrite_def write_at_def nth_append)

lemma nth_fread: "q < n \<Longrightarrow> pos + n \<le> length content \<Longrightarrow> fread pos n content ! q = content ! (pos + q)"
  by (simp add: fread_def)

lemma fread_split: "fread pos (a + b) content = fread pos a content @ fread (pos + a) b content"
  by (simp add: fread_def take_add drop_drop add.commute)

lemma has_part_write:
  assumes ok: "has_part content off m have" and e: "off + m + length ys \<le> length content"
    and ys: "ys = fread (off + m) (length ys) content"
  shows "has_part content off (m + length ys) (fwrite (off + m) ys have)"
  unfolding has_part_def
proof (intro allI impI)
  fix p assume p: "off \<le> p \<and> p < off + (m + length ys)"
  show "p < length (fwrite (off + m) ys have) \<and> fwrite (off + m) ys have ! p = content ! p"
  proof (cases "p < off + m")
    case True
    then have "p < length have" "have ! p = content ! p" using ok p by (auto simp: has_part_def)
    then show ?thesis using True by (simp add: length_fwrite fwrite_other)
  next
    case False
    then have q: "off + m \<le> p" "p < off + m + length ys" using p by auto
    then have "fwrite (off + m) ys have ! p = fread (off + m) (length ys) content ! (p - (off + m))"
      using fwrite_in [OF q, of "have"] ys by simp
    also have "\<dots> = content ! p" using q e by (subst nth_fread) auto
    finally show ?thesis using q by (simp add: length_fwrite)
  qed
qed

lemma has_part_other:
  assumes "has_part content off m have" "pos + length ys \<le> off \<or> off + m \<le> pos"
  shows "has_part content off m (fwrite pos ys have)"
  unfolding has_part_def
proof (intro allI impI)
  fix p assume p: "off \<le> p \<and> p < off + m"
  then have h: "p < length have" "have ! p = content ! p" using assms(1) by (auto simp: has_part_def)
  have "p < pos \<or> pos + length ys \<le> p" using p assms(2) by linarith
  then show "p < length (fwrite pos ys have) \<and> fwrite pos ys have ! p = content ! p" using h by (simp add: length_fwrite fwrite_other)
qed

lemma has_all_parts:
  assumes "\<And>i. i < n \<Longrightarrow> has_part content (piece_start n i (length content)) (piece_len n i (length content)) have"
    and "0 < n" "length have \<le> length content"
  shows "have = content"
proof -
  have all: "p < length have \<and> have ! p = content ! p" if p: "p < length content" for p
    using pieces_cover [OF assms(2) p] assms(1) by (auto simp: has_part_def)
  have "length content \<le> length have" using all [of "length have"] by (meson less_irrefl not_le_imp_less)
  then show ?thesis using assms(3) all by (intro nth_equalityI) auto
qed

section \<open>What each step does to its link\<close>

lemma c_str_id: "0 \<notin> set name \<Longrightarrow> c_str name = name"
  by (auto simp: c_str_def takeWhile_eq_all_conv)

lemmas fk_defs = trans_end_def fk_clear_def fk_new_def

lemma asked_step:
  assumes "phase_link name content n i Asked l" "server_files name = Some content" "0 \<notin> set name" "name \<noteq> []"
  shows "phase_link name content n i Answered (server_order creatable server_files (0 # name) (l\<lparr>fl_up := []\<rparr>))"
  using assms
  by (simp add: server_order_def server_handle_msg_def server_order_0_def c_str_id fk_defs ORDER_LEN_def Let_def)

lemma fl_len: "length content < 2 ^ 63 \<Longrightarrow> k \<le> length content \<Longrightarrow> fl_range (int k)"
  by (simp add: fl_range_def)

lemma answered_step:
  assumes ph: "phase_link name content n i Answered (tr_links t ! i)" and n: "length (tr_links t) = n" "i < n"
    and len: "length content < 2 ^ 63"
  defines "t1 \<equiv> client_order i (0 # fl_bytes (int (length content))) (t\<lparr>tr_links := (tr_links t)[i := (tr_links t ! i)\<lparr>fl_down := []\<rparr>]\<rparr>)"
  shows "(phase_link name content n i Wanted (tr_links t1 ! i) \<or> piece_len n i (length content) = 0 \<and> phase_link name content n i Finished (tr_links t1 ! i)) \<and>
    tr_files t1 = tr_files t \<and> length (tr_links t1) = n \<and> (\<forall>j. j \<noteq> i \<longrightarrow> tr_links t1 ! j = tr_links t ! j)"
proof -
  have "fl_value (fl_bytes (int (length content))) = int (length content)" using len by (simp add: fl_len)
  then show ?thesis using ph n file_piece_nat [of n i "length content"] unfolding t1_def
    by (auto simp: client_order_def client_handle_msg_def client_order_0_def ORDER_LEN_def DATA_LEN_def OFFSET_LEN_def chunk_def
        fk_defs Let_def split: option.splits)
qed

lemma wanted_step:
  assumes ph: "phase_link name content n i Wanted l" and n: "i < n" and len: "length content < 2 ^ 63"
    and sf: "server_files name = Some content" and up: "fl_up l = Order msg # rest"
  shows "rest = [] \<and> phase_link name content n i (Flowing 0 0) (server_order creatable server_files msg (l\<lparr>fl_up := rest\<rparr>))"
proof -
  define off where "off = piece_start n i (length content)"
  define k where "k = piece_len n i (length content)"
  have e: "off + k \<le> length content" using piece_end_le [OF n] by (simp add: off_def k_def)
  have v: "fl_value (fl_bytes (int off)) = int off" "fl_value (fl_bytes (int k)) = int k" using len e by (simp_all add: fl_len)
  have m: "msg = 1 # fl_bytes (int off) @ fl_bytes (int k)" "rest = []" "0 < k" using ph up by (auto simp: off_def k_def Let_def)
  have c: "chunk 1 8 msg = fl_bytes (int off)" "chunk 9 8 msg = fl_bytes (int k)" "length msg = 17" "msg ! 0 = 1"
    by (simp_all add: m(1) chunk_def)
  note c1 = c(1) [unfolded One_nat_def]
  define b where "b = min default_max_transfer_size k"
  have rd: "fb_new content off (int k) = (off + b, \<lparr>fb_data = fread off b content, fb_total = int (k - b), fb_good = True\<rparr>)"
    using fb_read_ok [of "\<lparr>fb_data = [], fb_total = int k, fb_good = True\<rparr>" off content b] e
    by (simp add: fb_new_def b_def of_nat_diff min_def)
  have b: "0 < b" "b \<le> k" using m(3) by (auto simp: b_def default_max_transfer_size_def)
  have "server_handle_msg creatable (fk_stream (fl_server l) \<noteq> None) msg server_files (fl_server l) =
      (server_files, \<lparr>fk_state = TRANS_BUSY, fk_file = Some (name, off + b), fk_unpacker = None,
         fk_stream = Some \<lparr>fb_data = fread off b content, fb_total = int (k - b), fb_good = True\<rparr>\<rparr>, [])"
    using ph e m(3) sf
    by (simp add: Let_def server_handle_msg_def server_order_1_def ORDER_LEN_def OFFSET_LEN_def DATA_LEN_def c c1 v start_stream_def
        content_of_def rd)
  then show ?thesis using ph m(2,3) b
    by (auto simp: server_order_def off_def [symmetric] k_def [symmetric] Let_def fread_def intro!: exI [of _ b])
qed

lemma flowing_step:
  assumes ph: "phase_link name content n i (Flowing don put) l" and n: "i < n" and sf: "server_files name = Some content"
  shows "\<exists>ph. phase_link name content n i ph (server_sends server_files l) \<and>
    phase_done (piece_len n i (length content)) ph = don \<and>
    phase_work (piece_len n i (length content)) ph < phase_work (piece_len n i (length content)) (Flowing don put)"
proof -
  define off where "off = piece_start n i (length content)"
  define len where "len = piece_len n i (length content)"
  have e: "off + len \<le> length content" using piece_end_le [OF n] by (simp add: off_def len_def)
  obtain k where k: "0 < k" "put + k \<le> len"
    and sv: "fl_server l = \<lparr>fk_state = TRANS_BUSY, fk_file = Some (name, off + put + k), fk_unpacker = None,
      fk_stream = Some \<lparr>fb_data = fread (off + put) k content, fb_total = int (len - put - k), fb_good = True\<rparr>\<rparr>"
    using ph by (auto simp: Let_def off_def len_def)
  have l: "don \<le> put" "put < len" "fl_up l = []" "fl_down l = map Raw (fread (off + don) (put - don) content)"
    "fl_client l = \<lparr>fk_state = TRANS_BUSY, fk_file = Some (name, off + don), fk_unpacker = Some (int (len - don)), fk_stream = None\<rparr>"
    using ph by (auto simp: Let_def off_def len_def)
  have down: "fread (off + don) (put - don) content @ fread (off + put) k content = fread (off + don) (put + k - don) content"
    using fread_split [of "off + don" "put - don" k content] l(1) by simp
  define b where "b = min default_max_transfer_size (len - put - k)"
  have "len - put - k - default_max_transfer_size = len - put - k - b" by (simp add: b_def)
  then have rd: "fb_read content (off + put + k) \<lparr>fb_data = fread (off + put) k content, fb_total = int (len - put - k), fb_good = True\<rparr> =
      (True, off + put + k + b, \<lparr>fb_data = fread (off + put + k) b content, fb_total = int (len - put - k - b), fb_good = True\<rparr>)"
    using fb_read_nat [of "off + put + k" "len - put - k" content] e k(2) unfolding b_def by simp
  show ?thesis
  proof (cases "put + k = len")
    case True
    then have "phase_link name content n i (Draining don) (server_sends server_files l)"
      using l down sv rd by (simp add: server_sends_def on_msg_send_def content_of_def sf fread_def b_def fk_defs Let_def
          off_def [symmetric] len_def [symmetric] flip: map_append)
    then show ?thesis using l(1,2) by (intro exI [of _ "Draining don"]) (simp add: len_def)
  next
    case False
    then have b: "0 < b" "put + k + b \<le> len" using k by (auto simp: b_def default_max_transfer_size_def)
    then have ne: "fread (off + put + k) b content \<noteq> []" using fread_len [of "off + put + k" b content] e by auto
    have "phase_link name content n i (Flowing don (put + k)) (server_sends server_files l)"
      using l down sv rd b ne False k
      by (simp add: server_sends_def on_msg_send_def content_of_def sf Let_def off_def [symmetric] len_def [symmetric]
          flip: map_append) (simp only: add.assoc)
    then show ?thesis using k l(1) by (intro exI [of _ "Flowing don (put + k)"]) (simp add: len_def)
  qed
qed

lemma room_le: "fu_room (int left) \<le> left" if "left < 2 ^ 63"
  using that by (auto simp: fu_room_def)

lemma raws_in_front:
  "map Raw (fread pos m content) = map Raw ys @ rest \<Longrightarrow> pos + m \<le> length content \<Longrightarrow>
   length ys \<le> m \<and> ys = fread pos (length ys) content \<and> rest = map Raw (fread (pos + length ys) (m - length ys) content)"
proof -
  assume e: "map Raw (fread pos m content) = map Raw ys @ rest" and b: "pos + m \<le> length content"
  have "length (map Raw (fread pos m content)) = length ys + length rest" unfolding e by simp
  then have l: "length ys \<le> m" using fread_len [OF b] by simp
  have s: "fread pos m content = fread pos (length ys) content @ fread (pos + length ys) (m - length ys) content"
    using fread_split [of pos "length ys" "m - length ys" content] l by simp
  have "length (fread pos (length ys) content) = length ys" using fread_len [of pos "length ys" content] b l by simp
  then have "map Raw ys = map Raw (fread pos (length ys) content) \<and> rest = map Raw (fread (pos + length ys) (m - length ys) content)"
    using e unfolding s map_append by simp
  moreover have "inj Raw" by (rule injI) simp
  ultimately show ?thesis using l by (simp add: inj_map_eq_map)
qed

text \<open>The client's socket after a read in the middle of its piece.\<close>

definition received :: "bytes \<Rightarrow> nat \<Rightarrow> nat \<Rightarrow> nat \<Rightarrow> nat \<Rightarrow> file_sock" where
  "received name off don left m =
     (if m = left then fk_new
      else \<lparr>fk_state = TRANS_BUSY, fk_file = Some (name, off + (don + m)), fk_unpacker = Some (int (left - m)), fk_stream = None\<rparr>)"

lemma received_link:
  assumes ph: "phase_link name content n i ph l" and n: "i < n" and down: "fl_down l = map Raw ys @ rest" and ys: "ys \<noteq> []"
  defines "off \<equiv> piece_start n i (length content)" and "k \<equiv> piece_len n i (length content)"
  defines "don \<equiv> phase_done k ph"
  assumes y: "length ys \<le> k - don"
  shows "\<exists>ph1. phase_link name content n i ph1 (l\<lparr>fl_down := rest, fl_client := received name off don (k - don) (length ys)\<rparr>) \<and>
    phase_work k ph1 < phase_work k ph \<and> phase_done k ph1 = don + length ys \<and> ys = fread (off + don) (length ys) content"
proof (cases "\<exists>put. ph = Flowing don put")
  case True
  then obtain put where put: "ph = Flowing don put" by blast
  then have l: "don \<le> put" "put < k" "fl_down l = map Raw (fread (off + don) (put - don) content)"
    using ph by (auto simp: Let_def off_def k_def)
  have "off + don + (put - don) \<le> length content" using piece_end_le [OF n, of "length content"] l(1,2) by (simp add: off_def k_def)
  note f = raws_in_front [OF down [unfolded l(3)] this]
  have "phase_link name content n i (Flowing (don + length ys) put) (l\<lparr>fl_down := rest, fl_client := received name off don (k - don) (length ys)\<rparr>)"
    using ph put l f by (auto simp: Let_def off_def k_def received_def add.assoc)
  moreover have "0 < length ys" "length ys \<le> put - don" using f ys by auto
  then have "phase_work k (Flowing (don + length ys) put) < phase_work k ph" using l(1,2) unfolding put phase_work.simps by arith
  ultimately show ?thesis using f by fastforce
next
  case False
  have ph2: "ph = Draining don" using ph down ys y False by (cases ph; cases ys) (auto simp: Let_def don_def k_def)
  then have l: "don < k" "fl_down l = map Raw (fread (off + don) (k - don) content)"
    using ph by (auto simp: Let_def off_def k_def)
  have "off + don + (k - don) \<le> length content" using piece_end_le [OF n, of "length content"] l(1) by (simp add: off_def k_def)
  note f = raws_in_front [OF down [unfolded l(2)] this]
  let ?ph = "if length ys = k - don then Finished else Draining (don + length ys)"
  have p: "phase_link name content n i ?ph (l\<lparr>fl_down := rest, fl_client := received name off don (k - don) (length ys)\<rparr>)"
    using ph ph2 l f y by (auto simp: Let_def off_def k_def received_def fk_new_def fread_def add.assoc)
  have m: "0 < length ys" using ys by simp
  moreover have "phase_work k ?ph < phase_work k ph" "phase_done k ?ph = don + length ys"
    using l(1) y m by (simp_all add: ph2 del: length_greater_0_conv) arith
  ultimately show ?thesis using f p by blast
qed

lemma receiving_step:
  assumes cl: "fl_client (tr_links t ! i) =
      \<lparr>fk_state = TRANS_BUSY, fk_file = Some (name, off + don), fk_unpacker = Some (int left), fk_stream = None\<rparr>"
    and i: "i < length (tr_links t)" and m: "length ys \<le> left" and hv: "tr_files t name = Some have"
  shows "client_content i ys t = t\<lparr>tr_files := (tr_files t)(name \<mapsto> fwrite (off + don) ys have),
     tr_done := tr_done t + int (length ys), tr_links := (tr_links t)[i := (tr_links t ! i)\<lparr>fl_client := received name off don left (length ys)\<rparr>]\<rparr>"
  using assms
  by (simp add: client_content_def fu_parse_msg_def handle_busy_def fu_is_finished_def content_of_def fk_defs received_def of_nat_diff add.assoc)

lemma content_step:
  assumes ph: "phase_link name content n i ph (tr_links t ! i)" and n: "i < n" "length (tr_links t) = n"
    and len: "length content < 2 ^ 63" and hv: "tr_files t name = Some have"
    and down: "fl_down (tr_links t ! i) = map Raw ys @ rest" and unp: "fk_unpacker (fl_client (tr_links t ! i)) = Some total_len"
    and room: "length ys = fu_room total_len" "ys \<noteq> []"
  defines "off \<equiv> piece_start n i (length content)" and "k \<equiv> piece_len n i (length content)"
    and "t1 \<equiv> client_content i ys (t\<lparr>tr_links := (tr_links t)[i := (tr_links t ! i)\<lparr>fl_down := rest\<rparr>]\<rparr>)"
  shows "\<exists>ph1. phase_link name content n i ph1 (tr_links t1 ! i) \<and> phase_work k ph1 < phase_work k ph \<and>
      phase_done k ph1 = phase_done k ph + length ys \<and> phase_done k ph1 \<le> k \<and> ys = fread (off + phase_done k ph) (length ys) content"
    and "length (tr_links t1) = n" "\<forall>j. j \<noteq> i \<longrightarrow> tr_links t1 ! j = tr_links t ! j"
    and "tr_files t1 = (tr_files t)(name \<mapsto> fwrite (off + phase_done k ph) ys have)"
proof -
  let ?don = "phase_done k ph"
  let ?t = "t\<lparr>tr_links := (tr_links t)[i := (tr_links t ! i)\<lparr>fl_down := rest\<rparr>]\<rparr>"
  have e: "off + k \<le> length content" using piece_end_le [OF n(1)] by (simp add: off_def k_def)
  have cl: "fl_client (tr_links t ! i) = \<lparr>fk_state = TRANS_BUSY, fk_file = Some (name, off + ?don), fk_unpacker = Some (int (k - ?don)), fk_stream = None\<rparr> \<and> ?don < k"
    using ph unp down room(2) by (cases ph) (auto simp: Let_def off_def k_def)
  then have tl: "total_len = int (k - ?don)" using unp by simp
  have y: "length ys \<le> k - ?don" using room_le [of "k - ?don"] len e room(1) unfolding tl by simp
  have at: "fl_client (tr_links ?t ! i) = \<lparr>fk_state = TRANS_BUSY, fk_file = Some (name, off + ?don), fk_unpacker = Some (int (k - ?don)), fk_stream = None\<rparr>"
    "i < length (tr_links ?t)" "tr_files ?t name = Some have" using cl n hv by simp_all
  note t1 = receiving_step [OF at(1,2) y at(3), folded t1_def]
  have l1: "tr_links t1 ! i = (tr_links t ! i)\<lparr>fl_down := rest, fl_client := received name off ?don (k - ?don) (length ys)\<rparr>"
    using n by (simp add: t1)
  show "\<exists>ph1. phase_link name content n i ph1 (tr_links t1 ! i) \<and> phase_work k ph1 < phase_work k ph \<and>
      phase_done k ph1 = phase_done k ph + length ys \<and> phase_done k ph1 \<le> k \<and> ys = fread (off + phase_done k ph) (length ys) content"
    using received_link [OF ph n(1) down room(2)] y cl unfolding l1 by (force simp: off_def k_def)
  show "length (tr_links t1) = n" "\<forall>j. j \<noteq> i \<longrightarrow> tr_links t1 ! j = tr_links t ! j"
    "tr_files t1 = (tr_files t)(name \<mapsto> fwrite (off + phase_done k ph) ys have)"
    using n by (simp_all add: t1)
qed

section \<open>All links\<close>

lemma work_drops:
  assumes "i < length phs" "phase_work (piece_len (length phs) i (length content)) ph < phase_work (piece_len (length phs) i (length content)) (phs ! i)"
  shows "transfer_work content (phs[i := ph]) < transfer_work content phs"
proof -
  let ?w = "\<lambda>qs j. phase_work (piece_len (length phs) j (length content)) (qs ! j)"
  have "(\<Sum>j<length phs. ?w (phs[i := ph]) j) < (\<Sum>j<length phs. ?w phs j)"
    using assms by (intro sum_strict_mono_ex1) (auto simp: nth_list_update intro!: bexI [of _ i])
  then show ?thesis by (simp add: transfer_work_def)
qed

text \<open>A step of link \<open>i\<close> that leaves the files alone.\<close>

lemma at_update:
  assumes "transfer_at name content phs t" "i < length phs" "phase_link name content (length phs) i ph (tr_links t1 ! i)"
    "length (tr_links t1) = length (tr_links t)" "\<forall>j. j \<noteq> i \<longrightarrow> tr_links t1 ! j = tr_links t ! j" "tr_files t1 = tr_files t"
    "phase_done (piece_len (length phs) i (length content)) ph = phase_done (piece_len (length phs) i (length content)) (phs ! i)"
  shows "transfer_at name content (phs[i := ph]) t1"
  using assms by (auto simp: transfer_at_def piece_ok_def nth_list_update)

text \<open>Link \<open>i\<close> writes what it has received behind what it has.\<close>

lemma piece_ok_write:
  assumes ok: "piece_ok content n i ph have" and i: "i < n"
  defines "off \<equiv> piece_start n i (length content)" and "k \<equiv> piece_len n i (length content)"
  assumes d: "phase_done k ph1 = phase_done k ph + length ys" "phase_done k ph1 \<le> k"
    and ys: "ys = fread (off + phase_done k ph) (length ys) content"
  shows "piece_ok content n i ph1 (fwrite (off + phase_done k ph) ys have)"
proof -
  have "off + phase_done k ph + length ys \<le> length content" using piece_end_le [OF i, of "length content"] d by (simp add: off_def k_def)
  then show ?thesis using has_part_write [OF _ _ ys] ok d(1) unfolding piece_ok_def off_def [symmetric] k_def [symmetric] by simp
qed

lemma piece_ok_others:
  assumes ok: "piece_ok content n j ph have" and j: "j < n" "i < n" "i \<noteq> j"
    and d: "phase_done (piece_len n j (length content)) ph \<le> piece_len n j (length content)"
    and w: "piece_start n i (length content) \<le> pos" "pos + length ys \<le> piece_start n i (length content) + piece_len n i (length content)"
  shows "piece_ok content n j ph (fwrite pos ys have)"
proof -
  have "pos + length ys \<le> piece_start n j (length content) \<or> piece_start n j (length content) + phase_done (piece_len n j (length content)) ph \<le> pos"
    using pieces_disjoint [of i j n "length content"] pieces_disjoint [of j i n "length content"] j d w by linarith
  then show ?thesis using ok by (simp add: piece_ok_def has_part_other)
qed

lemma phase_done_le: "phase_link name content n i ph l \<Longrightarrow> phase_done (piece_len n i (length content)) ph \<le> piece_len n i (length content)"
  by (cases ph) (auto simp: Let_def)

lemma at_content:
  assumes at: "transfer_at name content phs t" and i: "i < length phs"
    and link: "phase_link name content (length phs) i ph1 (tr_links t1 ! i)" "length (tr_links t1) = length phs"
      "\<forall>j. j \<noteq> i \<longrightarrow> tr_links t1 ! j = tr_links t ! j"
  defines "off \<equiv> piece_start (length phs) i (length content)" and "k \<equiv> piece_len (length phs) i (length content)"
  assumes hv: "tr_files t name = Some have"
    and fl: "tr_files t1 = (tr_files t)(name \<mapsto> fwrite (off + phase_done k (phs ! i)) ys have)"
    and d: "phase_done k ph1 = phase_done k (phs ! i) + length ys" "phase_done k ph1 \<le> k"
    and ys: "ys = fread (off + phase_done k (phs ! i)) (length ys) content"
  shows "transfer_at name content (phs[i := ph1]) t1"
proof -
  let ?s = "off + phase_done k (phs ! i)"
  let ?new = "fwrite ?s ys have"
  have old: "length have \<le> length content" "\<And>j. j < length phs \<Longrightarrow>
      phase_link name content (length phs) j (phs ! j) (tr_links t ! j) \<and> piece_ok content (length phs) j (phs ! j) have"
    using at hv by (auto simp: transfer_at_def)
  have e: "?s + length ys \<le> off + k" using d by simp
  have le: "length ?new \<le> length content"
    using old(1) e piece_end_le [OF i, of "length content"] by (simp add: length_fwrite off_def k_def)
  have "phase_link name content (length phs) j (phs[i := ph1] ! j) (tr_links t1 ! j) \<and> piece_ok content (length phs) j (phs[i := ph1] ! j) ?new"
    if j: "j < length phs" for j
  proof (cases "j = i")
    case True
    have "piece_ok content (length phs) i ph1 ?new"
      using piece_ok_write [of content "length phs" i "phs ! i" "have" ph1 ys] old(2) [OF i] i d ys by (simp add: off_def k_def)
    then show ?thesis using True i link(1) by simp
  next
    case False
    have w: "piece_start (length phs) i (length content) \<le> ?s" by (simp add: off_def)
    have e2: "?s + length ys \<le> piece_start (length phs) i (length content) + piece_len (length phs) i (length content)"
      using e by (simp add: off_def k_def)
    have "piece_ok content (length phs) j (phs ! j) ?new"
      by (rule piece_ok_others [OF _ j i _ _ w e2])
        (use old(2) [OF j] False phase_done_le in \<open>auto simp: k_def\<close>)
    then show ?thesis using False old(2) [OF j] link(3) by simp
  qed
  then show ?thesis using link(2) fl le by (auto simp: transfer_at_def)
qed

text \<open>Every step leaves the links as some phases say, with less work to do.\<close>

lemma at_step:
  assumes st: "transfer_step creatable server_files t t1" and at: "transfer_at name content phs t"
    and ok: "name \<noteq> []" "0 \<notin> set name" "server_files name = Some content" "length content < 2 ^ 63"
  shows "\<exists>phs1. length phs1 = length phs \<and> transfer_at name content phs1 t1 \<and> transfer_work content phs1 < transfer_work content phs"
proof -
  have link: "phase_link name content (length phs) i (phs ! i) (tr_links t ! i)" if "i < length (tr_links t)" for i
    using at that by (auto simp: transfer_at_def)
  have len: "length (tr_links t) = length phs" using at by (simp add: transfer_at_def)
  have upd: "\<exists>phs1. length phs1 = length phs \<and> transfer_at name content phs1 t1 \<and> transfer_work content phs1 < transfer_work content phs"
    if "i < length (tr_links t)" "phase_link name content (length phs) i ph (tr_links t1 ! i)"
      "length (tr_links t1) = length (tr_links t)" "\<forall>j. j \<noteq> i \<longrightarrow> tr_links t1 ! j = tr_links t ! j" "tr_files t1 = tr_files t"
      "phase_done (piece_len (length phs) i (length content)) ph = phase_done (piece_len (length phs) i (length content)) (phs ! i)"
      "phase_work (piece_len (length phs) i (length content)) ph < phase_work (piece_len (length phs) i (length content)) (phs ! i)" for i ph
    using at_update [OF at, of i ph t1] work_drops [of i phs content ph] that len by (intro exI [of _ "phs[i := ph]"]) simp
  from st show ?thesis
  proof cases
    case (server_reads i msg rest)
    note l = link [OF server_reads(2)]
    show ?thesis
    proof (cases "phs ! i")
      case Asked
      then show ?thesis
        using upd [OF server_reads(2), of Answered] asked_step [where server_files = server_files and creatable = creatable, OF l [unfolded Asked] ok(3,2,1)] server_reads l by simp
    next
      case Wanted
      then show ?thesis
        using upd [OF server_reads(2), of "Flowing 0 0"] server_reads len
          wanted_step [where server_files = server_files and creatable = creatable, OF l [unfolded Wanted] _ ok(4,3) server_reads(3)] by (auto simp del: phase_link.simps)
    qed (use l server_reads(3) in \<open>auto simp: Let_def\<close>)
  next
    case (server_writes i)
    note l = link [OF server_writes(2)]
    obtain don put where f: "phs ! i = Flowing don put"
      using l server_writes(3) by (cases "phs ! i") (auto simp: Let_def fk_new_def)
    from flowing_step [OF l [unfolded f], of server_files] len ok(3) server_writes(2) obtain ph where
      "phase_link name content (length phs) i ph (server_sends server_files (tr_links t ! i))"
      "phase_done (piece_len (length phs) i (length content)) ph = don"
      "phase_work (piece_len (length phs) i (length content)) ph < phase_work (piece_len (length phs) i (length content)) (phs ! i)"
      unfolding f by auto
    then show ?thesis using upd [OF server_writes(2), of ph] server_writes(1,2) by (simp add: f)
  next
    case (client_reads i msg rest)
    note l = link [OF client_reads(2)]
    have a: "phs ! i = Answered" "msg = 0 # fl_bytes (int (length content))" "rest = []"
      using l client_reads(3) by (cases "phs ! i"; auto simp: Let_def map_eq_Cons_conv Cons_eq_map_conv dest: sym)+
    note b = answered_step [OF l [unfolded a(1)] len _ ok(4), folded a(2)]
    show ?thesis
      using b upd [OF client_reads(2), of Wanted] upd [OF client_reads(2), of Finished] client_reads(1,2) len a(1,3) by auto
  next
    case (client_receives i ys rest total_len)
    note l = link [OF client_receives(2)]
    obtain "have" where hv: "tr_files t name = Some have" using at by (auto simp: transfer_at_def)
    have i: "i < length phs" using client_receives(2) len by simp
    note c = content_step [OF l i len ok(4) hv client_receives(3,4,5,6), folded client_receives(1)]
    from c(1) obtain ph1 where "phase_link name content (length phs) i ph1 (tr_links t1 ! i)" and
      w: "phase_work (piece_len (length phs) i (length content)) ph1 < phase_work (piece_len (length phs) i (length content)) (phs ! i)" and
      "phase_done (piece_len (length phs) i (length content)) ph1 = phase_done (piece_len (length phs) i (length content)) (phs ! i) + length ys"
      "phase_done (piece_len (length phs) i (length content)) ph1 \<le> piece_len (length phs) i (length content)"
      "ys = fread (piece_start (length phs) i (length content) + phase_done (piece_len (length phs) i (length content)) (phs ! i)) (length ys) content"
      by blast
    then have "transfer_at name content (phs[i := ph1]) t1" using at_content [OF at i _ c(2,3) hv c(4), of ph1] by simp
    then show ?thesis using work_drops [OF i w] by (intro exI [of _ "phs[i := ph1]"]) simp
  qed
qed

text \<open>As long as a link is busy, some link can go on.\<close>

lemma at_can_step:
  assumes at: "transfer_at name content phs t" and len: "length content < 2 ^ 63" and busy: "\<not> is_end t"
  shows "\<exists>t1. transfer_step creatable server_files t t1"
proof -
  obtain i where i: "i < length (tr_links t)" and b: "fk_state (fl_client (tr_links t ! i)) \<noteq> TRANS_IDLE"
    using busy by (auto simp: is_end_def in_set_conv_nth)
  have l: "phase_link name content (length phs) i (phs ! i) (tr_links t ! i)" "i < length phs" using at i by (auto simp: transfer_at_def)
  show ?thesis
  proof (cases "phs ! i")
    case Asked
    then show ?thesis using l(1) transfer_step.server_reads [OF i] by (fastforce simp: fk_new_def)
  next
    case Answered
    then show ?thesis using l(1) transfer_step.client_reads [OF i] by fastforce
  next
    case Wanted
    then show ?thesis using l(1) transfer_step.server_reads [OF i] by (fastforce simp: Let_def)
  next
    case (Flowing don put)
    then have "fk_stream (fl_server (tr_links t ! i)) \<noteq> None" using l(1) by (auto simp: Let_def)
    then show ?thesis using transfer_step.server_writes [OF i] by blast
  next
    case (Draining don)
    define off where "off = piece_start (length phs) i (length content)"
    define k where "k = piece_len (length phs) i (length content)"
    have e: "off + k \<le> length content" using piece_end_le [OF l(2)] by (simp add: off_def k_def)
    have d: "don < k" "fl_down (tr_links t ! i) = map Raw (fread (off + don) (k - don) content)"
      "fk_unpacker (fl_client (tr_links t ! i)) = Some (int (k - don))"
      using l(1) by (simp_all add: Draining Let_def off_def k_def)
    define m where "m = fu_room (int (k - don))"
    have m: "0 < m" "m \<le> k - don" using d(1) e len room_le [of "k - don"] unfolding m_def
      by (auto simp: fu_room_def default_max_transfer_size_def)
    have "m + (k - don - m) = k - don" using m(2) by (rule le_add_diff_inverse)
    then have "fread (off + don) (k - don) content = fread (off + don) m content @ fread (off + don + m) (k - don - m) content"
      by (simp only: fread_split [symmetric])
    moreover have ys: "length (fread (off + don) m content) = m" using fread_len [of "off + don" m content] e m d(1) by simp
    moreover from ys m have "fread (off + don) m content \<noteq> []" by auto
    ultimately show ?thesis using transfer_step.client_receives [OF i, of "fread (off + don) m content"] d(2,3) unfolding m_def
      by (metis map_append)
  qed (use l(1) b in \<open>auto simp: fk_new_def\<close>)
qed

text \<open>When every link has ended, the pieces make up the file.\<close>

lemma at_end:
  assumes at: "transfer_at name content phs t" and e: "is_end t"
  shows "phs \<noteq> [] \<Longrightarrow> tr_files t name = Some content"
proof -
  assume ne: "phs \<noteq> []"
  obtain "have" where hv: "tr_files t name = Some have" "length have \<le> length content" "length (tr_links t) = length phs"
    and ok: "\<And>i. i < length phs \<Longrightarrow> phase_link name content (length phs) i (phs ! i) (tr_links t ! i) \<and> piece_ok content (length phs) i (phs ! i) have"
    using at by (auto simp: transfer_at_def)
  have fin: "phs ! i = Finished" if i: "i < length phs" for i
  proof -
    have "fk_state (fl_client (tr_links t ! i)) = TRANS_IDLE" using e i hv(3) by (auto simp: is_end_def)
    then show ?thesis using ok [OF i] by (cases "phs ! i") (auto simp: Let_def)
  qed
  have "have = content" using has_all_parts [of "length phs" content "have"] ok fin hv(2) ne by (auto simp: piece_ok_def)
  then show ?thesis using hv(1) by simp
qed

text \<open>The beginning.\<close>

definition link_asked :: "bytes \<Rightarrow> file_link" where
  "link_asked name = \<lparr>fl_client = \<lparr>fk_state = TRANS_PREPARE, fk_file = Some (name, 0), fk_unpacker = None, fk_stream = None\<rparr>,
     fl_server = fk_new, fl_up = [Order (0 # name)], fl_down = []\<rparr>"

lemma get_on_other: "(i = 0) \<noteq> master_only \<Longrightarrow> i < length (tr_links (snd r)) \<Longrightarrow> get_on creatable name master_only i r = r"
  by (cases r) (auto simp: get_on_def get_file_def)

lemma get_on_idle:
  assumes "c_str name = name" "(i = 0) = master_only" "tr_links t ! i = link_idle" "if master_only then creatable name else tr_files t name \<noteq> None"
  shows "get_on creatable name master_only i (True, t) =
    (True, t\<lparr>tr_files := if master_only then (tr_files t)(name \<mapsto> []) else tr_files t, tr_links := (tr_links t)[i := link_asked name]\<rparr>)"
  using assms by (auto simp: get_on_def get_file_def link_idle_def link_asked_def fk_new_def)

lemma fold_others: "(\<And>i. i \<in> set is \<Longrightarrow> i \<noteq> 0 \<and> i < length (tr_links (snd r))) \<Longrightarrow> fold (get_on creatable name True) is r = r"
  by (induction "is") (simp_all add: get_on_other)

lemma fold_second_pass:
  assumes "m \<le> n" "0 < n" "length (tr_links t) = n" "tr_links t = link_asked name # replicate (n - 1) link_idle" "tr_files t name \<noteq> None" "c_str name = name"
  shows "fold (get_on creatable name False) [0..<m] (True, t) =
    (True, t\<lparr>tr_links := replicate (max 1 m) (link_asked name) @ replicate (n - max 1 m) link_idle\<rparr>)"
  using assms(1)
proof (induction m)
  case 0
  then show ?case using assms(4) by (cases t) simp
next
  case (Suc m)
  let ?t = "t\<lparr>tr_links := replicate (max 1 m) (link_asked name) @ replicate (n - max 1 m) link_idle\<rparr>"
  have ih: "fold (get_on creatable name False) [0..<m] (True, t) = (True, ?t)" using Suc by simp
  show ?case
  proof (cases "m = 0")
    case True
    then show ?thesis using get_on_other [of 0 False "(True, t)"] assms by (cases t) simp
  next
    case False
    have l: "m < n" using Suc by simp
    have "(replicate m (link_asked name) @ replicate (n - m) link_idle)[m := link_asked name] =
        replicate (Suc m) (link_asked name) @ replicate (n - Suc m) link_idle"
      using l by (intro nth_equalityI) (auto simp: nth_append nth_list_update less_Suc_eq simp del: replicate_Suc)
    moreover have "get_on creatable name False m (True, ?t) = (True, ?t\<lparr>tr_files := tr_files ?t, tr_links := (tr_links ?t)[m := link_asked name]\<rparr>)"
      using get_on_idle [of name m False ?t creatable] False l assms(5,6) by (simp add: nth_append max_def)
    ultimately show ?thesis using ih False by (simp add: max_def)
  qed
qed

lemma transmit_file_asks:
  assumes "0 < n" "creatable name" "0 \<notin> set name"
  shows "transmit_file creatable name (tr_new n fs) =
    (True, \<lparr>tr_files = fs(name \<mapsto> []), tr_size = - 1, tr_done = 0, tr_links = replicate n (link_asked name)\<rparr>)"
proof -
  obtain k where n: "n = Suc k" using assms(1) by (cases n) auto
  let ?t = "\<lparr>tr_files = fs(name \<mapsto> []), tr_size = - 1, tr_done = 0, tr_links = link_asked name # replicate k link_idle\<rparr>"
  have "get_on creatable name True 0 (True, tr_new n fs) = (True, ?t)"
    using get_on_idle [of name 0 True "tr_new n fs" creatable] assms(2) c_str_id [OF assms(3)] by (simp add: tr_new_def n)
  moreover have "fold (get_on creatable name True) [1..<n] (True, ?t) = (True, ?t)" by (rule fold_others) (auto simp: n)
  moreover have "[0..<n] = 0 # [1..<n]" using assms(1) by (simp add: upt_conv_Cons)
  moreover have "fold (get_on creatable name False) [0..<n] (True, ?t) = (True, ?t\<lparr>tr_links := replicate n (link_asked name)\<rparr>)"
    using fold_second_pass [of n n ?t name creatable] c_str_id [OF assms(3)] by (simp add: n)
  ultimately show ?thesis by (simp add: transmit_file_def Let_def tr_new_def)
qed

lemma at_begin:
  "transfer_at name content (replicate n Asked)
     \<lparr>tr_files = fs(name \<mapsto> []), tr_size = - 1, tr_done = 0, tr_links = replicate n (link_asked name)\<rparr>"
  by (auto simp: transfer_at_def piece_ok_def has_part_def link_asked_def)

lemma begin_work: "transfer_work content (replicate n Asked) \<le> n * (2 * length content + 3)"
proof -
  have "(\<Sum>i<n. phase_work (piece_len n i (length content)) (replicate n Asked ! i)) \<le> (\<Sum>i<n. 2 * length content + 3)"
    by (intro sum_mono) (use piece_end_le [of _ n "length content"] in \<open>fastforce\<close>)
  then show ?thesis by (simp add: transfer_work_def)
qed

text \<open>Fetching is a run that comes to rest.\<close>

interpretation fetching: step_measure "transfer_step creatable server_files"
  "\<lambda>w t. (name \<noteq> [] \<and> 0 \<notin> set name \<and> server_files name = Some content \<and> length content < 2 ^ 63) \<and>
     (\<exists>phs. length phs = n \<and> transfer_at name content phs t \<and> w = transfer_work content phs)"
  for creatable server_files name content n
  by unfold_locales (use at_step in metis)

lemma fetching_bounded:
  assumes "(transfer_step creatable server_files ^^ k) s t" "transfer_at name content phs s"
    and "name \<noteq> []" "0 \<notin> set name" "server_files name = Some content" "length content < 2 ^ 63"
  shows "\<exists>phs1. length phs1 = length phs \<and> transfer_at name content phs1 t \<and> transfer_work content phs1 + k \<le> transfer_work content phs"
proof -
  have "(name \<noteq> [] \<and> 0 \<notin> set name \<and> server_files name = Some content \<and> length content < 2 ^ 63) \<and>
      (\<exists>phs1. length phs1 = length phs \<and> transfer_at name content phs1 s \<and> transfer_work content phs = transfer_work content phs1)"
    using assms(2-6) by blast
  from fetching.bounded_steps [OF assms(1) this] show ?thesis by (auto simp: add.commute)
qed

text \<open>
  C12. A file fetched over any number of links: when the client's links have all ended, in whatever order the orders and the blocks of
  the pieces were handled, the client's file is the server's, and what it had under that name before does not matter.
\<close>

theorem get_file_exact:
  assumes "0 < n" "creatable name" "name \<noteq> []" "0 \<notin> set name" "server_files name = Some content" "length content < 2 ^ 63"
    and "transmit_file creatable name (tr_new n fs) = (ok, t0)" "(transfer_step creatable server_files)\<^sup>*\<^sup>* t0 t" "is_end t"
  shows "tr_files t name = Some content"
proof -
  have t0: "t0 = \<lparr>tr_files = fs(name \<mapsto> []), tr_size = - 1, tr_done = 0, tr_links = replicate n (link_asked name)\<rparr>"
    using assms(7) transmit_file_asks [where creatable = creatable, OF assms(1,2,4)] by simp
  obtain k where "(transfer_step creatable server_files ^^ k) t0 t" using assms(8) rtranclp_imp_relpowp by metis
  from fetching_bounded [OF this [unfolded t0] at_begin assms(3-6)] obtain phs where "length phs = n" "transfer_at name content phs t" by auto
  then show ?thesis using at_end [OF _ assms(9)] assms(1) by auto
qed

text \<open>
  C13. And it does end: the links together take at most so many steps, every one of which brings the file forward, and until they have
  all ended one of them can go on.
\<close>

theorem get_file_ends:
  assumes "0 < n" "creatable name" "name \<noteq> []" "0 \<notin> set name" "server_files name = Some content" "length content < 2 ^ 63"
    and "transmit_file creatable name (tr_new n fs) = (ok, t0)" "(transfer_step creatable server_files ^^ k) t0 t"
  shows "ok \<and> k \<le> n * (2 * length content + 3) \<and> (is_end t \<or> (\<exists>t1. transfer_step creatable server_files t t1))"
proof -
  have t0: "ok" "t0 = \<lparr>tr_files = fs(name \<mapsto> []), tr_size = - 1, tr_done = 0, tr_links = replicate n (link_asked name)\<rparr>"
    using assms(7) transmit_file_asks [where creatable = creatable, OF assms(1,2,4)] by simp_all
  from fetching_bounded [OF assms(8) [unfolded t0(2)] at_begin assms(3-6)] obtain phs where
    p: "transfer_at name content phs t" "transfer_work content phs + k \<le> transfer_work content (replicate n Asked)" by blast
  show ?thesis using t0(1) p(2) begin_work [of content n] at_can_step [OF p(1) assms(6)] by fastforce
qed

text \<open>Seven bytes over three links; the last piece is the longest.\<close>

definition demo_name :: bytes where
  "demo_name = [97, 46, 98]"

definition demo_content :: bytes where
  "demo_content = [1, 2, 3, 4, 5, 6, 7]"

definition demo_server :: files where
  "demo_server = [demo_name \<mapsto> demo_content]"

definition demo_begin :: transfer where
  "demo_begin = snd (transmit_file (\<lambda>_. True) demo_name (tr_new 3 [demo_name \<mapsto> [9, 9]]))"

lemma demo_name_ok: "demo_name \<noteq> []" "0 \<notin> set demo_name" "demo_server demo_name = Some demo_content" "length demo_content < 2 ^ 63"
  by (simp_all add: demo_name_def demo_server_def demo_content_def)

lemma demo_begins: "transmit_file (\<lambda>_. True) demo_name (tr_new 3 [demo_name \<mapsto> [9, 9]]) = (True, demo_begin)"
  by (simp add: demo_begin_def transmit_file_asks demo_name_ok)

lemma fetch_demo_run: "\<exists>t. (transfer_step (\<lambda>_. True) demo_server)\<^sup>*\<^sup>* demo_begin t \<and> is_end t"
proof -
  have "transfer_at demo_name demo_content (replicate 3 Asked) demo_begin"
    by (simp add: demo_begin_def transmit_file_asks at_begin demo_name_ok)
  then obtain k t phs where "(transfer_step (\<lambda>_. True) demo_server ^^ k) demo_begin t" "transfer_at demo_name demo_content phs t"
    "\<nexists>u. transfer_step (\<lambda>_. True) demo_server t u"
    using fetching.comes_to_rest [where name = demo_name and content = demo_content and n = 3 and server_files = demo_server] demo_name_ok by fastforce
  then show ?thesis using at_can_step [OF _ demo_name_ok(4)] by (meson relpowp_imp_rtranclp)
qed

theorem get_file_exact_witness:
  "\<exists>t. (transfer_step (\<lambda>_. True) demo_server)\<^sup>*\<^sup>* demo_begin t \<and> is_end t \<and> tr_files t demo_name = Some [1, 2, 3, 4, 5, 6, 7]"
proof -
  obtain t where t: "(transfer_step (\<lambda>_. True) demo_server)\<^sup>*\<^sup>* demo_begin t" "is_end t" using fetch_demo_run by blast
  have "tr_files t demo_name = Some demo_content"
    by (rule get_file_exact [where creatable = "\<lambda>_. True" and server_files = demo_server, OF _ _ demo_name_ok demo_begins t]) simp_all
  then show ?thesis using t by (auto simp: demo_content_def)
qed

theorem get_file_ends_witness:
  "\<not> is_end demo_begin \<and> (\<exists>t. transfer_step (\<lambda>_. True) demo_server demo_begin t)"
proof -
  have "\<not> is_end demo_begin"
    by (simp add: demo_begin_def transmit_file_asks demo_name_ok is_end_def link_asked_def)
  moreover have "is_end demo_begin \<or> (\<exists>t. transfer_step (\<lambda>_. True) demo_server demo_begin t)"
    using get_file_ends [where creatable = "\<lambda>_. True" and server_files = demo_server and k = 0 and t = demo_begin, OF _ _ demo_name_ok demo_begins] by simp
  ultimately show ?thesis by simp
qed

end
