(* ===== verification/Shrink_Send.thy ===== *)
theory Shrink_Send
  imports Sync_Send
begin

text \<open>
  Sending with \<open>ASCS_SHRINK_SEND_BUFFER\<close> (\<open>socket.h\<close>): when the send buffer is full, \<open>shrink_send_buffer\<close> throws away its oldest
  messages, about a third of it, and the new message is accepted. It is the sender of theory Send_Path with several
  threads that send; a thread looks at the buffer, shrinks it if need be (one step, under the buffer's lock), and then queues its message.
\<close>

section \<open>The functions\<close>

definition calc_shrink_size :: "nat \<Rightarrow> nat" where
  "calc_shrink_size current_size = current_size div 3"

text \<open>
  The answer, the messages that are handed to \<open>on_msg_discard\<close>, and the sender. \<open>calc\<close> is \<open>calc_shrink_size\<close>, which users may
  replace.
\<close>

definition shrink_send_buffer :: "('m \<Rightarrow> nat) \<Rightarrow> nat \<Rightarrow> (nat \<Rightarrow> nat) \<Rightarrow> 'm sender \<Rightarrow> bool \<times> 'm list \<times> 'm sender" where
  "shrink_send_buffer sz send_buf_size calc s =
     (let size = q_size_in_byte (sd_buffer s)
      in if size < send_buf_size then (True, [], s)
         else
           let size1 = calc size
           in if size1 = 0 then (False, [], s)
              else let (msg_can, q) = move_items_out_bytes sz size1 (sd_buffer s) in (True, msg_can, s\<lparr>sd_buffer := q\<rparr>))"

text \<open>The head of every sending function and macro: the answer, the discarded messages, the sender.\<close>

definition with_room ::
  "('m \<Rightarrow> nat) \<Rightarrow> nat \<Rightarrow> (nat \<Rightarrow> nat) \<Rightarrow> bool \<Rightarrow> ('m sender \<Rightarrow> bool \<times> 'm sender) \<Rightarrow> 'm sender \<Rightarrow> bool \<times> 'm list \<times> 'm sender" where
  "with_room sz send_buf_size calc can_overflow send s =
     (if can_overflow then (let (re, s1) = send s in (re, [], s1))
      else
        let (available, msg_can, s1) = shrink_send_buffer sz send_buf_size calc s
        in if available then (let (re, s2) = send s1 in (re, msg_can, s2)) else (False, msg_can, s1))"

definition shrink_direct_send_msg ::
  "('m \<Rightarrow> nat) \<Rightarrow> nat \<Rightarrow> (nat \<Rightarrow> nat) \<Rightarrow> bool \<Rightarrow> 'm \<Rightarrow> bool \<Rightarrow> bool \<Rightarrow> 'm sender \<Rightarrow> bool \<times> 'm list \<times> 'm sender" where
  "shrink_direct_send_msg sz send_buf_size calc alloc msg can_overflow prior s =
     with_room sz send_buf_size calc can_overflow (do_direct_send_msg sz alloc prior msg) s"

definition shrink_direct_send_msgs ::
  "('m \<Rightarrow> nat) \<Rightarrow> nat \<Rightarrow> (nat \<Rightarrow> nat) \<Rightarrow> 'm list \<Rightarrow> bool \<Rightarrow> bool \<Rightarrow> 'm sender \<Rightarrow> bool \<times> 'm list \<times> 'm sender" where
  "shrink_direct_send_msgs sz send_buf_size calc msg_can can_overflow prior s =
     with_room sz send_buf_size calc can_overflow (do_direct_send_msgs sz prior msg_can) s"

text \<open>A replacement that never shrinks gives the sending functions without the macro.\<close>

lemma never_shrinking:
  "shrink_direct_send_msg sz send_buf_size (\<lambda>_. 0) alloc msg can_overflow prior s =
     (let (re, s1) = direct_send_msg sz send_buf_size alloc msg can_overflow prior s in (re, [], s1))"
  by (auto simp: shrink_direct_send_msg_def with_room_def shrink_send_buffer_def direct_send_msg_def is_send_buffer_available_def
      Let_def split_beta)

section \<open>What shrinking takes away\<close>

lemma bytes_prefix_enough: "min m (bytes_of sz xs) \<le> bytes_of sz (take (bytes_prefix sz m xs) xs)"
  by (induction sz m xs rule: bytes_prefix.induct) (auto simp: min_def split: if_splits)

lemma move_out_bytes_spec:
  assumes "q_inv sz q" "bytes_of sz (q_items q) \<le> SIZE_MAX" "move_items_out_bytes sz m q = (out, q1)"
  shows "q_inv sz q1 \<and> q_items q = out @ q_items q1 \<and> min m (bytes_of sz (q_items q)) \<le> bytes_of sz out"
proof -
  note sp = q_exec_spec [OF assms(1) _ assms(2), of "Op_move_out_bytes m" out q1]
  have parts: "q_items q = out @ q_items q1" using move_out_parts [OF assms(3)] by blast
  have "q_inv sz q1 \<and> (if m = npos then out = q_items q else out = take (bytes_prefix sz m (q_items q)) (q_items q))"
    using sp assms(3) by (auto split: if_splits)
  then show ?thesis using bytes_prefix_enough [of m sz "q_items q"] parts by (metis min.cobounded2)
qed

text \<open>The buffer's size is what its messages have.\<close>

definition counted :: "('m \<Rightarrow> nat) \<Rightarrow> 'm sender \<Rightarrow> bool" where
  "counted sz s \<longleftrightarrow> q_inv sz (sd_buffer s) \<and> bytes_of sz (q_items (sd_buffer s)) \<le> SIZE_MAX"

abbreviation buffered :: "('m \<Rightarrow> nat) \<Rightarrow> 'm sender \<Rightarrow> nat" where
  "buffered sz s \<equiv> bytes_of sz (q_items (sd_buffer s))"

lemma counted_size: "counted sz s \<Longrightarrow> q_size_in_byte (sd_buffer s) = buffered sz s"
  by (simp add: counted_def q_inv_exact)

lemma shrink_spec:
  assumes "counted sz s" "shrink_send_buffer sz send_buf_size calc s = (ok, out, s1)"
  shows "counted sz s1 \<and> q_items (sd_buffer s) = out @ q_items (sd_buffer s1) \<and> flag_inv s1 = flag_inv s \<and>
    (ok \<longrightarrow> (if buffered sz s < send_buf_size then out = [] else buffered sz s1 + min (calc (buffered sz s)) (buffered sz s) \<le> buffered sz s)) \<and>
    (\<not> ok \<longleftrightarrow> send_buf_size \<le> buffered sz s \<and> calc (buffered sz s) = 0)"
proof (cases "buffered sz s < send_buf_size \<or> calc (buffered sz s) = 0")
  case True
  then show ?thesis using assms counted_size [OF assms(1)] by (auto simp: shrink_send_buffer_def Let_def split: if_splits)
next
  case False
  obtain msg_can q where m: "move_items_out_bytes sz (calc (buffered sz s)) (sd_buffer s) = (msg_can, q)" by fastforce
  have r: "ok" "out = msg_can" "s1 = s\<lparr>sd_buffer := q\<rparr>"
    using assms(2) False counted_size [OF assms(1)] m by (auto simp: shrink_send_buffer_def Let_def split: if_splits)
  have sp: "q_inv sz q" "q_items (sd_buffer s) = msg_can @ q_items q" "min (calc (buffered sz s)) (buffered sz s) \<le> bytes_of sz msg_can"
    using move_out_bytes_spec [OF _ _ m] assms(1) by (auto simp: counted_def)
  then have b: "buffered sz s = bytes_of sz msg_can + bytes_of sz (q_items q)" by simp
  show ?thesis using sp b r False assms(1) by (auto simp: counted_def flag_inv_def)
qed

lemma queue_counted:
  assumes "counted sz s" "buffered sz s + sz msg \<le> SIZE_MAX" "s1 = snd (do_direct_send_msg sz alloc prior msg s)"
  shows "counted sz s1 \<and> buffered sz s1 \<le> buffered sz s + sz msg"
  using assms
  by (auto simp: do_direct_send_msg_def counted_def q_inv_def enqueue_def enqueue_front_def size_add_exact Let_def add.commute
      split: if_splits)

lemma queue_list_counted:
  assumes "counted sz s" "buffered sz s + bytes_of sz msgs \<le> SIZE_MAX" "s1 = snd (do_direct_send_msgs sz prior msgs s)"
  shows "counted sz s1 \<and> buffered sz s1 = buffered sz s + bytes_of sz msgs"
  using assms
  by (auto simp: do_direct_send_msgs_def counted_def q_inv_def move_items_in_def move_items_in_front_def size_add_exact
      get_size_bytes_of Let_def add.commute split: if_splits)

text \<open>No other step makes the buffer bigger.\<close>

lemma send_step_counted:
  assumes st: "send_step sz batch s ev s1" and q: "ev_queued ev = []" and c: "counted sz s" "flag_inv s"
  shows "counted sz s1 \<and> buffered sz s1 \<le> buffered sz s"
proof -
  have "mset (q_items (sd_buffer s)) = mset (ev_issued ev) + mset (ev_removed ev) + mset (q_items (sd_buffer s1))"
    using step_flow [OF st c(2)] q by simp
  then have "sum_mset (image_mset sz (mset (q_items (sd_buffer s)))) =
      sum_mset (image_mset sz (mset (ev_issued ev) + mset (ev_removed ev) + mset (q_items (sd_buffer s1))))" by simp
  then have le: "buffered sz s1 \<le> buffered sz s" by (simp add: bytes_of_def flip: sum_mset_sum_list)
  have "q_inv sz (sd_buffer s1)"
    using st c(1)
  proof cases
    case (queue alloc prior msg)
    then show ?thesis using q c(1) by (auto simp: do_direct_send_msg_def enqueue_def enqueue_front_def counted_def split: if_splits)
  next
    case (queue_list prior msg_can)
    then show ?thesis using q c(1) by (auto simp: do_direct_send_msgs_def move_items_in_def move_items_in_front_def counted_def
          q_inv_def get_size_bytes_of Let_def size_add_def split: if_splits)
  next
    case (pop_first msg)
    then show ?thesis using c(1) q_exec_spec [of sz "sd_buffer s" Op_try_dequeue]
      by (auto simp: counted_def pop_first_pending_send_msg_def split: prod.splits option.splits)
  next
    case (pop_all can)
    then show ?thesis by (auto simp: pop_all_pending_send_msg_def q_swap_def q_inv_def get_size_bytes_of Let_def)
  next
    case micro
    show ?thesis
    proof (cases "sd_pc s")
      case (Move_out b)
      obtain out q1 where mv: "move_items_out_bytes sz batch (sd_buffer s) = (out, q1)" by fastforce
      show ?thesis using move_out_step [OF c(2) Move_out mv] move_out_bytes_spec [OF _ _ mv] c(1) micro(2)
        by (auto simp: counted_def)
    qed (use micro(2) c(1) in \<open>auto simp: strand_step_def counted_def\<close>)
  qed (auto simp: counted_def send_msg_def post_send_msg_def begin_task_def begin_send_handler_def sender_start_def sender_reset_def
      q_clear_def q_inv_def)
  then show ?thesis using le c(1) by (simp add: counted_def)
qed

section \<open>Several threads\<close>

text \<open>
  \<open>sh_threads\<close>: threads that have room and are about to queue a message; \<open>sh_in\<close>: what was queued, in order; \<open>sh_left\<close>: what left
  the buffer, in order, marked with whether it was discarded or else handed to a write; \<open>sh_fifo\<close>: nobody has queued with
  priority, taken messages out of the buffer, or reset the socket.
\<close>

record 'm shrinker =
  sh_snd :: "'m sender"
  sh_threads :: nat
  sh_in :: "'m list"
  sh_left :: "(bool \<times> 'm) list"
  sh_fifo :: bool

definition sh_new :: "'m shrinker" where
  "sh_new = \<lparr>sh_snd = sd_new, sh_threads = 0, sh_in = [], sh_left = [], sh_fifo = True\<rparr>"

text \<open>
  At most \<open>threads\<close> threads send at once, messages of at most \<open>max_msg\<close> bytes and without \<open>can_overflow\<close>. \<open>give_up\<close>: the packer fails.
\<close>

inductive shrink_step :: "('m \<Rightarrow> nat) \<Rightarrow> nat \<Rightarrow> nat \<Rightarrow> (nat \<Rightarrow> nat) \<Rightarrow> nat \<Rightarrow> nat \<Rightarrow> 'm shrinker \<Rightarrow> 'm shrinker \<Rightarrow> bool"
  for sz :: "'m \<Rightarrow> nat" and batch send_buf_size :: nat and calc :: "nat \<Rightarrow> nat" and threads max_msg :: nat where
  look: "sh_threads s < threads \<Longrightarrow> shrink_send_buffer sz send_buf_size calc (sh_snd s) = (ok, out, s1) \<Longrightarrow>
    shrink_step sz batch send_buf_size calc threads max_msg s
      (s\<lparr>sh_snd := s1, sh_threads := (if ok then sh_threads s + 1 else sh_threads s), sh_left := sh_left s @ map (Pair True) out\<rparr>)"
| queue_one: "0 < sh_threads s \<Longrightarrow> sz msg \<le> max_msg \<Longrightarrow>
    shrink_step sz batch send_buf_size calc threads max_msg s
      (s\<lparr>sh_snd := snd (do_direct_send_msg sz alloc prior msg (sh_snd s)), sh_threads := sh_threads s - 1,
         sh_in := sh_in s @ (if sz msg = 0 \<or> \<not> alloc then [] else [msg]), sh_fifo := (sh_fifo s \<and> \<not> prior)\<rparr>)"
| queue_many: "0 < sh_threads s \<Longrightarrow> bytes_of sz msgs \<le> max_msg \<Longrightarrow>
    shrink_step sz batch send_buf_size calc threads max_msg s
      (s\<lparr>sh_snd := snd (do_direct_send_msgs sz prior msgs (sh_snd s)), sh_threads := sh_threads s - 1,
         sh_in := sh_in s @ msgs, sh_fifo := (sh_fifo s \<and> \<not> prior)\<rparr>)"
| give_up: "0 < sh_threads s \<Longrightarrow> shrink_step sz batch send_buf_size calc threads max_msg s (s\<lparr>sh_threads := sh_threads s - 1\<rparr>)"
| other: "send_step sz batch (sh_snd s) ev s1 \<Longrightarrow> ev_queued ev = [] \<Longrightarrow>
    shrink_step sz batch send_buf_size calc threads max_msg s
      (s\<lparr>sh_snd := s1, sh_left := sh_left s @ map (Pair False) (ev_issued ev), sh_fifo := (sh_fifo s \<and> ev_fifo ev)\<rparr>)"

text \<open>The most the buffer can hold while \<open>threads\<close> threads send.\<close>

definition shrink_limit :: "nat \<Rightarrow> nat \<Rightarrow> nat \<Rightarrow> nat" where
  "shrink_limit send_buf_size threads max_msg = threads * max_msg + max (send_buf_size - 1) (2 * max_msg + 2)"

definition sh_inv :: "('m \<Rightarrow> nat) \<Rightarrow> nat \<Rightarrow> nat \<Rightarrow> nat \<Rightarrow> 'm shrinker \<Rightarrow> bool" where
  "sh_inv sz send_buf_size threads max_msg s \<longleftrightarrow>
     counted sz (sh_snd s) \<and> flag_inv (sh_snd s) \<and> sh_threads s \<le> threads \<and>
     buffered sz (sh_snd s) + sh_threads s * max_msg \<le> shrink_limit send_buf_size threads max_msg \<and>
     (sh_fifo s \<longrightarrow> sh_in s = map snd (sh_left s) @ q_items (sd_buffer (sh_snd s)))"

lemma sh_inv_new: "sh_inv sz send_buf_size threads max_msg sh_new"
  by (simp add: sh_inv_def sh_new_def counted_def sd_new_def q_new_def q_inv_def flag_inv_def)

text \<open>A thread that looks makes room for one more message, whatever the others are about to queue.\<close>

lemma room_for_one_more:
  assumes "b + k * m \<le> shrink_limit n t m" "k < t"
    and "if b < n then b1 = b else b1 + min (calc_shrink_size b) b \<le> b"
  shows "b1 + (k + 1) * m \<le> shrink_limit n t m"
proof (cases "b < n \<or> b < 3 * m + 3")
  case True
  have "(k + 1) * m \<le> t * m" using assms(2) by (intro mult_le_mono1) simp
  moreover have "b1 \<le> max (n - 1) (2 * m + 2)"
  proof (cases "b < n")
    case True
    then show ?thesis using assms(3) by simp
  next
    case False
    then have "b1 \<le> b - b div 3" "b < 3 * m + 3" using assms(3) True by (simp_all add: calc_shrink_size_def)
    then show ?thesis by linarith
  qed
  ultimately show ?thesis unfolding shrink_limit_def by linarith
next
  case False
  then have "b1 + b div 3 \<le> b" "m + 1 \<le> b div 3"
    using assms(3) by (simp_all add: calc_shrink_size_def less_eq_div_iff_mult_less_eq)
  then show ?thesis using assms(1) by simp
qed

lemma sh_inv_step:
  assumes st: "shrink_step sz batch send_buf_size calc_shrink_size threads max_msg s t"
    and i: "sh_inv sz send_buf_size threads max_msg s" and lim: "shrink_limit send_buf_size threads max_msg \<le> SIZE_MAX"
  shows "sh_inv sz send_buf_size threads max_msg t"
  using st
proof cases
  case (look ok out s1)
  have c: "counted sz (sh_snd s)" using i by (simp add: sh_inv_def)
  note sp = shrink_spec [OF c look(3)]
  have it: "q_items (sd_buffer (sh_snd s)) = out @ q_items (sd_buffer s1)" using sp by blast
  then have le: "buffered sz s1 \<le> buffered sz (sh_snd s)" by simp
  have room: "buffered sz s1 + (sh_threads s + 1) * max_msg \<le> shrink_limit send_buf_size threads max_msg" if ok
  proof (rule room_for_one_more)
    show "buffered sz (sh_snd s) + sh_threads s * max_msg \<le> shrink_limit send_buf_size threads max_msg" using i by (simp add: sh_inv_def)
    show "sh_threads s < threads" by (rule look(2))
    show "if buffered sz (sh_snd s) < send_buf_size then buffered sz s1 = buffered sz (sh_snd s)
      else buffered sz s1 + min (calc_shrink_size (buffered sz (sh_snd s))) (buffered sz (sh_snd s)) \<le> buffered sz (sh_snd s)"
      using sp that it by (metis append_Nil)
  qed
  have le2: "buffered sz s1 + sh_threads s * max_msg \<le> shrink_limit send_buf_size threads max_msg"
    using le i unfolding sh_inv_def by linarith
  have "sh_fifo s \<longrightarrow> sh_in s = map snd (sh_left s @ map (Pair True) out) @ q_items (sd_buffer s1)"
    using i it by (simp add: sh_inv_def comp_def)
  then show ?thesis using i sp room le2 look(1,2) by (cases ok) (simp_all add: sh_inv_def)
next
  case (queue_one msg prior alloc)
  have "sh_threads s * max_msg = max_msg + (sh_threads s - 1) * max_msg" using queue_one(2) by (cases "sh_threads s") simp_all
  moreover from this have "counted sz (sh_snd t) \<and> buffered sz (sh_snd t) \<le> buffered sz (sh_snd s) + sz msg"
    using i queue_one(3) lim by (intro queue_counted [where alloc = alloc and prior = prior]) (auto simp: sh_inv_def queue_one(1))
  moreover have "flag_inv (sh_snd t)"
    using flag_inv_same [of "sh_snd s"] i by (simp add: queue_one(1) sh_inv_def)
  ultimately show ?thesis using i queue_one by (auto simp: sh_inv_def do_direct_queue)
next
  case (queue_many msgs prior)
  have "sh_threads s * max_msg = max_msg + (sh_threads s - 1) * max_msg" using queue_many(2) by (cases "sh_threads s") simp_all
  moreover from this have "counted sz (sh_snd t) \<and> buffered sz (sh_snd t) = buffered sz (sh_snd s) + bytes_of sz msgs"
    using i queue_many(3) lim by (intro queue_list_counted [where prior = prior]) (auto simp: sh_inv_def queue_many(1))
  moreover have "flag_inv (sh_snd t)"
    using flag_inv_same [of "sh_snd s"] i by (simp add: queue_many(1) sh_inv_def)
  ultimately show ?thesis using i queue_many by (auto simp: sh_inv_def)
next
  case give_up
  have "(sh_threads s - 1) * max_msg \<le> sh_threads s * max_msg" by simp
  then have "buffered sz (sh_snd s) + (sh_threads s - 1) * max_msg \<le> shrink_limit send_buf_size threads max_msg"
    using i unfolding sh_inv_def by linarith
  then show ?thesis using i by (auto simp: sh_inv_def give_up intro: order_trans [OF diff_le_self])
next
  case (other ev s1)
  have f: "flag_inv (sh_snd s)" "counted sz (sh_snd s)" using i by (simp_all add: sh_inv_def)
  then show ?thesis
    using i send_step_counted [OF other(2,3) f(2,1)] flag_inv_step [OF other(2) f(1)] step_flow [OF other(2) f(1)] other(3)
    by (auto simp: sh_inv_def other(1) comp_def)
qed

interpretation shrinking: step_invariant "\<lambda>s. s = sh_new"
  "\<lambda>s t. shrink_limit n k m \<le> SIZE_MAX \<and> shrink_step sz batch n calc_shrink_size k m s t" "sh_inv sz n k m"
  by unfold_locales (auto intro: sh_inv_new sh_inv_step)

text \<open>
  C9. A shrinking send buffer. However many threads send at once, the buffer holds at most the configured size (or twice the biggest
  message and two bytes, if that is more) and one message for each thread; with a configured size of at least three bytes nobody is
  refused; and what was queued has been written, or was discarded, or is in the buffer, in this order, the oldest first.
\<close>

theorem shrinking_buffer:
  assumes "reach (\<lambda>s. s = sh_new) (shrink_step sz batch send_buf_size calc_shrink_size threads max_msg) s"
    and "shrink_limit send_buf_size threads max_msg \<le> SIZE_MAX"
  shows "q_size_in_byte (sd_buffer (sh_snd s)) = buffered sz (sh_snd s) \<and>
    buffered sz (sh_snd s) \<le> shrink_limit send_buf_size threads max_msg \<and>
    (3 \<le> send_buf_size \<longrightarrow> fst (shrink_send_buffer sz send_buf_size calc_shrink_size (sh_snd s))) \<and>
    (sh_fifo s \<longrightarrow> sh_in s = map snd (sh_left s) @ q_items (sd_buffer (sh_snd s)))"
proof -
  have "reach (\<lambda>s. s = sh_new) (\<lambda>s t. shrink_limit send_buf_size threads max_msg \<le> SIZE_MAX \<and>
      shrink_step sz batch send_buf_size calc_shrink_size threads max_msg s t) s"
    using assms by (auto elim: reach.induct intro: reach.intros)
  then have i: "sh_inv sz send_buf_size threads max_msg s" by (rule shrinking.reachable_inv)
  then have c: "counted sz (sh_snd s)" by (simp add: sh_inv_def)
  have "fst (shrink_send_buffer sz send_buf_size calc_shrink_size (sh_snd s))" if "3 \<le> send_buf_size"
    using shrink_spec [OF c, of send_buf_size calc_shrink_size] that
    by (cases "shrink_send_buffer sz send_buf_size calc_shrink_size (sh_snd s)") (auto simp: calc_shrink_size_def)
  then show ?thesis using i counted_size [OF c] by (auto simp: sh_inv_def)
qed

text \<open>A third message of two bytes for a buffer of three: the first one is discarded.\<close>

lemma reach_send:
  assumes "reach start (shrink_step sz batch n calc k m) s" "sh_threads s < k" "sz msg \<le> m" "sz msg \<noteq> 0"
    and "shrink_send_buffer sz n calc (sh_snd s) = (True, out, s1)"
  shows "reach start (shrink_step sz batch n calc k m)
    (s\<lparr>sh_snd := snd (do_direct_send_msg sz True False msg s1), sh_in := sh_in s @ [msg], sh_left := sh_left s @ map (Pair True) out\<rparr>)"
proof -
  let ?t = "s\<lparr>sh_snd := s1, sh_threads := sh_threads s + 1, sh_left := sh_left s @ map (Pair True) out\<rparr>"
  have "shrink_step sz batch n calc k m s ?t" using look [OF assms(2,5)] by simp
  moreover have "shrink_step sz batch n calc k m ?t (s\<lparr>sh_snd := snd (do_direct_send_msg sz True False msg s1),
      sh_in := sh_in s @ [msg], sh_left := sh_left s @ map (Pair True) out\<rparr>)"
    using queue_one [where s = ?t and prior = False and alloc = True and sz = sz and msg = msg] assms(3,4) by (cases s) simp
  ultimately show ?thesis using assms(1) by (blast intro: reach_step)
qed

definition demo_full :: "nat shrinker" where
  "demo_full = \<lparr>sh_snd = sd_new\<lparr>sd_buffer := \<lparr>q_items = [8, 9], q_total = 4\<rparr>, sd_checks := Suc (Suc (Suc 0))\<rparr>, sh_threads = 0, sh_in = [7, 8, 9],
     sh_left = [(True, 7)], sh_fifo = True\<rparr>"

lemmas shrink_demo_simps = shrink_send_buffer_def q_size_in_byte_def do_direct_send_msg_def enqueue_def SIZE_MAX_def move_items_out_bytes_def move_items_out_iter_def calc_shrink_size_def

lemma demo_full_reach: "reach (\<lambda>s. s = sh_new) (shrink_step (\<lambda>_. 2) 65536 3 calc_shrink_size 1 2) demo_full"
proof -
  let ?R = "reach (\<lambda>s. s = sh_new) (shrink_step (\<lambda>_. 2) 65536 3 calc_shrink_size 1 2) :: nat shrinker \<Rightarrow> bool"
  let ?s = "\<lambda>items total n. sd_new\<lparr>sd_buffer := \<lparr>q_items = items, q_total = total\<rparr>, sd_checks := n\<rparr> :: nat sender"
  have "size_add 0 2 = 2" "size_add 2 2 = 4" "size_sub 4 2 = 2" by (simp_all add: size_add_def size_sub_def SIZE_MOD_def)
  note demo = this sh_new_def sd_new_def q_new_def shrink_demo_simps demo_full_def
  have "?R sh_new" by (rule reach_init) simp
  from reach_send [OF this, where msg = 7 and out = "[]" and ?s1.0 = sd_new] have "?R (sh_new\<lparr>sh_snd := ?s [7] 2 (Suc 0), sh_in := [7]\<rparr>)" by (simp add: demo)
  from reach_send [OF this, where msg = 8 and out = "[]" and ?s1.0 = "?s [7] 2 (Suc 0)"] have "?R (sh_new\<lparr>sh_snd := ?s [7, 8] 4 (Suc (Suc 0)), sh_in := [7, 8]\<rparr>)" by (simp add: demo)
  from reach_send [OF this, where msg = 9 and out = "[7]" and ?s1.0 = "?s [8] 2 (Suc (Suc 0))"] show ?thesis by (simp add: demo)
qed

theorem shrinking_buffer_witness:
  "buffered (\<lambda>_. 2) (sh_snd demo_full) \<le> 8 \<and> fst (shrink_send_buffer (\<lambda>_. 2) 3 calc_shrink_size (sh_snd demo_full)) \<and>
   [7, 8, 9] = [7] @ q_items (sd_buffer (sh_snd demo_full))"
proof -
  have "shrink_limit 3 1 2 \<le> SIZE_MAX" "shrink_limit 3 1 2 = 8" by (simp_all add: shrink_limit_def SIZE_MAX_def)
  with shrinking_buffer [OF demo_full_reach] show ?thesis by (simp add: demo_full_def)
qed

section \<open>What shrinking does not do\<close>

text \<open>
  The comment in the source says that \<open>true\<close> means the buffer becomes available. Messages queued with \<open>can_overflow\<close> can make it so
  big that two thirds of it are still too much.
\<close>

lemma shrunk_still_full:
  "\<exists>s1. shrink_send_buffer (\<lambda>_. 2) 3 calc_shrink_size (sd_new\<lparr>sd_buffer := \<lparr>q_items = [1, 2, 3, 4, 5 :: nat], q_total = 10\<rparr>\<rparr>) =
     (True, [1, 2], s1) \<and> \<not> is_send_buffer_available 3 s1"
  by (simp add: shrink_demo_simps is_send_buffer_available_def size_add_def size_sub_def SIZE_MOD_def)

text \<open>
  With \<open>ASCS_SYNC_SEND\<close> a discarded message may be one somebody waits for; nobody sets its promise, and the waiting
  call holds a reference to it, so the call never returns.
\<close>

lemma discarded_promise:
  "\<exists>s msg_can snd1. sync_step (\<lambda>_. 1) 65536 sync_new (Snd (Queued [\<lparr>im_obj = 7 :: nat, im_p = Some 0\<rparr>])) s \<and>
     shrink_send_buffer (im_size (\<lambda>_. 1)) 1 (\<lambda>n. n) (sy_snd s) = (True, msg_can, snd1) \<and> 0 \<in> set (promises msg_can) \<and>
     (\<forall>evs s2. sync_run (\<lambda>_. 1) 65536 (s\<lparr>sy_snd := snd1\<rparr>) evs s2 \<longrightarrow> sync_wait 0 (sy_value s2 0) = None)"
proof -
  let ?m = "\<lparr>im_obj = 7 :: nat, im_p = Some 0\<rparr>"
  let ?s = "sync_new\<lparr>sy_snd := sd_new\<lparr>sd_buffer := \<lparr>q_items = [?m], q_total = 1\<rparr>, sd_checks := 1\<rparr>, sy_next := 1\<rparr>"
  let ?s2 = "sync_new\<lparr>sy_snd := sd_new\<lparr>sd_checks := 1\<rparr>, sy_next := 1\<rparr> :: nat sync_sender"
  note defs = sync_new_def sd_new_def q_new_def im_size_def size_add_def size_sub_def SIZE_MOD_def shrink_demo_simps
  have "sync_step (\<lambda>_. 1) 65536 sync_new (Snd (Queued [?m])) ?s"
    by (rule sync_one [where stopped = False and alloc = True and prior = False and msg = 7 and p = 0])
      (simp_all add: do_direct_sync_send_msg_def in_msg_new_def check_and_create_promise_def defs)
  moreover have "shrink_send_buffer (im_size (\<lambda>_. 1)) 1 (\<lambda>n. n) (sy_snd ?s) = (True, [?m], sy_snd ?s2)" by (simp add: defs)
  moreover have "?s\<lparr>sy_snd := sy_snd ?s2\<rparr> = ?s2" by simp
  moreover have "\<forall>evs s2. sync_run (\<lambda>_. 1) 65536 ?s2 evs s2 \<longrightarrow> sync_wait 0 (sy_value s2 0) = None"
    using sync_send_hangs by blast
  moreover have "0 \<in> set (promises [?m])" by simp
  ultimately show ?thesis by metis
qed

end
