(* ===== verification/Passive_Recv.thy ===== *)
theory Passive_Recv
  imports Msg_Dispatch
begin

text \<open>
  Receiving with \<open>ASCS_PASSIVE_RECV\<close> (\<open>socket.h\<close>, \<open>tcp/socket.h\<close>): the socket issues no read of its own but the one at its start,
  users do, with \<open>recv_msg\<close>. The flag \<open>reading\<close> keeps reads apart; a read that yields no message delivers an empty one, so that
  users always get a turn. Modelled with the \<open>on_msg_handle\<close> of the file transfer program (\<open>0 == get_pending_recv_msg_size()\<close>, then
  \<open>recv_msg()\<close>), and with other threads that call \<open>recv_msg\<close> whenever they like, from the start of a link until it goes down.
\<close>

section \<open>State and operations\<close>

text \<open>Where the dispatcher is in \<open>on_msg_handle\<close>: before the test of the pending size, before the test in \<open>recv_msg\<close>, before it dispatches, at the end.\<close>

datatype dis_pc = Dis_none | Dis_test | Dis_call | Dis_post | Dis_return

text \<open>
  \<open>pv_flag\<close>: \<open>reading\<close>; \<open>pv_ready\<close>: \<open>is_ready\<close>; \<open>pv_set\<close>: \<open>do_recv_msg\<close> has set the flag and is about to issue the read; \<open>pv_calls\<close>: other
  threads that have passed the test in \<open>recv_msg\<close>. The rest is the receiver of theory Msg_Dispatch: \<open>rv_reading\<close> is the read that is
  outstanding, \<open>rv_recvs\<close> the calls of \<open>do_recv_msg\<close> that are dispatched.
\<close>

record 'm passive_link =
  pv_rv :: "'m receiver"
  pv_flag :: bool
  pv_ready :: bool
  pv_set :: bool
  pv_dis :: dis_pc
  pv_calls :: nat

text \<open>A link whose \<open>do_start\<close> has called \<open>recv_msg\<close>.\<close>

definition pv_started :: "'m passive_link" where
  "pv_started = \<lparr>pv_rv = rv_new\<lparr>rv_recvs := 1\<rparr>, pv_flag = False, pv_ready = True, pv_set = False, pv_dis = Dis_none, pv_calls = 0\<rparr>"

text \<open>The test in \<open>recv_msg\<close>.\<close>

definition may_recv :: "'m passive_link \<Rightarrow> bool" where
  "may_recv s \<longleftrightarrow> pv_ready s \<and> \<not> pv_flag s"

definition rv_map :: "('m receiver \<Rightarrow> 'm receiver) \<Rightarrow> 'm passive_link \<Rightarrow> 'm passive_link" where
  "rv_map f s = s\<lparr>pv_rv := f (pv_rv s)\<rparr>"

text \<open>\<open>do_recv_msg\<close>: up to \<open>async_read\<close>, and its outcome; \<open>ok\<close> is false when the unpacker lends no buffer.\<close>

definition passive_do_recv_msg :: "'m passive_link \<Rightarrow> 'm passive_link" where
  "passive_do_recv_msg s = (if \<not> pv_ready s then s else if pv_flag s then s else s\<lparr>pv_flag := True, pv_set := True\<rparr>)"

definition passive_async_read :: "bool \<Rightarrow> 'm passive_link \<Rightarrow> 'm passive_link" where
  "passive_async_read ok s = (if ok then rv_map do_recv_msg (s\<lparr>pv_set := False\<rparr>) else s\<lparr>pv_flag := False, pv_set := False\<rparr>)"

text \<open>\<open>recv_handler\<close> with bytes: the flag is cleared, and \<open>handle_msg\<close> adds the empty message \<open>e\<close> if nothing was unpacked.\<close>

definition passive_recv_handler :: "('m \<Rightarrow> nat) \<Rightarrow> 'm \<Rightarrow> 'm list \<Rightarrow> 'm passive_link \<Rightarrow> 'm passive_link" where
  "passive_recv_handler sz e msgs s =
     rv_map (recv_handler_begin sz (if msgs = [] then [e] else msgs)) (s\<lparr>pv_flag := False\<rparr>)"

text \<open>The rest of it: \<open>dispatch_msg\<close>, and then \<open>handled_msg\<close>, which is always false, and the error if there was one.\<close>

definition passive_handler_micro :: "bool \<Rightarrow> 'm passive_link \<Rightarrow> 'm passive_link" where
  "passive_handler_micro ec s =
     (case rv_rw (pv_rv s) of
        Rw_idle \<Rightarrow> s
      | Rw_dispatch_msg \<Rightarrow> rv_map (\<lambda>r. (dispatch_msg r)\<lparr>rv_rw := Rw_handled_msg\<rparr>) s
      | Rw_handled_msg \<Rightarrow> (rv_map (\<lambda>r. r\<lparr>rv_rw := Rw_idle\<rparr>) s)\<lparr>pv_ready := (pv_ready s \<and> \<not> ec)\<rparr>)"

text \<open>\<open>do_dispatch_msg\<close> and the steps of \<open>on_msg_handle\<close>; \<open>get_pending_recv_msg_size\<close> counts bytes.\<close>

definition passive_dispatch :: "('m \<Rightarrow> nat) \<Rightarrow> 'm passive_link \<Rightarrow> 'm passive_link" where
  "passive_dispatch sz s =
     (let s1 = rv_map (\<lambda>r. do_dispatch_begin sz (r\<lparr>rv_tasks := rv_tasks r - 1\<rparr>)) s
      in if rv_handling (pv_rv s1) then s1\<lparr>pv_dis := Dis_test\<rparr> else s1)"

fun on_msg_handle_micro :: "dis_pc \<Rightarrow> 'm passive_link \<Rightarrow> 'm passive_link" where
  "on_msg_handle_micro Dis_none s = s"
| "on_msg_handle_micro Dis_test s = s\<lparr>pv_dis := (if q_size_in_byte (rv_buffer (pv_rv s)) = 0 then Dis_call else Dis_return)\<rparr>"
| "on_msg_handle_micro Dis_call s = s\<lparr>pv_dis := (if may_recv s then Dis_post else Dis_return)\<rparr>"
| "on_msg_handle_micro Dis_post s = rv_map recv_msg (s\<lparr>pv_dis := Dis_return\<rparr>)"
| "on_msg_handle_micro Dis_return s = rv_map (do_dispatch_end True) (s\<lparr>pv_dis := Dis_none\<rparr>)"

text \<open>
  The steps. \<open>greedy\<close>: other threads call \<open>recv_msg\<close> as well. \<open>p_async_read\<close>, \<open>p_received\<close>, \<open>p_error\<close> and \<open>p_down\<close> are the environment's.
  The messages of a read have at most \<open>read_max\<close> bytes, and none of them is empty (the unpackers skip empty ones).
\<close>

inductive passive_step :: "('m \<Rightarrow> nat) \<Rightarrow> 'm \<Rightarrow> nat \<Rightarrow> bool \<Rightarrow> 'm passive_link \<Rightarrow> 'm passive_link \<Rightarrow> bool"
  for sz :: "'m \<Rightarrow> nat" and e :: 'm and read_max :: nat and greedy :: bool where
  p_task: "rv_rw (pv_rv s) = Rw_idle \<Longrightarrow> \<not> pv_set s \<Longrightarrow> 0 < rv_recvs (pv_rv s) \<Longrightarrow>
    passive_step sz e read_max greedy s (passive_do_recv_msg (rv_map (\<lambda>r. r\<lparr>rv_recvs := rv_recvs r - 1\<rparr>) s))"
| p_async_read: "pv_set s \<Longrightarrow> passive_step sz e read_max greedy s (passive_async_read ok s)"
| p_received: "rv_rw (pv_rv s) = Rw_idle \<Longrightarrow> \<not> pv_set s \<Longrightarrow> rv_reading (pv_rv s) \<Longrightarrow>
    bytes_of sz msgs \<le> read_max \<Longrightarrow> list_all (\<lambda>m. 0 < sz m) msgs \<Longrightarrow>
    passive_step sz e read_max greedy s (passive_recv_handler sz e msgs s)"
| p_error: "rv_rw (pv_rv s) = Rw_idle \<Longrightarrow> \<not> pv_set s \<Longrightarrow> rv_reading (pv_rv s) \<Longrightarrow>
    passive_step sz e read_max greedy s (rv_map (\<lambda>r. r\<lparr>rv_reading := False\<rparr>) (s\<lparr>pv_flag := False, pv_ready := False\<rparr>))"
| p_handler: "rv_rw (pv_rv s) \<noteq> Rw_idle \<Longrightarrow> passive_step sz e read_max greedy s (passive_handler_micro ec s)"
| p_down: "passive_step sz e read_max greedy s (s\<lparr>pv_ready := False\<rparr>)"
| p_dispatch: "0 < rv_tasks (pv_rv s) \<Longrightarrow> \<not> rv_handling (pv_rv s) \<Longrightarrow> passive_step sz e read_max greedy s (passive_dispatch sz s)"
| p_handle: "rv_handling (pv_rv s) \<Longrightarrow> passive_step sz e read_max greedy s (on_msg_handle_micro (pv_dis s) s)"
| p_call: "greedy \<Longrightarrow> may_recv s \<Longrightarrow> passive_step sz e read_max greedy s (s\<lparr>pv_calls := pv_calls s + 1\<rparr>)"
| p_called: "0 < pv_calls s \<Longrightarrow> passive_step sz e read_max greedy s (rv_map recv_msg (s\<lparr>pv_calls := pv_calls s - 1\<rparr>))"

lemmas passive_defs = rv_map_def passive_do_recv_msg_def passive_async_read_def passive_recv_handler_def passive_handler_micro_def
  passive_dispatch_def may_recv_def

section \<open>One read at a time, whatever users do\<close>

text \<open>The flag is held by \<open>do_recv_msg\<close> before the read, or by the read.\<close>

definition passive_flag :: "'m passive_link \<Rightarrow> bool" where
  "passive_flag s \<longleftrightarrow> (pv_flag s \<longleftrightarrow> pv_set s \<or> rv_reading (pv_rv s)) \<and> \<not> (pv_set s \<and> rv_reading (pv_rv s)) \<and>
     (pv_set s \<longrightarrow> rv_rw (pv_rv s) = Rw_idle)"

lemma dispatch_begin_keeps [simp]:
  "rv_reading (do_dispatch_begin sz r) = rv_reading r" "rv_rw (do_dispatch_begin sz r) = rv_rw r"
  "rv_recvs (do_dispatch_begin sz r) = rv_recvs r"
  by (auto simp: do_dispatch_begin_def split: prod.splits option.splits)

lemma on_msg_handle_keeps:
  "pv_flag (on_msg_handle_micro pc s) = pv_flag s" "pv_set (on_msg_handle_micro pc s) = pv_set s"
  "pv_ready (on_msg_handle_micro pc s) = pv_ready s"
  "rv_reading (pv_rv (on_msg_handle_micro pc s)) = rv_reading (pv_rv s)" "rv_rw (pv_rv (on_msg_handle_micro pc s)) = rv_rw (pv_rv s)"
  by (cases pc; simp add: rv_map_def recv_msg_def do_dispatch_end_def)+

lemma passive_flag_step: "passive_step sz e read_max greedy s t \<Longrightarrow> passive_flag s \<Longrightarrow> passive_flag t"
proof (induction rule: passive_step.induct)
  case (p_handle s)
  then show ?case by (simp add: passive_flag_def on_msg_handle_keeps)
next
  case (p_dispatch s)
  then show ?case by (auto simp: passive_flag_def passive_defs Let_def)
qed (auto simp: passive_flag_def passive_defs receiver_defs Let_def split: rw_pc.splits)

interpretation passive_flags: step_invariant "\<lambda>s. s = pv_started" "passive_step sz e read_max greedy" passive_flag
  by unfold_locales (simp add: passive_flag_def pv_started_def rv_new_def, rule passive_flag_step)

section \<open>A user who waits for his turn\<close>

text \<open>
  There is one turn, and somebody has it: the read, \<open>do_recv_msg\<close>, \<open>recv_msg\<close>, or the messages that have arrived and are not yet
  handled. \<open>on_msg_handle\<close> gives it back with the last message.
\<close>

definition turns :: "'m passive_link \<Rightarrow> nat" where
  "turns s = of_bool (rv_reading (pv_rv s)) + of_bool (pv_set s) + rv_recvs (pv_rv s) + pv_calls s +
     of_bool (pv_dis s = Dis_call \<or> pv_dis s = Dis_post) + of_bool (q_items (rv_buffer (pv_rv s)) \<noteq> [] \<or> pv_dis s = Dis_test)"

definition passive_inv :: "('m \<Rightarrow> nat) \<Rightarrow> 'm \<Rightarrow> nat \<Rightarrow> 'm passive_link \<Rightarrow> bool" where
  "passive_inv sz e read_max s \<longleftrightarrow>
     passive_flag s \<and> turns s \<le> 1 \<and> pv_calls s = 0 \<and>
     (rv_handling (pv_rv s) \<longleftrightarrow> pv_dis s \<noteq> Dis_none) \<and> (rv_dispatching (pv_rv s) \<longleftrightarrow> rv_handling (pv_rv s)) \<and> \<not> rv_hold (pv_rv s) \<and>
     q_inv sz (rv_buffer (pv_rv s)) \<and> bytes_of sz (q_items (rv_buffer (pv_rv s))) \<le> read_max \<and>
     (list_all (\<lambda>m. 0 < sz m) (q_items (rv_buffer (pv_rv s))) \<or> q_items (rv_buffer (pv_rv s)) = [e] \<and> pv_dis s \<noteq> Dis_test)"

text \<open>Messages in the buffer have somebody who will hand them on.\<close>

definition passive_awake :: "'m passive_link \<Rightarrow> bool" where
  "passive_awake s \<longleftrightarrow> (q_items (rv_buffer (pv_rv s)) \<noteq> [] \<longrightarrow>
     rv_handling (pv_rv s) \<or> 0 < rv_tasks (pv_rv s) \<or> rv_rw (pv_rv s) = Rw_dispatch_msg)"

lemma awake_step:
  "passive_step sz e read_max False s t \<Longrightarrow> passive_inv sz e read_max s \<Longrightarrow> passive_awake s \<Longrightarrow> passive_awake t"
proof (induction rule: passive_step.induct)
  case (p_dispatch s)
  then show ?case
    by (auto simp: passive_awake_def passive_inv_def passive_defs do_dispatch_begin_def try_dequeue_def Let_def split: list.splits)
next
  case (p_handle s)
  then show ?case
    by (cases "pv_dis s") (auto simp: passive_awake_def passive_inv_def rv_map_def recv_msg_def do_dispatch_end_def)
next
  case (p_received s msgs)
  then show ?case by (auto simp: passive_awake_def passive_defs receiver_defs Let_def)
qed (auto simp: passive_awake_def passive_inv_def passive_defs receiver_defs Let_def split: rw_pc.splits)

lemma turn_taken:
  assumes "passive_inv sz e read_max s" "rv_reading (pv_rv s) \<or> pv_set s \<or> 0 < rv_recvs (pv_rv s)"
  shows "q_items (rv_buffer (pv_rv s)) = [] \<and> pv_dis s \<notin> {Dis_test, Dis_call, Dis_post} \<and>
    of_bool (rv_reading (pv_rv s)) + of_bool (pv_set s) + rv_recvs (pv_rv s) = (1 :: nat)"
proof -
  have t: "turns s \<le> 1" using assms(1) by (simp add: passive_inv_def)
  show ?thesis using t assms(2) unfolding turns_def
    by (cases "q_items (rv_buffer (pv_rv s)) = []"; cases "pv_dis s"; cases "pv_set s"; cases "rv_reading (pv_rv s)") simp_all
qed

lemma passive_inv_step:
  assumes st: "passive_step sz e read_max False s t" and i: "passive_inv sz e read_max s" and c: "sz e = 0" "read_max \<le> SIZE_MAX"
  shows "passive_inv sz e read_max t \<and> (pv_ready t \<and> pv_ready s \<and> turns s = 1 \<and> (pv_set s \<longrightarrow> pv_set t \<or> rv_reading (pv_rv t)) \<longrightarrow> turns t = 1)"
proof -
  have fl: "passive_flag t" using passive_flag_step [OF st] i by (simp add: passive_inv_def)
  from st show ?thesis
  proof cases
    case p_task
    then show ?thesis using turn_taken [OF i] i fl
      by (auto simp: passive_inv_def turns_def passive_defs passive_flag_def split: if_splits)
  next
    case (p_async_read ok)
    then show ?thesis using turn_taken [OF i] i fl by (auto simp: passive_inv_def turns_def passive_defs do_recv_msg_def split: if_splits)
  next
    case (p_received msgs)
    have "q_inv sz (move_items_in sz ms (get_size_in_byte sz ms) (rv_buffer (pv_rv s)))"
      if "bytes_of sz ms \<le> read_max" for ms
      using q_inv_move_in [of sz "rv_buffer (pv_rv s)" ms] turn_taken [OF i] p_received(4) i c(2) that
      by (simp add: passive_inv_def)
    then show ?thesis using turn_taken [OF i] p_received i fl c(1)
      by (auto simp: passive_inv_def turns_def passive_defs receiver_defs Let_def split: if_splits)
  next
    case p_error
    then show ?thesis using turn_taken [OF i] i fl by (auto simp: passive_inv_def turns_def passive_defs split: if_splits)
  next
    case (p_handler ec)
    then show ?thesis using i fl
      by (cases "rv_rw (pv_rv s)") (auto simp: passive_inv_def turns_def passive_defs receiver_defs)
  next
    case p_down
    then show ?thesis using i fl by (auto simp: passive_inv_def turns_def)
  next
    case p_dispatch
    have q: "q_inv sz (rv_buffer (pv_rv s))" "bytes_of sz (q_items (rv_buffer (pv_rv s))) \<le> SIZE_MAX" using i c(2) by (auto simp: passive_inv_def)
    show ?thesis
    proof (cases "q_items (rv_buffer (pv_rv s))")
      case Nil
      then show ?thesis using i fl p_dispatch
        by (auto simp: passive_inv_def turns_def passive_defs do_dispatch_begin_def try_dequeue_def)
    next
      case (Cons m ms)
      then show ?thesis using i fl p_dispatch q_inv_dequeue [OF q]
        by (auto simp: passive_inv_def turns_def passive_defs do_dispatch_begin_def try_dequeue_def split: if_splits)
    qed
  next
    case p_handle
    have z: "q_size_in_byte (rv_buffer (pv_rv s)) = bytes_of sz (q_items (rv_buffer (pv_rv s)))"
      using i c(2) by (auto simp: passive_inv_def q_inv_exact)
    show ?thesis
    proof (cases "pv_dis s")
      case Dis_test
      then have "q_size_in_byte (rv_buffer (pv_rv s)) = 0 \<longleftrightarrow> q_items (rv_buffer (pv_rv s)) = []"
        using i z by (cases "q_items (rv_buffer (pv_rv s))") (auto simp: passive_inv_def)
      then show ?thesis using Dis_test i fl p_handle by (auto simp: passive_inv_def turns_def)
    next
      case Dis_call
      then show ?thesis using i fl p_handle by (auto simp: passive_inv_def turns_def may_recv_def passive_flag_def split: if_splits)
    qed (use i fl p_handle in \<open>auto simp: passive_inv_def turns_def rv_map_def recv_msg_def do_dispatch_end_def\<close>)
  next
    case p_called
    then show ?thesis using i by (simp add: passive_inv_def)
  qed simp
qed

text \<open>A step in which \<open>async_read\<close> is not refused a buffer.\<close>

definition lends :: "'m passive_link \<Rightarrow> 'm passive_link \<Rightarrow> bool" where
  "lends s t \<longleftrightarrow> (pv_set s \<longrightarrow> pv_set t \<or> rv_reading (pv_rv t))"

definition turn_inv :: "('m \<Rightarrow> nat) \<Rightarrow> 'm \<Rightarrow> nat \<Rightarrow> 'm passive_link \<Rightarrow> bool" where
  "turn_inv sz e read_max s \<longleftrightarrow> passive_inv sz e read_max s \<and> passive_awake s \<and> (pv_ready s \<longrightarrow> turns s = 1)"

lemma stays_down: "passive_step sz e read_max greedy s t \<Longrightarrow> pv_ready t \<Longrightarrow> pv_ready s"
proof (induction rule: passive_step.induct)
  case (p_handle s)
  then show ?case by (simp add: on_msg_handle_keeps)
qed (auto simp: passive_defs Let_def split: rw_pc.splits if_splits)

lemma passive_inv_started: "passive_inv sz e read_max pv_started"
  by (simp add: passive_inv_def pv_started_def rv_new_def q_new_def turns_def passive_flag_def q_inv_def)

interpretation passive_turn: step_invariant "\<lambda>s. s = pv_started"
  "\<lambda>s t. sz e = 0 \<and> read_max \<le> SIZE_MAX \<and> passive_step sz e read_max False s t" "passive_inv sz e read_max"
  by unfold_locales (auto intro: passive_inv_started dest: passive_inv_step)

interpretation passive_goes: step_invariant "\<lambda>s. s = pv_started"
  "\<lambda>s t. (sz e = 0 \<and> read_max \<le> SIZE_MAX) \<and> passive_step sz e read_max False s t \<and> lends s t" "turn_inv sz e read_max"
proof unfold_locales
  fix s t :: "'a passive_link"
  assume "(sz e = 0 \<and> read_max \<le> SIZE_MAX) \<and> passive_step sz e read_max False s t \<and> lends s t" "turn_inv sz e read_max s"
  then show "turn_inv sz e read_max t"
    using passive_inv_step [of sz e read_max s t] awake_step [of sz e read_max s t] stays_down [of sz e read_max False s t]
    by (auto simp: turn_inv_def lends_def)
qed (use passive_inv_started in \<open>auto simp: turn_inv_def passive_awake_def pv_started_def turns_def rv_new_def q_new_def\<close>)

lemma reach_with:
  assumes "reach start step s" "P"
  shows "reach start (\<lambda>s t. P \<and> step s t) s"
  using assms(1) by induction (use assms(2) in \<open>auto intro: reach.intros\<close>)

text \<open>The steps that need nobody from outside, and a bound on their number.\<close>

inductive passive_drive :: "('m \<Rightarrow> nat) \<Rightarrow> 'm passive_link \<Rightarrow> 'm passive_link \<Rightarrow> bool" for sz :: "'m \<Rightarrow> nat" where
  "rv_rw (pv_rv s) = Rw_idle \<Longrightarrow> \<not> pv_set s \<Longrightarrow> 0 < rv_recvs (pv_rv s) \<Longrightarrow>
    passive_drive sz s (passive_do_recv_msg (rv_map (\<lambda>r. r\<lparr>rv_recvs := rv_recvs r - 1\<rparr>) s))"
| "pv_set s \<Longrightarrow> passive_drive sz s (passive_async_read True s)"
| "rv_rw (pv_rv s) \<noteq> Rw_idle \<Longrightarrow> passive_drive sz s (passive_handler_micro False s)"
| "0 < rv_tasks (pv_rv s) \<Longrightarrow> \<not> rv_handling (pv_rv s) \<Longrightarrow> passive_drive sz s (passive_dispatch sz s)"
| "rv_handling (pv_rv s) \<Longrightarrow> pv_dis s \<noteq> Dis_none \<Longrightarrow> passive_drive sz s (on_msg_handle_micro (pv_dis s) s)"

fun dis_work :: "dis_pc \<Rightarrow> nat" where
  "dis_work Dis_none = 0"
| "dis_work Dis_test = 10"
| "dis_work Dis_call = 9"
| "dis_work Dis_post = 8"
| "dis_work Dis_return = 2"

definition passive_work :: "'m passive_link \<Rightarrow> nat" where
  "passive_work s = 20 * length (q_items (rv_buffer (pv_rv s))) + rv_tasks (pv_rv s) + dis_work (pv_dis s) + 2 * rv_recvs (pv_rv s) +
     of_bool (pv_set s) + (case rv_rw (pv_rv s) of Rw_idle \<Rightarrow> 0 | Rw_dispatch_msg \<Rightarrow> 3 | Rw_handled_msg \<Rightarrow> 1)"

definition dis_ok :: "'m passive_link \<Rightarrow> bool" where
  "dis_ok s \<longleftrightarrow> (rv_handling (pv_rv s) \<longleftrightarrow> pv_dis s \<noteq> Dis_none) \<and> (rv_dispatching (pv_rv s) \<longleftrightarrow> rv_handling (pv_rv s))"

lemma passive_drive_work: "passive_drive sz s t \<Longrightarrow> dis_ok s \<Longrightarrow> passive_work t < passive_work s \<and> dis_ok t"
proof (induction rule: passive_drive.induct)
  case (4 s)
  then show ?case
    by (cases "q_items (rv_buffer (pv_rv s))")
      (auto simp: passive_work_def dis_ok_def passive_defs do_dispatch_begin_def try_dequeue_def)
next
  case (5 s)
  then show ?case by (cases "pv_dis s") (auto simp: passive_work_def dis_ok_def rv_map_def recv_msg_def do_dispatch_end_def)
qed (auto simp: passive_work_def dis_ok_def passive_defs receiver_defs split: rw_pc.splits)

interpretation passive_run: step_measure "passive_drive sz" "\<lambda>w s. dis_ok s \<and> passive_work s = w" for sz
  by unfold_locales (use passive_drive_work in blast)

text \<open>A link that is ready and waits for nothing has a read.\<close>

lemma turn_drives:
  assumes "turn_inv sz e read_max s" "pv_ready s"
  shows "rv_reading (pv_rv s) \<or> (\<exists>t. passive_drive sz s t)"
proof (rule ccontr)
  assume no: "\<not> (rv_reading (pv_rv s) \<or> (\<exists>t. passive_drive sz s t))"
  then have n: "\<not> pv_set s" "rv_rw (pv_rv s) = Rw_idle" "\<not> (rv_handling (pv_rv s) \<and> pv_dis s \<noteq> Dis_none)"
    "rv_tasks (pv_rv s) = 0 \<or> rv_handling (pv_rv s)"
    using passive_drive.intros(2,3,4,5) [of s] by blast+
  then have "rv_recvs (pv_rv s) = 0" using no passive_drive.intros(1) [of s] by blast
  then show False using assms n no by (auto simp: turn_inv_def passive_inv_def passive_awake_def turns_def)
qed

text \<open>
  C18. One read at a time, and only when it is the application's will. Whatever threads call \<open>recv_msg\<close>, a read is issued only when
  none is outstanding and its handler is not running. If only \<open>on_msg_handle\<close> calls it, for the last message, then no read is
  outstanding, nor on its way, while a message is handled, so the unpacker may be replaced there, and the receive buffer never
  holds more than one read delivers.
\<close>

theorem passive_turns:
  assumes "reach (\<lambda>s. s = pv_started) (passive_step sz e read_max greedy) s" and "sz e = 0" and "read_max \<le> SIZE_MAX"
  shows "(pv_set s \<longrightarrow> \<not> rv_reading (pv_rv s) \<and> rv_rw (pv_rv s) = Rw_idle) \<and> (rv_reading (pv_rv s) \<longrightarrow> pv_flag s) \<and>
    (\<not> greedy \<longrightarrow> (pv_dis s = Dis_test \<longrightarrow> \<not> rv_reading (pv_rv s) \<and> \<not> pv_set s \<and> rv_recvs (pv_rv s) = 0) \<and>
      bytes_of sz (q_items (rv_buffer (pv_rv s))) \<le> read_max)"
proof -
  have "passive_flag s" by (rule passive_flags.reachable_inv [OF assms(1)])
  moreover have "passive_inv sz e read_max s" if "\<not> greedy"
    using passive_turn.reachable_inv [of sz e read_max s] reach_with [OF assms(1), of "sz e = 0 \<and> read_max \<le> SIZE_MAX"] assms(2,3) that by simp
  then have "pv_dis s = Dis_test \<longrightarrow> \<not> rv_reading (pv_rv s) \<and> \<not> pv_set s \<and> rv_recvs (pv_rv s) = 0"
    "bytes_of sz (q_items (rv_buffer (pv_rv s))) \<le> read_max" if "\<not> greedy"
    using turn_taken [of sz e read_max s] that unfolding passive_inv_def by blast+
  ultimately show ?thesis unfolding passive_flag_def by blast
qed

text \<open>
  C19. And it goes on. As long as the link is up and the unpacker lends buffers, a read is outstanding or some step towards it can be
  taken, and there are at most \<open>passive_work\<close> such steps.
\<close>

theorem passive_goes_on:
  assumes "reach (\<lambda>s. s = pv_started) (\<lambda>s t. passive_step sz e read_max False s t \<and> lends s t) s"
    and "sz e = 0" and "read_max \<le> SIZE_MAX"
  shows "(pv_ready s \<longrightarrow> rv_reading (pv_rv s) \<or> (\<exists>t. passive_drive sz s t)) \<and>
    (\<forall>n t. (passive_drive sz ^^ n) s t \<longrightarrow> n \<le> passive_work s)"
proof -
  have i: "turn_inv sz e read_max s"
    using passive_goes.reachable_inv [of sz e read_max s] reach_with [OF assms(1), of "sz e = 0 \<and> read_max \<le> SIZE_MAX"] assms(2,3) by simp
  then have "dis_ok s" by (simp add: turn_inv_def passive_inv_def dis_ok_def)
  then show ?thesis using turn_drives [OF i] passive_run.bounded_steps [of _ sz s] by fastforce
qed

text \<open>The first read of a link delivers two messages, and the application is handed the first.\<close>

definition demo_read :: "nat passive_link" where
  "demo_read = passive_async_read True (passive_do_recv_msg (rv_map (\<lambda>r. r\<lparr>rv_recvs := rv_recvs r - 1\<rparr>) pv_started))"

definition demo_handing :: "nat passive_link" where
  "demo_handing = passive_dispatch (\<lambda>n. n) (passive_handler_micro False (passive_recv_handler (\<lambda>n. n) 0 [5, 3] demo_read))"

lemma demo_read_val: "demo_read = pv_started\<lparr>pv_rv := rv_new\<lparr>rv_reading := True\<rparr>, pv_flag := True\<rparr>"
  by (simp add: demo_read_def passive_defs pv_started_def do_recv_msg_def rv_new_def)

lemma demo_sizes: "size_add 0 8 = 8" "size_sub 8 5 = 3" "get_size_in_byte (\<lambda>n. n) [5, 3] = 8"
  by (simp_all add: size_add_def size_sub_def SIZE_MOD_def get_size_bytes_of)

lemma demo_handing_val:
  "demo_handing = pv_started\<lparr>pv_rv := rv_new\<lparr>rv_buffer := \<lparr>q_items = [3], q_total = 3\<rparr>, rv_dispatching := True, rv_msg := Some 5,
     rv_handling := True, rv_rw := Rw_handled_msg\<rparr>, pv_dis := Dis_test\<rparr>"
  by (simp add: demo_handing_def demo_read_val passive_defs pv_started_def rv_new_def receiver_defs q_new_def move_items_in_def
      try_dequeue_def demo_sizes)

lemma demo_handing_reach:
  "reach (\<lambda>s. s = pv_started) (\<lambda>s t. passive_step (\<lambda>n. n) 0 8 False s t \<and> lends s t) demo_handing"
proof -
  define st where "st = (\<lambda>s t. passive_step (\<lambda>n. n) (0 :: nat) 8 False s t \<and> lends s t)"
  let ?s1 = "passive_do_recv_msg (rv_map (\<lambda>r. r\<lparr>rv_recvs := rv_recvs r - 1\<rparr>) pv_started) :: nat passive_link"
  let ?s2 = "passive_recv_handler (\<lambda>n. n) 0 [5, 3] demo_read"
  have "reach (\<lambda>s. s = pv_started) st pv_started" by (rule reach_init) simp
  moreover have "st pv_started ?s1"
    unfolding st_def by (rule conjI, rule p_task) (simp_all add: pv_started_def rv_new_def lends_def)
  moreover have "st ?s1 demo_read"
    unfolding demo_read_def st_def by (rule conjI, rule p_async_read) (simp_all add: passive_defs pv_started_def lends_def do_recv_msg_def)
  moreover have "st demo_read ?s2"
    unfolding st_def by (rule conjI, rule p_received) (simp_all add: demo_read_val pv_started_def rv_new_def lends_def)
  moreover have "st ?s2 (passive_handler_micro False ?s2)"
    unfolding st_def by (rule conjI, rule p_handler) (simp_all add: demo_read_val pv_started_def rv_new_def lends_def passive_defs receiver_defs)
  moreover have "st (passive_handler_micro False ?s2) demo_handing"
    unfolding demo_handing_def st_def
    by (rule conjI, rule p_dispatch) (simp_all add: demo_read_val pv_started_def rv_new_def lends_def passive_defs receiver_defs)
  ultimately have "reach (\<lambda>s. s = pv_started) st demo_handing" by (meson reach_step)
  then show ?thesis by (simp add: st_def)
qed

lemma reach_weaken: "reach start step s \<Longrightarrow> (\<And>s t. step s t \<Longrightarrow> step' s t) \<Longrightarrow> reach start step' s"
  by (induction rule: reach.induct) (auto intro: reach.intros)

theorem passive_turns_witness:
  "pv_dis demo_handing = Dis_test \<and> \<not> rv_reading (pv_rv demo_handing) \<and> rv_recvs (pv_rv demo_handing) = 0 \<and>
   bytes_of (\<lambda>n. n) (q_items (rv_buffer (pv_rv demo_handing))) \<le> 8"
  using passive_turns [OF reach_weaken [OF demo_handing_reach, where step' = "passive_step (\<lambda>n. n) 0 8 False"]]
  by (simp add: demo_handing_val SIZE_MAX_def)

theorem passive_goes_on_witness: "\<exists>t. passive_drive (\<lambda>n. n) demo_handing t"
  using passive_goes_on [OF demo_handing_reach] by (simp add: demo_handing_val SIZE_MAX_def pv_started_def rv_new_def)

section \<open>What users must not do\<close>

text \<open>
  \<open>get_pending_recv_msg_size\<close> counts bytes: with an unpacker that delivers empty messages, a message can be handled while a read is
  outstanding, because an empty one behind it counts for nothing.
\<close>

lemma empty_messages_take_turns:
  "let s = pv_started\<lparr>pv_rv := rv_new\<lparr>rv_buffer := \<lparr>q_items = [0 :: nat], q_total = 0\<rparr>, rv_dispatching := True, rv_msg := Some 5,
       rv_handling := True\<rparr>, pv_dis := Dis_test\<rparr>;
     s1 = on_msg_handle_micro Dis_call (on_msg_handle_micro Dis_test s)
   in pv_dis s1 = Dis_post \<and> q_items (rv_buffer (pv_rv s1)) = [0]"
  by (simp add: pv_started_def rv_new_def q_size_in_byte_def may_recv_def)

end
