(* ===== verification/Echo.thy ===== *)
theory Echo
  imports Ascs_Prelude
begin

text \<open>
  The echo test of \<open>examples\<close> (\<open>echo_client/echo_client.cpp\<close>, \<open>echo_server/echo_server.cpp\<close>): messages carry a number, the server
  returns them, and the client checks that the numbers come back in order. A link delivers what is sent in order (theory
  Tcp_Link); here are the client's and the server's handlers on top of that, the test that sends one message after the other
  (\<open>ASCS_WANT_MSG_SEND_NOTIFY\<close>), and how the other test distributes the links among threads.
\<close>

section \<open>The handlers\<close>

text \<open>The bytes of a \<open>size_t\<close>, and a \<open>size_t\<close> from the first eight bytes.\<close>

definition seq_bytes :: "nat \<Rightarrow> bytes" where
  "seq_bytes n = rev (be_bytes 8 n)"

definition seq_value :: "bytes \<Rightarrow> nat" where
  "seq_value bs = be_value (rev (take 8 bs))"

record echo_sock =
  ec_recv_bytes :: nat
  ec_recv_index :: nat
  ec_msg_num :: nat

definition ec_clear_status :: "echo_sock \<Rightarrow> echo_sock" where
  "ec_clear_status s = s\<lparr>ec_recv_bytes := 0, ec_recv_index := 0\<rparr>"

text \<open>\<open>begin\<close>: the message it sends, and the socket.\<close>

definition echo_begin :: "nat \<Rightarrow> nat \<Rightarrow> u8 \<Rightarrow> echo_sock \<Rightarrow> bytes \<times> echo_sock" where
  "echo_begin msg_num msg_len msg_fill s =
     (let s1 = (ec_clear_status s)\<lparr>ec_msg_num := msg_num\<rparr>
      in (seq_bytes (ec_recv_index s1) @ drop 8 (replicate msg_len msg_fill), s1))"

text \<open>\<open>on_msg_send\<close> with the data of the message that was written: the next message, or none.\<close>

definition echo_on_msg_send :: "bytes \<Rightarrow> echo_sock \<Rightarrow> bytes option \<times> echo_sock" where
  "echo_on_msg_send pstr s =
     (let s1 = s\<lparr>ec_msg_num := size_sub (ec_msg_num s) 1\<rparr>
      in if 0 = ec_msg_num s1 then (None, s1)
         else (Some (seq_bytes (size_add (seq_value pstr) 1) @ drop 8 pstr), s1))"

text \<open>\<open>handle_msg\<close>: whether it reports an error, and the socket.\<close>

definition echo_handle_msg :: "bool \<Rightarrow> bytes \<Rightarrow> echo_sock \<Rightarrow> bool \<times> echo_sock" where
  "echo_handle_msg check_msg msg s =
     (check_msg \<and> (length msg < 8 \<or> seq_bytes (ec_recv_index s) \<noteq> take 8 msg),
      s\<lparr>ec_recv_bytes := size_add (ec_recv_bytes s) (length msg), ec_recv_index := size_add (ec_recv_index s) 1\<rparr>)"

text \<open>
  The server's \<open>on_msg_handle\<close>: \<open>send_msg\<close>, which fails when the send buffer is full; the message is then handed to it again later.
  \<open>down\<close> is what it has sent.
\<close>

definition echo_server_handle :: "bool \<Rightarrow> bytes \<Rightarrow> bytes list \<Rightarrow> bool \<times> bytes list" where
  "echo_server_handle available msg down = (if available then (True, down @ [msg]) else (False, down))"

section \<open>One message after the other\<close>

text \<open>
  \<open>eo_writing\<close>: the message for which \<open>on_msg_send\<close> is still to be called; \<open>eo_up\<close>, \<open>eo_down\<close>: what is on its way; \<open>eo_error\<close>: an error was
  reported.
\<close>

record echo =
  eo_sock :: echo_sock
  eo_writing :: "bytes option"
  eo_up :: "bytes list"
  eo_down :: "bytes list"
  eo_error :: bool

definition echo_start :: "nat \<Rightarrow> nat \<Rightarrow> u8 \<Rightarrow> echo_sock \<Rightarrow> echo" where
  "echo_start msg_num msg_len msg_fill s =
     (let (msg, s1) = echo_begin msg_num msg_len msg_fill s
      in \<lparr>eo_sock = s1, eo_writing = Some msg, eo_up = [msg], eo_down = [], eo_error = False\<rparr>)"

definition echo_sent :: "bytes \<Rightarrow> echo \<Rightarrow> echo" where
  "echo_sent msg s =
     (let (next_msg, sock) = echo_on_msg_send msg (eo_sock s)
      in s\<lparr>eo_sock := sock, eo_writing := next_msg, eo_up := eo_up s @ (case next_msg of None \<Rightarrow> [] | Some m \<Rightarrow> [m])\<rparr>)"

definition echo_received :: "bytes \<Rightarrow> echo \<Rightarrow> echo" where
  "echo_received msg s =
     (let (err, sock) = echo_handle_msg True msg (eo_sock s) in s\<lparr>eo_sock := sock, eo_error := (eo_error s \<or> err)\<rparr>)"

inductive echo_step :: "echo \<Rightarrow> echo \<Rightarrow> bool" where
  sent: "eo_writing s = Some msg \<Longrightarrow> echo_step s (echo_sent msg s)"
| served: "eo_up s = msg # rest \<Longrightarrow> echo_server_handle True msg (eo_down s) = (True, down) \<Longrightarrow>
    echo_step s (s\<lparr>eo_up := rest, eo_down := down\<rparr>)"
| received: "eo_down s = msg # rest \<Longrightarrow> echo_step s (echo_received msg (s\<lparr>eo_down := rest\<rparr>))"

section \<open>The test passes\<close>

definition echo_msg :: "nat \<Rightarrow> u8 \<Rightarrow> nat \<Rightarrow> bytes" where
  "echo_msg len fill i = seq_bytes i @ replicate (len - 8) fill"

text \<open>\<open>j\<close> messages were sent, \<open>h\<close> of them served, \<open>k\<close> of those received.\<close>

definition echo_at :: "nat \<Rightarrow> nat \<Rightarrow> u8 \<Rightarrow> nat \<Rightarrow> nat \<Rightarrow> nat \<Rightarrow> echo \<Rightarrow> bool" where
  "echo_at n len fill j h k s \<longleftrightarrow>
     k \<le> h \<and> h \<le> j \<and> 0 < j \<and> j \<le> n \<and> \<not> eo_error s \<and>
     eo_down s = map (echo_msg len fill) [k..<h] \<and> eo_up s = map (echo_msg len fill) [h..<j] \<and>
     ec_recv_index (eo_sock s) = k \<and> ec_recv_bytes (eo_sock s) = k * len \<and>
     (case eo_writing s of None \<Rightarrow> j = n | Some m \<Rightarrow> m = echo_msg len fill (j - 1) \<and> ec_msg_num (eo_sock s) = n - (j - 1))"

definition echo_work :: "nat \<Rightarrow> nat \<Rightarrow> nat \<Rightarrow> nat \<Rightarrow> echo \<Rightarrow> nat" where
  "echo_work n j h k s = 3 * n - (h + k + (case eo_writing s of None \<Rightarrow> n | Some _ \<Rightarrow> j - 1))"

lemma seq_bytes_len [simp]: "length (seq_bytes n) = 8"
  by (simp add: seq_bytes_def)

lemma seq_value_bytes: "n \<le> SIZE_MAX \<Longrightarrow> seq_value (seq_bytes n @ xs) = n"
  by (simp add: seq_value_def seq_bytes_def SIZE_MAX_def)

lemma echo_msg_len [simp]: "8 \<le> len \<Longrightarrow> length (echo_msg len fill i) = len"
  by (simp add: echo_msg_def)

lemma echo_at_sent:
  assumes at: "echo_at n len fill j h k s" and w: "eo_writing s = Some msg" and l: "8 \<le> len" "n \<le> SIZE_MAX"
  shows "\<exists>j1. echo_at n len fill j1 h k (echo_sent msg s) \<and> echo_work n j1 h k (echo_sent msg s) < echo_work n j h k s"
proof -
  have m: "msg = echo_msg len fill (j - 1)" "ec_msg_num (eo_sock s) = n - (j - 1)" and j: "0 < j" "j \<le> n" "k \<le> h" "h \<le> j"
    using at w by (auto simp: echo_at_def)
  have num: "size_sub (n - (j - 1)) 1 = n - j" using j l(2) by (subst size_sub_exact) auto
  have hk: "h + k + (j - 1) < 3 * n" using j by linarith
  show ?thesis
  proof (cases "j = n")
    case True
    then have "echo_sent msg s = s\<lparr>eo_sock := (eo_sock s)\<lparr>ec_msg_num := 0\<rparr>, eo_writing := None\<rparr>"
      using m(2) num by (simp add: echo_sent_def echo_on_msg_send_def)
    then show ?thesis using at w hk True j by (intro exI [of _ j]) (auto simp: echo_at_def echo_work_def)
  next
    case False
    have v: "seq_value msg = j - 1" using m(1) j l(2) seq_value_bytes [of "j - 1"] by (simp add: echo_msg_def)
    have nx: "size_add (j - 1) 1 = j" using j l(2) by (subst size_add_exact) auto
    have "drop 8 msg = replicate (len - 8) fill" by (simp add: m(1) echo_msg_def)
    then have "echo_sent msg s = s\<lparr>eo_sock := (eo_sock s)\<lparr>ec_msg_num := n - j\<rparr>, eo_writing := Some (echo_msg len fill j),
        eo_up := eo_up s @ [echo_msg len fill j]\<rparr>"
      using m(2) num False j v nx by (simp add: echo_sent_def echo_on_msg_send_def echo_msg_def Let_def)
    then show ?thesis using at w hk False j by (intro exI [of _ "j + 1"]) (auto simp: echo_at_def echo_work_def)
  qed
qed

lemma echo_at_received:
  assumes at: "echo_at n len fill j h k s" and d: "eo_down s = msg # rest" and l: "8 \<le> len" "n * len \<le> SIZE_MAX"
  shows "echo_at n len fill j h (k + 1) (echo_received msg (s\<lparr>eo_down := rest\<rparr>)) \<and>
    echo_work n j h (k + 1) (echo_received msg (s\<lparr>eo_down := rest\<rparr>)) < echo_work n j h k s"
proof -
  have k: "k < h" "h \<le> j" "j \<le> n" "0 < j" using at d by (auto simp: echo_at_def intro: ccontr)
  have m: "msg = echo_msg len fill k" "rest = map (echo_msg len fill) [k + 1..<h]"
    using at d k by (auto simp: echo_at_def upt_conv_Cons)
  have "(k + 1) * len \<le> n * len" using k by (intro mult_le_mono1) simp
  then have a: "size_add (k * len) len = (k + 1) * len" using l(2) by (subst size_add_exact) (auto simp: add.commute)
  have "n * 1 \<le> n * len" using l(1) by (intro mult_le_mono2) simp
  then have "k + 1 \<le> SIZE_MAX" using k l(2) by linarith
  then have b: "size_add k 1 = k + 1" by (rule size_add_exact)
  have "echo_received msg (s\<lparr>eo_down := rest\<rparr>) =
      s\<lparr>eo_down := rest, eo_sock := (eo_sock s)\<lparr>ec_recv_bytes := (k + 1) * len, ec_recv_index := k + 1\<rparr>\<rparr>"
    using at l(1) a b by (simp add: echo_received_def echo_handle_msg_def echo_at_def m(1) echo_msg_def [of len fill k])
  moreover have "h + k + (case eo_writing s of None \<Rightarrow> n | Some _ \<Rightarrow> j - 1) < 3 * n" using k by (cases "eo_writing s") simp_all
  ultimately show ?thesis using at k m(2) by (auto simp: echo_at_def echo_work_def split: option.splits)
qed

lemma echo_at_step:
  assumes st: "echo_step s t" and at: "echo_at n len fill j h k s" and l: "8 \<le> len" "n * len \<le> SIZE_MAX"
  shows "\<exists>j1 h1 k1. echo_at n len fill j1 h1 k1 t \<and> echo_work n j1 h1 k1 t < echo_work n j h k s"
  using st
proof cases
  case (sent msg)
  have "n * 1 \<le> n * len" using l(1) by (intro mult_le_mono2) simp
  then have "n \<le> SIZE_MAX" using l(2) by linarith
  from echo_at_sent [OF at sent(2) l(1) this] show ?thesis using sent(1) by blast
next
  case (served msg rest down)
  then have h: "h < j" "j \<le> n" "k \<le> h" using at by (auto simp: echo_at_def intro: ccontr)
  then have m: "msg = echo_msg len fill h" "rest = map (echo_msg len fill) [h + 1..<j]"
    using at served(2) by (auto simp: echo_at_def upt_conv_Cons)
  have "h + k + (case eo_writing s of None \<Rightarrow> n | Some _ \<Rightarrow> j - 1) < 3 * n" using h by (cases "eo_writing s") simp_all
  then have "echo_at n len fill j (h + 1) k t \<and> echo_work n j (h + 1) k t < echo_work n j h k s"
    using at served h m by (auto simp: echo_at_def echo_work_def echo_server_handle_def split: option.splits)
  then show ?thesis by blast
next
  case (received msg rest)
  from echo_at_received [OF at received(2) l] show ?thesis using received(1) by blast
qed

lemma echo_at_start: "0 < n \<Longrightarrow> echo_at n len fill 1 0 0 (echo_start n len fill s)"
  by (simp add: echo_at_def echo_start_def echo_begin_def ec_clear_status_def echo_msg_def Let_def)

text \<open>The test as a run that comes to rest.\<close>

interpretation echo_run: step_measure echo_step
  "\<lambda>w s. 8 \<le> len \<and> n * len \<le> SIZE_MAX \<and> (\<exists>j h k. echo_at n len fill j h k s \<and> w = echo_work n j h k s)" for n len fill
  by unfold_locales (use echo_at_step in blast)

lemma echo_at_end:
  assumes "echo_at n len fill j h k s" "\<nexists>t. echo_step s t"
  shows "k = n"
proof -
  have w: "eo_writing s = None" using assms(2) by (cases "eo_writing s") (auto intro: echo_step.sent)
  have u: "eo_up s = []" 
  proof (rule ccontr)
    assume "eo_up s \<noteq> []"
    then obtain m r where "eo_up s = m # r" by (cases "eo_up s") auto
    then show False using assms(2) echo_step.served [of s m r "eo_down s @ [m]"] by (auto simp: echo_server_handle_def)
  qed
  have d: "eo_down s = []" using assms(2) by (cases "eo_down s") (auto intro: echo_step.received)
  show ?thesis using assms(1) w u d by (auto simp: echo_at_def)
qed

text \<open>
  C15. The echo test. With messages of at least eight bytes, the client never reports an error, the test ends after at most three
  steps for each message, and when it has ended the client has received the bytes of all messages, which is what it waits for.
\<close>

theorem echo_test_passes:
  assumes "(echo_step ^^ i) (echo_start msg_num msg_len msg_fill s) t"
    and "1 \<le> msg_num" and "8 \<le> msg_len" and "msg_num * msg_len \<le> SIZE_MAX"
  shows "\<not> eo_error t \<and> i \<le> 3 * msg_num \<and> ((\<nexists>u. echo_step t u) \<longrightarrow> ec_recv_bytes (eo_sock t) = msg_num * msg_len)"
proof -
  have b: "echo_at msg_num msg_len msg_fill 1 0 0 (echo_start msg_num msg_len msg_fill s)" using assms(2) by (intro echo_at_start) simp
  obtain j h k where
    at: "echo_at msg_num msg_len msg_fill j h k t" and
    w: "i + echo_work msg_num j h k t \<le> echo_work msg_num 1 0 0 (echo_start msg_num msg_len msg_fill s)"
    using echo_run.bounded_steps [OF assms(1), of msg_len msg_num msg_fill] assms(3,4) b by blast
  have "echo_work msg_num 1 0 0 (echo_start msg_num msg_len msg_fill s) \<le> 3 * msg_num" by (simp add: echo_work_def)
  then have "i \<le> 3 * msg_num" using w by linarith
  moreover have "(\<nexists>u. echo_step t u) \<longrightarrow> ec_recv_bytes (eo_sock t) = msg_num * msg_len"
    using echo_at_end [OF at] at by (auto simp: echo_at_def)
  ultimately show ?thesis using at by (simp add: echo_at_def)
qed

text \<open>A test of one message, to its end.\<close>

lemma echo_sent_down: "eo_down (echo_sent m s) = eo_down s"
  by (simp add: echo_sent_def split_beta)

lemma echo_one_message:
  "\<exists>t. (echo_step ^^ 3) (echo_start 1 8 48 s) t \<and> (\<nexists>u. echo_step t u)"
proof -
  define m where "m = echo_msg 8 48 0"
  let ?s0 = "echo_start 1 8 48 s"
  have s0: "eo_writing ?s0 = Some m" "eo_up ?s0 = [m]" "eo_down ?s0 = []" "ec_msg_num (eo_sock ?s0) = 1"
    by (simp_all add: echo_start_def echo_begin_def ec_clear_status_def echo_msg_def m_def Let_def)
  let ?s1 = "echo_sent m ?s0"
  have down: "eo_down ?s1 = []" by (simp only: echo_sent_down s0(3))
  have s1: "eo_writing ?s1 = None" "eo_up ?s1 = [m]"
    using s0 by (simp_all add: echo_sent_def echo_on_msg_send_def size_sub_def SIZE_MOD_def)
  let ?s2 = "?s1\<lparr>eo_up := [], eo_down := [m]\<rparr>"
  let ?s3 = "echo_received m (?s2\<lparr>eo_down := []\<rparr>)"
  have e: "eo_writing ?s3 = None" "eo_up ?s3 = []" "eo_down ?s3 = []" using s1(1) by (simp_all add: echo_received_def echo_handle_msg_def)
  have "echo_step ?s0 ?s1" by (rule sent [OF s0(1)])
  moreover have "echo_step ?s1 ?s2" by (rule served [OF s1(2)]) (use down in \<open>simp add: echo_server_handle_def\<close>)
  moreover have "echo_step ?s2 ?s3" by (rule received) simp
  ultimately have "(echo_step ^^ Suc (Suc (Suc 0))) ?s0 ?s3" by auto
  moreover have "\<nexists>u. echo_step ?s3 u" using e by (auto elim: echo_step.cases)
  ultimately show ?thesis by (auto simp: numeral_3_eq_3)
qed

theorem echo_test_passes_witness:
  "\<exists>t. (echo_step ^^ 3) (echo_start 1 8 48 \<lparr>ec_recv_bytes = 5, ec_recv_index = 9, ec_msg_num = 0\<rparr>) t \<and> \<not> eo_error t \<and>
     ec_recv_bytes (eo_sock t) = 8"
proof -
  obtain t where t: "(echo_step ^^ 3) (echo_start 1 8 48 \<lparr>ec_recv_bytes = 5, ec_recv_index = 9, ec_msg_num = 0\<rparr>) t" "\<nexists>u. echo_step t u"
    using echo_one_message by blast
  have "\<not> eo_error t \<and> ec_recv_bytes (eo_sock t) = 8" using echo_test_passes [OF t(1)] t(2) by (simp add: SIZE_MAX_def)
  then show ?thesis using t(1) by blast
qed

section \<open>Links among threads\<close>

text \<open>
  The loop of \<open>send_msg_concurrently\<close> that gives each thread its links; \<open>next_index\<close> is \<open>group_index\<close>, which starts at
  \<open>(size_t) -1\<close>, and one.
\<close>

fun group_loop :: "nat \<Rightarrow> nat \<Rightarrow> nat \<Rightarrow> nat \<Rightarrow> 'a list \<Rightarrow> 'a list list \<Rightarrow> 'a list list" where
  "group_loop group_link_num left_link_num this_num next_index [] groups = groups"
| "group_loop group_link_num left_link_num this_num next_index (item # items) groups =
     (let first = (this_num = 0);
          this1 = (if first then (if left_link_num > 0 then group_link_num + 1 else group_link_num) else this_num);
          left1 = (if first then left_link_num - 1 else left_link_num);
          next1 = (if first then next_index + 1 else next_index)
      in group_loop group_link_num left1 (this1 - 1) next1 items (groups[next1 - 1 := groups ! (next1 - 1) @ [item]]))"

text \<open>\<open>None\<close>: with no link at all the division by \<open>group_num\<close> traps.\<close>

definition link_groups :: "nat \<Rightarrow> 'a list \<Rightarrow> 'a list list option" where
  "link_groups send_thread_num links =
     (let link_num = length links; group_num = min send_thread_num link_num
      in if group_num = 0 then None
         else
           let group_link_num = link_num div group_num; left_link_num = link_num - group_num * group_link_num
           in Some (group_loop group_link_num left_link_num 0 0 links (replicate group_num [])))"

lemma group_loop_spec:
  "length items = this_num + m * q + left_num \<Longrightarrow> left_num \<le> m \<Longrightarrow> 0 < q \<Longrightarrow> (this_num = 0 \<or> done \<noteq> []) \<Longrightarrow>
   \<exists>more. group_loop q left_num this_num (length done) items (done @ replicate m []) =
       (if this_num = 0 then done else butlast done @ [last done @ take this_num items]) @ more \<and>
     length more = m \<and> concat more = drop this_num items \<and> (\<forall>g\<in>set more. length g = q \<or> length g = q + 1)"
proof (induction items arbitrary: this_num m left_num "done")
  case Nil
  then show ?case by (auto intro!: exI [of _ "[]"])
next
  case (Cons item items)
  show ?case
  proof (cases "this_num = 0")
    case True
    then obtain m1 where m1: "m = Suc m1" using Cons.prems by (cases m) auto
    define t1 where "t1 = (if left_num > 0 then q + 1 else q)"
    have len: "length items = (t1 - 1) + m1 * q + (left_num - 1)" using Cons.prems True m1 by (auto simp: t1_def)
    have ih: "\<exists>more. group_loop q (left_num - 1) (t1 - 1) (length (done @ [[item]])) items ((done @ [[item]]) @ replicate m1 []) =
        (if t1 - 1 = 0 then done @ [[item]] else butlast (done @ [[item]]) @ [last (done @ [[item]]) @ take (t1 - 1) items]) @ more \<and>
        length more = m1 \<and> concat more = drop (t1 - 1) items \<and> (\<forall>g\<in>set more. length g = q \<or> length g = q + 1)"
      using Cons.prems m1 by (intro Cons.IH len) auto
    have "(done @ replicate m [])[length done := (done @ replicate m []) ! length done @ [item]] = (done @ [[item]]) @ replicate m1 []"
      by (simp add: m1)
    then have e: "group_loop q left_num this_num (length done) (item # items) (done @ replicate m []) =
        group_loop q (left_num - 1) (t1 - 1) (length (done @ [[item]])) items ((done @ [[item]]) @ replicate m1 [])"
      by (simp add: True t1_def Let_def)
    from ih obtain more where m: "group_loop q (left_num - 1) (t1 - 1) (length (done @ [[item]])) items ((done @ [[item]]) @ replicate m1 []) =
        (done @ [item # take (t1 - 1) items]) @ more" "length more = m1" "concat more = drop (t1 - 1) items"
        "\<forall>g\<in>set more. length g = q \<or> length g = q + 1" by auto
    have "length (item # take (t1 - 1) items) = t1" using len Cons.prems(3) by (auto simp: t1_def)
    then show ?thesis using m e True m1 by (intro exI [of _ "(item # take (t1 - 1) items) # more"]) (auto simp: t1_def)
  next
    case False
    then obtain ds d where ds: "done = ds @ [d]" using Cons.prems(4) by (cases "done" rule: rev_cases) auto
    have "\<exists>more. group_loop q left_num (this_num - 1) (length (ds @ [d @ [item]])) items ((ds @ [d @ [item]]) @ replicate m []) =
        (if this_num - 1 = 0 then ds @ [d @ [item]] else butlast (ds @ [d @ [item]]) @ [last (ds @ [d @ [item]]) @ take (this_num - 1) items]) @ more \<and>
        length more = m \<and> concat more = drop (this_num - 1) items \<and> (\<forall>g\<in>set more. length g = q \<or> length g = q + 1)"
      using Cons.prems False by (intro Cons.IH) auto
    moreover have "group_loop q left_num this_num (length done) (item # items) (done @ replicate m []) =
        group_loop q left_num (this_num - 1) (length (ds @ [d @ [item]])) items ((ds @ [d @ [item]]) @ replicate m [])"
      using False by (simp add: ds nth_append list_update_append Let_def)
    ultimately show ?thesis using False by (cases this_num) (auto simp: ds)
  qed
qed

text \<open>Every link has one thread, and the threads' shares differ by at most one.\<close>

lemma links_shared_out:
  assumes "links \<noteq> []" "0 < send_thread_num"
  shows "\<exists>groups. link_groups send_thread_num links = Some groups \<and> length groups = min send_thread_num (length links) \<and>
    concat groups = links \<and> (\<exists>q>0. \<forall>g\<in>set groups. length g = q \<or> length g = q + 1)"
proof -
  define n where "n = min send_thread_num (length links)"
  define q where "q = length links div n"
  have n: "0 < n" "n \<le> length links" using assms by (auto simp: n_def)
  then have q: "0 < q" by (simp add: q_def div_greater_zero_iff)
  have l: "length links = 0 + n * q + (length links - n * q)" by (simp add: q_def)
  have "length links - n * q = length links mod n" by (simp add: q_def minus_mult_div_eq_mod)
  then have left: "length links - n * q \<le> n" using n by (simp add: less_imp_le)
  from group_loop_spec [OF l left q, of "[]"] obtain more where
    "group_loop q (length links - n * q) 0 0 links (replicate n []) = more" "length more = n" "concat more = links"
    "\<forall>g\<in>set more. length g = q \<or> length g = q + 1" by auto
  then show ?thesis using n q by (auto simp: link_groups_def Let_def n_def [symmetric] q_def [symmetric])
qed

lemma no_links_traps: "link_groups send_thread_num [] = None"
  by (simp add: link_groups_def)

end
