(* ===== verification/Callbacks.thy ===== *)
theory Callbacks
  imports Server
begin

text \<open>
  Events by registration instead of by overriding (\<open>ext/callbacks.h\<close>): for each virtual function a class holds a function and
  whether the parent's is left out; the three macros that call them differ in how they treat results. Functions are state
  transformers, with the arguments of the event already supplied. The server of theory Server with callbacks is the instance.
\<close>

section \<open>Registering and calling\<close>

text \<open>\<open>std::pair<std::function, bool>\<close>: the function, and whether the parent's function is not called.\<close>

type_synonym 'f cb = "'f option \<times> bool"

definition no_cb :: "'f cb" where
  "no_cb = (None, False)"

definition register_cb :: "'f \<Rightarrow> bool \<Rightarrow> 'f cb" where
  "register_cb f pass_on = (Some f, \<not> pass_on)"

definition call_cb_void :: "('s \<Rightarrow> 's) cb \<Rightarrow> ('s \<Rightarrow> 's) \<Rightarrow> 's \<Rightarrow> 's" where
  "call_cb_void cb super s =
     (let s1 = (case fst cb of None \<Rightarrow> s | Some f \<Rightarrow> f s) in if \<not> snd cb then super s1 else s1)"

definition call_cb_combine :: "('s \<Rightarrow> bool \<times> 's) cb \<Rightarrow> ('s \<Rightarrow> bool \<times> 's) \<Rightarrow> 's \<Rightarrow> bool \<times> 's" where
  "call_cb_combine cb super s =
     (let (re, s1) = (case fst cb of None \<Rightarrow> (True, s) | Some f \<Rightarrow> f s) in if re \<and> \<not> snd cb then super s1 else (re, s1))"

text \<open>\<open>init\<close> is \<open>type()\<close>, zero for the numbers it is used with.\<close>

definition call_cb_return :: "'r \<Rightarrow> ('s \<Rightarrow> 'r \<times> 's) cb \<Rightarrow> ('s \<Rightarrow> 'r \<times> 's) \<Rightarrow> 's \<Rightarrow> 'r \<times> 's" where
  "call_cb_return init cb super s =
     (let (re, s1) = (case fst cb of None \<Rightarrow> (init, s) | Some f \<Rightarrow> f s) in if \<not> snd cb then super s1 else (re, s1))"

lemmas cb_defs = no_cb_def register_cb_def call_cb_void_def call_cb_combine_def call_cb_return_def

text \<open>Where nothing is registered it is the parent's function.\<close>

lemma no_callback [simp]:
  "call_cb_void no_cb super = super" "call_cb_combine no_cb super' = super'" "call_cb_return init no_cb super'' = super''"
  by (rule ext, simp add: cb_defs)+

text \<open>
  A registered function replaces the parent's, or goes before it; then it can veto a condition, but its number is thrown
  away and only the parent's counts.
\<close>

lemma replaced [simp]:
  "call_cb_void (register_cb f False) super = f" "call_cb_combine (register_cb g False) super' = g"
  "call_cb_return init (register_cb h False) super'' = h"
  by (rule ext, simp add: cb_defs split_beta)+

lemma passed_on:
  "call_cb_void (register_cb f True) super s = super (f s)"
  "call_cb_combine (register_cb g True) super' s = (if fst (g s) then super' (snd (g s)) else (False, snd (g s)))"
  "call_cb_return init (register_cb h True) super'' s = super'' (snd (h s))"
  by (simp_all add: cb_defs split_beta prod_eq_iff)

text \<open>The events, and whether registering passes them on when the user does not say.\<close>

datatype cb_event =
    Cb_obsoleted | Cb_is_ready | Cb_send_heartbeat | Cb_reset | Cb_on_heartbeat_error | Cb_on_send_error | Cb_on_recv_error
  | Cb_on_close | Cb_after_close | Cb_on_msg | Cb_on_msg_handle | Cb_on_msg_send | Cb_on_all_msg_send | Cb_calc_shrink_size
  | Cb_on_msg_discard | Cb_on_connect | Cb_on_unpack_error | Cb_on_async_shutdown_error | Cb_prepare_reconnect | Cb_take_over
  | Cb_async_accept_num | Cb_start_next_accept | Cb_on_accept | Cb_on_accept_error | Cb_on_create

fun default_pass_on :: "cb_event \<Rightarrow> bool" where
  "default_pass_on Cb_send_heartbeat = False"
| "default_pass_on Cb_on_msg = False"
| "default_pass_on Cb_on_msg_handle = False"
| "default_pass_on Cb_on_msg_send = False"
| "default_pass_on Cb_on_all_msg_send = False"
| "default_pass_on Cb_calc_shrink_size = False"
| "default_pass_on Cb_on_msg_discard = False"
| "default_pass_on Cb_on_connect = False"
| "default_pass_on Cb_prepare_reconnect = False"
| "default_pass_on Cb_take_over = False"
| "default_pass_on Cb_async_accept_num = False"
| "default_pass_on Cb_on_create = False"
| "default_pass_on _ = True"

definition register_for :: "cb_event \<Rightarrow> 'f \<Rightarrow> 'f cb" where
  "register_for e f = register_cb f (default_pass_on e)"

text \<open>So a message handler that is registered without more is the only one, and a condition for readiness is one more.\<close>

lemma msg_handler_replaces:
  "call_cb_combine (register_for Cb_on_msg_handle f) super = f"
  by (simp add: register_for_def)

lemma readiness_is_added:
  "fst (call_cb_combine (register_for Cb_is_ready (\<lambda>s. (ready s, s))) (\<lambda>s. (super s, s)) s) = (ready s \<and> super s)"
  by (simp add: register_for_def passed_on)

section \<open>A server with callbacks\<close>

text \<open>The callbacks of \<open>callbacks::server\<close> but \<open>async_accept_num\<close>, whose answer is in \<open>listen_env\<close>.\<close>

record server_cbs =
  cb_start_next_accept :: "(server \<Rightarrow> server) cb"
  cb_on_accept :: "(server \<Rightarrow> bool \<times> server) cb"
  cb_on_accept_error :: "(server \<Rightarrow> bool \<times> server) cb"

definition no_server_cbs :: server_cbs where
  "no_server_cbs = \<lparr>cb_start_next_accept = no_cb, cb_on_accept = no_cb, cb_on_accept_error = no_cb\<rparr>"

definition cb_next_accept :: "server_cbs \<Rightarrow> ptr option \<Rightarrow> server \<Rightarrow> server" where
  "cb_next_accept cbs mk = call_cb_void (cb_start_next_accept cbs) (start_next_accept mk)"

text \<open>\<open>accept_handler\<close> when the virtual functions it calls are those of \<open>callbacks::server\<close>.\<close>

definition cb_accept_handler :: "server_cbs \<Rightarrow> ptr option \<Rightarrow> accept_ec \<Rightarrow> ptr \<Rightarrow> server \<Rightarrow> server" where
  "cb_accept_handler cbs mk ec socket_ptr s =
     (if ec = Accept_ok
      then
        let (accepted, s1) = call_cb_combine (cb_on_accept cbs) (\<lambda>s. (True, s)) s;
            s2 = (if accepted then snd (add_socket socket_ptr s1) else s1)
        in if sv_listening s2 then cb_next_accept cbs mk s2 else s2
      else
        let (re, s1) = call_cb_combine (cb_on_accept_error cbs) (on_accept_error ec) s
        in if re then cb_next_accept cbs mk s1 else s1)"

lemma cb_accept_none: "cb_accept_handler no_server_cbs mk ec o1 s = accept_handler True mk ec o1 s"
  by (simp add: cb_accept_handler_def no_server_cbs_def cb_next_accept_def accept_handler_def Let_def split_beta)

text \<open>A condition for links, with or without the parent's, is the answer of \<open>on_accept\<close> in theory Server.\<close>

lemma cb_accept_filter:
  "cb_on_accept cbs = register_cb (\<lambda>s. (want s, s)) pass_on \<Longrightarrow> cb_start_next_accept cbs = no_cb \<Longrightarrow>
   cb_accept_handler cbs mk Accept_ok o1 s = accept_handler (want s) mk Accept_ok o1 s"
  by (cases pass_on) (simp_all add: cb_accept_handler_def cb_next_accept_def accept_handler_def passed_on Let_def)

text \<open>
  So whatever \<open>want\<close> decides, the accept loop keeps the server's invariant and, while it listens, starts the next accept.
\<close>

lemma cb_accept_filter_inv:
  assumes "sv_inv s" "(o1, Accept_ok) \<in> set (sv_done s)" "fresh_sockets [mk] s"
    and "cb_on_accept cbs = register_cb (\<lambda>s. (want s, s)) pass_on" "cb_start_next_accept cbs = no_cb"
  shows "sv_inv (cb_accept_handler cbs mk Accept_ok o1 (s\<lparr>sv_done := remove1 (o1, Accept_ok) (sv_done s)\<rparr>))"
  unfolding cb_accept_filter [OF assms(4,5)]
  by (rule sv_inv_step [OF handle [OF assms(2,3)] assms(1)])

text \<open>
  A callback for \<open>on_accept_error\<close> that lets errors pass (\<open>true\<close>) has no effect on them, since the parent is asked as well and says no; with
  \<open>pass_on\<close> false the loop goes on.
\<close>

lemma cb_accept_error_passed_on:
  "cb_on_accept_error cbs = register_for Cb_on_accept_error (\<lambda>s. (True, s)) \<Longrightarrow> ec \<noteq> Accept_ok \<Longrightarrow>
   cb_accept_handler cbs mk ec o1 s = accept_handler b mk ec o1 s"
  by (cases "fst (on_accept_error ec s)") (simp_all add: cb_accept_handler_def accept_handler_def register_for_def passed_on on_accept_error_def Let_def split_beta)

lemma cb_accept_error_replaced:
  "cb_on_accept_error cbs = register_cb (\<lambda>s. (True, s)) False \<Longrightarrow> ec \<noteq> Accept_ok \<Longrightarrow> cb_start_next_accept cbs = no_cb \<Longrightarrow>
   cb_accept_handler cbs mk ec o1 s = start_next_accept mk s"
  by (simp add: cb_accept_handler_def cb_next_accept_def)

text \<open>
  And one that says no by itself keeps the parent from its work: the error is not fatal then (\<open>stop_listen\<close> is not called), the server still
  counts as listening, but this accept is not started again.
\<close>

lemma cb_accept_error_vetoed:
  "cb_on_accept_error cbs = register_cb (\<lambda>s. (False, s)) True \<Longrightarrow> ec \<noteq> Accept_ok \<Longrightarrow> cb_accept_handler cbs mk ec o1 s = s"
  by (simp add: cb_accept_handler_def passed_on)

end
