(* ===== verification/File_Put.thy ===== *)
theory File_Put
  imports File_Transfer
begin

text \<open>
  The other direction of the file transfer program: a file is stored on the server over several links at once. The client's
  first link asks the server to create the file (order 10); when the answer arrives, every link asks to store its piece
  (order 11), and sends it once the server has agreed. The links share the server's disk. A block that was written and the call of
  \<open>on_msg_send\<close> for it are two steps, and so are an answer of the server, which the client may read at once, and the handler of its write,
  which clears the flag that \<open>is_sending\<close> reads: an order that comes in between is dropped.
\<close>

section \<open>The system\<close>

text \<open>
  \<open>ul_notify\<close>: a block has been written and \<open>on_msg_send\<close> is to be called for it. \<open>ul_sending\<close>: \<open>is_sending\<close> of the
  server's socket, which sends nothing but answers here.
\<close>

record up_link =
  ul_client :: file_sock
  ul_server :: file_sock
  ul_notify :: bool
  ul_up :: "item list"
  ul_down :: "item list"
  ul_sending :: bool

text \<open>\<open>up_files\<close>: the server's; \<open>up_size\<close>: \<open>file_size\<close> of the client.\<close>

record upload =
  up_files :: files
  up_size :: int
  up_links :: "up_link list"

definition up_idle :: up_link where
  "up_idle = \<lparr>ul_client = fk_new, ul_server = fk_new, ul_notify = False, ul_up = [], ul_down = [], ul_sending = False\<rparr>"

definition upload_new :: "nat \<Rightarrow> files \<Rightarrow> upload" where
  "upload_new n fs = \<lparr>up_files = fs, up_size = - 1, up_links = replicate n up_idle\<rparr>"

text \<open>\<open>transmit_file\<close> for a file to put; true when every link accepted.\<close>

definition truncate_on :: "bytes \<Rightarrow> nat \<Rightarrow> bool \<times> upload \<Rightarrow> bool \<times> upload" where
  "truncate_on name i r =
     (let t = snd r; l = up_links t ! i; (ok, s, sent) = truncate_file i name True (ul_client l)
      in (fst r \<and> ok, t\<lparr>up_links := (up_links t)[i := l\<lparr>ul_client := s, ul_up := ul_up l @ map Order sent\<rparr>]\<rparr>))"

definition transmit_put :: "bytes \<Rightarrow> upload \<Rightarrow> bool \<times> upload" where
  "transmit_put name t = fold (truncate_on name) [0..<length (up_links t)] (True, t\<lparr>up_size := - 1\<rparr>)"

text \<open>\<open>put_file\<close> of the client's pool: \<open>put_file\<close> on every link.\<close>

definition put_on :: "files \<Rightarrow> bytes \<Rightarrow> nat \<Rightarrow> upload \<Rightarrow> upload" where
  "put_on client_files name i t =
     (let l = up_links t ! i; (re, s, sent, size) = put_file (length (up_links t)) i name client_files (ul_client l)
      in t\<lparr>up_size := (case size of None \<Rightarrow> up_size t | Some n \<Rightarrow> n),
           up_links := (up_links t)[i := l\<lparr>ul_client := s, ul_up := ul_up l @ map Order sent\<rparr>]\<rparr>)"

definition put_on_all :: "files \<Rightarrow> bytes \<Rightarrow> upload \<Rightarrow> upload" where
  "put_on_all client_files name t = fold (put_on client_files name) [0..<length (up_links t)] t"

text \<open>What happens on a link: the two handlers of orders, a block that goes out, \<open>on_msg_send\<close>, and a read of the server's unpacker.\<close>

definition put_server_order :: "(bytes \<Rightarrow> bool) \<Rightarrow> nat \<Rightarrow> bytes \<Rightarrow> upload \<Rightarrow> upload" where
  "put_server_order creatable i msg t =
     (let l = up_links t ! i; (fs, s, sent) = server_handle_msg creatable (ul_sending l) msg (up_files t) (ul_server l)
      in t\<lparr>up_files := fs, up_links := (up_links t)[i := l\<lparr>ul_server := s, ul_down := ul_down l @ map Order sent,
           ul_sending := ul_sending l \<or> sent \<noteq> []\<rparr>]\<rparr>)"

text \<open>The handler of an answer's write finds the send buffer empty.\<close>

definition put_answered :: "up_link \<Rightarrow> up_link" where
  "put_answered l = l\<lparr>ul_sending := False\<rparr>"

definition put_client_order :: "files \<Rightarrow> nat \<Rightarrow> bytes \<Rightarrow> upload \<Rightarrow> upload" where
  "put_client_order client_files i msg t =
     (let l = up_links t ! i;
          (s, sent, size, put) = client_handle_msg (length (up_links t)) i msg client_files (ul_client l);
          t1 = t\<lparr>up_size := (case size of None \<Rightarrow> up_size t | Some n \<Rightarrow> n),
                 up_links := (up_links t)[i := l\<lparr>ul_client := s, ul_up := ul_up l @ map Order sent\<rparr>]\<rparr>
      in case put of None \<Rightarrow> t1 | Some name \<Rightarrow> put_on_all client_files name t1)"

definition put_block :: "up_link \<Rightarrow> up_link" where
  "put_block l = (case fk_stream (ul_client l) of None \<Rightarrow> l | Some fb \<Rightarrow> l\<lparr>ul_notify := True, ul_up := ul_up l @ map Raw (fb_data fb)\<rparr>)"

definition put_sent :: "files \<Rightarrow> up_link \<Rightarrow> up_link" where
  "put_sent client_files l = l\<lparr>ul_notify := False, ul_client := on_msg_send client_files (ul_client l)\<rparr>"

definition put_content :: "nat \<Rightarrow> bytes \<Rightarrow> upload \<Rightarrow> upload" where
  "put_content i ys t =
     (let l = up_links t ! i; (ok, fs, s) = fu_parse_msg True ys (up_files t) (ul_server l)
      in t\<lparr>up_files := fs, up_links := (up_links t)[i := l\<lparr>ul_server := handle_busy s\<rparr>]\<rparr>)"

text \<open>\<open>prompt\<close>: the handler of an answer's write always runs before the next order of that client is handled, which nothing in the program ensures.\<close>

inductive put_step :: "bool \<Rightarrow> (bytes \<Rightarrow> bool) \<Rightarrow> files \<Rightarrow> upload \<Rightarrow> upload \<Rightarrow> bool"
  for prompt :: bool and creatable :: "bytes \<Rightarrow> bool" and client_files :: files where
  put_server_reads: "i < length (up_links t) \<Longrightarrow> ul_up (up_links t ! i) = Order msg # rest \<Longrightarrow>
    fk_unpacker (ul_server (up_links t ! i)) = None \<Longrightarrow> prompt \<longrightarrow> \<not> ul_sending (up_links t ! i) \<Longrightarrow>
    put_step prompt creatable client_files t (put_server_order creatable i msg (t\<lparr>up_links := (up_links t)[i := (up_links t ! i)\<lparr>ul_up := rest\<rparr>]\<rparr>))"
| put_server_sent: "i < length (up_links t) \<Longrightarrow> ul_sending (up_links t ! i) \<Longrightarrow>
    put_step prompt creatable client_files t (t\<lparr>up_links := (up_links t)[i := put_answered (up_links t ! i)]\<rparr>)"
| put_client_reads: "i < length (up_links t) \<Longrightarrow> ul_down (up_links t ! i) = Order msg # rest \<Longrightarrow>
    fk_unpacker (ul_client (up_links t ! i)) = None \<Longrightarrow>
    put_step prompt creatable client_files t (put_client_order client_files i msg (t\<lparr>up_links := (up_links t)[i := (up_links t ! i)\<lparr>ul_down := rest\<rparr>]\<rparr>))"
| put_client_writes: "i < length (up_links t) \<Longrightarrow> fk_stream (ul_client (up_links t ! i)) \<noteq> None \<Longrightarrow> \<not> ul_notify (up_links t ! i) \<Longrightarrow>
    put_step prompt creatable client_files t (t\<lparr>up_links := (up_links t)[i := put_block (up_links t ! i)]\<rparr>)"
| put_client_sent: "i < length (up_links t) \<Longrightarrow> ul_notify (up_links t ! i) \<Longrightarrow>
    put_step prompt creatable client_files t (t\<lparr>up_links := (up_links t)[i := put_sent client_files (up_links t ! i)]\<rparr>)"
| put_server_receives: "i < length (up_links t) \<Longrightarrow> ul_up (up_links t ! i) = map Raw ys @ rest \<Longrightarrow>
    fk_unpacker (ul_server (up_links t ! i)) = Some total_len \<Longrightarrow> length ys = fu_room total_len \<Longrightarrow> ys \<noteq> [] \<Longrightarrow>
    put_step prompt creatable client_files t (put_content i ys (t\<lparr>up_links := (up_links t)[i := (up_links t ! i)\<lparr>ul_up := rest\<rparr>]\<rparr>))"

definition put_is_end :: "upload \<Rightarrow> bool" where
  "put_is_end t \<longleftrightarrow> (\<forall>l\<in>set (up_links t). fk_state (ul_client l) = TRANS_IDLE)"

section \<open>Where a link can be\<close>

text \<open>
  For a piece of \<open>len\<close> bytes from \<open>off\<close>: the server has stored \<open>don\<close> of it, \<open>put\<close> were written before the block that is being sent,
  and \<open>w\<close> says whether that one was written. \<open>Dropped\<close>: the server ignored the offer. The flag of the server's socket is apart.
\<close>

datatype put_phase = Offered | Dropped | Agreed | Sending nat nat bool | Sent nat

definition offering :: "bytes \<Rightarrow> nat \<Rightarrow> file_sock" where
  "offering name off = \<lparr>fk_state = TRANS_PREPARE, fk_file = Some (name, off), fk_unpacker = None, fk_stream = None\<rparr>"

definition storing :: "bytes \<Rightarrow> nat \<Rightarrow> nat \<Rightarrow> nat \<Rightarrow> file_sock" where
  "storing name off len don =
     (if don = len then fk_new
      else \<lparr>fk_state = TRANS_BUSY, fk_file = Some (name, off + don), fk_unpacker = Some (int (len - don)), fk_stream = None\<rparr>)"

definition sending :: "bytes \<Rightarrow> bytes \<Rightarrow> nat \<Rightarrow> nat \<Rightarrow> nat \<Rightarrow> nat \<Rightarrow> file_sock" where
  "sending name content off len put k =
     \<lparr>fk_state = TRANS_BUSY, fk_file = Some (name, off + put + k), fk_unpacker = None,
      fk_stream = Some \<lparr>fb_data = fread (off + put) k content, fb_total = int (len - put - k), fb_good = True\<rparr>\<rparr>"

fun put_link :: "bytes \<Rightarrow> bytes \<Rightarrow> nat \<Rightarrow> nat \<Rightarrow> put_phase \<Rightarrow> up_link \<Rightarrow> bool" where
  "put_link name content off len Offered l \<longleftrightarrow> 0 < len \<and>
     l = \<lparr>ul_client = offering name off, ul_server = fk_new, ul_notify = False,
          ul_up = [Order (11 # fl_bytes (int off) @ fl_bytes (int len) @ name)], ul_down = [], ul_sending = False\<rparr>"
| "put_link name content off len Dropped l \<longleftrightarrow> 0 < len \<and>
     l = \<lparr>ul_client = offering name off, ul_server = fk_new, ul_notify = False, ul_up = [], ul_down = [], ul_sending = False\<rparr>"
| "put_link name content off len Agreed l \<longleftrightarrow> 0 < len \<and>
     l = \<lparr>ul_client = offering name off, ul_server = storing name off len 0, ul_notify = False,
          ul_up = [], ul_down = [Order (11 # fl_bytes (int len) @ [0])], ul_sending = False\<rparr>"
| "put_link name content off len (Sending don put w) l \<longleftrightarrow>
     (\<exists>k. 0 < k \<and> put + k \<le> len \<and> don \<le> put + (if w then k else 0) \<and>
        l = \<lparr>ul_client = sending name content off len put k, ul_server = storing name off len don, ul_notify = w,
             ul_up = map Raw (fread (off + don) (put + (if w then k else 0) - don) content), ul_down = [], ul_sending = False\<rparr>)"
| "put_link name content off len (Sent don) l \<longleftrightarrow> don \<le> len \<and>
     l = \<lparr>ul_client = fk_new, ul_server = storing name off len don, ul_notify = False,
          ul_up = map Raw (fread (off + don) (len - don) content), ul_down = [], ul_sending = False\<rparr>"

fun put_done :: "put_phase \<Rightarrow> nat" where
  "put_done Offered = 0"
| "put_done Dropped = 0"
| "put_done Agreed = 0"
| "put_done (Sending don put w) = don"
| "put_done (Sent don) = don"

fun put_work :: "nat \<Rightarrow> put_phase \<Rightarrow> nat" where
  "put_work len Offered = 3 * len + 3"
| "put_work len Dropped = 0"
| "put_work len Agreed = 3 * len + 1"
| "put_work len (Sending don put w) = (len - don) + 2 * (len - put) - of_bool w"
| "put_work len (Sent don) = len - don"

lemma put_answered_eq:
  "put_answered l = \<lparr>ul_client = c, ul_server = s, ul_notify = w, ul_up = u, ul_down = d, ul_sending = False\<rparr> \<longleftrightarrow>
   l = \<lparr>ul_client = c, ul_server = s, ul_notify = w, ul_up = u, ul_down = d, ul_sending = ul_sending l\<rparr>"
  by (cases l) (auto simp: put_answered_def)

lemma put_answered_fields [simp]:
  "ul_client (put_answered l) = ul_client l" "ul_server (put_answered l) = ul_server l" "ul_notify (put_answered l) = ul_notify l"
  "ul_up (put_answered l) = ul_up l" "ul_down (put_answered l) = ul_down l" "ul_sending (put_answered l) = False"
  "put_answered (put_answered l) = put_answered l"
  "put_answered (l\<lparr>ul_up := u, ul_server := s\<rparr>) = (put_answered l)\<lparr>ul_up := u, ul_server := s\<rparr>"
  "put_answered (put_block l) = put_block (put_answered l)" "put_answered (put_sent client_files l) = put_sent client_files (put_answered l)"
  "ul_sending (put_block l) = ul_sending l" "ul_sending (put_sent client_files l) = ul_sending l"
  by (simp_all add: put_answered_def put_block_def put_sent_def split: option.splits)

text \<open>What the fields of a link say of its phase.\<close>

lemma put_link_phase:
  "put_link name content off len ph l \<Longrightarrow> ul_up l = Order msg # rest \<Longrightarrow> fk_unpacker (ul_server l) = None \<Longrightarrow> ph = Offered"
  "put_link name content off len ph l \<Longrightarrow> ul_down l = Order msg # rest \<Longrightarrow> ph = Agreed"
  "put_link name content off len ph l \<Longrightarrow> fk_stream (ul_client l) \<noteq> None \<Longrightarrow> \<not> ul_notify l \<Longrightarrow> \<exists>don put. ph = Sending don put False"
  "put_link name content off len ph l \<Longrightarrow> ul_notify l \<Longrightarrow> \<exists>don put. ph = Sending don put True"
  "put_link name content off len ph l \<Longrightarrow> fk_unpacker (ul_server l) = Some total_len \<Longrightarrow> ph \<noteq> Dropped"
  by (cases ph; auto simp: storing_def offering_def fk_new_def map_eq_Cons_conv split: if_splits)+

lemma put_link_ends:
  "put_link name content off len Offered l \<Longrightarrow> \<exists>msg. ul_up l = [Order msg] \<and> fk_unpacker (ul_server l) = None"
  "put_link name content off len Dropped l \<Longrightarrow> fk_state (ul_client l) = TRANS_PREPARE \<and> 0 < len"
  "put_link name content off len (Sent len) l \<Longrightarrow> fk_state (ul_client l) = TRANS_IDLE \<and> ul_server l = fk_new"
  "put_link name content off len (Sent don) l \<Longrightarrow> fk_state (ul_client l) = TRANS_IDLE"
  by (auto simp: storing_def offering_def fk_new_def)

section \<open>What each step does to its link\<close>

lemma offered_order:
  assumes "fs name = Some have" "0 < len" "name \<noteq> []" "0 \<notin> set name" "fl_range (int off)" "fl_range (int len)"
  shows "server_handle_msg creatable False (11 # fl_bytes (int off) @ fl_bytes (int len) @ name) fs fk_new =
    (fs, storing name off len 0, [11 # fl_bytes (int len) @ [0]])"
  using assms
  by (simp add: server_handle_msg_def server_order_11_def ORDER_LEN_def OFFSET_LEN_def DATA_LEN_def chunk_def c_str_id fk_defs
      storing_def Let_def)

text \<open>
  The server drops an order that arrives while the socket still counts as sending, which the answer to the order before can cause: the flag
  is cleared by the handler of that write, and not when the bytes are gone.
\<close>

lemma order_dropped_while_sending:
  "fk_state s \<noteq> TRANS_BUSY \<Longrightarrow> msg ! 0 \<in> {0, 10, 11} \<Longrightarrow> server_handle_msg creatable True msg fs s = (fs, s, [])"
  by (auto simp: server_handle_msg_def server_order_0_def server_order_10_def server_order_11_def)

text \<open>The first block, and the next one.\<close>

lemma agreed_order:
  assumes "client_files name = Some content" "0 < len" "off + len \<le> length content" "fl_range (int len)"
  shows "\<exists>k. 0 < k \<and> k \<le> len \<and>
    client_handle_msg n i (11 # fl_bytes (int len) @ [0]) client_files (offering name off) = (sending name content off len 0 k, [], None, None)"
proof -
  define k where "k = min default_max_transfer_size len"
  have "fb_new content off (int len) = (off + k, \<lparr>fb_data = fread off k content, fb_total = int (len - k), fb_good = True\<rparr>)"
    using fb_read_ok [of "\<lparr>fb_data = [], fb_total = int len, fb_good = True\<rparr>" off content k] assms(3)
    by (simp add: fb_new_def k_def of_nat_diff min_def)
  then have "client_handle_msg n i (11 # fl_bytes (int len) @ [0]) client_files (offering name off) = (sending name content off len 0 k, [], None, None)"
    using assms
    by (simp add: client_handle_msg_def client_order_11_def ORDER_LEN_def OFFSET_LEN_def DATA_LEN_def chunk_def offering_def sending_def
        start_stream_def content_of_def nth_append Let_def)
  moreover have "0 < k" "k \<le> len" using assms(2) by (auto simp: k_def default_max_transfer_size_def)
  ultimately show ?thesis by blast
qed

lemma next_block:
  assumes "client_files name = Some content" "put + k \<le> len" "off + len \<le> length content" "0 < k"
  shows "on_msg_send client_files (sending name content off len put k) = fk_new \<and> put + k = len \<or>
    (\<exists>k1. 0 < k1 \<and> put + k + k1 \<le> len \<and> on_msg_send client_files (sending name content off len put k) = sending name content off len (put + k) k1)"
proof -
  define b where "b = min default_max_transfer_size (len - put - k)"
  have "len - put - k - default_max_transfer_size = len - put - k - b" by (simp add: b_def)
  then have rd: "fb_read content (off + put + k) \<lparr>fb_data = fread (off + put) k content, fb_total = int (len - put - k), fb_good = True\<rparr> =
      (True, off + put + k + b, \<lparr>fb_data = fread (off + put + k) b content, fb_total = int (len - put - k - b), fb_good = True\<rparr>)"
    using fb_read_nat [of "off + put + k" "len - put - k" content] assms(2,3) unfolding b_def by simp
  have l: "length (fread (off + put + k) b content) = b" using assms(2,3) by (intro fread_len) (simp add: b_def)
  show ?thesis
  proof (cases "put + k = len")
    case True
    then have "b = 0" by (simp add: b_def)
    then show ?thesis using True rd by (simp add: on_msg_send_def sending_def content_of_def assms(1) fread_def fk_defs)
  next
    case False
    then have b: "0 < b" "put + k + b \<le> len" using assms(2) by (auto simp: b_def default_max_transfer_size_def)
    then have "fread (off + put + k) b content \<noteq> []" using l by auto
    then have "on_msg_send client_files (sending name content off len put k) = sending name content off len (put + k) b"
      using rd by (simp add: on_msg_send_def sending_def content_of_def assms(1) add.assoc)
    then show ?thesis using b by blast
  qed
qed

lemma put_block_link:
  assumes "put_link name content off len (Sending don put False) l"
  shows "put_link name content off len (Sending don put True) (put_block l)"
proof -
  obtain k where k: "0 < k" "put + k \<le> len" "don \<le> put"
    and l: "l = \<lparr>ul_client = sending name content off len put k, ul_server = storing name off len don, ul_notify = False,
      ul_up = map Raw (fread (off + don) (put - don) content), ul_down = [], ul_sending = False\<rparr>" using assms by auto
  have "fread (off + don) (put - don) content @ fread (off + put) k content = fread (off + don) (put + k - don) content"
    using fread_split [of "off + don" "put - don" k content] k(3) by simp
  then show ?thesis using k by (simp add: l put_block_def sending_def flip: map_append)
qed

lemma put_sent_link:
  assumes ph: "put_link name content off len (Sending don put True) l" and cf: "client_files name = Some content" "off + len \<le> length content"
  shows "\<exists>ph1. put_link name content off len ph1 (put_sent client_files l) \<and> put_done ph1 = don \<and> ph1 \<noteq> Dropped \<and> ph1 \<noteq> Offered \<and>
    put_work len ph1 < put_work len (Sending don put True)"
proof -
  obtain k where k: "0 < k" "put + k \<le> len" "don \<le> put + k"
    and l: "l = \<lparr>ul_client = sending name content off len put k, ul_server = storing name off len don, ul_notify = True,
      ul_up = map Raw (fread (off + don) (put + k - don) content), ul_down = [], ul_sending = False\<rparr>" using ph by auto
  from next_block [where client_files = client_files, OF cf(1) k(2) cf(2) k(1)] show ?thesis
  proof
    assume "on_msg_send client_files (sending name content off len put k) = fk_new \<and> put + k = len"
    then show ?thesis using k by (intro exI [of _ "Sent don"]) (auto simp: l put_sent_def)
  next
    assume "\<exists>k1. 0 < k1 \<and> put + k + k1 \<le> len \<and> on_msg_send client_files (sending name content off len put k) = sending name content off len (put + k) k1"
    then obtain k1 where "0 < k1" "put + k + k1 \<le> len"
      "on_msg_send client_files (sending name content off len put k) = sending name content off len (put + k) k1" by blast
    then show ?thesis using k by (intro exI [of _ "Sending don (put + k) False"]) (auto simp: l put_sent_def)
  qed
qed

text \<open>A read of the server.\<close>

lemma put_received_link:
  assumes ph: "put_link name content off len ph l" and up: "ul_up l = map Raw ys @ rest" and ys: "ys \<noteq> []"
    and unp: "fk_unpacker (ul_server l) = Some total_len" and e: "off + len \<le> length content"
  shows "total_len = int (len - put_done ph) \<and> ul_server l = storing name off len (put_done ph) \<and>
    put_done ph + length ys \<le> len \<and> ys = fread (off + put_done ph) (length ys) content \<and>
    (\<exists>ph1. put_link name content off len ph1 (l\<lparr>ul_up := rest, ul_server := storing name off len (put_done ph + length ys)\<rparr>) \<and>
       put_work len ph1 < put_work len ph \<and> put_done ph1 = put_done ph + length ys \<and> ph1 \<noteq> Dropped \<and> ph1 \<noteq> Offered)"
proof (cases ph)
  case (Sending don put w)
  obtain k where k: "0 < k" "put + k \<le> len" "don \<le> put + (if w then k else 0)"
    and l: "l = \<lparr>ul_client = sending name content off len put k, ul_server = storing name off len don, ul_notify = w,
      ul_up = map Raw (fread (off + don) (put + (if w then k else 0) - don) content), ul_down = [], ul_sending = False\<rparr>" using ph Sending by auto
  have "off + don + (put + (if w then k else 0) - don) \<le> length content" using k e by (auto split: if_splits)
  note f = raws_in_front [OF up [unfolded l, simplified] this]
  have don: "don < len" "total_len = int (len - don)" using unp k by (auto simp: l storing_def fk_new_def split: if_splits)
  have y: "0 < length ys" "don + length ys \<le> put + (if w then k else 0)" "don + length ys \<le> len" using ys f k by (auto split: if_splits)
  have w: "put_work len (Sending (don + length ys) put w) < put_work len (Sending don put w)"
  proof -
    have a: "len - (don + length ys) < len - don" using y(1,3) by linarith
    have b: "1 \<le> 2 * (len - put)" using k(1,2) by linarith
    have "of_bool w \<le> (1 :: nat)" by simp
    then show ?thesis using a b unfolding put_work.simps by linarith
  qed
  have "put_link name content off len (Sending (don + length ys) put w) (l\<lparr>ul_up := rest, ul_server := storing name off len (don + length ys)\<rparr>)"
    using f k y by (auto simp: l add.assoc)
  note link = this
  have sv: "ul_server l = storing name off len don" by (simp add: l)
  show ?thesis unfolding Sending put_done.simps
    by (intro conjI exI [of _ "Sending (don + length ys) put w"])
      (fact don(2) sv y(3) f [THEN conjunct2, THEN conjunct1] link w put_done.simps put_phase.distinct)+
next
  case (Sent don)
  have l: "don \<le> len" "l = \<lparr>ul_client = fk_new, ul_server = storing name off len don, ul_notify = False,
          ul_up = map Raw (fread (off + don) (len - don) content), ul_down = [], ul_sending = False\<rparr>" using ph Sent by auto
  have "off + don + (len - don) \<le> length content" using l(1) e by simp
  note f = raws_in_front [OF up [unfolded l(2), simplified] this]
  moreover have "don < len" "0 < length ys" using unp l ys by (auto simp: storing_def fk_new_def split: if_splits)
  then have "len - (don + length ys) < len - don" by linarith
  ultimately show ?thesis
    using l unp ys by (intro conjI exI [of _ "Sent (don + length ys)"]) (auto simp: Sent storing_def fk_new_def add.assoc split: if_splits)
qed (use assms in \<open>auto simp: fk_new_def\<close>)

section \<open>All links\<close>

definition upload_at :: "bytes \<Rightarrow> bytes \<Rightarrow> put_phase list \<Rightarrow> upload \<Rightarrow> bool" where
  "upload_at name content phs t \<longleftrightarrow> length (up_links t) = length phs \<and>
     (\<exists>have. up_files t name = Some have \<and> length have \<le> length content \<and>
       (\<forall>i<length phs.
          put_link name content (piece_start (length phs) i (length content)) (piece_len (length phs) i (length content)) (phs ! i)
            (put_answered (up_links t ! i)) \<and>
          (phs ! i = Dropped \<or> phs ! i = Offered \<and> ul_sending (up_links t ! i) \<longrightarrow> i = 0) \<and>
          has_part content (piece_start (length phs) i (length content)) (put_done (phs ! i)) have))"

definition upload_work :: "bytes \<Rightarrow> put_phase list \<Rightarrow> upload \<Rightarrow> nat" where
  "upload_work content phs t =
     (\<Sum>i<length phs. put_work (piece_len (length phs) i (length content)) (phs ! i) + of_bool (ul_sending (up_links t ! i)))"

lemma upload_work_drops:
  assumes "i < length phs" "length (up_links t) = length phs" "up_links t1 = (up_links t)[i := l]"
    and "put_work (piece_len (length phs) i (length content)) ph + of_bool (ul_sending l) <
      put_work (piece_len (length phs) i (length content)) (phs ! i) + of_bool (ul_sending (up_links t ! i))"
  shows "upload_work content (phs[i := ph]) t1 < upload_work content phs t"
proof -
  let ?w = "\<lambda>qs ls j. put_work (piece_len (length phs) j (length content)) (qs ! j) + of_bool (ul_sending (ls ! j))"
  have "(\<Sum>j<length phs. ?w (phs[i := ph]) ((up_links t)[i := l]) j) < (\<Sum>j<length phs. ?w phs (up_links t) j)"
    using assms by (intro sum_strict_mono_ex1) (auto simp: nth_list_update intro!: bexI [of _ i])
  then show ?thesis using assms(3) by (simp add: upload_work_def)
qed

lemma put_done_le: "put_link name content off len ph l \<Longrightarrow> put_done ph \<le> len"
  by (cases ph) (auto split: if_splits)

text \<open>A step of link \<open>i\<close> that leaves the files alone.\<close>

lemma upload_update:
  assumes "upload_at name content phs t" "i < length phs"
    "put_link name content (piece_start (length phs) i (length content)) (piece_len (length phs) i (length content)) ph (put_answered l)"
    "ph = Dropped \<or> ph = Offered \<and> ul_sending l \<Longrightarrow> i = 0"
    "put_done ph = put_done (phs ! i)" "up_links t1 = (up_links t)[i := l]" "up_files t1 = up_files t"
  shows "upload_at name content (phs[i := ph]) t1"
  using assms by (auto simp: upload_at_def nth_list_update)

text \<open>The server writes a block of link \<open>i\<close>.\<close>

lemma upload_store:
  assumes at: "upload_at name content phs t" and i: "i < length phs" and hv: "up_files t name = Some have"
  defines "off \<equiv> piece_start (length phs) i (length content)" and "k \<equiv> piece_len (length phs) i (length content)"
  assumes link: "put_link name content off k ph (put_answered l)" "put_done ph = put_done (phs ! i) + length ys" "ph \<noteq> Dropped" "ph \<noteq> Offered"
    and ys: "ys = fread (off + put_done (phs ! i)) (length ys) content"
    and t1: "up_links t1 = (up_links t)[i := l]" "up_files t1 = (up_files t)(name \<mapsto> fwrite (off + put_done (phs ! i)) ys have)"
  shows "upload_at name content (phs[i := ph]) t1"
proof -
  let ?s = "off + put_done (phs ! i)"
  let ?new = "fwrite ?s ys have"
  let ?n = "length phs" and ?L = "length content"
  have old: "length have \<le> ?L" "\<And>j. j < ?n \<Longrightarrow> put_link name content (piece_start ?n j ?L) (piece_len ?n j ?L) (phs ! j) (put_answered (up_links t ! j)) \<and>
      (phs ! j = Dropped \<or> phs ! j = Offered \<and> ul_sending (up_links t ! j) \<longrightarrow> j = 0) \<and>
      has_part content (piece_start ?n j ?L) (put_done (phs ! j)) have" "length (up_links t) = ?n"
    using at hv by (auto simp: upload_at_def)
  have e: "?s + length ys \<le> off + k" using put_done_le [OF link(1)] link(2) by simp
  have e2: "off + k \<le> ?L" using piece_end_le [OF i, of ?L] by (simp add: off_def k_def)
  have "has_part content off (put_done ph) ?new"
    using has_part_write [of content off "put_done (phs ! i)" "have" ys] old(2) [OF i] e e2 ys link(2) by (simp add: off_def)
  moreover have "has_part content (piece_start ?n j ?L) (put_done (phs ! j)) ?new" if j: "j < ?n" "j \<noteq> i" for j
  proof -
    have d: "put_done (phs ! j) \<le> piece_len ?n j ?L" using old(2) [OF j(1)] put_done_le by blast
    have w: "off \<le> ?s" "?s + length ys \<le> off + k" using e by simp_all
    have "i < j \<Longrightarrow> off + k \<le> piece_start ?n j ?L" using pieces_disjoint [of i j ?n ?L] j by (simp add: off_def k_def)
    moreover have "j < i \<Longrightarrow> piece_start ?n j ?L + piece_len ?n j ?L \<le> off" using pieces_disjoint [of j i ?n ?L] i by (simp add: off_def)
    ultimately have "?s + length ys \<le> piece_start ?n j ?L \<or> piece_start ?n j ?L + put_done (phs ! j) \<le> ?s"
      using j(2) d w by linarith
    then show ?thesis using old(2) [OF j(1)] by (simp add: has_part_other)
  qed
  moreover have "length ?new \<le> ?L" using old(1) e e2 by (simp add: length_fwrite)
  ultimately show ?thesis using old i link(1,3,4) t1 by (auto simp: upload_at_def nth_list_update off_def k_def)
qed

section \<open>The beginning\<close>

text \<open>A link after \<open>put_file\<close>.\<close>

definition put_offer :: "files \<Rightarrow> bytes \<Rightarrow> nat \<Rightarrow> nat \<Rightarrow> up_link \<Rightarrow> up_link" where
  "put_offer client_files name n i l =
     (let (re, s, sent, size) = put_file n i name client_files (ul_client l) in l\<lparr>ul_client := s, ul_up := ul_up l @ map Order sent\<rparr>)"

lemma put_on_link:
  "up_links (put_on client_files name i t) = (up_links t)[i := put_offer client_files name (length (up_links t)) i (up_links t ! i)] \<and>
   up_files (put_on client_files name i t) = up_files t"
  by (simp add: put_on_def put_offer_def Let_def split_beta)

lemma put_on_first:
  "m \<le> length (up_links t) \<Longrightarrow>
   up_links (fold (put_on client_files name) [0..<m] t) =
     map (\<lambda>i. put_offer client_files name (length (up_links t)) i (up_links t ! i)) [0..<m] @ drop m (up_links t) \<and>
   up_files (fold (put_on client_files name) [0..<m] t) = up_files t"
proof (induction m)
  case (Suc m)
  let ?xs = "up_links t" and ?f = "\<lambda>i. put_offer client_files name (length (up_links t)) i (up_links t ! i)"
  have "(map ?f [0..<m] @ drop m ?xs)[m := ?f m] = map ?f [0..<Suc m] @ drop (Suc m) ?xs"
    using Suc.prems by (simp add: list_update_append Cons_nth_drop_Suc [symmetric])
  then show ?case using Suc by (simp add: put_on_link nth_append)
qed simp

lemma put_on_all_links:
  "up_links (put_on_all client_files name t) =
     map (\<lambda>i. put_offer client_files name (length (up_links t)) i (up_links t ! i)) [0..<length (up_links t)] \<and>
   up_files (put_on_all client_files name t) = up_files t"
  using put_on_first [of "length (up_links t)" t client_files name] by (simp add: put_on_all_def)

lemma put_offer_link:
  assumes "client_files name = Some content" "0 \<notin> set name" "i < n"
  defines "k \<equiv> piece_len n i (length content)"
  shows "put_link name content (piece_start n i (length content)) k (if 0 < k then Offered else Sent 0)
    (put_answered (put_offer client_files name n i (up_idle\<lparr>ul_client := fk_new\<lparr>fk_state := st\<rparr>, ul_sending := f\<rparr>))) \<and>
    ul_sending (put_offer client_files name n i (up_idle\<lparr>ul_client := fk_new\<lparr>fk_state := st\<rparr>, ul_sending := f\<rparr>)) = f"
proof -
  have "file_piece n i (int (length content)) = (int (piece_start n i (length content)), int k)"
    using file_piece_nat [of n i "length content"] assms(3) by (simp add: k_def)
  then show ?thesis
    using assms(1,2) by (simp add: put_offer_def put_file_def c_str_id up_idle_def offering_def storing_def fk_defs fread_def put_answered_def Let_def)
qed

text \<open>Before the server has created the file, and before the client knows.\<close>

definition put_asking :: "bytes \<Rightarrow> nat \<Rightarrow> upload \<Rightarrow> bool" where
  "put_asking name n t \<longleftrightarrow> up_links t =
     (up_idle\<lparr>ul_client := fk_new\<lparr>fk_state := TRANS_PREPARE\<rparr>, ul_up := [Order (10 # name)]\<rparr>) # replicate (n - 1) up_idle"

definition put_created :: "bytes \<Rightarrow> nat \<Rightarrow> bool \<Rightarrow> upload \<Rightarrow> bool" where
  "put_created name n f t \<longleftrightarrow> up_files t name = Some [] \<and> up_links t =
     (up_idle\<lparr>ul_client := fk_new\<lparr>fk_state := TRANS_PREPARE\<rparr>, ul_down := [Order (10 # 0 # name)], ul_sending := f\<rparr>) #
       replicate (n - 1) up_idle"

lemma truncate_others: "i \<noteq> 0 \<Longrightarrow> i < length (up_links (snd r)) \<Longrightarrow> truncate_on name i r = r"
  by (cases r) (simp add: truncate_on_def truncate_file_def)

lemma truncate_rest: "(\<And>i. i \<in> set is \<Longrightarrow> i \<noteq> 0 \<and> i < length (up_links (snd r))) \<Longrightarrow> fold (truncate_on name) is r = r"
  by (induction "is") (simp_all add: truncate_others)

lemma transmit_put_asks:
  assumes "0 < n" "transmit_put name (upload_new n fs) = (ok, t)"
  shows "ok \<and> put_asking name n t"
proof -
  obtain k where n: "n = Suc k" using assms(1) by (cases n) auto
  define t0 where "t0 = \<lparr>up_files = fs, up_size = - 1,
    up_links = up_idle\<lparr>ul_client := fk_new\<lparr>fk_state := TRANS_PREPARE\<rparr>, ul_up := [Order (10 # name)]\<rparr> # replicate k up_idle\<rparr>"
  have "truncate_on name 0 (True, upload_new n fs) = (True, t0)"
    by (simp add: truncate_on_def truncate_file_def upload_new_def n t0_def up_idle_def fk_new_def)
  moreover have "fold (truncate_on name) [1..<n] (True, t0) = (True, t0)" by (rule truncate_rest) (auto simp: n t0_def)
  moreover have "[0..<n] = 0 # [1..<n]" using assms(1) by (simp add: upt_conv_Cons)
  ultimately have "transmit_put name (upload_new n fs) = (True, t0)" by (simp add: transmit_put_def upload_new_def)
  then show ?thesis using assms(2) by (auto simp: put_asking_def t0_def n)
qed

lemma asking_step:
  assumes st: "put_step prompt creatable client_files t t1" and a: "put_asking name n t" and n: "0 < n"
    and ok: "creatable name" "name \<noteq> []" "0 \<notin> set name"
  shows "put_created name n True t1"
proof -
  have rest: "up_links t ! i = up_idle" if "i < length (up_links t)" "i \<noteq> 0" for i
    using a that by (cases i) (auto simp: put_asking_def)
  have first: "up_links t ! 0 = up_idle\<lparr>ul_client := fk_new\<lparr>fk_state := TRANS_PREPARE\<rparr>, ul_up := [Order (10 # name)]\<rparr>" "length (up_links t) = n"
    using a n by (auto simp: put_asking_def)
  from st show ?thesis
  proof cases
    case (put_server_reads i msg more)
    then have i: "i = 0" "msg = 10 # name" "more = []" using first rest [of i] by (cases "i = 0"; auto simp: up_idle_def)+
    have "server_handle_msg creatable False (10 # name) (up_files t) fk_new = ((up_files t)(name \<mapsto> []), fk_new, [10 # 0 # name])"
      using ok by (simp add: server_handle_msg_def server_order_10_def ORDER_LEN_def c_str_id fk_defs Let_def)
    then have "up_files t1 = (up_files t)(name \<mapsto> [])" "up_links t1 =
        (up_links t)[0 := up_idle\<lparr>ul_client := fk_new\<lparr>fk_state := TRANS_PREPARE\<rparr>, ul_down := [Order (10 # 0 # name)], ul_sending := True\<rparr>]"
      using put_server_reads(1) first n by (simp_all add: i put_server_order_def up_idle_def fk_new_def Let_def)
    then show ?thesis using a by (simp add: put_created_def put_asking_def)
  next
    case (put_server_sent i)
    then show ?thesis using first rest [of i] by (cases "i = 0") (auto simp: up_idle_def)
  next
    case (put_client_reads i msg more)
    then show ?thesis using first rest [of i] by (cases "i = 0") (auto simp: up_idle_def)
  next
    case (put_client_writes i)
    then show ?thesis using first rest [of i] by (cases "i = 0") (auto simp: up_idle_def fk_new_def)
  next
    case (put_client_sent i)
    then show ?thesis using first rest [of i] by (cases "i = 0") (auto simp: up_idle_def)
  next
    case (put_server_receives i ys more total_len)
    then show ?thesis using first rest [of i] by (cases "i = 0") (auto simp: up_idle_def fk_new_def)
  qed
qed

text \<open>The answer makes all links offer their pieces.\<close>

definition first_phases :: "nat \<Rightarrow> bytes \<Rightarrow> put_phase list" where
  "first_phases n content = map (\<lambda>i. if 0 < piece_len n i (length content) then Offered else Sent 0) [0..<n]"

definition created_read :: "files \<Rightarrow> bytes \<Rightarrow> upload \<Rightarrow> upload" where
  "created_read client_files name t =
     put_client_order client_files 0 (10 # 0 # name) (t\<lparr>up_links := (up_links t)[0 := (up_links t ! 0)\<lparr>ul_down := []\<rparr>]\<rparr>)"

lemma created_reads:
  assumes a: "put_created name n f t" and n: "0 < n"
    and ok: "client_files name = Some content" "name \<noteq> []" "0 \<notin> set name"
  shows "put_step prompt creatable client_files t (created_read client_files name t) \<and>
    upload_at name content (first_phases n content) (created_read client_files name t) \<and>
    (\<forall>i<n. ul_sending (up_links (created_read client_files name t) ! i) \<longleftrightarrow> f \<and> i = 0)"
proof -
  have first: "up_links t ! 0 = up_idle\<lparr>ul_client := fk_new\<lparr>fk_state := TRANS_PREPARE\<rparr>, ul_down := [Order (10 # 0 # name)], ul_sending := f\<rparr>"
    "length (up_links t) = n"
    using a n by (auto simp: put_created_def)
  define t0 where "t0 = t\<lparr>up_links := (up_idle\<lparr>ul_client := fk_new\<lparr>fk_state := TRANS_PREPARE\<rparr>, ul_sending := f\<rparr>) # replicate (n - 1) up_idle\<rparr>"
  have "client_handle_msg n 0 (10 # 0 # name) client_files (fk_new\<lparr>fk_state := TRANS_PREPARE\<rparr>) =
      (fk_new\<lparr>fk_state := TRANS_PREPARE\<rparr>, [], None, Some name)"
    using ok by (simp add: client_handle_msg_def client_order_10_def ORDER_LEN_def c_str_id fk_new_def)
  then have t1: "created_read client_files name t = put_on_all client_files name t0"
    using first n a by (simp add: created_read_def put_client_order_def up_idle_def t0_def put_created_def Let_def)
  have st: "put_step prompt creatable client_files t (created_read client_files name t)"
    unfolding created_read_def by (rule put_step.put_client_reads) (use first n in \<open>simp_all add: up_idle_def fk_new_def\<close>)
  have l0: "length (up_links t0) = n" "up_files t0 name = Some []" using n a by (auto simp: t0_def put_created_def)
  have ex: "\<exists>st. up_links t0 ! j = up_idle\<lparr>ul_client := fk_new\<lparr>fk_state := st\<rparr>, ul_sending := f \<and> j = 0\<rparr>" if "j < n" for j
  proof (cases "j = 0")
    case False
    then have "up_links t0 ! j = up_idle\<lparr>ul_client := fk_new\<lparr>fk_state := TRANS_IDLE\<rparr>, ul_sending := False\<rparr>"
      using that by (auto simp: t0_def up_idle_def fk_new_def)
    then show ?thesis using False by auto
  qed (auto simp: t0_def)
  have link: "put_link name content (piece_start n j (length content)) (piece_len n j (length content)) (first_phases n content ! j)
      (put_answered (put_offer client_files name n j (up_links t0 ! j))) \<and>
      (ul_sending (put_offer client_files name n j (up_links t0 ! j)) \<longleftrightarrow> f \<and> j = 0)" if j: "j < n" for j
  proof -
    obtain st where "up_links t0 ! j = up_idle\<lparr>ul_client := fk_new\<lparr>fk_state := st\<rparr>, ul_sending := f \<and> j = 0\<rparr>" using ex [OF j] by blast
    then show ?thesis
      using put_offer_link [where client_files = client_files and st = st and f = "f \<and> j = 0", OF ok(1,3) j] j by (simp add: first_phases_def)
  qed
  have "put_done (first_phases n content ! j) = 0 \<and> first_phases n content ! j \<noteq> Dropped" if "j < n" for j using that by (simp add: first_phases_def)
  then have "upload_at name content (first_phases n content) (created_read client_files name t) \<and>
      (\<forall>i<n. ul_sending (up_links (created_read client_files name t) ! i) \<longleftrightarrow> f \<and> i = 0)"
    using link put_on_all_links [of client_files name t0] l0 by (auto simp: t1 upload_at_def has_part_def first_phases_def)
  then show ?thesis using st by blast
qed

lemma created_step:
  assumes st: "put_step prompt creatable client_files t t1" and a: "put_created name n f t" and n: "0 < n"
    and ok: "client_files name = Some content" "name \<noteq> []" "0 \<notin> set name"
  shows "f \<and> put_created name n False t1 \<or> t1 = created_read client_files name t"
proof -
  have rest: "up_links t ! i = up_idle" if "i < length (up_links t)" "i \<noteq> 0" for i
    using a that by (cases i) (auto simp: put_created_def)
  have first: "up_links t ! 0 = up_idle\<lparr>ul_client := fk_new\<lparr>fk_state := TRANS_PREPARE\<rparr>, ul_down := [Order (10 # 0 # name)], ul_sending := f\<rparr>"
    "length (up_links t) = n"
    using a n by (auto simp: put_created_def)
  from st show ?thesis
  proof cases
    case (put_client_reads i msg more)
    then have "i = 0" "msg = 10 # 0 # name" "more = []" using first rest [of i] by (cases "i = 0"; auto simp: up_idle_def)+
    then show ?thesis using put_client_reads(1) by (simp add: created_read_def)
  next
    case (put_server_sent i)
    then have "i = 0" "f" using first rest [of i] by (cases "i = 0"; auto simp: up_idle_def)+
    then show ?thesis using put_server_sent(1) a n first by (auto simp: put_created_def put_answered_def)
  next
    case (put_server_reads i msg more)
    then show ?thesis using first rest [of i] by (cases "i = 0") (auto simp: up_idle_def)
  next
    case (put_client_writes i)
    then show ?thesis using first rest [of i] by (cases "i = 0") (auto simp: up_idle_def fk_new_def)
  next
    case (put_client_sent i)
    then show ?thesis using first rest [of i] by (cases "i = 0") (auto simp: up_idle_def)
  next
    case (put_server_receives i ys more total_len)
    then show ?thesis using first rest [of i] by (cases "i = 0") (auto simp: up_idle_def fk_new_def)
  qed
qed

section \<open>All steps\<close>

lemma offer_dropped:
  assumes at: "upload_at name content phs t" and i: "i < length (up_links t)" and ph: "phs ! i = Offered"
    and f: "ul_sending (up_links t ! i)" and up: "ul_up (up_links t ! i) = Order msg # left"
    and t1_def: "t1 = put_server_order creatable i msg (t\<lparr>up_links := (up_links t)[i := (up_links t ! i)\<lparr>ul_up := left\<rparr>]\<rparr>)"
  shows "upload_at name content (phs[i := Dropped]) t1 \<and> upload_work content (phs[i := Dropped]) t1 < upload_work content phs t \<and> i = 0"
proof -
  let ?off = "piece_start (length phs) i (length content)" and ?k = "piece_len (length phs) i (length content)"
  have len: "length (up_links t) = length phs" using at by (simp add: upload_at_def)
  have l: "0 < ?k" "up_links t ! i = \<lparr>ul_client = offering name ?off, ul_server = fk_new, ul_notify = False,
      ul_up = [Order (11 # fl_bytes (int ?off) @ fl_bytes (int ?k) @ name)], ul_down = [], ul_sending = ul_sending (up_links t ! i)\<rparr>" and z: "i = 0"
    using at i f ph len by (auto simp: upload_at_def put_answered_eq)
  let ?l = "\<lparr>ul_client = offering name ?off, ul_server = fk_new, ul_notify = False, ul_up = [], ul_down = [], ul_sending = True\<rparr>"
  have m: "msg = 11 # fl_bytes (int ?off) @ fl_bytes (int ?k) @ name" "left = []" using up by (subst (asm) l(2), simp)+
  have "server_handle_msg creatable True msg (up_files t) fk_new = (up_files t, fk_new, [])"
    by (rule order_dropped_while_sending) (simp_all add: fk_new_def m)
  then have t1: "up_links t1 = (up_links t)[i := ?l]" "up_files t1 = up_files t"
    using i f l(2) m unfolding t1_def by (simp_all add: put_server_order_def)
  have "upload_at name content (phs[i := Dropped]) t1"
    by (rule upload_update [OF at _ _ z _ t1]) (use i len l(1) ph in \<open>simp_all add: put_answered_def\<close>)
  moreover have "upload_work content (phs[i := Dropped]) t1 < upload_work content phs t"
    by (rule upload_work_drops [OF _ len t1(1)]) (use i len ph f in simp_all)
  ultimately show ?thesis using z by blast
qed

lemma upload_step:
  assumes st: "put_step prompt creatable client_files t t1" and at: "upload_at name content phs t"
    and ok: "name \<noteq> []" "0 \<notin> set name" "client_files name = Some content" "length content < 2 ^ 63"
  shows "\<exists>phs1. length phs1 = length phs \<and> upload_at name content phs1 t1 \<and> upload_work content phs1 t1 < upload_work content phs t \<and>
    (\<forall>i<length phs. phs ! i = Dropped \<longrightarrow> phs1 ! i = Dropped) \<and> (prompt \<and> Dropped \<notin> set phs \<longrightarrow> Dropped \<notin> set phs1)"
proof -
  let ?off = "\<lambda>i. piece_start (length phs) i (length content)" and ?k = "\<lambda>i. piece_len (length phs) i (length content)"
  have len: "length (up_links t) = length phs" using at by (simp add: upload_at_def)
  obtain "have" where hv: "up_files t name = Some have" using at by (auto simp: upload_at_def)
  have link: "put_link name content (?off i) (?k i) (phs ! i) (put_answered (up_links t ! i))"
    and odd: "phs ! i = Dropped \<or> phs ! i = Offered \<and> ul_sending (up_links t ! i) \<Longrightarrow> i = 0" if "i < length (up_links t)" for i
    using at that by (auto simp: upload_at_def)
  have e: "?off i + ?k i \<le> length content" if "i < length (up_links t)" for i using that piece_end_le len by simp
  then have r: "fl_range (int (?off i))" "fl_range (int (?k i))" if "i < length (up_links t)" for i
    using fl_len [OF ok(4)] that by (meson add_leE)+
  have drops: "(\<forall>j<length phs. phs ! j = Dropped \<longrightarrow> phs[i := ph] ! j = Dropped) \<and> (prompt \<and> Dropped \<notin> set phs \<longrightarrow> Dropped \<notin> set (phs[i := ph]))"
    if "phs ! i = Dropped \<longrightarrow> ph = Dropped" "prompt \<and> phs ! i \<noteq> Dropped \<longrightarrow> ph \<noteq> Dropped" "i < length phs" for i ph
    using that set_update_subset_insert [of phs i ph] nth_mem [OF that(3)] by (fastforce simp: nth_list_update)
  have upd: ?thesis
    if "i < length (up_links t)" "put_link name content (?off i) (?k i) ph (put_answered l)" "put_done ph = put_done (phs ! i)"
      "put_work (?k i) ph + of_bool (ul_sending l) < put_work (?k i) (phs ! i) + of_bool (ul_sending (up_links t ! i))"
      "up_links t1 = (up_links t)[i := l]" "up_files t1 = up_files t" "ph = Dropped \<or> ph = Offered \<and> ul_sending l \<Longrightarrow> i = 0"
      "phs ! i = Dropped \<longrightarrow> ph = Dropped" "prompt \<and> phs ! i \<noteq> Dropped \<longrightarrow> ph \<noteq> Dropped" for i ph l
    using upload_update [OF at _ that(2) that(7) that(3,5,6)] upload_work_drops [where ph = ph, OF _ len that(5,4)] drops [OF that(8,9)] that(1) len
    by (intro exI [of _ "phs[i := ph]"]) simp
  from st show ?thesis
  proof cases
    case (put_server_reads i msg more)
    note l = link [OF put_server_reads(2)]
    have ph: "phs ! i = Offered" using put_link_phase(1) [OF l] put_server_reads(3,4) by simp
    let ?f = "ul_sending (up_links t ! i)"
    have l: "0 < ?k i" "up_links t ! i = \<lparr>ul_client = offering name (?off i), ul_server = fk_new, ul_notify = False,
        ul_up = [Order (11 # fl_bytes (int (?off i)) @ fl_bytes (int (?k i)) @ name)], ul_down = [], ul_sending = ?f\<rparr>"
      using l by (simp_all add: ph put_answered_eq)
    have m: "msg = 11 # fl_bytes (int (?off i)) @ fl_bytes (int (?k i)) @ name" "more = []" using put_server_reads(3) by (subst (asm) l(2), simp)+
    show ?thesis
    proof (cases ?f)
      case True
      then have "\<not> prompt" using put_server_reads(5) by simp
      then show ?thesis using offer_dropped [OF at put_server_reads(2) ph True put_server_reads(3,1)] put_server_reads(2) len
        by (intro exI [of _ "phs[i := Dropped]"]) (auto simp: nth_list_update)
    next
      case False
      let ?l = "\<lparr>ul_client = offering name (?off i), ul_server = storing name (?off i) (?k i) 0,
        ul_notify = False, ul_up = [], ul_down = [Order (11 # fl_bytes (int (?k i)) @ [0])], ul_sending = True\<rparr>"
      have "server_handle_msg creatable False msg (up_files t) fk_new = (up_files t, storing name (?off i) (?k i) 0, [11 # fl_bytes (int (?k i)) @ [0]])"
        using offered_order [where creatable = creatable and fs = "up_files t", OF hv l(1) ok(1,2) r [OF put_server_reads(2)]] m(1) by simp
      then have "t1 = t\<lparr>up_links := (up_links t)[i := ?l]\<rparr>"
        using put_server_reads(1,2) False l(2) m by (simp add: put_server_order_def)
      moreover have "put_link name content (?off i) (?k i) Agreed (put_answered ?l)" using l(1) by (simp add: put_answered_def)
      ultimately show ?thesis using False by (intro upd [OF put_server_reads(2), of Agreed ?l]) (simp_all add: ph)
    qed
  next
    case (put_server_sent i)
    show ?thesis using put_server_sent(3) odd [OF put_server_sent(2)]
      by (intro upd [OF put_server_sent(2), of "phs ! i" "put_answered (up_links t ! i)"]) (use put_server_sent(1,2) link in auto)
  next
    case (put_client_reads i msg more)
    note l = link [OF put_client_reads(2)]
    have ph: "phs ! i = Agreed" using put_link_phase(2) [OF l] put_client_reads(3) by simp
    define f where "f = ul_sending (up_links t ! i)"
    have l: "0 < ?k i" "up_links t ! i = \<lparr>ul_client = offering name (?off i), ul_server = storing name (?off i) (?k i) 0, ul_notify = False,
        ul_up = [], ul_down = [Order (11 # fl_bytes (int (?k i)) @ [0])], ul_sending = f\<rparr>" using l unfolding f_def by (simp_all add: ph put_answered_eq)
    have m: "msg = 11 # fl_bytes (int (?k i)) @ [0]" "more = []" using put_client_reads(3) by (subst (asm) l(2), simp)+
    obtain b where b: "0 < b" "b \<le> ?k i" "client_handle_msg (length phs) i (11 # fl_bytes (int (?k i)) @ [0]) client_files (offering name (?off i)) =
        (sending name content (?off i) (?k i) 0 b, [], None, None)"
      using agreed_order [where client_files = client_files and n = "length phs" and i = i, OF ok(3) l(1) e [OF put_client_reads(2)] r(2) [OF put_client_reads(2)]] by blast
    let ?l = "\<lparr>ul_client = sending name content (?off i) (?k i) 0 b, ul_server = storing name (?off i) (?k i) 0,
      ul_notify = False, ul_up = [], ul_down = [], ul_sending = f\<rparr>"
    have "t1 = t\<lparr>up_links := (up_links t)[i := ?l]\<rparr>"
      using put_client_reads(1,2) l(2) m b(3) len by (simp add: put_client_order_def Let_def)
    moreover have "put_link name content (?off i) (?k i) (Sending 0 0 False) (put_answered ?l)" using b by (auto simp: fread_def put_answered_def)
    ultimately show ?thesis by (intro upd [OF put_client_reads(2), of "Sending 0 0 False" ?l]) (simp_all add: ph l(2))
  next
    case (put_client_writes i)
    note l = link [OF put_client_writes(2)]
    obtain don put where ph: "phs ! i = Sending don put False"
      using put_link_phase(3) [OF l] put_client_writes(3,4) by auto
    from l have "put < ?k i" by (auto simp: ph)
    then show ?thesis using put_block_link [OF l [unfolded ph]] put_client_writes(1)
      by (intro upd [OF put_client_writes(2), of "Sending don put True" "put_block (up_links t ! i)"]) (simp_all add: ph)
  next
    case (put_client_sent i)
    note l = link [OF put_client_sent(2)]
    obtain don put where ph: "phs ! i = Sending don put True" using put_link_phase(4) [OF l] put_client_sent(3) by auto
    from put_sent_link [where client_files = client_files, OF l [unfolded ph] ok(3) e [OF put_client_sent(2)]] obtain ph1 where
      "put_link name content (?off i) (?k i) ph1 (put_sent client_files (put_answered (up_links t ! i)))" "put_done ph1 = don"
      "ph1 \<noteq> Dropped" "ph1 \<noteq> Offered" "put_work (?k i) ph1 < put_work (?k i) (phs ! i)" unfolding ph by blast
    then show ?thesis using put_client_sent(1)
      by (intro upd [OF put_client_sent(2), of ph1 "put_sent client_files (up_links t ! i)"]) (simp_all add: ph)
  next
    case (put_server_receives i ys more total_len)
    let ?l = "up_links t ! i" and ?d = "put_done (phs ! i)"
    have i: "i < length phs" using put_server_receives(2) len by simp
    note rc = put_received_link [OF link [OF put_server_receives(2)], unfolded put_answered_fields, OF put_server_receives(3,6,4) e [OF put_server_receives(2)]]
    let ?l1 = "?l\<lparr>ul_up := more, ul_server := storing name (?off i) (?k i) (?d + length ys)\<rparr>"
    from rc obtain ph1 where ph1: "put_link name content (?off i) (?k i) ph1 (put_answered ?l1)"
      "put_work (?k i) ph1 < put_work (?k i) (phs ! i)" "put_done ph1 = ?d + length ys" "ph1 \<noteq> Dropped" "ph1 \<noteq> Offered"
      unfolding put_answered_fields by blast
    have d: "?d \<noteq> ?k i" "ul_server ?l = storing name (?off i) (?k i) ?d" "?d + length ys \<le> ?k i"
      using rc put_server_receives(4) by (auto simp: storing_def fk_new_def)
    have t1: "up_files t1 = (up_files t)(name \<mapsto> fwrite (?off i + ?d) ys have) \<and> up_links t1 = (up_links t)[i := ?l1]"
      using put_server_receives(1,2) d hv
      by (auto simp: put_content_def fu_parse_msg_def storing_def handle_busy_def fu_is_finished_def content_of_def fk_defs of_nat_diff add.assoc diff_diff_eq)
    then have "upload_at name content (phs[i := ph1]) t1"
      using upload_store [OF at i hv ph1(1,3,4,5) rc [THEN conjunct2, THEN conjunct2, THEN conjunct2, THEN conjunct1]] by simp
    moreover have "phs ! i \<noteq> Dropped" using put_link_phase(5) [OF link [OF put_server_receives(2)]] put_server_receives(4) by simp
    ultimately show ?thesis
      using upload_work_drops [where ph = ph1 and t = t, OF i len t1 [THEN conjunct2]] ph1(2,4) drops [of i ph1] i by (intro exI [of _ "phs[i := ph1]"]) simp
  qed
qed

text \<open>A link that is not through, and was not ignored, can go on, and the handler of a write can always run.\<close>

lemma put_link_goes:
  assumes at: "upload_at name content phs t" and i: "i < length (up_links t)" and len: "length content < 2 ^ 63"
    and ph: "phs ! i \<noteq> Sent (piece_len (length phs) i (length content))" "phs ! i \<noteq> Dropped"
  shows "\<exists>t1. put_step prompt creatable client_files t t1"
proof (cases "ul_sending (up_links t ! i)")
  case True
  then show ?thesis using put_step.put_server_sent [OF i] by blast
next
  case False
  let ?off = "piece_start (length phs) i (length content)" and ?k = "piece_len (length phs) i (length content)"
  have l: "put_link name content ?off ?k (phs ! i) (put_answered (up_links t ! i))" and n: "i < length phs" using at i by (auto simp: upload_at_def)
  have l: "put_link name content ?off ?k (phs ! i) (up_links t ! i)"
  proof -
    have "put_answered (up_links t ! i) = up_links t ! i" using False by (simp add: put_answered_def)
    then show ?thesis using l by simp
  qed
  show ?thesis
  proof (cases "phs ! i")
    case Offered
    then show ?thesis using l False put_step.put_server_reads [OF i] by (fastforce simp: fk_new_def)
  next
    case Agreed
    then show ?thesis using l put_step.put_client_reads [OF i] by (fastforce simp: offering_def)
  next
    case (Sending don put w)
    then have "fk_stream (ul_client (up_links t ! i)) \<noteq> None" "ul_notify (up_links t ! i) = w" using l by (auto simp: sending_def)
    then show ?thesis using put_step.put_client_writes [OF i] put_step.put_client_sent [OF i] by (cases w) blast+
  next
    case (Sent don)
    have d: "don < ?k" using l ph by (auto simp: Sent)
    have e: "?off + ?k \<le> length content" using piece_end_le [OF n] by simp
    define m where "m = fu_room (int (?k - don))"
    have m: "0 < m" "m \<le> ?k - don" using d e len room_le [of "?k - don"] unfolding m_def by (auto simp: fu_room_def default_max_transfer_size_def)
    have "m + (?k - don - m) = ?k - don" using m(2) by (rule le_add_diff_inverse)
    then have "fread (?off + don) (?k - don) content = fread (?off + don) m content @ fread (?off + don + m) (?k - don - m) content"
      by (simp only: fread_split [symmetric])
    moreover have ys: "length (fread (?off + don) m content) = m" using fread_len [of "?off + don" m content] e m d by simp
    moreover from ys m have "fread (?off + don) m content \<noteq> []" by auto
    moreover have "fk_unpacker (ul_server (up_links t ! i)) = Some (int (?k - don))"
      "ul_up (up_links t ! i) = map Raw (fread (?off + don) (?k - don) content)" using l d by (auto simp: Sent storing_def)
    ultimately show ?thesis using put_step.put_server_receives [OF i, of "fread (?off + don) m content"] unfolding m_def by (metis map_append)
  qed (use ph in simp)
qed

text \<open>When no link can go on, every piece is there but the first one, if its offer was ignored.\<close>

definition put_stuck :: "bytes \<Rightarrow> bytes \<Rightarrow> nat \<Rightarrow> upload \<Rightarrow> bool" where
  "put_stuck name content n t \<longleftrightarrow> 0 < piece_len n 0 (length content) \<and> length (up_links t) = n \<and>
     fk_state (ul_client (up_links t ! 0)) = TRANS_PREPARE \<and> \<not> put_is_end t \<and>
     (\<exists>have. up_files t name = Some have \<and>
       (\<forall>i<n. 0 < i \<longrightarrow> fk_state (ul_client (up_links t ! i)) = TRANS_IDLE \<and>
          has_part content (piece_start n i (length content)) (piece_len n i (length content)) have))"

lemma upload_rests:
  assumes at: "upload_at name content phs t" and quiet: "\<nexists>t1. put_step prompt creatable client_files t t1"
    and len: "length content < 2 ^ 63" and n: "0 < length phs"
  shows "if Dropped \<in> set phs then put_stuck name content (length phs) t
    else up_files t name = Some content \<and> put_is_end t \<and> (\<forall>l\<in>set (up_links t). ul_server l = fk_new)"
proof -
  have len_t: "length (up_links t) = length phs" using at by (simp add: upload_at_def)
  have all: "phs ! i = Sent (piece_len (length phs) i (length content))" if "i < length phs" "phs ! i \<noteq> Dropped" for i
    using put_link_goes [where creatable = creatable and client_files = client_files and prompt = prompt, OF at _ len] quiet that len_t by metis
  obtain "have" where hv: "up_files t name = Some have" "length have \<le> length content" and
    parts: "\<And>i. i < length phs \<Longrightarrow> has_part content (piece_start (length phs) i (length content)) (put_done (phs ! i)) have"
    using at by (auto simp: upload_at_def)
  have link: "put_link name content (piece_start (length phs) i (length content)) (piece_len (length phs) i (length content)) (phs ! i)
      (put_answered (up_links t ! i))" "phs ! i = Dropped \<Longrightarrow> i = 0" if "i < length phs" for i
    using at that by (auto simp: upload_at_def)
  have idle: "fk_state (ul_client (up_links t ! i)) = TRANS_IDLE \<and> ul_server (up_links t ! i) = fk_new"
    if "i < length phs" "phs ! i \<noteq> Dropped" for i
    using put_link_ends(3) [OF link(1) [OF that(1), unfolded all [OF that]]] by simp
  show ?thesis
  proof (cases "Dropped \<in> set phs")
    case True
    then have d: "phs ! 0 = Dropped" using link(2) by (metis in_set_conv_nth)
    have "0 < piece_len (length phs) 0 (length content)" "fk_state (ul_client (up_links t ! 0)) = TRANS_PREPARE"
      using put_link_ends(2) [OF link(1) [OF n, unfolded d]] by simp_all
    moreover from this have "\<not> put_is_end t" using n len_t unfolding put_is_end_def by (metis nth_mem trans_state.distinct(1))
    moreover have "phs ! i \<noteq> Dropped" if "i < length phs" "0 < i" for i using link(2) that by blast
    ultimately show ?thesis using True hv(1) len_t idle parts all by (fastforce simp: put_stuck_def)
  next
    case False
    then have nd: "phs ! i \<noteq> Dropped" if "i < length phs" for i using that by (metis nth_mem)
    have "have = content" using has_all_parts [OF _ n hv(2)] parts all nd by simp
    then show ?thesis using False hv(1) len_t idle nd by (auto simp: put_is_end_def in_set_conv_nth)
  qed
qed

lemma put_client_order_files: "up_files (put_client_order client_files i msg t) = up_files t"
  by (simp add: put_client_order_def put_on_all_links Let_def split_beta split: option.splits)

text \<open>The whole way, with the steps that are left.\<close>

definition put_at :: "bool \<Rightarrow> bytes \<Rightarrow> bytes \<Rightarrow> nat \<Rightarrow> nat \<Rightarrow> upload \<Rightarrow> bool" where
  "put_at prompt name content n w t \<longleftrightarrow>
     put_asking name n t \<and> w = n * (3 * length content + 3) + 3 \<or>
     (\<exists>f. put_created name n f t \<and> w = n * (3 * length content + 3) + 1 + of_bool f) \<or>
     (\<exists>phs. length phs = n \<and> upload_at name content phs t \<and> w = upload_work content phs t \<and> (prompt \<longrightarrow> Dropped \<notin> set phs))"

lemma put_atI:
  "put_asking name n t \<Longrightarrow> put_at prompt name content n (n * (3 * length content + 3) + 3) t"
  "put_created name n f t \<Longrightarrow> put_at prompt name content n (n * (3 * length content + 3) + 1 + of_bool f) t"
  "upload_at name content phs t \<Longrightarrow> prompt \<longrightarrow> Dropped \<notin> set phs \<Longrightarrow> put_at prompt name content (length phs) (upload_work content phs t) t"
  unfolding put_at_def by blast+

lemma first_no_drop: "Dropped \<notin> set (first_phases n content)"
  by (auto simp: first_phases_def)

lemma first_work:
  assumes "\<forall>i<n. ul_sending (up_links t ! i) \<longleftrightarrow> f \<and> i = 0"
  shows "upload_work content (first_phases n content) t \<le> n * (3 * length content + 3) + of_bool f"
proof -
  have "(\<Sum>i<n. put_work (piece_len n i (length content)) (first_phases n content ! i)) \<le> (\<Sum>i<n. 3 * length content + 3)"
  proof (intro sum_mono)
    fix i assume "i \<in> {..<n}"
    then show "put_work (piece_len n i (length content)) (first_phases n content ! i) \<le> 3 * length content + 3"
      using piece_end_le [of i n "length content"] by (simp add: first_phases_def)
  qed
  moreover have "(\<Sum>i<n. of_bool (ul_sending (up_links t ! i)) :: nat) \<le> of_bool f"
  proof -
    have "(\<Sum>i<n. of_bool (ul_sending (up_links t ! i)) :: nat) = (\<Sum>i<n. if i = 0 then of_bool f else 0)"
      using assms by (intro sum.cong) auto
    also have "\<dots> \<le> of_bool f" by (simp add: sum.delta)
    finally show ?thesis .
  qed
  ultimately show ?thesis by (simp add: upload_work_def first_phases_def sum.distrib)
qed

lemma put_at_step:
  assumes "put_step prompt creatable client_files t t1" "put_at prompt name content n w t" "0 < n"
    "creatable name" "name \<noteq> []" "0 \<notin> set name" "client_files name = Some content" "length content < 2 ^ 63"
  shows "\<exists>w1<w. put_at prompt name content n w1 t1"
  using assms(2) unfolding put_at_def [of _ _ _ _ w]
proof (elim disjE exE conjE)
  assume a: "put_asking name n t" "w = n * (3 * length content + 3) + 3"
  have "put_at prompt name content n (n * (3 * length content + 3) + 1 + of_bool True) t1"
    by (rule put_atI(2) [OF asking_step [OF assms(1) a(1) assms(3-6)]])
  moreover have "n * (3 * length content + 3) + 1 + of_bool True < w" using a(2) by simp
  ultimately show ?thesis by blast
next
  fix f assume a: "put_created name n f t" "w = n * (3 * length content + 3) + 1 + of_bool f"
  from created_step [OF assms(1) a(1) assms(3,7,5,6)] show ?thesis
  proof
    assume f: "f \<and> put_created name n False t1"
    then have "put_at prompt name content n (n * (3 * length content + 3) + 1 + of_bool False) t1" by (intro put_atI(2)) simp
    moreover have "n * (3 * length content + 3) + 1 + of_bool False < w" using a(2) f by simp
    ultimately show ?thesis by blast
  next
    assume "t1 = created_read client_files name t"
    then have u: "upload_at name content (first_phases n content) t1" "\<forall>i<n. ul_sending (up_links t1 ! i) = (f \<and> i = 0)"
      using created_reads [where client_files = client_files and creatable = creatable and prompt = prompt, OF a(1) assms(3,7,5,6)] by simp_all
    have "length (first_phases n content) = n" by (simp add: first_phases_def)
    then have "put_at prompt name content n (upload_work content (first_phases n content) t1) t1"
      using put_atI(3) [OF u(1), of prompt] first_no_drop by simp
    moreover have "upload_work content (first_phases n content) t1 < w" using first_work [OF u(2), of content] a(2) by simp
    ultimately show ?thesis by blast
  qed
next
  fix phs assume a: "length phs = n" "upload_at name content phs t" "w = upload_work content phs t" "prompt \<longrightarrow> Dropped \<notin> set phs"
  from upload_step [OF assms(1) a(2) assms(5-8)] obtain phs1 where
    "length phs1 = length phs" "upload_at name content phs1 t1" "upload_work content phs1 t1 < upload_work content phs t"
    "prompt \<longrightarrow> Dropped \<notin> set phs1" using a(4) by blast
  then show ?thesis using put_atI(3) [of name content phs1 t1 prompt] a by auto
qed

text \<open>Storing is a run that comes to rest.\<close>

interpretation storing_run: step_measure "put_step prompt creatable client_files"
  "\<lambda>w t. (0 < n \<and> creatable name \<and> name \<noteq> [] \<and> 0 \<notin> set name \<and> client_files name = Some content \<and> length content < 2 ^ 63) \<and>
     put_at prompt name content n w t"
  for prompt creatable client_files name content n
  by unfold_locales (use put_at_step in metis)

lemma put_begins_goes:
  assumes "put_asking name n t \<or> put_created name n f t"
  shows "\<exists>t1. put_step prompt creatable client_files t t1"
proof -
  have i: "0 < length (up_links t)" using assms by (auto simp: put_asking_def put_created_def)
  show ?thesis
    using assms put_step.put_server_reads [OF i] put_step.put_client_reads [OF i]
    by (fastforce simp: put_asking_def put_created_def up_idle_def fk_new_def)
qed

text \<open>
  C14. A file stored over any number of links. After at most so many steps, in whatever order, nothing is left to do.
  If no order is read before the handler of the answer to the one before has run, then the server has the client's file, whatever
  it had under that name, and the links on both sides are idle. If one is, which the program does not prevent, the other outcome
  is that the first link's offer was ignored because the socket still counted as sending: the server has all pieces but the first, and the
  first link of the client waits for an answer for ever, so the transfer never ends.
\<close>

theorem put_file_stored:
  assumes "0 < n" "creatable name" "name \<noteq> []" "0 \<notin> set name" "client_files name = Some content" "length content < 2 ^ 63"
    and "transmit_put name (upload_new n fs) = (ok, t0)" "(put_step prompt creatable client_files ^^ k) t0 t"
  shows "ok \<and> k \<le> n * (3 * length content + 3) + 3 \<and>
    ((\<nexists>t1. put_step prompt creatable client_files t t1) \<longrightarrow>
       up_files t name = Some content \<and> put_is_end t \<and> (\<forall>l\<in>set (up_links t). ul_server l = fk_new) \<or>
       \<not> prompt \<and> put_stuck name content n t)"
proof -
  have b: "ok" "put_asking name n t0" using transmit_put_asks [OF assms(1,7)] by simp_all
  obtain w where w: "put_at prompt name content n w t" "k + w \<le> n * (3 * length content + 3) + 3"
    using storing_run.bounded_steps [OF assms(8), of n name content] put_atI(1) [OF b(2)] assms(1-6) by blast
  have "up_files t name = Some content \<and> put_is_end t \<and> (\<forall>l\<in>set (up_links t). ul_server l = fk_new) \<or> \<not> prompt \<and> put_stuck name content n t"
    if quiet: "\<nexists>t1. put_step prompt creatable client_files t t1"
  proof -
    from w(1) quiet obtain phs where p: "length phs = n" "upload_at name content phs t" "prompt \<longrightarrow> Dropped \<notin> set phs"
      unfolding put_at_def using put_begins_goes by metis
    from upload_rests [OF p(2) quiet assms(6)] p(1,3) assms(1) show ?thesis by (auto split: if_splits)
  qed
  then show ?thesis using b(1) w(2) by auto
qed

definition demo_put :: upload where
  "demo_put = snd (transmit_put demo_name (upload_new 3 [demo_name \<mapsto> [9, 9]]))"

lemma demo_puts: "transmit_put demo_name (upload_new 3 [demo_name \<mapsto> [9, 9]]) = (True, demo_put)"
  using transmit_put_asks [of 3 demo_name "[demo_name \<mapsto> [9, 9]]"] by (auto simp: demo_put_def prod_eq_iff)

theorem put_file_stored_witness:
  "\<exists>k t. (put_step True (\<lambda>_. True) demo_server ^^ k) demo_put t \<and> k \<le> 75 \<and> up_files t demo_name = Some [1, 2, 3, 4, 5, 6, 7]"
proof -
  have "put_at True demo_name demo_content 3 (3 * (3 * length demo_content + 3) + 3) demo_put"
    using transmit_put_asks [OF _ demo_puts] by (intro put_atI(1)) simp
  then obtain k t where
    t: "(put_step True (\<lambda>_. True) demo_server ^^ k) demo_put t" "\<nexists>t2. put_step True (\<lambda>_. True) demo_server t t2"
    using storing_run.comes_to_rest [where n = 3 and name = demo_name and content = demo_content and creatable = "\<lambda>_. True" and client_files = demo_server
        and prompt = True]
      demo_name_ok by fastforce
  from put_file_stored [where creatable = "\<lambda>_. True" and client_files = demo_server, OF _ _ demo_name_ok demo_puts t(1)] t
  show ?thesis by (auto simp: demo_content_def)
qed

section \<open>When the server ignores an offer\<close>

text \<open>It can happen whenever the first link has something to store, and then the client's first link waits for ever.\<close>

lemma stays_dropped:
  assumes "(put_step prompt creatable client_files ^^ k) t t1" "upload_at name content phs t" "phs ! 0 = Dropped" "0 < length phs"
    and "name \<noteq> []" "0 \<notin> set name" "client_files name = Some content" "length content < 2 ^ 63"
  shows "\<exists>phs1. length phs1 = length phs \<and> upload_at name content phs1 t1 \<and> phs1 ! 0 = Dropped"
  using assms(1)
proof (induction k arbitrary: t1)
  case 0
  then show ?case using assms(2,3) by auto
next
  case (Suc k)
  obtain u where u: "(put_step prompt creatable client_files ^^ k) t u" "put_step prompt creatable client_files u t1"
    using Suc.prems by (rule relpowp_Suc_E)
  from Suc.IH [OF u(1)] obtain phs1 where p: "length phs1 = length phs" "upload_at name content phs1 u" "phs1 ! 0 = Dropped" by blast
  from upload_step [OF u(2) p(2) assms(5-8)] show ?case using p(1,3) assms(4) by metis
qed

lemma put_begins:
  assumes "0 < n" "creatable name" "name \<noteq> []" "0 \<notin> set name" "client_files name = Some content"
    and "transmit_put name (upload_new n fs) = (ok, t0)"
  shows "\<exists>t. (put_step prompt creatable client_files)\<^sup>*\<^sup>* t0 t \<and> upload_at name content (first_phases n content) t \<and>
    up_files t name = Some [] \<and> ul_sending (up_links t ! 0)"
proof -
  have "put_asking name n t0" using transmit_put_asks [OF assms(1,6)] by simp
  then obtain t1 where t1: "put_step prompt creatable client_files t0 t1" "put_created name n True t1"
    using put_begins_goes [of name n t0 _ prompt creatable client_files] asking_step [where creatable = creatable and client_files = client_files, OF _ _ assms(1-4)]
    by blast
  let ?t2 = "created_read client_files name t1"
  have "put_step prompt creatable client_files t1 ?t2" "upload_at name content (first_phases n content) ?t2" "ul_sending (up_links ?t2 ! 0)"
    using created_reads [where client_files = client_files and creatable = creatable and prompt = prompt, OF t1(2) assms(1,5,3,4)] assms(1) by simp_all
  moreover have "up_files ?t2 name = Some []" using t1(2) by (simp add: created_read_def put_client_order_files put_created_def)
  ultimately show ?thesis using t1(1) by (meson converse_rtranclp_into_rtranclp rtranclp.rtrancl_refl)
qed

lemma put_can_hang:
  assumes "0 < n" "creatable name" "name \<noteq> []" "0 \<notin> set name" "client_files name = Some content" "length content < 2 ^ 63"
    and "transmit_put name (upload_new n fs) = (ok, t0)" "0 < piece_len n 0 (length content)"
  shows "\<exists>t. (put_step False creatable client_files)\<^sup>*\<^sup>* t0 t \<and> (\<nexists>t1. put_step False creatable client_files t t1) \<and> put_stuck name content n t"
proof -
  let ?step = "put_step False creatable client_files" and ?phs = "first_phases n content"
  obtain t2 where t2: "?step\<^sup>*\<^sup>* t0 t2" "upload_at name content ?phs t2" "ul_sending (up_links t2 ! 0)"
    using put_begins [where creatable = creatable and client_files = client_files and prompt = False, OF assms(1-5,7)] by blast
  have l: "length ?phs = n" "?phs ! 0 = Offered" "0 < length (up_links t2)" using assms(1,8) t2(2) by (auto simp: first_phases_def upload_at_def)
  have "\<exists>msg. ul_up (up_links t2 ! 0) = Order msg # [] \<and> fk_unpacker (ul_server (up_links t2 ! 0)) = None"
  proof -
    have "put_link name content (piece_start n 0 (length content)) (piece_len n 0 (length content)) Offered (put_answered (up_links t2 ! 0))"
      using t2(2) l(1,2) assms(1) unfolding upload_at_def by metis
    from put_link_ends(1) [OF this] show ?thesis by simp
  qed
  then obtain msg where m: "ul_up (up_links t2 ! 0) = Order msg # []" "fk_unpacker (ul_server (up_links t2 ! 0)) = None" by blast
  obtain t3 where t3: "?step t2 t3" "upload_at name content (?phs[0 := Dropped]) t3"
    using put_step.put_server_reads [OF l(3) m] offer_dropped [OF t2(2) l(3,2) t2(3) m(1) refl] by blast
  have p: "length (?phs[0 := Dropped]) = n" "?phs[0 := Dropped] ! 0 = Dropped" using l(1) assms(1) by simp_all
  have "put_at False name content n (upload_work content (?phs[0 := Dropped]) t3) t3" using put_atI(3) [OF t3(2), of False] p(1) by simp
  then obtain k t where t: "(?step ^^ k) t3 t" "\<nexists>u. ?step t u"
    using storing_run.comes_to_rest [where n = n and name = name and content = content and creatable = creatable and client_files = client_files and prompt = False]
      assms(1-6) by blast
  obtain phs1 where "length phs1 = n" "upload_at name content phs1 t" "phs1 ! 0 = Dropped"
    using stays_dropped [OF t(1) t3(2) p(2) _ assms(3-6)] p(1) assms(1) by (metis length_greater_0_conv list.size(3) not_gr_zero)
  moreover from this have "Dropped \<in> set phs1" using assms(1) by (metis nth_mem)
  ultimately have "put_stuck name content n t" using upload_rests [OF _ t(2) assms(6)] assms(1) by auto
  moreover have "?step\<^sup>*\<^sup>* t0 t" using t2(1) t3(1) relpowp_imp_rtranclp [OF t(1)] by (meson rtranclp.rtrancl_into_rtrancl rtranclp_trans)
  ultimately show ?thesis using t(2) by blast
qed

section \<open>When the client has ended\<close>

text \<open>
  The client does not wait for the server: all its links can be idle, which is what the program takes for the end of the
  upload, while the server has not yet written a byte. Who then gets the file, gets what is there.
\<close>

lemma put_link_sends:
  assumes at: "upload_at name content phs t" and i: "i < length (up_links t)" and ok: "name \<noteq> []" "0 \<notin> set name" "length content < 2 ^ 63"
    and ph: "\<nexists>don. phs ! i = Sent don" "phs ! i \<noteq> Dropped"
  shows "\<exists>t1. put_step True creatable client_files t t1 \<and> up_files t1 = up_files t"
proof (cases "ul_sending (up_links t ! i)")
  case True
  then show ?thesis using put_step.put_server_sent [OF i] by fastforce
next
  case False
  let ?off = "piece_start (length phs) i (length content)" and ?k = "piece_len (length phs) i (length content)"
  have "put_answered (up_links t ! i) = up_links t ! i" using False by (simp add: put_answered_def)
  then have l: "put_link name content ?off ?k (phs ! i) (up_links t ! i)" and n: "i < length phs" using at i unfolding upload_at_def by metis+
  obtain "have" where hv: "up_files t name = Some have" using at by (auto simp: upload_at_def)
  show ?thesis
  proof (cases "phs ! i")
    case Offered
    have "?off + ?k \<le> length content" using piece_end_le [OF n] by simp
    then have r: "fl_range (int ?off)" "fl_range (int ?k)" using fl_len [OF ok(3)] by (meson add_leE)+
    have l: "0 < ?k" "up_links t ! i = \<lparr>ul_client = offering name ?off, ul_server = fk_new, ul_notify = False,
        ul_up = [Order (11 # fl_bytes (int ?off) @ fl_bytes (int ?k) @ name)], ul_down = [], ul_sending = False\<rparr>" using l by (simp_all add: Offered)
    have "put_step True creatable client_files t (put_server_order creatable i (11 # fl_bytes (int ?off) @ fl_bytes (int ?k) @ name)
        (t\<lparr>up_links := (up_links t)[i := (up_links t ! i)\<lparr>ul_up := []\<rparr>]\<rparr>))"
      by (rule put_step.put_server_reads [OF i]) (simp_all add: l(2) fk_new_def)
    moreover have "up_files (put_server_order creatable i (11 # fl_bytes (int ?off) @ fl_bytes (int ?k) @ name)
        (t\<lparr>up_links := (up_links t)[i := (up_links t ! i)\<lparr>ul_up := []\<rparr>]\<rparr>)) = up_files t"
      using offered_order [where creatable = creatable and fs = "up_files t", OF hv l(1) ok(1,2) r] i l(2)
      by (simp add: put_server_order_def)
    ultimately show ?thesis by blast
  next
    case Agreed
    then have "ul_down (up_links t ! i) = [Order (11 # fl_bytes (int ?k) @ [0])]" "fk_unpacker (ul_client (up_links t ! i)) = None"
      using l by (simp_all add: offering_def)
    from put_step.put_client_reads [OF i this] show ?thesis by (fastforce simp: put_client_order_files)
  next
    case (Sending don put w)
    then have "fk_stream (ul_client (up_links t ! i)) \<noteq> None" "ul_notify (up_links t ! i) = w" using l by (auto simp: sending_def)
    then show ?thesis using put_step.put_client_writes [OF i] put_step.put_client_sent [OF i] by (cases w) fastforce+
  qed (use ph in simp_all)
qed

lemma client_can_end:
  assumes "upload_at name content phs t" "Dropped \<notin> set phs"
    and ok: "name \<noteq> []" "0 \<notin> set name" "client_files name = Some content" "length content < 2 ^ 63"
  shows "\<exists>t1. (put_step True creatable client_files)\<^sup>*\<^sup>* t t1 \<and> put_is_end t1 \<and> up_files t1 = up_files t"
  using assms(1,2)
proof (induction "upload_work content phs t" arbitrary: phs t rule: less_induct)
  case less
  have len: "length (up_links t) = length phs" using less.prems by (simp add: upload_at_def)
  show ?case
  proof (cases "\<forall>i<length phs. \<exists>don. phs ! i = Sent don")
    case True
    have "fk_state (ul_client (up_links t ! i)) = TRANS_IDLE" if i: "i < length phs" for i
    proof -
      obtain don where "phs ! i = Sent don" using True i by blast
      then have "put_link name content (piece_start (length phs) i (length content)) (piece_len (length phs) i (length content)) (Sent don)
          (put_answered (up_links t ! i))" using less.prems(1) i unfolding upload_at_def by metis
      from put_link_ends(4) [OF this] show ?thesis by simp
    qed
    then show ?thesis using len by (intro exI [of _ t]) (auto simp: put_is_end_def in_set_conv_nth)
  next
    case False
    then obtain i where i: "i < length phs" "\<nexists>don. phs ! i = Sent don" by blast
    then have "phs ! i \<noteq> Dropped" using less.prems(2) by (metis nth_mem)
    then obtain u where u: "put_step True creatable client_files t u" "up_files u = up_files t"
      using put_link_sends [where creatable = creatable and client_files = client_files, OF less.prems(1) _ ok(1,2,4) i(2)] i(1) len by auto
    from upload_step [OF u(1) less.prems(1) ok] less.prems(2) obtain phs1 where
      p: "upload_at name content phs1 u" "upload_work content phs1 u < upload_work content phs t" "Dropped \<notin> set phs1" by blast
    from less.hyps [OF p(2,1,3)] obtain t1 where
      "(put_step True creatable client_files)\<^sup>*\<^sup>* u t1" "put_is_end t1" "up_files t1 = up_files u" by blast
    with u show ?thesis by (metis converse_rtranclp_into_rtranclp)
  qed
qed

lemma put_end_not_stored:
  assumes "0 < n" "creatable name" "name \<noteq> []" "0 \<notin> set name" "client_files name = Some content" "length content < 2 ^ 63"
    and "transmit_put name (upload_new n fs) = (ok, t0)"
  shows "\<exists>t. (put_step True creatable client_files)\<^sup>*\<^sup>* t0 t \<and> put_is_end t \<and> up_files t name = Some []"
proof -
  obtain t2 where "(put_step True creatable client_files)\<^sup>*\<^sup>* t0 t2" "upload_at name content (first_phases n content) t2" "up_files t2 name = Some []"
    using put_begins [where creatable = creatable and client_files = client_files and prompt = True, OF assms(1-5,7)] by blast
  then show ?thesis
    using client_can_end [where creatable = creatable and client_files = client_files, OF _ first_no_drop assms(3,4,5,6)] by (metis rtranclp_trans)
qed

end
