(* ===== verification/File_Queue.thy ===== *)
theory File_Queue
  imports Timer
begin

text \<open>
  What is between the files and the clock in the file client (\<open>file_client/file_client.h\<close>): the list of files to transmit, one after the
  other, and the timer that watches the progress and begins the next one.
\<close>

section \<open>The list of files\<close>

text \<open>0 is to get and 1 is to put the file of this name.\<close>

type_synonym file_job = "nat \<times> string"

text \<open>
  \<open>fq_timer\<close>: \<open>is_timer(UPDATE_PROGRESS)\<close>; \<open>fq_size\<close>, \<open>fq_done\<close>: \<open>file_size\<close>, \<open>transmit_size\<close>; \<open>fq_percent\<close>: \<open>last_percent\<close> of the call back
  that is set, \<open>- 1\<close> for the one \<open>transmit_file\<close> sets; \<open>fq_log\<close>: the files that were begun and whether the links accepted.
\<close>

record file_queue =
  fq_list :: "file_job list"
  fq_timer :: bool
  fq_size :: int
  fq_done :: int
  fq_percent :: int
  fq_log :: "(bool \<times> file_job) list"

definition fq_new :: file_queue where
  "fq_new = \<lparr>fq_list = [], fq_timer = False, fq_size = 0, fq_done = 0, fq_percent = - 1, fq_log = []\<rparr>"

text \<open>The loop of \<open>transmit_file\<close>; \<open>accepts\<close>: every link accepted the file.\<close>

fun transmit_loop :: "(file_job \<Rightarrow> bool) \<Rightarrow> file_job list \<Rightarrow> file_queue \<Rightarrow> file_queue" where
  "transmit_loop accepts [] q = q\<lparr>fq_list := []\<rparr>"
| "transmit_loop accepts (job # jobs) q =
     (let q1 = q\<lparr>fq_size := - 1, fq_done := 0, fq_log := fq_log q @ [(accepts job, job)]\<rparr>
      in if accepts job then q1\<lparr>fq_list := jobs, fq_timer := True, fq_percent := - 1\<rparr> else transmit_loop accepts jobs q1)"

definition transmit_next :: "(file_job \<Rightarrow> bool) \<Rightarrow> file_queue \<Rightarrow> file_queue" where
  "transmit_next accepts q = (if fq_timer q then q else transmit_loop accepts (fq_list q) q)"

text \<open>The percentage is an \<open>unsigned\<close>; \<open>end\<close> is \<open>is_end()\<close>. \<open>None\<close>: the handler waits until all links are idle.\<close>

definition update_progress :: "(file_job \<Rightarrow> bool) \<Rightarrow> bool \<Rightarrow> file_queue \<Rightarrow> (bool \<times> file_queue) option" where
  "update_progress accepts ended q =
     (let next_file = (\<lambda>q. (False, transmit_next accepts (q\<lparr>fq_timer := False\<rparr>)))
      in if fq_size q < 0 then (if \<not> ended then Some (True, q) else Some (next_file q))
         else
           let q1 = (if fq_size q > 0 then q\<lparr>fq_percent := (fq_done q * 100 div fq_size q) mod 2 ^ 32\<rparr> else q)
           in if fq_done q < fq_size q then (if \<not> ended then Some (True, q1) else Some (next_file q1))
              else if \<not> ended then None else Some (next_file q1))"

text \<open>
  What happens: a user appends files, and calls \<open>transmit_file\<close> after that (\<open>fs_callers\<close> have appended and not yet called); the
  links change the sizes; the timer's handler runs.
\<close>

record file_system =
  fs_queue :: file_queue
  fs_callers :: nat
  fs_asked :: "file_job list"

definition fs_new :: file_system where
  "fs_new = \<lparr>fs_queue = fq_new, fs_callers = 0, fs_asked = []\<rparr>"

inductive file_step :: "file_system \<Rightarrow> file_system \<Rightarrow> bool" where
  fs_ask: "file_step s (s\<lparr>fs_queue := (fs_queue s)\<lparr>fq_list := fq_list (fs_queue s) @ jobs\<rparr>, fs_callers := fs_callers s + 1,
      fs_asked := fs_asked s @ jobs\<rparr>)"
| fs_call: "0 < fs_callers s \<Longrightarrow> file_step s (s\<lparr>fs_queue := transmit_next accepts (fs_queue s), fs_callers := fs_callers s - 1\<rparr>)"
| fs_size: "file_step s (s\<lparr>fs_queue := (fs_queue s)\<lparr>fq_size := len, fq_done := got\<rparr>\<rparr>)"
| fs_timer: "fq_timer (fs_queue s) \<Longrightarrow> update_progress accepts ended (fs_queue s) = Some (again, q) \<Longrightarrow> file_step s (s\<lparr>fs_queue := q\<rparr>)"

text \<open>Nothing is left in the list unless a file is being transmitted or somebody is about to look.\<close>

definition files_kept :: "file_system \<Rightarrow> bool" where
  "files_kept s \<longleftrightarrow>
     map snd (fq_log (fs_queue s)) @ fq_list (fs_queue s) = fs_asked s \<and>
     (fq_list (fs_queue s) \<noteq> [] \<longrightarrow> fq_timer (fs_queue s) \<or> 0 < fs_callers s)"

lemma transmit_loop_keeps:
  "map snd (fq_log (transmit_loop accepts jobs q)) @ fq_list (transmit_loop accepts jobs q) = map snd (fq_log q) @ jobs \<and>
   (fq_list (transmit_loop accepts jobs q) \<noteq> [] \<longrightarrow> fq_timer (transmit_loop accepts jobs q))"
  by (induction accepts jobs q rule: transmit_loop.induct) (simp_all add: Let_def)

lemma transmit_next_keeps:
  "map snd (fq_log (transmit_next accepts q)) @ fq_list (transmit_next accepts q) = map snd (fq_log q) @ fq_list q \<and>
   (fq_list (transmit_next accepts q) \<noteq> [] \<longrightarrow> fq_timer (transmit_next accepts q))"
  using transmit_loop_keeps [of accepts "fq_list q" q] by (simp add: transmit_next_def)

lemma update_progress_keeps:
  assumes "update_progress accepts ended q = Some (again, q1)" "fq_timer q"
  shows "map snd (fq_log q1) @ fq_list q1 = map snd (fq_log q) @ fq_list q \<and> (fq_list q1 \<noteq> [] \<longrightarrow> fq_timer q1)"
  using assms transmit_next_keeps [of accepts] by (fastforce simp: update_progress_def Let_def split: if_splits)

interpretation file_lists: step_invariant "\<lambda>s. s = fs_new" file_step files_kept
proof unfold_locales
  fix s t :: file_system
  assume "file_step s t" "files_kept s"
  then show "files_kept t"
  proof cases
    case (fs_call accepts)
    then show ?thesis using \<open>files_kept s\<close> transmit_next_keeps [of accepts "fs_queue s"] by (auto simp: files_kept_def)
  next
    case (fs_timer accepts ended again q)
    then show ?thesis using \<open>files_kept s\<close> update_progress_keeps [of accepts ended "fs_queue s" again q] by (auto simp: files_kept_def)
  qed (auto simp: files_kept_def)
qed (simp add: files_kept_def fs_new_def fq_new_def)

lemma files_in_order:
  assumes "reach (\<lambda>s. s = fs_new) file_step s"
  shows "map snd (fq_log (fs_queue s)) @ fq_list (fs_queue s) = fs_asked s \<and>
    (fq_list (fs_queue s) \<noteq> [] \<and> fs_callers s = 0 \<longrightarrow> fq_timer (fs_queue s))"
  using file_lists.reachable_inv [OF assms] by (auto simp: files_kept_def)

text \<open>
  The handler itself sets the timer for the next file and then returns false: it cancels the timer first, so \<open>transmit_file\<close> may
  start it, and the new start survives the return.
\<close>

lemma restarted_in_call_back:
  assumes "find_timer tid t = Some ti" "ti_status ti = TIMER_STARTED" "ti_seq ti = prev_seq"
  shows "is_timer tid (snd (wait_handler [Cancel tid, Set_timer tid i cb] False False tid prev_seq t))"
proof -
  have "find_timer tid (timer_do (Set_timer tid i cb) (timer_do (Cancel tid) t)) =
      Some (ti\<lparr>ti_status := TIMER_STARTED, ti_interval := i, ti_call_back := Some cb, ti_seq := ti_seq ti + 1\<rparr>)"
    using assms(1) by (simp add: set_timer_def create_or_update_timer_def change_timer_status_def timer_simps find_timer_start)
  moreover have "ti_seq ti + 1 \<noteq> prev_seq" using assms(3) by simp
  ultimately show ?thesis using assms by (simp add: wait_handler_def is_timer_def Let_def)
qed

end
