(* ===== verification/Single_Service.thy ===== *)
theory Single_Service
  imports Link_Life
begin

text \<open>
  A service that is one client link (\<open>single_socket_service\<close> of \<open>socket_service.h\<close>, \<open>i_service\<close> of \<open>service_pump.h\<close>): what starting
  and stopping the service does to the link of theory Link_Life.
\<close>

section \<open>The service\<close>

record single =
  ss_started :: bool
  ss_link :: link

definition single_new :: single where
  "single_new = \<lparr>ss_started = False, ss_link = link_new Client\<rparr>"

definition link_reset_refs :: "link \<Rightarrow> link" where
  "link_reset_refs lk = lk\<lparr>lk_timers := reset_io_context_refs (lk_timers lk)\<rparr>"

definition single_init :: "link_env \<Rightarrow> link \<Rightarrow> bool \<times> link" where
  "single_init env lk = (let lk1 = link_start Client env (link_reset_refs lk) in (lk_started lk1, lk1))"

definition single_uninit :: "bool \<Rightarrow> link_env \<Rightarrow> link \<Rightarrow> link" where
  "single_uninit in_strand env lk = client_graceful_shutdown in_strand False env lk"

definition single_start_service :: "link_env \<Rightarrow> single \<Rightarrow> single" where
  "single_start_service env s =
     (if \<not> ss_started s then let (ok, lk) = single_init env (ss_link s) in \<lparr>ss_started = ok, ss_link = lk\<rparr> else s)"

definition single_stop_service :: "bool \<Rightarrow> link_env \<Rightarrow> single \<Rightarrow> single" where
  "single_stop_service in_strand env s =
     (if ss_started s then s\<lparr>ss_link := single_uninit in_strand env (ss_link s), ss_started := False\<rparr> else s)"

inductive single_step :: "single \<Rightarrow> single \<Rightarrow> bool" where
  single_started: "single_step s (single_start_service env s)"
| single_stopped: "single_step s (single_stop_service False env s)"
| single_link: "link_step Client (ss_link s) lk \<Longrightarrow> single_step s (s\<lparr>ss_link := lk\<rparr>)"

lemma reset_refs_view:
  "find_timer i (reset_io_context_refs t) = find_timer i t" "tm_waits (reset_io_context_refs t) = tm_waits t"
  by (simp_all add: reset_io_context_refs_def add_io_context_refs_def find_timer_def)

lemma good_reset_refs: "good role lk \<Longrightarrow> good role (link_reset_refs lk)"
proof (rule good_view)
  assume "good role lk"
  then show "link_inv role (link_reset_refs lk)"
    by (simp add: good_def link_inv_def link_reset_refs_def closing_def is_timer_def cb_of_def reset_refs_view starts_def closes_def)
  show "dview (link_reset_refs lk) = dview lk"
    by (simp add: dview_def waits_of_def link_reset_refs_def reset_refs_view)
qed

text \<open>The link of a service is a link: what holds of all links (theory Link_Life) holds of it.\<close>

interpretation single_link: step_invariant "\<lambda>s. s = single_new" single_step "\<lambda>s. good Client (ss_link s)"
proof unfold_locales
  fix s t
  assume "single_step s t" "good Client (ss_link s)"
  then show "good Client (ss_link t)"
  proof cases
    case (single_started env)
    then show ?thesis using \<open>good Client (ss_link s)\<close>
      by (auto simp: single_start_service_def single_init_def Let_def intro: good_start good_reset_refs)
  next
    case (single_stopped env)
    then show ?thesis using \<open>good Client (ss_link s)\<close> good_graceful [of Client "ss_link s" False False env]
      by (auto simp: single_stop_service_def single_uninit_def graceful_shutdown_def)
  next
    case (single_link lk)
    then show ?thesis using \<open>good Client (ss_link s)\<close> good_link_step by simp
  qed
qed (simp add: single_new_def good_new)

lemma single_one_on_close:
  assumes "reach (\<lambda>s. s = single_new) single_step s"
  shows "starts (ss_link s) = closes (ss_link s) + of_bool (lk_started (ss_link s) \<or> closing (ss_link s)) \<and>
    \<not> (lk_started (ss_link s) \<and> closing (ss_link s))"
  using single_link.reachable_inv [OF assms] by (simp add: good_def link_inv_def)

section \<open>Starting and stopping\<close>

text \<open>A service starts when its link is closed, and not while it is closing.\<close>

lemma single_starts:
  "\<not> ss_started s \<Longrightarrow> \<not> lk_started (ss_link s) \<Longrightarrow> \<not> closing (ss_link s) \<Longrightarrow> \<not> lk_stopped (ss_link s) \<Longrightarrow> ev_bind env \<Longrightarrow>
   ss_started (single_start_service env s) \<and> lk_started (ss_link (single_start_service env s)) \<and>
   is_timer TIMER_CONNECT (lk_timers (ss_link (single_start_service env s)))"
  by (simp add: single_start_service_def single_init_def link_start_def link_reset_refs_def closing_def is_timer_def reset_refs_view
      do_start_def link_set_timer_def say_def find_set_timer)

lemma single_closing_refused:
  "closing (ss_link s) \<Longrightarrow> \<not> lk_started (ss_link s) \<Longrightarrow> \<not> ss_started (single_start_service env s) \<or> ss_started s"
  by (simp add: single_start_service_def single_init_def link_start_def link_reset_refs_def closing_def is_timer_def reset_refs_view Let_def)

text \<open>
  Stopping the service is \<open>graceful_shutdown\<close>, which says that the link is not to reconnect. Starting it again does not take that
  back: a connection attempt that fails is then the last one, and so is a connection that breaks.
\<close>

lemma stop_forgets_reconnecting:
  "ss_started s \<Longrightarrow> \<not> lk_need_reconnect (ss_link (single_stop_service in_strand env s))"
  by (auto simp: single_stop_service_def single_uninit_def client_graceful_shutdown_def client_force_shutdown_def dispatch_task_def
      force_shutdown_in_def graceful_shutdown_in_def shutdown_def link_close_def Let_def after_close_def on_close_defs say_def
      link_set_timer_def split: link_task.splits if_splits)

lemma start_keeps_reconnecting:
  "lk_need_reconnect (ss_link (single_start_service env s)) = lk_need_reconnect (ss_link s)"
  by (simp add: single_start_service_def single_init_def link_start_def link_reset_refs_def do_start_def tcp_do_start_def say_def
      link_set_timer_def Let_def)

lemma failed_attempt_is_last:
  assumes "\<not> lk_need_reconnect lk" "\<not> is_timer TIMER_CONNECT (lk_timers lk)"
  shows "run_cb Client env Cb_connect_delay lk = (False, (say Reconnect_abandoned lk)\<lparr>lk_tasks := lk_tasks lk @ [Task_force_shutdown]\<rparr>)"
  using assms by (simp add: prepare_next_reconnect_def dispatch_task_def say_def)

lemma restarted_service_gives_up:
  assumes "ss_started s" and "s1 = single_stop_service False env s" and "\<not> lk_need_reconnect (ss_link s2)" "\<not> ss_started s2"
    and "s3 = single_start_service env2 s2" and "\<not> is_timer TIMER_CONNECT (lk_timers (ss_link s3))"
  shows "\<not> lk_need_reconnect (ss_link s1) \<and>
    lk_tasks (snd (run_cb Client env3 Cb_connect_delay (ss_link s3))) = lk_tasks (ss_link s3) @ [Task_force_shutdown]"
  using assms stop_forgets_reconnecting start_keeps_reconnecting failed_attempt_is_last by simp

end
