(* ===== verification/Spec2Isabelle.thy ===== *)
theory Spec2Isabelle
  imports Basic_Buffer Packer Simple_Unpackers Flexible_Unpacker Prefix_Suffix Msg_Queue Ext_Util Timer Object_Pool Send_Path Msg_Dispatch Service_Pump Socks Link_Life Udp Reliable Server Safe_Send Tcp_Link Sync_Send Sync_Recv Heartbeat Secure_Link Start_Lock Batch_Dispatch File_Transfer Shrink_Send Passive_Recv Echo Callbacks File_Put File_Queue Single_Service
begin

text \<open>
  A verification of ASCS, a header-only C++ library of TCP and UDP clients and servers over Boost.Asio
  (\<open>include/ascs\<close>).

  \<^bold>\<open>The program.\<close> A service pump owns one or more io_contexts and the threads that run them, and starts and stops the
  services registered with it. A service is a socket, a pool of client sockets or a server, whose pool holds the
  accepted links. A socket is a stack of classes: the count of asynchronous calls in flight (\<open>tracked_executor.h\<close>),
  timers (\<open>timer.h\<close>), queues, statistics, dispatching and heartbeat (\<open>socket.h\<close>), reading and writing
  (\<open>tcp/socket.h\<close>, \<open>udp/socket.h\<close>), and the endpoint (client, server, SOCKS, SSL, WebSocket, reliable UDP).
  Sending: a message is packed, queued in the send buffer, and written by handlers that run in the socket's strand.
  Receiving: the unpacker lends its buffer to a read, cuts messages out of what arrived, and the dispatcher hands
  them one at a time to \<open>on_msg_handle\<close>; a full receive buffer suspends reading.

  \<^bold>\<open>How it is modelled.\<close> Data are records and datatypes with the fields of the classes. A sequential operation is a
  function from the state (and arguments) to the result and the new state, with every branch of the code. Where
  threads, the strand and the operating system interleave, a component is a step relation: a step is one handler or one
  access to the state the threads share, \<open>reach\<close> (theory Ascs_Prelude) collects the states it can get to, and
  the locale \<open>step_invariant\<close> turns an invariant that every step keeps into a fact about all of them.
  Its counterpart \<open>step_measure\<close> takes a measure that every step makes smaller: runs are bounded and come to rest. Errors are values. What is
  not in the repository is an argument: allocation failures, clocks, KCP, the IP address parser, error codes and the
  order in which Boost.Asio runs handlers. The build is 64-bit little-endian, gcc or clang, with \<open>NDEBUG\<close>, Boost.Asio 1.13 or newer
  and the default macros of \<open>config.h\<close> (so \<open>ASCS_DELAY_CLOSE\<close> is 0: a closing socket waits for its last asynchronous call), unless a theory says
  otherwise; atomics start at 0, as they do since C++20; message and header sizes are an argument (\<open>ext_cfg\<close>).

  \<^bold>\<open>Theories\<close> (files and functions are those under \<open>include/ascs\<close>):
  \<^item> Ascs_Prelude: bytes, \<open>size_t\<close> arithmetic, byte orders, reachability, shared lemmas. Ascs_Config: the macros.
  \<^item> Basic_Buffer (\<open>ext/ext.h\<close>): every operation of \<open>basic_buffer\<close>; runs keep its representation invariant and refine byte strings.
  \<^item> Packer (\<open>ext/packer.h\<close>): the packers on every branch, with the wrap-around of sizes.
  \<^item> Stream_Reader (\<open>tcp/socket.h\<close>): \<open>async_read\<close> with the unpacker's completion condition over a network that segments freely.
    Unpacker, Simple_Unpackers, Flexible_Unpacker, Prefix_Suffix (\<open>ext/unpacker.h\<close>) are the unpackers as clients of
    that loop (the locale of sessions is in Stream_Reader and interpreted for them): bounds of the buffers, every segmentation delivers the
    messages in the stream, behind a bad header those of what follows it, sessions end, packing and unpacking is the identity.
  \<^item> Msg_Queue (\<open>container.h\<close>): the queue and its byte count. Ext_Util (\<open>ext/ext.h\<close>, \<open>base.h\<close>): splitting, clocks, statistics.
  \<^item> Timer (\<open>timer.h\<close>): timers with their cancelled and queued waits. Object_Pool (\<open>object_pool.h\<close>): ids, valid and invalid objects.
  \<^item> Send_Path (\<open>socket.h\<close>, \<open>tcp/socket.h\<close>, \<open>base.h\<close>): sending in micro steps. Nothing is lost, doubled or reordered, one
    write at a time, and nothing is left behind. Safe_Send: the sending macros that wait. Sync_Send: sending with an answer (\<open>ASCS_SYNC_SEND\<close>).
    Shrink_Send: a full send buffer that discards its oldest messages (\<open>ASCS_SHRINK_SEND_BUFFER\<close>): bounds and order.
  \<^item> Msg_Dispatch (\<open>socket.h\<close>): flow control and dispatching; Batch_Dispatch: the same with \<open>ASCS_DISPATCH_BATCH_MSG\<close> and \<open>ASCS_SYNC_DISPATCH\<close>. Sync_Recv: receiving by a waiting call (\<open>ASCS_SYNC_RECV\<close>).
    Passive_Recv: reads that the application asks for (\<open>ASCS_PASSIVE_RECV\<close>): one at a time, and always another one.
  \<^item> Tcp_Link: packer, sender, network, unpacker and dispatcher together, from one application to the other.
  \<^item> Link_Life (\<open>socket.h\<close>, \<open>tcp/*.h\<close>, \<open>tracked_executor.h\<close>): starting, shutting down, closing and reconnecting.
    Start_Lock: \<open>start\<close> and \<open>close\<close> by several threads at once.
    Secure_Link (\<open>tcp/ssl\<close>, \<open>tcp/websocket\<close>): the same with handshakes. Heartbeat: who is taken for dead, and when.
    Socks (\<open>tcp/proxy/socks.h\<close>): the negotiation with a proxy.
  \<^item> Udp (\<open>udp/socket.h\<close>) and Reliable (\<open>udp/reliable_socket.h\<close>): datagrams, and messages through KCP.
  \<^item> Service_Pump (\<open>service_pump.h\<close>): references to io_contexts, threads, services. Server (\<open>tcp/server.h\<close>, \<open>tcp/client.h\<close>,
    \<open>socket_service.h\<close>): the accept loop and the pools of links. Single_Service (\<open>socket_service.h\<close>): a service of one client.
  \<^item> File_Socket (\<open>examples/file_common\<close>, \<open>file_client\<close>, \<open>file_server\<close>): the sockets that fetch and store files. File_Transfer: a
    file fetched over several links at once is the server's file, and the links end. File_Put: the same for a file that is stored on the server. File_Queue: the list of files and
    the progress timer. Echo (\<open>examples/echo_client\<close>, \<open>echo_server\<close>): the echo test ends and finds no error.
  \<^item> Callbacks (\<open>ext/callbacks.h\<close>): functions that are registered instead of virtual functions, for the server.

  \<^bold>\<open>Bounds and termination.\<close> The parsing loops are functions with a measure, the bytes that remain (doubled, plus one while
  no length is known); the loops over a string or a count recurse on a number that is exactly the iterations left. The negotiation
  with a proxy ends by a measure, after at most 195 completions. Sending comes to rest within \<open>send_work\<close> (\<open>udp_work\<close>) steps of the
  state, the threads of synchronous receiving within 15, fetching a file within three steps and two for each byte on every link, storing one within three steps for each link, three for
  each byte on it, and three; a session of the unpacker takes at most two steps for each byte, and one. A graceful shutdown takes 500 rounds of 10 ms by default, that of a
  secure layer one round of 5 s. The waiting sending functions and the loop that drains KCP may run for ever: they are partial functions, \<open>None\<close>
  when they do not return, with theorems that say when they return.

  \<^bold>\<open>What does not hold\<close> is stated as a theorem or lemma about the code as it is, beside the component: a dispatcher that
  stays blocked after a reconnection, writes on sockets that are not ready, promises that are never or twice set, discarded messages somebody waits for, lost wake-ups, orders of an upload that are ignored, a reliable socket that never sends again,
  stalled streams, io_contexts without threads, replies of SOCKS servers cut at the wrong place, targets of SOCKS requests that are ignored and others.

  \<^bold>\<open>Not modelled.\<close> Logging and \<open>show_status\<close>; \<open>executor.h\<close>, which forwards to Boost.Asio; the type aliases of \<open>ext/tcp.h\<close> and
  \<open>ext/udp.h\<close>; Unix domain sockets (the same templates with another address type); the version checks of \<open>config.h\<close>;
  the command lines of the examples and the random test of the echo client.
\<close>

end
